(* ===== verification/Model.thy ===== *)
theory Model
  imports Prelude
begin

text \<open>
  The data model (\<open>src/model.rs\<close>) and the error type (\<open>src/error.rs\<close>): keys with their path
  validation and parent function, inodes, file-system operations, ordered transactions, batches,
  results and records. A \<open>BTreeSet\<close> is a set, a \<open>BTreeMap\<close> a map; where the code iterates over
  one, the model iterates over \<open>sorted_list_of_set\<close>. Strings are byte lists, compared
  lexicographically by byte as the code's \<open>String\<close> is.
\<close>

section \<open>Errors\<close>

text \<open>
  One constructor per variant. A message keeps its fixed text and drops the interpolated values;
  the variants that wrap an error of another crate carry an opaque text.
\<close>

datatype error =
    InvalidPath string
  | InvalidProto string
  | InvalidBatch string
  | BatchTooLarge nat nat
  | Redb string
  | RedbDatabase string
  | RedbTable string
  | RedbTransaction string
  | RedbCommit string
  | RedbStorage string
  | Bincode string
  | TonicTransport string
  | TonicStatus string
  | ChannelClosed string
  | TaskJoin string
  | LockInvariant string
  | SpeculationFailed string
  | MissingPeer u64
  | MissingBatch u64
  | MissingTx u64
  | Checker string

type_synonym 'a result = "error + 'a"

abbreviation Ok :: "'a \<Rightarrow> 'a result" where "Ok \<equiv> Inr"
abbreviation Err :: "error \<Rightarrow> 'a result" where "Err \<equiv> Inl"

datatype status_code = InvalidArgument | Internal

fun status_of_error :: "error \<Rightarrow> status_code" where
  "status_of_error (InvalidPath _) = InvalidArgument"
| "status_of_error (InvalidProto _) = InvalidArgument"
| "status_of_error (InvalidBatch _) = InvalidArgument"
| "status_of_error (BatchTooLarge _ _) = InvalidArgument"
| "status_of_error _ = Internal"

section \<open>Keys\<close>

type_synonym tx_id = u64
type_synonym batch_id = u64
type_synonym shard_id = u64

datatype key = Key (as_str: string)

instantiation key :: linorder
begin

definition less_eq_key :: "key \<Rightarrow> key \<Rightarrow> bool" where
  "less_eq_key a b \<longleftrightarrow> as_str a \<le> as_str b"

definition less_key :: "key \<Rightarrow> key \<Rightarrow> bool" where
  "less_key a b \<longleftrightarrow> as_str a < as_str b"

instance
  by standard (auto simp: less_eq_key_def less_key_def key.expand)

end

abbreviation slash :: char where "slash \<equiv> CHR ''/''"

definition validate_path :: "string \<Rightarrow> unit result" where
  "validate_path path =
     (if path = [] \<or> \<not> starts_with slash path then Err (InvalidPath path)
      else if path = ''/'' then Ok ()
      else if ends_with slash path then Err (InvalidPath path)
      else if \<exists>segment \<in> set (drop 1 (split_on slash path)).
             segment = [] \<or> segment = ''.'' \<or> segment = ''..''
        then Err (InvalidPath path)
      else Ok ())"

definition key_new :: "string \<Rightarrow> key result" where
  "key_new path = rbind (validate_path path) (\<lambda>_. Ok (Key path))"

definition root :: key where
  "root = Key ''/''"

definition parent :: "key \<Rightarrow> key result" where
  "parent k =
     (if as_str k = ''/'' then Err (InvalidPath ''root has no parent'')
      else (case rfind slash (as_str k) of
              None \<Rightarrow> Err (InvalidPath (as_str k))
            | Some idx \<Rightarrow> if idx = 0 then Ok root else Ok (Key (take idx (as_str k)))))"

definition parent_key :: "key \<Rightarrow> key result" where
  "parent_key path = parent path"

text \<open>The field of \<open>Key\<close> is private, so every key the code builds passed \<open>validate_path\<close>.\<close>

definition valid_key :: "key \<Rightarrow> bool" where
  "valid_key k \<longleftrightarrow> validate_path (as_str k) = Ok ()"

section \<open>Inodes, operations, transactions\<close>

datatype node_kind = File | Directory

record inode =
  kind :: node_kind
  child_count :: u64

definition inode_file :: inode where
  "inode_file = \<lparr>kind = File, child_count = 0\<rparr>"

definition inode_directory :: "u64 \<Rightarrow> inode" where
  "inode_directory n = \<lparr>kind = Directory, child_count = n\<rparr>"

datatype fs_op =
    Create key
  | Mkdir key
  | Unlink key
  | Rmdir key
  | Rename key key
  | Stat key

record ordered_tx =
  tx_id :: tx_id
  batch_index :: u32
  op :: fs_op
  read_set :: "key set"
  write_set :: "key set"

record batch =
  batch_id :: batch_id
  txs :: "ordered_tx list"

datatype tx_result = TxOk | NotFound | AlreadyExists | NotDirectory | DirectoryNotEmpty | TxInvalid

datatype read_value = Present inode | Missing

datatype read_phase = Calvin | SccEffect | SccCondition | AriaFallback

datatype local_read_status = StatusOk | StatusSpeculationFailed

datatype write_op = Put key inode | Delete key

fun write_key :: "write_op \<Rightarrow> key" where
  "write_key (Put k _) = k"
| "write_key (Delete k) = k"

record tx_output =
  result :: tx_result
  writes :: "write_op list"

record tx_result_record =
  rec_tx_id :: tx_id
  rec_shard_id :: shard_id
  rec_result :: tx_result

record reorder_record =
  reorder_batch_id :: batch_id
  speculative_success_indices :: "nat list"
  fallback_indices :: "nat list"

type_synonym fs_state = "key \<rightharpoonup> inode"
type_synonym reads = "key \<rightharpoonup> read_value"

fun op_keys :: "fs_op \<Rightarrow> key set" where
  "op_keys (Create p) = {p}"
| "op_keys (Mkdir p) = {p}"
| "op_keys (Unlink p) = {p}"
| "op_keys (Rmdir p) = {p}"
| "op_keys (Rename s d) = {s, d}"
| "op_keys (Stat p) = {p}"

definition valid_op :: "fs_op \<Rightarrow> bool" where
  "valid_op o' \<longleftrightarrow> (\<forall>k \<in> op_keys o'. valid_key k)"

text \<open>The values of the keys \<open>K\<close> in a state, as a read returns them.\<close>

definition read_value_of :: "inode option \<Rightarrow> read_value" where
  "read_value_of v = (case v of Some i \<Rightarrow> Present i | None \<Rightarrow> Missing)"

definition reads_of :: "fs_state \<Rightarrow> key set \<Rightarrow> reads" where
  "reads_of s K = (\<lambda>k. if k \<in> K then Some (read_value_of (s k)) else None)"

definition state_of_reads :: "reads \<Rightarrow> fs_state" where
  "state_of_reads rs = (\<lambda>k. case rs k of Some (Present i) \<Rightarrow> Some i | _ \<Rightarrow> None)"

lemma read_value_of_inject [simp]: "read_value_of v = read_value_of w \<longleftrightarrow> v = w"
  by (simp add: read_value_of_def split: option.splits)

lemma read_value_of_cases [simp]:
  "read_value_of v = Present i \<longleftrightarrow> v = Some i"
  "read_value_of v = Missing \<longleftrightarrow> v = None"
  by (auto simp: read_value_of_def split: option.splits)

lemma state_of_reads_of: "k \<in> K \<Longrightarrow> state_of_reads (reads_of s K) k = s k"
  by (simp add: state_of_reads_def reads_of_def read_value_of_def split: option.splits)

lemma dom_reads_of [simp]: "dom (reads_of s K) = K"
  by (auto simp: reads_of_def split: if_splits)

lemma reads_of_state_of_reads: "dom rs = K \<Longrightarrow> reads_of (state_of_reads rs) K = rs"
  by (rule ext) (auto simp: reads_of_def state_of_reads_def read_value_of_def
      split: option.splits read_value.splits)

text \<open>Applying a list of writes to a state.\<close>

fun apply_write :: "write_op \<Rightarrow> fs_state \<Rightarrow> fs_state" where
  "apply_write (Put k v) s = s(k \<mapsto> v)"
| "apply_write (Delete k) s = s(k := None)"

definition apply_writes :: "fs_state \<Rightarrow> write_op list \<Rightarrow> fs_state" where
  "apply_writes s ws = fold apply_write ws s"

lemma apply_writes_simps [simp]:
  "apply_writes s [] = s"
  "apply_writes s (w # ws) = apply_writes (apply_write w s) ws"
  "apply_writes s (ws @ vs) = apply_writes (apply_writes s ws) vs"
  by (simp_all add: apply_writes_def)

lemma apply_write_other: "k \<noteq> write_key w \<Longrightarrow> apply_write w s k = s k"
  by (cases w) auto

lemma apply_writes_other: "k \<notin> write_key ` set ws \<Longrightarrow> apply_writes s ws k = s k"
  by (induction ws arbitrary: s) (auto simp: apply_write_other)

lemma apply_writes_cong:
  "s k = t k \<Longrightarrow> apply_writes s ws k = apply_writes t ws k"
proof (induction ws arbitrary: s t)
  case (Cons w ws)
  then have "apply_write w s k = apply_write w t k" by (cases w) auto
  then show ?case unfolding apply_writes_simps by (rule Cons.IH)
qed simp

lemma apply_writes_determined:
  "k \<in> write_key ` set ws \<Longrightarrow> apply_writes s ws k = apply_writes t ws k"
proof (induction ws arbitrary: s t)
  case (Cons w ws)
  show ?case
  proof (cases "k \<in> write_key ` set ws")
    case True
    then show ?thesis unfolding apply_writes_simps by (rule Cons.IH)
  next
    case False
    with Cons.prems have "apply_write w s k = apply_write w t k" by (cases w) auto
    then show ?thesis unfolding apply_writes_simps by (rule apply_writes_cong)
  qed
qed simp

lemma apply_writes_filter:
  "apply_writes s (filter (\<lambda>w. P (write_key w)) ws) k = (if P k then apply_writes s ws k else s k)"
proof (induction ws arbitrary: s)
  case (Cons w ws)
  show ?case
  proof (cases "P (write_key w)")
    case True
    then show ?thesis using Cons apply_write_other [of k w s] by auto
  next
    case False
    then have "P k \<Longrightarrow> apply_write w s k = s k"
      using apply_write_other [of k w s] by auto
    then have "P k \<Longrightarrow> apply_writes (apply_write w s) ws k = apply_writes s ws k"
      by (rule apply_writes_cong)
    then show ?thesis using Cons.IH [of s] False by simp
  qed
qed simp

end
