(* ===== verification/Paths.thy ===== *)
theory Paths
  imports Model
begin

text \<open>
  Paths as segment lists. A valid key (one that \<open>Key::new\<close> of \<open>src/model.rs\<close> accepts) is the
  root or a slash before each of its segments; \<open>segments\<close> reads a key so, \<open>key_of_segments\<close> writes
  it back. On segments, \<open>Key::parent\<close> drops the last one and \<open>is_strict_ancestor\<close> of
  \<open>src/scc.rs\<close> is the strict prefix order.
\<close>

definition good_segment :: "string \<Rightarrow> bool" where
  "good_segment s \<longleftrightarrow> s \<noteq> [] \<and> s \<noteq> ''.'' \<and> s \<noteq> ''..'' \<and> slash \<notin> set s"

definition good_segments :: "string list \<Rightarrow> bool" where
  "good_segments ss \<longleftrightarrow> (\<forall>s \<in> set ss. good_segment s)"

definition path_string :: "string list \<Rightarrow> string" where
  "path_string ss = concat (map ((#) slash) ss)"

definition key_of_segments :: "string list \<Rightarrow> key" where
  "key_of_segments ss = (if ss = [] then root else Key (path_string ss))"

definition segments :: "key \<Rightarrow> string list" where
  "segments k = (if k = root then [] else tl (split_on slash (as_str k)))"

lemma path_string_simps [simp]:
  "path_string [] = []"
  "path_string (s # ss) = slash # s @ path_string ss"
  "path_string (ss @ ts) = path_string ss @ path_string ts"
  by (simp_all add: path_string_def)

lemma path_string_Nil_iff [simp]: "path_string ss = [] \<longleftrightarrow> ss = []"
  by (cases ss) simp_all

lemma good_segments_simps [simp]:
  "good_segments []"
  "good_segments (s # ss) \<longleftrightarrow> good_segment s \<and> good_segments ss"
  "good_segments (ss @ ts) \<longleftrightarrow> good_segments ss \<and> good_segments ts"
  by (auto simp: good_segments_def)

lemma good_segment_slash: "good_segment s \<Longrightarrow> slash \<notin> set s"
  by (simp add: good_segment_def)

lemma good_segment_Nil: "good_segment s \<Longrightarrow> s \<noteq> []"
  by (simp add: good_segment_def)

lemma split_path_string:
  "good_segments ss \<Longrightarrow> slash \<notin> set w \<Longrightarrow> split_on slash (w @ path_string ss) = w # ss"
proof (induction ss arbitrary: w)
  case Nil
  then show ?case by (simp add: split_on_no_sep)
next
  case (Cons s ss)
  then have "split_on slash (s @ path_string ss) = s # ss"
    using Cons.IH [of s] good_segment_slash [of s] by simp
  with Cons.prems show ?case by (simp add: split_on_append_sep)
qed

lemma split_path_string': "good_segments ss \<Longrightarrow> split_on slash (path_string ss) = [] # ss"
  using split_path_string [of ss "[]"] by simp

lemma path_string_last:
  "good_segments ss \<Longrightarrow> ss \<noteq> [] \<Longrightarrow> path_string ss \<noteq> ''/'' \<and> \<not> ends_with slash (path_string ss)"
proof (induction ss rule: rev_induct)
  case (snoc s ss)
  then have "s \<noteq> []" "slash \<notin> set s"
    by (auto dest: good_segment_slash good_segment_Nil)
  then obtain t x where "s = t @ [x]" "x \<noteq> slash"
    by (cases s rule: rev_cases) auto
  then show ?case
    by (cases ss) (auto simp: ends_with_def starts_with_def)
qed simp

lemma split_on_head: "starts_with slash p \<Longrightarrow> split_on slash p = [] # tl (split_on slash p)"
  by (auto simp: starts_with_iff)

lemma join_tail: "ss \<noteq> [] \<Longrightarrow> slash # join_on slash ss = path_string ss"
  by (induction slash ss rule: join_on.induct) auto

lemma path_string_tl_split:
  assumes "starts_with slash p" shows "path_string (tl (split_on slash p)) = p"
proof -
  let ?t = "tl (split_on slash p)"
  have s: "split_on slash p = [] # ?t" by (rule split_on_head [OF assms])
  show ?thesis
  proof (cases "?t = []")
    case True
    then have "p = join_on slash [[]]" using s join_split [of slash p] by simp
    with assms show ?thesis by (simp add: starts_with_def)
  next
    case False
    then obtain y ys where t: "?t = y # ys" by (cases ?t) auto
    then have "p = slash # join_on slash ?t" using s join_split [of slash p] by (metis join_on.simps(3) append_Nil)
    then show ?thesis using join_tail [OF False] by simp
  qed
qed

subsection \<open>Valid keys\<close>

lemma validate_path_segments:
  assumes "good_segments ss"
  shows "validate_path (as_str (key_of_segments ss)) = Ok ()"
proof (cases ss)
  case Nil
  then show ?thesis by (simp add: validate_path_def key_of_segments_def root_def starts_with_def)
next
  case (Cons s ts)
  let ?p = "path_string ss"
  have "?p \<noteq> []" "starts_with slash ?p" "?p \<noteq> ''/''" "\<not> ends_with slash ?p"
    using path_string_last [OF assms] Cons by (auto simp: starts_with_def)
  moreover have "set (drop 1 (split_on slash ?p)) = set ss"
    by (simp add: split_path_string' [OF assms])
  ultimately show ?thesis
    using assms Cons by (auto simp: validate_path_def key_of_segments_def
        good_segments_def good_segment_def simp del: path_string_simps)
qed

lemma valid_key_segments [simp]: "good_segments ss \<Longrightarrow> valid_key (key_of_segments ss)"
  by (simp add: valid_key_def validate_path_segments)

lemma valid_root [simp]: "valid_key root"
  by (simp add: valid_key_def validate_path_def root_def starts_with_def)

lemma valid_key_good:
  assumes "valid_key k"
  shows "good_segments (segments k)" "key_of_segments (segments k) = k"
proof -
  have "good_segments (segments k) \<and> key_of_segments (segments k) = k"
  proof (cases "k = root")
    case True
    then show ?thesis by (simp add: segments_def key_of_segments_def)
  next
    case False
    let ?t = "tl (split_on slash (as_str k))"
    have ns: "as_str k \<noteq> ''/''" using False by (metis key.collapse root_def)
    with assms have st: "starts_with slash (as_str k)"
      and seg: "\<forall>s \<in> set ?t. s \<noteq> [] \<and> s \<noteq> ''.'' \<and> s \<noteq> ''..''"
      by (auto simp: valid_key_def validate_path_def drop_Suc split: if_splits)
    have p: "path_string ?t = as_str k" by (rule path_string_tl_split [OF st])
    have "?t \<noteq> []" using p st by (auto simp: starts_with_def)
    then show ?thesis
      using p seg False split_on_segments_no_sep [of _ slash "as_str k"]
      by (auto simp: segments_def key_of_segments_def good_segments_def good_segment_def
          dest: list.set_sel(2) [rotated])
  qed
  then show "good_segments (segments k)" "key_of_segments (segments k) = k" by auto
qed

lemma segments_key_of_segments [simp]:
  assumes "good_segments ss" shows "segments (key_of_segments ss) = ss"
proof (cases ss)
  case (Cons s ts)
  then show ?thesis
    using path_string_last [OF assms] assms
    by (auto simp: segments_def key_of_segments_def root_def split_path_string'
        simp del: split_on.simps path_string_simps(2))
qed (simp add: segments_def key_of_segments_def)

lemma valid_key_iff: "valid_key k \<longleftrightarrow> (\<exists>ss. good_segments ss \<and> k = key_of_segments ss)"
  by (metis valid_key_good valid_key_segments)

lemma valid_keyE:
  assumes "valid_key k"
  obtains ss where "good_segments ss" "k = key_of_segments ss" "segments k = ss"
  using assms valid_key_good by metis

lemma segments_inj: "valid_key a \<Longrightarrow> valid_key b \<Longrightarrow> segments a = segments b \<longleftrightarrow> a = b"
  by (metis valid_key_good(2))

lemma segments_Nil_iff: "valid_key k \<Longrightarrow> segments k = [] \<longleftrightarrow> k = root"
  by (metis key_of_segments_def segments_def valid_key_good(2))

lemma key_new_Ok_iff: "key_new p = Ok k \<longleftrightarrow> k = Key p \<and> valid_key k"
  by (auto simp: key_new_def valid_key_def res_simps)

subsection \<open>Parents and ancestors\<close>

lemma parent_segments:
  assumes "good_segments (ss @ [s])"
  shows "parent (key_of_segments (ss @ [s])) = Ok (key_of_segments ss)"
proof -
  have k: "as_str (key_of_segments (ss @ [s])) = path_string ss @ slash # s"
    by (simp add: key_of_segments_def)
  have "path_string ss @ slash # s \<noteq> ''/''"
    using assms by (cases ss) (auto dest: good_segment_Nil)
  moreover have "rfind slash (path_string ss @ slash # s) = Some (length (path_string ss))"
    using assms by (intro rfind_append_sep) (auto dest: good_segment_slash)
  ultimately show ?thesis
    by (simp add: parent_def k key_of_segments_def)
qed

lemma parent_root [simp]: "parent root = Err (InvalidPath ''root has no parent'')"
  by (simp add: parent_def root_def)

lemma parent_Ok:
  assumes "valid_key k" "k \<noteq> root"
  shows "parent k = Ok (key_of_segments (butlast (segments k)))"
proof -
  obtain ss where ss: "good_segments ss" "k = key_of_segments ss" "segments k = ss"
    using assms(1) by (rule valid_keyE)
  then obtain ts t where "ss = ts @ [t]" using assms(2)
    by (cases ss rule: rev_cases) (auto simp: key_of_segments_def)
  with ss show ?thesis by (simp add: parent_segments)
qed

lemma parentE:
  assumes "valid_key k" "k \<noteq> root"
  obtains p s where "parent k = Ok p" "valid_key p" "segments k = segments p @ [s]" "good_segment s"
proof -
  obtain ss where ss: "good_segments ss" "k = key_of_segments ss" "segments k = ss"
    using assms(1) by (rule valid_keyE)
  then obtain ts t where "ss = ts @ [t]" using assms(2)
    by (cases ss rule: rev_cases) (auto simp: key_of_segments_def)
  with ss that [of "key_of_segments ts" t] show ?thesis by (simp add: parent_segments)
qed

lemma parent_valid: "valid_key k \<Longrightarrow> parent k = Ok p \<Longrightarrow> valid_key p"
  by (metis parentE parent_root sum.distinct(1) sum.inject(2))

lemma parent_length:
  "valid_key k \<Longrightarrow> parent k = Ok p \<Longrightarrow> length (segments k) = Suc (length (segments p))"
  by (metis parentE parent_root length_append_singleton sum.distinct(1) sum.inject(2))

lemma parent_neq: "valid_key k \<Longrightarrow> parent k = Ok p \<Longrightarrow> p \<noteq> k"
  using parent_length by fastforce

lemma parent_not_root: "parent k = Ok p \<Longrightarrow> k \<noteq> root"
  by auto

lemma parent_Ok_iff_segments:
  assumes "valid_key k" "valid_key p"
  shows "parent k = Ok p \<longleftrightarrow> k \<noteq> root \<and> segments p = butlast (segments k)"
  using assms parent_Ok [of k] valid_key_good [of p] parent_not_root [of k p]
  by (metis butlast_snoc parentE sum.inject(2))

definition is_strict_ancestor :: "key \<Rightarrow> key \<Rightarrow> bool" where
  "is_strict_ancestor ancestor descendant =
     (if as_str ancestor = ''/'' then as_str descendant \<noteq> ''/''
      else (case strip_prefix (as_str ancestor) (as_str descendant) of
              None \<Rightarrow> False
            | Some rest \<Rightarrow> starts_with slash rest))"

lemma path_string_prefix:
  "good_segments as \<Longrightarrow> good_segments ds \<Longrightarrow>
     (\<exists>t. path_string ds = path_string as @ slash # t) \<longleftrightarrow> strict_prefix as ds"
proof (induction as arbitrary: ds)
  case Nil
  then show ?case by (cases ds) auto
next
  case (Cons a as)
  show ?case
  proof (cases ds)
    case Nil
    then show ?thesis by simp
  next
    case d: (Cons d ds')
    have "(\<exists>t. path_string ds = path_string (a # as) @ slash # t) \<longleftrightarrow>
          (\<exists>t. d @ path_string ds' = a @ path_string as @ slash # t)"
      using d by simp
    also have "\<dots> \<longleftrightarrow> d = a \<and> (\<exists>t. path_string ds' = path_string as @ slash # t)"
    proof
      assume "\<exists>t. d @ path_string ds' = a @ path_string as @ slash # t"
      then obtain t where e: "d @ path_string ds' = a @ path_string as @ slash # t" by blast
      have "d = a"
      proof -
        have "split_on slash (d @ path_string ds') = d # ds'"
          using Cons.prems d good_segment_slash by (subst split_path_string) auto
        moreover have "hd (split_on slash (a @ path_string as @ slash # t)) = a"
          using Cons.prems(1) by (cases as) (auto simp: split_on_append_sep dest: good_segment_slash)
        ultimately show ?thesis using e by (metis list.sel(1))
      qed
      with e show "d = a \<and> (\<exists>t. path_string ds' = path_string as @ slash # t)" by auto
    qed auto
    also have "\<dots> \<longleftrightarrow> strict_prefix (a # as) ds"
      using Cons d by auto
    finally show ?thesis .
  qed
qed

lemma strict_ancestor_segments:
  assumes "valid_key a" "valid_key d"
  shows "is_strict_ancestor a d \<longleftrightarrow> strict_prefix (segments a) (segments d)"
proof -
  obtain as ds where as: "good_segments as" "a = key_of_segments as" "segments a = as"
    and ds: "good_segments ds" "d = key_of_segments ds" "segments d = ds"
    using assms by (metis valid_keyE)
  show ?thesis
  proof (cases "as = []")
    case True
    then show ?thesis using as ds path_string_last [of ds]
      by (cases ds) (auto simp: is_strict_ancestor_def key_of_segments_def root_def
          simp del: path_string_simps)
  next
    case False
    then have na: "as_str a \<noteq> ''/''" "as_str a = path_string as"
      using as path_string_last [of as] by (auto simp: key_of_segments_def)
    have "is_strict_ancestor a d \<longleftrightarrow> (\<exists>t. as_str d = path_string as @ slash # t)"
      using na by (auto simp: is_strict_ancestor_def strip_prefix_Some_iff starts_with_iff
          split: option.splits)
        (metis option.distinct(1) strip_prefix_Some_iff)
    also have "\<dots> \<longleftrightarrow> strict_prefix as ds"
    proof (cases "ds = []")
      case True
      have "''/'' \<noteq> path_string as @ slash # t" for t using False by (cases as) auto
      then show ?thesis using True ds by (auto simp: key_of_segments_def root_def)
    next
      case False
      then show ?thesis using ds as path_string_prefix [of as ds] by (simp add: key_of_segments_def)
    qed
    finally show ?thesis using as ds by simp
  qed
qed

lemma parent_strict_ancestor:
  "valid_key k \<Longrightarrow> parent k = Ok p \<Longrightarrow> is_strict_ancestor p k"
  by (metis parentE parent_root parent_valid strict_ancestor_segments strict_prefixI'
      sum.distinct(1) sum.inject(2))

lemma strict_ancestor_irrefl: "valid_key k \<Longrightarrow> \<not> is_strict_ancestor k k"
  by (simp add: strict_ancestor_segments)

section \<open>Properties\<close>

text \<open>\<open>Key::new\<close> accepts exactly the canonical absolute paths: a string is accepted, and kept
  as it is, when it is the root or a slash before each of its segments, no segment being empty,
  a dot, two dots or containing a slash.\<close>

theorem key_new_canonical:
  "key_new p = Ok k \<longleftrightarrow> (\<exists>ss. good_segments ss \<and> k = key_of_segments ss \<and> as_str k = p)"
  by (cases k) (auto simp: key_new_Ok_iff valid_key_iff)

text \<open>On valid keys \<open>Key::parent\<close> drops the last segment and gives a valid key again, the root
  alone has no parent, and \<open>is_strict_ancestor\<close> is the strict prefix order of the segments.\<close>

theorem parent_and_ancestor_segments:
  assumes "valid_key a" "valid_key d"
  shows "parent root = Err (InvalidPath ''root has no parent'') \<and>
    (d \<noteq> root \<longrightarrow> (\<exists>p. parent d = Ok p \<and> valid_key p \<and> segments p = butlast (segments d) \<and>
       is_strict_ancestor p d)) \<and>
    (is_strict_ancestor a d \<longleftrightarrow> strict_prefix (segments a) (segments d))"
proof (intro conjI impI)
  show "parent root = Err (InvalidPath ''root has no parent'')" by simp
  show "\<exists>p. parent d = Ok p \<and> valid_key p \<and> segments p = butlast (segments d) \<and> is_strict_ancestor p d"
    if "d \<noteq> root"
    using parentE [OF assms(2) that] parent_strict_ancestor [OF assms(2)] by (metis butlast_snoc)
  show "is_strict_ancestor a d \<longleftrightarrow> strict_prefix (segments a) (segments d)"
    by (rule strict_ancestor_segments [OF assms])
qed

theorem parent_and_ancestor_segments_witness:
  "valid_key (Key ''/a'') \<and> valid_key (Key ''/a/b'') \<and>
   (\<exists>p. parent (Key ''/a/b'') = Ok p \<and> is_strict_ancestor p (Key ''/a/b''))"
proof -
  have "valid_key (Key ''/a'')" "valid_key (Key ''/a/b'')" "Key ''/a/b'' \<noteq> root" by code_simp+
  with parent_and_ancestor_segments [of "Key ''/a''" "Key ''/a/b''"] show ?thesis by blast
qed

end
