(* ===== verification/Router.thy ===== *)
theory Router
  imports Model
begin

text \<open>
  The shard router, \<open>src/router.rs\<close>: the FNV-1a hash of a path, the owner shard of a key, the
  participants of a transaction and the keys of a transaction a shard owns. The lemmas show that
  every key has one owner, that the active and passive participants partition the owners of a
  transaction's keys, and that the local key sets of the shards partition its keys.
\<close>

unbundle bit_operations_syntax

definition FNV_OFFSET_BASIS :: u64 where
  "FNV_OFFSET_BASIS = 14695981039346656037"

definition FNV_PRIME :: u64 where
  "FNV_PRIME = 1099511628211"

definition stable_hash :: "u8 list \<Rightarrow> u64" where
  "stable_hash bytes = foldl (\<lambda>hash byte. (hash XOR ucast byte) * FNV_PRIME) FNV_OFFSET_BASIS bytes"

definition as_bytes :: "string \<Rightarrow> u8 list" where
  "as_bytes s = map of_char s"

record shard_layout =
  shard_count :: u64

record participants =
  p_all :: "shard_id set"
  p_active :: "shard_id set"
  p_passive :: "shard_id set"

text \<open>The assertion of \<open>ShardLayout::new\<close>: \<open>None\<close> is the panic.\<close>

definition layout_new :: "u64 \<Rightarrow> shard_layout option" where
  "layout_new n = (if 0 < n then Some \<lparr>shard_count = n\<rparr> else None)"

definition shard_for_key :: "shard_layout \<Rightarrow> key \<Rightarrow> shard_id" where
  "shard_for_key layout k = stable_hash (as_bytes (as_str k)) mod shard_count layout"

definition read_only_coordinator :: "shard_layout \<Rightarrow> key set \<Rightarrow> shard_id option" where
  "read_only_coordinator layout rs = map_option (shard_for_key layout) (first_of rs)"

definition participants_for_sets :: "shard_layout \<Rightarrow> key set \<Rightarrow> key set \<Rightarrow> participants" where
  "participants_for_sets layout rs ws =
     (let all = shard_for_key layout ` (rs \<union> ws);
          active =
            (if ws = {}
             then (case read_only_coordinator layout rs of None \<Rightarrow> {} | Some shard \<Rightarrow> {shard})
             else shard_for_key layout ` ws)
      in \<lparr>p_all = all, p_active = active, p_passive = all - active\<rparr>)"

definition participants_of :: "shard_layout \<Rightarrow> ordered_tx \<Rightarrow> participants" where
  "participants_of layout tx = participants_for_sets layout (read_set tx) (write_set tx)"

definition result_shard_for_sets :: "shard_layout \<Rightarrow> key set \<Rightarrow> key set \<Rightarrow> shard_id option" where
  "result_shard_for_sets layout rs ws = first_of (p_active (participants_for_sets layout rs ws))"

definition result_shard :: "shard_layout \<Rightarrow> ordered_tx \<Rightarrow> shard_id option" where
  "result_shard layout tx = result_shard_for_sets layout (read_set tx) (write_set tx)"

definition local_read_keys :: "shard_layout \<Rightarrow> ordered_tx \<Rightarrow> shard_id \<Rightarrow> key set" where
  "local_read_keys layout tx shard = {k \<in> read_set tx. shard_for_key layout k = shard}"

definition local_write_keys :: "shard_layout \<Rightarrow> ordered_tx \<Rightarrow> shard_id \<Rightarrow> key set" where
  "local_write_keys layout tx shard = {k \<in> write_set tx. shard_for_key layout k = shard}"

definition local_lock_keys :: "shard_layout \<Rightarrow> ordered_tx \<Rightarrow> shard_id \<Rightarrow> key set" where
  "local_lock_keys layout tx shard = {k \<in> read_set tx \<union> write_set tx. shard_for_key layout k = shard}"

lemmas local_keys_defs = local_read_keys_def local_write_keys_def local_lock_keys_def

section \<open>Ownership\<close>

lemma shard_for_key_bound: "0 < shard_count layout \<Longrightarrow> shard_for_key layout k < shard_count layout"
  by (simp add: shard_for_key_def word_mod_less_divisor)

lemma layout_new_Some: "layout_new n = Some layout \<longleftrightarrow> 0 < n \<and> layout = \<lparr>shard_count = n\<rparr>"
  by (auto simp: layout_new_def)

lemma local_keys_disjoint:
  "s \<noteq> t \<Longrightarrow> local_lock_keys layout tx s \<inter> local_lock_keys layout tx t = {}"
  by (auto simp: local_lock_keys_def)

lemma local_keys_cover: "(\<Union>s. local_lock_keys layout tx s) = read_set tx \<union> write_set tx"
  by (auto simp: local_lock_keys_def)

lemma local_lock_keys_Un:
  "local_lock_keys layout tx s = local_read_keys layout tx s \<union> local_write_keys layout tx s"
  by (auto simp: local_keys_defs)

section \<open>Participants\<close>

lemma participants_all:
  "p_all (participants_for_sets layout rs ws) = shard_for_key layout ` (rs \<union> ws)"
  by (simp add: participants_for_sets_def Let_def)

lemma participants_active_writes:
  "ws \<noteq> {} \<Longrightarrow> p_active (participants_for_sets layout rs ws) = shard_for_key layout ` ws"
  by (simp add: participants_for_sets_def Let_def)

lemma participants_active_read_only:
  "finite rs \<Longrightarrow> rs \<noteq> {} \<Longrightarrow> p_active (participants_for_sets layout rs {}) = {shard_for_key layout (Min rs)}"
  by (simp add: participants_for_sets_def read_only_coordinator_def first_of_Min Let_def)

lemma participants_passive:
  "p_passive p = p_all p - p_active p" if "p = participants_for_sets layout rs ws"
  by (simp add: that participants_for_sets_def Let_def)

lemma participants_active_subset:
  assumes "finite rs"
  shows "p_active (participants_for_sets layout rs ws) \<subseteq> p_all (participants_for_sets layout rs ws)"
proof (cases "ws = {}")
  case True
  then show ?thesis
    using first_of_Some(1) [OF assms]
    by (auto simp: participants_for_sets_def Let_def read_only_coordinator_def split: option.splits)
next
  case False
  then show ?thesis by (auto simp: participants_for_sets_def Let_def)
qed

lemma participants_active_finite:
  "finite ws \<Longrightarrow> finite (p_active (participants_for_sets layout rs ws))"
  by (auto simp: participants_for_sets_def Let_def split: option.splits)

lemma participants_active_nonempty:
  assumes "finite rs" "rs \<union> ws \<noteq> {}"
  shows "p_active (participants_for_sets layout rs ws) \<noteq> {}"
  using assms by (cases "ws = {}") (auto simp: participants_active_read_only participants_active_writes)

lemma local_lock_keys_participant:
  "local_lock_keys layout tx s \<noteq> {} \<longleftrightarrow> s \<in> p_all (participants_of layout tx)"
  by (auto simp: participants_of_def participants_all local_lock_keys_def)

lemma result_shard_Min:
  assumes "finite (read_set tx)" "finite (write_set tx)" "read_set tx \<union> write_set tx \<noteq> {}"
  shows "result_shard layout tx = Some (Min (p_active (participants_of layout tx)))"
  using assms participants_active_finite participants_active_nonempty
  by (simp add: result_shard_def result_shard_for_sets_def participants_of_def first_of_Min)

section \<open>The hash\<close>

lemma stable_hash_snoc: "stable_hash (bs @ [b]) = (stable_hash bs XOR ucast b) * FNV_PRIME"
  by (simp add: stable_hash_def)

lemma FNV_PRIME_invertible: "FNV_PRIME * 14886173955864302971 = 1"
  by (simp add: FNV_PRIME_def)

lemma FNV_PRIME_cancel: "a * FNV_PRIME = b * FNV_PRIME \<longleftrightarrow> a = b"
proof
  assume "a * FNV_PRIME = b * FNV_PRIME"
  then have "a * (FNV_PRIME * 14886173955864302971) = b * (FNV_PRIME * 14886173955864302971)"
    by (simp only: mult.assoc [symmetric])
  then show "a = b" by (simp only: FNV_PRIME_invertible mult_1_right)
qed simp

lemma ucast_u8_u64_inject: "(ucast b :: u64) = ucast c \<longleftrightarrow> b = (c :: u8)"
proof
  assume "(ucast b :: u64) = ucast c"
  then have "unat (ucast b :: u64) = unat (ucast c :: u64)" by simp
  moreover have "unat x < 2 ^ 64" for x :: u8
    using unsigned_less [of x, where ?'a = nat] by simp
  ultimately have "unat b = unat c"
    by (simp add: unsigned_ucast_eq take_bit_nat_eq_self)
  then show "b = c" by (simp only: word_unat_eq_iff)
qed simp

lemma xor_ucast_cancel: "h XOR ucast b = h XOR ucast c \<longleftrightarrow> b = (c :: u8)" for h :: u64
proof
  assume "h XOR ucast b = h XOR ucast c"
  then have "h XOR (h XOR ucast b) = h XOR (h XOR (ucast c :: u64))" by simp
  then show "b = c" by (simp add: xor.assoc [symmetric] ucast_u8_u64_inject)
qed simp

section \<open>Properties\<close>

text \<open>The shards split the work of a transaction by key ownership. The locked keys of two shards
  are disjoint, together they are the read and write set, and a shard has some exactly when it is
  a participant; the active participants are a nonempty subset of all participants, and the shard
  that answers the client is the least active one.\<close>

theorem participants_partition_work:
  assumes "finite (read_set tx)" "finite (write_set tx)" "read_set tx \<noteq> {}"
  shows "disjoint_family (local_lock_keys layout tx) \<and>
    (\<Union>s. local_lock_keys layout tx s) = read_set tx \<union> write_set tx \<and>
    {s. local_lock_keys layout tx s \<noteq> {}} = p_all (participants_of layout tx) \<and>
    p_active (participants_of layout tx) \<subseteq> p_all (participants_of layout tx) \<and>
    p_active (participants_of layout tx) \<noteq> {} \<and>
    p_passive (participants_of layout tx) =
      p_all (participants_of layout tx) - p_active (participants_of layout tx) \<and>
    result_shard layout tx = Some (Min (p_active (participants_of layout tx)))"
proof (intro conjI)
  show "disjoint_family (local_lock_keys layout tx)"
    by (simp add: disjoint_family_on_def local_keys_disjoint)
  show "(\<Union>s. local_lock_keys layout tx s) = read_set tx \<union> write_set tx" by (rule local_keys_cover)
  show "{s. local_lock_keys layout tx s \<noteq> {}} = p_all (participants_of layout tx)"
    by (simp add: local_lock_keys_participant)
  show "p_active (participants_of layout tx) \<subseteq> p_all (participants_of layout tx)"
    "p_active (participants_of layout tx) \<noteq> {}"
    using participants_active_subset [OF assms(1)] participants_active_nonempty [OF assms(1)] assms(3)
    by (simp_all add: participants_of_def)
  show "p_passive (participants_of layout tx) =
           p_all (participants_of layout tx) - p_active (participants_of layout tx)"
    by (rule participants_passive [OF participants_of_def])
  show "result_shard layout tx = Some (Min (p_active (participants_of layout tx)))"
    using assms by (intro result_shard_Min) auto
qed

theorem participants_partition_work_witness:
  "p_active (participants_of \<lparr>shard_count = 3\<rparr>
     \<lparr>tx_id = 1, batch_index = 0, op = Stat root, read_set = {root}, write_set = {}\<rparr>) \<noteq> {}"
  using participants_partition_work [of "\<lparr>tx_id = 1, batch_index = 0, op = Stat root,
      read_set = {root}, write_set = {}\<rparr>" "\<lparr>shard_count = 3\<rparr>"] by simp

end
