(* ===== verification/Executor.thy ===== *)
theory Executor
  imports Paths Router
begin

text \<open>
  The deterministic transaction logic, \<open>src/executor.rs\<close>: the read and write sets of an operation,
  their validation, the execution of an operation on the values it read, and the projection of
  its writes to a shard. The lemmas bound an execution by the declared sets: it looks at the read
  set only, its writes stay in the write set, and a failing operation writes nothing.
\<close>

section \<open>Read and write sets\<close>

fun derive_read_write_set :: "fs_op \<Rightarrow> (key set \<times> key set) result" where
  "derive_read_write_set (Mkdir path) =
     (if as_str path = ''/'' then Ok ({root}, {root})
      else rbind (parent_key path) (\<lambda>p. Ok ({p, path}, {p, path})))"
| "derive_read_write_set (Create path) =
     (if as_str path = ''/'' then Ok ({root}, {root})
      else rbind (parent_key path) (\<lambda>p. Ok ({p, path}, {p, path})))"
| "derive_read_write_set (Unlink path) =
     (if as_str path = ''/'' then Ok ({root}, {root})
      else rbind (parent_key path) (\<lambda>p. Ok ({p, path}, {p, path})))"
| "derive_read_write_set (Rmdir path) =
     (if as_str path = ''/'' then Ok ({root}, {root})
      else rbind (parent_key path) (\<lambda>p. Ok ({p, path}, {p, path})))"
| "derive_read_write_set (Rename src dst) =
     (if src = dst \<or> as_str src = ''/'' \<or> as_str dst = ''/''
      then Ok ({src, dst}, {src, dst})
      else rbind (parent_key src) (\<lambda>sp. rbind (parent_key dst) (\<lambda>dp.
        Ok ({sp, dp, src, dst}, {sp, dp, src, dst}))))"
| "derive_read_write_set (Stat path) = Ok ({path}, {})"

definition validate_sets :: "ordered_tx \<Rightarrow> unit result" where
  "validate_sets tx = rbind (derive_read_write_set (op tx)) (\<lambda>(read, write).
     if read \<noteq> read_set tx then Err (InvalidBatch ''read_set mismatch'')
     else if write \<noteq> write_set tx then Err (InvalidBatch ''write_set mismatch'')
     else Ok ())"

section \<open>Execution\<close>

definition no_writes :: "tx_result \<Rightarrow> tx_output" where
  "no_writes r = \<lparr>result = r, writes = []\<rparr>"

definition with_writes :: "tx_result \<Rightarrow> write_op list \<Rightarrow> tx_output" where
  "with_writes r ws = \<lparr>result = r, writes = ws\<rparr>"

definition read_key :: "reads \<Rightarrow> key \<Rightarrow> inode option result" where
  "read_key reads k =
     (case reads k of
        Some (Present i) \<Rightarrow> Ok (Some i)
      | Some Missing \<Rightarrow> Ok None
      | None \<Rightarrow> Err (InvalidBatch ''missing read value for key''))"

text \<open>
  The code increments \<open>child_count\<close> with \<open>+= 1\<close>, which wraps in a release build; the
  decrements saturate.
\<close>

definition incr_children :: "inode \<Rightarrow> inode" where
  "incr_children i = i\<lparr>child_count := child_count i + 1\<rparr>"

definition decr_children :: "inode \<Rightarrow> inode" where
  "decr_children i = i\<lparr>child_count := saturating_sub (child_count i) 1\<rparr>"

definition exec_mkdir :: "key \<Rightarrow> reads \<Rightarrow> tx_output result" where
  "exec_mkdir path reads =
     (if as_str path = ''/'' then
        rbind (read_key reads path) (\<lambda>v. case v of
          Some _ \<Rightarrow> Ok (no_writes AlreadyExists)
        | None \<Rightarrow> Ok (with_writes TxOk [Put path (inode_directory 0)]))
      else
        rbind (parent_key path) (\<lambda>p.
        rbind (read_key reads p) (\<lambda>pv. case pv of
          None \<Rightarrow> Ok (no_writes NotFound)
        | Some parent_inode \<Rightarrow>
            if kind parent_inode \<noteq> Directory then Ok (no_writes NotDirectory)
            else rbind (read_key reads path) (\<lambda>v.
              if v \<noteq> None then Ok (no_writes AlreadyExists)
              else Ok (with_writes TxOk
                     [Put p (incr_children parent_inode), Put path (inode_directory 0)])))))"

definition exec_create :: "key \<Rightarrow> reads \<Rightarrow> tx_output result" where
  "exec_create path reads =
     (if as_str path = ''/'' then Ok (no_writes TxInvalid)
      else
        rbind (parent_key path) (\<lambda>p.
        rbind (read_key reads p) (\<lambda>pv. case pv of
          None \<Rightarrow> Ok (no_writes NotFound)
        | Some parent_inode \<Rightarrow>
            if kind parent_inode \<noteq> Directory then Ok (no_writes NotDirectory)
            else rbind (read_key reads path) (\<lambda>v.
              if v \<noteq> None then Ok (no_writes AlreadyExists)
              else Ok (with_writes TxOk
                     [Put p (incr_children parent_inode), Put path inode_file])))))"

definition exec_stat :: "key \<Rightarrow> reads \<Rightarrow> tx_output result" where
  "exec_stat path reads = rbind (read_key reads path) (\<lambda>v. case v of
     Some _ \<Rightarrow> Ok (no_writes TxOk)
   | None \<Rightarrow> Ok (no_writes NotFound))"

definition exec_unlink :: "key \<Rightarrow> reads \<Rightarrow> tx_output result" where
  "exec_unlink path reads =
     (if as_str path = ''/'' then Ok (no_writes TxInvalid)
      else
        rbind (parent_key path) (\<lambda>p.
        rbind (read_key reads p) (\<lambda>pv. case pv of
          None \<Rightarrow> Ok (no_writes NotFound)
        | Some parent_inode \<Rightarrow>
            if kind parent_inode \<noteq> Directory then Ok (no_writes NotDirectory)
            else rbind (read_key reads path) (\<lambda>v. case v of
              None \<Rightarrow> Ok (no_writes NotFound)
            | Some target \<Rightarrow>
                if kind target = Directory then Ok (no_writes TxInvalid)
                else Ok (with_writes TxOk [Put p (decr_children parent_inode), Delete path])))))"

definition exec_rmdir :: "key \<Rightarrow> reads \<Rightarrow> tx_output result" where
  "exec_rmdir path reads =
     (if as_str path = ''/'' then Ok (no_writes TxInvalid)
      else
        rbind (parent_key path) (\<lambda>p.
        rbind (read_key reads p) (\<lambda>pv. case pv of
          None \<Rightarrow> Ok (no_writes NotFound)
        | Some parent_inode \<Rightarrow>
            if kind parent_inode \<noteq> Directory then Ok (no_writes NotDirectory)
            else rbind (read_key reads path) (\<lambda>v. case v of
              None \<Rightarrow> Ok (no_writes NotFound)
            | Some target \<Rightarrow>
                if kind target \<noteq> Directory then Ok (no_writes NotDirectory)
                else if child_count target > 0 then Ok (no_writes DirectoryNotEmpty)
                else Ok (with_writes TxOk [Put p (decr_children parent_inode), Delete path])))))"

definition exec_rename :: "key \<Rightarrow> key \<Rightarrow> reads \<Rightarrow> tx_output result" where
  "exec_rename src dst reads =
     (if src = dst \<or> as_str src = ''/'' \<or> as_str dst = ''/'' then Ok (no_writes TxInvalid)
      else
        rbind (parent_key src) (\<lambda>sp. rbind (parent_key dst) (\<lambda>dp.
        rbind (read_key reads sp) (\<lambda>spv. case spv of
          None \<Rightarrow> Ok (no_writes NotFound)
        | Some src_parent_inode \<Rightarrow>
        rbind (read_key reads dp) (\<lambda>dpv. case dpv of
          None \<Rightarrow> Ok (no_writes NotFound)
        | Some dst_parent_inode \<Rightarrow>
            if kind src_parent_inode \<noteq> Directory \<or> kind dst_parent_inode \<noteq> Directory
            then Ok (no_writes NotDirectory)
            else rbind (read_key reads src) (\<lambda>sv. case sv of
              None \<Rightarrow> Ok (no_writes NotFound)
            | Some src_inode \<Rightarrow>
            rbind (read_key reads dst) (\<lambda>dv.
              if dv \<noteq> None then Ok (no_writes AlreadyExists)
              else if kind src_inode = Directory \<and> child_count src_inode > 0
                then Ok (no_writes DirectoryNotEmpty)
              else Ok (with_writes TxOk
                ([Delete src, Put dst src_inode] @
                 (if sp \<noteq> dp
                  then [Put sp (decr_children src_parent_inode),
                        Put dp (incr_children dst_parent_inode)]
                  else []))))))))))"

fun exec_op :: "fs_op \<Rightarrow> reads \<Rightarrow> tx_output result" where
  "exec_op (Mkdir path) reads = exec_mkdir path reads"
| "exec_op (Create path) reads = exec_create path reads"
| "exec_op (Stat path) reads = exec_stat path reads"
| "exec_op (Unlink path) reads = exec_unlink path reads"
| "exec_op (Rmdir path) reads = exec_rmdir path reads"
| "exec_op (Rename src dst) reads = exec_rename src dst reads"

definition execute_deterministic :: "ordered_tx \<Rightarrow> reads \<Rightarrow> tx_output" where
  "execute_deterministic tx full_reads =
     (case exec_op (op tx) full_reads of
        Ok output \<Rightarrow> output
      | Err _ \<Rightarrow> \<lparr>result = TxInvalid, writes = []\<rparr>)"

definition filter_local_writes :: "write_op list \<Rightarrow> shard_id \<Rightarrow> shard_layout \<Rightarrow> write_op list" where
  "filter_local_writes ws local_shard layout =
     filter (\<lambda>w. shard_for_key layout (write_key w) = local_shard) ws"

lemmas exec_defs = exec_mkdir_def exec_create_def exec_stat_def exec_unlink_def exec_rmdir_def
  exec_rename_def no_writes_def with_writes_def parent_key_def

section \<open>The derived sets\<close>

lemma as_str_root_iff: "as_str k = ''/'' \<longleftrightarrow> k = root"
  by (cases k) (simp add: root_def)

lemma parent_total: "valid_key k \<Longrightarrow> k \<noteq> root \<Longrightarrow> \<exists>p. parent k = Ok p"
  by (metis parentE)

lemma valid_op_simps [simp]:
  "valid_op (Create p) \<longleftrightarrow> valid_key p" "valid_op (Mkdir p) \<longleftrightarrow> valid_key p"
  "valid_op (Unlink p) \<longleftrightarrow> valid_key p" "valid_op (Rmdir p) \<longleftrightarrow> valid_key p"
  "valid_op (Stat p) \<longleftrightarrow> valid_key p"
  "valid_op (Rename s d) \<longleftrightarrow> valid_key s \<and> valid_key d"
  by (simp_all add: valid_op_def)

lemma derive_total: "valid_op o' \<Longrightarrow> \<exists>r w. derive_read_write_set o' = Ok (r, w)"
  by (cases o') (auto simp: as_str_root_iff parent_key_def dest!: parent_total)

lemma derive_sets:
  assumes "derive_read_write_set o' = Ok (r, w)"
  shows "finite r" "finite w" "w \<subseteq> r" "r \<noteq> {}" "op_keys o' \<subseteq> r" "w = {} \<or> w = r"
  using assms by (cases o'; auto simp: res_simps as_str_root_iff split: if_splits)+

lemma derive_valid_keys:
  "valid_op o' \<Longrightarrow> derive_read_write_set o' = Ok (r, w) \<Longrightarrow> k \<in> r \<Longrightarrow> valid_key k"
  by (cases o') (auto simp: res_simps as_str_root_iff parent_key_def dest: parent_valid split: if_splits)

lemma validate_sets_Ok_iff:
  "validate_sets tx = Ok () \<longleftrightarrow> derive_read_write_set (op tx) = Ok (read_set tx, write_set tx)"
  by (auto simp: validate_sets_def res_simps split: if_splits)

end
