(* ===== verification/FsSpec.thy ===== *)
theory FsSpec
  imports Executor
begin

text \<open>
  The abstract specification of the file-system operations: the error table of \<open>DESIGN.md\<close>
  (section 3.5) as a total function of the state, without read maps or errors. The refinement
  lemmas show that \<open>execute_deterministic\<close> of \<open>src/executor.rs\<close>, given the values of the read
  set, computes exactly this function; the other theories reason about the specification.
\<close>

definition parent_of :: "key \<Rightarrow> key" where
  "parent_of k = (case parent k of Ok p \<Rightarrow> p | Err _ \<Rightarrow> root)"

definition op_insert :: "inode \<Rightarrow> key \<Rightarrow> fs_state \<Rightarrow> tx_output" where
  "op_insert new path s =
     (case s (parent_of path) of
        None \<Rightarrow> no_writes NotFound
      | Some p \<Rightarrow>
          if kind p \<noteq> Directory then no_writes NotDirectory
          else if s path \<noteq> None then no_writes AlreadyExists
          else with_writes TxOk [Put (parent_of path) (incr_children p), Put path new])"

definition op_remove :: "(inode \<Rightarrow> tx_result option) \<Rightarrow> key \<Rightarrow> fs_state \<Rightarrow> tx_output" where
  "op_remove refusal path s =
     (case s (parent_of path) of
        None \<Rightarrow> no_writes NotFound
      | Some p \<Rightarrow>
          if kind p \<noteq> Directory then no_writes NotDirectory
          else (case s path of
                  None \<Rightarrow> no_writes NotFound
                | Some target \<Rightarrow>
                    (case refusal target of
                       Some r \<Rightarrow> no_writes r
                     | None \<Rightarrow> with_writes TxOk
                         [Put (parent_of path) (decr_children p), Delete path])))"

definition unlink_refusal :: "inode \<Rightarrow> tx_result option" where
  "unlink_refusal target = (if kind target = Directory then Some TxInvalid else None)"

definition rmdir_refusal :: "inode \<Rightarrow> tx_result option" where
  "rmdir_refusal target =
     (if kind target \<noteq> Directory then Some NotDirectory
      else if child_count target > 0 then Some DirectoryNotEmpty else None)"

definition op_move :: "key \<Rightarrow> key \<Rightarrow> fs_state \<Rightarrow> tx_output" where
  "op_move src dst s =
     (case (s (parent_of src), s (parent_of dst)) of
        (Some sp, Some dp) \<Rightarrow>
          if kind sp \<noteq> Directory \<or> kind dp \<noteq> Directory then no_writes NotDirectory
          else (case s src of
                  None \<Rightarrow> no_writes NotFound
                | Some i \<Rightarrow>
                    if s dst \<noteq> None then no_writes AlreadyExists
                    else if kind i = Directory \<and> child_count i > 0
                      then no_writes DirectoryNotEmpty
                    else with_writes TxOk
                      ([Delete src, Put dst i] @
                       (if parent_of src \<noteq> parent_of dst
                        then [Put (parent_of src) (decr_children sp),
                              Put (parent_of dst) (incr_children dp)]
                        else [])))
      | _ \<Rightarrow> no_writes NotFound)"

fun op_output :: "fs_op \<Rightarrow> fs_state \<Rightarrow> tx_output" where
  "op_output (Mkdir path) s =
     (if path = root
      then (if s root = None then with_writes TxOk [Put root (inode_directory 0)]
            else no_writes AlreadyExists)
      else op_insert (inode_directory 0) path s)"
| "op_output (Create path) s =
     (if path = root then no_writes TxInvalid else op_insert inode_file path s)"
| "op_output (Stat path) s =
     (if s path = None then no_writes NotFound else no_writes TxOk)"
| "op_output (Unlink path) s =
     (if path = root then no_writes TxInvalid else op_remove unlink_refusal path s)"
| "op_output (Rmdir path) s =
     (if path = root then no_writes TxInvalid else op_remove rmdir_refusal path s)"
| "op_output (Rename src dst) s =
     (if src = dst \<or> src = root \<or> dst = root then no_writes TxInvalid else op_move src dst s)"

definition op_result :: "fs_op \<Rightarrow> fs_state \<Rightarrow> tx_result" where
  "op_result o' s = result (op_output o' s)"

definition op_apply :: "fs_op \<Rightarrow> fs_state \<Rightarrow> fs_state" where
  "op_apply o' s = apply_writes s (writes (op_output o' s))"

lemmas output_defs = no_writes_def with_writes_def
lemmas op_defs = op_insert_def op_remove_def op_move_def unlink_refusal_def rmdir_refusal_def

lemma output_simps [simp]:
  "result (no_writes r) = r" "writes (no_writes r) = []"
  "result (with_writes r ws) = r" "writes (with_writes r ws) = ws"
  by (simp_all add: output_defs)

lemma parent_of_eq: "parent k = Ok p \<Longrightarrow> parent_of k = p"
  by (simp add: parent_of_def)

lemma parent_parent_of: "valid_key k \<Longrightarrow> k \<noteq> root \<Longrightarrow> parent k = Ok (parent_of k)"
  using parent_total [of k] by (auto simp: parent_of_def)

lemma parent_of_valid: "valid_key k \<Longrightarrow> valid_key (parent_of k)"
  by (cases "parent k") (auto simp: parent_of_def intro: parent_valid)

lemma parent_of_neq: "valid_key k \<Longrightarrow> k \<noteq> root \<Longrightarrow> parent_of k \<noteq> k"
  by (metis parent_parent_of parent_neq)

section \<open>Refinement\<close>

lemma read_key_eq:
  "read_key rs k =
     (if rs k = None then Err (InvalidBatch ''missing read value for key'')
      else Ok (state_of_reads rs k))"
  by (auto simp: read_key_def state_of_reads_def split: option.splits read_value.splits)

text \<open>An execution that read all it needed returns the specified output.\<close>

lemma exec_insert_output:
  assumes "valid_key p" "p \<noteq> root"
  shows "exec_create p rs = Ok out \<Longrightarrow> out = op_insert inode_file p (state_of_reads rs)"
    and "exec_mkdir p rs = Ok out \<Longrightarrow> out = op_insert (inode_directory 0) p (state_of_reads rs)"
  using parent_parent_of [OF assms] assms(2)
  by (auto simp: exec_create_def exec_mkdir_def op_insert_def parent_key_def as_str_root_iff
      read_key_eq split: if_splits option.splits)

lemma exec_remove_output:
  assumes "valid_key p" "p \<noteq> root"
  shows "exec_unlink p rs = Ok out \<Longrightarrow> out = op_remove unlink_refusal p (state_of_reads rs)"
    and "exec_rmdir p rs = Ok out \<Longrightarrow> out = op_remove rmdir_refusal p (state_of_reads rs)"
  using parent_parent_of [OF assms] assms(2)
  by (auto simp: exec_unlink_def exec_rmdir_def op_remove_def unlink_refusal_def rmdir_refusal_def
      parent_key_def as_str_root_iff read_key_eq split: if_splits option.splits)

lemma exec_rename_output:
  assumes "valid_key s" "s \<noteq> root" "valid_key d" "d \<noteq> root" "s \<noteq> d"
  shows "exec_rename s d rs = Ok out \<Longrightarrow>
    op_move s d (state_of_reads rs) = out \<or>
      state_of_reads rs (parent_of s) = None \<and> out = no_writes NotFound"
  using parent_parent_of [OF assms(1,2)] parent_parent_of [OF assms(3,4)] assms
  by (auto simp: exec_rename_def op_move_def parent_key_def as_str_root_iff read_key_eq
      split: if_splits option.splits)

lemma exec_op_output:
  assumes "valid_op o'" "exec_op o' rs = Ok out"
  shows "out = op_output o' (state_of_reads rs)"
  using assms
proof (cases o')
  case (Rename s d)
  show ?thesis
  proof (cases "s = d \<or> s = root \<or> d = root")
    case True
    then show ?thesis using assms Rename by (auto simp: exec_rename_def as_str_root_iff)
  next
    case False
    then show ?thesis using assms Rename exec_rename_output [of s d rs out]
      by (auto simp: op_move_def)
  qed
qed (auto simp: exec_insert_output exec_remove_output as_str_root_iff exec_stat_def
    exec_create_def [of root] exec_mkdir_def [of root] exec_unlink_def [of root]
    exec_rmdir_def [of root] read_key_eq
    split: if_splits option.splits)

section \<open>Footprints\<close>

text \<open>The read and write set of an operation, without errors.\<close>

fun op_reads :: "fs_op \<Rightarrow> key set" where
  "op_reads (Stat p) = {p}"
| "op_reads (Rename s d) =
     (if s = d \<or> s = root \<or> d = root then {s, d} else {parent_of s, parent_of d, s, d})"
| "op_reads o' = (\<Union>p \<in> op_keys o'. if p = root then {root} else {parent_of p, p})"

fun op_writes :: "fs_op \<Rightarrow> key set" where
  "op_writes (Stat _) = {}"
| "op_writes o' = op_reads o'"

lemma derive_eq: "valid_op o' \<Longrightarrow> derive_read_write_set o' = Ok (op_reads o', op_writes o')"
  by (cases o') (auto simp: as_str_root_iff parent_key_def parent_parent_of insert_commute)

lemma op_reads_finite [simp]: "finite (op_reads o')"
  by (cases o') auto

lemma op_writes_subset: "op_writes o' \<subseteq> op_reads o'"
  by (cases o') auto

lemma op_writes_finite [simp]: "finite (op_writes o')"
  by (rule finite_subset [OF op_writes_subset]) simp

lemma op_reads_nonempty [simp]: "op_reads o' \<noteq> {}"
  by (cases o') auto

lemma op_reads_valid: "valid_op o' \<Longrightarrow> k \<in> op_reads o' \<Longrightarrow> valid_key k"
  by (cases o') (auto simp: parent_of_valid split: if_splits)

definition valid_tx :: "ordered_tx \<Rightarrow> bool" where
  "valid_tx tx \<longleftrightarrow> valid_op (op tx) \<and> validate_sets tx = Ok ()"

lemma valid_tx_iff:
  "valid_tx tx \<longleftrightarrow>
     valid_op (op tx) \<and> read_set tx = op_reads (op tx) \<and> write_set tx = op_writes (op tx)"
  by (auto simp: valid_tx_def validate_sets_Ok_iff derive_eq)

lemma valid_tx_sets:
  assumes "valid_tx tx"
  shows "finite (read_set tx)" "finite (write_set tx)" "read_set tx \<noteq> {}"
    "write_set tx \<subseteq> read_set tx"
  using assms op_writes_subset by (auto simp: valid_tx_iff)

text \<open>A transaction whose sets are the derived ones.\<close>

definition tx_of :: "nat \<Rightarrow> fs_op \<Rightarrow> ordered_tx" where
  "tx_of n o' = \<lparr>tx_id = of_nat n, batch_index = of_nat n, op = o',
     read_set = op_reads o', write_set = op_writes o'\<rparr>"

lemma tx_of_simps [simp]:
  "op (tx_of n o') = o'" "read_set (tx_of n o') = op_reads o'" "write_set (tx_of n o') = op_writes o'"
  "tx_id (tx_of n o') = of_nat n"
  "valid_tx (tx_of n o') \<longleftrightarrow> valid_op o'"
  by (simp_all add: tx_of_def valid_tx_iff)

lemma valid_key_root [simp]: "valid_key root"
  by code_simp

text \<open>The specification looks at the read set only.\<close>

lemma op_insert_cong:
  "s (parent_of p) = t (parent_of p) \<Longrightarrow> s p = t p \<Longrightarrow> op_insert i p s = op_insert i p t"
  by (simp add: op_insert_def split: option.split)

lemma op_remove_cong:
  "s (parent_of p) = t (parent_of p) \<Longrightarrow> s p = t p \<Longrightarrow> op_remove f p s = op_remove f p t"
  by (simp add: op_remove_def split: option.split)

lemma op_move_cong:
  "s (parent_of p) = t (parent_of p) \<Longrightarrow> s (parent_of q) = t (parent_of q) \<Longrightarrow>
     s p = t p \<Longrightarrow> s q = t q \<Longrightarrow> op_move p q s = op_move p q t"
  by (simp add: op_move_def split: option.split)

lemma op_output_cong:
  "valid_op o' \<Longrightarrow> (\<And>k. k \<in> op_reads o' \<Longrightarrow> s k = t k) \<Longrightarrow> op_output o' s = op_output o' t"
  by (cases o') (auto intro: op_insert_cong op_remove_cong op_move_cong)

lemma op_output_writes: "write_key ` set (writes (op_output o' s)) \<subseteq> op_writes o'"
  by (cases o') (auto simp: op_insert_def op_remove_def op_move_def split: option.splits)

lemma op_output_failed: "result (op_output o' s) \<noteq> TxOk \<Longrightarrow> writes (op_output o' s) = []"
  by (cases o') (auto simp: op_defs split: option.splits if_splits)

lemma op_apply_failed: "op_result o' s \<noteq> TxOk \<Longrightarrow> op_apply o' s = s"
  by (simp add: op_apply_def op_result_def op_output_failed)

lemma op_apply_other: "k \<notin> op_writes o' \<Longrightarrow> op_apply o' s k = s k"
  unfolding op_apply_def using op_output_writes by (metis apply_writes_other subsetD)

text \<open>A read map that covers the read set gives the code's execution all it needs.\<close>

lemma exec_op_total:
  assumes "valid_op o'" "op_reads o' \<subseteq> dom rs"
  shows "\<exists>out. exec_op o' rs = Ok out"
proof -
  have "read_key rs k = Ok (state_of_reads rs k)" if "k \<in> op_reads o'" for k
    using assms(2) that by (auto simp: read_key_eq)
  with assms(1) show ?thesis
    by (cases o') (simp_all add: exec_defs as_str_root_iff parent_parent_of split: option.split)
qed

lemma exec_op_covered:
  assumes "valid_op o'" "op_reads o' \<subseteq> dom rs"
  shows "exec_op o' rs = Ok (op_output o' (state_of_reads rs))"
  using exec_op_total [OF assms] exec_op_output [OF assms(1)] by auto

lemma execute_deterministic_covered:
  assumes "valid_tx tx" "read_set tx \<subseteq> dom rs"
  shows "execute_deterministic tx rs = op_output (op tx) (state_of_reads rs)"
  using assms exec_op_covered [of "op tx" rs]
  by (simp add: execute_deterministic_def valid_tx_iff)

lemma execute_deterministic_reads_of:
  assumes "valid_tx tx"
  shows "execute_deterministic tx (reads_of s (read_set tx)) = op_output (op tx) s"
proof -
  have "op_output (op tx) (state_of_reads (reads_of s (read_set tx))) = op_output (op tx) s"
    using assms by (intro op_output_cong) (auto simp: valid_tx_iff state_of_reads_of)
  then show ?thesis
    using assms by (simp add: execute_deterministic_covered)
qed

section \<open>Successful operations\<close>

lemma op_insert_Ok:
  "result (op_insert i c s) = TxOk \<longleftrightarrow>
     (\<exists>p. s (parent_of c) = Some p \<and> kind p = Directory \<and> s c = None)"
  "result (op_insert i c s) = TxOk \<Longrightarrow> s (parent_of c) = Some p \<Longrightarrow>
     writes (op_insert i c s) = [Put (parent_of c) (incr_children p), Put c i]"
  by (auto simp: op_insert_def split: option.splits if_splits)

lemma refusal_not_Ok [simp]: "unlink_refusal i \<noteq> Some TxOk" "rmdir_refusal i \<noteq> Some TxOk"
  by (simp_all add: unlink_refusal_def rmdir_refusal_def)

lemma refusal_None [simp]:
  "unlink_refusal i = None \<longleftrightarrow> kind i = File"
  "rmdir_refusal i = None \<longleftrightarrow> kind i = Directory \<and> child_count i = 0"
  by (auto simp: unlink_refusal_def rmdir_refusal_def intro: node_kind.exhaust)

lemma op_remove_Ok:
  assumes "\<And>i. f i \<noteq> Some TxOk"
  shows "result (op_remove f c s) = TxOk \<longleftrightarrow>
      (\<exists>p i. s (parent_of c) = Some p \<and> kind p = Directory \<and> s c = Some i \<and> f i = None)"
    "result (op_remove f c s) = TxOk \<Longrightarrow> s (parent_of c) = Some p \<Longrightarrow>
      writes (op_remove f c s) = [Put (parent_of c) (decr_children p), Delete c]"
  using assms by (auto simp: op_remove_def split: option.splits if_splits)

lemma op_move_Ok:
  "result (op_move a b s) = TxOk \<longleftrightarrow>
     (\<exists>p q i. s (parent_of a) = Some p \<and> kind p = Directory \<and>
        s (parent_of b) = Some q \<and> kind q = Directory \<and> s a = Some i \<and> s b = None \<and>
        (kind i = Directory \<longrightarrow> child_count i = 0))"
  "result (op_move a b s) = TxOk \<Longrightarrow> s (parent_of a) = Some p \<Longrightarrow> s (parent_of b) = Some q \<Longrightarrow>
     s a = Some i \<Longrightarrow>
     writes (op_move a b s) = [Delete a, Put b i] @
       (if parent_of a \<noteq> parent_of b
        then [Put (parent_of a) (decr_children p), Put (parent_of b) (incr_children q)] else [])"
  by (auto simp: op_move_def split: option.splits if_splits)

lemmas op_Ok = op_insert_Ok(1) op_remove_Ok(1) [OF refusal_not_Ok(1)]
  op_remove_Ok(1) [OF refusal_not_Ok(2)] op_move_Ok(1)

lemmas op_Ok_writes = op_insert_Ok(2) op_remove_Ok(2) [OF refusal_not_Ok(1)]
  op_remove_Ok(2) [OF refusal_not_Ok(2)] op_move_Ok(2)

section \<open>Properties\<close>

text \<open>C17: Refinement of the error table. An execution that was given a value for every key of the
  read set returns exactly the output that the specification computes from the state those values
  describe; its writes stay in the declared write set, and a result other than \<open>Ok\<close> writes
  nothing.\<close>

theorem execute_deterministic_refines_spec:
  assumes "valid_tx tx" "read_set tx \<subseteq> dom rs"
  shows "execute_deterministic tx rs = op_output (op tx) (state_of_reads rs) \<and>
    write_key ` set (writes (execute_deterministic tx rs)) \<subseteq> write_set tx \<and>
    (result (execute_deterministic tx rs) \<noteq> TxOk \<longrightarrow> writes (execute_deterministic tx rs) = [])"
  using assms execute_deterministic_covered [OF assms] op_output_writes [of "op tx"]
    op_output_failed [of "op tx"]
  by (auto simp: valid_tx_iff)

theorem execute_deterministic_refines_spec_witness:
  "execute_deterministic (tx_of 1 (Stat root)) [root \<mapsto> Missing] =
     op_output (Stat root) (state_of_reads [root \<mapsto> Missing])"
  using execute_deterministic_refines_spec [of "tx_of 1 (Stat root)" "[root \<mapsto> Missing]"] by simp

end
