(* ===== verification/FsTree.thy ===== *)
theory FsTree
  imports FsSpec
begin

text \<open>
  The file-system tree invariant: every path but the root has a directory as its parent and the
  \<open>child_count\<close> of every inode is the number of its children. Every operation of
  \<open>src/executor.rs\<close> keeps it, except a rename of an empty directory to a path below itself,
  which \<open>exec_rename\<close> accepts and which always breaks it.
\<close>

definition children :: "fs_state \<Rightarrow> key \<Rightarrow> key set" where
  "children s k = {c \<in> dom s. c \<noteq> root \<and> parent_of c = k}"

definition tree_inv :: "fs_state \<Rightarrow> bool" where
  "tree_inv s \<longleftrightarrow>
     finite (dom s) \<and> (\<forall>k \<in> dom s. valid_key k) \<and>
     (\<forall>i. s root = Some i \<longrightarrow> kind i = Directory) \<and>
     (\<forall>k \<in> dom s. k \<noteq> root \<longrightarrow> (\<exists>p. s (parent_of k) = Some p \<and> kind p = Directory)) \<and>
     (\<forall>k i. s k = Some i \<longrightarrow> unat (child_count i) = card (children s k))"

lemma tree_invD:
  assumes "tree_inv s"
  shows "finite (dom s)" "k \<in> dom s \<Longrightarrow> valid_key k" "s root = Some i \<Longrightarrow> kind i = Directory"
    "s k = Some i \<Longrightarrow> k \<noteq> root \<Longrightarrow> \<exists>p. s (parent_of k) = Some p \<and> kind p = Directory"
    "s k = Some i \<Longrightarrow> unat (child_count i) = card (children s k)"
  using assms unfolding tree_inv_def by blast+

lemma children_finite: "finite (dom s) \<Longrightarrow> finite (children s k)"
  by (simp add: children_def)

lemma tree_inv_empty: "tree_inv Map.empty"
  by (simp add: tree_inv_def)

definition add_child :: "fs_state \<Rightarrow> key \<Rightarrow> inode \<Rightarrow> inode \<Rightarrow> fs_state" where
  "add_child s c p i = s(parent_of c \<mapsto> incr_children p, c \<mapsto> i)"

definition remove_child :: "fs_state \<Rightarrow> key \<Rightarrow> inode \<Rightarrow> fs_state" where
  "remove_child s c p = s(parent_of c \<mapsto> decr_children p, c := None)"

lemma inode_updates [simp]:
  "kind (incr_children i) = kind i" "kind (decr_children i) = kind i"
  "child_count (incr_children i) = child_count i + 1"
  "unat (child_count (decr_children i)) = unat (child_count i) - 1"
  by (simp_all add: incr_children_def decr_children_def unat_saturating_sub)

lemma children_add_child:
  assumes "s (parent_of c) = Some p" "s c = None" "c \<noteq> root"
  shows "children (add_child s c p i) k =
    (if k = parent_of c then insert c (children s k) else children s k)"
  using assms by (auto simp: children_def add_child_def)

lemma children_remove_child:
  assumes "s (parent_of c) = Some p"
  shows "children (remove_child s c p) k = children s k - {c}"
  using assms by (auto simp: children_def remove_child_def)

lemma no_children_if_count_0:
  assumes "tree_inv s" "s k = Some i" "child_count i = 0"
  shows "children s k = {}"
  using tree_invD(5) [OF assms(1,2)] assms(3) children_finite [of s k] tree_invD(1) [OF assms(1)]
  by simp

lemma file_has_no_children:
  assumes "tree_inv s" "s k = Some i" "kind i = File"
  shows "children s k = {}" "child_count i = 0"
proof -
  show "children s k = {}"
    using tree_invD(4) [OF assms(1)] assms(2,3) by (fastforce simp: children_def)
  then show "child_count i = 0"
    using tree_invD(5) [OF assms(1,2)] by (simp add: unat_eq_zero)
qed

lemma card_children_less:
  assumes "tree_inv s" "s k = Some i"
  shows "Suc (card (children s k)) \<le> card (dom s)"
proof -
  have "k \<notin> children s k"
    using parent_of_neq tree_invD(2) [OF assms(1), of k] assms(2) by (auto simp: children_def)
  then have "Suc (card (children s k)) = card (insert k (children s k))"
    using children_finite tree_invD(1) [OF assms(1)] by simp
  also have "\<dots> \<le> card (dom s)"
    using assms tree_invD(1) [OF assms(1)] by (intro card_mono) (auto simp: children_def)
  finally show ?thesis .
qed

lemma tree_inv_add_child:
  assumes inv: "tree_inv s" and c: "valid_key c" "c \<noteq> root" "s c = None"
    and p: "s (parent_of c) = Some p" "kind p = Directory"
    and i: "child_count i = 0" and room: "card (dom s) < 2 ^ 64"
  shows "tree_inv (add_child s c p i)"
proof -
  let ?t = "add_child s c p i"
  have np: "parent_of c \<noteq> c" using parent_of_neq c by simp
  have t: "?t k = (if k = c then Some i else if k = parent_of c then Some (incr_children p) else s k)"
    for k using np by (simp add: add_child_def)
  have "Suc (unat (child_count p)) < 2 ^ 64"
    using card_children_less [OF inv p(1)] tree_invD(5) [OF inv p(1)] room by simp
  then have cc: "unat (child_count p + 1) = Suc (unat (child_count p))"
    using unat_add_1_no_overflow [of "child_count p"] by simp
  have empty_c: "children s c = {}"
    using tree_invD(4) [OF inv] c(3) by (fastforce simp: children_def)
  have dom_t: "dom ?t = insert c (dom s)" using p(1) by (auto simp: add_child_def)
  have ch: "children ?t k = (if k = parent_of c then insert c (children s k) else children s k)" for k
    by (rule children_add_child [of s c p, OF p(1) c(3,2)])
  have fresh: "c \<notin> children s k" for k using c(3) by (auto simp: children_def)
  have "unat (child_count j) = card (children ?t k)" if "?t k = Some j" for k j
    using that np tree_invD(5) [OF inv] i cc empty_c fresh p(1)
      children_finite [OF tree_invD(1) [OF inv]]
    by (auto simp: t ch split: if_splits)
  moreover have "\<exists>q. ?t (parent_of k) = Some q \<and> kind q = Directory"
    if "k \<in> dom ?t" "k \<noteq> root" for k
    using that tree_invD(4) [OF inv] p c(3) np unfolding dom_t t by (cases "k = c") fastforce+
  moreover have "kind j = Directory" if "?t root = Some j" for j
    using that tree_invD(3) [OF inv] c(2) p by (auto simp: t split: if_splits)
  ultimately show ?thesis
    using tree_invD(1,2) [OF inv] c(1) unfolding tree_inv_def dom_t by auto
qed

lemma tree_inv_remove_child:
  assumes inv: "tree_inv s" and c: "valid_key c" "c \<noteq> root" "s c = Some i" "child_count i = 0"
    and p: "s (parent_of c) = Some p"
  shows "tree_inv (remove_child s c p)"
proof -
  let ?t = "remove_child s c p"
  have np: "parent_of c \<noteq> c" using parent_of_neq c by simp
  have t: "?t k = (if k = c then None else if k = parent_of c then Some (decr_children p) else s k)"
    for k using np by (simp add: remove_child_def)
  have empty_c: "children s c = {}" by (rule no_children_if_count_0 [OF inv c(3,4)])
  have cp: "c \<in> children s (parent_of c)" using c by (auto simp: children_def)
  have dom_t: "dom ?t = dom s - {c}" using p by (auto simp: remove_child_def)
  have ch: "children ?t k = children s k - {c}" for k
    by (rule children_remove_child [of s c p, OF p])
  have other: "k \<noteq> parent_of c \<Longrightarrow> c \<notin> children s k" for k by (auto simp: children_def)
  have "unat (child_count j) = card (children ?t k)" if "?t k = Some j" for k j
    using that tree_invD(5) [OF inv] tree_invD(5) [OF inv p] cp other
      children_finite [OF tree_invD(1) [OF inv]]
    by (auto simp: t ch split: if_splits)
  moreover have "\<exists>q. ?t (parent_of k) = Some q \<and> kind q = Directory"
    if "k \<in> dom ?t" "k \<noteq> root" for k
  proof -
    have k: "k \<in> dom s" "k \<noteq> c" using that by (auto simp: dom_t)
    then have "parent_of k \<noteq> c" using empty_c that(2) by (auto simp: children_def)
    then show ?thesis using tree_invD(4) [OF inv] k that(2) p by (fastforce simp: t)
  qed
  moreover have "kind j = Directory" if "?t root = Some j" for j
    using that tree_invD(3) [OF inv] c(2) p by (auto simp: t split: if_splits)
  ultimately show ?thesis
    using tree_invD(1,2) [OF inv] unfolding tree_inv_def dom_t by auto
qed

section \<open>The operations as moves of one child\<close>

lemma incr_decr_children:
  "0 < unat (child_count i) \<Longrightarrow> incr_children (decr_children i) = i"
  by (auto simp: incr_children_def decr_children_def saturating_sub_def word_le_nat_alt)

text \<open>
  A rename that is not into the renamed directory itself removes the child and adds it elsewhere;
  with one common parent the two count updates cancel.
\<close>

lemma move_is_remove_add:
  assumes keys: "valid_key a" "a \<noteq> root" "valid_key b" "b \<noteq> root" "a \<noteq> b" "parent_of b \<noteq> a"
    and st: "s (parent_of a) = Some p" "s (parent_of b) = Some q" "s a = Some i" "s b = None"
    and pos: "0 < unat (child_count p)"
  shows "apply_writes s ([Delete a, Put b i] @
      (if parent_of a \<noteq> parent_of b
       then [Put (parent_of a) (decr_children p), Put (parent_of b) (incr_children q)] else [])) =
    add_child (remove_child s a p) b
      (if parent_of a = parent_of b then decr_children p else q) i"
proof -
  have "parent_of a \<noteq> a" "parent_of b \<noteq> b" "parent_of a \<noteq> b"
    using parent_of_neq keys st by auto
  with assms show ?thesis
    by (auto simp: add_child_def remove_child_def incr_decr_children fun_eq_iff)
qed

definition moves_into_itself :: "fs_op \<Rightarrow> bool" where
  "moves_into_itself o' = (case o' of Rename a b \<Rightarrow> is_strict_ancestor a b | _ \<Rightarrow> False)"

lemma parent_of_strict_ancestor:
  "valid_key b \<Longrightarrow> b \<noteq> root \<Longrightarrow> is_strict_ancestor (parent_of b) b"
  by (metis parent_parent_of parent_strict_ancestor)

lemma insert_is_add_child:
  assumes "valid_key c" "c \<noteq> root" "result (op_insert i c s) = TxOk" "s (parent_of c) = Some p"
  shows "apply_writes s (writes (op_insert i c s)) = add_child s c p i"
  using op_insert_Ok(2) [OF assms(3,4)] by (simp add: add_child_def)

lemma remove_is_remove_child:
  assumes "valid_key c" "c \<noteq> root" "\<And>i. f i \<noteq> Some TxOk" "result (op_remove f c s) = TxOk"
    "s (parent_of c) = Some p"
  shows "apply_writes s (writes (op_remove f c s)) = remove_child s c p"
  using op_remove_Ok(2) [OF assms(3-5)] by (simp add: remove_child_def)

lemma child_of_parent_counts:
  assumes "tree_inv s" "s a = Some i" "a \<noteq> root" "s (parent_of a) = Some p"
  shows "0 < unat (child_count p)"
proof -
  have "a \<in> children s (parent_of a)" using assms(2,3) by (auto simp: children_def)
  then have "0 < card (children s (parent_of a))"
    using children_finite [OF tree_invD(1) [OF assms(1)]] by (auto simp: card_gt_0_iff)
  then show ?thesis using tree_invD(5) [OF assms(1,4)] by simp
qed

lemma tree_inv_op_move:
  assumes inv: "tree_inv s" and room: "card (dom s) < 2 ^ 64"
    and keys: "valid_key a" "a \<noteq> root" "valid_key b" "b \<noteq> root" "a \<noteq> b" "parent_of b \<noteq> a"
    and ok: "result (op_move a b s) = TxOk"
  shows "tree_inv (apply_writes s (writes (op_move a b s)))"
proof -
  obtain p q i where st: "s (parent_of a) = Some p" "s (parent_of b) = Some q" "s a = Some i"
      "s b = None" and k: "kind p = Directory" "kind q = Directory"
      "kind i = Directory \<longrightarrow> child_count i = 0"
    using ok by (auto simp: op_Ok)
  let ?r = "remove_child s a p"
  let ?q = "if parent_of a = parent_of b then decr_children p else q"
  have zero: "child_count i = 0"
    using k(3) file_has_no_children(2) [OF inv st(3)] by (cases "kind i") auto
  have pos: "0 < unat (child_count p)" by (rule child_of_parent_counts [OF inv st(3) keys(2) st(1)])
  have r: "tree_inv ?r" by (rule tree_inv_remove_child [OF inv keys(1,2) st(3) zero st(1)])
  have "?r b = None" using st(1,4) by (auto simp: remove_child_def)
  moreover have "?r (parent_of b) = Some ?q" "kind ?q = Directory"
    using st k keys(6) by (auto simp: remove_child_def)
  moreover have "card (dom ?r) < 2 ^ 64"
  proof -
    have "dom ?r \<subseteq> dom s" using st(1) by (auto simp: remove_child_def)
    then have "card (dom ?r) \<le> card (dom s)" by (rule card_mono [OF tree_invD(1) [OF inv]])
    with room show ?thesis by simp
  qed
  ultimately have "tree_inv (add_child ?r b ?q i)"
    using r keys(3,4) zero by (intro tree_inv_add_child)
  then show ?thesis
    using move_is_remove_add [OF keys st pos] op_move_Ok(2) [OF ok st(1-3)] by simp
qed

lemma tree_inv_empty_if_no_root:
  assumes "tree_inv s" "s root = None" shows "s = Map.empty"
proof -
  have "k \<notin> dom s" if "length (segments k) = n" for k n
    using that
  proof (induction n arbitrary: k)
    case 0
    then show ?case using assms(2) segments_Nil_iff tree_invD(2) [OF assms(1)] by fastforce
  next
    case (Suc n)
    show ?case
    proof
      assume k: "k \<in> dom s"
      then have v: "valid_key k" "k \<noteq> root" using tree_invD(2) [OF assms(1)] assms(2) by auto
      then have "length (segments (parent_of k)) = n"
        using parent_length parent_parent_of Suc.prems by fastforce
      then show False using Suc.IH tree_invD(4) [OF assms(1)] k v(2) by fastforce
    qed
  qed
  then show ?thesis by (auto simp: dom_def)
qed

lemma tree_inv_op_apply:
  assumes inv: "tree_inv s" and v: "valid_op o'" and nm: "\<not> moves_into_itself o'"
    and room: "card (dom s) < 2 ^ 64"
  shows "tree_inv (op_apply o' s)"
proof (cases "op_result o' s = TxOk")
  case False
  then show ?thesis using inv by (simp add: op_apply_failed)
next
  case True
  note ok = True [unfolded op_result_def]
  show ?thesis
  proof (cases o')
    case (Create c)
    then show ?thesis using ok v tree_inv_add_child [OF inv _ _ _ _ _ _ room, of c _ inode_file]
        insert_is_add_child [of c inode_file s]
      by (auto simp: op_apply_def op_Ok inode_file_def split: if_splits)
  next
    case (Mkdir c)
    have "tree_inv (s(root \<mapsto> inode_directory 0))" if "s root = None"
      using tree_inv_empty_if_no_root [OF inv that]
      by (auto simp: tree_inv_def children_def inode_directory_def)
    then show ?thesis using Mkdir ok v
        tree_inv_add_child [OF inv _ _ _ _ _ _ room, of c _ "inode_directory 0"]
        insert_is_add_child [of c "inode_directory 0" s]
      by (auto simp: op_apply_def op_Ok inode_directory_def split: if_splits)
  next
    case (Unlink c)
    then show ?thesis using ok v tree_inv_remove_child [OF inv, of c] file_has_no_children [OF inv]
        remove_is_remove_child [of c unlink_refusal s]
      by (auto simp: op_apply_def op_Ok split: if_splits)
  next
    case (Rmdir c)
    then show ?thesis using ok v tree_inv_remove_child [OF inv, of c]
        remove_is_remove_child [of c rmdir_refusal s]
      by (auto simp: op_apply_def op_Ok split: if_splits)
  next
    case (Rename a b)
    have "parent_of b \<noteq> a" if "b \<noteq> root"
      using nm v Rename that parent_of_strict_ancestor [of b] by (auto simp: moves_into_itself_def)
    then show ?thesis
      using Rename v ok tree_inv_op_move [OF inv room, of a b]
      by (auto simp: op_apply_def split: if_splits)
  next
    case (Stat c)
    then show ?thesis using inv by (simp add: op_apply_def)
  qed
qed

section \<open>A rename into the renamed directory\<close>

text \<open>
  \<open>exec_rename\<close> does not compare the two paths beyond equality. An empty directory \<open>a\<close> is
  renamed to a path directly below itself with result \<open>Ok\<close>: the write to the destination's
  parent puts \<open>a\<close> back, while the count of its own parent has been decremented.
\<close>

lemma self_move:
  assumes inv: "tree_inv s" and keys: "valid_key a" "a \<noteq> root" "valid_key b" "b \<noteq> root" "parent_of b = a"
    and i: "s a = Some i" "kind i = Directory" "child_count i = 0"
  shows "op_result (Rename a b) s = TxOk" "\<not> tree_inv (op_apply (Rename a b) s)"
proof -
  obtain p where p: "s (parent_of a) = Some p" "kind p = Directory"
    using tree_invD(4) [OF inv i(1) keys(2)] by blast
  have ne: "a \<noteq> b" "parent_of a \<noteq> a" using keys parent_of_neq by metis+
  have pa: "parent_of a \<noteq> b"
  proof
    assume "parent_of a = b"
    then have "length (segments b) = length (segments a) - 1" "length (segments a) = length (segments b) - 1"
      using keys parent_length [of a] parent_length [of b] parent_parent_of by auto
    moreover have "segments a \<noteq> []" using keys segments_Nil_iff by auto
    ultimately show False by (cases "segments a") auto
  qed
  have b: "s b = None"
    using no_children_if_count_0 [OF inv i(1,3)] keys(4,5) by (auto simp: children_def)
  have ok: "result (op_move a b s) = TxOk" using p i b keys(5) by (auto simp: op_Ok)
  show "op_result (Rename a b) s = TxOk" using ok keys ne by (simp add: op_result_def)
  let ?t = "op_apply (Rename a b) s"
  have t: "?t = s(a \<mapsto> incr_children i, b \<mapsto> i, parent_of a \<mapsto> decr_children p)"
    using op_move_Ok(2) [OF ok p(1) _ i(1), of i] i keys ne pa by (auto simp: op_apply_def fun_eq_iff)
  have "children ?t (parent_of a) = children s (parent_of a)"
    using i(1) p(1) keys ne by (auto simp: t children_def)
  moreover have "unat (child_count p) = card (children s (parent_of a))"
    by (rule tree_invD(5) [OF inv p(1)])
  moreover have "0 < unat (child_count p)"
    by (rule child_of_parent_counts [OF inv i(1) keys(2) p(1)])
  moreover have "?t (parent_of a) = Some (decr_children p)" by (simp add: t)
  ultimately show "\<not> tree_inv ?t" using tree_invD(5) [of ?t "parent_of a"] by fastforce
qed

end
