(* ===== verification/Checker.thy ===== *)
theory Checker
  imports FsTree "HOL-Library.Multiset"
begin

text \<open>
  The reference checker, \<open>src/checker.rs\<close>: serial reference execution of batches, in batch order
  or in the order of speculative reorder records, the consistency checks on the records of the
  shards and on the results of the active participants, and the merge of the shard dumps. The
  lemmas relate the reference execution to the operation specification and show what an accepted
  check establishes.
\<close>

section \<open>Reference execution\<close>

definition apply_reference_tx :: "ordered_tx \<Rightarrow> fs_state \<Rightarrow> fs_state" where
  "apply_reference_tx tx state =
     (let reads = reads_of state (read_set tx);
          output = execute_deterministic tx reads
      in apply_writes state (writes output))"

definition run_txs :: "ordered_tx list \<Rightarrow> fs_state \<Rightarrow> fs_state" where
  "run_txs ts state = fold apply_reference_tx ts state"

definition reference_execute_batches :: "batch list \<Rightarrow> fs_state" where
  "reference_execute_batches bs =
     fold (\<lambda>b state. fold apply_reference_tx (txs b) state) bs Map.empty"

fun check_indices :: "nat \<Rightarrow> nat set \<Rightarrow> nat list \<Rightarrow> nat set result" where
  "check_indices batch_len seen [] = Ok seen"
| "check_indices batch_len seen (index # rest) =
     (if index \<ge> batch_len then Err (Checker ''reorder contains out-of-range index'')
      else if index \<in> seen then Err (Checker ''reorder contains duplicate index'')
      else check_indices batch_len (insert index seen) rest)"

definition validate_reorder_record :: "batch \<Rightarrow> reorder_record \<Rightarrow> unit result" where
  "validate_reorder_record b reorder =
     (if reorder_batch_id reorder \<noteq> batch_id b then Err (Checker ''reorder batch id mismatch'')
      else
        rbind (check_indices (length (txs b)) {}
                 (speculative_success_indices reorder @ fallback_indices reorder)) (\<lambda>seen.
        if seen \<noteq> {0..<length (txs b)} then Err (Checker ''reorder does not cover every tx index'')
        else Ok ()))"

definition reference_execute_scc_reordered_batches ::
    "batch list \<Rightarrow> (batch_id \<rightharpoonup> reorder_record) \<Rightarrow> fs_state result" where
  "reference_execute_scc_reordered_batches bs reorders =
     fold_res (\<lambda>b state.
       case reorders (batch_id b) of
         None \<Rightarrow> Err (Checker ''missing SCC reorder record for batch'')
       | Some reorder \<Rightarrow>
           rbind (validate_reorder_record b reorder) (\<lambda>_.
           Ok (fold (\<lambda>index. apply_reference_tx (txs b ! index))
                 (speculative_success_indices reorder @ fallback_indices reorder) state)))
       bs Map.empty"

section \<open>Consistency of the reorder records\<close>

definition index_batches :: "batch list \<Rightarrow> (batch_id \<rightharpoonup> batch) result" where
  "index_batches bs = fold_res (\<lambda>b batch_by_id.
     if batch_by_id (batch_id b) \<noteq> None
     then Err (Checker ''duplicate SCC batch id in reference batches'')
     else Ok (batch_by_id(batch_id b \<mapsto> b))) bs Map.empty"

text \<open>\<open>entry(k).or_default()\<close> on a map of sets; an absent entry of \<open>fallback\<close> is the empty set.\<close>

definition check_record ::
    "(batch_id \<rightharpoonup> batch) \<Rightarrow> reorder_record
      \<Rightarrow> (batch_id \<rightharpoonup> nat set) \<times> batch_id set \<Rightarrow> ((batch_id \<rightharpoonup> nat set) \<times> batch_id set) result" where
  "check_record batch_by_id record st =
     (case batch_by_id (reorder_batch_id record) of
        None \<Rightarrow> Err (Checker ''SCC reorder for unknown batch'')
      | Some b \<Rightarrow>
          rbind (validate_reorder_record b record) (\<lambda>_.
          let fallback = (fst st)(reorder_batch_id record \<mapsto>
                (case fst st (reorder_batch_id record) of None \<Rightarrow> {} | Some A \<Rightarrow> A)
                  \<union> set (fallback_indices record))
          in if reorder_batch_id record \<in> snd st
             then Err (Checker ''duplicate SCC reorder for a batch'')
             else Ok (fallback, insert (reorder_batch_id record) (snd st))))"

definition check_shard_records ::
    "(batch_id \<rightharpoonup> batch) \<Rightarrow> shard_id \<times> reorder_record list
      \<Rightarrow> (batch_id \<rightharpoonup> nat set) \<Rightarrow> (batch_id \<rightharpoonup> nat set) result" where
  "check_shard_records batch_by_id shard fallback =
     rbind (fold_res (check_record batch_by_id) (snd shard) (fallback, {})) (\<lambda>(fallback', seen).
     if seen \<noteq> dom batch_by_id then Err (Checker ''SCC reorder batches mismatch'')
     else Ok fallback')"

definition build_reference_reorder ::
    "batch \<Rightarrow> (batch_id \<rightharpoonup> reorder_record) \<times> (batch_id \<rightharpoonup> nat set)
      \<Rightarrow> ((batch_id \<rightharpoonup> reorder_record) \<times> (batch_id \<rightharpoonup> nat set)) result" where
  "build_reference_reorder b st =
     (let fallback_set = (case snd st (batch_id b) of None \<Rightarrow> {} | Some A \<Rightarrow> A);
          all_indices = {0..<length (txs b)}
      in if \<not> fallback_set \<subseteq> all_indices
         then Err (Checker ''SCC fallback union contains index outside batch length'')
         else Ok ((fst st)(batch_id b \<mapsto>
                 \<lparr>reorder_batch_id = batch_id b,
                  speculative_success_indices = sorted_list_of_set (all_indices - fallback_set),
                  fallback_indices = sorted_list_of_set fallback_set\<rparr>),
               (snd st)(batch_id b := None)))"

definition assert_scc_reorders_consistent ::
    "batch list \<Rightarrow> (shard_id \<times> reorder_record list) list \<Rightarrow> (batch_id \<rightharpoonup> reorder_record) result" where
  "assert_scc_reorders_consistent bs shard_reorders =
     rbind (index_batches bs) (\<lambda>batch_by_id.
     rbind (fold_res (check_shard_records batch_by_id) shard_reorders Map.empty) (\<lambda>fallback.
     rbind (fold_res build_reference_reorder bs (Map.empty, fallback)) (\<lambda>(reorders, rest).
     if rest \<noteq> Map.empty then Err (Checker ''SCC fallback union contains unknown batches'')
     else Ok reorders)))"

section \<open>Merging and comparing\<close>

definition merge_shard :: "shard_layout \<Rightarrow> shard_id \<times> fs_state \<Rightarrow> fs_state \<Rightarrow> fs_state result" where
  "merge_shard layout x = (case x of (shard, state) \<Rightarrow>
     fold_res (\<lambda>k merged.
         if shard_for_key layout k \<noteq> shard then Err (Checker ''key found on another shard'')
         else if merged k \<noteq> None then Err (Checker ''key appears in more than one shard dump'')
         else Ok (merged(k := state k)))
       (sorted_list_of_set (dom state)))"

definition merge_shard_states ::
    "shard_layout \<Rightarrow> (shard_id \<times> fs_state) list \<Rightarrow> fs_state result" where
  "merge_shard_states layout shard_states = fold_res (merge_shard layout) shard_states Map.empty"

definition assert_state_matches :: "fs_state \<Rightarrow> fs_state \<Rightarrow> unit result" where
  "assert_state_matches expected actual =
     (if expected \<noteq> actual then Err (Checker ''final state mismatch'') else Ok ())"

definition index_results ::
    "tx_result_record list \<Rightarrow> (tx_id \<rightharpoonup> (shard_id \<rightharpoonup> tx_result)) result" where
  "index_results records = fold_res (\<lambda>r by_tx.
     let entry = (case by_tx (rec_tx_id r) of None \<Rightarrow> Map.empty | Some m \<Rightarrow> m)
     in if entry (rec_shard_id r) \<noteq> None then Err (Checker ''duplicate result for tx'')
        else Ok (by_tx(rec_tx_id r \<mapsto> entry(rec_shard_id r \<mapsto> rec_result r)))) records Map.empty"

definition check_tx_results ::
    "shard_layout \<Rightarrow> (tx_id \<rightharpoonup> (shard_id \<rightharpoonup> tx_result)) \<Rightarrow> ordered_tx \<Rightarrow> unit result" where
  "check_tx_results layout by_tx tx =
     (case by_tx (tx_id tx) of
        None \<Rightarrow> Err (Checker ''missing all active results for tx'')
      | Some actual \<Rightarrow>
          if dom actual \<noteq> p_active (participants_of layout tx)
          then Err (Checker ''active result shards mismatch'')
          else (case map (\<lambda>s. the (actual s)) (sorted_list_of_set (dom actual)) of
                  [] \<Rightarrow> Err (Checker ''empty result set for tx'')
                | first # values \<Rightarrow>
                    if \<exists>v \<in> set values. v \<noteq> first
                    then Err (Checker ''active result disagreement'') else Ok ()))"

definition assert_tx_results_consistent ::
    "shard_layout \<Rightarrow> batch list \<Rightarrow> tx_result_record list \<Rightarrow> unit result" where
  "assert_tx_results_consistent layout bs records =
     rbind (index_results records) (\<lambda>by_tx.
     fold_res (\<lambda>b _. fold_res (\<lambda>tx _. check_tx_results layout by_tx tx) (txs b) ()) bs ())"

section \<open>Reference execution and the specification\<close>

lemma apply_reference_tx_eq: "valid_tx tx \<Longrightarrow> apply_reference_tx tx s = op_apply (op tx) s"
  by (simp add: apply_reference_tx_def op_apply_def execute_deterministic_reads_of)

lemma run_txs_simps [simp]:
  "run_txs [] s = s" "run_txs (t # ts) s = run_txs ts (apply_reference_tx t s)"
  "run_txs (ts @ us) s = run_txs us (run_txs ts s)"
  by (simp_all add: run_txs_def)

lemma run_txs_op_apply:
  "(\<And>t. t \<in> set ts \<Longrightarrow> valid_tx t) \<Longrightarrow> run_txs ts s = fold (\<lambda>t. op_apply (op t)) ts s"
  by (induction ts arbitrary: s) (simp_all add: apply_reference_tx_eq)

lemma reference_execute_batches_concat:
  "reference_execute_batches bs = run_txs (concat (map txs bs)) Map.empty"
proof -
  have "fold (\<lambda>b. fold apply_reference_tx (txs b)) bs s = run_txs (concat (map txs bs)) s" for s
    by (induction bs arbitrary: s) (simp_all add: run_txs_def)
  then show ?thesis by (simp add: reference_execute_batches_def)
qed

text \<open>Any run of transactions that does not rename a directory into itself keeps the tree.\<close>

lemma dom_op_apply: "card (dom (op_apply o' s)) \<le> Suc (card (dom s))" if "finite (dom s)"
proof (cases "op_result o' s = TxOk")
  case True
  have "\<exists>k. dom (op_apply o' s) \<subseteq> insert k (dom s)"
    using True unfolding op_apply_def op_result_def
    by (cases o') (auto simp: op_Ok op_insert_Ok(2) op_remove_Ok(2) op_move_Ok(2)
        refusal_not_Ok split: if_splits)
  then obtain k where k: "dom (op_apply o' s) \<subseteq> insert k (dom s)" by blast
  have "card (dom (op_apply o' s)) \<le> card (insert k (dom s))"
    using that by (intro card_mono [OF _ k]) simp
  also have "\<dots> \<le> Suc (card (dom s))" by (rule card_insert_le_m1) simp_all
  finally show ?thesis .
qed (simp add: op_apply_failed)

lemma tree_inv_run_txs:
  assumes "tree_inv s" "\<And>t. t \<in> set ts \<Longrightarrow> valid_tx t \<and> \<not> moves_into_itself (op t)"
    "card (dom s) + length ts \<le> 2 ^ 64"
  shows "tree_inv (run_txs ts s)"
  using assms
proof (induction ts arbitrary: s)
  case (Cons t ts)
  have v: "valid_tx t" "valid_op (op t)" "\<not> moves_into_itself (op t)"
    using Cons.prems(2) by (auto simp: valid_tx_iff)
  have "tree_inv (op_apply (op t) s)"
    using Cons.prems v by (intro tree_inv_op_apply) auto
  moreover have "card (dom (op_apply (op t) s)) + length ts \<le> 2 ^ 64"
    using dom_op_apply [OF tree_invD(1) [OF Cons.prems(1)], of "op t"] Cons.prems(3) by simp
  ultimately show ?case using Cons v by (simp add: apply_reference_tx_eq)
qed simp

section \<open>Reorder records\<close>

lemma check_indices_Ok_iff:
  "check_indices n seen xs = Ok S \<longleftrightarrow>
     distinct xs \<and> set xs \<subseteq> {0..<n} \<and> set xs \<inter> seen = {} \<and> S = seen \<union> set xs"
  by (induction n seen xs rule: check_indices.induct) auto

definition reorder_indices :: "reorder_record \<Rightarrow> nat list" where
  "reorder_indices r = speculative_success_indices r @ fallback_indices r"

lemma validate_reorder_record_Ok_iff:
  "validate_reorder_record b r = Ok () \<longleftrightarrow>
     reorder_batch_id r = batch_id b \<and> distinct (reorder_indices r) \<and>
     set (reorder_indices r) = {0..<length (txs b)}"
  by (auto simp: validate_reorder_record_def res_simps check_indices_Ok_iff reorder_indices_def)

lemma mset_upt_iff: "mset xs = mset_set {0..<n} \<longleftrightarrow> distinct xs \<and> set xs = {0..<n}"
  for n :: nat
proof
  assume "mset xs = mset_set {0..<n}"
  then have m: "mset xs = mset [0..<n]" by simp
  show "distinct xs \<and> set xs = {0..<n}"
    using mset_eq_imp_distinct_iff [OF m] mset_eq_setD [OF m] by simp
next
  assume "distinct xs \<and> set xs = {0..<n}"
  then have "mset xs = mset [0..<n]"
    by (subst set_eq_iff_mset_eq_distinct [symmetric]) simp_all
  then show "mset xs = mset_set {0..<n}" by simp
qed

lemma list_all2_functional:
  assumes "\<And>x y. R x y \<longleftrightarrow> D x \<and> y = f x"
  shows "list_all2 R xs ys \<longleftrightarrow> (\<forall>x \<in> set xs. D x) \<and> ys = map f xs"
  by (induction xs arbitrary: ys) (auto simp: list_all2_Cons1 assms)

definition permuted_txs :: "batch \<Rightarrow> reorder_record \<Rightarrow> ordered_tx list" where
  "permuted_txs b r = map (\<lambda>i. txs b ! i) (reorder_indices r)"

lemma permuted_txs_mset:
  assumes "validate_reorder_record b r = Ok ()"
  shows "mset (permuted_txs b r) = mset (txs b)"
proof -
  have "mset (reorder_indices r) = mset [0..<length (txs b)]"
    using assms by (simp add: validate_reorder_record_Ok_iff mset_upt_iff)
  then have "image_mset (\<lambda>i. txs b ! i) (mset (reorder_indices r)) =
      image_mset (\<lambda>i. txs b ! i) (mset [0..<length (txs b)])" by simp
  then show ?thesis
    by (metis (no_types) map_nth mset_map permuted_txs_def)
qed

lemma fold_index_run_txs:
  "fold (\<lambda>i. apply_reference_tx (txs b ! i)) is s = run_txs (map (\<lambda>i. txs b ! i) is) s"
  by (induction "is" arbitrary: s) simp_all

lemma reordered_step:
  "(case reorders (batch_id b) of None \<Rightarrow> Err e
     | Some r \<Rightarrow> rbind (validate_reorder_record b r) (\<lambda>_.
         Ok (fold (\<lambda>index. apply_reference_tx (txs b ! index))
           (speculative_success_indices r @ fallback_indices r) s))) = Ok t \<longleftrightarrow>
   (\<exists>r. reorders (batch_id b) = Some r \<and> validate_reorder_record b r = Ok () \<and>
     t = run_txs (permuted_txs b r) s)"
  by (auto simp: res_simps fold_index_run_txs permuted_txs_def reorder_indices_def split: option.splits)

lemma reference_reordered_Ok_iff:
  "reference_execute_scc_reordered_batches bs reorders = Ok t \<longleftrightarrow>
     (\<forall>b \<in> set bs. \<exists>r. reorders (batch_id b) = Some r \<and> validate_reorder_record b r = Ok ()) \<and>
     t = run_txs (concat (map (\<lambda>b. permuted_txs b (the (reorders (batch_id b)))) bs)) Map.empty"
proof -
  let ?f = "\<lambda>b state. case reorders (batch_id b) of
         None \<Rightarrow> Err (Checker ''missing SCC reorder record for batch'')
       | Some reorder \<Rightarrow>
           rbind (validate_reorder_record b reorder) (\<lambda>_.
           Ok (fold (\<lambda>index. apply_reference_tx (txs b ! index))
                 (speculative_success_indices reorder @ fallback_indices reorder) state))"
  have "fold_res ?f bs s = Ok t \<longleftrightarrow>
     (\<forall>b \<in> set bs. \<exists>r. reorders (batch_id b) = Some r \<and> validate_reorder_record b r = Ok ()) \<and>
     t = run_txs (concat (map (\<lambda>b. permuted_txs b (the (reorders (batch_id b)))) bs)) s" for s
    by (induction bs arbitrary: s) (auto simp: rbind_eq_Inr reordered_step)
  then show ?thesis by (simp add: reference_execute_scc_reordered_batches_def)
qed

section \<open>Accepted reorder records\<close>

lemma index_batches_gen:
  assumes "fold_res (\<lambda>b batch_by_id. if batch_by_id (batch_id b) \<noteq> None
     then Err (Checker ''duplicate SCC batch id in reference batches'')
     else Ok (batch_by_id(batch_id b \<mapsto> b))) bs m0 = Ok m"
  shows "distinct (map batch_id bs)" "\<forall>b \<in> set bs. m0 (batch_id b) = None \<and> m (batch_id b) = Some b"
    "\<forall>bid. bid \<notin> batch_id ` set bs \<longrightarrow> m bid = m0 bid"
proof -
  have "distinct (map batch_id bs) \<and>
      (\<forall>b \<in> set bs. m0 (batch_id b) = None \<and> m (batch_id b) = Some b) \<and>
      (\<forall>bid. bid \<notin> batch_id ` set bs \<longrightarrow> m bid = m0 bid)"
    using assms
  proof (induction bs arbitrary: m0)
    case (Cons b bs)
    let ?m1 = "m0(batch_id b \<mapsto> b)"
    have new: "m0 (batch_id b) = None" using Cons.prems by (auto split: if_splits)
    have IH: "distinct (map batch_id bs)"
      "\<forall>b' \<in> set bs. ?m1 (batch_id b') = None \<and> m (batch_id b') = Some b'"
      "\<forall>bid. bid \<notin> batch_id ` set bs \<longrightarrow> m bid = ?m1 bid"
      using Cons.IH [of ?m1] Cons.prems new by (auto simp del: fun_upd_apply)
    have fresh: "batch_id b \<notin> batch_id ` set bs" using IH(2) by fastforce
    then have "m (batch_id b) = Some b" using IH(3) by simp
    then show ?case using IH fresh new by (auto split: if_splits)
  qed simp
  then show "distinct (map batch_id bs)"
    "\<forall>b \<in> set bs. m0 (batch_id b) = None \<and> m (batch_id b) = Some b"
    "\<forall>bid. bid \<notin> batch_id ` set bs \<longrightarrow> m bid = m0 bid" by blast+
qed

lemma index_batches_Ok:
  assumes "index_batches bs = Ok m"
  shows "distinct (map batch_id bs)" "b \<in> set bs \<Longrightarrow> m (batch_id b) = Some b"
    "m bid = Some b \<Longrightarrow> b \<in> set bs \<and> batch_id b = bid" "dom m = batch_id ` set bs"
proof -
  note g = index_batches_gen [OF assms [unfolded index_batches_def]]
  show "distinct (map batch_id bs)" "b \<in> set bs \<Longrightarrow> m (batch_id b) = Some b"
    using g by auto
  show "m bid = Some b \<Longrightarrow> b \<in> set bs \<and> batch_id b = bid"
    using g(2,3) by (cases "bid \<in> batch_id ` set bs") auto
  show "dom m = batch_id ` set bs" using g(2,3) by (auto simp: dom_def)
qed

text \<open>The fallback indices that the records \<open>rs\<close> report for a batch.\<close>

definition fallback_union :: "reorder_record list \<Rightarrow> batch_id \<Rightarrow> nat set" where
  "fallback_union rs bid = (\<Union>r \<in> {r \<in> set rs. reorder_batch_id r = bid}. set (fallback_indices r))"

definition entry_set :: "('a \<rightharpoonup> 'b set) \<Rightarrow> 'a \<Rightarrow> 'b set" where
  "entry_set m k = (case m k of None \<Rightarrow> {} | Some A \<Rightarrow> A)"

lemma check_record_Ok:
  "check_record m r st = Ok st' \<longleftrightarrow>
     (\<exists>b. m (reorder_batch_id r) = Some b \<and> validate_reorder_record b r = Ok ()) \<and>
     reorder_batch_id r \<notin> snd st \<and>
     st' = ((fst st)(reorder_batch_id r \<mapsto> entry_set (fst st) (reorder_batch_id r) \<union> set (fallback_indices r)),
            insert (reorder_batch_id r) (snd st))"
  by (auto simp: check_record_def entry_set_def Let_def res_simps split: option.splits if_splits)

lemma check_records_Ok:
  assumes "fold_res (check_record m) rs (fb, seen) = Ok (fb', seen')"
  shows "(\<forall>bid. entry_set fb' bid = entry_set fb bid \<union> fallback_union rs bid) \<and>
    dom fb' = dom fb \<union> reorder_batch_id ` set rs \<and>
    seen' = seen \<union> reorder_batch_id ` set rs \<and> distinct (map reorder_batch_id rs) \<and>
    reorder_batch_id ` set rs \<inter> seen = {} \<and>
    (\<forall>r \<in> set rs. \<exists>b. m (reorder_batch_id r) = Some b \<and> validate_reorder_record b r = Ok ())"
  using assms
proof (induction rs arbitrary: fb seen)
  case (Cons r rs)
  let ?id = "reorder_batch_id r"
  let ?fb = "fb(?id \<mapsto> entry_set fb ?id \<union> set (fallback_indices r))"
  have r: "\<exists>b. m ?id = Some b \<and> validate_reorder_record b r = Ok ()" "?id \<notin> seen"
    and *: "fold_res (check_record m) rs (?fb, insert ?id seen) = Ok (fb', seen')"
    using Cons.prems by (auto simp: rbind_eq_Inr check_record_Ok)
  have "entry_set ?fb bid \<union> fallback_union rs bid = entry_set fb bid \<union> fallback_union (r # rs) bid"
    for bid by (auto simp: entry_set_def fallback_union_def)
  moreover have "dom ?fb = insert ?id (dom fb)" by auto
  ultimately show ?case using Cons.IH [OF *] r by (simp del: fun_upd_apply)
qed (auto simp: fallback_union_def)

lemma check_shard_records_Ok:
  assumes "check_shard_records m shard fb = Ok fb'"
  shows "entry_set fb' bid = entry_set fb bid \<union> fallback_union (snd shard) bid"
    "dom fb' = dom fb \<union> dom m" "distinct (map reorder_batch_id (snd shard))"
    "reorder_batch_id ` set (snd shard) = dom m"
    "r \<in> set (snd shard) \<Longrightarrow> \<exists>b. m (reorder_batch_id r) = Some b \<and> validate_reorder_record b r = Ok ()"
proof -
  obtain seen where *: "fold_res (check_record m) (snd shard) (fb, {}) = Ok (fb', seen)" "seen = dom m"
    using assms by (auto simp: check_shard_records_def res_simps split: if_splits)
  note c = check_records_Ok [OF *(1)]
  show "entry_set fb' bid = entry_set fb bid \<union> fallback_union (snd shard) bid"
    "dom fb' = dom fb \<union> dom m" "distinct (map reorder_batch_id (snd shard))"
    "reorder_batch_id ` set (snd shard) = dom m"
    "r \<in> set (snd shard) \<Longrightarrow> \<exists>b. m (reorder_batch_id r) = Some b \<and> validate_reorder_record b r = Ok ()"
    using c *(2) by auto
qed

lemma check_all_shards_Ok:
  assumes "fold_res (check_shard_records m) shards fb = Ok fb'"
  shows "(\<forall>bid. entry_set fb' bid = entry_set fb bid \<union> fallback_union (concat (map snd shards)) bid) \<and>
    dom fb' \<subseteq> dom fb \<union> dom m \<and>
    (\<forall>x \<in> set shards. distinct (map reorder_batch_id (snd x)) \<and> reorder_batch_id ` set (snd x) = dom m \<and>
      (\<forall>r \<in> set (snd x). \<exists>b. m (reorder_batch_id r) = Some b \<and> validate_reorder_record b r = Ok ()))"
  using assms
proof (induction shards arbitrary: fb)
  case (Cons x shards)
  obtain fb1 where x: "check_shard_records m x fb = Ok fb1"
    and *: "fold_res (check_shard_records m) shards fb1 = Ok fb'"
    using Cons.prems by (auto simp: rbind_eq_Inr)
  have "fallback_union (concat (map snd (x # shards))) bid =
      fallback_union (snd x) bid \<union> fallback_union (concat (map snd shards)) bid" for bid
    by (auto simp: fallback_union_def)
  then show ?case
    using Cons.IH [OF *] check_shard_records_Ok [OF x] by auto
qed (auto simp: fallback_union_def)

definition canonical_reorder :: "batch \<Rightarrow> nat set \<Rightarrow> reorder_record" where
  "canonical_reorder b A =
     \<lparr>reorder_batch_id = batch_id b,
      speculative_success_indices = sorted_list_of_set ({0..<length (txs b)} - A),
      fallback_indices = sorted_list_of_set A\<rparr>"

lemma canonical_reorder_valid:
  assumes "A \<subseteq> {0..<length (txs b)}"
  shows "validate_reorder_record b (canonical_reorder b A) = Ok ()"
proof -
  have "finite A" using assms finite_subset by blast
  then show ?thesis
    using assms by (auto simp: validate_reorder_record_Ok_iff canonical_reorder_def reorder_indices_def)
qed

lemma build_reference_reorder_Ok:
  "build_reference_reorder b st = Ok st' \<longleftrightarrow>
     entry_set (snd st) (batch_id b) \<subseteq> {0..<length (txs b)} \<and>
     st' = ((fst st)(batch_id b \<mapsto> canonical_reorder b (entry_set (snd st) (batch_id b))),
            (snd st)(batch_id b := None))"
  by (auto simp: build_reference_reorder_def Let_def entry_set_def canonical_reorder_def)

lemma build_reorders_Ok:
  assumes "fold_res build_reference_reorder bs (m, fb) = Ok (m', fb')" "distinct (map batch_id bs)"
  shows "(\<forall>b \<in> set bs. entry_set fb (batch_id b) \<subseteq> {0..<length (txs b)} \<and>
      m' (batch_id b) = Some (canonical_reorder b (entry_set fb (batch_id b)))) \<and>
    (\<forall>bid. bid \<notin> batch_id ` set bs \<longrightarrow> m' bid = m bid)"
  using assms
proof (induction bs arbitrary: m fb)
  case (Cons b bs)
  let ?A = "entry_set fb (batch_id b)"
  let ?m = "m(batch_id b \<mapsto> canonical_reorder b ?A)" and ?fb = "fb(batch_id b := None)"
  have A: "?A \<subseteq> {0..<length (txs b)}" and *: "fold_res build_reference_reorder bs (?m, ?fb) = Ok (m', fb')"
    using Cons.prems(1) by (auto simp: rbind_eq_Inr build_reference_reorder_Ok)
  have fresh: "batch_id b \<notin> batch_id ` set bs" using Cons.prems(2) by simp
  have "entry_set ?fb (batch_id b') = entry_set fb (batch_id b')" if "b' \<in> set bs" for b'
  proof -
    have "batch_id b' \<noteq> batch_id b" using that fresh by (metis imageI)
    then show ?thesis by (simp add: entry_set_def)
  qed
  then show ?case using Cons.IH [OF *] Cons.prems(2) A fresh
    by (auto simp del: fun_upd_apply simp: fun_upd_same fun_upd_other)
qed simp

text \<open>
  What an accepted set of reorder records establishes: the batch ids are distinct, every shard
  reported exactly one complete record per batch, and the returned record of a batch runs the
  indices outside the union of the shards' fallback sets first, then that union, each in
  increasing order.
\<close>

lemma assert_scc_reorders_consistent_Ok:
  assumes "assert_scc_reorders_consistent bs shards = Ok reorders"
  shows "distinct (map batch_id bs)"
    "b \<in> set bs \<Longrightarrow> reorders (batch_id b) =
       Some (canonical_reorder b (fallback_union (concat (map snd shards)) (batch_id b)))"
    "b \<in> set bs \<Longrightarrow> fallback_union (concat (map snd shards)) (batch_id b) \<subseteq> {0..<length (txs b)}"
    "x \<in> set shards \<Longrightarrow> distinct (map reorder_batch_id (snd x)) \<and>
       reorder_batch_id ` set (snd x) = batch_id ` set bs"
    "x \<in> set shards \<Longrightarrow> r \<in> set (snd x) \<Longrightarrow>
       \<exists>b \<in> set bs. validate_reorder_record b r = Ok ()"
    "dom reorders = batch_id ` set bs"
proof -
  obtain m fb rest where
    m: "index_batches bs = Ok m" and
    fb: "fold_res (check_shard_records m) shards Map.empty = Ok fb" and
    r: "fold_res build_reference_reorder bs (Map.empty, fb) = Ok (reorders, rest)"
    using assms by (auto simp: assert_scc_reorders_consistent_def rbind_eq_Inr split: if_splits)
  note im = index_batches_Ok [OF m] and cs = check_all_shards_Ok [OF fb]
  note br = build_reorders_Ok [OF r im(1)]
  have e: "entry_set fb bid = fallback_union (concat (map snd shards)) bid" for bid
    using cs by (simp add: entry_set_def)
  show "distinct (map batch_id bs)" by (rule im(1))
  show "b \<in> set bs \<Longrightarrow> reorders (batch_id b) =
       Some (canonical_reorder b (fallback_union (concat (map snd shards)) (batch_id b)))"
    "b \<in> set bs \<Longrightarrow> fallback_union (concat (map snd shards)) (batch_id b) \<subseteq> {0..<length (txs b)}"
    using br e by auto
  show "x \<in> set shards \<Longrightarrow> distinct (map reorder_batch_id (snd x)) \<and>
       reorder_batch_id ` set (snd x) = batch_id ` set bs"
    using cs im(4) by simp
  show "\<exists>b \<in> set bs. validate_reorder_record b r = Ok ()" if "x \<in> set shards" "r \<in> set (snd x)"
  proof -
    have "\<forall>r \<in> set (snd x). \<exists>b. m (reorder_batch_id r) = Some b \<and> validate_reorder_record b r = Ok ()"
      using cs that(1) by blast
    with that(2) im(3) show ?thesis by blast
  qed
  have "bid \<in> dom reorders \<longleftrightarrow> bid \<in> batch_id ` set bs" for bid
    using br by (cases "bid \<in> batch_id ` set bs") auto
  then show "dom reorders = batch_id ` set bs" by blast
qed

section \<open>Merged states\<close>

definition shard_part :: "shard_layout \<Rightarrow> fs_state \<Rightarrow> shard_id \<Rightarrow> fs_state" where
  "shard_part layout s shard = s |` {k. shard_for_key layout k = shard}"

lemma merge_keys_Ok:
  "fold_res (\<lambda>k merged.
         if shard_for_key layout k \<noteq> shard then Err (Checker ''key found on another shard'')
         else if merged k \<noteq> None then Err (Checker ''key appears in more than one shard dump'')
         else Ok (merged(k := state k))) ks m = Ok m' \<longleftrightarrow>
   (\<forall>k \<in> set ks. shard_for_key layout k = shard \<and> m k = None) \<and>
   m' = (\<lambda>k. if k \<in> set ks then state k else m k)"
  if "distinct ks"
  using that
proof (induction ks arbitrary: m)
  case (Cons k ks)
  have d: "k \<notin> set ks" "distinct ks" using Cons.prems by auto
  have "m' = (\<lambda>x. if x \<in> set ks then state x else (m(k := state k)) x) \<longleftrightarrow>
      m' = (\<lambda>x. if x \<in> set (k # ks) then state x else m x)"
    using d by (auto simp: fun_eq_iff)
  moreover have "(m(k := state k)) x = m x" if "x \<in> set ks" for x using d that by auto
  ultimately show ?case
    using Cons.IH [OF d(2), of "m(k := state k)"] by (simp del: fun_upd_apply)
qed auto

lemma merge_shard_Ok:
  assumes "finite (dom (snd x))"
  shows "merge_shard layout x m = Ok m' \<longleftrightarrow>
     (\<forall>k \<in> dom (snd x). shard_for_key layout k = fst x \<and> m k = None) \<and> m' = m ++ snd x"
proof -
  have "(\<lambda>k. if k \<in> dom (snd x) then snd x k else m k) = m ++ snd x"
    by (auto simp: fun_eq_iff map_add_def split: option.splits)
  then show ?thesis
    using assms by (simp add: merge_shard_def case_prod_beta merge_keys_Ok)
qed

definition merged_dumps :: "(shard_id \<times> fs_state) list \<Rightarrow> fs_state \<Rightarrow> fs_state" where
  "merged_dumps xs m = fold (\<lambda>x m. m ++ snd x) xs m"

definition disjoint_dumps :: "(shard_id \<times> fs_state) list \<Rightarrow> bool" where
  "disjoint_dumps xs = sorted_wrt (\<lambda>x y. dom (snd x) \<inter> dom (snd y) = {}) xs"

lemma merge_fold_Ok:
  assumes "\<And>x. x \<in> set xs \<Longrightarrow> finite (dom (snd x))"
  shows "fold_res (merge_shard layout) xs m = Ok m' \<longleftrightarrow>
     (\<forall>x \<in> set xs. \<forall>k \<in> dom (snd x). shard_for_key layout k = fst x \<and> m k = None) \<and>
     disjoint_dumps xs \<and> m' = merged_dumps xs m"
  using assms
proof (induction xs arbitrary: m)
  case (Cons x xs)
  have "fold_res (merge_shard layout) (x # xs) m = Ok m' \<longleftrightarrow>
      (\<forall>k \<in> dom (snd x). shard_for_key layout k = fst x \<and> m k = None) \<and>
      fold_res (merge_shard layout) xs (m ++ snd x) = Ok m'"
    using Cons.prems [of x] by (simp add: rbind_eq_Inr merge_shard_Ok)
  also have "fold_res (merge_shard layout) xs (m ++ snd x) = Ok m' \<longleftrightarrow>
      (\<forall>y \<in> set xs. \<forall>k \<in> dom (snd y). shard_for_key layout k = fst y \<and> m k = None \<and> k \<notin> dom (snd x)) \<and>
      disjoint_dumps xs \<and> m' = merged_dumps (x # xs) m"
    using Cons.IH [of "m ++ snd x"] Cons.prems
    by (simp add: merged_dumps_def map_add_None domIff conj_ac del: domIff)
      (auto simp: domIff)
  finally show ?case
    by (simp only: disjoint_dumps_def sorted_wrt.simps list.set ball_simps) blast
qed (auto simp: merged_dumps_def disjoint_dumps_def)

lemma merged_dumps_lookup:
  assumes "disjoint_dumps xs" "x \<in> set xs" "k \<in> dom (snd x)"
  shows "merged_dumps xs m k = snd x k"
  using assms
proof (induction xs arbitrary: m)
  case (Cons y ys)
  have off: "merged_dumps ys m' k = m' k" if "\<forall>z \<in> set ys. k \<notin> dom (snd z)" for m'
    using that by (induction ys arbitrary: m')
      (auto simp: merged_dumps_def map_add_dom_app_simps)
  show ?case
  proof (cases "\<exists>z \<in> set ys. k \<in> dom (snd z)")
    case True
    then have "x \<in> set ys" using Cons.prems by (auto simp: disjoint_dumps_def)
    then show ?thesis using Cons by (simp add: disjoint_dumps_def merged_dumps_def)
  next
    case False
    then have "x = y" using Cons.prems by auto
    then show ?thesis using off [of "m ++ snd y"] False Cons.prems
      by (simp add: merged_dumps_def map_add_dom_app_simps)
  qed
qed simp

lemma merged_dumps_None:
  "(\<And>x. x \<in> set xs \<Longrightarrow> snd x k = None) \<Longrightarrow> merged_dumps xs m k = m k"
  by (induction xs arbitrary: m) (simp_all add: merged_dumps_def map_add_def)

lemma merge_shard_states_Ok_iff:
  assumes "\<And>x. x \<in> set xs \<Longrightarrow> finite (dom (snd x))"
  shows "merge_shard_states layout xs = Ok m \<longleftrightarrow>
     (\<forall>x \<in> set xs. \<forall>k \<in> dom (snd x). shard_for_key layout k = fst x) \<and>
     disjoint_dumps xs \<and> m = merged_dumps xs Map.empty"
  using assms by (simp add: merge_shard_states_def merge_fold_Ok)

text \<open>Dumps of distinct shards: the merge is accepted exactly for the partition by owner.\<close>

lemma merge_shard_states_parts:
  assumes "\<And>x. x \<in> set xs \<Longrightarrow> finite (dom (snd x))" "distinct (map fst xs)"
  shows "merge_shard_states layout xs = Ok m \<longleftrightarrow>
     (\<forall>x \<in> set xs. snd x = shard_part layout m (fst x)) \<and>
     (\<forall>k \<in> dom m. shard_for_key layout k \<in> fst ` set xs)"
    (is "?merge \<longleftrightarrow> ?parts \<and> ?cover")
proof
  assume ?merge
  then have own: "\<And>x k. x \<in> set xs \<Longrightarrow> k \<in> dom (snd x) \<Longrightarrow> shard_for_key layout k = fst x"
    and dis: "disjoint_dumps xs" and m: "m = merged_dumps xs Map.empty"
    using assms(1) by (auto simp: merge_shard_states_Ok_iff)
  have none: "k \<notin> dom m" if "\<forall>x \<in> set xs. k \<notin> dom (snd x)" for k
    using that merged_dumps_None [of xs k] m by (simp add: domIff)
  have "snd x = shard_part layout m (fst x)" if x: "x \<in> set xs" for x
  proof
    fix k
    have "snd y k = None" if "snd x k = None" "shard_for_key layout k = fst x" "y \<in> set xs" for y
      using that own [of y k] x assms(2) by (metis domIff eq_key_imp_eq_value prod.collapse)
    then show "snd x k = shard_part layout m (fst x) k"
      using merged_dumps_lookup [OF dis x, of k] own [OF x, of k] m
        merged_dumps_None [of xs k Map.empty]
      by (cases "snd x k") (auto simp: shard_part_def restrict_map_def domI)
  qed
  moreover have ?cover using none own by (metis image_eqI)
  ultimately show "?parts \<and> ?cover" by blast
next
  assume p: "?parts \<and> ?cover"
  have own: "\<forall>x \<in> set xs. \<forall>k \<in> dom (snd x). shard_for_key layout k = fst x"
    using p by (auto simp: shard_part_def restrict_map_def split: if_splits)
  have "sorted_wrt (\<lambda>x y. fst x \<noteq> fst y) xs"
    using assms(2) by (induction xs) auto
  then have dis: "disjoint_dumps xs"
    unfolding disjoint_dumps_def
  proof (rule sorted_wrt_mono_rel [rotated])
    show "dom (snd x) \<inter> dom (snd y) = {}" if "x \<in> set xs" "y \<in> set xs" "fst x \<noteq> fst y" for x y
      using own that by (metis disjoint_iff)
  qed
  have "m k = merged_dumps xs Map.empty k" for k
  proof (cases "k \<in> dom m")
    case True
    then obtain x where x: "x \<in> set xs" "fst x = shard_for_key layout k"
      using p by (metis imageE)
    then have "snd x k = m k" using p by (auto simp: shard_part_def)
    then show ?thesis using merged_dumps_lookup [OF dis x(1), of k] True by (simp add: domIff)
  next
    case False
    then have "snd x k = None" if "x \<in> set xs" for x
      using p that by (auto simp: shard_part_def restrict_map_def domIff)
    then show ?thesis using merged_dumps_None [of xs k Map.empty] False by (simp add: domIff)
  qed
  then show ?merge using assms(1) own dis by (auto simp: merge_shard_states_Ok_iff)
qed

section \<open>Results of the active participants\<close>

definition results_entry :: "(tx_id \<rightharpoonup> (shard_id \<rightharpoonup> tx_result)) \<Rightarrow> tx_id \<Rightarrow> (shard_id \<rightharpoonup> tx_result)" where
  "results_entry m t = (case m t of None \<Rightarrow> Map.empty | Some f \<Rightarrow> f)"

lemma index_results_gen:
  assumes "fold_res (\<lambda>r by_tx.
     let entry = (case by_tx (rec_tx_id r) of None \<Rightarrow> Map.empty | Some m \<Rightarrow> m)
     in if entry (rec_shard_id r) \<noteq> None then Err (Checker ''duplicate result for tx'')
        else Ok (by_tx(rec_tx_id r \<mapsto> entry(rec_shard_id r \<mapsto> rec_result r)))) rs m = Ok m'"
  shows "distinct (map (\<lambda>r. (rec_tx_id r, rec_shard_id r)) rs) \<and>
    (\<forall>r \<in> set rs. results_entry m (rec_tx_id r) (rec_shard_id r) = None \<and>
       results_entry m' (rec_tx_id r) (rec_shard_id r) = Some (rec_result r)) \<and>
    (\<forall>t s. (t, s) \<notin> (\<lambda>r. (rec_tx_id r, rec_shard_id r)) ` set rs \<longrightarrow>
       results_entry m' t s = results_entry m t s)"
  using assms
proof (induction rs arbitrary: m)
  case (Cons r rs)
  let ?t = "rec_tx_id r" and ?s = "rec_shard_id r"
  let ?m = "m(?t \<mapsto> (results_entry m ?t)(?s \<mapsto> rec_result r))"
  have new: "results_entry m ?t ?s = None"
    using Cons.prems by (auto simp: Let_def results_entry_def split: if_splits)
  have IH: "distinct (map (\<lambda>r. (rec_tx_id r, rec_shard_id r)) rs)"
    "\<forall>r \<in> set rs. results_entry ?m (rec_tx_id r) (rec_shard_id r) = None \<and>
       results_entry m' (rec_tx_id r) (rec_shard_id r) = Some (rec_result r)"
    "\<forall>t s. (t, s) \<notin> (\<lambda>r. (rec_tx_id r, rec_shard_id r)) ` set rs \<longrightarrow>
       results_entry m' t s = results_entry ?m t s"
    using Cons.IH [of ?m] Cons.prems new
    by (auto simp: Let_def results_entry_def simp del: fun_upd_apply split: if_splits)
  have upd: "results_entry ?m t s = (if t = ?t \<and> s = ?s then Some (rec_result r) else results_entry m t s)"
    for t s by (simp add: results_entry_def)
  have fresh: "(?t, ?s) \<notin> (\<lambda>r. (rec_tx_id r, rec_shard_id r)) ` set rs"
    using IH(2) unfolding upd by (auto split: if_splits)
  then have "results_entry m' ?t ?s = Some (rec_result r)"
    using IH(3) unfolding upd by auto
  with IH fresh new show ?case unfolding upd by (auto split: if_splits)
qed simp

text \<open>The shards that reported a result for a transaction, and what they reported.\<close>

definition reporting_shards :: "tx_result_record list \<Rightarrow> tx_id \<Rightarrow> shard_id set" where
  "reporting_shards rs t = rec_shard_id ` {r \<in> set rs. rec_tx_id r = t}"

lemma index_results_Ok:
  assumes "index_results rs = Ok m"
  shows "distinct (map (\<lambda>r. (rec_tx_id r, rec_shard_id r)) rs)"
    "r \<in> set rs \<Longrightarrow> results_entry m (rec_tx_id r) (rec_shard_id r) = Some (rec_result r)"
    "dom (results_entry m t) = reporting_shards rs t"
proof -
  note g = index_results_gen [OF assms [unfolded index_results_def]]
  show "distinct (map (\<lambda>r. (rec_tx_id r, rec_shard_id r)) rs)"
    "r \<in> set rs \<Longrightarrow> results_entry m (rec_tx_id r) (rec_shard_id r) = Some (rec_result r)"
    using g by blast+
  have "s \<in> dom (results_entry m t) \<longleftrightarrow> s \<in> reporting_shards rs t" for s
  proof (cases "(t, s) \<in> (\<lambda>r. (rec_tx_id r, rec_shard_id r)) ` set rs")
    case True
    then show ?thesis using g by (auto simp: reporting_shards_def)
  next
    case False
    then have "results_entry m t s = None" using g by (simp add: results_entry_def)
    then show ?thesis using False by (force simp: reporting_shards_def)
  qed
  then show "dom (results_entry m t) = reporting_shards rs t" by blast
qed

lemma check_tx_results_Ok:
  assumes "check_tx_results layout m tx = Ok ()"
  shows "dom (results_entry m (tx_id tx)) = p_active (participants_of layout tx)"
    "\<exists>v. \<forall>s \<in> dom (results_entry m (tx_id tx)). results_entry m (tx_id tx) s = Some v"
proof -
  obtain f where f: "m (tx_id tx) = Some f" "dom f = p_active (participants_of layout tx)"
    using assms by (auto simp: check_tx_results_def split: option.splits if_splits)
  obtain v vs where v: "map (\<lambda>s. the (f s)) (sorted_list_of_set (dom f)) = v # vs" "\<forall>w \<in> set vs. w = v"
    using assms f by (auto simp: check_tx_results_def split: list.splits if_splits)
  have "finite (dom f)" using v(1) by (auto intro: ccontr)
  then have "the (f s) = v" if "s \<in> dom f" for s
    using v that by (metis (no_types, lifting) image_eqI list.set_map set_ConsD set_sorted_list_of_set)
  then have "f s = Some v" if "s \<in> dom f" for s using that by fastforce
  then show "dom (results_entry m (tx_id tx)) = p_active (participants_of layout tx)"
    "\<exists>v. \<forall>s \<in> dom (results_entry m (tx_id tx)). results_entry m (tx_id tx) s = Some v"
    using f by (auto simp: results_entry_def)
qed

lemma assert_tx_results_consistent_Ok:
  assumes "assert_tx_results_consistent layout bs rs = Ok ()" "b \<in> set bs" "tx \<in> set (txs b)"
  shows "reporting_shards rs (tx_id tx) = p_active (participants_of layout tx)"
    "\<exists>v. \<forall>r \<in> set rs. rec_tx_id r = tx_id tx \<longrightarrow> rec_result r = v"
proof -
  obtain m where m: "index_results rs = Ok m" and
    all: "fold_res (\<lambda>b _. fold_res (\<lambda>tx _. check_tx_results layout m tx) (txs b) ()) bs () = Ok ()"
    using assms(1) by (auto simp: assert_tx_results_consistent_def rbind_eq_Inr)
  have each: "fold_res (\<lambda>x _. f x) xs () = Ok () \<Longrightarrow> x \<in> set xs \<Longrightarrow> f x = Ok ()"
    for f :: "'x \<Rightarrow> unit result" and xs x
    by (induction xs) (auto simp: rbind_eq_Inr)
  have "fold_res (\<lambda>tx _. check_tx_results layout m tx) (txs b) () = Ok ()"
    by (rule each [OF all assms(2)])
  then have "check_tx_results layout m tx = Ok ()" by (rule each [OF _ assms(3)])
  note c = check_tx_results_Ok [OF this] and i = index_results_Ok [OF m]
  show "reporting_shards rs (tx_id tx) = p_active (participants_of layout tx)"
    using c(1) i(3) by simp
  from c(2) obtain v where v: "\<forall>s \<in> reporting_shards rs (tx_id tx). results_entry m (tx_id tx) s = Some v"
    using i(3) by auto
  have "rec_result r = v" if "r \<in> set rs" "rec_tx_id r = tx_id tx" for r
  proof -
    have "rec_shard_id r \<in> reporting_shards rs (tx_id tx)" using that by (auto simp: reporting_shards_def)
    then show ?thesis using v i(2) [OF that(1)] that(2) by simp
  qed
  then show "\<exists>v. \<forall>r \<in> set rs. rec_tx_id r = tx_id tx \<longrightarrow> rec_result r = v" by blast
qed

section \<open>Properties\<close>

text \<open>C19: The reference execution keeps the file-system tree. From the empty state, any batches of
  valid transactions, none of which renames a directory to a path below itself, lead to a state
  in which every path but the root has a directory as its parent and every \<open>child_count\<close> is the
  number of children, as long as the counts fit their 64 bits.\<close>

theorem reference_execution_keeps_tree:
  assumes "\<And>t. t \<in> set (concat (map txs bs)) \<Longrightarrow> valid_tx t \<and> \<not> moves_into_itself (op t)"
    and "length (concat (map txs bs)) \<le> 2 ^ 64"
  shows "tree_inv (reference_execute_batches bs)"
  unfolding reference_execute_batches_concat using assms
  by (intro tree_inv_run_txs [OF tree_inv_empty]) simp_all

theorem reference_execution_keeps_tree_witness:
  "tree_inv (reference_execute_batches
     [\<lparr>batch_id = 0, txs = [tx_of 0 (Mkdir root), tx_of 1 (Create (Key ''/a''))]\<rparr>])"
proof (rule reference_execution_keeps_tree)
  have "valid_key (Key ''/a'')" by code_simp
  then show "valid_tx t \<and> \<not> moves_into_itself (op t)"
    if "t \<in> set (concat (map txs
      [\<lparr>batch_id = 0, txs = [tx_of 0 (Mkdir root), tx_of 1 (Create (Key ''/a''))]\<rparr>]))" for t
    using that by (auto simp: moves_into_itself_def)
qed simp

text \<open>C38: The exception of the previous property is real. In every well-formed state a rename of an
  empty directory to a free path directly below itself is answered with \<open>Ok\<close> and leaves a state
  that is no tree any more: \<open>exec_rename\<close> lacks the check that the source is not an ancestor of the
  destination.\<close>

theorem rename_below_itself_breaks_tree:
  assumes "tree_inv s" "valid_tx tx" "op tx = Rename a b" "a \<noteq> root" "b \<noteq> root" "parent b = Ok a"
    and "s a = Some (inode_directory 0)"
  shows "result (execute_deterministic tx (reads_of s (read_set tx))) = TxOk \<and>
    \<not> tree_inv (apply_reference_tx tx s)"
proof
  have v: "valid_key a" "valid_key b" using assms(2,3) by (auto simp: valid_tx_iff)
  note m = self_move [OF assms(1) v(1) assms(4) v(2) assms(5) parent_of_eq [OF assms(6)] assms(7)]
  show "result (execute_deterministic tx (reads_of s (read_set tx))) = TxOk"
    using m(1) assms(2,3)
    by (simp add: execute_deterministic_reads_of inode_directory_def op_result_def)
  show "\<not> tree_inv (apply_reference_tx tx s)"
    using m(2) assms(2,3) by (simp add: apply_reference_tx_eq inode_directory_def)
qed

theorem rename_below_itself_breaks_tree_witness:
  "\<not> tree_inv (apply_reference_tx (tx_of 2 (Rename (Key ''/a'') (Key ''/a/b'')))
     (run_txs [tx_of 0 (Mkdir root), tx_of 1 (Mkdir (Key ''/a''))] Map.empty))"
proof (rule rename_below_itself_breaks_tree [THEN conjunct2])
  let ?s = "run_txs [tx_of 0 (Mkdir root), tx_of 1 (Mkdir (Key ''/a''))] Map.empty"
  have v: "valid_key (Key ''/a'')" "valid_key (Key ''/a/b'')" by code_simp+
  show "tree_inv ?s"
    using v(1) by (intro tree_inv_run_txs [OF tree_inv_empty]) (auto simp: moves_into_itself_def)
  have "parent_of (Key ''/a'') = root" "Key ''/a'' \<noteq> root" by code_simp+
  then show "?s (Key ''/a'') = Some (inode_directory 0)"
    using v(1) by (simp add: apply_reference_tx_eq op_apply_def op_insert_def inode_directory_def
        incr_children_def)
  show "parent (Key ''/a/b'') = Ok (Key ''/a'')" "Key ''/a'' \<noteq> root" "Key ''/a/b'' \<noteq> root"
    by code_simp+
  show "valid_tx (tx_of 2 (Rename (Key ''/a'') (Key ''/a/b'')))" using v by simp
  show "op (tx_of 2 (Rename (Key ''/a'') (Key ''/a/b''))) = Rename (Key ''/a'') (Key ''/a/b'')"
    by simp
qed

text \<open>C37: The reordered reference execution runs each batch in a permutation. It is accepted exactly
  when every batch has a record that names its id and lists every index once, and the state is
  then the serial execution of the batches with their transactions permuted as recorded.\<close>

theorem reordered_reference_is_permutation:
  "reference_execute_scc_reordered_batches bs reorders = Ok t \<longleftrightarrow>
     (\<exists>bs'. t = reference_execute_batches bs' \<and>
       list_all2 (\<lambda>b b'. \<exists>r. reorders (batch_id b) = Some r \<and> reorder_batch_id r = batch_id b \<and>
         mset (reorder_indices r) = mset [0..<length (txs b)] \<and>
         b' = b\<lparr>txs := map (\<lambda>i. txs b ! i) (reorder_indices r)\<rparr>) bs bs')"
proof -
  let ?P = "\<lambda>b r. reorders (batch_id b) = Some r \<and> reorder_batch_id r = batch_id b \<and>
     mset (reorder_indices r) = mset [0..<length (txs b)]"
  let ?b' = "\<lambda>b. b\<lparr>txs := permuted_txs b (the (reorders (batch_id b)))\<rparr>"
  have P: "?P b r \<longleftrightarrow> reorders (batch_id b) = Some r \<and> validate_reorder_record b r = Ok ()" for b r
    by (simp add: validate_reorder_record_Ok_iff mset_upt_iff)
  have L: "list_all2 (\<lambda>b b'. \<exists>r. ?P b r \<and> b' = b\<lparr>txs := permuted_txs b r\<rparr>) bs bs' \<longleftrightarrow>
      (\<forall>b \<in> set bs. \<exists>r. ?P b r) \<and> bs' = map ?b' bs" for bs'
    by (rule list_all2_functional) auto
  have "(\<exists>bs'. t = reference_execute_batches bs' \<and>
       list_all2 (\<lambda>b b'. \<exists>r. ?P b r \<and> b' = b\<lparr>txs := permuted_txs b r\<rparr>) bs bs') \<longleftrightarrow>
      (\<forall>b \<in> set bs. \<exists>r. ?P b r) \<and> t = reference_execute_batches (map ?b' bs)"
    unfolding L by blast
  also have "reference_execute_batches (map ?b' bs) =
      run_txs (concat (map (\<lambda>b. permuted_txs b (the (reorders (batch_id b)))) bs)) Map.empty"
    by (simp add: reference_execute_batches_concat comp_def)
  also have "(\<forall>b \<in> set bs. \<exists>r. ?P b r) \<and>
      t = run_txs (concat (map (\<lambda>b. permuted_txs b (the (reorders (batch_id b)))) bs)) Map.empty \<longleftrightarrow>
      reference_execute_scc_reordered_batches bs reorders = Ok t"
    unfolding P reference_reordered_Ok_iff ..
  finally show ?thesis unfolding permuted_txs_def conj_assoc by (rule sym)
qed

text \<open>C35: What an accepted set of shard records establishes: the batch ids are distinct; every
  shard reported exactly one complete record for every batch; the combined record of a batch is
  valid and runs the indices that no shard failed in increasing order, then the union of the
  shards' fallback indices in increasing order; so the reordered reference accepts it.\<close>

theorem accepted_reorders_are_canonical:
  assumes "assert_scc_reorders_consistent bs shards = Ok reorders"
  shows "distinct (map batch_id bs) \<and>
    (\<forall>(shard, records) \<in> set shards. distinct (map reorder_batch_id records) \<and>
       reorder_batch_id ` set records = batch_id ` set bs) \<and>
    (\<forall>b \<in> set bs. \<exists>r. reorders (batch_id b) = Some r \<and> validate_reorder_record b r = Ok () \<and>
       fallback_indices r = sorted_list_of_set (fallback_union (concat (map snd shards)) (batch_id b)) \<and>
       speculative_success_indices r = sorted_list_of_set
         ({0..<length (txs b)} - fallback_union (concat (map snd shards)) (batch_id b))) \<and>
    (\<exists>t. reference_execute_scc_reordered_batches bs reorders = Ok t)"
proof (intro conjI ballI)
  note a = assert_scc_reorders_consistent_Ok [OF assms]
  show "distinct (map batch_id bs)" by (rule a(1))
  show "case x of (shard, records) \<Rightarrow> distinct (map reorder_batch_id records) \<and>
      reorder_batch_id ` set records = batch_id ` set bs" if "x \<in> set shards" for x
    using a(4) [OF that] by (simp add: case_prod_beta)
  show each: "b \<in> set bs \<Longrightarrow> \<exists>r. reorders (batch_id b) = Some r \<and> validate_reorder_record b r = Ok () \<and>
           fallback_indices r = sorted_list_of_set (fallback_union (concat (map snd shards)) (batch_id b)) \<and>
           speculative_success_indices r = sorted_list_of_set
             ({0..<length (txs b)} - fallback_union (concat (map snd shards)) (batch_id b))" for b
    using a(2) [of b] canonical_reorder_valid [OF a(3) [of b]]
    by (simp add: canonical_reorder_def)
  then show "\<exists>t. reference_execute_scc_reordered_batches bs reorders = Ok t"
    by (force simp: reference_reordered_Ok_iff)
qed

definition sample_batch :: batch where
  "sample_batch = \<lparr>batch_id = 7, txs = [tx_of 0 (Stat root), tx_of 1 (Stat root)]\<rparr>"

definition sample_record :: "nat list \<Rightarrow> nat list \<Rightarrow> reorder_record" where
  "sample_record s f = \<lparr>reorder_batch_id = 7, speculative_success_indices = s, fallback_indices = f\<rparr>"

theorem accepted_reorders_are_canonical_witness:
  "\<exists>reorders. assert_scc_reorders_consistent [sample_batch]
       [(0, [sample_record [0] [1]]), (1, [sample_record [0, 1] []])] = Ok reorders \<and>
     (\<exists>t. reference_execute_scc_reordered_batches [sample_batch] reorders = Ok t)"
proof -
  have e: "{0..<Suc (Suc 0)} = {0, Suc 0}" by auto
  obtain reorders where "assert_scc_reorders_consistent [sample_batch]
       [(0, [sample_record [0] [1]]), (1, [sample_record [0, 1] []])] = Ok reorders"
    by (simp add: assert_scc_reorders_consistent_def index_batches_def check_shard_records_def
        check_record_def sample_batch_def sample_record_def validate_reorder_record_def Let_def
        build_reference_reorder_def e insert_commute)
  with accepted_reorders_are_canonical [OF this] show ?thesis by blast
qed

text \<open>C36: The merge of dumps of distinct shards is accepted with result \<open>m\<close> exactly when every dump is
  the part of \<open>m\<close> that its shard owns and the shards cover all keys of \<open>m\<close>; splitting a state
  by owner and merging the parts gives the state back.\<close>

theorem merge_inverts_ownership_split:
  assumes "\<And>shard state. (shard, state) \<in> set dumps \<Longrightarrow> finite (dom state)"
    and "distinct (map fst dumps)"
  shows "merge_shard_states layout dumps = Ok m \<longleftrightarrow>
     (\<forall>(shard, state) \<in> set dumps. state = m |` {k. shard_for_key layout k = shard}) \<and>
     (\<forall>k \<in> dom m. shard_for_key layout k \<in> fst ` set dumps)"
proof -
  have "finite (dom (snd x))" if "x \<in> set dumps" for x
    using assms(1) [of "fst x" "snd x"] that by simp
  then show ?thesis
    using merge_shard_states_parts [of dumps layout m] assms(2)
    by (simp add: shard_part_def case_prod_beta)
qed

theorem merge_inverts_ownership_split_witness:
  "merge_shard_states \<lparr>shard_count = 1\<rparr> [(0, [root \<mapsto> inode_directory 0])] =
     Ok [root \<mapsto> inode_directory 0]"
  by (subst merge_inverts_ownership_split)
    (auto simp: shard_for_key_def restrict_map_def intro!: ext)

text \<open>If the result check accepts, then for every transaction of every batch the shards that
  reported a result are exactly its active participants, none reported twice, and all of them
  reported the same result.\<close>

theorem accepted_results_agree:
  assumes "assert_tx_results_consistent layout bs records = Ok ()"
  shows "distinct (map (\<lambda>r. (rec_tx_id r, rec_shard_id r)) records) \<and>
    (\<forall>b \<in> set bs. \<forall>tx \<in> set (txs b).
       rec_shard_id ` {r \<in> set records. rec_tx_id r = tx_id tx} = p_active (participants_of layout tx) \<and>
       (\<exists>v. \<forall>r \<in> set records. rec_tx_id r = tx_id tx \<longrightarrow> rec_result r = v))"
proof (intro conjI ballI)
  show "distinct (map (\<lambda>r. (rec_tx_id r, rec_shard_id r)) records)"
    using assms index_results_Ok(1) by (auto simp: assert_tx_results_consistent_def rbind_eq_Inr)
qed (use assert_tx_results_consistent_Ok [OF assms] in \<open>simp_all add: reporting_shards_def\<close>)

theorem accepted_results_agree_witness:
  "\<exists>v. \<forall>r \<in> set [\<lparr>rec_tx_id = 0, rec_shard_id = 0, rec_result = NotFound\<rparr>].
     rec_tx_id r = 0 \<longrightarrow> rec_result r = v"
proof -
  let ?b = "\<lparr>batch_id = 7, txs = [tx_of 0 (Stat root)]\<rparr>"
  have "p_active (participants_of \<lparr>shard_count = 1\<rparr> (tx_of 0 (Stat root))) = {0}"
    by (simp add: participants_of_def participants_active_read_only tx_of_def shard_for_key_def)
  then have "assert_tx_results_consistent \<lparr>shard_count = 1\<rparr> [?b]
      [\<lparr>rec_tx_id = 0, rec_shard_id = 0, rec_result = NotFound\<rparr>] = Ok ()"
    by (simp add: assert_tx_results_consistent_def index_results_def check_tx_results_def)
  from accepted_results_agree [OF this] show ?thesis by simp
qed

end
