(* ===== verification/Delta.thy ===== *)
theory Delta
  imports Checker
begin

text \<open>
  Transaction deltas, the second part of \<open>src/scc.rs\<close>: the conversion of an output to a delta over
  the write set, in which a change of a directory's \<open>child_count\<close> becomes a signed addition, its
  application to a state, and its projection to a key set. The lemmas show that applying the delta
  of an output to the state it was computed from is applying its writes, and that on another state
  the delta adds where the writes would overwrite.
\<close>

datatype inode_integer_field = ChildCount

datatype delta_op =
    DPut key inode
  | DDelete key
  | AddIntegerField key inode_integer_field i64

fun delta_key :: "delta_op \<Rightarrow> key" where
  "delta_key (DPut k _) = k"
| "delta_key (DDelete k) = k"
| "delta_key (AddIntegerField k _ _) = k"

record tx_delta =
  delta_ops :: "delta_op list"

section \<open>Signed additions\<close>

text \<open>An \<open>i64\<close> is a 64-bit word read with \<open>sint\<close>; the cast to \<open>u64\<close> and \<open>unsigned_abs\<close> are the
  identity and the negation of the word.\<close>

definition apply_signed_delta :: "u64 \<Rightarrow> i64 \<Rightarrow> u64 option" where
  "apply_signed_delta v d =
     (if 0 \<le> sint d then checked_add v d else checked_sub v (- d))"

text \<open>\<open>i64::try_from\<close> on an \<open>i128\<close>.\<close>

definition i64_try_from :: "int \<Rightarrow> i64 option" where
  "i64_try_from d = (if - (2 ^ 63) \<le> d \<and> d < 2 ^ 63 then Some (word_of_int d) else None)"

section \<open>Building a delta\<close>

definition read_value_to_option :: "read_value option \<Rightarrow> inode option result" where
  "read_value_to_option v =
     (case v of
        Some (Present i) \<Rightarrow> Ok (Some i)
      | Some Missing \<Rightarrow> Ok None
      | None \<Rightarrow> Err (InvalidBatch ''missing read value for delta conversion''))"

definition append_delta_op ::
    "delta_op list \<Rightarrow> key \<Rightarrow> inode option \<Rightarrow> inode option \<Rightarrow> delta_op list result" where
  "append_delta_op ops k old new =
     (case (old, new) of
        (None, None) \<Rightarrow> Ok ops
      | (None, Some v) \<Rightarrow> Ok (ops @ [DPut k v])
      | (Some _, None) \<Rightarrow> Ok (ops @ [DDelete k])
      | (Some o', Some n) \<Rightarrow>
          if o' = n then Ok ops
          else if kind o' = Directory \<and> kind n = Directory then
            (let normalized_new = n\<lparr>child_count := child_count o'\<rparr>
             in if normalized_new = o' then
                  (let d = uint (child_count n) - uint (child_count o')
                   in if d \<noteq> 0 then
                        (case i64_try_from d of
                           None \<Rightarrow> Err (InvalidBatch ''child_count delta out of range'')
                         | Some d' \<Rightarrow> Ok (ops @ [AddIntegerField k ChildCount d']))
                      else Ok ops)
                else Ok (ops @ [DPut k n]))
          else Ok (ops @ [DPut k n]))"

fun written_value :: "write_op \<Rightarrow> inode option" where
  "written_value (Put _ v) = Some v"
| "written_value (Delete _) = None"

definition collect_old_values :: "ordered_tx \<Rightarrow> reads \<Rightarrow> (key \<rightharpoonup> inode option) result" where
  "collect_old_values tx reads =
     fold_res (\<lambda>k new_values. rbind (read_value_to_option (reads k)) (\<lambda>v. Ok (new_values(k \<mapsto> v))))
       (sorted_list_of_set (write_set tx)) Map.empty"

definition collect_new_values ::
    "ordered_tx \<Rightarrow> write_op list \<Rightarrow> (key \<rightharpoonup> inode option) \<Rightarrow> (key \<rightharpoonup> inode option) result" where
  "collect_new_values tx ws new_values =
     fold_res (\<lambda>w new_values.
       if write_key w \<notin> write_set tx then Err (InvalidBatch ''output contains key outside write_set'')
       else Ok (new_values(write_key w \<mapsto> written_value w))) ws new_values"

fun flatten :: "'a option option \<Rightarrow> 'a option" where
  "flatten (Some v) = v"
| "flatten None = None"

definition append_key_delta ::
    "reads \<Rightarrow> key \<Rightarrow> (key \<rightharpoonup> inode option) \<times> delta_op list
      \<Rightarrow> ((key \<rightharpoonup> inode option) \<times> delta_op list) result" where
  "append_key_delta reads k st =
     (case st of (new_values, ops) \<Rightarrow>
        rbind (read_value_to_option (reads k)) (\<lambda>old.
        rbind (append_delta_op ops k old (flatten (new_values k))) (\<lambda>ops'.
        Ok (new_values(k := None), ops'))))"

definition output_to_delta :: "ordered_tx \<Rightarrow> reads \<Rightarrow> tx_output \<Rightarrow> tx_delta result" where
  "output_to_delta tx reads output =
     (if result output \<noteq> TxOk
      then Err (InvalidBatch ''cannot convert non-Ok result to delta'')
      else
        rbind (collect_old_values tx reads) (\<lambda>old_values.
        rbind (collect_new_values tx (writes output) old_values) (\<lambda>new_values.
        rbind (fold_res (append_key_delta reads) (sorted_list_of_set (write_set tx)) (new_values, []))
          (\<lambda>(_, ops).
        Ok \<lparr>delta_ops = ops\<rparr>))))"

section \<open>Applying a delta\<close>

fun apply_delta_op :: "delta_op \<Rightarrow> fs_state \<Rightarrow> fs_state result" where
  "apply_delta_op (DPut k v) s = Ok (s(k \<mapsto> v))"
| "apply_delta_op (DDelete k) s = Ok (s(k := None))"
| "apply_delta_op (AddIntegerField k ChildCount d) s =
     (case s k of
        None \<Rightarrow> Err (InvalidBatch ''cannot apply child_count delta to missing key'')
      | Some i \<Rightarrow>
          if kind i \<noteq> Directory
          then Err (InvalidBatch ''cannot apply child_count delta to non-directory'')
          else (case apply_signed_delta (child_count i) d of
                  None \<Rightarrow> Err (InvalidBatch ''child_count delta underflow'')
                | Some next \<Rightarrow> Ok (s(k \<mapsto> i\<lparr>child_count := next\<rparr>))))"

definition apply_delta_to_state :: "fs_state \<Rightarrow> tx_delta \<Rightarrow> fs_state result" where
  "apply_delta_to_state s d = fold_res apply_delta_op (delta_ops d) s"

definition filter_delta_to_keys :: "tx_delta \<Rightarrow> key set \<Rightarrow> tx_delta" where
  "filter_delta_to_keys d K = \<lparr>delta_ops = filter (\<lambda>o'. delta_key o' \<in> K) (delta_ops d)\<rparr>"

definition read_values_to_state :: "reads \<Rightarrow> fs_state" where
  "read_values_to_state reads = (\<lambda>k. case reads k of Some (Present i) \<Rightarrow> Some i | _ \<Rightarrow> None)"

definition state_to_read_values :: "key set \<Rightarrow> fs_state \<Rightarrow> reads" where
  "state_to_read_values K s =
     (\<lambda>k. if k \<in> K then Some (case s k of Some i \<Rightarrow> Present i | None \<Rightarrow> Missing) else None)"

lemma state_conversions [simp]:
  "read_values_to_state = state_of_reads" "state_to_read_values K s = reads_of s K"
  by (auto simp: read_values_to_state_def state_of_reads_def state_to_read_values_def
      reads_of_def read_value_of_def fun_eq_iff)

section \<open>Signed additions, specified\<close>

lemma uint_sint_mod: "uint d = sint d mod 2 ^ 64" for d :: i64
  using uint_sint [of d] by (simp add: take_bit_eq_mod)

lemma sint_range: "- (2 ^ 63) \<le> sint d" "sint d < 2 ^ 63" for d :: i64
  using sint_ge [of d] sint_lt [of d] by simp_all

lemma unat_sint_nonneg: "0 \<le> sint d \<Longrightarrow> int (unat d) = sint d" for d :: i64
  using uint_sint_mod [of d] sint_range [of d] by (simp add: mod_pos_pos_trivial)

lemma unat_sint_neg: "sint d < 0 \<Longrightarrow> int (unat (- d)) = - sint d" for d :: i64
proof -
  assume neg: "sint d < 0"
  have "uint (- d) = (- uint d) mod 2 ^ 64"
    using uint_word_ariths(4) [of d] by simp
  also have "\<dots> = (- sint d) mod 2 ^ 64"
    unfolding uint_sint_mod [of d] by (simp add: mod_minus_eq)
  also have "\<dots> = - sint d"
    using neg sint_range [of d] by (intro mod_pos_pos_trivial) auto
  finally show ?thesis by simp
qed

lemma unat_eq_add_iff:
  "unat w = unat v + unat d \<longleftrightarrow> unat v + unat d < 2 ^ 64 \<and> w = v + d" for v w d :: u64
proof
  assume w: "unat w = unat v + unat d"
  have b: "unat w < 2 ^ 64" using unsigned_less [of w, where 'a = nat] by simp
  then have "unat (v + d) = unat w" using w by (simp add: unat_word_ariths)
  then show "unat v + unat d < 2 ^ 64 \<and> w = v + d" using b w by (simp add: word_unat_eq_iff)
qed (auto simp: unat_word_ariths)

text \<open>The result is the exact sum, and there is none exactly when the sum does not fit.\<close>

lemma apply_signed_delta_Some_iff:
  "apply_signed_delta v d = Some w \<longleftrightarrow> uint w = uint v + sint d"
proof (cases "0 \<le> sint d")
  case True
  then have "apply_signed_delta v d = Some w \<longleftrightarrow> unat w = unat v + unat d"
    by (simp add: apply_signed_delta_def checked_add_Some_iff unat_eq_add_iff)
  also have "\<dots> \<longleftrightarrow> int (unat w) = int (unat v) + int (unat d)" by linarith
  also have "\<dots> \<longleftrightarrow> uint w = uint v + sint d"
    unfolding unat_sint_nonneg [OF True] by (simp only: uint_nat)
  finally show ?thesis .
next
  case False
  then have d: "int (unat (- d)) = - sint d" by (intro unat_sint_neg) simp
  have "apply_signed_delta v d = Some w \<longleftrightarrow> - d \<le> v \<and> w = v - (- d)"
    using False by (simp add: apply_signed_delta_def checked_sub_Some_iff)
  also have "\<dots> \<longleftrightarrow> unat v = unat w + unat (- d)"
  proof
    assume "- d \<le> v \<and> w = v - (- d)"
    then show "unat v = unat w + unat (- d)" by (simp add: unat_sub word_le_nat_alt del: diff_minus_eq_add)
  next
    assume v: "unat v = unat w + unat (- d)"
    then have "v = w + (- d)" using unat_eq_add_iff [of v w "- d"] by simp
    then show "- d \<le> v \<and> w = v - (- d)" using v by (simp add: word_le_nat_alt)
  qed
  also have "\<dots> \<longleftrightarrow> int (unat v) = int (unat w) + int (unat (- d))" by linarith
  also have "\<dots> \<longleftrightarrow> uint w = uint v + sint d" unfolding d uint_nat by linarith
  finally show ?thesis .
qed

lemma i64_try_from_Some: "i64_try_from d = Some e \<Longrightarrow> sint e = d"
  by (auto simp: i64_try_from_def sint_sbintrunc' signed_take_bit_int_eq_self_iff split: if_splits)

lemma i64_try_from_total: "- (2 ^ 63) \<le> d \<Longrightarrow> d < 2 ^ 63 \<Longrightarrow> \<exists>e. i64_try_from d = Some e"
  by (simp add: i64_try_from_def)

section \<open>Deltas key by key\<close>

fun apply_value :: "delta_op \<Rightarrow> inode option \<Rightarrow> inode option result" where
  "apply_value (DPut k v) cur = Ok (Some v)"
| "apply_value (DDelete k) cur = Ok None"
| "apply_value (AddIntegerField k ChildCount d) cur =
     (case cur of
        None \<Rightarrow> Err (InvalidBatch ''cannot apply child_count delta to missing key'')
      | Some i \<Rightarrow>
          if kind i \<noteq> Directory
          then Err (InvalidBatch ''cannot apply child_count delta to non-directory'')
          else (case apply_signed_delta (child_count i) d of
                  None \<Rightarrow> Err (InvalidBatch ''child_count delta underflow'')
                | Some next \<Rightarrow> Ok (Some (i\<lparr>child_count := next\<rparr>))))"

lemma apply_delta_op_value:
  "apply_delta_op d s = rbind (apply_value d (s (delta_key d))) (\<lambda>v. Ok (s(delta_key d := v)))"
  by (cases "(d, s)" rule: apply_delta_op.cases) (auto split: option.splits)

text \<open>Ops on different keys do not interact.\<close>

definition key_ops :: "key \<Rightarrow> delta_op list \<Rightarrow> delta_op list" where
  "key_ops k ds = filter (\<lambda>d. delta_key d = k) ds"

lemma key_ops_simps [simp]:
  "key_ops k [] = []" "key_ops k (d # ds) = (if delta_key d = k then d # key_ops k ds else key_ops k ds)"
  "key_ops k (ds @ es) = key_ops k ds @ key_ops k es"
  by (simp_all add: key_ops_def)

lemma apply_delta_ops_iff:
  "fold_res apply_delta_op ds s = Ok t \<longleftrightarrow> (\<forall>k. fold_res apply_value (key_ops k ds) (s k) = Ok (t k))"
proof (induction ds arbitrary: s)
  case Nil
  then show ?case by auto
next
  case (Cons d ds)
  let ?k = "delta_key d"
  have "fold_res apply_delta_op (d # ds) s = Ok t \<longleftrightarrow>
      (\<exists>v. apply_value d (s ?k) = Ok v \<and>
        (\<forall>k. fold_res apply_value (key_ops k ds) ((s(?k := v)) k) = Ok (t k)))"
    by (auto simp: apply_delta_op_value rbind_eq_Inr Cons.IH simp del: fun_upd_apply)
  also have "\<dots> \<longleftrightarrow> (\<forall>k. fold_res apply_value (key_ops k (d # ds)) (s k) = Ok (t k))"
    (is "?L \<longleftrightarrow> ?R")
  proof
    assume ?L
    then obtain v where v: "apply_value d (s ?k) = Ok v"
      and r: "\<And>k. fold_res apply_value (key_ops k ds) ((s(?k := v)) k) = Ok (t k)" by blast
    have "fold_res apply_value (key_ops k (d # ds)) (s k) = Ok (t k)" for k
      using v r [of k] by (cases "k = ?k") auto
    then show ?R by blast
  next
    assume R: ?R
    then obtain v where v: "apply_value d (s ?k) = Ok v" "fold_res apply_value (key_ops ?k ds) v = Ok (t ?k)"
      using R [rule_format, of ?k] by (auto simp: rbind_eq_Inr)
    have "fold_res apply_value (key_ops k ds) ((s(?k := v)) k) = Ok (t k)" for k
      using v(2) R [rule_format, of k] by (cases "k = ?k") auto
    with v(1) show ?L by blast
  qed
  finally show ?case .
qed

lemma apply_delta_to_state_iff:
  "apply_delta_to_state s d = Ok t \<longleftrightarrow>
     (\<forall>k. fold_res apply_value (key_ops k (delta_ops d)) (s k) = Ok (t k))"
  by (simp add: apply_delta_to_state_def apply_delta_ops_iff)

lemma key_ops_filter:
  "key_ops k (delta_ops (filter_delta_to_keys d K)) = (if k \<in> K then key_ops k (delta_ops d) else [])"
  by (auto simp: filter_delta_to_keys_def key_ops_def filter_empty_conv intro!: filter_cong)

section \<open>The delta of an output\<close>

fun delta_between :: "key \<Rightarrow> inode option \<Rightarrow> inode option \<Rightarrow> delta_op list" where
  "delta_between k None None = []"
| "delta_between k None (Some v) = [DPut k v]"
| "delta_between k (Some _) None = [DDelete k]"
| "delta_between k (Some i) (Some j) =
     (if i = j then []
      else if kind i = Directory \<and> kind j = Directory
        then [AddIntegerField k ChildCount (child_count j - child_count i)]
      else [DPut k j])"

fun delta_fits :: "inode option \<Rightarrow> inode option \<Rightarrow> bool" where
  "delta_fits (Some i) (Some j) \<longleftrightarrow>
     i = j \<or> kind i \<noteq> Directory \<or> kind j \<noteq> Directory \<or>
     (- (2 ^ 63) \<le> uint (child_count j) - uint (child_count i) \<and>
      uint (child_count j) - uint (child_count i) < 2 ^ 63)"
| "delta_fits _ _ \<longleftrightarrow> True"

lemma inode_eq_iff: "i = j \<longleftrightarrow> kind i = kind j \<and> child_count i = child_count j" for i j :: inode
  by auto

lemma append_delta_op_Ok:
  "append_delta_op ds k old new = Ok ds' \<longleftrightarrow>
     delta_fits old new \<and> ds' = ds @ delta_between k old new"
proof (cases "(k, old, new)" rule: delta_between.cases)
  case (4 k i j)
  show ?thesis
  proof (cases "i = j \<or> kind i \<noteq> Directory \<or> kind j \<noteq> Directory")
    case True
    then show ?thesis using 4 by (auto simp: append_delta_op_def)
  next
    case False
    then have "j\<lparr>child_count := child_count i\<rparr> = i" by simp
    moreover have "uint (child_count j) - uint (child_count i) \<noteq> 0"
      using False by (auto simp: word_uint_eq_iff)
    ultimately show ?thesis using False 4
      by (auto simp: append_delta_op_def i64_try_from_def Let_def split: if_splits)
  qed
qed (auto simp: append_delta_op_def)

lemma delta_between_keys: "d \<in> set (delta_between k old new) \<Longrightarrow> delta_key d = k"
  by (cases "(k, old, new)" rule: delta_between.cases) (auto split: if_splits)

lemma key_ops_delta_between:
  "key_ops k (delta_between k' old new) = (if k = k' then delta_between k old new else [])"
  using delta_between_keys [of _ k' old new]
  by (auto simp: key_ops_def filter_empty_conv filter_id_conv)

lemma key_ops_concat:
  "distinct ks \<Longrightarrow> key_ops k (concat (map (\<lambda>k. delta_between k (f k) (g k)) ks)) =
     (if k \<in> set ks then delta_between k (f k) (g k) else [])"
  by (induction ks) (auto simp: key_ops_delta_between)

text \<open>Applied to the value it was computed from, the difference gives the new value.\<close>

lemma apply_delta_between_same:
  assumes "delta_fits old new"
  shows "fold_res apply_value (delta_between k old new) old = Ok new"
  using assms
proof (cases "(k, old, new)" rule: delta_between.cases)
  case (4 k i j)
  show ?thesis
  proof (cases "i = j \<or> kind i \<noteq> Directory \<or> kind j \<noteq> Directory")
    case False
    let ?d = "uint (child_count j) - uint (child_count i)"
    have "i64_try_from ?d = Some (word_of_int ?d)" using False assms 4 by (auto simp: i64_try_from_def)
    then have "sint (child_count j - child_count i) = ?d" using i64_try_from_Some by fastforce
    then have "apply_signed_delta (child_count i) (child_count j - child_count i) = Some (child_count j)"
      by (simp add: apply_signed_delta_Some_iff)
    then show ?thesis using False 4 by simp
  qed (use 4 in auto)
qed auto

definition domain_map :: "key set \<Rightarrow> fs_state \<Rightarrow> (key \<rightharpoonup> inode option)" where
  "domain_map W s = (\<lambda>k. if k \<in> W then Some (s k) else None)"

lemma read_value_to_option_covered:
  "k \<in> dom reads \<Longrightarrow> read_value_to_option (reads k) = Ok (state_of_reads reads k)"
  by (auto simp: read_value_to_option_def state_of_reads_def split: option.splits read_value.splits)

lemma collect_old_values_covered:
  assumes "finite (write_set tx)" "write_set tx \<subseteq> dom reads"
  shows "collect_old_values tx reads = Ok (domain_map (write_set tx) (state_of_reads reads))"
proof -
  have "fold_res (\<lambda>k new_values. rbind (read_value_to_option (reads k)) (\<lambda>v. Ok (new_values(k \<mapsto> v)))) ks m =
      Ok (\<lambda>k. if k \<in> set ks then Some (state_of_reads reads k) else m k)"
    if "set ks \<subseteq> dom reads" for ks m
    using that by (induction ks arbitrary: m) (auto simp: read_value_to_option_covered fun_eq_iff)
  from this [of "sorted_list_of_set (write_set tx)" Map.empty] assms show ?thesis
    by (simp add: collect_old_values_def domain_map_def)
qed

lemma collect_new_values_covered:
  assumes "write_key ` set ws \<subseteq> write_set tx"
  shows "collect_new_values tx ws (domain_map (write_set tx) s) =
    Ok (domain_map (write_set tx) (apply_writes s ws))"
  using assms
proof (induction ws arbitrary: s)
  case (Cons w ws)
  have "(domain_map (write_set tx) s)(write_key w \<mapsto> written_value w) =
      domain_map (write_set tx) (apply_write w s)"
    using Cons.prems by (cases w) (auto simp: domain_map_def)
  then show ?case using Cons by (simp add: collect_new_values_def)
qed (simp add: collect_new_values_def)

lemma append_key_delta_covered:
  "k \<in> dom reads \<Longrightarrow> append_key_delta reads k (m, ops) = Ok st \<longleftrightarrow>
     delta_fits (state_of_reads reads k) (flatten (m k)) \<and>
     st = (m(k := None), ops @ delta_between k (state_of_reads reads k) (flatten (m k)))"
  by (auto simp: append_key_delta_def read_value_to_option_covered rbind_eq_Inr append_delta_op_Ok)

lemma collect_delta_ops_covered:
  assumes "distinct ks" "set ks \<subseteq> dom reads"
  shows "(\<exists>m'. fold_res (append_key_delta reads) ks (m, ops) = Ok (m', ops')) \<longleftrightarrow>
   (\<forall>k \<in> set ks. delta_fits (state_of_reads reads k) (flatten (m k))) \<and>
   ops' = ops @ concat (map (\<lambda>k. delta_between k (state_of_reads reads k) (flatten (m k))) ks)"
  using assms
proof (induction ks arbitrary: m ops)
  case (Cons k ks)
  let ?m = "m(k := None)"
  let ?ops = "ops @ delta_between k (state_of_reads reads k) (flatten (m k))"
  have k: "k \<in> dom reads" using Cons.prems(2) by simp
  have same: "?m x = m x" if "x \<in> set ks" for x using that Cons.prems(1) by auto
  have "(\<exists>m'. fold_res (append_key_delta reads) (k # ks) (m, ops) = Ok (m', ops')) \<longleftrightarrow>
      delta_fits (state_of_reads reads k) (flatten (m k)) \<and>
      (\<exists>m'. fold_res (append_key_delta reads) ks (?m, ?ops) = Ok (m', ops'))"
    using k by (auto simp: rbind_eq_Inr append_key_delta_covered)
  also have "(\<exists>m'. fold_res (append_key_delta reads) ks (?m, ?ops) = Ok (m', ops')) \<longleftrightarrow>
      (\<forall>x \<in> set ks. delta_fits (state_of_reads reads x) (flatten (?m x))) \<and>
      ops' = ?ops @ concat (map (\<lambda>x. delta_between x (state_of_reads reads x) (flatten (?m x))) ks)"
    using Cons.prems by (intro Cons.IH) auto
  also have "(\<forall>x \<in> set ks. delta_fits (state_of_reads reads x) (flatten (?m x))) \<longleftrightarrow>
      (\<forall>x \<in> set ks. delta_fits (state_of_reads reads x) (flatten (m x)))"
    using same by (metis (no_types, lifting))
  also have "map (\<lambda>x. delta_between x (state_of_reads reads x) (flatten (?m x))) ks =
      map (\<lambda>x. delta_between x (state_of_reads reads x) (flatten (m x))) ks"
    using same by (intro map_cong refl) metis
  finally show ?case by auto
qed auto

text \<open>The delta of a successful output whose reads cover its write set.\<close>

lemma output_to_delta_Ok_iff:
  assumes "result out = TxOk" "finite (write_set tx)" "write_set tx \<subseteq> dom reads"
    "write_key ` set (writes out) \<subseteq> write_set tx"
  shows "output_to_delta tx reads out = Ok d \<longleftrightarrow>
    (\<forall>k \<in> write_set tx. delta_fits (state_of_reads reads k) (apply_writes (state_of_reads reads) (writes out) k)) \<and>
    delta_ops d = concat (map (\<lambda>k. delta_between k (state_of_reads reads k)
       (apply_writes (state_of_reads reads) (writes out) k)) (sorted_list_of_set (write_set tx)))"
proof -
  let ?s = "state_of_reads reads" and ?ks = "sorted_list_of_set (write_set tx)"
  let ?m = "domain_map (write_set tx) (apply_writes ?s (writes out))"
  have new: "flatten (?m k) = apply_writes ?s (writes out) k" if "k \<in> write_set tx" for k
    using that by (simp add: domain_map_def)
  have "output_to_delta tx reads out = Ok d \<longleftrightarrow>
      (\<exists>m'. fold_res (append_key_delta reads) ?ks (?m, []) = Ok (m', delta_ops d))"
    using assms by (cases d) (auto simp: output_to_delta_def collect_old_values_covered
        collect_new_values_covered rbind_eq_Inr)
  also have "\<dots> \<longleftrightarrow> (\<forall>k \<in> set ?ks. delta_fits (?s k) (flatten (?m k))) \<and>
      delta_ops d = [] @ concat (map (\<lambda>k. delta_between k (?s k) (flatten (?m k))) ?ks)"
    using assms(2,3) by (intro collect_delta_ops_covered) auto
  also have "map (\<lambda>k. delta_between k (?s k) (flatten (?m k))) ?ks =
      map (\<lambda>k. delta_between k (?s k) (apply_writes ?s (writes out) k)) ?ks"
    using assms(2) new by (intro map_cong refl) auto
  finally show ?thesis using assms(2) new by auto
qed

lemma output_to_delta_key_ops:
  assumes "result out = TxOk" "finite (write_set tx)" "write_set tx \<subseteq> dom reads"
    "write_key ` set (writes out) \<subseteq> write_set tx" "output_to_delta tx reads out = Ok d"
  shows "key_ops k (delta_ops d) =
    delta_between k (state_of_reads reads k) (apply_writes (state_of_reads reads) (writes out) k)"
proof -
  have "apply_writes (state_of_reads reads) (writes out) k = state_of_reads reads k" if "k \<notin> write_set tx"
    using assms(4) that by (intro apply_writes_other) auto
  moreover have "delta_between k v v = []" for v by (cases v) auto
  ultimately show ?thesis
    using output_to_delta_Ok_iff [OF assms(1-4), of d] assms(2,5) by (simp add: key_ops_concat)
qed

text \<open>Applied to the state that was read, the delta does what the writes do.\<close>

lemma apply_delta_roundtrip:
  assumes "result out = TxOk" "finite (write_set tx)" "write_set tx \<subseteq> K"
    "write_key ` set (writes out) \<subseteq> write_set tx"
    "output_to_delta tx (reads_of s K) out = Ok d"
  shows "apply_delta_to_state s d = Ok (apply_writes s (writes out))"
  unfolding apply_delta_to_state_iff
proof
  fix k
  let ?r = "state_of_reads (reads_of s K)"
  have W: "write_set tx \<subseteq> dom (reads_of s K)" using assms(3) by simp
  note ops = output_to_delta_key_ops [OF assms(1,2) W assms(4,5), of k]
  show "fold_res apply_value (key_ops k (delta_ops d)) (s k) = Ok (apply_writes s (writes out) k)"
  proof (cases "k \<in> write_set tx")
    case True
    then have s: "?r k = s k" using assms(3) by (auto intro: state_of_reads_of)
    then have "apply_writes ?r (writes out) k = apply_writes s (writes out) k"
      by (rule apply_writes_cong)
    moreover have "delta_fits (?r k) (apply_writes ?r (writes out) k)"
      using output_to_delta_Ok_iff [OF assms(1,2) W assms(4)] assms(5) True by blast
    ultimately show ?thesis using apply_delta_between_same s unfolding ops by simp
  next
    case False
    then have "k \<notin> write_key ` set (writes out)" using assms(4) by auto
    moreover have "delta_between k v v = []" for v by (cases v) auto
    ultimately show ?thesis unfolding ops by (simp add: apply_writes_other)
  qed
qed

end
