(* ===== verification/SccPlan.thy ===== *)
theory SccPlan
  imports Delta
begin

text \<open>
  The planning half of \<open>src/scc.rs\<close>: the semantic conflict tables and masks, the batch plan with
  its two precedence graphs, and the runtime that releases a transaction when its predecessors
  finished. The lemmas give the plan in closed form: the graphs are equal, their edges are exactly
  the conflicting pairs in batch order, and the recorded index is the last conflicting predecessor.
\<close>

section \<open>Conflict masks and tables\<close>

datatype path_id =
    CreateSuccess | MkdirSuccess | UnlinkSuccess | RmdirSuccess | RenameSuccess | StatSuccess

type_synonym conflict_mask = u64

definition SAME_TARGET :: conflict_mask where "SAME_TARGET = push_bit 0 1"
definition SAME_PARENT_DIFFERENT_TARGET :: conflict_mask where
  "SAME_PARENT_DIFFERENT_TARGET = or (push_bit 1 1) (push_bit 2 1)"
definition LHS_TARGET_IS_RHS_PARENT :: conflict_mask where "LHS_TARGET_IS_RHS_PARENT = push_bit 3 1"
definition ANCESTOR_DESCENDANT :: conflict_mask where "ANCESTOR_DESCENDANT = push_bit 4 1"
definition ROOT_INVOLVED :: conflict_mask where "ROOT_INVOLVED = push_bit 5 1"
definition INDEPENDENT_SUBTREE :: conflict_mask where "INDEPENDENT_SUBTREE = push_bit 6 1"
definition RENAME_INVOLVED :: conflict_mask where "RENAME_INVOLVED = push_bit 7 1"

lemmas mask_defs = SAME_TARGET_def SAME_PARENT_DIFFERENT_TARGET_def LHS_TARGET_IS_RHS_PARENT_def
  ANCESTOR_DESCENDANT_def ROOT_INVOLVED_def INDEPENDENT_SUBTREE_def RENAME_INVOLVED_def

record semantic_key =
  path1 :: path_id
  path2 :: path_id
  mask :: conflict_mask

record semantic_table =
  entries :: "semantic_key \<rightharpoonup> bool"
  default_conflict :: bool

record semantic_tables_t =
  effect_table :: semantic_table
  condition_table :: semantic_table

definition has_conflict :: "semantic_table \<Rightarrow> semantic_key \<Rightarrow> bool" where
  "has_conflict t k = (case entries t k of Some c \<Rightarrow> c | None \<Rightarrow> default_conflict t)"

definition insert_no_conflict ::
    "path_id \<Rightarrow> path_id \<Rightarrow> conflict_mask \<Rightarrow> semantic_table \<Rightarrow> semantic_table" where
  "insert_no_conflict lhs rhs m t =
     t\<lparr>entries := (entries t)(\<lparr>path1 = lhs, path2 = rhs, mask = m\<rparr> \<mapsto> False)\<rparr>"

definition insert_both ::
    "path_id \<Rightarrow> path_id \<Rightarrow> conflict_mask \<Rightarrow> semantic_tables_t \<Rightarrow> semantic_tables_t" where
  "insert_both lhs rhs m ts =
     \<lparr>effect_table = insert_no_conflict lhs rhs m (effect_table ts),
      condition_table = insert_no_conflict lhs rhs m (condition_table ts)\<rparr>"

definition namespace_mutations :: "path_id list" where
  "namespace_mutations = [CreateSuccess, MkdirSuccess, UnlinkSuccess, RmdirSuccess]"

definition non_rename_successes :: "path_id list" where
  "non_rename_successes = [CreateSuccess, MkdirSuccess, UnlinkSuccess, RmdirSuccess, StatSuccess]"

definition empty_table :: semantic_table where
  "empty_table = \<lparr>entries = Map.empty, default_conflict = True\<rparr>"

definition semantic_tables :: semantic_tables_t where
  "semantic_tables =
     (let t0 = \<lparr>effect_table = empty_table, condition_table = empty_table\<rparr>;
          t1 = fold (\<lambda>lhs. fold (\<lambda>rhs. insert_both lhs rhs SAME_PARENT_DIFFERENT_TARGET)
                 namespace_mutations) namespace_mutations t0;
          t2 = fold (insert_both StatSuccess StatSuccess)
                 [SAME_TARGET, SAME_PARENT_DIFFERENT_TARGET, LHS_TARGET_IS_RHS_PARENT,
                  ANCESTOR_DESCENDANT] t1;
          t3 = fold (\<lambda>mutation. fold (\<lambda>(lhs, rhs). insert_both lhs rhs SAME_PARENT_DIFFERENT_TARGET)
                 [(mutation, StatSuccess), (StatSuccess, mutation)]) namespace_mutations t2
      in fold (\<lambda>lhs. fold (\<lambda>rhs. insert_both lhs rhs INDEPENDENT_SUBTREE) non_rename_successes)
           non_rename_successes t3)"

fun predicted_path :: "fs_op \<Rightarrow> path_id" where
  "predicted_path (Create _) = CreateSuccess"
| "predicted_path (Mkdir _) = MkdirSuccess"
| "predicted_path (Unlink _) = UnlinkSuccess"
| "predicted_path (Rmdir _) = RmdirSuccess"
| "predicted_path (Rename _ _) = RenameSuccess"
| "predicted_path (Stat _) = StatSuccess"

definition classify_actual_path :: "ordered_tx \<Rightarrow> tx_output \<Rightarrow> path_id option" where
  "classify_actual_path tx output =
     (if result output \<noteq> TxOk then None else Some (predicted_path (op tx)))"

fun primary_target :: "fs_op \<Rightarrow> key" where
  "primary_target (Create p) = p"
| "primary_target (Mkdir p) = p"
| "primary_target (Unlink p) = p"
| "primary_target (Rmdir p) = p"
| "primary_target (Stat p) = p"
| "primary_target (Rename s _) = s"

fun is_rename :: "fs_op \<Rightarrow> bool" where
  "is_rename (Rename _ _) = True"
| "is_rename _ = False"

definition conflict_mask_of :: "fs_op \<Rightarrow> fs_op \<Rightarrow> conflict_mask result" where
  "conflict_mask_of lhs rhs =
     (if is_rename lhs \<or> is_rename rhs then Ok RENAME_INVOLVED
      else
        (let lt = primary_target lhs; rt = primary_target rhs in
         if as_str lt = ''/'' \<or> as_str rt = ''/'' then Ok ROOT_INVOLVED
         else if lt = rt then Ok SAME_TARGET
         else
           rbind (parent lt) (\<lambda>lp. rbind (parent rt) (\<lambda>rp.
           if lt = rp then Ok LHS_TARGET_IS_RHS_PARENT
           else if is_strict_ancestor lt rt \<or> is_strict_ancestor rt lt then Ok ANCESTOR_DESCENDANT
           else if lp = rp then Ok SAME_PARENT_DIFFERENT_TARGET
           else Ok INDEPENDENT_SUBTREE))))"

section \<open>The batch plan\<close>

text \<open>The predecessor sets of the graph nodes exist in debug builds only and are not read.\<close>

record semantic_dag =
  nodes :: "nat set list"

record scc_tx_plan =
  plan_path :: path_id
  effect_max_pred_index :: "nat option"
  condition_max_pred_index :: "nat option"

record scc_batch_plan =
  effect_dag :: semantic_dag
  condition_dag :: semantic_dag
  tx_plans :: "scc_tx_plan list"

definition dag_new :: "nat \<Rightarrow> semantic_dag" where
  "dag_new len = \<lparr>nodes = replicate len {}\<rparr>"

definition add_edge :: "semantic_dag \<Rightarrow> nat \<Rightarrow> nat \<Rightarrow> semantic_dag result" where
  "add_edge g from_i to_i =
     (if from_i \<ge> length (nodes g) \<or> to_i \<ge> length (nodes g)
      then Err (InvalidBatch ''DAG edge out of range'')
      else if from_i \<ge> to_i then Err (InvalidBatch ''DAG edge violates batch order'')
      else Ok (g\<lparr>nodes := (nodes g)[from_i := insert to_i (nodes g ! from_i)]\<rparr>))"

definition update_max_pred :: "nat option \<Rightarrow> nat \<Rightarrow> nat option" where
  "update_max_pred slot pred = Some (case slot of None \<Rightarrow> pred | Some current \<Rightarrow> max current pred)"

definition effect_prefix_covers_condition :: "scc_tx_plan \<Rightarrow> bool" where
  "effect_prefix_covers_condition p =
     (case (effect_max_pred_index p, condition_max_pred_index p) of
        (_, None) \<Rightarrow> True
      | (Some effect, Some condition) \<Rightarrow> effect \<ge> condition
      | (None, Some _) \<Rightarrow> False)"

definition initial_tx_plan :: "ordered_tx \<Rightarrow> scc_tx_plan" where
  "initial_tx_plan tx = \<lparr>plan_path = predicted_path (op tx), effect_max_pred_index = None,
     condition_max_pred_index = None\<rparr>"

definition plan_pair :: "batch \<Rightarrow> nat \<Rightarrow> nat \<Rightarrow> scc_batch_plan \<Rightarrow> scc_batch_plan result" where
  "plan_pair b i j p =
     rbind (conflict_mask_of (op (txs b ! i)) (op (txs b ! j))) (\<lambda>m.
     let k = \<lparr>path1 = plan_path (tx_plans p ! i), path2 = plan_path (tx_plans p ! j), mask = m\<rparr> in
     rbind (if has_conflict (effect_table semantic_tables) k
            then rbind (add_edge (effect_dag p) i j) (\<lambda>g.
                 Ok (p\<lparr>effect_dag := g,
                       tx_plans := (tx_plans p)[j := (tx_plans p ! j)
                         \<lparr>effect_max_pred_index := update_max_pred (effect_max_pred_index (tx_plans p ! j)) i\<rparr>]\<rparr>))
            else Ok p) (\<lambda>p.
     if has_conflict (condition_table semantic_tables) k
     then rbind (add_edge (condition_dag p) i j) (\<lambda>g.
          Ok (p\<lparr>condition_dag := g,
                tx_plans := (tx_plans p)[j := (tx_plans p ! j)
                  \<lparr>condition_max_pred_index := update_max_pred (condition_max_pred_index (tx_plans p ! j)) i\<rparr>]\<rparr>))
     else Ok p))"

definition build_scc_batch_plan :: "batch \<Rightarrow> scc_batch_plan result" where
  "build_scc_batch_plan b =
     fold_res (\<lambda>i. fold_res (plan_pair b i) [Suc i..<length (txs b)]) [0..<length (txs b)]
       \<lparr>effect_dag = dag_new (length (txs b)), condition_dag = dag_new (length (txs b)),
        tx_plans = map initial_tx_plan (txs b)\<rparr>"

section \<open>The tables in closed form\<close>

lemma mask_values:
  "SAME_TARGET = 1" "SAME_PARENT_DIFFERENT_TARGET = 6" "LHS_TARGET_IS_RHS_PARENT = 8"
  "ANCESTOR_DESCENDANT = 16" "ROOT_INVOLVED = 32" "INDEPENDENT_SUBTREE = 64" "RENAME_INVOLVED = 128"
  by (simp_all add: mask_defs)

definition no_conflict :: "path_id \<Rightarrow> path_id \<Rightarrow> conflict_mask \<Rightarrow> bool" where
  "no_conflict p q m \<longleftrightarrow>
     p \<noteq> RenameSuccess \<and> q \<noteq> RenameSuccess \<and>
     (m = SAME_PARENT_DIFFERENT_TARGET \<or> m = INDEPENDENT_SUBTREE \<or>
      p = StatSuccess \<and> q = StatSuccess \<and>
        (m = SAME_TARGET \<or> m = LHS_TARGET_IS_RHS_PARENT \<or> m = ANCESTOR_DESCENDANT))"

lemma tables_equal: "condition_table semantic_tables = effect_table semantic_tables"
  by (simp add: semantic_tables_def namespace_mutations_def non_rename_successes_def
      insert_both_def Let_def)

lemma effect_entries:
  "entries (effect_table semantic_tables) \<lparr>path1 = p, path2 = q, mask = m\<rparr> =
     (if no_conflict p q m then Some False else None)"
  by (cases p; cases q)
    (simp_all add: semantic_tables_def namespace_mutations_def non_rename_successes_def
      insert_both_def insert_no_conflict_def empty_table_def no_conflict_def Let_def mask_values)

lemma has_conflict_iff:
  "has_conflict (effect_table semantic_tables) \<lparr>path1 = p, path2 = q, mask = m\<rparr> \<longleftrightarrow> \<not> no_conflict p q m"
proof -
  have "default_conflict (effect_table semantic_tables)"
    by (simp add: semantic_tables_def namespace_mutations_def non_rename_successes_def
        insert_both_def insert_no_conflict_def empty_table_def Let_def)
  then show ?thesis by (simp add: has_conflict_def effect_entries)
qed

section \<open>The plan in closed form\<close>

lemma conflict_mask_total:
  assumes "valid_op a" "valid_op b" shows "\<exists>m. conflict_mask_of a b = Ok m"
proof -
  have pt: "valid_op o' \<Longrightarrow> valid_key (primary_target o')" for o' by (cases o') auto
  show ?thesis
    using parent_parent_of [OF pt [OF assms(1)]] parent_parent_of [OF pt [OF assms(2)]]
    by (auto simp: conflict_mask_of_def Let_def as_str_root_iff)
qed

text \<open>The conflict relation of two operations, the earlier one first.\<close>

definition ops_conflict :: "fs_op \<Rightarrow> fs_op \<Rightarrow> bool" where
  "ops_conflict a b \<longleftrightarrow>
     (case conflict_mask_of a b of
        Ok m \<Rightarrow> \<not> no_conflict (predicted_path a) (predicted_path b) m | Err _ \<Rightarrow> True)"

definition conflicts :: "batch \<Rightarrow> nat \<Rightarrow> nat \<Rightarrow> bool" where
  "conflicts b i j \<longleftrightarrow> ops_conflict (op (txs b ! i)) (op (txs b ! j))"

definition max_of :: "nat set \<Rightarrow> nat option" where
  "max_of A = (if A = {} then None else Some (Max A))"

lemma update_max_pred_max_of: "finite A \<Longrightarrow> update_max_pred (max_of A) i = max_of (insert i A)"
  by (auto simp: update_max_pred_def max_of_def max.commute)

text \<open>The plan after the loop body ran for a set \<open>R\<close> of pairs.\<close>

definition plan_for :: "batch \<Rightarrow> (nat \<times> nat) set \<Rightarrow> scc_batch_plan" where
  "plan_for b R =
     (let g = \<lparr>nodes = map (\<lambda>i. {j. (i, j) \<in> R}) [0..<length (txs b)]\<rparr>;
          m = (\<lambda>j. max_of {i. (i, j) \<in> R})
      in \<lparr>effect_dag = g, condition_dag = g,
          tx_plans = map (\<lambda>j. \<lparr>plan_path = predicted_path (op (txs b ! j)),
            effect_max_pred_index = m j, condition_max_pred_index = m j\<rparr>) [0..<length (txs b)]\<rparr>)"

lemma add_edge_plan:
  assumes "i < j" "j < n"
  shows "add_edge \<lparr>nodes = map (\<lambda>i. {j. (i, j) \<in> R}) [0..<n]\<rparr> i j =
    Ok \<lparr>nodes = map (\<lambda>i'. {j'. (i', j') \<in> insert (i, j) R}) [0..<n]\<rparr>"
  using assms
  by (auto simp: add_edge_def intro!: nth_equalityI simp: nth_list_update split: if_splits)

lemma plan_pair_step:
  assumes "i < j" "j < length (txs b)" "finite R"
    "conflict_mask_of (op (txs b ! i)) (op (txs b ! j)) = Ok m"
  shows "plan_pair b i j (plan_for b R) =
    Ok (plan_for b (if conflicts b i j then insert (i, j) R else R))"
proof -
  let ?n = "length (txs b)"
  have lt: "i < ?n" using assms by simp
  have fin: "finite {i. (i, j) \<in> R}"
    by (rule finite_subset [OF _ finite_imageI [OF assms(3), of fst]]) force
  have m: "{i'. (i', j') \<in> insert (i, j) R} = (if j' = j then insert i {i'. (i', j) \<in> R} else {i'. (i', j') \<in> R})"
    for j' by auto
  have c: "conflicts b i j \<longleftrightarrow> \<not> no_conflict (predicted_path (op (txs b ! i))) (predicted_path (op (txs b ! j))) m"
    by (simp add: conflicts_def ops_conflict_def assms(4))
  show ?thesis
  proof (cases "conflicts b i j")
    case True
    then show ?thesis
      using assms(1,2,4) lt c
      by (simp add: plan_pair_def plan_for_def Let_def tables_equal has_conflict_iff add_edge_plan
          update_max_pred_max_of [OF fin])
        (auto intro!: nth_equalityI arg_cong [where f = max_of] simp: nth_list_update)
  next
    case False
    then show ?thesis
      using assms(1,2,4) lt c
      by (simp add: plan_pair_def plan_for_def Let_def tables_equal has_conflict_iff)
  qed
qed

text \<open>The conflicting pairs whose first index is below \<open>n\<close>.\<close>

definition edges_below :: "batch \<Rightarrow> nat \<Rightarrow> (nat \<times> nat) set" where
  "edges_below b n = {(i, j). i < n \<and> i < j \<and> j < length (txs b) \<and> conflicts b i j}"

lemma edges_below_finite: "finite (edges_below b n)"
  by (rule finite_subset [of _ "{..<n} \<times> {..<length (txs b)}"]) (auto simp: edges_below_def)

lemma plan_inner_loop:
  assumes "\<And>t. t \<in> set (txs b) \<Longrightarrow> valid_op (op t)" "i < length (txs b)" "finite R"
    "set js \<subseteq> {i<..<length (txs b)}"
  shows "fold_res (plan_pair b i) js (plan_for b R) =
    Ok (plan_for b (R \<union> {(i, j) | j. j \<in> set js \<and> conflicts b i j}))"
  using assms(3,4)
proof (induction js arbitrary: R)
  case (Cons j js)
  obtain m where m: "conflict_mask_of (op (txs b ! i)) (op (txs b ! j)) = Ok m"
    using conflict_mask_total assms(1,2) Cons.prems(2) by (metis greaterThanLessThan_iff list.set_intros(1) nth_mem subsetD)
  let ?R = "if conflicts b i j then insert (i, j) R else R"
  have "plan_pair b i j (plan_for b R) = Ok (plan_for b ?R)"
    using Cons.prems m by (intro plan_pair_step) auto
  moreover have "fold_res (plan_pair b i) js (plan_for b ?R) =
      Ok (plan_for b (?R \<union> {(i, j) | j. j \<in> set js \<and> conflicts b i j}))"
    using Cons.prems by (intro Cons.IH) auto
  moreover have "?R \<union> {(i, j) | j. j \<in> set js \<and> conflicts b i j} =
      R \<union> {(i, j') | j'. j' \<in> set (j # js) \<and> conflicts b i j'}" by auto
  ultimately show ?case by simp
qed simp

lemma build_plan_eq:
  assumes "\<And>t. t \<in> set (txs b) \<Longrightarrow> valid_op (op t)"
  shows "build_scc_batch_plan b = Ok (plan_for b (edges_below b (length (txs b))))"
proof -
  let ?n = "length (txs b)"
  have "fold_res (\<lambda>i. fold_res (plan_pair b i) [Suc i..<?n]) [0..<k] (plan_for b {}) =
      Ok (plan_for b (edges_below b k))" if "k \<le> ?n" for k
    using that
  proof (induction k)
    case (Suc k)
    have "edges_below b k \<union> {(k, j) | j. j \<in> set [Suc k..<?n] \<and> conflicts b k j} = edges_below b (Suc k)"
      by (auto simp: edges_below_def less_Suc_eq)
    moreover have "set [Suc k..<?n] \<subseteq> {k<..<?n}" by auto
    ultimately have "fold_res (plan_pair b k) [Suc k..<?n] (plan_for b (edges_below b k)) =
        Ok (plan_for b (edges_below b (Suc k)))"
      using plan_inner_loop [of b k "edges_below b k" "[Suc k..<?n]"] assms edges_below_finite Suc.prems
      by simp
    then show ?case using Suc by (simp add: fold_res_append)
  qed (simp add: edges_below_def)
  moreover have "\<lparr>effect_dag = dag_new ?n, condition_dag = dag_new ?n, tx_plans = map initial_tx_plan (txs b)\<rparr> =
      plan_for b {}"
    by (auto simp: plan_for_def dag_new_def Let_def max_of_def initial_tx_plan_def map_replicate_const
        intro!: nth_equalityI)
  ultimately show ?thesis by (simp add: build_scc_batch_plan_def)
qed

text \<open>The last conflicting predecessor of a transaction.\<close>

definition max_pred :: "batch \<Rightarrow> nat \<Rightarrow> nat option" where
  "max_pred b j = max_of {i. i < j \<and> conflicts b i j}"

lemma max_pred_Some:
  assumes "max_pred b j = Some m"
  shows "m < j" "conflicts b m j" "\<And>i. i < j \<Longrightarrow> conflicts b i j \<Longrightarrow> i \<le> m"
proof -
  let ?A = "{i. i < j \<and> conflicts b i j}"
  have "?A \<noteq> {}" "m = Max ?A" using assms by (auto simp: max_pred_def max_of_def split: if_splits)
  then have "m \<in> ?A" using Max_in [of ?A] by auto
  then show "m < j" "conflicts b m j" by auto
  show "\<And>i. i < j \<Longrightarrow> conflicts b i j \<Longrightarrow> i \<le> m" using \<open>m = Max ?A\<close> by auto
qed

lemma max_pred_None: "max_pred b j = None \<Longrightarrow> i < j \<Longrightarrow> \<not> conflicts b i j"
  by (auto simp: max_pred_def max_of_def split: if_splits)

lemma plan_facts:
  assumes "\<And>t. t \<in> set (txs b) \<Longrightarrow> valid_op (op t)" "build_scc_batch_plan b = Ok p"
  shows "condition_dag p = effect_dag p" "length (nodes (effect_dag p)) = length (txs b)"
    "length (tx_plans p) = length (txs b)"
    "i < length (txs b) \<Longrightarrow> nodes (effect_dag p) ! i = {j. i < j \<and> j < length (txs b) \<and> conflicts b i j}"
    "j < length (txs b) \<Longrightarrow> tx_plans p ! j = \<lparr>plan_path = predicted_path (op (txs b ! j)),
       effect_max_pred_index = max_pred b j, condition_max_pred_index = max_pred b j\<rparr>"
proof -
  have p: "p = plan_for b (edges_below b (length (txs b)))"
    using build_plan_eq [OF assms(1)] assms(2) by simp
  show "condition_dag p = effect_dag p" "length (nodes (effect_dag p)) = length (txs b)"
    "length (tx_plans p) = length (txs b)"
    "i < length (txs b) \<Longrightarrow> nodes (effect_dag p) ! i = {j. i < j \<and> j < length (txs b) \<and> conflicts b i j}"
    by (auto simp: p plan_for_def Let_def edges_below_def)
  have "j < length (txs b) \<Longrightarrow> {i. (i, j) \<in> edges_below b (length (txs b))} = {i. i < j \<and> conflicts b i j}"
    by (auto simp: edges_below_def)
  then show "j < length (txs b) \<Longrightarrow> tx_plans p ! j = \<lparr>plan_path = predicted_path (op (txs b ! j)),
       effect_max_pred_index = max_pred b j, condition_max_pred_index = max_pred b j\<rparr>"
    by (simp add: p plan_for_def Let_def max_pred_def)
qed

end
