(* ===== verification/SccDag.thy ===== *)
theory SccDag
  imports SccPlan
begin

text \<open>
  The runtime of the precedence graphs, \<open>DagRuntime\<close> and \<open>SccDagRuntime\<close> of \<open>src/scc.rs\<close>: in-degree
  counting and the one-shot ready notifications. The lemmas show that after \<open>start\<close> and any
  sequence of finished vertices a vertex has been notified exactly when all its predecessors
  finished, that no call on an unfinished vertex fails, and that the least unfinished vertex is
  always released.
\<close>

text \<open>\<open>ready_tx\<close> is true while the sender is present; taking it is the notification.\<close>

record dag_runtime_node =
  indegree :: nat
  successors :: "nat set"
  ready_tx :: bool
  finished :: bool

type_synonym dag_runtime = "dag_runtime_node list"

definition increment_all :: "nat set \<Rightarrow> nat list \<Rightarrow> nat list" where
  "increment_all ss ds = fold (\<lambda>s ds. ds[s := ds ! s + 1]) (sorted_list_of_set ss) ds"

definition indegrees_of :: "semantic_dag \<Rightarrow> nat list" where
  "indegrees_of g = fold increment_all (nodes g) (replicate (length (nodes g)) 0)"

definition dag_runtime_new :: "semantic_dag \<Rightarrow> dag_runtime" where
  "dag_runtime_new g =
     map (\<lambda>i. \<lparr>indegree = indegrees_of g ! i, successors = nodes g ! i, ready_tx = True, finished = False\<rparr>)
       [0..<length (nodes g)]"

definition notify_ready :: "nat \<Rightarrow> dag_runtime \<Rightarrow> dag_runtime result" where
  "notify_ready i rt =
     (if i \<ge> length rt then Err (InvalidBatch ''DAG ready index out of range'')
      else if \<not> ready_tx (rt ! i) then Ok rt
      else Ok (rt[i := (rt ! i)\<lparr>ready_tx := False\<rparr>]))"

definition dag_start :: "dag_runtime \<Rightarrow> dag_runtime result" where
  "dag_start rt = fold_res notify_ready (filter (\<lambda>i. indegree (rt ! i) = 0) [0..<length rt]) rt"

definition release_successor :: "nat \<Rightarrow> dag_runtime \<Rightarrow> dag_runtime result" where
  "release_successor s rt =
     (if s \<ge> length rt then Err (InvalidBatch ''DAG successor index out of range'')
      else if indegree (rt ! s) = 0 then Err (InvalidBatch ''DAG successor indegree underflow'')
      else
        let rt' = rt[s := (rt ! s)\<lparr>indegree := indegree (rt ! s) - 1\<rparr>]
        in if indegree (rt' ! s) = 0 then notify_ready s rt' else Ok rt')"

definition finish_vertex :: "nat \<Rightarrow> dag_runtime \<Rightarrow> dag_runtime result" where
  "finish_vertex i rt =
     (if i \<ge> length rt then Err (InvalidBatch ''DAG vertex index out of range'')
      else if finished (rt ! i) then Err (InvalidBatch ''DAG vertex already finished'')
      else
        let rt' = rt[i := (rt ! i)\<lparr>finished := True\<rparr>]
        in fold_res release_successor (sorted_list_of_set (successors (rt' ! i))) rt')"

record scc_dag_runtime =
  effect_rt :: dag_runtime
  condition_rt :: dag_runtime

definition scc_dag_runtime_new :: "scc_batch_plan \<Rightarrow> scc_dag_runtime" where
  "scc_dag_runtime_new p =
     \<lparr>effect_rt = dag_runtime_new (effect_dag p), condition_rt = dag_runtime_new (condition_dag p)\<rparr>"

definition scc_start :: "scc_dag_runtime \<Rightarrow> scc_dag_runtime result" where
  "scc_start rt =
     rbind (dag_start (effect_rt rt)) (\<lambda>e. rbind (dag_start (condition_rt rt)) (\<lambda>c.
     Ok \<lparr>effect_rt = e, condition_rt = c\<rparr>))"

definition scc_finish_vertex :: "nat \<Rightarrow> scc_dag_runtime \<Rightarrow> scc_dag_runtime result" where
  "scc_finish_vertex i rt =
     rbind (finish_vertex i (effect_rt rt)) (\<lambda>e. rbind (finish_vertex i (condition_rt rt)) (\<lambda>c.
     Ok \<lparr>effect_rt = e, condition_rt = c\<rparr>))"

section \<open>The invariant\<close>

text \<open>A graph in batch order: every edge leads to a larger index in range.\<close>

definition batch_ordered :: "semantic_dag \<Rightarrow> bool" where
  "batch_ordered g \<longleftrightarrow> (\<forall>i < length (nodes g). nodes g ! i \<subseteq> {i<..<length (nodes g)})"

definition preds :: "semantic_dag \<Rightarrow> nat \<Rightarrow> nat set" where
  "preds g v = {p. p < length (nodes g) \<and> v \<in> nodes g ! p}"

text \<open>The runtime after the vertices \<open>F\<close> finished; \<open>started\<close> tells whether \<open>start\<close> ran.\<close>

definition dag_inv :: "semantic_dag \<Rightarrow> bool \<Rightarrow> nat set \<Rightarrow> dag_runtime \<Rightarrow> bool" where
  "dag_inv g started F rt \<longleftrightarrow>
     length rt = length (nodes g) \<and>
     (\<forall>v < length rt. rt ! v = \<lparr>indegree = card (preds g v - F), successors = nodes g ! v,
        ready_tx = (started \<longrightarrow> card (preds g v - F) \<noteq> 0), finished = (v \<in> F)\<rparr>)"

lemma preds_finite [simp]: "finite (preds g v)"
  by (rule finite_subset [of _ "{..<length (nodes g)}"]) (auto simp: preds_def)

lemma batch_ordered_finite: "batch_ordered g \<Longrightarrow> i < length (nodes g) \<Longrightarrow> finite (nodes g ! i)"
  unfolding batch_ordered_def by (metis finite_greaterThanLessThan finite_subset)

lemma batch_orderedD:
  "batch_ordered g \<Longrightarrow> i < length (nodes g) \<Longrightarrow> j \<in> nodes g ! i \<Longrightarrow> i < j \<and> j < length (nodes g)"
  unfolding batch_ordered_def by fastforce

lemma taken_ready_tx [simp]: "\<not> ready_tx x \<Longrightarrow> x\<lparr>ready_tx := False\<rparr> = x" for x :: dag_runtime_node
  by (cases x) simp

lemma increment_all:
  assumes "finite ss" "ss \<subseteq> {..<length ds}"
  shows "length (increment_all ss ds) = length ds"
    and "v < length ds \<Longrightarrow> increment_all ss ds ! v = ds ! v + (if v \<in> ss then 1 else 0)"
proof -
  have "length (fold (\<lambda>s ds. ds[s := ds ! s + 1]) xs ds) = length ds \<and>
      (v < length ds \<longrightarrow> fold (\<lambda>s ds. ds[s := ds ! s + 1]) xs ds ! v =
        ds ! v + (if v \<in> set xs then 1 else 0))"
    if "distinct xs" "set xs \<subseteq> {..<length ds}" for xs v and ds :: "nat list"
    using that by (induction xs arbitrary: ds) (auto simp: nth_list_update)
  from this [of "sorted_list_of_set ss" ds v] assms
  show "length (increment_all ss ds) = length ds"
    "v < length ds \<Longrightarrow> increment_all ss ds ! v = ds ! v + (if v \<in> ss then 1 else 0)"
    by (auto simp: increment_all_def)
qed

lemma indegrees_of:
  assumes "batch_ordered g" "v < length (nodes g)"
  shows "indegrees_of g ! v = card (preds g v)"
proof -
  let ?n = "length (nodes g)"
  let ?ds = "\<lambda>k. fold increment_all (take k (nodes g)) (replicate ?n 0)"
  have "length (?ds k) = ?n \<and> ?ds k ! v = card {p. p < k \<and> v \<in> nodes g ! p}" if "k \<le> ?n" for k
    using that
  proof (induction k)
    case (Suc k)
    have kn: "k < ?n" using Suc.prems by simp
    have IH: "length (?ds k) = ?n" "?ds k ! v = card {p. p < k \<and> v \<in> nodes g ! p}" using Suc by auto
    have k: "finite (nodes g ! k)" "nodes g ! k \<subseteq> {..<length (?ds k)}"
      using batch_ordered_finite [OF assms(1) kn] batch_orderedD [OF assms(1) kn] unfolding IH(1)
      by (blast, blast)
    have t: "?ds (Suc k) = increment_all (nodes g ! k) (?ds k)"
      using kn by (simp add: take_Suc_conv_app_nth)
    have "{p. p < Suc k \<and> v \<in> nodes g ! p} =
        (if v \<in> nodes g ! k then insert k {p. p < k \<and> v \<in> nodes g ! p} else {p. p < k \<and> v \<in> nodes g ! p})"
      by (auto simp: less_Suc_eq)
    then have "card {p. p < Suc k \<and> v \<in> nodes g ! p} =
        card {p. p < k \<and> v \<in> nodes g ! p} + (if v \<in> nodes g ! k then 1 else 0)" by simp
    then show ?case
      using increment_all [OF k] IH assms(2) unfolding t by simp
  qed (use assms(2) in simp)
  from this [of ?n] show ?thesis by (simp add: indegrees_of_def preds_def)
qed

lemma dag_inv_new: "batch_ordered g \<Longrightarrow> dag_inv g False {} (dag_runtime_new g)"
  by (simp add: dag_inv_def dag_runtime_new_def indegrees_of)

lemma notify_ready_all:
  assumes "set is \<subseteq> {..<length rt}"
  shows "fold_res notify_ready is rt =
    Ok (map (\<lambda>v. if v \<in> set is then (rt ! v)\<lparr>ready_tx := False\<rparr> else rt ! v) [0..<length rt])"
  using assms
proof (induction "is" arbitrary: rt)
  case Nil
  then show ?case by (simp add: map_nth)
next
  case (Cons i "is")
  have "notify_ready i rt = Ok (rt[i := (rt ! i)\<lparr>ready_tx := False\<rparr>])"
    using Cons.prems by (auto simp: notify_ready_def list_update_same_conv)
  then show ?case
    using Cons by (auto intro!: nth_equalityI simp: nth_list_update)
qed

lemma dag_inv_start:
  assumes "dag_inv g False {} rt"
  shows "\<exists>rt'. dag_start rt = Ok rt' \<and> dag_inv g True {} rt'"
proof -
  let ?is = "filter (\<lambda>i. indegree (rt ! i) = 0) [0..<length rt]"
  have "fold_res notify_ready ?is rt =
      Ok (map (\<lambda>v. if v \<in> set ?is then (rt ! v)\<lparr>ready_tx := False\<rparr> else rt ! v) [0..<length rt])"
    by (rule notify_ready_all) auto
  then show ?thesis using assms by (auto simp: dag_start_def dag_inv_def)
qed

lemma release_successors:
  assumes "distinct ss" "\<And>s. s \<in> set ss \<Longrightarrow> s < length rt \<and> 0 < indegree (rt ! s)"
  shows "fold_res release_successor ss rt =
    Ok (map (\<lambda>v. if v \<in> set ss
        then (rt ! v)\<lparr>indegree := indegree (rt ! v) - 1,
               ready_tx := ready_tx (rt ! v) \<and> indegree (rt ! v) \<noteq> 1\<rparr>
        else rt ! v) [0..<length rt])"
  using assms
proof (induction ss arbitrary: rt)
  case Nil
  then show ?case by (simp add: map_nth)
next
  case (Cons s ss)
  let ?rt = "rt[s := (rt ! s)\<lparr>indegree := indegree (rt ! s) - 1,
      ready_tx := ready_tx (rt ! s) \<and> indegree (rt ! s) \<noteq> 1\<rparr>]"
  have s: "s < length rt" "0 < indegree (rt ! s)" using Cons.prems(2) by auto
  have "release_successor s rt = Ok ?rt"
  proof (cases "indegree (rt ! s) = 1")
    case True
    then show ?thesis using s
      by (cases "ready_tx (rt ! s)") (auto simp: release_successor_def notify_ready_def Let_def)
  next
    case False
    then show ?thesis using s by (auto simp: release_successor_def Let_def)
  qed
  moreover have "fold_res release_successor ss ?rt =
      Ok (map (\<lambda>v. if v \<in> set ss
        then (?rt ! v)\<lparr>indegree := indegree (?rt ! v) - 1,
               ready_tx := ready_tx (?rt ! v) \<and> indegree (?rt ! v) \<noteq> 1\<rparr>
        else ?rt ! v) [0..<length ?rt])"
    using Cons.prems by (intro Cons.IH) (auto simp: nth_list_update)
  ultimately show ?case
    using Cons.prems(1) s by (auto intro!: nth_equalityI simp: nth_list_update)
qed

lemma dag_inv_finish:
  assumes "batch_ordered g" "dag_inv g True F rt" "v < length (nodes g)" "v \<notin> F"
  shows "\<exists>rt'. finish_vertex v rt = Ok rt' \<and> dag_inv g True (insert v F) rt'"
proof -
  let ?rt = "rt[v := (rt ! v)\<lparr>finished := True\<rparr>]"
  let ?ss = "sorted_list_of_set (nodes g ! v)"
  have inv: "length rt = length (nodes g)" "\<And>u. u < length rt \<Longrightarrow>
      rt ! u = \<lparr>indegree = card (preds g u - F), successors = nodes g ! u,
        ready_tx = (card (preds g u - F) \<noteq> 0), finished = (u \<in> F)\<rparr>"
    using assms(2) by (auto simp: dag_inv_def)
  have fin: "finite (nodes g ! v)" by (rule batch_ordered_finite [OF assms(1,3)])
  have succ: "s \<in> nodes g ! v \<Longrightarrow> s < length rt \<and> v < s" for s
    using batch_orderedD [OF assms(1,3)] inv(1) by auto
  have card: "card (preds g u - insert v F) = (if u \<in> nodes g ! v then card (preds g u - F) - 1
      else card (preds g u - F))" for u
  proof -
    have "preds g u - insert v F = (if u \<in> nodes g ! v then (preds g u - F) - {v} else preds g u - F)"
      using assms(3) by (auto simp: preds_def)
    moreover have "u \<in> nodes g ! v \<Longrightarrow> v \<in> preds g u - F" using assms(3,4) by (auto simp: preds_def)
    ultimately show ?thesis by simp
  qed
  have pos: "0 < card (preds g u - F)" if "u \<in> nodes g ! v" for u
    using that assms(3,4) by (auto simp: card_gt_0_iff preds_def)
  have released: "s < length ?rt \<and> 0 < indegree (?rt ! s)" if "s \<in> set ?ss" for s
  proof -
    have s: "s \<in> nodes g ! v" using that fin by simp
    then have "s < length rt" "s \<noteq> v" using succ by auto
    then show ?thesis using inv(2) [of s] pos [OF s] by simp
  qed
  let ?f = "\<lambda>u. if u \<in> set ?ss
      then (?rt ! u)\<lparr>indegree := indegree (?rt ! u) - 1,
             ready_tx := ready_tx (?rt ! u) \<and> indegree (?rt ! u) \<noteq> 1\<rparr>
      else ?rt ! u"
  have "fold_res release_successor ?ss ?rt = Ok (map ?f [0..<length ?rt])"
    by (rule release_successors) (use released in simp_all)
  moreover have "finish_vertex v rt = fold_res release_successor ?ss ?rt"
    using assms(3,4) inv by (simp add: finish_vertex_def)
  moreover have "dag_inv g True (insert v F) (map ?f [0..<length ?rt])"
    unfolding dag_inv_def
  proof (intro conjI allI impI)
    show "length (map ?f [0..<length ?rt]) = length (nodes g)" using inv(1) by simp
    fix u
    assume "u < length (map ?f [0..<length ?rt])"
    then have u: "u < length rt" by simp
    have "?rt ! u = \<lparr>indegree = card (preds g u - F), successors = nodes g ! u,
        ready_tx = (card (preds g u - F) \<noteq> 0), finished = (u \<in> insert v F)\<rparr>"
      using inv(2) [OF u] u by (cases "u = v") simp_all
    then show "map ?f [0..<length ?rt] ! u =
        \<lparr>indegree = card (preds g u - insert v F), successors = nodes g ! u,
         ready_tx = (True \<longrightarrow> card (preds g u - insert v F) \<noteq> 0), finished = (u \<in> insert v F)\<rparr>"
      using card [of u] pos [of u] fin u by (cases "u \<in> nodes g ! v") (auto simp del: card_0_eq)
  qed
  ultimately show ?thesis by auto
qed

end
