(* ===== verification/SccSound.thy ===== *)
theory SccSound
  imports SccDag
begin

text \<open>
  Soundness of the semantic conflict tables of \<open>src/scc.rs\<close>. Two operations the tables call free
  of conflict may share a parent directory, whose \<open>child_count\<close> both change. The lemmas show that
  a successful operation leaves everything a non-conflicting later one depends on, so the later
  one has the same result on the stale state, and that the delta it computed there, applied to the
  current state, is its effect on the current state.
\<close>

lemma valid_primary_target: "valid_op o' \<Longrightarrow> valid_key (primary_target o')"
  by (cases o') auto

section \<open>Similar states\<close>

text \<open>Plain operations name one path other than the root; the tables let nothing else commute.\<close>

definition plain :: "fs_op \<Rightarrow> bool" where
  "plain o' \<longleftrightarrow> \<not> is_rename o' \<and> primary_target o' \<noteq> root"

fun is_stat :: "fs_op \<Rightarrow> bool" where
  "is_stat (Stat _) = True"
| "is_stat _ = False"

fun same_kind :: "inode option \<Rightarrow> inode option \<Rightarrow> bool" where
  "same_kind None None \<longleftrightarrow> True"
| "same_kind (Some i) (Some j) \<longleftrightarrow> kind i = kind j"
| "same_kind _ _ \<longleftrightarrow> False"

definition similar :: "fs_op \<Rightarrow> fs_state \<Rightarrow> fs_state \<Rightarrow> bool" where
  "similar o' s t \<longleftrightarrow>
     (if plain o'
      then s (primary_target o') = t (primary_target o') \<and>
           (is_stat o' \<or> same_kind (s (parent_of (primary_target o'))) (t (parent_of (primary_target o'))))
      else (\<forall>k \<in> op_reads o'. s k = t k))"

lemma same_kind_refl [simp]: "same_kind v v"
  by (cases v) auto

lemma same_kind_trans: "same_kind u v \<Longrightarrow> same_kind v w \<Longrightarrow> same_kind u w"
  by (cases u; cases v; cases w) auto

lemma similar_refl [simp]: "similar o' s s"
  by (simp add: similar_def)

lemma similar_trans: "similar o' s t \<Longrightarrow> similar o' t u \<Longrightarrow> similar o' s u"
  by (auto simp: similar_def intro: same_kind_trans split: if_splits)

lemma same_kind_Some: "same_kind (Some i) v \<longleftrightarrow> (\<exists>j. v = Some j \<and> kind j = kind i)"
  by (cases v) auto

lemma same_kind_None: "same_kind None v \<longleftrightarrow> v = None"
  by (cases v) auto

lemma op_insert_similar:
  "same_kind (s (parent_of c)) (t (parent_of c)) \<Longrightarrow> s c = t c \<Longrightarrow>
     result (op_insert i c s) = result (op_insert i c t)"
  by (cases "s (parent_of c)") (auto simp: op_insert_def same_kind_Some same_kind_None)

lemma op_remove_similar:
  "same_kind (s (parent_of c)) (t (parent_of c)) \<Longrightarrow> s c = t c \<Longrightarrow>
     result (op_remove f c s) = result (op_remove f c t)"
  by (cases "s (parent_of c)")
    (auto simp: op_remove_def same_kind_Some same_kind_None split: option.splits)

lemma op_result_similar:
  assumes "valid_op o'" "similar o' s t" shows "op_result o' s = op_result o' t"
proof (cases "plain o'")
  case True
  then show ?thesis using assms(2)
    by (cases o') (auto simp: similar_def plain_def op_result_def op_insert_similar op_remove_similar
        cong: op_insert_similar op_remove_similar)
next
  case False
  then show ?thesis using assms op_output_cong [of o' s t]
    by (simp add: similar_def op_result_def)
qed

section \<open>Non-conflicting predecessors\<close>

lemma no_conflict_plain:
  assumes "\<not> ops_conflict a b" "valid_op a" "valid_op b"
  shows "plain a" "plain b"
  using assms
  by (auto simp: ops_conflict_def conflict_mask_of_def plain_def as_str_root_iff no_conflict_def
      Let_def mask_values split: if_splits)

text \<open>Unless both only read, the two targets are unrelated but for a common parent.\<close>

lemma no_conflict_targets:
  assumes "\<not> ops_conflict a b" "valid_op a" "valid_op b" "\<not> (is_stat a \<and> is_stat b)"
  shows "primary_target a \<noteq> primary_target b" "primary_target a \<noteq> parent_of (primary_target b)"
    "parent_of (primary_target a) \<noteq> primary_target b"
proof -
  let ?x = "primary_target a" and ?y = "primary_target b"
  have pl: "plain a" "plain b" by (rule no_conflict_plain [OF assms(1-3)])+
  have stat: "predicted_path o' = StatSuccess \<longleftrightarrow> is_stat o'" for o' by (cases o') auto
  have v: "valid_key ?x" "valid_key ?y" using assms(2,3) by (simp_all add: valid_primary_target)
  have r: "?x \<noteq> root" "?y \<noteq> root" "\<not> is_rename a" "\<not> is_rename b" using pl by (auto simp: plain_def)
  have p: "parent ?x = Ok (parent_of ?x)" "parent ?y = Ok (parent_of ?y)"
    using parent_parent_of v r by auto
  have mask: "conflict_mask_of a b =
      (if ?x = ?y then Ok SAME_TARGET
       else if ?x = parent_of ?y then Ok LHS_TARGET_IS_RHS_PARENT
       else if is_strict_ancestor ?x ?y \<or> is_strict_ancestor ?y ?x then Ok ANCESTOR_DESCENDANT
       else if parent_of ?x = parent_of ?y then Ok SAME_PARENT_DIFFERENT_TARGET
       else Ok INDEPENDENT_SUBTREE)"
    using r p by (simp add: conflict_mask_of_def as_str_root_iff Let_def)
  have anc: "is_strict_ancestor (parent_of ?x) ?x" by (rule parent_of_strict_ancestor [OF v(1) r(1)])
  show "?x \<noteq> ?y" "?x \<noteq> parent_of ?y" "parent_of ?x \<noteq> ?y"
    using assms(1,4) anc unfolding ops_conflict_def mask
    by (auto simp: no_conflict_def mask_values stat split: if_splits)
qed

lemma op_apply_plain_parent:
  assumes "plain a" "op_result a s = TxOk" "\<not> is_stat a" "parent_of (primary_target a) \<noteq> primary_target a"
  shows "same_kind (s (parent_of (primary_target a))) (op_apply a s (parent_of (primary_target a)))"
  using assms
  by (cases a) (auto simp: plain_def op_apply_def op_result_def op_Ok op_insert_Ok(2) op_remove_Ok(2)
      same_kind_Some)

lemma plain_op_writes:
  "plain a \<Longrightarrow> op_writes a = (if is_stat a then {} else {parent_of (primary_target a), primary_target a})"
  by (cases a) (auto simp: plain_def)

lemma no_conflict_similar:
  assumes "\<not> ops_conflict a b" "valid_op a" "valid_op b" "op_result a s = TxOk"
  shows "similar b s (op_apply a s)"
proof (cases "is_stat a")
  case True
  then have "op_apply a s = s" by (cases a) (auto simp: op_apply_def)
  then show ?thesis by simp
next
  case False
  let ?x = "primary_target a" and ?y = "primary_target b"
  have pl: "plain a" "plain b" by (rule no_conflict_plain [OF assms(1-3)])+
  note t = no_conflict_targets [OF assms(1-3)]
  have w: "op_writes a = {parent_of ?x, ?x}" using plain_op_writes [OF pl(1)] False by simp
  have "op_apply a s ?y = s ?y"
    using t False by (intro op_apply_other) (auto simp: w)
  moreover have "same_kind (s (parent_of ?y)) (op_apply a s (parent_of ?y))"
  proof (cases "parent_of ?y = parent_of ?x")
    case True
    have "valid_key ?x" "?x \<noteq> root"
      using valid_primary_target [OF assms(2)] pl(1) by (auto simp: plain_def)
    then show ?thesis
      using op_apply_plain_parent [OF pl(1) assms(4) False] parent_of_neq unfolding True by simp
  next
    case False
    then have "parent_of ?y \<notin> op_writes a" using t(2) \<open>\<not> is_stat a\<close> by (auto simp: w)
    then show ?thesis by (simp add: op_apply_other)
  qed
  ultimately show ?thesis using pl(2) by (simp add: similar_def)
qed

text \<open>A run of successful operations none of which conflicts with \<open>b\<close>.\<close>

fun run_ok :: "fs_op list \<Rightarrow> fs_state \<Rightarrow> bool" where
  "run_ok [] s = True"
| "run_ok (a # as) s = (op_result a s = TxOk \<and> run_ok as (op_apply a s))"

definition run_ops :: "fs_op list \<Rightarrow> fs_state \<Rightarrow> fs_state" where
  "run_ops as s = fold op_apply as s"

lemma run_ops_simps [simp]:
  "run_ops [] s = s" "run_ops (a # as) s = run_ops as (op_apply a s)"
  "run_ops (as @ bs) s = run_ops bs (run_ops as s)"
  by (simp_all add: run_ops_def)

lemma run_ok_append [simp]: "run_ok (as @ bs) s \<longleftrightarrow> run_ok as s \<and> run_ok bs (run_ops as s)"
  by (induction as arbitrary: s) auto

lemma run_similar:
  assumes "\<And>a. a \<in> set as \<Longrightarrow> valid_op a \<and> \<not> ops_conflict a b" "valid_op b" "run_ok as s"
  shows "similar b s (run_ops as s)"
  using assms
proof (induction as arbitrary: s)
  case (Cons a as)
  have "similar b s (op_apply a s)" using Cons.prems by (intro no_conflict_similar) auto
  moreover have "similar b (op_apply a s) (run_ops as (op_apply a s))" using Cons by simp
  ultimately show ?case by (simp add: similar_trans)
qed simp

section \<open>The delta of an operation\<close>

text \<open>Room: no directory count in the state can wrap, which holds in every tree of fewer than
  \<open>2 ^ 64\<close> paths.\<close>

lemma tree_count_incr:
  assumes "tree_inv s" "card (dom s) < 2 ^ 64" "s k = Some i"
  shows "1 + child_count i \<noteq> 0"
proof -
  have "Suc (unat (child_count i)) \<le> card (dom s)"
    using card_children_less [OF assms(1,3)] tree_invD(5) [OF assms(1,3)] by (simp only:)
  then have "Suc (unat (child_count i)) < 2 ^ 64" using assms(2) by (rule le_less_trans)
  moreover have "LENGTH(64) = 64" by simp
  ultimately have "unat (child_count i + 1) = Suc (unat (child_count i))"
    by (intro unat_add_1_no_overflow) (simp only:)
  then show ?thesis by (metis add.commute unat_0 nat.distinct(1))
qed

lemma uint_incr: "1 + c \<noteq> 0 \<Longrightarrow> uint (c + 1) = uint c + 1" for c :: u64
  using unatSuc [of c] by (simp add: uint_nat add.commute del: of_nat_unat)

lemma uint_decr: "c \<noteq> 0 \<Longrightarrow> uint (c - 1) = uint c - 1" for c :: u64
  using uint_incr [of "c - 1"] by simp

lemma decr_nonzero: "c \<noteq> 0 \<Longrightarrow> saturating_sub c 1 = c - 1" for c :: u64
  by (simp add: saturating_sub_def word_le_nat_alt unat_gt_0 Suc_le_eq)

lemma delta_fits_incr: "1 + child_count i \<noteq> 0 \<Longrightarrow> delta_fits (Some i) (Some (incr_children i))"
  using uint_incr [of "child_count i"] by (simp add: incr_children_def)

lemma delta_fits_decr: "delta_fits (Some i) (Some (decr_children i))"
proof (cases "child_count i = 0")
  case True
  then have "decr_children i = i" by (simp add: decr_children_def saturating_sub_def)
  then show ?thesis by simp
next
  case False
  then show ?thesis using uint_decr [of "child_count i"] by (simp add: decr_children_def decr_nonzero)
qed

text \<open>The written values of a successful operation, key by key.\<close>

definition child_change :: "inode option \<Rightarrow> inode option \<Rightarrow> bool" where
  "child_change u v \<longleftrightarrow> v = u \<or> u = None \<or> v = None \<or>
     (\<exists>i. u = Some i \<and> kind i = Directory \<and> (v = Some (incr_children i) \<or> v = Some (decr_children i)))"

lemma child_changeI [simp]:
  "child_change u u" "child_change None v" "child_change u None"
  "kind i = Directory \<Longrightarrow> child_change (Some i) (Some (incr_children i))"
  "kind i = Directory \<Longrightarrow> child_change (Some i) (Some (decr_children i))"
  by (simp_all add: child_change_def)

lemma child_change_insert:
  assumes "result (op_insert i c s) = TxOk"
  shows "child_change (s k) (apply_writes s (writes (op_insert i c s)) k)"
proof -
  obtain p where p: "s (parent_of c) = Some p" "kind p = Directory" "s c = None"
    using assms unfolding op_insert_Ok(1) by blast
  show ?thesis
    unfolding op_insert_Ok(2) [OF assms p(1)]
    using p by (cases "k = c"; cases "k = parent_of c") simp_all
qed

lemma child_change_remove:
  assumes "\<And>i. f i \<noteq> Some TxOk" "result (op_remove f c s) = TxOk"
  shows "child_change (s k) (apply_writes s (writes (op_remove f c s)) k)"
proof -
  obtain p where p: "s (parent_of c) = Some p" "kind p = Directory"
    using assms unfolding op_remove_Ok(1) [OF assms(1)] by blast
  show ?thesis
    unfolding op_remove_Ok(2) [OF assms p(1)]
    using p by (cases "k = c"; cases "k = parent_of c") simp_all
qed

lemma child_change_move:
  assumes "result (op_move a b s) = TxOk"
  shows "child_change (s k) (apply_writes s (writes (op_move a b s)) k)"
proof -
  obtain p q i where st: "s (parent_of a) = Some p" "s (parent_of b) = Some q" "s a = Some i"
      "s b = None" "kind p = Directory" "kind q = Directory"
    using assms unfolding op_move_Ok(1) by blast
  have v: "apply_writes s (writes (op_move a b s)) k =
      (if parent_of a \<noteq> parent_of b \<and> k = parent_of b then Some (incr_children q)
       else if parent_of a \<noteq> parent_of b \<and> k = parent_of a then Some (decr_children p)
       else if k = b then Some i else if k = a then None else s k)"
    unfolding op_move_Ok(2) [OF assms st(1-3)] by simp
  show ?thesis unfolding v using st by simp
qed

lemma op_apply_values:
  assumes "op_result o' s = TxOk" shows "child_change (s k) (op_apply o' s k)"
proof (cases o')
  case (Create c)
  then show ?thesis using assms
    by (simp add: op_apply_def op_result_def child_change_insert split: if_splits)
next
  case (Mkdir c)
  show ?thesis
  proof (cases "c = root")
    case True
    then show ?thesis using Mkdir assms
      by (simp add: op_apply_def op_result_def split: if_splits)
  next
    case False
    then show ?thesis using Mkdir assms
      by (simp add: op_apply_def op_result_def child_change_insert)
  qed
next
  case (Unlink c)
  then show ?thesis using assms
    by (simp add: op_apply_def op_result_def child_change_remove split: if_splits)
next
  case (Rmdir c)
  then show ?thesis using assms
    by (simp add: op_apply_def op_result_def child_change_remove split: if_splits)
next
  case (Rename a b)
  then show ?thesis using assms
    by (simp add: op_apply_def op_result_def child_change_move split: if_splits)
next
  case (Stat c)
  then show ?thesis by (simp add: op_apply_def)
qed

lemma child_change_cases:
  assumes "child_change u v"
  obtains "v = u" | "u = None" | "v = None"
    | i where "u = Some i" "v = Some (incr_children i)"
    | i where "u = Some i" "v = Some (decr_children i)"
  using assms unfolding child_change_def by (elim disjE exE conjE) simp_all

lemma op_delta_fits:
  assumes "tree_inv s" "card (dom s) < 2 ^ 64" "op_result o' s = TxOk"
  shows "delta_fits (s k) (op_apply o' s k)"
proof -
  have same: "delta_fits v v" for v by (cases v) auto
  have none: "delta_fits None v" "delta_fits v None" for v by (cases v; simp)+
  from op_apply_values [OF assms(3), of k] show ?thesis
  proof (cases rule: child_change_cases)
    case 1
    then show ?thesis by (simp only: same)
  next
    case 2
    then show ?thesis by (simp only: none)
  next
    case 3
    then show ?thesis by (simp only: none)
  next
    case (4 i)
    show ?thesis unfolding 4 by (rule delta_fits_incr [OF tree_count_incr [OF assms(1,2) 4(1)]])
  next
    case (5 i)
    show ?thesis unfolding 5 by (rule delta_fits_decr)
  qed
qed

lemma op_delta_exists:
  assumes "tree_inv s" "card (dom s) < 2 ^ 64" "valid_tx tx" "op_result (op tx) s = TxOk"
  shows "\<exists>d. output_to_delta tx (reads_of s (read_set tx)) (op_output (op tx) s) = Ok d"
proof -
  let ?out = "op_output (op tx) s" and ?r = "state_of_reads (reads_of s (read_set tx))"
  note sets = valid_tx_sets [OF assms(3)]
  have W: "write_key ` set (writes ?out) \<subseteq> write_set tx"
    using op_output_writes assms(3) by (auto simp: valid_tx_iff)
  have "delta_fits (?r k) (apply_writes ?r (writes ?out) k)" if "k \<in> write_set tx" for k
  proof -
    have "?r k = s k" using that sets(4) by (auto intro: state_of_reads_of)
    then show ?thesis
      using op_delta_fits [OF assms(1,2,4), of k] apply_writes_cong [of ?r k s]
      by (simp add: op_apply_def)
  qed
  then show ?thesis
    using output_to_delta_Ok_iff [of ?out tx "reads_of s (read_set tx)"
        "\<lparr>delta_ops = concat (map (\<lambda>k. delta_between k (?r k) (apply_writes ?r (writes ?out) k))
           (sorted_list_of_set (write_set tx)))\<rparr>"] assms(4) sets W
    by (auto simp: op_result_def)
qed

text \<open>The ops of the delta, on the state itself.\<close>

lemma op_delta_key_ops:
  assumes "valid_tx tx" "op_result (op tx) s = TxOk"
    "output_to_delta tx (reads_of s (read_set tx)) (op_output (op tx) s) = Ok d"
  shows "key_ops k (delta_ops d) = delta_between k (s k) (op_apply (op tx) s k)"
proof -
  let ?out = "op_output (op tx) s" and ?r = "state_of_reads (reads_of s (read_set tx))"
  note sets = valid_tx_sets [OF assms(1)]
  have W: "write_key ` set (writes ?out) \<subseteq> write_set tx"
    using op_output_writes assms(1) by (auto simp: valid_tx_iff)
  have same: "delta_between k v v = []" for v by (cases v) auto
  have eq: "key_ops k (delta_ops d) = delta_between k (?r k) (apply_writes ?r (writes ?out) k)"
    using assms sets W by (intro output_to_delta_key_ops) (auto simp: op_result_def)
  show ?thesis
  proof (cases "k \<in> write_set tx")
    case True
    then have "?r k = s k" using sets(4) by (auto intro: state_of_reads_of)
    then show ?thesis unfolding eq op_apply_def by (metis apply_writes_cong)
  next
    case False
    then have "k \<notin> write_key ` set (writes ?out)" using W by auto
    then show ?thesis unfolding eq by (simp add: same op_apply_def apply_writes_other)
  qed
qed

lemma apply_incr_delta:
  assumes "kind i = Directory" "kind j = Directory" "1 + child_count j \<noteq> 0"
  shows "fold_res apply_value (delta_between k (Some i) (Some (incr_children i))) (Some j) =
    Ok (Some (incr_children j))"
proof -
  have "apply_signed_delta (child_count j) 1 = Some (child_count j + 1)"
    using uint_incr [OF assms(3)] by (simp add: apply_signed_delta_Some_iff)
  moreover have "delta_between k (Some i) (Some (incr_children i)) = [AddIntegerField k ChildCount 1]"
    using assms(1) by (simp add: inode_eq_iff)
  ultimately show ?thesis using assms(2) by (simp add: incr_children_def)
qed

lemma apply_decr_delta:
  assumes "kind i = Directory" "kind j = Directory" "child_count i \<noteq> 0" "child_count j \<noteq> 0"
  shows "fold_res apply_value (delta_between k (Some i) (Some (decr_children i))) (Some j) =
    Ok (Some (decr_children j))"
proof -
  have "apply_signed_delta (child_count j) (- 1) = Some (child_count j - 1)"
    using uint_decr [OF assms(4)] by (simp add: apply_signed_delta_Some_iff)
  moreover have "delta_between k (Some i) (Some (decr_children i)) = [AddIntegerField k ChildCount (- 1)]"
    using assms(1,3) by (simp add: inode_eq_iff decr_children_def decr_nonzero)
  ultimately show ?thesis using assms(2,4) by (simp add: decr_children_def decr_nonzero)
qed

section \<open>Stale deltas\<close>

text \<open>The effect of a plain operation: the update of the parent and the new value of the target.\<close>

fun parent_update :: "fs_op \<Rightarrow> inode \<Rightarrow> inode" where
  "parent_update (Create _) = incr_children"
| "parent_update (Mkdir _) = incr_children"
| "parent_update _ = decr_children"

fun target_value :: "fs_op \<Rightarrow> inode option" where
  "target_value (Create _) = Some inode_file"
| "target_value (Mkdir _) = Some (inode_directory 0)"
| "target_value _ = None"

lemma plain_effect:
  assumes "plain o'" "\<not> is_stat o'" "op_result o' s = TxOk"
  obtains p where "s (parent_of (primary_target o')) = Some p" "kind p = Directory"
    "op_apply o' s = s(parent_of (primary_target o') \<mapsto> parent_update o' p, primary_target o' := target_value o')"
    "parent_update o' = decr_children \<Longrightarrow> s (primary_target o') \<noteq> None"
proof -
  have ni: "incr_children \<noteq> decr_children"
  proof
    assume "incr_children = decr_children"
    then have "child_count (incr_children inode_file) = child_count (decr_children inode_file)" by simp
    then show False by (simp add: decr_children_def saturating_sub_def inode_file_def)
  qed
  show thesis
  proof (cases o')
    case (Create c)
    then show ?thesis using assms that ni
      by (fastforce simp: plain_def op_result_def op_apply_def op_insert_Ok)
  next
    case (Mkdir c)
    then show ?thesis using assms that ni
      by (fastforce simp: plain_def op_result_def op_apply_def op_insert_Ok)
  next
    case (Unlink c)
    then show ?thesis using assms that
      by (fastforce simp: plain_def op_result_def op_apply_def op_remove_Ok)
  next
    case (Rmdir c)
    then show ?thesis using assms that
      by (fastforce simp: plain_def op_result_def op_apply_def op_remove_Ok)
  qed (use assms in \<open>auto simp: plain_def\<close>)
qed

lemma delta_between_refl [simp]: "delta_between k v v = []"
  by (cases v) auto

lemma parent_update_cases: "parent_update o' = incr_children \<or> parent_update o' = decr_children"
  by (cases o') auto

lemma tree_parent_count:
  assumes "tree_inv s" "s c \<noteq> None" "c \<noteq> root" "s (parent_of c) = Some p"
  shows "child_count p \<noteq> 0"
  using child_of_parent_counts [of s c _ p] assms by (auto simp: unat_gt_0)

lemma stale_plain_value:
  assumes pl: "plain o'" "\<not> is_stat o'" "valid_op o'"
    and sim: "similar o' s t" and ok: "op_result o' s = TxOk"
    and inv: "tree_inv s" "tree_inv t" and room: "card (dom t) < 2 ^ 64"
    and fits: "delta_fits (s k) (op_apply o' s k)"
  shows "fold_res apply_value (delta_between k (s k) (op_apply o' s k)) (t k) = Ok (op_apply o' t k)"
proof -
  let ?c = "primary_target o'" and ?p = "parent_of (primary_target o')"
  have c: "?c \<noteq> root" "?p \<noteq> ?c"
    using pl parent_of_neq valid_primary_target by (auto simp: plain_def)
  have okt: "op_result o' t = TxOk" using op_result_similar [OF pl(3) sim] ok by simp
  have sc: "s ?c = t ?c" using sim pl(1) by (simp add: similar_def)
  from plain_effect [OF pl(1,2) ok] obtain i where
    i: "s ?p = Some i" "kind i = Directory" and
    ei: "op_apply o' s = s(?p \<mapsto> parent_update o' i, ?c := target_value o')" and
    ri: "parent_update o' = decr_children \<Longrightarrow> s ?c \<noteq> None" by blast
  from plain_effect [OF pl(1,2) okt] obtain j where
    j: "t ?p = Some j" "kind j = Directory" and
    ej: "op_apply o' t = t(?p \<mapsto> parent_update o' j, ?c := target_value o')" by blast
  consider "k = ?c" | "k = ?p" | "k \<noteq> ?c" "k \<noteq> ?p" by blast
  then show ?thesis
  proof cases
    case 1
    have "op_apply o' s k = op_apply o' t k" using 1 by (simp add: ei ej)
    then show ?thesis using apply_delta_between_same [OF fits] 1 sc by simp
  next
    case 2
    have v: "op_apply o' s k = Some (parent_update o' i)" "op_apply o' t k = Some (parent_update o' j)"
      using 2 c by (simp_all add: ei ej)
    show ?thesis
    proof (cases "parent_update o' = incr_children")
      case True
      show ?thesis unfolding v unfolding True 2 i(1) j(1)
        by (rule apply_incr_delta [OF i(2) j(2) tree_count_incr [OF inv(2) room j(1)]])
    next
      case False
      then have d: "parent_update o' = decr_children" using parent_update_cases by blast
      have "child_count i \<noteq> 0" by (rule tree_parent_count [OF inv(1) ri [OF d] c(1) i(1)])
      moreover have "t ?c \<noteq> None" using ri [OF d] sc by simp
      then have "child_count j \<noteq> 0" by (rule tree_parent_count [OF inv(2) _ c(1) j(1)])
      ultimately show ?thesis unfolding v unfolding d 2 i(1) j(1) by (rule apply_decr_delta [OF i(2) j(2)])
    qed
  next
    case 3
    then show ?thesis by (simp add: ei ej)
  qed
qed

text \<open>
  The delta a transaction computed on a stale state \<open>s\<close>, applied to a similar current state \<open>t\<close>,
  has the effect of the operation on \<open>t\<close>.
\<close>

lemma stale_delta_applies:
  assumes tx: "valid_tx tx" and sim: "similar (op tx) s t" and ok: "op_result (op tx) s = TxOk"
    and inv: "tree_inv s" "tree_inv t" and room: "card (dom s) < 2 ^ 64" "card (dom t) < 2 ^ 64"
    and d: "output_to_delta tx (reads_of s (read_set tx)) (op_output (op tx) s) = Ok d"
  shows "fold_res apply_value (key_ops k (delta_ops d)) (t k) = Ok (op_apply (op tx) t k)"
proof -
  let ?o = "op tx"
  have v: "valid_op ?o" using tx by (simp add: valid_tx_iff)
  note fits = op_delta_fits [OF inv(1) room(1) ok, of k]
  show ?thesis
    unfolding op_delta_key_ops [OF tx ok d]
  proof (cases "plain ?o")
    case False
    then have eq: "\<forall>k \<in> op_reads ?o. s k = t k" using sim by (simp add: similar_def)
    show "fold_res apply_value (delta_between k (s k) (op_apply ?o s k)) (t k) = Ok (op_apply ?o t k)"
    proof (cases "k \<in> op_reads ?o")
      case True
      have "op_apply ?o s k = op_apply ?o t k"
        using op_output_cong [OF v, of s t] eq True unfolding op_apply_def by (metis apply_writes_cong)
      then show ?thesis using apply_delta_between_same [OF fits] eq True by simp
    next
      case False
      then have "k \<notin> op_writes ?o" using op_writes_subset by auto
      then show ?thesis by (simp add: op_apply_other)
    qed
  next
    case True
    show "fold_res apply_value (delta_between k (s k) (op_apply ?o s k)) (t k) = Ok (op_apply ?o t k)"
    proof (cases "is_stat ?o")
      case True
      then have "op_apply ?o s = s" "op_apply ?o t = t" by (cases ?o; simp add: op_apply_def)+
      then show ?thesis by simp
    next
      case False
      show ?thesis by (rule stale_plain_value [OF True False v sim ok inv room(2) fits])
    qed
  qed
qed

end
