(* ===== verification/SccRead.thy ===== *)
theory SccRead
  imports SccSound
begin

text \<open>
  The execution half of \<open>src/scc.rs\<close>: the commit sequence of a batch on a shard, the materialized
  local read of a transaction (the base values with the deltas of the prefix up to its last
  conflicting predecessor), and the condition check of a predicted path. Waiting is a value: a
  read that meets a pending slot returns \<open>None\<close>.
\<close>

section \<open>The commit sequence\<close>

datatype commit_slot_state = SlotPending | SlotNoOp | SlotDelta tx_delta | SlotFailed

type_synonym commit_sequence = "commit_slot_state list"

definition commit_sequence_new :: "nat \<Rightarrow> commit_sequence" where
  "commit_sequence_new batch_len = replicate batch_len SlotPending"

definition slot :: "commit_sequence \<Rightarrow> nat \<Rightarrow> commit_slot_state result" where
  "slot cs index =
     (if index < length cs then Ok (cs ! index)
      else Err (InvalidBatch ''commit slot index out of range''))"

text \<open>\<open>wait_terminal\<close> returns \<open>None\<close> while the slot is pending.\<close>

definition wait_terminal :: "commit_sequence \<Rightarrow> nat \<Rightarrow> commit_slot_state option result" where
  "wait_terminal cs index =
     rbind (slot cs index) (\<lambda>state. Ok (if state = SlotPending then None else Some state))"

definition set_terminal_once :: "nat \<Rightarrow> commit_slot_state \<Rightarrow> commit_sequence \<Rightarrow> commit_sequence result" where
  "set_terminal_once index state cs =
     (if state = SlotPending then Err (InvalidBatch ''commit slot cannot be set back to Pending'')
      else
        rbind (slot cs index) (\<lambda>old.
        if old \<noteq> SlotPending then Err (InvalidBatch ''commit slot terminal state was already set'')
        else Ok (cs[index := state])))"

definition terminal_snapshot :: "commit_sequence \<Rightarrow> commit_slot_state list" where
  "terminal_snapshot cs = cs"

section \<open>Materialized reads\<close>

datatype scc_phase = EffectPhase | ConditionPhase

definition project_base_reads :: "reads \<Rightarrow> key set \<Rightarrow> reads result" where
  "project_base_reads base_read_cache K =
     fold_res (\<lambda>k out. case base_read_cache k of
         None \<Rightarrow> Err (InvalidBatch ''base read cache missing local read key'')
       | Some v \<Rightarrow> Ok (out(k \<mapsto> v))) (sorted_list_of_set K) Map.empty"

fun materialize_prefix ::
    "key set \<Rightarrow> key set list \<Rightarrow> commit_sequence \<Rightarrow> nat list \<Rightarrow> fs_state \<Rightarrow> reads \<Rightarrow> reads option result" where
  "materialize_prefix K lw cs [] state materialized = Ok (Some materialized)"
| "materialize_prefix K lw cs (index # rest) state materialized =
     rbind (wait_terminal cs index) (\<lambda>w. case w of
       None \<Rightarrow> Ok None
     | Some SlotPending \<Rightarrow> Ok None
     | Some SlotFailed \<Rightarrow>
         Err (SpeculationFailed ''materialized read observed failed predecessor slot'')
     | Some SlotNoOp \<Rightarrow> materialize_prefix K lw cs rest state materialized
     | Some (SlotDelta delta) \<Rightarrow>
         if index \<ge> length lw then Err (InvalidBatch ''missing local write keys for tx index'')
         else if lw ! index \<inter> K \<noteq> {} then
           rbind (apply_delta_to_state state (filter_delta_to_keys delta K)) (\<lambda>state'.
           materialize_prefix K lw cs rest state' (state_to_read_values K state'))
         else materialize_prefix K lw cs rest state materialized)"

definition materialized_local_read ::
    "scc_tx_plan \<Rightarrow> scc_phase \<Rightarrow> key set \<Rightarrow> key set list \<Rightarrow> reads \<Rightarrow> commit_sequence
      \<Rightarrow> reads option result" where
  "materialized_local_read tx_plan phase K lw base_read_cache cs =
     rbind (project_base_reads base_read_cache K) (\<lambda>materialized.
     case (case phase of EffectPhase \<Rightarrow> effect_max_pred_index tx_plan
                       | ConditionPhase \<Rightarrow> condition_max_pred_index tx_plan) of
       None \<Rightarrow> Ok (Some materialized)
     | Some max_pred_index \<Rightarrow>
         materialize_prefix K lw cs [0..<Suc max_pred_index]
           (read_values_to_state materialized) materialized)"

section \<open>Conditions of the predicted paths\<close>

definition read_value_to_option_for_key :: "reads \<Rightarrow> key \<Rightarrow> inode option" where
  "read_value_to_option_for_key reads k =
     (case reads k of Some (Present i) \<Rightarrow> Some i | Some Missing \<Rightarrow> None | None \<Rightarrow> None)"

definition check_create_like :: "key \<Rightarrow> reads \<Rightarrow> node_kind \<Rightarrow> bool result" where
  "check_create_like path reads k =
     (if as_str path = ''/'' then Ok (reads path = Some Missing)
      else
        rbind (parent path) (\<lambda>p. case read_value_to_option_for_key reads p of
          None \<Rightarrow> Ok False
        | Some parent_inode \<Rightarrow>
            Ok (kind parent_inode = Directory \<and> read_value_to_option_for_key reads path = None)))"

definition check_unlink_success :: "key \<Rightarrow> reads \<Rightarrow> bool result" where
  "check_unlink_success path reads =
     (if as_str path = ''/'' then Ok False
      else
        rbind (parent path) (\<lambda>p. case read_value_to_option_for_key reads p of
          None \<Rightarrow> Ok False
        | Some parent_inode \<Rightarrow> (case read_value_to_option_for_key reads path of
            None \<Rightarrow> Ok False
          | Some target \<Rightarrow> Ok (kind parent_inode = Directory \<and> kind target = File))))"

definition check_rmdir_success :: "key \<Rightarrow> reads \<Rightarrow> bool result" where
  "check_rmdir_success path reads =
     (if as_str path = ''/'' then Ok False
      else
        rbind (parent path) (\<lambda>p. case read_value_to_option_for_key reads p of
          None \<Rightarrow> Ok False
        | Some parent_inode \<Rightarrow> (case read_value_to_option_for_key reads path of
            None \<Rightarrow> Ok False
          | Some target \<Rightarrow>
              Ok (kind parent_inode = Directory \<and> kind target = Directory \<and> child_count target = 0))))"

definition check_rename_success :: "key \<Rightarrow> key \<Rightarrow> reads \<Rightarrow> bool result" where
  "check_rename_success src dst reads =
     (if src = dst \<or> as_str src = ''/'' \<or> as_str dst = ''/'' then Ok False
      else if is_strict_ancestor src dst then Ok False
      else
        rbind (parent src) (\<lambda>sp. rbind (parent dst) (\<lambda>dp.
        case (read_value_to_option_for_key reads sp, read_value_to_option_for_key reads dp,
              read_value_to_option_for_key reads src) of
          (Some src_parent, Some dst_parent, Some src_inode) \<Rightarrow>
            Ok (kind src_parent = Directory \<and> kind dst_parent = Directory \<and>
                read_value_to_option_for_key reads dst = None \<and>
                (kind src_inode = File \<or> kind src_inode = Directory \<and> child_count src_inode = 0))
        | _ \<Rightarrow> Ok False)))"

definition check_success_path_condition :: "ordered_tx \<Rightarrow> path_id \<Rightarrow> reads \<Rightarrow> bool result" where
  "check_success_path_condition tx predicted reads =
     (if predicted \<noteq> predicted_path (op tx) then Ok False
      else (case op tx of
              Create path \<Rightarrow> check_create_like path reads File
            | Mkdir path \<Rightarrow> check_create_like path reads Directory
            | Unlink path \<Rightarrow> check_unlink_success path reads
            | Rmdir path \<Rightarrow> check_rmdir_success path reads
            | Rename src dst \<Rightarrow> check_rename_success src dst reads
            | Stat path \<Rightarrow> Ok (read_value_to_option_for_key reads path \<noteq> None)))"

text \<open>
  On covered reads the condition is that the operation succeeds, with two exceptions: it also
  refuses a rename below the source, which the executor performs, and it would admit creating the
  root as a file, which the executor refuses.
\<close>

lemma read_value_to_option_for_key_eq [simp]:
  "read_value_to_option_for_key reads k = state_of_reads reads k"
  by (simp add: read_value_to_option_for_key_def state_of_reads_def split: option.split read_value.split)

lemma reads_missing_iff:
  "k \<in> dom reads \<Longrightarrow> reads k = Some Missing \<longleftrightarrow> state_of_reads reads k = None"
  by (auto simp: state_of_reads_def split: option.split read_value.split)

lemma node_kind_simps [simp]: "k \<noteq> Directory \<longleftrightarrow> k = File" "k \<noteq> File \<longleftrightarrow> k = Directory"
  by (cases k; simp)+

lemma check_insert_iff:
  assumes "valid_key p" "p \<noteq> root"
  shows "check_create_like p reads k =
    Ok (result (op_insert i p (state_of_reads reads)) = TxOk)"
  using parent_parent_of [OF assms] assms(2)
  by (auto simp: check_create_like_def as_str_root_iff op_insert_Ok(1) split: option.split)

lemma check_remove_iff:
  assumes "valid_key p" "p \<noteq> root"
  shows "check_unlink_success p reads = Ok (result (op_remove unlink_refusal p (state_of_reads reads)) = TxOk)"
    "check_rmdir_success p reads = Ok (result (op_remove rmdir_refusal p (state_of_reads reads)) = TxOk)"
  using parent_parent_of [OF assms] assms(2)
  by (auto simp: check_unlink_success_def check_rmdir_success_def as_str_root_iff op_Ok
      split: option.split)

lemma check_move_iff:
  assumes "valid_key a" "valid_key b" "a \<noteq> root" "b \<noteq> root" "a \<noteq> b"
  shows "check_rename_success a b reads =
    Ok (result (op_move a b (state_of_reads reads)) = TxOk \<and> \<not> is_strict_ancestor a b)"
  using parent_parent_of [OF assms(1,3)] parent_parent_of [OF assms(2,4)] assms(3-5)
  by (auto simp: check_rename_success_def as_str_root_iff op_move_Ok(1) split: option.split)

lemma check_condition_iff:
  assumes "valid_tx tx" "read_set tx \<subseteq> dom reads" "op tx \<noteq> Create root"
  shows "check_success_path_condition tx (predicted_path (op tx)) reads =
    Ok (op_result (op tx) (state_of_reads reads) = TxOk \<and> \<not> moves_into_itself (op tx))"
proof (cases "op tx")
  case (Create p)
  then show ?thesis using assms
    by (simp add: check_success_path_condition_def check_insert_iff [of _ _ _ inode_file] op_result_def
        moves_into_itself_def valid_tx_iff)
next
  case (Mkdir p)
  then show ?thesis using assms
    by (auto simp: check_success_path_condition_def check_insert_iff [of _ _ _ "inode_directory 0"]
        op_result_def moves_into_itself_def valid_tx_iff check_create_like_def [of root]
        as_str_root_iff reads_missing_iff)
next
  case (Unlink p)
  then show ?thesis using assms
    by (cases "p = root") (auto simp: check_success_path_condition_def check_remove_iff op_result_def
        moves_into_itself_def valid_tx_iff check_unlink_success_def [of root] as_str_root_iff)
next
  case (Rmdir p)
  then show ?thesis using assms
    by (cases "p = root") (auto simp: check_success_path_condition_def check_remove_iff op_result_def
        moves_into_itself_def valid_tx_iff check_rmdir_success_def [of root] as_str_root_iff)
next
  case (Rename a b)
  show ?thesis
  proof (cases "a = b \<or> a = root \<or> b = root")
    case True
    then show ?thesis using Rename
      by (auto simp: check_success_path_condition_def op_result_def moves_into_itself_def
          check_rename_success_def as_str_root_iff)
  next
    case False
    then show ?thesis using Rename assms(1) check_move_iff [of a b reads]
      by (simp add: check_success_path_condition_def op_result_def moves_into_itself_def valid_tx_iff)
  qed
next
  case (Stat p)
  then show ?thesis using assms
    by (simp add: check_success_path_condition_def op_result_def moves_into_itself_def)
qed

section \<open>The materialized prefix\<close>

lemma project_base_reads_covered:
  assumes "finite K" "K \<subseteq> dom cache"
  shows "project_base_reads cache K = Ok (cache |` K)"
proof -
  have "fold_res (\<lambda>k out. case cache k of
         None \<Rightarrow> Err (InvalidBatch ''base read cache missing local read key'')
       | Some v \<Rightarrow> Ok (out(k \<mapsto> v))) ks m = Ok (\<lambda>k. if k \<in> set ks then cache k else m k)"
    if "set ks \<subseteq> dom cache" for ks m
    using that by (induction ks arbitrary: m) (auto simp: fun_eq_iff)
  from this [of "sorted_list_of_set K" Map.empty] assms show ?thesis
    by (simp add: project_base_reads_def restrict_map_def fun_eq_iff)
qed

text \<open>
  What a slot must hold for the prefix states \<open>S\<close>: on the keys \<open>K\<close>, slot \<open>k\<close> takes \<open>S k\<close> to
  \<open>S (k + 1)\<close>.
\<close>

definition slot_step :: "key set \<Rightarrow> key set \<Rightarrow> commit_slot_state \<Rightarrow> fs_state \<Rightarrow> fs_state \<Rightarrow> bool" where
  "slot_step K W c s t =
     (case c of
        SlotNoOp \<Rightarrow> (\<forall>k \<in> K. t k = s k)
      | SlotDelta d \<Rightarrow>
          (\<forall>k \<in> K. fold_res apply_value (key_ops k (delta_ops d)) (s k) = Ok (t k)) \<and>
          delta_key ` set (delta_ops d) \<subseteq> W
      | _ \<Rightarrow> False)"

lemma key_ops_outside: "delta_key ` set ds \<subseteq> W \<Longrightarrow> k \<notin> W \<Longrightarrow> key_ops k ds = []"
  by (auto simp: key_ops_def filter_empty_conv)

text \<open>The loop over terminal slots that have not failed keeps the state of the prefix on \<open>K\<close>.\<close>

lemma materialize_prefix_advance:
  assumes "\<And>k. k < f \<Longrightarrow> slot_step K (lw ! k) (cs ! k) (S k) (S (Suc k))"
    and "f \<le> n" "f \<le> length cs" "f \<le> length lw" "m \<le> f"
    and "\<And>k. k \<in> K \<Longrightarrow> st k = S m k" "mat = reads_of (S m) K"
  shows "\<exists>st'. (\<forall>k \<in> K. st' k = S f k) \<and>
    materialize_prefix K lw cs [m..<n] st mat = materialize_prefix K lw cs [f..<n] st' (reads_of (S f) K)"
  using assms(5-)
proof (induction "f - m" arbitrary: m st mat)
  case 0
  then have "m = f" by simp
  then show ?case using 0 by auto
next
  case (Suc x)
  then have mf: "m < f" by simp
  then have upt: "[m..<n] = m # [Suc m..<n]" using assms(2) by (simp add: upt_conv_Cons)
  have wt: "wait_terminal cs m = Ok (Some (cs ! m))"
    using assms(1) [OF mf] assms(3) mf by (auto simp: wait_terminal_def slot_def slot_step_def)
  note step = assms(1) [OF mf, unfolded slot_step_def]
  note IH = Suc.hyps(1) [of "Suc m"]
  show ?case
  proof (cases "cs ! m")
    case SlotNoOp
    then have same: "\<forall>k \<in> K. S (Suc m) k = S m k" using step by simp
    then have "reads_of (S (Suc m)) K = reads_of (S m) K" by (auto simp: reads_of_def fun_eq_iff)
    then show ?thesis
      using IH [of st mat] Suc.hyps(2) Suc.prems mf same SlotNoOp by (simp add: upt wt)
  next
    case (SlotDelta d)
    have d: "\<forall>k \<in> K. fold_res apply_value (key_ops k (delta_ops d)) (S m k) = Ok (S (Suc m) k)"
      and w: "delta_key ` set (delta_ops d) \<subseteq> lw ! m" using step SlotDelta by auto
    show ?thesis
    proof (cases "lw ! m \<inter> K = {}")
      case True
      have same: "S (Suc m) k = S m k" if k: "k \<in> K" for k
      proof -
        have "k \<notin> lw ! m" using True k by auto
        then show ?thesis using d [rule_format, OF k] key_ops_outside [OF w, of k] by simp
      qed
      then have "reads_of (S (Suc m)) K = reads_of (S m) K" by (auto simp: reads_of_def fun_eq_iff)
      then show ?thesis
        using IH [of st mat] Suc.hyps(2) Suc.prems mf True SlotDelta assms(4) same
        by (simp add: upt wt)
    next
      case False
      let ?st = "\<lambda>k. if k \<in> K then S (Suc m) k else st k"
      have "apply_delta_to_state st (filter_delta_to_keys d K) = Ok ?st"
        unfolding apply_delta_to_state_iff using d Suc.prems(2) by (auto simp: key_ops_filter)
      moreover have "reads_of ?st K = reads_of (S (Suc m)) K" by (auto simp: reads_of_def fun_eq_iff)
      ultimately show ?thesis
        using IH [of ?st "reads_of (S (Suc m)) K"] Suc.hyps(2) mf False SlotDelta assms(4)
        by (simp add: upt wt)
    qed
  qed (use step in simp_all)
qed

text \<open>
  The materialized read over slots that are pending or as expected: it waits at a pending slot,
  fails at a failed one, and otherwise returns the state after the prefix.
\<close>

lemma materialize_prefix_cases:
  assumes "\<And>k. k < n \<Longrightarrow> cs ! k = SlotPending \<or> cs ! k = E k"
    and "\<And>k. k < n \<Longrightarrow> E k \<noteq> SlotFailed \<Longrightarrow> slot_step K (lw ! k) (E k) (S k) (S (Suc k))"
    and "n \<le> length cs" "n \<le> length lw" "\<And>k. k \<in> K \<Longrightarrow> st k = S 0 k"
  shows "(\<exists>k < n. cs ! k = SlotPending) \<and>
      materialize_prefix K lw cs [0..<n] st (reads_of (S 0) K) = Ok None \<or>
    (\<exists>k < n. E k = SlotFailed) \<and>
      (\<exists>r. materialize_prefix K lw cs [0..<n] st (reads_of (S 0) K) = Err (SpeculationFailed r)) \<or>
    (\<forall>k < n. E k \<noteq> SlotFailed) \<and>
      materialize_prefix K lw cs [0..<n] st (reads_of (S 0) K) = Ok (Some (reads_of (S n) K))"
proof (cases "\<exists>k < n. cs ! k = SlotPending \<or> cs ! k = SlotFailed")
  case False
  then have E: "cs ! k = E k" "E k \<noteq> SlotFailed" if "k < n" for k using that assms(1) by metis+
  then have "slot_step K (lw ! k) (cs ! k) (S k) (S (Suc k))" if "k < n" for k
    using that assms(2) by metis
  from materialize_prefix_advance [OF this le_refl assms(3,4), of 0 st "reads_of (S 0) K"]
  have "materialize_prefix K lw cs [0..<n] st (reads_of (S 0) K) = Ok (Some (reads_of (S n) K))"
    using assms(5) by auto
  then show ?thesis using E by blast
next
  case True
  define f where "f = (LEAST k. k < n \<and> (cs ! k = SlotPending \<or> cs ! k = SlotFailed))"
  have f: "f < n" "cs ! f = SlotPending \<or> cs ! f = SlotFailed"
    using LeastI_ex [OF True] unfolding f_def by blast+
  have "\<not> (cs ! k = SlotPending \<or> cs ! k = SlotFailed)" if "k < f" for k
    using not_less_Least [of k "\<lambda>k. k < n \<and> (cs ! k = SlotPending \<or> cs ! k = SlotFailed)"] that f(1)
    unfolding f_def by auto
  then have "slot_step K (lw ! k) (cs ! k) (S k) (S (Suc k))" if "k < f" for k
    using that assms(1,2) [of k] f(1) by force
  from materialize_prefix_advance [OF this, of f n 0 st "reads_of (S 0) K"] f(1) assms(3-5)
  obtain st' where st': "materialize_prefix K lw cs [0..<n] st (reads_of (S 0) K) =
      materialize_prefix K lw cs [f..<n] st' (reads_of (S f) K)" by auto
  have upt: "[f..<n] = f # [Suc f..<n]" using f(1) by (simp add: upt_conv_Cons)
  have len: "f < length cs" using f(1) assms(3) by simp
  from f(2) show ?thesis
  proof
    assume "cs ! f = SlotPending"
    then show ?thesis using f(1) st' upt len by (auto simp: wait_terminal_def slot_def)
  next
    assume failed: "cs ! f = SlotFailed"
    then have "E f = SlotFailed" using assms(1) f(1) by force
    moreover have "\<exists>r. materialize_prefix K lw cs [0..<n] st (reads_of (S 0) K) = Err (SpeculationFailed r)"
      using failed st' upt len by (simp add: wait_terminal_def slot_def)
    ultimately show ?thesis using f(1) by blast
  qed
qed

end
