(* ===== verification/SccRun.thy ===== *)
theory SccRun
  imports SccRead
begin

text \<open>
  What one batch computes under semantic concurrency control, independently of the interleaving:
  which transactions commit speculatively, the state after each prefix, and the commit slot every
  shard ends up with. The lemmas show that the committed transactions, in batch order, are a serial
  run in which each of them succeeds, and that the slots of a shard lead its keys from one prefix
  state to the next.
\<close>

abbreviation tx_at :: "batch \<Rightarrow> nat \<Rightarrow> ordered_tx" where
  "tx_at b i \<equiv> txs b ! i"

abbreviation parts :: "shard_layout \<Rightarrow> batch \<Rightarrow> nat \<Rightarrow> shard_id set" where
  "parts L b i \<equiv> p_all (participants_of L (tx_at b i))"

definition prefix_len :: "batch \<Rightarrow> nat \<Rightarrow> nat" where
  "prefix_len b i = (case max_pred b i of None \<Rightarrow> 0 | Some m \<Rightarrow> Suc m)"

definition committed_state :: "batch \<Rightarrow> fs_state \<Rightarrow> bool list \<Rightarrow> fs_state" where
  "committed_state b s0 os =
     run_ops (map (\<lambda>k. op (tx_at b k)) (filter (\<lambda>k. os ! k) [0..<length os])) s0"

text \<open>
  A transaction commits when no participant saw a failed transaction of its own in the prefix, and
  the operation succeeds on the state after the prefix.
\<close>

definition commits :: "shard_layout \<Rightarrow> batch \<Rightarrow> fs_state \<Rightarrow> bool list \<Rightarrow> nat \<Rightarrow> bool" where
  "commits L b s0 os i \<longleftrightarrow>
     (\<forall>k < prefix_len b i. os ! k \<or> parts L b k \<inter> parts L b i = {}) \<and>
     op_result (op (tx_at b i)) (committed_state b s0 (take (prefix_len b i) os)) = TxOk"

primrec scc_outcomes :: "shard_layout \<Rightarrow> batch \<Rightarrow> fs_state \<Rightarrow> nat \<Rightarrow> bool list" where
  "scc_outcomes L b s0 0 = []"
| "scc_outcomes L b s0 (Suc i) =
     scc_outcomes L b s0 i @ [commits L b s0 (scc_outcomes L b s0 i) i]"

definition scc_ok :: "shard_layout \<Rightarrow> batch \<Rightarrow> fs_state \<Rightarrow> nat \<Rightarrow> bool" where
  "scc_ok L b s0 i = commits L b s0 (scc_outcomes L b s0 i) i"

definition scc_state :: "shard_layout \<Rightarrow> batch \<Rightarrow> fs_state \<Rightarrow> nat \<Rightarrow> fs_state" where
  "scc_state L b s0 n = committed_state b s0 (scc_outcomes L b s0 n)"

lemma scc_outcomes_map: "scc_outcomes L b s0 n = map (scc_ok L b s0) [0..<n]"
  by (induction n) (simp_all add: scc_ok_def)

lemma scc_state_ops:
  "scc_state L b s0 n = run_ops (map (\<lambda>k. op (tx_at b k)) (filter (scc_ok L b s0) [0..<n])) s0"
proof -
  have "filter (\<lambda>k. map (scc_ok L b s0) [0..<n] ! k) [0..<n] = filter (scc_ok L b s0) [0..<n]"
    by (rule filter_cong) auto
  then show ?thesis by (simp add: scc_state_def committed_state_def scc_outcomes_map)
qed

lemma scc_state_0 [simp]: "scc_state L b s0 0 = s0"
  by (simp add: scc_state_ops)

lemma scc_state_Suc:
  "scc_state L b s0 (Suc n) =
     (if scc_ok L b s0 n then op_apply (op (tx_at b n)) (scc_state L b s0 n) else scc_state L b s0 n)"
  by (simp add: scc_state_ops)

lemma prefix_len_le: "prefix_len b i \<le> i"
  using max_pred_Some(1) [of b i] by (auto simp: prefix_len_def split: option.split)

lemma prefix_len_conflicts: "prefix_len b i \<le> k \<Longrightarrow> k < i \<Longrightarrow> \<not> conflicts b k i"
  using max_pred_Some(3) [of b i _ k] max_pred_None [of b i k]
  by (fastforce simp: prefix_len_def split: option.splits)

lemma scc_ok_iff:
  "scc_ok L b s0 i \<longleftrightarrow>
     (\<forall>k < prefix_len b i. scc_ok L b s0 k \<or> parts L b k \<inter> parts L b i = {}) \<and>
     op_result (op (tx_at b i)) (scc_state L b s0 (prefix_len b i)) = TxOk"
proof -
  have "take (prefix_len b i) (scc_outcomes L b s0 i) = scc_outcomes L b s0 (prefix_len b i)"
    using prefix_len_le [of b i] by (simp add: scc_outcomes_map take_map)
  moreover have "scc_outcomes L b s0 i ! k = scc_ok L b s0 k" if "k < prefix_len b i" for k
    using prefix_len_le [of b i] that by (simp add: scc_outcomes_map)
  ultimately show ?thesis unfolding scc_ok_def [of L b s0 i] commits_def scc_state_def by auto
qed

text \<open>The conditions on a batch and the state it starts from.\<close>

definition scc_batch :: "batch \<Rightarrow> fs_state \<Rightarrow> bool" where
  "scc_batch b s0 \<longleftrightarrow>
     (\<forall>t \<in> set (txs b). valid_tx t \<and> \<not> moves_into_itself (op t)) \<and>
     tree_inv s0 \<and> card (dom s0) + length (txs b) < 2 ^ 64"

lemma scc_batchD:
  assumes "scc_batch b s0" "i < length (txs b)"
  shows "valid_tx (tx_at b i)" "valid_op (op (tx_at b i))" "\<not> moves_into_itself (op (tx_at b i))"
  using assms by (auto simp: scc_batch_def valid_tx_iff)

lemma scc_state_tree:
  assumes "scc_batch b s0" "n \<le> length (txs b)"
  shows "tree_inv (scc_state L b s0 n)" "card (dom (scc_state L b s0 n)) < 2 ^ 64"
proof -
  have "tree_inv (scc_state L b s0 n) \<and> card (dom (scc_state L b s0 n)) \<le> card (dom s0) + n"
    using assms(2)
  proof (induction n)
    case (Suc n)
    let ?s = "scc_state L b s0 n"
    have IH: "tree_inv ?s" "card (dom ?s) \<le> card (dom s0) + n" using Suc by simp_all
    have room: "card (dom ?s) < 2 ^ 64"
      using IH(2) assms(1) Suc.prems unfolding scc_batch_def by linarith
    have "tree_inv (op_apply (op (tx_at b n)) ?s)"
      using scc_batchD [OF assms(1), of n] Suc.prems by (intro tree_inv_op_apply [OF IH(1)] room) auto
    moreover have "card (dom (op_apply (op (tx_at b n)) ?s)) \<le> card (dom s0) + Suc n"
      using dom_op_apply [OF tree_invD(1) [OF IH(1)], of "op (tx_at b n)"] IH(2) by linarith
    ultimately show ?case using IH by (simp add: scc_state_Suc)
  qed (use assms(1) in \<open>simp add: scc_batch_def\<close>)
  then show "tree_inv (scc_state L b s0 n)" "card (dom (scc_state L b s0 n)) < 2 ^ 64"
    using assms unfolding scc_batch_def by auto
qed

text \<open>The committed operations between two prefixes.\<close>

definition committed_between :: "shard_layout \<Rightarrow> batch \<Rightarrow> fs_state \<Rightarrow> nat \<Rightarrow> nat \<Rightarrow> fs_op list" where
  "committed_between L b s0 m n = map (\<lambda>k. op (tx_at b k)) (filter (scc_ok L b s0) [m..<n])"

lemma committed_between_Suc:
  "m \<le> n \<Longrightarrow> committed_between L b s0 m (Suc n) =
     committed_between L b s0 m n @ (if scc_ok L b s0 n then [op (tx_at b n)] else [])"
  by (simp add: committed_between_def)

lemma scc_state_run:
  "m \<le> n \<Longrightarrow> scc_state L b s0 n = run_ops (committed_between L b s0 m n) (scc_state L b s0 m)"
proof (induction n)
  case (Suc n)
  then show ?case
    by (cases "m = Suc n") (simp_all add: committed_between_Suc scc_state_Suc le_Suc_eq,
      simp_all add: committed_between_def)
qed (simp add: committed_between_def)

lemma scc_ok_current:
  assumes "scc_batch b s0" "i < length (txs b)" "scc_ok L b s0 i"
  shows "similar (op (tx_at b i)) (scc_state L b s0 (prefix_len b i)) (scc_state L b s0 i) \<and>
    op_result (op (tx_at b i)) (scc_state L b s0 i) = TxOk"
  using assms(2,3)
proof (induction i rule: less_induct)
  case (less i)
  let ?p = "prefix_len b i"
  have run: "run_ok (committed_between L b s0 ?p n) (scc_state L b s0 ?p)" if "?p \<le> n" "n \<le> i" for n
    using that
  proof (induction n)
    case (Suc n)
    show ?case
    proof (cases "?p \<le> n")
      case True
      have "op_result (op (tx_at b n)) (scc_state L b s0 n) = TxOk" if "scc_ok L b s0 n"
        using less.IH [of n] Suc.prems less.prems that by simp
      then show ?thesis
        using Suc True by (simp add: committed_between_Suc scc_state_run [OF True, symmetric])
    next
      case False
      then show ?thesis using Suc.prems by (simp add: committed_between_def)
    qed
  qed (simp add: committed_between_def)
  have eq: "scc_state L b s0 i = run_ops (committed_between L b s0 ?p i) (scc_state L b s0 ?p)"
    by (rule scc_state_run [OF prefix_len_le])
  have sim: "similar (op (tx_at b i)) (scc_state L b s0 ?p) (scc_state L b s0 i)"
    unfolding eq
  proof (rule run_similar)
    fix a
    assume "a \<in> set (committed_between L b s0 ?p i)"
    then obtain k where k: "?p \<le> k" "k < i" "a = op (tx_at b k)" by (auto simp: committed_between_def)
    then show "valid_op a \<and> \<not> ops_conflict a (op (tx_at b i))"
      using prefix_len_conflicts [of b i k] scc_batchD(2) [OF assms(1), of k] less.prems(1)
      by (simp add: conflicts_def)
  qed (use run [OF prefix_len_le] scc_batchD(2) [OF assms(1) less.prems(1)] in simp_all)
  moreover have "op_result (op (tx_at b i)) (scc_state L b s0 ?p) = TxOk"
    using less.prems(2) unfolding scc_ok_iff [of L b s0 i] by blast
  ultimately show ?case
    using op_result_similar [OF scc_batchD(2) [OF assms(1) less.prems(1)] sim] by simp
qed

section \<open>Deltas and slots\<close>

definition scc_delta :: "shard_layout \<Rightarrow> batch \<Rightarrow> fs_state \<Rightarrow> nat \<Rightarrow> tx_delta" where
  "scc_delta L b s0 i =
     (let s = scc_state L b s0 (prefix_len b i)
      in case output_to_delta (tx_at b i) (reads_of s (read_set (tx_at b i))) (op_output (op (tx_at b i)) s) of
           Ok d \<Rightarrow> d | Err _ \<Rightarrow> \<lparr>delta_ops = []\<rparr>)"

lemma scc_delta:
  assumes "scc_batch b s0" "i < length (txs b)" "scc_ok L b s0 i"
  shows "output_to_delta (tx_at b i)
      (reads_of (scc_state L b s0 (prefix_len b i)) (read_set (tx_at b i)))
      (op_output (op (tx_at b i)) (scc_state L b s0 (prefix_len b i))) = Ok (scc_delta L b s0 i)"
    "fold_res apply_value (key_ops k (delta_ops (scc_delta L b s0 i))) (scc_state L b s0 i k) =
      Ok (scc_state L b s0 (Suc i) k)"
proof -
  let ?s = "scc_state L b s0 (prefix_len b i)" and ?tx = "tx_at b i"
  have ok: "op_result (op ?tx) ?s = TxOk" using assms(3) unfolding scc_ok_iff [of L b s0 i] by blast
  have le: "prefix_len b i \<le> length (txs b)" using prefix_len_le [of b i] assms(2) by simp
  note tx = scc_batchD(1) [OF assms(1,2)]
  note s = scc_state_tree [OF assms(1) le, of L]
  note t = scc_state_tree [OF assms(1) less_imp_le [OF assms(2)], of L]
  obtain d where d: "output_to_delta ?tx (reads_of ?s (read_set ?tx)) (op_output (op ?tx) ?s) = Ok d"
    using op_delta_exists [OF s tx ok] by blast
  then have eq: "scc_delta L b s0 i = d" by (simp add: scc_delta_def Let_def)
  then show "output_to_delta ?tx (reads_of ?s (read_set ?tx)) (op_output (op ?tx) ?s) =
      Ok (scc_delta L b s0 i)" using d by simp
  show "fold_res apply_value (key_ops k (delta_ops (scc_delta L b s0 i))) (scc_state L b s0 i k) =
      Ok (scc_state L b s0 (Suc i) k)"
  proof -
    have sim: "similar (op ?tx) ?s (scc_state L b s0 i)" using scc_ok_current [OF assms] by blast
    have "scc_state L b s0 (Suc i) = op_apply (op ?tx) (scc_state L b s0 i)"
      using assms(3) by (simp add: scc_state_Suc)
    then show ?thesis
      using stale_delta_applies [OF tx sim ok s(1) t(1) s(2) t(2) d, of k] unfolding eq by (simp only:)
  qed
qed

definition slot_of_delta :: "tx_delta \<Rightarrow> commit_slot_state" where
  "slot_of_delta d = (if delta_ops d = [] then SlotNoOp else SlotDelta d)"

definition scc_slot :: "shard_layout \<Rightarrow> batch \<Rightarrow> fs_state \<Rightarrow> shard_id \<Rightarrow> nat \<Rightarrow> commit_slot_state" where
  "scc_slot L b s0 sh i =
     (if sh \<notin> parts L b i then SlotNoOp
      else if \<not> scc_ok L b s0 i then SlotFailed
      else slot_of_delta (filter_delta_to_keys (scc_delta L b s0 i) (local_write_keys L (tx_at b i) sh)))"

lemma delta_keys_filter: "delta_key ` set (delta_ops (filter_delta_to_keys d K)) \<subseteq> K"
  by (auto simp: filter_delta_to_keys_def)

text \<open>On the keys of its shard, a slot that has not failed leads from a prefix state to the next.\<close>

lemma scc_slot_step:
  assumes "scc_batch b s0" "i < length (txs b)" "\<And>k. k \<in> K \<Longrightarrow> shard_for_key L k = sh"
    and "scc_slot L b s0 sh i \<noteq> SlotFailed"
  shows "slot_step K (local_write_keys L (tx_at b i) sh) (scc_slot L b s0 sh i)
    (scc_state L b s0 i) (scc_state L b s0 (Suc i))"
proof -
  let ?tx = "tx_at b i" and ?W = "local_write_keys L (tx_at b i) sh"
  note tx = scc_batchD [OF assms(1,2)]
  have other: "scc_state L b s0 (Suc i) k = scc_state L b s0 i k" if "k \<in> K" "k \<notin> ?W" for k
  proof -
    have "k \<notin> op_writes (op ?tx)"
      using that assms(3) tx(1) by (auto simp: local_write_keys_def valid_tx_iff)
    then show ?thesis by (simp add: scc_state_Suc op_apply_other)
  qed
  show ?thesis
  proof (cases "sh \<in> parts L b i")
    case False
    then have "?W = {}"
      using local_lock_keys_participant [of L ?tx sh] by (auto simp: local_lock_keys_Un)
    then show ?thesis using False other by (simp add: scc_slot_def slot_step_def)
  next
    case True
    then have ok: "scc_ok L b s0 i" using assms(4) by (auto simp: scc_slot_def split: if_splits)
    let ?d = "filter_delta_to_keys (scc_delta L b s0 i) ?W"
    have step: "fold_res apply_value (key_ops k (delta_ops ?d)) (scc_state L b s0 i k) =
        Ok (scc_state L b s0 (Suc i) k)" if "k \<in> K" for k
      using scc_delta(2) [OF assms(1,2) ok, of k] other [OF that] by (simp add: key_ops_filter)
    have "scc_slot L b s0 sh i = slot_of_delta ?d" using True ok by (simp add: scc_slot_def)
    then show ?thesis
      using step delta_keys_filter [of "scc_delta L b s0 i" ?W]
      by (auto simp: slot_step_def slot_of_delta_def)
  qed
qed

end
