(* ===== verification/Registry.thy ===== *)
theory Registry
  imports Model "HOL-Library.Multiset"
begin

text \<open>
  The two registries of a shard in \<open>src/engine.rs\<close>: the mailboxes in which the reads of other shards
  wait for their worker, and the results that clients ask for. A mailbox is created by whoever comes
  first, the router of a message or the worker; the lemmas show that no message is lost or
  reordered either way, and that a removed batch leaves the mailboxes of other batches alone.
\<close>

section \<open>Mailboxes\<close>

record local_read_result =
  lrr_batch_id :: batch_id
  lrr_tx_id :: tx_id
  lrr_phase :: read_phase
  lrr_from_shard :: shard_id
  lrr_status :: local_read_status
  lrr_reads :: reads

type_synonym mailbox_key = "batch_id \<times> tx_id \<times> read_phase"

text \<open>
  The two ends of the channel of an entry: the messages that were sent into it, whether the receiver
  was taken out of the entry, and whether the taker has dropped it. The capacity of the channel is
  recorded; a sender would wait when that many messages are unread.
\<close>

record mailbox =
  mb_sent :: "local_read_result list"
  mb_taken :: bool
  mb_dropped :: bool
  mb_capacity :: nat

type_synonym mailbox_registry = "mailbox_key \<rightharpoonup> mailbox"

definition new_mailbox :: "nat \<Rightarrow> mailbox" where
  "new_mailbox capacity = \<lparr>mb_sent = [], mb_taken = False, mb_dropped = False, mb_capacity = capacity\<rparr>"

definition DEFAULT_MAILBOX_CAPACITY :: nat where
  "DEFAULT_MAILBOX_CAPACITY = 1024"

definition mailbox_registry_new :: mailbox_registry where
  "mailbox_registry_new = Map.empty"

definition entry_or_new :: "nat \<Rightarrow> mailbox option \<Rightarrow> mailbox" where
  "entry_or_new capacity e = (case e of Some m \<Rightarrow> m | None \<Rightarrow> new_mailbox capacity)"

text \<open>The entry stays in the registry on both paths, so the new registry is returned with the result.\<close>

definition receiver ::
    "batch_id \<Rightarrow> tx_id \<Rightarrow> read_phase \<Rightarrow> nat \<Rightarrow> mailbox_registry \<Rightarrow> unit result \<times> mailbox_registry" where
  "receiver bid tx phase capacity reg =
     (let entry = entry_or_new (max capacity 1) (reg (bid, tx, phase))
      in if mb_taken entry
         then (Err (InvalidBatch ''remote read receiver already taken''), reg((bid, tx, phase) \<mapsto> entry))
         else (Ok (), reg((bid, tx, phase) \<mapsto> entry\<lparr>mb_taken := True\<rparr>)))"

definition message_key :: "local_read_result \<Rightarrow> mailbox_key" where
  "message_key m = (lrr_batch_id m, lrr_tx_id m, lrr_phase m)"

definition route :: "local_read_result \<Rightarrow> mailbox_registry \<Rightarrow> unit result \<times> mailbox_registry" where
  "route m reg =
     (let entry = entry_or_new DEFAULT_MAILBOX_CAPACITY (reg (message_key m))
      in if mb_dropped entry
         then (Err (ChannelClosed ''remote read mailbox receiver is closed''), reg(message_key m \<mapsto> entry))
         else (Ok (), reg(message_key m \<mapsto> entry\<lparr>mb_sent := mb_sent entry @ [m]\<rparr>)))"

text \<open>A worker that ends drops the receiver it took.\<close>

definition drop_receiver :: "mailbox_key \<Rightarrow> mailbox_registry \<Rightarrow> mailbox_registry" where
  "drop_receiver k reg = reg(k := map_option (\<lambda>e. e\<lparr>mb_dropped := mb_taken e\<rparr>) (reg k))"

definition cleanup_batch :: "batch_id \<Rightarrow> mailbox_registry \<Rightarrow> mailbox_registry" where
  "cleanup_batch bid reg = (\<lambda>k. if fst k = bid then None else reg k)"

definition inbox :: "mailbox_registry \<Rightarrow> mailbox_key \<Rightarrow> local_read_result list" where
  "inbox reg k = (case reg k of None \<Rightarrow> [] | Some e \<Rightarrow> mb_sent e)"

definition open_mailbox :: "mailbox_registry \<Rightarrow> mailbox_key \<Rightarrow> bool" where
  "open_mailbox reg k \<longleftrightarrow> (case reg k of None \<Rightarrow> True | Some e \<Rightarrow> \<not> mb_dropped e)"

definition taken_mailbox :: "mailbox_registry \<Rightarrow> mailbox_key \<Rightarrow> bool" where
  "taken_mailbox reg k \<longleftrightarrow> (case reg k of None \<Rightarrow> False | Some e \<Rightarrow> mb_taken e)"

lemmas mailbox_defs = inbox_def open_mailbox_def taken_mailbox_def entry_or_new_def new_mailbox_def

lemma inbox_new [simp]:
  "inbox mailbox_registry_new k = []" "open_mailbox mailbox_registry_new k" "\<not> taken_mailbox mailbox_registry_new k"
  by (simp_all add: mailbox_defs mailbox_registry_new_def)

lemma receiver_result:
  "fst (receiver bid tx ph n reg) = Ok () \<longleftrightarrow> \<not> taken_mailbox reg (bid, tx, ph)"
  by (auto simp: receiver_def mailbox_defs Let_def split: option.splits)

lemma receiver_registry:
  "inbox (snd (receiver bid tx ph n reg)) k = inbox reg k"
  "open_mailbox (snd (receiver bid tx ph n reg)) k = open_mailbox reg k"
  "taken_mailbox (snd (receiver bid tx ph n reg)) k \<longleftrightarrow> taken_mailbox reg k \<or> k = (bid, tx, ph)"
  by (auto simp: receiver_def mailbox_defs Let_def split: option.splits)

lemma route_result: "fst (route m reg) = Ok () \<longleftrightarrow> open_mailbox reg (message_key m)"
  by (auto simp: route_def mailbox_defs Let_def split: option.splits)

lemma route_registry:
  "inbox (snd (route m reg)) k =
     inbox reg k @ (if k = message_key m \<and> open_mailbox reg k then [m] else [])"
  "open_mailbox (snd (route m reg)) k = open_mailbox reg k"
  "taken_mailbox (snd (route m reg)) k = taken_mailbox reg k"
  by (auto simp: route_def mailbox_defs Let_def split: option.splits)

lemma drop_receiver_registry:
  "inbox (drop_receiver q reg) k = inbox reg k"
  "taken_mailbox (drop_receiver q reg) k = taken_mailbox reg k"
  "open_mailbox (drop_receiver q reg) k =
     (if k = q then \<not> taken_mailbox reg k else open_mailbox reg k)"
  by (auto simp: drop_receiver_def mailbox_defs split: option.splits)

lemma cleanup_batch_registry:
  "inbox (cleanup_batch b reg) k = (if fst k = b then [] else inbox reg k)"
  "open_mailbox (cleanup_batch b reg) k \<longleftrightarrow> fst k = b \<or> open_mailbox reg k"
  "taken_mailbox (cleanup_batch b reg) k \<longleftrightarrow> fst k \<noteq> b \<and> taken_mailbox reg k"
  by (auto simp: cleanup_batch_def mailbox_defs)

text \<open>A list in which nothing occurs twice, as seen by its multiset.\<close>

lemma count_mset_notin [simp]: "x \<notin> set xs \<Longrightarrow> count (mset xs) x = 0"
  by (simp add: count_eq_zero_iff)

lemma distinct_if_count_le_1:
  assumes "\<And>x. count (mset xs) x \<le> 1" shows "distinct xs"
  using assms
proof (induction xs)
  case (Cons a xs)
  have "count (mset xs) x \<le> 1" for x using Cons.prems [of x] by (cases "x \<in> set xs") (auto split: if_splits)
  moreover have "a \<notin> set xs" using Cons.prems [of a] by (simp add: count_eq_zero_iff)
  ultimately show ?case using Cons.IH by simp
qed simp

section \<open>Client results\<close>

datatype client_tx_result_state = ResultPending | ResultReady tx_result | ResultNotResponsible

datatype client_tx_result = ClientReady tx_result | ClientNotResponsible

type_synonym tx_result_registry = "tx_id \<rightharpoonup> client_tx_result_state"

definition tx_result_registry_new :: tx_result_registry where
  "tx_result_registry_new = Map.empty"

definition ensure_pending :: "tx_id \<Rightarrow> tx_result_registry \<Rightarrow> tx_result_registry" where
  "ensure_pending tx reg = (case reg tx of Some _ \<Rightarrow> reg | None \<Rightarrow> reg(tx \<mapsto> ResultPending))"

definition registry_update :: "tx_id \<Rightarrow> client_tx_result_state \<Rightarrow> tx_result_registry \<Rightarrow> tx_result_registry" where
  "registry_update tx state reg = reg(tx \<mapsto> state)"

definition mark_ready :: "tx_id \<Rightarrow> tx_result \<Rightarrow> tx_result_registry \<Rightarrow> tx_result_registry" where
  "mark_ready tx r reg = registry_update tx (ResultReady r) reg"

definition mark_not_responsible :: "tx_id \<Rightarrow> tx_result_registry \<Rightarrow> tx_result_registry" where
  "mark_not_responsible tx reg = registry_update tx ResultNotResponsible reg"

text \<open>
  A call registers interest and looks at the state; while that is pending it waits for the next
  change, which is the value \<open>None\<close>.
\<close>

definition registry_wait :: "tx_id \<Rightarrow> tx_result_registry \<Rightarrow> client_tx_result option \<times> tx_result_registry" where
  "registry_wait tx reg =
     (let reg' = ensure_pending tx reg
      in ((case the (reg' tx) of
             ResultPending \<Rightarrow> None
           | ResultReady r \<Rightarrow> Some (ClientReady r)
           | ResultNotResponsible \<Rightarrow> Some ClientNotResponsible), reg'))"

lemmas registry_defs = ensure_pending_def registry_update_def mark_ready_def mark_not_responsible_def

lemma ensure_pending_apply:
  "ensure_pending tx reg t = (if t = tx \<and> reg t = None then Some ResultPending else reg t)"
  by (auto simp: ensure_pending_def split: option.splits)

lemma mark_apply:
  "mark_ready tx r reg t = (if t = tx then Some (ResultReady r) else reg t)"
  "mark_not_responsible tx reg t = (if t = tx then Some ResultNotResponsible else reg t)"
  by (simp_all add: registry_defs)

section \<open>Properties\<close>

text \<open>No message is lost or reordered by the mailboxes. Whatever messages arrive before and after
  the worker takes its receiver, its mailbox holds exactly those addressed to it, in the order of
  their arrival, and every one of them was accepted; a second worker for the same mailbox is refused.\<close>

theorem mailbox_keeps_messages:
  "let reg0 = fold (\<lambda>m reg. snd (route m reg)) early mailbox_registry_new;
       (taken, reg) = receiver bid tx phase capacity reg0;
       reg1 = fold (\<lambda>m reg. snd (route m reg)) late reg
   in taken = Ok () \<and>
      inbox reg1 (bid, tx, phase) = filter (\<lambda>m. message_key m = (bid, tx, phase)) (early @ late) \<and>
      (\<forall>m. fst (route m reg1) = Ok ()) \<and>
      (\<exists>e. fst (receiver bid tx phase capacity reg1) = Err (InvalidBatch e))"
proof -
  define k where k: "k = (bid, tx, phase)"
  define reg0 where reg0_def: "reg0 = fold (\<lambda>m reg. snd (route m reg)) early mailbox_registry_new"
  define reg1 where reg1_def: "reg1 = fold (\<lambda>m reg. snd (route m reg)) late (snd (receiver bid tx phase capacity reg0))"
  have many: "inbox (fold (\<lambda>m reg. snd (route m reg)) ms reg) k = inbox reg k @ filter (\<lambda>m. message_key m = k) ms \<and>
      open_mailbox (fold (\<lambda>m reg. snd (route m reg)) ms reg) = (\<lambda>q. True) \<and>
      taken_mailbox (fold (\<lambda>m reg. snd (route m reg)) ms reg) k = taken_mailbox reg k"
    if "open_mailbox reg = (\<lambda>q. True)" for ms reg
    using that
  proof (induction ms arbitrary: reg)
    case (Cons m ms)
    have "open_mailbox (snd (route m reg)) = (\<lambda>q. True)" using Cons.prems by (simp add: route_registry fun_eq_iff)
    from Cons.IH [OF this] show ?case by (simp add: route_registry Cons.prems)
  qed simp
  have 0: "inbox reg0 k = filter (\<lambda>m. message_key m = k) early" "open_mailbox reg0 = (\<lambda>q. True)" "\<not> taken_mailbox reg0 k"
    using many [of mailbox_registry_new early] by (simp_all add: reg0_def fun_eq_iff)
  let ?reg = "snd (receiver bid tx phase capacity reg0)"
  have 1: "inbox reg1 k = inbox ?reg k @ filter (\<lambda>m. message_key m = k) late" "open_mailbox reg1 = (\<lambda>q. True)"
    "taken_mailbox reg1 k"
    using many [of ?reg late] 0 k by (simp_all add: reg1_def receiver_registry fun_eq_iff)
  have "fst (receiver bid tx phase capacity reg1) \<noteq> Ok ()" using 1(3) k by (simp add: receiver_result)
  then have "\<exists>e. fst (receiver bid tx phase capacity reg1) = Err (InvalidBatch e)"
    by (auto simp: receiver_def Let_def split: if_splits)
  then show ?thesis
    using 0 1 k by (simp add: case_prod_beta receiver_result receiver_registry route_result
        flip: reg0_def reg1_def)
qed

text \<open>A client learns the result once it is there. After any sequence of updates of a registry a
  client call for a transaction waits exactly if the last update of that transaction left it
  pending or there was none; otherwise it answers with that last update, whether the call
  came before or after it.\<close>

theorem client_gets_last_update:
  "let reg = fold (\<lambda>(t, st). registry_update t st) updates (snd (registry_wait tx tx_result_registry_new))
   in registry_wait tx reg =
     ((case filter (\<lambda>u. fst u = tx) updates of [] \<Rightarrow> None
       | us \<Rightarrow> (case snd (last us) of ResultPending \<Rightarrow> None | ResultReady r \<Rightarrow> Some (ClientReady r)
                 | ResultNotResponsible \<Rightarrow> Some ClientNotResponsible)), reg)"
proof -
  define reg where reg_def:
    "reg = fold (\<lambda>(t, st). registry_update t st) updates (snd (registry_wait tx tx_result_registry_new))"
  have "fold (\<lambda>(t, st). registry_update t st) us r0 tx =
      (case filter (\<lambda>u. fst u = tx) us of [] \<Rightarrow> r0 tx | vs \<Rightarrow> Some (snd (last vs)))" for us r0
    by (induction us arbitrary: r0) (auto simp: registry_update_def split: list.splits)
  then have "reg tx = (case filter (\<lambda>u. fst u = tx) updates of [] \<Rightarrow> Some ResultPending
      | us \<Rightarrow> Some (snd (last us)))"
    by (simp add: reg_def registry_wait_def ensure_pending_def tx_result_registry_new_def Let_def split: list.split)
  then show ?thesis
    unfolding Let_def reg_def [symmetric]
    by (auto simp: registry_wait_def ensure_pending_def Let_def split: list.splits client_tx_result_state.splits)
qed

end
