(* ===== verification/SccWorker.thy ===== *)
theory SccWorker
  imports SccRun Registry "HOL-Library.Multiset"
begin

text \<open>
  The workers of a speculative batch, \<open>SccWorker\<close> and \<open>execute_scc_batch\<close> of \<open>src/engine.rs\<close>, as a
  transition system over all shards. A worker waits for its graph predecessors, materializes its
  local reads, exchanges them with the other participants, executes, and sets its commit slot; the
  coordinator of a shard releases the successors when a worker reports. Messages travel through a
  multiset and arrive in the mailbox of the receiving worker in any order. A worker that is done
  has dropped its receiver: a read that arrives then makes the sender's batch fail, unless it came
  between the setting of the slot and the drop, or after the receiving shard finished or aborted the
  batch and removed its mailboxes. A worker posts all its messages at once; in the code it sends
  them one by one and waits for each answer, so the runs of the code are runs of this relation.
\<close>

section \<open>Messages\<close>

text \<open>
  \<open>collect_scc_full_reads\<close> over the messages that arrived so far; \<open>None\<close> waits for the next one.
\<close>

fun collect_scc_loop ::
    "shard_layout \<Rightarrow> batch_id \<Rightarrow> ordered_tx \<Rightarrow> read_phase \<Rightarrow> shard_id set \<Rightarrow> reads \<Rightarrow> shard_id set
      \<Rightarrow> local_read_result list \<Rightarrow> reads option result" where
  "collect_scc_loop L bid tx phase expected full_reads received [] =
     (if card received < card expected then Ok None
      else if dom full_reads \<noteq> read_set tx then Err (InvalidBatch ''full read set mismatch'')
      else Ok (Some full_reads))"
| "collect_scc_loop L bid tx phase expected full_reads received (msg # msgs) =
     (if card received < card expected then
        if lrr_batch_id msg \<noteq> bid \<or> lrr_tx_id msg \<noteq> tx_id tx \<or> lrr_phase msg \<noteq> phase
        then Err (InvalidBatch ''SCC read result routed to wrong target'')
        else if lrr_from_shard msg \<notin> expected
        then Err (InvalidBatch ''unexpected SCC read result'')
        else if lrr_from_shard msg \<in> received
        then Err (InvalidBatch ''duplicate SCC read result'')
        else if lrr_status msg = StatusSpeculationFailed
        then Err (SpeculationFailed ''received speculation failure'')
        else if lrr_status msg \<noteq> StatusOk
        then Err (InvalidBatch ''invalid local read status'')
        else if dom (lrr_reads msg) \<noteq> local_read_keys L tx (lrr_from_shard msg)
        then Err (InvalidBatch ''read keys mismatch'')
        else if dom full_reads \<inter> dom (lrr_reads msg) \<noteq> {}
        then Err (InvalidBatch ''duplicate SCC full read key'')
        else collect_scc_loop L bid tx phase expected (full_reads ++ lrr_reads msg)
               (insert (lrr_from_shard msg) received) msgs
      else if dom full_reads \<noteq> read_set tx then Err (InvalidBatch ''full read set mismatch'')
      else Ok (Some full_reads))"

definition collect_scc_full_reads ::
    "shard_layout \<Rightarrow> batch_id \<Rightarrow> ordered_tx \<Rightarrow> shard_id \<Rightarrow> read_phase \<Rightarrow> reads
      \<Rightarrow> local_read_result list \<Rightarrow> reads option result" where
  "collect_scc_full_reads L bid tx sh phase local_reads msgs =
     (if phase \<noteq> SccEffect \<and> phase \<noteq> SccCondition
      then Err (InvalidBatch ''invalid SCC read phase'')
      else collect_scc_loop L bid tx phase (p_all (participants_of L tx) - {sh}) local_reads {} msgs)"

definition send_scc_read_result ::
    "shard_layout \<Rightarrow> shard_id set \<Rightarrow> batch_id \<Rightarrow> ordered_tx \<Rightarrow> shard_id \<Rightarrow> read_phase
      \<Rightarrow> local_read_status \<Rightarrow> reads \<Rightarrow> (shard_id \<times> local_read_result) list result" where
  "send_scc_read_result L peers bid tx sh phase status local_reads =
     traverse (\<lambda>target.
       if target \<notin> peers then Err (MissingPeer target)
       else Ok (target, \<lparr>lrr_batch_id = bid, lrr_tx_id = tx_id tx, lrr_phase = phase,
              lrr_from_shard = sh, lrr_status = status,
              lrr_reads = (if status = StatusOk then local_reads else Map.empty)\<rparr>))
       (filter (\<lambda>target. target \<noteq> sh) (sorted_list_of_set (p_all (participants_of L tx))))"

section \<open>Worker steps\<close>

text \<open>Execution on the full reads; \<open>None\<close> is a failed speculation.\<close>

definition scc_execute ::
    "shard_layout \<Rightarrow> shard_id \<Rightarrow> ordered_tx \<Rightarrow> scc_tx_plan \<Rightarrow> reads \<Rightarrow> tx_delta option result" where
  "scc_execute L sh tx tx_plan effect_full_reads =
     (let output = execute_deterministic tx effect_full_reads
      in if classify_actual_path tx output \<noteq> Some (plan_path tx_plan) then Ok None
         else rbind (output_to_delta tx effect_full_reads output) (\<lambda>full_delta.
              Ok (Some (filter_delta_to_keys full_delta (local_write_keys L tx sh)))))"

definition success_record :: "shard_layout \<Rightarrow> shard_id \<Rightarrow> ordered_tx \<Rightarrow> tx_result_record option" where
  "success_record L sh tx =
     (if sh \<in> p_active (participants_of L tx)
      then Some \<lparr>rec_tx_id = tx_id tx, rec_shard_id = sh, rec_result = TxOk\<rparr> else None)"

datatype worker_state =
    WEffectWait
  | WEffectCollect reads
  | WConditionWait tx_delta
  | WConditionCollect tx_delta reads
  | WDone "tx_result_record option"

record scc_system =
  slots :: "shard_id \<Rightarrow> commit_sequence"
  dags :: "shard_id \<Rightarrow> scc_dag_runtime"
  workers :: "shard_id \<Rightarrow> nat \<Rightarrow> worker_state"
  reported :: "shard_id \<Rightarrow> nat set"
  net :: "(shard_id \<times> local_read_result) multiset"
  mailboxes :: "shard_id \<Rightarrow> tx_id \<times> read_phase \<Rightarrow> local_read_result list"
  failed_shards :: "shard_id set"

record scc_params =
  layout :: shard_layout
  the_batch :: batch
  plan :: scc_batch_plan
  base_cache :: "shard_id \<Rightarrow> reads"
  peers :: "shard_id set"

definition set_worker :: "shard_id \<Rightarrow> nat \<Rightarrow> worker_state \<Rightarrow> scc_system \<Rightarrow> scc_system" where
  "set_worker sh i w c = c\<lparr>workers := (workers c)(sh := (workers c sh)(i := w))\<rparr>"

definition set_slots :: "shard_id \<Rightarrow> commit_sequence \<Rightarrow> scc_system \<Rightarrow> scc_system" where
  "set_slots sh cs c = c\<lparr>slots := (slots c)(sh := cs)\<rparr>"

definition post :: "(shard_id \<times> local_read_result) list \<Rightarrow> scc_system \<Rightarrow> scc_system" where
  "post ms c = c\<lparr>net := net c + mset ms\<rparr>"

definition tx_of_params :: "scc_params \<Rightarrow> nat \<Rightarrow> ordered_tx" where
  "tx_of_params P i = txs (the_batch P) ! i"

definition lw_keys :: "scc_params \<Rightarrow> shard_id \<Rightarrow> key set list" where
  "lw_keys P sh = map (\<lambda>tx. local_write_keys (layout P) tx sh) (txs (the_batch P))"

definition materialize_at :: "scc_params \<Rightarrow> scc_system \<Rightarrow> shard_id \<Rightarrow> nat \<Rightarrow> scc_phase \<Rightarrow> reads option result" where
  "materialize_at P c sh i phase =
     materialized_local_read (tx_plans (plan P) ! i) phase
       (local_read_keys (layout P) (tx_of_params P i) sh) (lw_keys P sh) (base_cache P sh) (slots c sh)"

definition collect_at :: "scc_params \<Rightarrow> scc_system \<Rightarrow> shard_id \<Rightarrow> nat \<Rightarrow> read_phase \<Rightarrow> reads \<Rightarrow> reads option result" where
  "collect_at P c sh i phase local_reads =
     collect_scc_full_reads (layout P) (batch_id (the_batch P)) (tx_of_params P i) sh phase local_reads
       (mailboxes c sh (tx_id (tx_of_params P i), phase))"

definition send_at ::
    "scc_params \<Rightarrow> shard_id \<Rightarrow> nat \<Rightarrow> read_phase \<Rightarrow> local_read_status \<Rightarrow> reads
      \<Rightarrow> (shard_id \<times> local_read_result) list result" where
  "send_at P sh i phase status local_reads =
     send_scc_read_result (layout P) (peers P) (batch_id (the_batch P)) (tx_of_params P i) sh phase
       status local_reads"

text \<open>A participant has local keys; the worker of a non-participant is never spawned.\<close>

definition participates :: "scc_params \<Rightarrow> shard_id \<Rightarrow> nat \<Rightarrow> bool" where
  "participates P sh i \<longleftrightarrow>
     i < length (txs (the_batch P)) \<and>
     (local_read_keys (layout P) (tx_of_params P i) sh \<noteq> {} \<or>
      local_write_keys (layout P) (tx_of_params P i) sh \<noteq> {})"

inductive scc_step :: "scc_params \<Rightarrow> scc_system \<Rightarrow> scc_system \<Rightarrow> bool" for P where
  non_participant:
    "i < length (txs (the_batch P)) \<Longrightarrow> \<not> participates P sh i \<Longrightarrow> i \<notin> reported c sh \<Longrightarrow>
     set_terminal_once i SlotNoOp (slots c sh) = Ok cs \<Longrightarrow>
     scc_finish_vertex i (dags c sh) = Ok d \<Longrightarrow>
     scc_step P c (set_slots sh cs c\<lparr>dags := (dags c)(sh := d),
       reported := (reported c)(sh := insert i (reported c sh))\<rparr>)"
| effect_read:
    "participates P sh i \<Longrightarrow> workers c sh i = WEffectWait \<Longrightarrow>
     \<not> ready_tx (effect_rt (dags c sh) ! i) \<Longrightarrow>
     materialize_at P c sh i EffectPhase = Ok (Some local_reads) \<Longrightarrow>
     send_at P sh i SccEffect StatusOk local_reads = Ok ms \<Longrightarrow>
     scc_step P c (post ms (set_worker sh i (WEffectCollect local_reads) c))"
| effect_read_failed:
    "participates P sh i \<Longrightarrow> workers c sh i = WEffectWait \<Longrightarrow>
     \<not> ready_tx (effect_rt (dags c sh) ! i) \<Longrightarrow>
     materialize_at P c sh i EffectPhase = Err (SpeculationFailed reason) \<Longrightarrow>
     send_at P sh i SccEffect StatusSpeculationFailed Map.empty = Ok ms \<Longrightarrow>
     set_terminal_once i SlotFailed (slots c sh) = Ok cs \<Longrightarrow>
     scc_step P c (post ms (set_slots sh cs (set_worker sh i (WDone None) c)))"
| deliver:
    "(target, msg) \<in># net c \<Longrightarrow>
     (\<And>i. participates P target i \<Longrightarrow> tx_id (tx_of_params P i) = lrr_tx_id msg \<Longrightarrow>
       \<forall>r. workers c target i \<noteq> WDone r) \<Longrightarrow>
     scc_step P c (c\<lparr>net := net c - {#(target, msg)#},
       mailboxes := (mailboxes c)(target := (mailboxes c target)
         ((lrr_tx_id msg, lrr_phase msg) := mailboxes c target (lrr_tx_id msg, lrr_phase msg) @ [msg]))\<rparr>)"
| deliver_closed:
    "(target, msg) \<in># net c \<Longrightarrow> participates P target i \<Longrightarrow>
     tx_id (tx_of_params P i) = lrr_tx_id msg \<Longrightarrow> workers c target i = WDone r \<Longrightarrow>
     scc_step P c (c\<lparr>net := net c - {#(target, msg)#},
       failed_shards := insert (lrr_from_shard msg) (failed_shards c)\<rparr>)"
| deliver_late:
    "(target, msg) \<in># net c \<Longrightarrow> reported c target = {..<length (txs (the_batch P))} \<Longrightarrow>
     scc_step P c (c\<lparr>net := net c - {#(target, msg)#}\<rparr>)"
| deliver_unread:
    "(target, msg) \<in># net c \<Longrightarrow> participates P target i \<Longrightarrow>
     tx_id (tx_of_params P i) = lrr_tx_id msg \<Longrightarrow> workers c target i = WDone r \<Longrightarrow>
     scc_step P c (c\<lparr>net := net c - {#(target, msg)#}\<rparr>)"
| deliver_aborted:
    "(target, msg) \<in># net c \<Longrightarrow> target \<in> failed_shards c \<Longrightarrow>
     scc_step P c (c\<lparr>net := net c - {#(target, msg)#}\<rparr>)"
| execute:
    "participates P sh i \<Longrightarrow> workers c sh i = WEffectCollect local_reads \<Longrightarrow>
     collect_at P c sh i SccEffect local_reads = Ok (Some full_reads) \<Longrightarrow>
     scc_execute (layout P) sh (tx_of_params P i) (tx_plans (plan P) ! i) full_reads = Ok (Some local_delta) \<Longrightarrow>
     scc_step P c (set_worker sh i (WConditionWait local_delta) c)"
| execute_failed:
    "participates P sh i \<Longrightarrow> workers c sh i = WEffectCollect local_reads \<Longrightarrow>
     collect_at P c sh i SccEffect local_reads = Ok (Some full_reads) \<Longrightarrow>
     scc_execute (layout P) sh (tx_of_params P i) (tx_plans (plan P) ! i) full_reads = Ok None \<Longrightarrow>
     set_terminal_once i SlotFailed (slots c sh) = Ok cs \<Longrightarrow>
     scc_step P c (set_slots sh cs (set_worker sh i (WDone None) c))"
| collect_failed:
    "participates P sh i \<Longrightarrow> workers c sh i = WEffectCollect local_reads \<Longrightarrow>
     collect_at P c sh i SccEffect local_reads = Err (SpeculationFailed reason) \<Longrightarrow>
     set_terminal_once i SlotFailed (slots c sh) = Ok cs \<Longrightarrow>
     scc_step P c (set_slots sh cs (set_worker sh i (WDone None) c))"
| commit_success:
    "participates P sh i \<Longrightarrow> workers c sh i = WConditionWait local_delta \<Longrightarrow>
     \<not> ready_tx (condition_rt (dags c sh) ! i) \<Longrightarrow>
     effect_prefix_covers_condition (tx_plans (plan P) ! i) \<Longrightarrow>
     set_terminal_once i (slot_of_delta local_delta) (slots c sh) = Ok cs \<Longrightarrow>
     scc_step P c (set_slots sh cs (set_worker sh i
       (WDone (success_record (layout P) sh (tx_of_params P i))) c))"
| condition_read:
    "participates P sh i \<Longrightarrow> workers c sh i = WConditionWait local_delta \<Longrightarrow>
     \<not> ready_tx (condition_rt (dags c sh) ! i) \<Longrightarrow>
     \<not> effect_prefix_covers_condition (tx_plans (plan P) ! i) \<Longrightarrow>
     materialize_at P c sh i ConditionPhase = Ok (Some local_reads) \<Longrightarrow>
     send_at P sh i SccCondition StatusOk local_reads = Ok ms \<Longrightarrow>
     scc_step P c (post ms (set_worker sh i (WConditionCollect local_delta local_reads) c))"
| condition_read_failed:
    "participates P sh i \<Longrightarrow> workers c sh i = WConditionWait local_delta \<Longrightarrow>
     \<not> ready_tx (condition_rt (dags c sh) ! i) \<Longrightarrow>
     \<not> effect_prefix_covers_condition (tx_plans (plan P) ! i) \<Longrightarrow>
     materialize_at P c sh i ConditionPhase = Err (SpeculationFailed reason) \<Longrightarrow>
     send_at P sh i SccCondition StatusSpeculationFailed Map.empty = Ok ms \<Longrightarrow>
     set_terminal_once i SlotFailed (slots c sh) = Ok cs \<Longrightarrow>
     scc_step P c (post ms (set_slots sh cs (set_worker sh i (WDone None) c)))"
| condition_success:
    "participates P sh i \<Longrightarrow> workers c sh i = WConditionCollect local_delta local_reads \<Longrightarrow>
     collect_at P c sh i SccCondition local_reads = Ok (Some full_reads) \<Longrightarrow>
     check_success_path_condition (tx_of_params P i) (plan_path (tx_plans (plan P) ! i)) full_reads = Ok True \<Longrightarrow>
     set_terminal_once i (slot_of_delta local_delta) (slots c sh) = Ok cs \<Longrightarrow>
     scc_step P c (set_slots sh cs (set_worker sh i
       (WDone (success_record (layout P) sh (tx_of_params P i))) c))"
| condition_failed:
    "participates P sh i \<Longrightarrow> workers c sh i = WConditionCollect local_delta local_reads \<Longrightarrow>
     collect_at P c sh i SccCondition local_reads = Err (SpeculationFailed reason) \<or>
     (\<exists>full_reads. collect_at P c sh i SccCondition local_reads = Ok (Some full_reads) \<and>
        check_success_path_condition (tx_of_params P i) (plan_path (tx_plans (plan P) ! i)) full_reads = Ok False) \<Longrightarrow>
     set_terminal_once i SlotFailed (slots c sh) = Ok cs \<Longrightarrow>
     scc_step P c (set_slots sh cs (set_worker sh i (WDone None) c))"
| report:
    "participates P sh i \<Longrightarrow> workers c sh i = WDone r \<Longrightarrow> i \<notin> reported c sh \<Longrightarrow>
     sh \<notin> failed_shards c \<Longrightarrow>
     scc_finish_vertex i (dags c sh) = Ok d \<Longrightarrow>
     scc_step P c (c\<lparr>dags := (dags c)(sh := d),
       reported := (reported c)(sh := insert i (reported c sh))\<rparr>)"

text \<open>The state after the graphs were started and the workers spawned.\<close>

definition scc_initial :: "scc_params \<Rightarrow> scc_system result" where
  "scc_initial P =
     rbind (scc_start (scc_dag_runtime_new (plan P))) (\<lambda>d.
     Ok \<lparr>slots = (\<lambda>_. commit_sequence_new (length (txs (the_batch P)))), dags = (\<lambda>_. d),
         workers = (\<lambda>_ _. WEffectWait), reported = (\<lambda>_. {}), net = {#},
         mailboxes = (\<lambda>_ _. []), failed_shards = {}\<rparr>)"

definition params_for :: "shard_layout \<Rightarrow> batch \<Rightarrow> fs_state \<Rightarrow> shard_id set \<Rightarrow> scc_params result" where
  "params_for L b s0 ps =
     rbind (build_scc_batch_plan b) (\<lambda>p.
     Ok \<lparr>layout = L, the_batch = b, plan = p,
         base_cache = (\<lambda>sh. reads_of (shard_part L s0 sh)
           (\<Union>tx \<in> set (txs b). local_read_keys L tx sh)), peers = ps\<rparr>)"

end
