(* ===== verification/SccCorrect.thy ===== *)
theory SccCorrect
  imports SccWorker
begin

text \<open>
  Correctness of the speculative batch: in every reachable state of the worker system, on every
  shard and under any interleaving, a commit slot is pending or holds the value \<open>scc_slot\<close>, which
  depends on the batch and the initial state only; no worker enters the condition phase; and while
  no sender has failed, some step is possible until every worker has reported.
\<close>

section \<open>The setting\<close>

definition scc_setting :: "shard_layout \<Rightarrow> batch \<Rightarrow> fs_state \<Rightarrow> shard_id set \<Rightarrow> scc_params \<Rightarrow> bool" where
  "scc_setting L b s0 ps P \<longleftrightarrow>
     scc_batch b s0 \<and> distinct (map tx_id (txs b)) \<and> params_for L b s0 ps = Ok P \<and>
     (\<forall>i < length (txs b). parts L b i \<subseteq> ps)"

lemma parts_iff:
  "sh \<in> parts L b i \<longleftrightarrow> local_read_keys L (tx_at b i) sh \<noteq> {} \<or> local_write_keys L (tx_at b i) sh \<noteq> {}"
  using local_lock_keys_participant [of L "tx_at b i" sh] by (auto simp: local_lock_keys_Un)

lemma scc_settingD:
  assumes "scc_setting L b s0 ps P"
  shows "scc_batch b s0" "distinct (map tx_id (txs b))" "layout P = L" "the_batch P = b" "peers P = ps"
    "i < length (txs b) \<Longrightarrow> parts L b i \<subseteq> ps" "tx_of_params P i = tx_at b i"
    "participates P sh i \<longleftrightarrow> i < length (txs b) \<and> sh \<in> parts L b i"
    "base_cache P sh = reads_of (shard_part L s0 sh) (\<Union>tx \<in> set (txs b). local_read_keys L tx sh)"
    "build_scc_batch_plan b = Ok (plan P)"
proof -
  obtain p where p: "build_scc_batch_plan b = Ok p" and P: "P = \<lparr>layout = L, the_batch = b, plan = p,
      base_cache = (\<lambda>sh. reads_of (shard_part L s0 sh) (\<Union>tx \<in> set (txs b). local_read_keys L tx sh)),
      peers = ps\<rparr>"
    using assms by (auto simp: scc_setting_def params_for_def rbind_eq_Inr)
  show "scc_batch b s0" "distinct (map tx_id (txs b))" "i < length (txs b) \<Longrightarrow> parts L b i \<subseteq> ps"
    using assms by (auto simp: scc_setting_def)
  show "layout P = L" "the_batch P = b" "peers P = ps" "tx_of_params P i = tx_at b i"
    "base_cache P sh = reads_of (shard_part L s0 sh) (\<Union>tx \<in> set (txs b). local_read_keys L tx sh)"
    "build_scc_batch_plan b = Ok (plan P)"
    using p by (simp_all add: P tx_of_params_def)
  show "participates P sh i \<longleftrightarrow> i < length (txs b) \<and> sh \<in> parts L b i"
    by (simp add: participates_def P tx_of_params_def parts_iff)
qed

lemma scc_setting_plan:
  assumes "scc_setting L b s0 ps P"
  shows "condition_dag (plan P) = effect_dag (plan P)" "length (nodes (effect_dag (plan P))) = length (txs b)"
    "i < length (txs b) \<Longrightarrow> nodes (effect_dag (plan P)) ! i = {j. i < j \<and> j < length (txs b) \<and> conflicts b i j}"
    "j < length (txs b) \<Longrightarrow> tx_plans (plan P) ! j = \<lparr>plan_path = predicted_path (op (tx_at b j)),
       effect_max_pred_index = max_pred b j, condition_max_pred_index = max_pred b j\<rparr>"
    "batch_ordered (effect_dag (plan P))"
proof -
  have v: "\<And>t. t \<in> set (txs b) \<Longrightarrow> valid_op (op t)"
    using scc_settingD(1) [OF assms] by (auto simp: scc_batch_def valid_tx_iff)
  note p = plan_facts [OF v scc_settingD(10) [OF assms]]
  show "condition_dag (plan P) = effect_dag (plan P)" "length (nodes (effect_dag (plan P))) = length (txs b)"
    "i < length (txs b) \<Longrightarrow> nodes (effect_dag (plan P)) ! i = {j. i < j \<and> j < length (txs b) \<and> conflicts b i j}"
    "j < length (txs b) \<Longrightarrow> tx_plans (plan P) ! j = \<lparr>plan_path = predicted_path (op (tx_at b j)),
       effect_max_pred_index = max_pred b j, condition_max_pred_index = max_pred b j\<rparr>"
    using p by blast+
  show "batch_ordered (effect_dag (plan P))"
    unfolding batch_ordered_def using p(2,4) by auto
qed

section \<open>Materialized reads\<close>

definition prefix_failed :: "shard_layout \<Rightarrow> batch \<Rightarrow> fs_state \<Rightarrow> shard_id \<Rightarrow> nat \<Rightarrow> bool" where
  "prefix_failed L b s0 sh i \<longleftrightarrow> (\<exists>k < prefix_len b i. sh \<in> parts L b k \<and> \<not> scc_ok L b s0 k)"

lemma scc_slot_failed_iff: "scc_slot L b s0 sh k = SlotFailed \<longleftrightarrow> sh \<in> parts L b k \<and> \<not> scc_ok L b s0 k"
  by (simp add: scc_slot_def slot_of_delta_def)

lemma prefix_failed_iff: "prefix_failed L b s0 sh i \<longleftrightarrow> (\<exists>k < prefix_len b i. scc_slot L b s0 sh k = SlotFailed)"
  by (simp add: prefix_failed_def scc_slot_failed_iff)

lemma local_read_keys_finite: "valid_tx tx \<Longrightarrow> finite (local_read_keys L tx sh)"
  using valid_tx_sets(1) [of tx] by (simp add: local_read_keys_def)

lemma materialize_at_cases:
  assumes S: "scc_setting L b s0 ps P" and i: "i < length (txs b)"
    and len: "length (slots c sh) = length (txs b)"
    and slots: "\<And>k. k < i \<Longrightarrow> slots c sh ! k = SlotPending \<or> slots c sh ! k = scc_slot L b s0 sh k"
  defines "R \<equiv> reads_of (scc_state L b s0 (prefix_len b i)) (local_read_keys L (tx_at b i) sh)"
  shows "(\<exists>k < prefix_len b i. slots c sh ! k = SlotPending) \<and> materialize_at P c sh i EffectPhase = Ok None \<or>
    prefix_failed L b s0 sh i \<and> (\<exists>r. materialize_at P c sh i EffectPhase = Err (SpeculationFailed r)) \<or>
    \<not> prefix_failed L b s0 sh i \<and> materialize_at P c sh i EffectPhase = Ok (Some R)"
proof -
  let ?K = "local_read_keys L (tx_at b i) sh" and ?n = "prefix_len b i"
  note sd = scc_settingD [OF S]
  have n: "?n \<le> i" by (rule prefix_len_le)
  have fin: "finite ?K" by (rule local_read_keys_finite [OF scc_batchD(1) [OF sd(1) i]])
  have own: "shard_for_key L k = sh" if "k \<in> ?K" for k using that by (simp add: local_read_keys_def)
  have sub: "?K \<subseteq> dom (base_cache P sh)" using i by (auto simp: sd(9) intro!: bexI [of _ "tx_at b i"])
  have base: "project_base_reads (base_cache P sh) ?K = Ok (reads_of s0 ?K)"
  proof -
    have "base_cache P sh |` ?K = reads_of s0 ?K"
      using sub own by (auto simp: sd(9) restrict_map_def reads_of_def shard_part_def fun_eq_iff split: if_splits)
    then show ?thesis using project_base_reads_covered [OF fin sub] by simp
  qed
  have mp: "materialize_at P c sh i EffectPhase =
      (case max_pred b i of None \<Rightarrow> Ok (Some (reads_of s0 ?K))
       | Some m \<Rightarrow> materialize_prefix ?K (lw_keys P sh) (slots c sh) [0..<Suc m]
           (state_of_reads (reads_of s0 ?K)) (reads_of s0 ?K))"
    using base scc_setting_plan(4) [OF S i]
    by (simp add: materialize_at_def materialized_local_read_def sd(3,7) del: upt_Suc split: option.split)
  show ?thesis
  proof (cases "max_pred b i")
    case None
    then show ?thesis using mp by (simp add: prefix_len_def prefix_failed_def R_def)
  next
    case (Some m)
    then have m: "?n = Suc m" by (simp add: prefix_len_def)
    have step: "slot_step ?K (lw_keys P sh ! k) (scc_slot L b s0 sh k) (scc_state L b s0 k) (scc_state L b s0 (Suc k))"
      if "k < ?n" "scc_slot L b s0 sh k \<noteq> SlotFailed" for k
      using scc_slot_step [OF sd(1) _ own that(2)] that(1) n i by (simp add: lw_keys_def sd(3,4))
    have "materialize_at P c sh i EffectPhase = materialize_prefix ?K (lw_keys P sh) (slots c sh) [0..<?n]
        (state_of_reads (reads_of s0 ?K)) (reads_of (scc_state L b s0 0) ?K)"
      using mp Some m by simp
    moreover have "length (lw_keys P sh) = length (txs b)" by (simp add: lw_keys_def sd(4))
    ultimately show ?thesis
      using materialize_prefix_cases [of ?n "slots c sh" "scc_slot L b s0 sh" ?K "lw_keys P sh" "scc_state L b s0"
          "state_of_reads (reads_of s0 ?K)"] slots step n i len
      by (simp add: prefix_failed_iff R_def state_of_reads_of)
  qed
qed

section \<open>Collected reads\<close>

definition emsg :: "shard_layout \<Rightarrow> batch \<Rightarrow> fs_state \<Rightarrow> shard_id \<Rightarrow> nat \<Rightarrow> local_read_result" where
  "emsg L b s0 sh i =
     \<lparr>lrr_batch_id = batch_id b, lrr_tx_id = tx_id (tx_at b i), lrr_phase = SccEffect, lrr_from_shard = sh,
      lrr_status = (if prefix_failed L b s0 sh i then StatusSpeculationFailed else StatusOk),
      lrr_reads = (if prefix_failed L b s0 sh i then Map.empty
        else reads_of (scc_state L b s0 (prefix_len b i)) (local_read_keys L (tx_at b i) sh))\<rparr>"

lemma emsg_simps [simp]:
  "lrr_batch_id (emsg L b s0 sh i) = batch_id b" "lrr_tx_id (emsg L b s0 sh i) = tx_id (tx_at b i)"
  "lrr_phase (emsg L b s0 sh i) = SccEffect" "lrr_from_shard (emsg L b s0 sh i) = sh"
  by (simp_all add: emsg_def)

lemma reads_of_add: "reads_of s A ++ reads_of s B = reads_of s (A \<union> B)"
  by (auto simp: reads_of_def map_add_def fun_eq_iff split: option.split)

lemma card_expected_less:
  assumes "finite E" "R \<subseteq> E" shows "card R < card E \<longleftrightarrow> R \<noteq> E"
  using assms psubset_card_mono [of E R] by auto

text \<open>
  The loop over messages of the expected shards, each at most once: it fails at a reported failure,
  waits while a shard is missing, and otherwise returns the whole read set.
\<close>

lemma collect_scc_loop_cases:
  fixes L b s0 i sh
  defines "rd \<equiv> \<lambda>A. reads_of (scc_state L b s0 (prefix_len b i)) (\<Union>f \<in> A. local_read_keys L (tx_at b i) f)"
  defines "E \<equiv> parts L b i - {sh}"
  assumes fin: "finite E" and cover: "(\<Union>f \<in> insert sh E. local_read_keys L (tx_at b i) f) = read_set (tx_at b i)"
    and ms: "ms = map (\<lambda>f. emsg L b s0 f i) fs" "distinct fs" "set fs \<subseteq> E" "R \<subseteq> E" "R \<inter> set fs = {}"
  shows "(\<exists>f \<in> set fs. prefix_failed L b s0 f i) \<and>
      (\<exists>r. collect_scc_loop L (batch_id b) (tx_at b i) SccEffect E (rd (insert sh R)) R ms = Err (SpeculationFailed r)) \<or>
    (\<forall>f \<in> set fs. \<not> prefix_failed L b s0 f i) \<and>
      collect_scc_loop L (batch_id b) (tx_at b i) SccEffect E (rd (insert sh R)) R ms =
        Ok (if R \<union> set fs = E then Some (rd (insert sh E)) else None)"
  using ms
proof (induction fs arbitrary: ms R)
  case Nil
  then show ?case
    using card_expected_less [OF fin, of R] cover by (auto simp: rd_def)
next
  case (Cons f fs)
  have f: "f \<in> E" "f \<notin> R" using Cons.prems by auto
  then have less: "card R < card E" using card_expected_less [OF fin Cons.prems(4)] by auto
  have disj: "dom (rd (insert sh R)) \<inter> local_read_keys L (tx_at b i) f = {}"
    using f by (auto simp: rd_def E_def local_read_keys_def)
  have add: "rd (insert sh R) ++ reads_of (scc_state L b s0 (prefix_len b i)) (local_read_keys L (tx_at b i) f) =
      rd (insert sh (insert f R))"
    unfolding rd_def reads_of_add by (rule arg_cong [where f = "reads_of _"]) auto
  show ?case
  proof (cases "prefix_failed L b s0 f i")
    case True
    then show ?thesis using Cons.prems(1) less f by (simp add: emsg_def)
  next
    case False
    have "collect_scc_loop L (batch_id b) (tx_at b i) SccEffect E (rd (insert sh R)) R ms =
        collect_scc_loop L (batch_id b) (tx_at b i) SccEffect E (rd (insert sh (insert f R))) (insert f R)
          (map (\<lambda>f. emsg L b s0 f i) fs)"
      using Cons.prems(1) less f False disj add by (simp add: emsg_def)
    moreover note Cons.IH [OF refl, of "insert f R"]
    ultimately show ?thesis using Cons.prems(2-) False by auto
  qed
qed

section \<open>The invariant\<close>

definition local_inv ::
    "shard_layout \<Rightarrow> batch \<Rightarrow> fs_state \<Rightarrow> shard_id \<Rightarrow> nat \<Rightarrow> worker_state \<Rightarrow> commit_slot_state \<Rightarrow> bool \<Rightarrow> bool" where
  "local_inv L b s0 sh i w st rep \<longleftrightarrow>
     (if sh \<in> parts L b i
      then (case w of
          WEffectWait \<Rightarrow> st = SlotPending \<and> \<not> rep
        | WEffectCollect r \<Rightarrow> st = SlotPending \<and> \<not> rep \<and> \<not> prefix_failed L b s0 sh i \<and>
            r = reads_of (scc_state L b s0 (prefix_len b i)) (local_read_keys L (tx_at b i) sh)
        | WConditionWait d \<Rightarrow> st = SlotPending \<and> \<not> rep \<and> scc_ok L b s0 i \<and>
            d = filter_delta_to_keys (scc_delta L b s0 i) (local_write_keys L (tx_at b i) sh)
        | WConditionCollect _ _ \<Rightarrow> False
        | WDone r \<Rightarrow> st = scc_slot L b s0 sh i \<and>
            r = (if scc_ok L b s0 i then success_record L sh (tx_at b i) else None))
      else w = WEffectWait \<and> st = (if rep then SlotNoOp else SlotPending))"

definition is_done :: "worker_state \<Rightarrow> bool" where
  "is_done w \<longleftrightarrow> (\<exists>r. w = WDone r)"

definition copies :: "scc_system \<Rightarrow> shard_id \<Rightarrow> local_read_result \<Rightarrow> nat" where
  "copies c t m = count (net c) (t, m) + count (mset (mailboxes c t (lrr_tx_id m, lrr_phase m))) m"

definition due :: "shard_layout \<Rightarrow> batch \<Rightarrow> scc_system \<Rightarrow> shard_id \<Rightarrow> shard_id \<Rightarrow> nat \<Rightarrow> bool" where
  "due L b c t f i \<longleftrightarrow> i < length (txs b) \<and> f \<in> parts L b i \<and> t \<in> parts L b i \<and> t \<noteq> f \<and>
     workers c f i \<noteq> WEffectWait"

definition msg_inv :: "shard_layout \<Rightarrow> batch \<Rightarrow> fs_state \<Rightarrow> scc_system \<Rightarrow> bool" where
  "msg_inv L b s0 c \<longleftrightarrow>
     (\<forall>t m. copies c t m \<le> (if \<exists>f i. due L b c t f i \<and> m = emsg L b s0 f i then 1 else 0)) \<and>
     (\<forall>t f i. due L b c t f i \<and> \<not> is_done (workers c t i) \<and> t \<notin> failed_shards c \<longrightarrow>
        copies c t (emsg L b s0 f i) = 1) \<and>
     (\<forall>t k m. m \<in> set (mailboxes c t k) \<longrightarrow> k = (lrr_tx_id m, lrr_phase m))"

definition scc_inv :: "scc_params \<Rightarrow> shard_layout \<Rightarrow> batch \<Rightarrow> fs_state \<Rightarrow> scc_system \<Rightarrow> bool" where
  "scc_inv P L b s0 c \<longleftrightarrow>
     (\<forall>sh. length (slots c sh) = length (txs b) \<and> reported c sh \<subseteq> {..<length (txs b)} \<and>
        dag_inv (effect_dag (plan P)) True (reported c sh) (effect_rt (dags c sh)) \<and>
        dag_inv (effect_dag (plan P)) True (reported c sh) (condition_rt (dags c sh)) \<and>
        (\<forall>i < length (txs b). local_inv L b s0 sh i (workers c sh i) (slots c sh ! i) (i \<in> reported c sh) \<and>
          (i \<in> reported c sh \<longrightarrow> sh \<notin> parts L b i \<or> is_done (workers c sh i)))) \<and>
     msg_inv L b s0 c"

lemma scc_invD:
  assumes "scc_inv P L b s0 c"
  shows "length (slots c sh) = length (txs b)" "reported c sh \<subseteq> {..<length (txs b)}"
    "dag_inv (effect_dag (plan P)) True (reported c sh) (effect_rt (dags c sh))"
    "dag_inv (effect_dag (plan P)) True (reported c sh) (condition_rt (dags c sh))"
    "i < length (txs b) \<Longrightarrow> local_inv L b s0 sh i (workers c sh i) (slots c sh ! i) (i \<in> reported c sh)"
    "i \<in> reported c sh \<Longrightarrow> sh \<in> parts L b i \<Longrightarrow> is_done (workers c sh i)"
    "msg_inv L b s0 c"
  using assms unfolding scc_inv_def by (blast, blast, blast, blast, blast, blast, blast)

text \<open>Every slot is pending or as expected, and terminal once the coordinator handled the worker.\<close>

lemma local_inv_slot:
  "local_inv L b s0 sh i w st rep \<Longrightarrow> st = SlotPending \<or> st = scc_slot L b s0 sh i"
  by (auto simp: local_inv_def scc_slot_def split: if_splits worker_state.splits)

lemma scc_slot_terminal [simp]: "scc_slot L b s0 sh i \<noteq> SlotPending"
  by (simp add: scc_slot_def slot_of_delta_def)

lemma scc_inv_slot:
  assumes "scc_inv P L b s0 c" "i < length (txs b)"
  shows "slots c sh ! i = SlotPending \<or> slots c sh ! i = scc_slot L b s0 sh i"
  using local_inv_slot [OF scc_invD(5) [OF assms]] .

lemma scc_inv_reported_slot:
  assumes "scc_inv P L b s0 c" "i < length (txs b)" "i \<in> reported c sh"
  shows "slots c sh ! i = scc_slot L b s0 sh i"
  using scc_invD(5) [OF assms(1,2), of sh] scc_invD(6) [OF assms(1,3)] assms(3)
  by (cases "sh \<in> parts L b i") (auto simp: local_inv_def is_done_def scc_slot_def)

text \<open>A change of one worker and its slot.\<close>

definition update_at ::
    "shard_id \<Rightarrow> nat \<Rightarrow> worker_state \<Rightarrow> commit_slot_state \<Rightarrow> scc_system \<Rightarrow> scc_system" where
  "update_at sh i w st c = set_slots sh ((slots c sh)[i := st]) (set_worker sh i w c)"

lemma update_at_simps [simp]:
  "slots (update_at sh i w st c) = (slots c)(sh := (slots c sh)[i := st])"
  "workers (update_at sh i w st c) = (workers c)(sh := (workers c sh)(i := w))"
  "dags (update_at sh i w st c) = dags c" "reported (update_at sh i w st c) = reported c"
  "net (update_at sh i w st c) = net c" "mailboxes (update_at sh i w st c) = mailboxes c"
  "failed_shards (update_at sh i w st c) = failed_shards c"
  by (simp_all add: update_at_def set_slots_def set_worker_def)

lemma set_terminal_once_Ok:
  "set_terminal_once i st cs = Ok cs' \<longleftrightarrow>
     st \<noteq> SlotPending \<and> i < length cs \<and> cs ! i = SlotPending \<and> cs' = cs[i := st]"
  by (auto simp: set_terminal_once_def slot_def rbind_eq_Inr split: if_splits)

text \<open>A step of a worker that had read its keys already: messages do not change.\<close>

lemma msg_inv_update:
  assumes "msg_inv L b s0 c" "workers c sh i \<noteq> WEffectWait" "w \<noteq> WEffectWait" "\<not> is_done (workers c sh i)"
  shows "msg_inv L b s0 (update_at sh i w st c)"
proof -
  have d: "due L b (update_at sh i w st c) t f j = due L b c t f j" for t f j
    using assms(2,3) by (auto simp: due_def)
  have c: "copies (update_at sh i w st c) = copies c" by (simp add: copies_def fun_eq_iff)
  have "is_done (workers c t j)" if "is_done (workers c t j)" for t j by (rule that)
  moreover have "\<not> is_done (workers (update_at sh i w st c) t j) \<Longrightarrow> \<not> is_done (workers c t j)" for t j
    using assms(4) by (auto split: if_splits)
  ultimately show ?thesis
    using assms(1) unfolding msg_inv_def d c by auto
qed

section \<open>Sending and receiving\<close>

lemma emsg_inject:
  assumes "distinct (map tx_id (txs b))" "i < length (txs b)" "j < length (txs b)"
    "emsg L b s0 f i = emsg L b s0 g j"
  shows "f = g" "i = j"
proof -
  have "lrr_from_shard (emsg L b s0 f i) = lrr_from_shard (emsg L b s0 g j)"
    "lrr_tx_id (emsg L b s0 f i) = lrr_tx_id (emsg L b s0 g j)" by (simp_all only: assms(4))
  then show "f = g" "i = j"
    using assms(1-3) nth_eq_iff_index_eq [OF assms(1), of i j] by simp_all
qed

definition targets :: "shard_layout \<Rightarrow> batch \<Rightarrow> shard_id \<Rightarrow> nat \<Rightarrow> shard_id list" where
  "targets L b sh i = filter (\<lambda>t. t \<noteq> sh) (sorted_list_of_set (parts L b i))"

lemma parts_finite: "valid_tx (tx_at b i) \<Longrightarrow> finite (parts L b i)"
  using valid_tx_sets(1,2) [of "tx_at b i"] by (simp add: participants_of_def participants_all)

lemma targets:
  assumes "valid_tx (tx_at b i)"
  shows "distinct (targets L b sh i)" "set (targets L b sh i) = parts L b i - {sh}"
  using parts_finite [OF assms] by (auto simp: targets_def)

lemma send_at_eq:
  assumes "scc_setting L b s0 ps P" "i < length (txs b)"
    and "st = (if prefix_failed L b s0 sh i then StatusSpeculationFailed else StatusOk)"
    and "\<not> prefix_failed L b s0 sh i \<Longrightarrow>
      r = reads_of (scc_state L b s0 (prefix_len b i)) (local_read_keys L (tx_at b i) sh)"
  shows "send_at P sh i SccEffect st r = Ok (map (\<lambda>t. (t, emsg L b s0 sh i)) (targets L b sh i))"
proof -
  note sd = scc_settingD [OF assms(1)]
  have "finite (parts L b i)" by (rule parts_finite [OF scc_batchD(1) [OF sd(1) assms(2)]])
  then have "traverse (\<lambda>target.
       if target \<notin> ps then Err (MissingPeer target)
       else Ok (target, \<lparr>lrr_batch_id = batch_id b, lrr_tx_id = tx_id (tx_at b i), lrr_phase = SccEffect,
              lrr_from_shard = sh, lrr_status = st, lrr_reads = (if st = StatusOk then r else Map.empty)\<rparr>))
       (targets L b sh i) = Ok (map (\<lambda>t. (t, emsg L b s0 sh i)) (targets L b sh i))"
    using sd(6) [OF assms(2)] assms(3,4)
    by (intro traverse_all_ok) (auto simp: targets_def emsg_def)
  then show ?thesis
    by (simp add: send_at_def send_scc_read_result_def sd(3,4,5,7) targets_def)
qed

lemma count_map_pair:
  "distinct ts \<Longrightarrow> count (image_mset (\<lambda>t. (t, m)) (mset ts)) (t', m') =
     (if m' = m \<and> t' \<in> set ts then 1 else 0)"
  by (induction ts) auto

lemma msg_inv_send:
  assumes inv: "scc_inv P L b s0 c" and S: "scc_setting L b s0 ps P"
    and i: "i < length (txs b)" "sh \<in> parts L b i"
    and w: "workers c sh i = WEffectWait" "w \<noteq> WEffectWait"
  shows "msg_inv L b s0 (post (map (\<lambda>t. (t, emsg L b s0 sh i)) (targets L b sh i)) (update_at sh i w st c))"
    (is "msg_inv L b s0 ?c")
proof -
  note sd = scc_settingD [OF S]
  note m = scc_invD(7) [OF inv, unfolded msg_inv_def]
  note t = targets [OF scc_batchD(1) [OF sd(1) i(1)], of L sh]
  have due: "due L b ?c t f j \<longleftrightarrow> due L b c t f j \<or> (f = sh \<and> j = i \<and> t \<in> parts L b i \<and> t \<noteq> sh)" for t f j
    using w i by (auto simp: due_def post_def)
  have copies: "copies ?c t x = copies c t x + (if x = emsg L b s0 sh i \<and> t \<in> parts L b i - {sh} then 1 else 0)"
    for t x using t by (simp add: copies_def post_def count_map_pair)
  have none: "copies c t (emsg L b s0 sh i) = 0" for t
  proof -
    have "\<not> (due L b c t f j \<and> emsg L b s0 sh i = emsg L b s0 f j)" for f j
      using emsg_inject [OF sd(2) i(1), of j L s0 sh f] w(1) by (auto simp: due_def)
    then have "(if \<exists>f j. due L b c t f j \<and> emsg L b s0 sh i = emsg L b s0 f j then 1 else 0) = (0::nat)"
      by simp
    moreover have "copies c t (emsg L b s0 sh i) \<le>
        (if \<exists>f j. due L b c t f j \<and> emsg L b s0 sh i = emsg L b s0 f j then 1 else 0)" using m by blast
    ultimately show ?thesis by linarith
  qed
  have other: "f = sh \<and> j = i" if "due L b ?c t f j" "emsg L b s0 f j = emsg L b s0 sh i" for t f j
    using emsg_inject [OF sd(2) _ i(1) that(2)] that(1) by (auto simp: due_def)
  show ?thesis
    unfolding msg_inv_def
  proof (intro conjI allI impI)
    fix t x
    show "copies ?c t x \<le> (if \<exists>f j. due L b ?c t f j \<and> x = emsg L b s0 f j then 1 else 0)"
    proof (cases "x = emsg L b s0 sh i \<and> t \<in> parts L b i - {sh}")
      case True
      then have "\<exists>f j. due L b ?c t f j \<and> x = emsg L b s0 f j" unfolding due by blast
      then show ?thesis using True none by (simp add: copies)
    next
      case False
      have "copies c t x \<le> (if \<exists>f j. due L b c t f j \<and> x = emsg L b s0 f j then 1 else 0)" using m by blast
      also have "\<dots> \<le> (if \<exists>f j. due L b ?c t f j \<and> x = emsg L b s0 f j then 1 else 0)"
        unfolding due by auto
      finally have "copies c t x \<le> (if \<exists>f j. due L b ?c t f j \<and> x = emsg L b s0 f j then 1 else 0)" .
      moreover have "copies ?c t x = copies c t x" unfolding copies using False by (simp only: if_False add_0_right)
      ultimately show ?thesis by (simp only:)
    qed
  next
    fix t f j
    assume d: "due L b ?c t f j \<and> \<not> is_done (workers ?c t j) \<and> t \<notin> failed_shards ?c"
    show "copies ?c t (emsg L b s0 f j) = 1"
    proof (cases "f = sh \<and> j = i")
      case True
      then show ?thesis using d none by (auto simp: copies due_def)
    next
      case False
      then have "due L b c t f j" using d unfolding due by blast
      moreover have "\<not> is_done (workers c t j) \<and> t \<notin> failed_shards c"
        using d w(1) by (auto simp: post_def is_done_def split: if_splits)
      ultimately have "copies c t (emsg L b s0 f j) = 1" using m by blast
      then show ?thesis using False other d by (auto simp: copies)
    qed
  next
    fix t k x
    assume "x \<in> set (mailboxes ?c t k)"
    then have "x \<in> set (mailboxes c t k)" by (simp add: post_def)
    then show "k = (lrr_tx_id x, lrr_phase x)" using m by blast
  qed
qed

text \<open>The mailbox of a worker holds one message from some of the other participants.\<close>

lemma mailbox_content:
  assumes inv: "scc_inv P L b s0 c" and S: "scc_setting L b s0 ps P"
    and i: "i < length (txs b)" "sh \<in> parts L b i"
  obtains fs where "mailboxes c sh (tx_id (tx_at b i), SccEffect) = map (\<lambda>f. emsg L b s0 f i) fs"
    "distinct fs" "set fs \<subseteq> parts L b i - {sh}" "\<And>f. f \<in> set fs \<Longrightarrow> workers c f i \<noteq> WEffectWait"
proof -
  note sd = scc_settingD [OF S]
  note m = scc_invD(7) [OF inv, unfolded msg_inv_def]
  let ?ms = "mailboxes c sh (tx_id (tx_at b i), SccEffect)"
  have due: "due L b c sh (lrr_from_shard x) i \<and> x = emsg L b s0 (lrr_from_shard x) i" if x: "x \<in> set ?ms" for x
  proof -
    have k: "(tx_id (tx_at b i), SccEffect) = (lrr_tx_id x, lrr_phase x)" using m x by blast
    then have "0 < copies c sh x" using x by (simp add: copies_def count_mset_gt_0)
    moreover have "copies c sh x \<le> (if \<exists>f j. due L b c sh f j \<and> x = emsg L b s0 f j then 1 else 0)"
      using m by blast
    ultimately obtain f j where f: "due L b c sh f j" "x = emsg L b s0 f j"
      by (auto split: if_splits)
    then have "tx_id (tx_at b i) = tx_id (tx_at b j)" "j < length (txs b)" using k by (auto simp: due_def)
    then have "i = j" using i(1) nth_eq_iff_index_eq [OF sd(2), of i j] by simp
    with f show ?thesis by simp
  qed
  have "count (mset ?ms) x \<le> 1" for x
  proof (cases "x \<in> set ?ms")
    case True
    then have "(tx_id (tx_at b i), SccEffect) = (lrr_tx_id x, lrr_phase x)" using m by blast
    then have "count (mset ?ms) x \<le> copies c sh x" by (simp add: copies_def)
    moreover have "copies c sh x \<le> (if \<exists>f j. due L b c sh f j \<and> x = emsg L b s0 f j then 1 else 0)"
      using m by blast
    ultimately show ?thesis by (auto split: if_splits)
  qed simp
  then have d: "distinct ?ms" by (rule distinct_if_count_le_1)
  show thesis
  proof (rule that [of "map lrr_from_shard ?ms"])
    show "?ms = map (\<lambda>f. emsg L b s0 f i) (map lrr_from_shard ?ms)"
      using due by (auto intro!: nth_equalityI)
    show "distinct (map lrr_from_shard ?ms)"
      unfolding distinct_map using d due by (auto simp: inj_on_def) metis
    show "set (map lrr_from_shard ?ms) \<subseteq> parts L b i - {sh}"
      "\<And>f. f \<in> set (map lrr_from_shard ?ms) \<Longrightarrow> workers c f i \<noteq> WEffectWait"
      using due by (auto simp: due_def)
  qed
qed

end
