(* ===== verification/SccStep.thy ===== *)
theory SccStep
  imports SccCorrect
begin

text \<open>
  Every step of the worker system keeps the invariant of \<open>SccCorrect\<close>: what a worker collects and
  computes is a function of the batch and the initial state, whatever the interleaving.
\<close>

section \<open>Collecting and executing\<close>

lemma scc_ok_parts:
  "scc_ok L b s0 i \<longleftrightarrow> (\<forall>f \<in> parts L b i. \<not> prefix_failed L b s0 f i) \<and>
     op_result (op (tx_at b i)) (scc_state L b s0 (prefix_len b i)) = TxOk"
  unfolding scc_ok_iff [of L b s0 i] prefix_failed_def by blast

lemma parts_cover:
  assumes "valid_tx (tx_at b i)"
  shows "(\<Union>f \<in> parts L b i. local_read_keys L (tx_at b i) f) = read_set (tx_at b i)"
  by (auto simp: participants_of_def participants_all local_read_keys_def)

lemma collect_at_cases:
  assumes inv: "scc_inv P L b s0 c" and S: "scc_setting L b s0 ps P"
    and i: "i < length (txs b)" "sh \<in> parts L b i"
    and own: "\<not> prefix_failed L b s0 sh i"
  defines "R \<equiv> reads_of (scc_state L b s0 (prefix_len b i)) (local_read_keys L (tx_at b i) sh)"
  shows "(\<exists>f \<in> parts L b i. prefix_failed L b s0 f i) \<and>
      (\<exists>r. collect_at P c sh i SccEffect R = Err (SpeculationFailed r)) \<or>
    (\<forall>f \<in> parts L b i. \<not> prefix_failed L b s0 f i) \<and> collect_at P c sh i SccEffect R =
      Ok (Some (reads_of (scc_state L b s0 (prefix_len b i)) (read_set (tx_at b i)))) \<and>
      (\<forall>f \<in> parts L b i - {sh}. emsg L b s0 f i \<in> set (mailboxes c sh (tx_id (tx_at b i), SccEffect))) \<or>
    (\<exists>f \<in> parts L b i - {sh}. emsg L b s0 f i \<notin> set (mailboxes c sh (tx_id (tx_at b i), SccEffect))) \<and>
      collect_at P c sh i SccEffect R = Ok None"
proof -
  note sd = scc_settingD [OF S]
  note v = scc_batchD(1) [OF sd(1) i(1)]
  let ?E = "parts L b i - {sh}" and ?s = "scc_state L b s0 (prefix_len b i)"
  have E: "insert sh ?E = parts L b i" using i(2) by auto
  obtain fs where fs: "mailboxes c sh (tx_id (tx_at b i), SccEffect) = map (\<lambda>f. emsg L b s0 f i) fs"
    "distinct fs" "set fs \<subseteq> ?E" by (rule mailbox_content [OF inv S i]) blast
  have notin: "emsg L b s0 f i \<notin> set (map (\<lambda>f. emsg L b s0 f i) fs)" if "f \<notin> set fs" for f
  proof
    assume "emsg L b s0 f i \<in> set (map (\<lambda>f. emsg L b s0 f i) fs)"
    then obtain g where "g \<in> set fs" "emsg L b s0 f i = emsg L b s0 g i" by auto
    then have "g \<in> set fs" "f = g" using emsg_inject(1) [OF sd(2) i(1) i(1), of L s0 f g] by auto
    then show False using that by simp
  qed
  have at: "collect_at P c sh i SccEffect R = collect_scc_loop L (batch_id b) (tx_at b i) SccEffect ?E
      (reads_of ?s (\<Union>f \<in> insert sh {}. local_read_keys L (tx_at b i) f)) {} (map (\<lambda>f. emsg L b s0 f i) fs)"
    by (simp add: collect_at_def collect_scc_full_reads_def sd(3,4,7) fs(1) R_def)
  have cov: "(\<Union>f \<in> insert sh ?E. local_read_keys L (tx_at b i) f) = read_set (tx_at b i)"
    unfolding E by (rule parts_cover [OF v])
  note loop = collect_scc_loop_cases [OF finite_Diff [OF parts_finite [OF v]] cov refl fs(2,3) empty_subsetI
      Int_empty_left, of s0, unfolded cov Un_empty_left, folded at]
  show ?thesis
  proof (cases "\<exists>f \<in> set fs. prefix_failed L b s0 f i")
    case True
    then show ?thesis using loop fs(3) by blast
  next
    case False
    then have *: "collect_at P c sh i SccEffect R =
        Ok (if set fs = ?E then Some (reads_of ?s (read_set (tx_at b i))) else None)" using loop by blast
    show ?thesis
    proof (cases "set fs = ?E")
      case True
      then have "\<forall>f \<in> parts L b i. \<not> prefix_failed L b s0 f i" using False own E by blast
      then show ?thesis using * True fs(1) by simp
    next
      case nall: False
      then obtain f where "f \<in> ?E" "f \<notin> set fs" using fs(3) by blast
      then have "\<exists>f \<in> ?E. emsg L b s0 f i \<notin> set (mailboxes c sh (tx_id (tx_at b i), SccEffect))"
        using notin unfolding fs(1) by blast
      then show ?thesis using * nall by (simp only: if_False) blast
    qed
  qed
qed

lemma scc_execute_eq:
  assumes "scc_batch b s0" "i < length (txs b)" "\<forall>f \<in> parts L b i. \<not> prefix_failed L b s0 f i"
    and "plan_path pl = predicted_path (op (tx_at b i))"
  shows "scc_execute L sh (tx_at b i) pl
      (reads_of (scc_state L b s0 (prefix_len b i)) (read_set (tx_at b i))) =
    Ok (if scc_ok L b s0 i
        then Some (filter_delta_to_keys (scc_delta L b s0 i) (local_write_keys L (tx_at b i) sh)) else None)"
proof -
  note v = scc_batchD(1) [OF assms(1,2)]
  let ?s = "scc_state L b s0 (prefix_len b i)"
  have out: "execute_deterministic (tx_at b i) (reads_of ?s (read_set (tx_at b i))) = op_output (op (tx_at b i)) ?s"
    by (rule execute_deterministic_reads_of [OF v])
  show ?thesis
  proof (cases "scc_ok L b s0 i")
    case True
    then have "result (op_output (op (tx_at b i)) ?s) = TxOk"
      unfolding scc_ok_parts [of L b s0 i] op_result_def by blast
    then show ?thesis
      using True scc_delta(1) [OF assms(1,2) True] assms(4)
      by (simp add: scc_execute_def out classify_actual_path_def)
  next
    case False
    then have "result (op_output (op (tx_at b i)) ?s) \<noteq> TxOk"
      using assms(3) unfolding scc_ok_parts [of L b s0 i] op_result_def by blast
    then show ?thesis using False by (simp add: scc_execute_def out classify_actual_path_def)
  qed
qed

section \<open>Shapes of steps\<close>

lemma set_worker_update: "set_worker sh i w c = update_at sh i w (slots c sh ! i) c"
  by (simp add: update_at_def set_slots_def set_worker_def)

lemma post_Nil [simp]: "post [] c = c"
  by (simp add: post_def)

lemma post_simps [simp]:
  "slots (post ms c) = slots c" "workers (post ms c) = workers c" "dags (post ms c) = dags c"
  "reported (post ms c) = reported c" "mailboxes (post ms c) = mailboxes c"
  "net (post ms c) = net c + mset ms" "failed_shards (post ms c) = failed_shards c"
  by (simp_all add: post_def)

lemma scc_inv_post:
  assumes "scc_inv P L b s0 c'" "msg_inv L b s0 (post ms c')" shows "scc_inv P L b s0 (post ms c')"
  using assms by (simp add: scc_inv_def)

lemma step_inv:
  assumes inv: "scc_inv P L b s0 c" and i: "i < length (txs b)" "sh \<in> parts L b i"
    and l: "local_inv L b s0 sh i w st (i \<in> reported c sh)" and rep: "i \<notin> reported c sh"
    and m: "msg_inv L b s0 (post ms (update_at sh i w st c))"
  shows "scc_inv P L b s0 (post ms (update_at sh i w st c))"
proof -
  have len: "i < length (slots c sh)" using scc_invD(1) [OF inv] i(1) by simp
  have "local_inv L b s0 t j (workers (update_at sh i w st c) t j) (slots (update_at sh i w st c) t ! j)
      (j \<in> reported c t) \<and>
      (j \<in> reported c t \<longrightarrow> t \<notin> parts L b j \<or> is_done (workers (update_at sh i w st c) t j))"
    if "j < length (txs b)" for t j
  proof (cases "t = sh \<and> j = i")
    case True
    then show ?thesis using l rep len by simp
  next
    case False
    then have "workers (update_at sh i w st c) t j = workers c t j"
      "slots (update_at sh i w st c) t ! j = slots c t ! j" by auto
    then show ?thesis using scc_invD(5) [OF inv that, of t] scc_invD(6) [OF inv, of j t] by metis
  qed
  moreover have "length (slots (update_at sh i w st c) t) = length (txs b)" for t
    using scc_invD(1) [OF inv] by simp
  ultimately show ?thesis
    using m scc_invD(2-4) [OF inv] unfolding scc_inv_def post_simps update_at_simps(3,4) by blast
qed

text \<open>What a participant's worker knows in each of its states.\<close>

lemma local_invD:
  assumes "local_inv L b s0 sh i w st rep" "sh \<in> parts L b i"
  shows "\<not> is_done w \<Longrightarrow> st = SlotPending" "\<not> is_done w \<Longrightarrow> \<not> rep"
    "w = WEffectCollect r \<Longrightarrow> \<not> prefix_failed L b s0 sh i"
    "w = WEffectCollect r \<Longrightarrow>
       r = reads_of (scc_state L b s0 (prefix_len b i)) (local_read_keys L (tx_at b i) sh)"
    "w = WConditionWait d \<Longrightarrow> scc_ok L b s0 i"
    "w = WConditionWait d \<Longrightarrow> d = filter_delta_to_keys (scc_delta L b s0 i) (local_write_keys L (tx_at b i) sh)"
    "w \<noteq> WConditionCollect d r"
  using assms by (auto simp: local_inv_def is_done_def split: worker_state.splits)

text \<open>A step after the effect read: only the worker and its slot change.\<close>

lemma quiet_step_inv:
  assumes inv: "scc_inv P L b s0 c" and i: "i < length (txs b)" "sh \<in> parts L b i"
    and w: "workers c sh i \<noteq> WEffectWait" "\<not> is_done (workers c sh i)" "w \<noteq> WEffectWait"
    and l: "local_inv L b s0 sh i w st False"
  shows "scc_inv P L b s0 (update_at sh i w st c)"
proof -
  have rep: "i \<notin> reported c sh" using local_invD(2) [OF scc_invD(5) [OF inv i(1)] i(2) w(2)] .
  show ?thesis
    using step_inv [OF inv i _ rep, of w st "[]"] msg_inv_update [OF scc_invD(7) [OF inv] w(1,3,2)] l rep
    by simp
qed

text \<open>A worker that reads first: its messages are the expected ones.\<close>

lemma sending_step_inv:
  assumes inv: "scc_inv P L b s0 c" and S: "scc_setting L b s0 ps P"
    and i: "i < length (txs b)" "sh \<in> parts L b i"
    and w: "workers c sh i = WEffectWait" "w \<noteq> WEffectWait" "local_inv L b s0 sh i w st False"
  shows "scc_inv P L b s0 (post (map (\<lambda>t. (t, emsg L b s0 sh i)) (targets L b sh i)) (update_at sh i w st c))"
proof -
  have rep: "i \<notin> reported c sh"
    using local_invD(2) [OF scc_invD(5) [OF inv i(1)] i(2)] w(1) by (simp add: is_done_def)
  show ?thesis
    by (rule step_inv [OF inv i _ rep msg_inv_send [OF inv S i w(1,2)]]) (use w(3) rep in simp)
qed

text \<open>A step that loses messages only workers that are done would have received.\<close>

lemma scc_inv_messages:
  assumes inv: "scc_inv P L b s0 c"
    and same: "slots c' = slots c" "workers c' = workers c" "dags c' = dags c" "reported c' = reported c"
    and less: "\<And>t m. copies c' t m \<le> copies c t m"
    and failed: "failed_shards c \<subseteq> failed_shards c'"
    and kept: "\<And>t f i. due L b c t f i \<Longrightarrow> \<not> is_done (workers c t i) \<Longrightarrow> t \<notin> failed_shards c \<Longrightarrow>
      copies c' t (emsg L b s0 f i) = copies c t (emsg L b s0 f i)"
    and keyed: "\<And>t k m. m \<in> set (mailboxes c' t k) \<Longrightarrow> k = (lrr_tx_id m, lrr_phase m)"
  shows "scc_inv P L b s0 c'"
proof -
  note m = scc_invD(7) [OF inv, unfolded msg_inv_def]
  have due: "due L b c' = due L b c" by (simp add: due_def fun_eq_iff same)
  have "msg_inv L b s0 c'"
    unfolding msg_inv_def due same(2)
  proof (intro conjI allI impI)
    show "copies c' t m \<le> (if \<exists>f i. due L b c t f i \<and> m = emsg L b s0 f i then 1 else 0)" for t m
      by (rule order_trans [OF less]) (use m in blast)
    show "copies c' t (emsg L b s0 f i) = 1" if "due L b c t f i \<and> \<not> is_done (workers c t i) \<and> t \<notin> failed_shards c'" for t f i
    proof -
      have t: "due L b c t f i" "\<not> is_done (workers c t i)" "t \<notin> failed_shards c" using that failed by auto
      then have "copies c t (emsg L b s0 f i) = 1" using m by blast
      then show ?thesis using kept [OF t] by simp
    qed
    show "k = (lrr_tx_id m, lrr_phase m)" if "m \<in> set (mailboxes c' t k)" for t k m
      by (rule keyed [OF that])
  qed
  with inv show ?thesis unfolding scc_inv_def same by blast
qed

lemma in_net_due:
  assumes "scc_inv P L b s0 c" "(t, m) \<in># net c"
  obtains f i where "due L b c t f i" "m = emsg L b s0 f i"
proof -
  have "0 < copies c t m" using assms(2) by (simp add: copies_def)
  moreover have "copies c t m \<le> (if \<exists>f i. due L b c t f i \<and> m = emsg L b s0 f i then 1 else 0)"
    using scc_invD(7) [OF assms(1), unfolded msg_inv_def] by blast
  ultimately show thesis using that by (auto split: if_splits)
qed

text \<open>A message is lost only when the worker it is for is done.\<close>

lemma lost_message_inv:
  assumes inv: "scc_inv P L b s0 c" and S: "scc_setting L b s0 ps P" and n: "(target, msg) \<in># net c"
    and over: "\<And>f i. due L b c target f i \<Longrightarrow> msg = emsg L b s0 f i \<Longrightarrow> target \<notin> failed_shards c \<Longrightarrow>
      is_done (workers c target i)" and F: "failed_shards c \<subseteq> F"
  shows "scc_inv P L b s0 (c\<lparr>net := net c - {#(target, msg)#}, failed_shards := F\<rparr>)"
    (is "scc_inv P L b s0 ?c")
proof (rule scc_inv_messages [OF inv])
  note sd = scc_settingD [OF S]
  show "copies ?c t m \<le> copies c t m" for t m by (simp add: copies_def)
  show "copies ?c t (emsg L b s0 f i) = copies c t (emsg L b s0 f i)"
    if "due L b c t f i" "\<not> is_done (workers c t i)" "t \<notin> failed_shards c" for t f i
    using over that by (auto simp: copies_def)
  show "k = (lrr_tx_id m, lrr_phase m)" if "m \<in> set (mailboxes ?c t k)" for t k m
  proof -
    have "m \<in> set (mailboxes c t k)" using that by simp
    then show ?thesis using scc_invD(7) [OF inv, unfolded msg_inv_def] by blast
  qed
qed (use F in simp_all)

text \<open>A message lost without consequence: the worker it is for is done or its shard aborted.\<close>

lemma dropped_message_inv:
  assumes inv: "scc_inv P L b s0 c" and S: "scc_setting L b s0 ps P" and n: "(target, msg) \<in># net c"
    and over: "\<And>f i. due L b c target f i \<Longrightarrow> msg = emsg L b s0 f i \<Longrightarrow> target \<notin> failed_shards c \<Longrightarrow>
      is_done (workers c target i)"
  shows "scc_inv P L b s0 (c\<lparr>net := net c - {#(target, msg)#}\<rparr>)"
  using lost_message_inv [OF inv S n over order_refl] by simp

lemma done_receiver:
  assumes S: "scc_setting L b s0 ps P" and p: "participates P target i"
    and tx: "tx_id (tx_of_params P i) = lrr_tx_id msg" and w: "workers c target i = WDone r"
    and f: "due L b c target f j" "msg = emsg L b s0 f j"
  shows "is_done (workers c target j)"
proof -
  note sd = scc_settingD [OF S]
  have "j = i" using p tx f nth_eq_iff_index_eq [OF sd(2), of i j] by (simp add: due_def sd(7,8))
  then show ?thesis using w by (simp add: is_done_def)
qed

lemma deliver_inv:
  assumes inv: "scc_inv P L b s0 c" and n: "(target, msg) \<in># net c"
  defines "key \<equiv> (lrr_tx_id msg, lrr_phase msg)"
  shows "scc_inv P L b s0 (c\<lparr>net := net c - {#(target, msg)#},
    mailboxes := (mailboxes c)(target := (mailboxes c target)(key := mailboxes c target key @ [msg]))\<rparr>)"
    (is "scc_inv P L b s0 ?c")
proof (rule scc_inv_messages [OF inv])
  have "copies ?c t m = copies c t m" for t m
    using n by (auto simp: copies_def key_def)
  then show "copies ?c t m \<le> copies c t m" "copies ?c t (emsg L b s0 f i) = copies c t (emsg L b s0 f i)"
    for t m f i by simp_all
  show "k = (lrr_tx_id m, lrr_phase m)" if "m \<in> set (mailboxes ?c t k)" for t k m
  proof (cases "m \<in> set (mailboxes c t k)")
    case True
    then show ?thesis using scc_invD(7) [OF inv, unfolded msg_inv_def] by blast
  next
    case False
    then show ?thesis using that by (auto simp: key_def split: if_splits)
  qed
qed simp_all

section \<open>Preservation\<close>

lemma finish_both:
  assumes "batch_ordered g" "dag_inv g True F (effect_rt d)" "dag_inv g True F (condition_rt d)"
    "v < length (nodes g)" "v \<notin> F"
  obtains d' where "scc_finish_vertex v d = Ok d'" "dag_inv g True (insert v F) (effect_rt d')"
    "dag_inv g True (insert v F) (condition_rt d')"
  using dag_inv_finish [OF assms(1,2,4,5)] dag_inv_finish [OF assms(1,3,4,5)] that
  by (auto simp: scc_finish_vertex_def)

lemma report_inv:
  assumes inv: "scc_inv P L b s0 c" and S: "scc_setting L b s0 ps P" and i: "i < length (txs b)"
    and rep: "i \<notin> reported c sh" and d: "scc_finish_vertex i (dags c sh) = Ok d"
    and st: "st = SlotNoOp \<and> sh \<notin> parts L b i \<or>
      st = slots c sh ! i \<and> sh \<in> parts L b i \<and> is_done (workers c sh i)"
  shows "scc_inv P L b s0 ((set_slots sh ((slots c sh)[i := st]) c)\<lparr>dags := (dags c)(sh := d),
    reported := (reported c)(sh := insert i (reported c sh))\<rparr>)" (is "scc_inv P L b s0 ?c")
proof -
  note sp = scc_setting_plan [OF S]
  have len: "i < length (slots c sh)" using scc_invD(1) [OF inv] i by simp
  obtain d' where "scc_finish_vertex i (dags c sh) = Ok d'"
    "dag_inv (effect_dag (plan P)) True (insert i (reported c sh)) (effect_rt d')"
    "dag_inv (effect_dag (plan P)) True (insert i (reported c sh)) (condition_rt d')"
    using finish_both [OF sp(5) scc_invD(3,4) [OF inv], of i] sp(2) i rep by metis
  then have dags: "dag_inv (effect_dag (plan P)) True (reported ?c t) (effect_rt (dags ?c t))"
    "dag_inv (effect_dag (plan P)) True (reported ?c t) (condition_rt (dags ?c t))" for t
    using d scc_invD(3,4) [OF inv, of t] by auto
  have "local_inv L b s0 t j (workers ?c t j) (slots ?c t ! j) (j \<in> reported ?c t) \<and>
      (j \<in> reported ?c t \<longrightarrow> t \<notin> parts L b j \<or> is_done (workers ?c t j))"
    if "j < length (txs b)" for t j
  proof (cases "t = sh \<and> j = i")
    case True
    then show ?thesis using st scc_invD(5) [OF inv that, of t] len
      by (auto simp: set_slots_def local_inv_def is_done_def)
  next
    case False
    then have eqs: "workers ?c t j = workers c t j" "slots ?c t ! j = slots c t ! j"
      "j \<in> reported ?c t \<longleftrightarrow> j \<in> reported c t" by (auto simp: set_slots_def)
    show ?thesis unfolding eqs using scc_invD(5) [OF inv that, of t] scc_invD(6) [OF inv, of j t] by blast
  qed
  moreover have "length (slots ?c t) = length (txs b)" "reported ?c t \<subseteq> {..<length (txs b)}" for t
    using scc_invD(1,2) [OF inv] i by (auto simp: set_slots_def)
  moreover have "msg_inv L b s0 ?c"
    using scc_invD(7) [OF inv] by (simp add: msg_inv_def copies_def due_def set_slots_def)
  ultimately show ?thesis using dags unfolding scc_inv_def by blast
qed

text \<open>The value a worker gives its slot when it fails or commits is the expected one.\<close>

lemma failed_local_inv:
  "sh \<in> parts L b i \<Longrightarrow> \<not> scc_ok L b s0 i \<Longrightarrow> local_inv L b s0 sh i (WDone None) SlotFailed rep"
  by (simp add: local_inv_def scc_slot_def)

lemma committed_local_inv:
  assumes "sh \<in> parts L b i" "scc_ok L b s0 i"
  shows "local_inv L b s0 sh i (WDone (success_record L sh (tx_at b i)))
    (slot_of_delta (filter_delta_to_keys (scc_delta L b s0 i) (local_write_keys L (tx_at b i) sh))) rep"
  using assms by (simp add: local_inv_def scc_slot_def)

lemma prefix_slots:
  assumes "scc_inv P L b s0 c" "i < length (txs b)" "k < i"
  shows "slots c sh ! k = SlotPending \<or> slots c sh ! k = scc_slot L b s0 sh k"
  using scc_inv_slot [OF assms(1)] assms(2,3) by simp

lemma covers_condition:
  "scc_setting L b s0 ps P \<Longrightarrow> i < length (txs b) \<Longrightarrow> effect_prefix_covers_condition (tx_plans (plan P) ! i)"
  by (simp add: scc_setting_plan(4) effect_prefix_covers_condition_def split: option.split)

lemma not_done [simp]:
  "\<not> is_done WEffectWait" "\<not> is_done (WEffectCollect r)" "\<not> is_done (WConditionWait d)"
  "\<not> is_done (WConditionCollect d r)" "is_done (WDone x)"
  by (simp_all add: is_done_def)

lemma scc_step_inv:
  assumes step: "scc_step P c c'" and inv: "scc_inv P L b s0 c" and S: "scc_setting L b s0 ps P"
  shows "scc_inv P L b s0 c'"
  using step
proof cases
  note sd = scc_settingD [OF S]
  note mat = materialize_at_cases [OF S _ _ prefix_slots [OF inv]]
  {
    case (non_participant i sh cs d)
    then show ?thesis
      using report_inv [OF inv S, of i sh d SlotNoOp] by (simp add: sd(4,8) set_terminal_once_Ok set_slots_def)
  next
    case (effect_read sh i r ms)
    then have i: "i < length (txs b)" "sh \<in> parts L b i" by (simp_all add: sd(8))
    note l = scc_invD(5) [OF inv i(1), of sh]
    have r: "\<not> prefix_failed L b s0 sh i"
      "r = reads_of (scc_state L b s0 (prefix_len b i)) (local_read_keys L (tx_at b i) sh)"
      using mat [OF i(1) scc_invD(1) [OF inv] i(1), of sh] effect_read(5) by auto
    have "ms = map (\<lambda>t. (t, emsg L b s0 sh i)) (targets L b sh i)"
      using send_at_eq [OF S i(1), of StatusOk sh r] r effect_read(6) by simp
    moreover have "slots c sh ! i = SlotPending" using local_invD(1) [OF l i(2)] effect_read(3) by simp
    ultimately show ?thesis
      using sending_step_inv [OF inv S i effect_read(3), of "WEffectCollect r" SlotPending] r i(2)
      by (simp add: effect_read(1) set_worker_update local_inv_def)
  next
    case (effect_read_failed sh i reason ms cs)
    then have i: "i < length (txs b)" "sh \<in> parts L b i" by (simp_all add: sd(8))
    have r: "prefix_failed L b s0 sh i"
      using mat [OF i(1) scc_invD(1) [OF inv] i(1), of sh] effect_read_failed(5) by auto
    have "ms = map (\<lambda>t. (t, emsg L b s0 sh i)) (targets L b sh i)"
      using send_at_eq [OF S i(1), of StatusSpeculationFailed sh Map.empty] r effect_read_failed(6) by simp
    moreover have "\<not> scc_ok L b s0 i" using r i(2) unfolding scc_ok_parts [of L b s0 i] by blast
    ultimately show ?thesis
      using sending_step_inv [OF inv S i effect_read_failed(3) _ failed_local_inv [OF i(2)]]
        effect_read_failed(7)
      by (simp add: effect_read_failed(1) set_terminal_once_Ok update_at_def)
  next
    case (deliver target msg)
    show ?thesis unfolding deliver(1) by (rule deliver_inv [OF inv deliver(2)])
  next
    case (deliver_closed target msg i r)
    show ?thesis unfolding deliver_closed(1)
      by (rule lost_message_inv [OF inv S deliver_closed(2) done_receiver [OF S deliver_closed(3-5)]]) auto
  next
    case (deliver_unread target msg i r)
    show ?thesis unfolding deliver_unread(1)
      by (rule dropped_message_inv [OF inv S deliver_unread(2) done_receiver [OF S deliver_unread(3-5)]])
  next
    case (deliver_aborted target msg)
    show ?thesis unfolding deliver_aborted(1)
      by (rule dropped_message_inv [OF inv S deliver_aborted(2)]) (use deliver_aborted(3) in blast)
  next
    case (deliver_late target msg)
    show ?thesis unfolding deliver_late(1)
    proof (rule dropped_message_inv [OF inv S deliver_late(2)])
      fix f j
      assume "due L b c target f j"
      then show "is_done (workers c target j)"
        using scc_invD(6) [OF inv, of j target] deliver_late(3) by (simp add: due_def sd(4))
    qed
  next
    case (execute sh i r full_reads d)
    then have i: "i < length (txs b)" "sh \<in> parts L b i" by (simp_all add: sd(8))
    note l = scc_invD(5) [OF inv i(1), of sh]
    note lw = local_invD [OF l i(2)]
    have r: "\<forall>f \<in> parts L b i. \<not> prefix_failed L b s0 f i"
      "full_reads = reads_of (scc_state L b s0 (prefix_len b i)) (read_set (tx_at b i))"
      using collect_at_cases [OF inv S i lw(3) [OF execute(3)]] execute(4) lw(4) [OF execute(3)] by auto
    have "scc_ok L b s0 i" "d = filter_delta_to_keys (scc_delta L b s0 i) (local_write_keys L (tx_at b i) sh)"
      using scc_execute_eq [OF sd(1) i(1) r(1)] execute(5) r(2) scc_setting_plan(4) [OF S i(1)]
      by (auto simp: sd(3,7) split: if_splits)
    then show ?thesis
      using quiet_step_inv [OF inv i, of "WConditionWait d" "slots c sh ! i"] execute(3) lw(1) i(2)
      by (simp add: execute(1) set_worker_update local_inv_def)
  next
    case (execute_failed sh i r full_reads cs)
    then have i: "i < length (txs b)" "sh \<in> parts L b i" by (simp_all add: sd(8))
    note lw = local_invD [OF scc_invD(5) [OF inv i(1), of sh] i(2)]
    have r: "\<forall>f \<in> parts L b i. \<not> prefix_failed L b s0 f i"
      "full_reads = reads_of (scc_state L b s0 (prefix_len b i)) (read_set (tx_at b i))"
      using collect_at_cases [OF inv S i lw(3) [OF execute_failed(3)]] execute_failed(4)
        lw(4) [OF execute_failed(3)] by auto
    have "\<not> scc_ok L b s0 i"
      using scc_execute_eq [OF sd(1) i(1) r(1)] execute_failed(5) r(2) scc_setting_plan(4) [OF S i(1)]
      by (auto simp: sd(3,7) split: if_splits)
    then show ?thesis
      using quiet_step_inv [OF inv i _ _ _ failed_local_inv [OF i(2)]] execute_failed(3,6)
      by (simp add: execute_failed(1) set_terminal_once_Ok update_at_def)
  next
    case (collect_failed sh i r reason cs)
    then have i: "i < length (txs b)" "sh \<in> parts L b i" by (simp_all add: sd(8))
    note lw = local_invD [OF scc_invD(5) [OF inv i(1), of sh] i(2)]
    have "\<exists>f \<in> parts L b i. prefix_failed L b s0 f i"
      using collect_at_cases [OF inv S i lw(3) [OF collect_failed(3)]] collect_failed(4)
        lw(4) [OF collect_failed(3)] by auto
    then have "\<not> scc_ok L b s0 i" unfolding scc_ok_parts [of L b s0 i] by blast
    then show ?thesis
      using quiet_step_inv [OF inv i _ _ _ failed_local_inv [OF i(2)]] collect_failed(3,5)
      by (simp add: collect_failed(1) set_terminal_once_Ok update_at_def)
  next
    case (commit_success sh i d cs)
    then have i: "i < length (txs b)" "sh \<in> parts L b i" by (simp_all add: sd(8))
    note lw = local_invD [OF scc_invD(5) [OF inv i(1), of sh] i(2)]
    show ?thesis
      using quiet_step_inv [OF inv i _ _ _ committed_local_inv [OF i(2) lw(5)]] commit_success(3,6) lw(6)
      by (simp add: commit_success(1) set_terminal_once_Ok update_at_def sd(3,7))
  next
    case (condition_read sh i d r ms)
    then show ?thesis using covers_condition [OF S] by (simp add: sd(8))
  next
    case (condition_read_failed sh i d reason ms cs)
    then show ?thesis using covers_condition [OF S] by (simp add: sd(8))
  next
    case (condition_success sh i d r full_reads cs)
    then show ?thesis using local_invD(7) [OF scc_invD(5) [OF inv]] by (simp add: sd(8)) 
  next
    case (condition_failed sh i d r reason cs)
    then show ?thesis using local_invD(7) [OF scc_invD(5) [OF inv]] by (simp add: sd(8))
  next
    case (report sh i r d)
    then have i: "i < length (txs b)" "sh \<in> parts L b i" by (simp_all add: sd(8))
    then show ?thesis
      using report_inv [OF inv S i(1) report(4,6), of "slots c sh ! i"] report(3)
      by (simp add: report(1) set_slots_def)
  }
qed

end
