(* ===== verification/SccProgress.thy ===== *)
theory SccProgress
  imports SccStep
begin

text \<open>
  Whole runs of the worker system: the start satisfies the invariant, every run is finite, a run
  that cannot continue has reported every worker or has a shard that aborted, and a shard aborts
  only when a transaction of the batch failed speculatively.
\<close>

section \<open>The start\<close>

lemma scc_initial_inv:
  assumes "scc_setting L b s0 ps P"
  shows "\<exists>c0. scc_initial P = Ok c0 \<and> scc_inv P L b s0 c0"
proof -
  note sd = scc_settingD [OF assms]
  note sp = scc_setting_plan [OF assms]
  obtain e where e: "dag_start (dag_runtime_new (effect_dag (plan P))) = Ok e"
    "dag_inv (effect_dag (plan P)) True {} e"
    using dag_inv_start [OF dag_inv_new [OF sp(5)]] by blast
  let ?d = "\<lparr>effect_rt = e, condition_rt = e\<rparr>"
  let ?c = "\<lparr>slots = (\<lambda>_. commit_sequence_new (length (txs b))), dags = (\<lambda>_. ?d),
         workers = (\<lambda>_ _. WEffectWait), reported = (\<lambda>_. {}), net = {#},
         mailboxes = (\<lambda>_ _. []), failed_shards = {}\<rparr>"
  have "scc_start (scc_dag_runtime_new (plan P)) = Ok ?d"
    using e(1) by (simp add: scc_start_def scc_dag_runtime_new_def sp(1))
  then have "scc_initial P = Ok ?c" by (simp add: scc_initial_def sd(4))
  moreover have "scc_inv P L b s0 ?c"
    using e(2) by (simp add: scc_inv_def commit_sequence_new_def local_inv_def msg_inv_def copies_def due_def)
  ultimately show ?thesis by blast
qed

lemma scc_inv_reachable:
  assumes S: "scc_setting L b s0 ps P" and "scc_initial P = Ok c0" "(scc_step P)\<^sup>*\<^sup>* c0 c"
  shows "scc_inv P L b s0 c"
  using assms(3)
proof (induction rule: rtranclp_induct)
  case base
  then show ?case using scc_initial_inv [OF S] assms(2) by auto
next
  case (step c c')
  show ?case by (rule scc_step_inv [OF step(2,3) S])
qed

section \<open>Termination\<close>

definition worker_rank :: "worker_state \<Rightarrow> nat" where
  "worker_rank w = (case w of WEffectWait \<Rightarrow> 4 | WEffectCollect _ \<Rightarrow> 3 | WConditionWait _ \<Rightarrow> 2
     | WConditionCollect _ _ \<Rightarrow> 1 | WDone _ \<Rightarrow> 0)"

definition remaining :: "scc_params \<Rightarrow> scc_system \<Rightarrow> nat" where
  "remaining P c = (\<Sum>sh \<in> UNIV. \<Sum>i < length (txs (the_batch P)).
     worker_rank (workers c sh i) + (if i \<in> reported c sh then 0 else 1))"

definition run_measure :: "scc_params \<Rightarrow> scc_system \<Rightarrow> nat" where
  "run_measure P c = remaining P c * Suc (card (UNIV :: shard_id set)) + size (net c)"

lemma sum_less_at:
  fixes f :: "'a::finite \<Rightarrow> nat \<Rightarrow> nat"
  assumes "i < n" "f' a i < f a i" "\<And>x j. (x, j) \<noteq> (a, i) \<Longrightarrow> f' x j = f x j"
  shows "(\<Sum>x \<in> UNIV. \<Sum>j < n. f' x j) < (\<Sum>x \<in> UNIV. \<Sum>j < n. f x j)"
proof -
  have le: "f' x j \<le> f x j" for x j
    using assms(2,3) by (cases "(x, j) = (a, i)") auto
  have "(\<Sum>j < n. f' a j) < (\<Sum>j < n. f a j)"
    by (rule sum_strict_mono_ex1) (use assms(1,2) le in auto)
  then show ?thesis
    by (intro sum_strict_mono_ex1) (auto intro!: sum_mono le)
qed

lemma send_at_length: "send_at P sh i ph st r = Ok ms \<Longrightarrow> length ms \<le> card (UNIV :: shard_id set)"
proof -
  assume "send_at P sh i ph st r = Ok ms"
  then have "length ms = length (filter (\<lambda>t. t \<noteq> sh)
      (sorted_list_of_set (p_all (participants_of (layout P) (tx_of_params P i)))))"
    unfolding send_at_def send_scc_read_result_def by (rule traverse_length)
  also have "\<dots> \<le> card (p_all (participants_of (layout P) (tx_of_params P i)))"
    by (rule order_trans [OF length_filter_le]) simp
  also have "\<dots> \<le> card (UNIV :: shard_id set)" by (intro card_mono) auto
  finally show ?thesis .
qed

text \<open>A worker that moves on pays for the messages it sends.\<close>

lemma run_measure_work:
  assumes "remaining P c' < remaining P c" "size (net c') \<le> size (net c) + card (UNIV :: shard_id set)"
  shows "run_measure P c' < run_measure P c"
proof -
  let ?M = "Suc (card (UNIV :: shard_id set))"
  have "Suc (remaining P c') * ?M \<le> remaining P c * ?M" using assms(1) by (intro mult_le_mono1) simp
  then show ?thesis using assms(2) by (simp add: run_measure_def)
qed

lemma remaining_worker:
  assumes "i < length (txs (the_batch P))" "worker_rank w < worker_rank (workers c sh i)"
    and "workers c' = (workers c)(sh := (workers c sh)(i := w))" "reported c' = reported c"
  shows "remaining P c' < remaining P c"
  unfolding remaining_def by (rule sum_less_at [OF assms(1), of _ sh]) (use assms in auto)

lemma remaining_report:
  assumes "i < length (txs (the_batch P))" "i \<notin> reported c sh"
    and "workers c' = workers c" "reported c' = (reported c)(sh := insert i (reported c sh))"
  shows "remaining P c' < remaining P c"
  unfolding remaining_def by (rule sum_less_at [OF assms(1), of _ sh]) (use assms in auto)

lemma run_measure_message:
  assumes "x \<in># net c" "net c' = net c - {#x#}" "workers c' = workers c" "reported c' = reported c"
  shows "run_measure P c' < run_measure P c"
  using assms size_Diff_singleton [of x "net c"] nonempty_has_size [of "net c"]
  by (force simp: run_measure_def remaining_def)

lemma scc_step_decreases: "scc_step P c c' \<Longrightarrow> run_measure P c' < run_measure P c"
proof (induction rule: scc_step.induct)
  case (deliver target msg c)
  then show ?case by (intro run_measure_message) auto
next
  case (deliver_closed target msg c)
  then show ?case by (intro run_measure_message) auto
next
  case (deliver_late target msg c)
  then show ?case by (intro run_measure_message) auto
next
  case (deliver_unread target msg c)
  then show ?case by (intro run_measure_message) auto
next
  case (deliver_aborted target msg c)
  then show ?case by (intro run_measure_message) auto
qed (rule run_measure_work,
  (rule remaining_worker remaining_report,
    auto simp: participates_def worker_rank_def set_worker_def set_slots_def)[1],
  use send_at_length in \<open>force simp: set_worker_def set_slots_def\<close>)+

lemma scc_runs_finite: "wfP (\<lambda>c' c. scc_step P c c')"
  by (rule wfp_if_convertible_to_nat [of _ "run_measure P"]) (rule scc_step_decreases)

section \<open>Progress\<close>

text \<open>The vertices before \<open>i\<close> are reported on the shard: its slots and graphs are settled there.\<close>

lemma settled_materialize:
  assumes inv: "scc_inv P L b s0 c" and S: "scc_setting L b s0 ps P" and i: "i < length (txs b)"
    and before: "{..<i} \<subseteq> reported c sh"
  shows "prefix_failed L b s0 sh i \<Longrightarrow> \<exists>r. materialize_at P c sh i EffectPhase = Err (SpeculationFailed r)"
    "\<not> prefix_failed L b s0 sh i \<Longrightarrow> materialize_at P c sh i EffectPhase =
      Ok (Some (reads_of (scc_state L b s0 (prefix_len b i)) (local_read_keys L (tx_at b i) sh)))"
proof -
  have "slots c sh ! k \<noteq> SlotPending" if "k < i" for k
  proof -
    have "k < length (txs b)" "k \<in> reported c sh" using that i before by auto
    then have "slots c sh ! k = scc_slot L b s0 sh k" by (rule scc_inv_reported_slot [OF inv])
    then show ?thesis by simp
  qed
  then have "\<not> (\<exists>k < prefix_len b i. slots c sh ! k = SlotPending)"
    using prefix_len_le [of b i] by auto
  with materialize_at_cases [OF S i scc_invD(1) [OF inv] prefix_slots [OF inv i]]
  show "prefix_failed L b s0 sh i \<Longrightarrow> \<exists>r. materialize_at P c sh i EffectPhase = Err (SpeculationFailed r)"
    "\<not> prefix_failed L b s0 sh i \<Longrightarrow> materialize_at P c sh i EffectPhase =
      Ok (Some (reads_of (scc_state L b s0 (prefix_len b i)) (local_read_keys L (tx_at b i) sh)))"
    by blast+
qed

lemma settled_ready:
  assumes "dag_inv g True F rt" "v < length (nodes g)" "batch_ordered g" "{..<v} \<subseteq> F"
  shows "\<not> ready_tx (rt ! v)"
proof -
  have "p < v" if "p \<in> preds g v" for p
    using batch_orderedD [OF assms(3), of p v] that by (simp add: preds_def)
  then have "preds g v - F = {}" using assms(4) by fastforce
  moreover have "ready_tx (rt ! v) = (card (preds g v - F) \<noteq> 0)"
    using assms(1,2) unfolding dag_inv_def by (metis dag_runtime_node.select_convs(3))
  ultimately show ?thesis by simp
qed

text \<open>
  The steps of a worker, each with its effect on the workers, the reports and the failed shards.
\<close>

definition moved :: "scc_system \<Rightarrow> shard_id \<Rightarrow> nat \<Rightarrow> worker_state \<Rightarrow> scc_system \<Rightarrow> bool" where
  "moved c sh i w c' \<longleftrightarrow> workers c' = (workers c)(sh := (workers c sh)(i := w)) \<and>
     reported c' = reported c \<and> failed_shards c' = failed_shards c"

lemma moved_simps [simp]:
  "moved c sh i w (post ms (set_worker sh i w c))"
  "moved c sh i w (post ms (set_slots sh cs (set_worker sh i w c)))"
  "moved c sh i w (set_worker sh i w c)" "moved c sh i w (set_slots sh cs (set_worker sh i w c))"
  by (simp_all add: moved_def set_worker_def set_slots_def)

lemma slot_can_be_set:
  assumes "scc_inv P L b s0 c" "i < length (txs b)" "sh \<in> parts L b i"
    and "\<not> is_done (workers c sh i)" "st \<noteq> SlotPending"
  shows "set_terminal_once i st (slots c sh) = Ok ((slots c sh)[i := st])"
  using local_invD(1) [OF scc_invD(5) [OF assms(1,2)] assms(3,4)] scc_invD(1) [OF assms(1), of sh] assms(2,5)
  by (simp add: set_terminal_once_Ok)

lemma read_step:
  assumes inv: "scc_inv P L b s0 c" and S: "scc_setting L b s0 ps P"
    and i: "i < length (txs b)" "sh \<in> parts L b i"
    and before: "{..<i} \<subseteq> reported c sh" and w: "workers c sh i = WEffectWait"
  defines "w' \<equiv> (if prefix_failed L b s0 sh i then WDone None else WEffectCollect
      (reads_of (scc_state L b s0 (prefix_len b i)) (local_read_keys L (tx_at b i) sh)))"
  shows "\<exists>c'. scc_step P c c' \<and> moved c sh i w' c' \<and>
    (\<forall>t \<in> parts L b i - {sh}. (t, emsg L b s0 sh i) \<in># net c')"
proof -
  note sd = scc_settingD [OF S]
  note sp = scc_setting_plan [OF S]
  let ?ms = "map (\<lambda>t. (t, emsg L b s0 sh i)) (targets L b sh i)"
  have t: "set (targets L b sh i) = parts L b i - {sh}"
    by (rule targets(2) [OF scc_batchD(1) [OF sd(1) i(1)]])
  have part: "participates P sh i" using i by (simp add: sd(8))
  have ready: "\<not> ready_tx (effect_rt (dags c sh) ! i)"
    using settled_ready [OF scc_invD(3) [OF inv] _ sp(5) before] i(1) sp(2) by simp
  have nd: "\<not> is_done (workers c sh i)" by (simp add: w)
  note mat = settled_materialize [OF inv S i(1) before]
  show ?thesis
  proof (cases "prefix_failed L b s0 sh i")
    case False
    then have "send_at P sh i SccEffect StatusOk
        (reads_of (scc_state L b s0 (prefix_len b i)) (local_read_keys L (tx_at b i) sh)) = Ok ?ms"
      by (intro send_at_eq [OF S i(1)]) auto
    then show ?thesis
      using effect_read [OF part w ready mat(2) [OF False]] False t
      by (intro exI [of _ "post ?ms (set_worker sh i w' c)"]) (auto simp: w'_def)
  next
    case True
    then obtain r where r: "materialize_at P c sh i EffectPhase = Err (SpeculationFailed r)" using mat(1) by blast
    have "send_at P sh i SccEffect StatusSpeculationFailed Map.empty = Ok ?ms"
      using True by (intro send_at_eq [OF S i(1)]) auto
    then show ?thesis
      using effect_read_failed [OF part w ready r _ slot_can_be_set [OF inv i nd]] True t
      by (intro exI [of _ "post ?ms (set_slots sh ((slots c sh)[i := SlotFailed]) (set_worker sh i w' c))"])
        (auto simp: w'_def)
  qed
qed

text \<open>A missing read is in transit to a worker that waits for it.\<close>

lemma deliver_enabled:
  assumes inv: "scc_inv P L b s0 c" and S: "scc_setting L b s0 ps P"
    and d: "due L b c sh f i" "\<not> is_done (workers c sh i)" and nf: "failed_shards c = {}"
    and absent: "emsg L b s0 f i \<notin> set (mailboxes c sh (tx_id (tx_at b i), SccEffect))"
  shows "\<exists>c'. scc_step P c c'"
proof -
  note sd = scc_settingD [OF S]
  have "copies c sh (emsg L b s0 f i) = 1"
    using scc_invD(7) [OF inv, unfolded msg_inv_def] d nf by blast
  then have "0 < count (net c) (sh, emsg L b s0 f i)" using absent by (simp add: copies_def)
  then have n: "(sh, emsg L b s0 f i) \<in># net c" by simp
  have "\<forall>r. workers c sh j \<noteq> WDone r"
    if "participates P sh j" "tx_id (tx_of_params P j) = lrr_tx_id (emsg L b s0 f i)" for j
  proof -
    have "j = i" using that d(1) nth_eq_iff_index_eq [OF sd(2), of i j] by (simp add: sd(7,8) due_def)
    then show ?thesis using d(2) by (auto simp: is_done_def)
  qed
  from deliver [OF n this] show ?thesis by blast
qed

text \<open>A worker whose mailbox decides: it fails, or executes.\<close>

lemma execute_step:
  assumes inv: "scc_inv P L b s0 c" and S: "scc_setting L b s0 ps P"
    and i: "i < length (txs b)" "sh \<in> parts L b i" and w: "workers c sh i = WEffectCollect r"
    and col: "collect_at P c sh i SccEffect r \<noteq> Ok None"
  shows "\<exists>c'. scc_step P c c' \<and> moved c sh i (if scc_ok L b s0 i
    then WConditionWait (filter_delta_to_keys (scc_delta L b s0 i) (local_write_keys L (tx_at b i) sh))
    else WDone None) c'"
proof -
  note sd = scc_settingD [OF S]
  have part: "participates P sh i" using i by (simp add: sd(8))
  note lw = local_invD [OF scc_invD(5) [OF inv i(1)] i(2)]
  have failed: "set_terminal_once i SlotFailed (slots c sh) = Ok ((slots c sh)[i := SlotFailed])"
    by (rule slot_can_be_set [OF inv i]) (simp_all add: w)
  from collect_at_cases [OF inv S i lw(3) [OF w], folded lw(4) [OF w]] col
  consider (err) reason where "\<exists>f \<in> parts L b i. prefix_failed L b s0 f i"
      "collect_at P c sh i SccEffect r = Err (SpeculationFailed reason)"
    | (all) "\<forall>f \<in> parts L b i. \<not> prefix_failed L b s0 f i" "collect_at P c sh i SccEffect r =
        Ok (Some (reads_of (scc_state L b s0 (prefix_len b i)) (read_set (tx_at b i))))"
    by blast
  then show ?thesis
  proof cases
    case err
    then have "\<not> scc_ok L b s0 i" unfolding scc_ok_parts [of L b s0 i] by blast
    then show ?thesis using collect_failed [OF part w err(2) failed] moved_simps(4) by auto
  next
    case all
    note ex = scc_execute_eq [OF sd(1) i(1) all(1), of "tx_plans (plan P) ! i" sh]
    show ?thesis
    proof (cases "scc_ok L b s0 i")
      case True
      then show ?thesis using execute [OF part w all(2)] ex scc_setting_plan(4) [OF S i(1)] moved_simps(3)
        by (auto simp: sd(3,7))
    next
      case False
      then show ?thesis
        using execute_failed [OF part w all(2) _ failed] ex scc_setting_plan(4) [OF S i(1)] moved_simps(4)
        by (auto simp: sd(3,7))
    qed
  qed
qed

lemma collect_step_enabled:
  assumes inv: "scc_inv P L b s0 c" and S: "scc_setting L b s0 ps P"
    and i: "i < length (txs b)" "sh \<in> parts L b i"
    and before: "\<And>t. {..<i} \<subseteq> reported c t" and w: "workers c sh i = WEffectCollect r"
    and nf: "failed_shards c = {}"
  shows "\<exists>c'. scc_step P c c'"
proof (cases "collect_at P c sh i SccEffect r = Ok None")
  case False
  then show ?thesis using execute_step [OF inv S i w] by blast
next
  case True
  note lw = local_invD [OF scc_invD(5) [OF inv i(1)] i(2)]
  from collect_at_cases [OF inv S i lw(3) [OF w], folded lw(4) [OF w]] True
  obtain f where f: "f \<in> parts L b i - {sh}"
    "emsg L b s0 f i \<notin> set (mailboxes c sh (tx_id (tx_at b i), SccEffect))" by auto
  show ?thesis
  proof (cases "workers c f i = WEffectWait")
    case True
    then show ?thesis using read_step [OF inv S i(1) _ before True] f(1) by blast
  next
    case False
    then have "due L b c sh f i" using f(1) i by (auto simp: due_def)
    then show ?thesis using deliver_enabled [OF inv S _ _ nf f(2)] w by simp
  qed
qed

lemma finish_enabled:
  assumes "scc_inv P L b s0 c" "scc_setting L b s0 ps P" "i < length (txs b)" "i \<notin> reported c sh"
  obtains d where "scc_finish_vertex i (dags c sh) = Ok d"
  using finish_both [OF scc_setting_plan(5) [OF assms(2)] scc_invD(3,4) [OF assms(1)], of i]
    scc_setting_plan(2) [OF assms(2)] assms(3,4) by metis

definition reported_step :: "scc_system \<Rightarrow> shard_id \<Rightarrow> nat \<Rightarrow> scc_system \<Rightarrow> bool" where
  "reported_step c sh i c' \<longleftrightarrow> workers c' = workers c \<and> failed_shards c' = failed_shards c \<and>
     reported c' = (reported c)(sh := insert i (reported c sh))"

lemma skip_step:
  assumes inv: "scc_inv P L b s0 c" and S: "scc_setting L b s0 ps P"
    and i: "i < length (txs b)" "sh \<notin> parts L b i" "i \<notin> reported c sh"
  shows "\<exists>c'. scc_step P c c' \<and> reported_step c sh i c'"
proof -
  note sd = scc_settingD [OF S]
  obtain d where d: "scc_finish_vertex i (dags c sh) = Ok d" by (rule finish_enabled [OF inv S i(1,3)])
  have "slots c sh ! i = SlotPending" using scc_invD(5) [OF inv i(1), of sh] i by (simp add: local_inv_def)
  then have "set_terminal_once i SlotNoOp (slots c sh) = Ok ((slots c sh)[i := SlotNoOp])"
    using scc_invD(1) [OF inv, of sh] i(1) by (simp add: set_terminal_once_Ok)
  moreover have "\<not> participates P sh i" using i(2) by (simp add: sd(8))
  ultimately show ?thesis
    using non_participant [OF _ _ i(3) _ d] i(1) sd(4) by (fastforce simp: reported_step_def set_slots_def)
qed

lemma report_step:
  assumes inv: "scc_inv P L b s0 c" and S: "scc_setting L b s0 ps P"
    and i: "i < length (txs b)" "sh \<in> parts L b i" "i \<notin> reported c sh"
    and w: "workers c sh i = WDone r" and nf: "sh \<notin> failed_shards c"
  shows "\<exists>c'. scc_step P c c' \<and> reported_step c sh i c'"
proof -
  obtain d where d: "scc_finish_vertex i (dags c sh) = Ok d" by (rule finish_enabled [OF inv S i(1,3)])
  have "participates P sh i" using i by (simp add: scc_settingD(8) [OF S])
  then show ?thesis using report [OF _ w i(3) nf d] by (fastforce simp: reported_step_def)
qed

lemma commit_step:
  assumes inv: "scc_inv P L b s0 c" and S: "scc_setting L b s0 ps P"
    and i: "i < length (txs b)" "sh \<in> parts L b i"
    and before: "{..<i} \<subseteq> reported c sh" and w: "workers c sh i = WConditionWait d"
  shows "\<exists>c'. scc_step P c c'"
proof -
  have part: "participates P sh i" using i by (simp add: scc_settingD(8) [OF S])
  have "\<not> ready_tx (condition_rt (dags c sh) ! i)"
    using settled_ready [OF scc_invD(4) [OF inv] _ scc_setting_plan(5) [OF S] before] i(1)
      scc_setting_plan(2) [OF S] by simp
  moreover have "set_terminal_once i (slot_of_delta d) (slots c sh) = Ok ((slots c sh)[i := slot_of_delta d])"
    by (rule slot_can_be_set [OF inv i]) (simp_all add: w slot_of_delta_def)
  ultimately show ?thesis using commit_success [OF part w _ covers_condition [OF S i(1)]] by blast
qed

text \<open>The least index that some shard has not reported can move.\<close>

lemma scc_progress:
  assumes inv: "scc_inv P L b s0 c" and S: "scc_setting L b s0 ps P"
    and "i < length (txs b)" "i \<notin> reported c sh" "failed_shards c = {}"
  shows "\<exists>c'. scc_step P c c'"
proof -
  let ?Q = "\<lambda>i. i < length (txs b) \<and> (\<exists>sh. i \<notin> reported c sh)"
  define j where "j = (LEAST i. ?Q i)"
  have j: "?Q j" unfolding j_def by (rule LeastI [of ?Q i]) (use assms in blast)
  then obtain t where t: "j \<notin> reported c t" by blast
  have jn: "j < length (txs b)" using j by blast
  have before: "{..<j} \<subseteq> reported c u" for u
    using not_less_Least [of _ ?Q] jn unfolding j_def by (metis (no_types, lifting) less_trans lessThan_iff subsetI)
  show ?thesis
  proof (cases "t \<in> parts L b j")
    case False
    then show ?thesis using skip_step [OF inv S jn _ t] by blast
  next
    case True
    show ?thesis
    proof (cases "workers c t j")
      case WEffectWait
      then show ?thesis using read_step [OF inv S jn True before] by blast
    next
      case (WEffectCollect r)
      then show ?thesis by (rule collect_step_enabled [OF inv S jn True before _ assms(5)])
    next
      case (WConditionWait d)
      then show ?thesis by (rule commit_step [OF inv S jn True before])
    next
      case (WConditionCollect d r)
      then show ?thesis using local_invD(7) [OF scc_invD(5) [OF inv jn] True] by blast
    next
      case (WDone r)
      then show ?thesis using report_step [OF inv S jn True t] assms(5) by blast
    qed
  qed
qed

section \<open>The cause of an abort\<close>

definition collected :: "worker_state \<Rightarrow> bool" where
  "collected w \<longleftrightarrow> (case w of WEffectWait \<Rightarrow> False | WEffectCollect _ \<Rightarrow> False | _ \<Rightarrow> True)"

text \<open>A worker of a committing transaction that went on received every read.\<close>

definition received_inv :: "shard_layout \<Rightarrow> batch \<Rightarrow> fs_state \<Rightarrow> scc_system \<Rightarrow> bool" where
  "received_inv L b s0 c \<longleftrightarrow>
     (\<forall>sh i f. i < length (txs b) \<and> scc_ok L b s0 i \<and> sh \<in> parts L b i \<and> collected (workers c sh i) \<and>
        f \<in> parts L b i - {sh} \<longrightarrow> emsg L b s0 f i \<in> set (mailboxes c sh (tx_id (tx_at b i), SccEffect)))"

lemma received_inv_update:
  assumes "received_inv L b s0 c"
    and "collected w \<Longrightarrow> scc_ok L b s0 i \<Longrightarrow> \<forall>f \<in> parts L b i - {sh}.
      emsg L b s0 f i \<in> set (mailboxes c sh (tx_id (tx_at b i), SccEffect))"
  shows "received_inv L b s0 (post ms (update_at sh i w st c))"
  unfolding received_inv_def
proof (intro allI impI)
  fix t j f
  assume *: "j < length (txs b) \<and> scc_ok L b s0 j \<and> t \<in> parts L b j \<and>
      collected (workers (post ms (update_at sh i w st c)) t j) \<and> f \<in> parts L b j - {t}"
  show "emsg L b s0 f j \<in> set (mailboxes (post ms (update_at sh i w st c)) t (tx_id (tx_at b j), SccEffect))"
  proof (cases "t = sh \<and> j = i")
    case True
    then show ?thesis using * assms(2) by auto
  next
    case False
    then have "collected (workers c t j)" using * by (auto split: if_splits)
    then show ?thesis using * assms(1) unfolding received_inv_def by simp
  qed
qed

lemma received_inv_grow:
  assumes "received_inv L b s0 c" "workers c' = workers c"
    and "\<And>t k. set (mailboxes c t k) \<subseteq> set (mailboxes c' t k)"
  shows "received_inv L b s0 c'"
  using assms unfolding received_inv_def by (simp add: subset_iff)

lemma failed_slot:
  assumes "scc_inv P L b s0 (post ms (update_at sh i w SlotFailed c))" "i < length (txs b)"
  shows "\<not> scc_ok L b s0 i"
proof -
  have "i < length (slots c sh)" using scc_invD(1) [OF assms(1), of sh] assms(2) by simp
  then have "scc_slot L b s0 sh i = SlotFailed" using scc_inv_slot [OF assms, of sh] by simp
  then show ?thesis by (simp add: scc_slot_failed_iff)
qed

lemma update_failed:
  assumes "set_terminal_once i st (slots c sh) = Ok cs"
  shows "set_slots sh cs (set_worker sh i w c) = update_at sh i w st c"
  using assms by (simp add: set_terminal_once_Ok update_at_def)

lemma scc_step_received:
  assumes step: "scc_step P c c'" and inv: "scc_inv P L b s0 c" and S: "scc_setting L b s0 ps P"
    and R: "received_inv L b s0 c"
  shows "received_inv L b s0 c'"
proof -
  note sd = scc_settingD [OF S]
  note inv' = scc_step_inv [OF step inv S]
  note up = received_inv_update [OF R]
  have failed: "received_inv L b s0 (post ms (update_at sh i w SlotFailed c))"
    if "c' = post ms (update_at sh i w SlotFailed c)" "participates P sh i" for ms sh i w
    using failed_slot [of P L b s0 ms sh i w c] inv' that by (intro up) (simp add: sd(8))
  have old: "\<forall>f \<in> parts L b i - {sh}. emsg L b s0 f i \<in> set (mailboxes c sh (tx_id (tx_at b i), SccEffect))"
    if "participates P sh i" "collected (workers c sh i)" "scc_ok L b s0 i" for sh i
    using R that unfolding received_inv_def by (simp add: sd(8))
  from step show ?thesis
  proof cases
    case (effect_read sh i r ms)
    then show ?thesis using up [of "WEffectCollect r" i sh ms] by (simp add: set_worker_update collected_def)
  next
    case (effect_read_failed sh i reason ms cs)
    then show ?thesis using failed [of ms sh i "WDone None"] by (simp add: update_failed)
  next
    case (execute sh i r full_reads d)
    then have i: "i < length (txs b)" "sh \<in> parts L b i" by (simp_all add: sd(8))
    note lw = local_invD [OF scc_invD(5) [OF inv i(1), of sh] i(2)]
    have "\<forall>f \<in> parts L b i - {sh}. emsg L b s0 f i \<in> set (mailboxes c sh (tx_id (tx_at b i), SccEffect))"
      using collect_at_cases [OF inv S i lw(3) [OF execute(3)]] execute(4) lw(4) [OF execute(3)] by auto
    then show ?thesis using up [of "WConditionWait d" i sh "[]"] by (simp add: execute(1) set_worker_update)
  next
    case (execute_failed sh i r full_reads cs)
    then show ?thesis using failed [of "[]" sh i "WDone None"] by (simp add: update_failed)
  next
    case (collect_failed sh i r reason cs)
    then show ?thesis using failed [of "[]" sh i "WDone None"] by (simp add: update_failed)
  next
    case (commit_success sh i d cs)
    then show ?thesis using up [of _ i sh "[]"] old [of sh i]
      by (simp add: update_failed collected_def)
  next
    case (condition_read sh i d r ms)
    then show ?thesis using covers_condition [OF S] by (simp add: sd(8))
  next
    case (condition_read_failed sh i d reason ms cs)
    then show ?thesis using covers_condition [OF S] by (simp add: sd(8))
  next
    case (condition_success sh i d r full_reads cs)
    then show ?thesis using up [of _ i sh "[]"] old [of sh i]
      by (simp add: update_failed collected_def)
  next
    case (condition_failed sh i d r reason cs)
    then show ?thesis using failed [of "[]" sh i "WDone None"] by (simp add: update_failed)
  next
    case (non_participant i sh cs d)
    show ?thesis unfolding non_participant(1) by (rule received_inv_grow [OF R]) (simp_all add: set_slots_def)
  next
    case (deliver target msg)
    show ?thesis unfolding deliver(1) by (rule received_inv_grow [OF R]) auto
  next
    case (deliver_closed target msg i r)
    show ?thesis unfolding deliver_closed(1) by (rule received_inv_grow [OF R]) simp_all
  next
    case (deliver_late target msg)
    show ?thesis unfolding deliver_late(1) by (rule received_inv_grow [OF R]) simp_all
  next
    case (deliver_unread target msg)
    show ?thesis unfolding deliver_unread(1) by (rule received_inv_grow [OF R]) simp_all
  next
    case (deliver_aborted target msg)
    show ?thesis unfolding deliver_aborted(1) by (rule received_inv_grow [OF R]) simp_all
  next
    case (report sh i r d)
    show ?thesis unfolding report(1) by (rule received_inv_grow [OF R]) simp_all
  qed
qed

lemma closed_mailbox_failed:
  assumes inv: "scc_inv P L b s0 c" and S: "scc_setting L b s0 ps P" and R: "received_inv L b s0 c"
    and n: "(target, msg) \<in># net c" and part: "participates P target i"
    and tx: "tx_id (tx_of_params P i) = lrr_tx_id msg" and w: "workers c target i = WDone r"
  shows "\<not> scc_ok L b s0 i"
proof
  assume ok: "scc_ok L b s0 i"
  note sd = scc_settingD [OF S]
  obtain f j where f: "due L b c target f j" "msg = emsg L b s0 f j" by (rule in_net_due [OF inv n])
  then have "j = i" using part tx nth_eq_iff_index_eq [OF sd(2), of i j] by (simp add: sd(7,8) due_def)
  then have "msg \<in> set (mailboxes c target (lrr_tx_id msg, lrr_phase msg))"
    using R ok w f part unfolding received_inv_def by (auto simp: due_def collected_def sd(8))
  then have "0 < count (mset (mailboxes c target (lrr_tx_id msg, lrr_phase msg))) msg"
    by (simp add: count_mset_gt_0)
  moreover have "0 < count (net c) (target, msg)" using n by simp
  ultimately have "2 \<le> copies c target msg" unfolding copies_def by linarith
  moreover have "copies c target msg \<le> (if \<exists>f i. due L b c target f i \<and> msg = emsg L b s0 f i then 1 else 0)"
    using scc_invD(7) [OF inv, unfolded msg_inv_def] by blast
  ultimately show False by (auto split: if_splits)
qed

lemma scc_abort_cause:
  assumes S: "scc_setting L b s0 ps P" and "scc_initial P = Ok c0" "(scc_step P)\<^sup>*\<^sup>* c0 c"
  shows "received_inv L b s0 c \<and>
    (failed_shards c \<noteq> {} \<longrightarrow> (\<exists>i < length (txs b). \<not> scc_ok L b s0 i))"
  using assms(3)
proof (induction rule: rtranclp_induct)
  case base
  then show ?case using assms(2) by (auto simp: scc_initial_def rbind_eq_Inr received_inv_def collected_def)
next
  case (step c c')
  note inv = scc_inv_reachable [OF S assms(2) step(1)]
  have R: "received_inv L b s0 c" using step(3) by blast
  have "failed_shards c' = failed_shards c \<or> (\<exists>i < length (txs b). \<not> scc_ok L b s0 i)"
    using step(2)
  proof cases
    case (deliver_closed target msg i r)
    then show ?thesis
      using closed_mailbox_failed [OF inv S R deliver_closed(2-5)] scc_settingD(8) [OF S] by blast
  qed (simp_all add: set_slots_def set_worker_def)
  then show ?case using step(3) scc_step_received [OF step(2) inv S R] by auto
qed

end
