(* ===== verification/Storage.thy ===== *)
theory Storage
  imports Delta "HOL-Library.DAList"
begin

text \<open>
  The inode store of a shard, \<open>src/storage.rs\<close>. The embedded key-value table (redb with its
  in-memory backend) and the byte encoding of inodes (bincode) are not part of the repository: they
  are parameters, and the locales below state what the store relies on. A write transaction either
  commits as a whole or is dropped, so a failing function returns no new table and its caller keeps
  the old one. The lemmas show that the store implements reads, writes and deltas on the abstract
  state, and that its delta code agrees with the one of \<open>src/scc.rs\<close>.
\<close>

section \<open>Parameters\<close>

record 't table_ops =
  table_new :: "'t result"
  table_get :: "'t \<Rightarrow> string \<Rightarrow> u8 list option result"
  table_insert :: "string \<Rightarrow> u8 list \<Rightarrow> 't \<Rightarrow> 't result"
  table_remove :: "string \<Rightarrow> 't \<Rightarrow> 't result"
  table_iter :: "'t \<Rightarrow> (string \<times> u8 list) list result"

record inode_codec =
  serialize :: "inode \<Rightarrow> u8 list result"
  deserialize :: "u8 list \<Rightarrow> inode result"

section \<open>Operations\<close>

definition store_new :: "'t table_ops \<Rightarrow> 't result" where
  "store_new T = table_new T"

definition read_many :: "'t table_ops \<Rightarrow> inode_codec \<Rightarrow> key set \<Rightarrow> 't \<Rightarrow> reads result" where
  "read_many T C K t =
     fold_res (\<lambda>k out. rbind (table_get T t (as_str k)) (\<lambda>v. case v of
         Some bytes \<Rightarrow> rbind (deserialize C bytes) (\<lambda>i. Ok (out(k \<mapsto> Present i)))
       | None \<Rightarrow> Ok (out(k \<mapsto> Missing)))) (sorted_list_of_set K) Map.empty"

fun store_write :: "'t table_ops \<Rightarrow> inode_codec \<Rightarrow> write_op \<Rightarrow> 't \<Rightarrow> 't result" where
  "store_write T C (Put k v) t = rbind (serialize C v) (\<lambda>bytes. table_insert T (as_str k) bytes t)"
| "store_write T C (Delete k) t = table_remove T (as_str k) t"

definition apply_writes_atomically ::
    "'t table_ops \<Rightarrow> inode_codec \<Rightarrow> write_op list \<Rightarrow> 't \<Rightarrow> 't result" where
  "apply_writes_atomically T C ws t = fold_res (store_write T C) ws t"

fun store_delta_op :: "'t table_ops \<Rightarrow> inode_codec \<Rightarrow> delta_op \<Rightarrow> 't \<Rightarrow> 't result" where
  "store_delta_op T C (DPut k v) t = rbind (serialize C v) (\<lambda>bytes. table_insert T (as_str k) bytes t)"
| "store_delta_op T C (DDelete k) t = table_remove T (as_str k) t"
| "store_delta_op T C (AddIntegerField k ChildCount d) t =
     rbind (table_get T t (as_str k)) (\<lambda>current.
     case current of
       None \<Rightarrow> Err (InvalidBatch ''cannot apply child_count delta to missing key'')
     | Some bytes \<Rightarrow>
         rbind (deserialize C bytes) (\<lambda>i.
         if kind i \<noteq> Directory
         then Err (InvalidBatch ''cannot apply child_count delta to non-directory'')
         else (case apply_signed_delta (child_count i) d of
             None \<Rightarrow> Err (InvalidBatch ''child_count delta underflow'')
           | Some c \<Rightarrow>
               rbind (serialize C (i\<lparr>child_count := c\<rparr>)) (\<lambda>bytes. table_insert T (as_str k) bytes t))))"

definition apply_delta_atomically ::
    "'t table_ops \<Rightarrow> inode_codec \<Rightarrow> tx_delta \<Rightarrow> 't \<Rightarrow> 't result" where
  "apply_delta_atomically T C d t = fold_res (store_delta_op T C) (delta_ops d) t"

definition dump :: "'t table_ops \<Rightarrow> inode_codec \<Rightarrow> 't \<Rightarrow> fs_state result" where
  "dump T C t =
     rbind (table_iter T t) (\<lambda>items.
     fold_res (\<lambda>(k, v) out. rbind (key_new k) (\<lambda>key. rbind (deserialize C v) (\<lambda>i. Ok (out(key \<mapsto> i)))))
       items Map.empty)"

section \<open>The contract of the store\<close>

text \<open>What the engine relies on, over the abstract state of a store.\<close>

locale inode_store =
  fixes new :: "'t result"
    and rd :: "key set \<Rightarrow> 't \<Rightarrow> reads result"
    and wr :: "write_op list \<Rightarrow> 't \<Rightarrow> 't result"
    and dl :: "tx_delta \<Rightarrow> 't \<Rightarrow> 't result"
    and dp :: "'t \<Rightarrow> fs_state result"
    and abs :: "'t \<Rightarrow> fs_state"
    and good :: "'t \<Rightarrow> bool"
  assumes new_ok: "\<exists>t. new = Ok t \<and> good t \<and> abs t = Map.empty"
    and read_ok: "good t \<Longrightarrow> finite K \<Longrightarrow> rd K t = Ok (reads_of (abs t) K)"
    and write_ok: "good t \<Longrightarrow> (\<forall>w \<in> set ws. valid_key (write_key w)) \<Longrightarrow>
      \<exists>t'. wr ws t = Ok t' \<and> good t' \<and> abs t' = apply_writes (abs t) ws"
    and delta_ok: "good t \<Longrightarrow> (\<forall>x \<in> set (delta_ops d). valid_key (delta_key x)) \<Longrightarrow>
      apply_delta_to_state (abs t) d = Ok s \<Longrightarrow> \<exists>t'. dl d t = Ok t' \<and> good t' \<and> abs t' = s"
    and delta_err: "good t \<Longrightarrow> (\<forall>x \<in> set (delta_ops d). valid_key (delta_key x)) \<Longrightarrow>
      apply_delta_to_state (abs t) d = Err e \<Longrightarrow> dl d t = Err e"
    and dump_ok: "good t \<Longrightarrow> dp t = Ok (abs t)"
begin

text \<open>A history of committed write batches, then a dump.\<close>

lemma history:
  assumes "good t" "\<forall>ws \<in> set h. \<forall>w \<in> set ws. valid_key (write_key w)"
  shows "\<exists>t'. fold_res wr h t = Ok t' \<and> good t' \<and> dp t' = Ok (apply_writes (abs t) (concat h))"
  using assms
proof (induction h arbitrary: t)
  case Nil
  then show ?case by (auto simp: dump_ok apply_writes_def)
next
  case (Cons ws h)
  then obtain t1 where t1: "wr ws t = Ok t1" "good t1" "abs t1 = apply_writes (abs t) ws"
    using write_ok [of t ws] by auto
  then show ?case using Cons.IH [OF t1(2)] Cons.prems by (auto simp: apply_writes_def)
qed

text \<open>Deltas commit exactly when the in-memory state accepts them, with the same error otherwise.\<close>

lemma delta_history:
  assumes "good t" "\<forall>d \<in> set ds. \<forall>x \<in> set (delta_ops d). valid_key (delta_key x)"
  shows "rbind (fold_res dl ds t) dp = fold_res (\<lambda>d s. apply_delta_to_state s d) ds (abs t)"
  using assms
proof (induction ds arbitrary: t)
  case Nil
  then show ?case by (simp add: dump_ok)
next
  case (Cons d ds)
  have v: "\<forall>x \<in> set (delta_ops d). valid_key (delta_key x)" using Cons.prems(2) by simp
  show ?case
  proof (cases "apply_delta_to_state (abs t) d")
    case (Inl e)
    then show ?thesis using delta_err [OF Cons.prems(1) v] by simp
  next
    case (Inr s)
    then obtain t1 where "dl d t = Ok t1" "good t1" "abs t1 = s"
      using delta_ok [OF Cons.prems(1) v] by blast
    then show ?thesis using Cons.IH [of t1] Cons.prems(2) Inr by simp
  qed
qed

end

section \<open>The implementation over a table\<close>

text \<open>The abstract state of a table, and the tables whose entries all decode.\<close>

definition decoded :: "inode_codec \<Rightarrow> (string \<rightharpoonup> u8 list) \<Rightarrow> fs_state" where
  "decoded C m = (\<lambda>k. case m (as_str k) of
     None \<Rightarrow> None
   | Some bytes \<Rightarrow> (case deserialize C bytes of Ok i \<Rightarrow> Some i | Err _ \<Rightarrow> None))"

definition well_encoded :: "inode_codec \<Rightarrow> (string \<rightharpoonup> u8 list) \<Rightarrow> bool" where
  "well_encoded C m \<longleftrightarrow> (\<forall>k bytes. m k = Some bytes \<longrightarrow>
     valid_key (Key k) \<and> (\<exists>i. deserialize C bytes = Ok i))"

text \<open>The documented behaviour of the table and of the encoding.\<close>

locale kv_table =
  fixes T :: "'t table_ops"
    and entries :: "'t \<Rightarrow> (string \<rightharpoonup> u8 list)"
  assumes table_new: "\<exists>t. table_new T = Ok t \<and> entries t = Map.empty"
    and table_get: "table_get T t k = Ok (entries t k)"
    and table_insert: "\<exists>t'. table_insert T k v t = Ok t' \<and> entries t' = (entries t)(k \<mapsto> v)"
    and table_remove: "\<exists>t'. table_remove T k t = Ok t' \<and> entries t' = (entries t)(k := None)"
    and table_iter: "\<exists>xs. table_iter T t = Ok xs \<and> distinct (map fst xs) \<and> map_of xs = entries t"

locale inode_storage = kv_table T entries
  for T :: "'t table_ops" and entries :: "'t \<Rightarrow> (string \<rightharpoonup> u8 list)" +
  fixes C :: inode_codec
  assumes codec: "\<exists>bytes. serialize C i = Ok bytes \<and> deserialize C bytes = Ok i"
begin

abbreviation stored :: "'t \<Rightarrow> fs_state" where
  "stored t \<equiv> decoded C (entries t)"

abbreviation well_stored :: "'t \<Rightarrow> bool" where
  "well_stored t \<equiv> well_encoded C (entries t)"

lemmas stored_def = decoded_def
lemmas well_stored_def = well_encoded_def

lemma stored_get:
  assumes "well_stored t"
  shows "entries t (as_str k) = None \<Longrightarrow> stored t k = None"
    "entries t (as_str k) = Some bytes \<Longrightarrow> \<exists>i. deserialize C bytes = Ok i \<and> stored t k = Some i"
  using assms unfolding stored_def well_stored_def by (auto, metis sum.simps(6) key.collapse)

lemma read_many_stored:
  assumes "well_stored t" "finite K"
  shows "read_many T C K t = Ok (reads_of (stored t) K)"
proof -
  have "fold_res (\<lambda>k out. rbind (table_get T t (as_str k)) (\<lambda>v. case v of
         Some bytes \<Rightarrow> rbind (deserialize C bytes) (\<lambda>i. Ok (out(k \<mapsto> Present i)))
       | None \<Rightarrow> Ok (out(k \<mapsto> Missing)))) ks out =
     Ok (\<lambda>k. if k \<in> set ks then Some (read_value_of (stored t k)) else out k)" for ks out
  proof (induction ks arbitrary: out)
    case (Cons k ks)
    show ?case
    proof (cases "entries t (as_str k)")
      case None
      then show ?thesis using Cons stored_get(1) [OF assms(1) None]
        by (auto simp: table_get fun_eq_iff read_value_of_def)
    next
      case (Some bytes)
      then obtain i where "deserialize C bytes = Ok i" "stored t k = Some i"
        using stored_get(2) [OF assms(1) Some] by blast
      then show ?thesis using Cons Some by (auto simp: table_get fun_eq_iff read_value_of_def)
    qed
  qed simp
  from this [of "sorted_list_of_set K" Map.empty] show ?thesis
    using assms(2) by (simp add: read_many_def reads_of_def fun_eq_iff)
qed

lemma put_stored:
  assumes "well_stored t" "valid_key k"
  shows "\<exists>t'. rbind (serialize C v) (\<lambda>bytes. table_insert T (as_str k) bytes t) = Ok t' \<and>
    well_stored t' \<and> stored t' = (stored t)(k \<mapsto> v)"
proof -
  obtain bytes where b: "serialize C v = Ok bytes" "deserialize C bytes = Ok v" using codec by blast
  obtain t' where t': "table_insert T (as_str k) bytes t = Ok t'" "entries t' = (entries t)(as_str k \<mapsto> bytes)"
    using table_insert by blast
  have "well_stored t'" using assms t'(2) b(2) by (auto simp: well_stored_def)
  moreover have "stored t' = (stored t)(k \<mapsto> v)"
    using t'(2) b(2) by (auto simp: stored_def fun_eq_iff key.expand)
  ultimately show ?thesis using b(1) t'(1) by simp
qed

lemma delete_stored:
  assumes "well_stored t"
  shows "\<exists>t'. table_remove T (as_str k) t = Ok t' \<and> well_stored t' \<and> stored t' = (stored t)(k := None)"
proof -
  obtain t' where t': "table_remove T (as_str k) t = Ok t'" "entries t' = (entries t)(as_str k := None)"
    using table_remove by blast
  then show ?thesis using assms by (auto simp: well_stored_def stored_def fun_eq_iff key.expand)
qed

lemma write_stored:
  assumes "well_stored t" "valid_key (write_key w)"
  shows "\<exists>t'. store_write T C w t = Ok t' \<and> well_stored t' \<and> stored t' = apply_write w (stored t)"
  using assms put_stored [of t] delete_stored [of t] by (cases w) simp_all

lemma writes_stored:
  assumes "well_stored t" "\<forall>w \<in> set ws. valid_key (write_key w)"
  shows "\<exists>t'. apply_writes_atomically T C ws t = Ok t' \<and> well_stored t' \<and>
    stored t' = apply_writes (stored t) ws"
  using assms
proof (induction ws arbitrary: t)
  case Nil
  then show ?case by (simp add: apply_writes_atomically_def)
next
  case (Cons w ws)
  then obtain t1 where "store_write T C w t = Ok t1" "well_stored t1" "stored t1 = apply_write w (stored t)"
    using write_stored [of t w] by auto
  then show ?case using Cons.IH [of t1] Cons.prems(2) by (simp add: apply_writes_atomically_def)
qed

text \<open>One delta operation on the table is that operation on the abstract state.\<close>

lemma delta_op_stored:
  assumes "well_stored t" "valid_key (delta_key x)"
  shows "case apply_delta_op x (stored t) of
      Ok s \<Rightarrow> (\<exists>t'. store_delta_op T C x t = Ok t' \<and> well_stored t' \<and> stored t' = s)
    | Err e \<Rightarrow> store_delta_op T C x t = Err e"
proof (cases x)
  case (DPut k v)
  then show ?thesis using put_stored [OF assms(1), of k v] assms(2) by simp
next
  case (DDelete k)
  then show ?thesis using delete_stored [OF assms(1), of k] by simp
next
  case (AddIntegerField k f d)
  obtain c where f: "f = ChildCount" by (cases f)
  show ?thesis
  proof (cases "entries t (as_str k)")
    case None
    then show ?thesis using stored_get(1) [OF assms(1) None] AddIntegerField f by (simp add: table_get)
  next
    case (Some bytes)
    then obtain i where i: "deserialize C bytes = Ok i" "stored t k = Some i"
      using stored_get(2) [OF assms(1) Some] by blast
    show ?thesis
    proof (cases "kind i = Directory")
      case False
      then show ?thesis using i Some AddIntegerField f by (simp add: table_get)
    next
      case True
      show ?thesis
      proof (cases "apply_signed_delta (child_count i) d")
        case None
        then show ?thesis using i Some AddIntegerField f True by (simp add: table_get)
      next
        case (Some c)
        show ?thesis
          using put_stored [OF assms(1), of k "i\<lparr>child_count := c\<rparr>"] assms(2) i \<open>entries t _ = _\<close>
            AddIntegerField f True Some by (simp add: table_get)
      qed
    qed
  qed
qed

lemma delta_stored:
  assumes "well_stored t" "\<forall>x \<in> set (delta_ops d). valid_key (delta_key x)"
  shows "case apply_delta_to_state (stored t) d of
      Ok s \<Rightarrow> (\<exists>t'. apply_delta_atomically T C d t = Ok t' \<and> well_stored t' \<and> stored t' = s)
    | Err e \<Rightarrow> apply_delta_atomically T C d t = Err e"
proof -
  have "case fold_res apply_delta_op xs (stored t) of
      Ok s \<Rightarrow> (\<exists>t'. fold_res (store_delta_op T C) xs t = Ok t' \<and> well_stored t' \<and> stored t' = s)
    | Err e \<Rightarrow> fold_res (store_delta_op T C) xs t = Err e"
    if "\<forall>x \<in> set xs. valid_key (delta_key x)" for xs
    using assms(1) that
  proof (induction xs arbitrary: t)
    case (Cons x xs)
    have step: "case apply_delta_op x (stored t) of
        Ok s \<Rightarrow> (\<exists>t'. store_delta_op T C x t = Ok t' \<and> well_stored t' \<and> stored t' = s)
      | Err e \<Rightarrow> store_delta_op T C x t = Err e"
      by (rule delta_op_stored) (use Cons.prems in auto)
    show ?case
    proof (cases "apply_delta_op x (stored t)")
      case (Inl e)
      then show ?thesis using step by simp
    next
      case (Inr s)
      then obtain t1 where t1: "store_delta_op T C x t = Ok t1" "well_stored t1" "stored t1 = s"
        using step by auto
      show ?thesis using Cons.IH [OF t1(2)] Cons.prems(2) Inr t1(1,3) by (auto split: sum.splits)
    qed
  qed simp
  from this [OF assms(2)] show ?thesis
    unfolding apply_delta_atomically_def apply_delta_to_state_def .
qed

lemma dump_stored:
  assumes "well_stored t" shows "dump T C t = Ok (stored t)"
proof -
  obtain xs where xs: "table_iter T t = Ok xs" "distinct (map fst xs)" "map_of xs = entries t"
    using table_iter by blast
  have "fold_res (\<lambda>(k, v) out. rbind (key_new k) (\<lambda>key. rbind (deserialize C v) (\<lambda>i. Ok (out(key \<mapsto> i)))))
      ys out = Ok (\<lambda>k. if as_str k \<in> fst ` set ys then stored t k else out k)"
    if "set ys \<subseteq> set xs" "distinct (map fst ys)" for ys out
    using that
  proof (induction ys arbitrary: out)
    case (Cons y ys)
    obtain k v where y: "y = (k, v)" by (cases y)
    then have "entries t k = Some v" using Cons.prems(1) xs(2) unfolding xs(3) [symmetric] by simp
    then have "valid_key (Key k)" and "\<exists>i. deserialize C v = Ok i \<and> stored t (Key k) = Some i"
      using assms stored_get(2) [OF assms, of "Key k" v] by (auto simp: well_stored_def)
    then obtain i where i: "key_new k = Ok (Key k)" "deserialize C v = Ok i" "stored t (Key k) = Some i"
      by (auto simp: key_new_def valid_key_def)
    show ?case
      using Cons.IH [of "out(Key k \<mapsto> i)"] Cons.prems i y
      by (auto simp: fun_eq_iff key.expand image_iff intro: key.expand)
  qed simp
  from this [of xs Map.empty] have "dump T C t = Ok (\<lambda>k. if as_str k \<in> fst ` set xs then stored t k else None)"
    using xs by (simp add: dump_def)
  moreover have "stored t k = None" if "as_str k \<notin> fst ` set xs" for k
    using that xs(3) by (simp add: stored_def map_of_eq_None_iff [symmetric])
  ultimately show ?thesis by (auto simp: fun_eq_iff)
qed

lemma new_stored: "\<exists>t. store_new T = Ok t \<and> well_stored t \<and> stored t = Map.empty"
  using table_new by (auto simp: store_new_def well_stored_def stored_def)

sublocale inode_store "store_new T" "read_many T C" "apply_writes_atomically T C"
  "apply_delta_atomically T C" "dump T C" stored well_stored
proof unfold_locales
  fix t :: 't and d :: tx_delta and s e
  assume g: "well_stored t" "\<forall>x \<in> set (delta_ops d). valid_key (delta_key x)"
  note d = delta_stored [OF g]
  show "apply_delta_to_state (stored t) d = Ok s \<Longrightarrow>
      \<exists>t'. apply_delta_atomically T C d t = Ok t' \<and> well_stored t' \<and> stored t' = s" using d by simp
  show "apply_delta_to_state (stored t) d = Err e \<Longrightarrow> apply_delta_atomically T C d t = Err e" using d by simp
qed (simp_all add: new_stored read_many_stored writes_stored dump_stored)

lemmas stored_history = history
lemmas stored_delta_history = delta_history

end

section \<open>An instance\<close>

text \<open>
  An in-memory table and the fixed-width little-endian encoding of an inode (a four-byte variant
  index and an eight-byte counter) satisfy the laws.
\<close>

definition memory_table :: "(string, u8 list) alist table_ops" where
  "memory_table = \<lparr>table_new = Ok DAList.empty, table_get = (\<lambda>t k. Ok (DAList.lookup t k)),
     table_insert = (\<lambda>k v t. Ok (DAList.update k v t)), table_remove = (\<lambda>k t. Ok (DAList.delete k t)),
     table_iter = (\<lambda>t. Ok (DAList.impl_of t))\<rparr>"

fun kind_tag :: "node_kind \<Rightarrow> u32" where
  "kind_tag File = 0"
| "kind_tag Directory = 1"

primrec le_bytes :: "nat \<Rightarrow> nat \<Rightarrow> u8 list" where
  "le_bytes 0 x = []"
| "le_bytes (Suc n) x = word_of_nat (x mod 256) # le_bytes n (x div 256)"

primrec of_le_bytes :: "u8 list \<Rightarrow> nat" where
  "of_le_bytes [] = 0"
| "of_le_bytes (b # bs) = unat b + 256 * of_le_bytes bs"

lemma le_bytes_length [simp]: "length (le_bytes n x) = n"
  by (induction n arbitrary: x) simp_all

lemma of_le_bytes_inverse: "x < 256 ^ n \<Longrightarrow> of_le_bytes (le_bytes n x) = x"
  by (induction n arbitrary: x) (simp_all add: unat_of_nat less_mult_imp_div_less mult.commute)

definition fixed_codec :: inode_codec where
  "fixed_codec = \<lparr>serialize = (\<lambda>i. Ok (le_bytes 4 (unat (kind_tag (kind i))) @ le_bytes 8 (unat (child_count i)))),
     deserialize = (\<lambda>bytes.
       if length bytes \<noteq> 12 then Err (Bincode ''unexpected length'')
       else if of_le_bytes (take 4 bytes) = 0
       then Ok \<lparr>kind = File, child_count = word_of_nat (of_le_bytes (drop 4 bytes))\<rparr>
       else if of_le_bytes (take 4 bytes) = 1
       then Ok \<lparr>kind = Directory, child_count = word_of_nat (of_le_bytes (drop 4 bytes))\<rparr>
       else Err (Bincode ''invalid variant''))\<rparr>"

lemma fixed_codec_inverse: "\<exists>bytes. serialize fixed_codec i = Ok bytes \<and> deserialize fixed_codec bytes = Ok i"
proof -
  have "of_le_bytes (le_bytes 8 (unat (child_count i))) = unat (child_count i)"
    by (intro of_le_bytes_inverse order_less_le_trans [OF unsigned_less]) simp
  moreover have "of_le_bytes (le_bytes 4 (unat (kind_tag (kind i)))) = unat (kind_tag (kind i))"
    by (cases "kind i") (simp_all add: of_le_bytes_inverse)
  ultimately show ?thesis by (cases i, cases "kind i") (simp_all add: fixed_codec_def)
qed

interpretation mem: inode_storage memory_table DAList.lookup fixed_codec
proof unfold_locales
  show "\<exists>xs. table_iter memory_table t = Ok xs \<and> distinct (map fst xs) \<and> map_of xs = DAList.lookup t"
    for t by (simp add: memory_table_def DAList.lookup.rep_eq)
qed (auto simp: memory_table_def fixed_codec_inverse fun_eq_iff DAList.lookup_update)

section \<open>Properties\<close>

text \<open>C31: The store refines the state. With a table and an encoding that behave as documented, reading
  returns the abstract values of the keys, a history of committed write batches leads to the state
  after those writes, and the dump is that state.\<close>

theorem store_refines_state:
  assumes "inode_storage T entries C" "well_encoded C (entries t)" "finite K"
    and "\<forall>ws \<in> set h. \<forall>w \<in> set ws. valid_key (write_key w)"
  shows "read_many T C K t = Ok (reads_of (decoded C (entries t)) K) \<and>
    (\<exists>t'. fold_res (apply_writes_atomically T C) h t = Ok t' \<and> well_encoded C (entries t') \<and>
       dump T C t' = Ok (apply_writes (decoded C (entries t)) (concat h)))"
  using inode_storage.read_many_stored [OF assms(1-3)] inode_storage.stored_history [OF assms(1,2,4)] by blast

theorem store_refines_state_witness:
  "\<exists>t'. fold_res (apply_writes_atomically memory_table fixed_codec) [[Put root (inode_directory 0)]] DAList.empty = Ok t' \<and>
     dump memory_table fixed_codec t' = Ok [root \<mapsto> inode_directory 0]"
proof -
  have "decoded fixed_codec (DAList.lookup DAList.empty) = Map.empty" by (simp add: decoded_def)
  moreover have "well_encoded fixed_codec (DAList.lookup DAList.empty)" by (simp add: well_encoded_def)
  ultimately show ?thesis
    using store_refines_state [OF mem.inode_storage_axioms, of DAList.empty "{}" "[[Put root (inode_directory 0)]]"]
    by auto
qed

text \<open>C39: The two delta applications agree. The delta code of the store, which works on encoded entries,
  is equivalent to the in-memory one of the conflict analysis: a sequence of deltas leads to the
  same state, or stops with the same error.\<close>

theorem store_delta_equals_memory_delta:
  assumes "inode_storage T entries C" "well_encoded C (entries t)"
    and "\<forall>d \<in> set ds. \<forall>x \<in> set (delta_ops d). valid_key (delta_key x)"
  shows "rbind (fold_res (apply_delta_atomically T C) ds t) (dump T C) =
    fold_res (\<lambda>d s. apply_delta_to_state s d) ds (decoded C (entries t))"
  by (rule inode_storage.stored_delta_history [OF assms])

theorem store_delta_equals_memory_delta_witness:
  "rbind (apply_delta_atomically memory_table fixed_codec \<lparr>delta_ops = [AddIntegerField root ChildCount 1]\<rparr> DAList.empty)
     (dump memory_table fixed_codec) = Err (InvalidBatch ''cannot apply child_count delta to missing key'')"
proof -
  have "decoded fixed_codec (DAList.lookup DAList.empty) = Map.empty" by (simp add: decoded_def)
  moreover have "well_encoded fixed_codec (DAList.lookup DAList.empty)" by (simp add: well_encoded_def)
  ultimately show ?thesis
    using store_delta_equals_memory_delta [OF mem.inode_storage_axioms, of DAList.empty
        "[\<lparr>delta_ops = [AddIntegerField root ChildCount 1]\<rparr>]"]
    by (simp add: apply_delta_to_state_def rbind_assoc)
qed

end
