(* ===== verification/SccInstall.thy ===== *)
theory SccInstall
  imports SccProgress Storage
begin

text \<open>
  The end of a speculative batch in \<open>execute_scc_batch\<close> of \<open>src/engine.rs\<close>: the failed indices of the
  slot snapshot, the reorder record, the installation of the successful deltas and the fallback
  batch. The lemmas show that the shards together install the state after the committed
  transactions, that their records satisfy the checker, and that the reordered reference execution
  of the batch is the serial execution of the fallback batch on the installed state.
\<close>

section \<open>Operations\<close>

definition failed_indices_from_snapshot :: "commit_slot_state list \<Rightarrow> nat set" where
  "failed_indices_from_snapshot snapshot =
     set (filter (\<lambda>index. snapshot ! index = SlotFailed) [0..<length snapshot])"

text \<open>On a duplicate the new record has replaced the old one when the error is returned.\<close>

definition record_batch_reorder ::
    "batch_id \<Rightarrow> nat \<Rightarrow> nat set \<Rightarrow> (batch_id \<rightharpoonup> reorder_record)
      \<Rightarrow> unit result \<times> (batch_id \<rightharpoonup> reorder_record)" where
  "record_batch_reorder bid batch_len failed reorders =
     (let all_indices = {0..<batch_len}
      in if \<not> failed \<subseteq> all_indices
         then (Err (InvalidBatch ''batch failed set contains index outside batch length''), reorders)
         else
           (let record = \<lparr>reorder_batch_id = bid,
                  speculative_success_indices = sorted_list_of_set (all_indices - failed),
                  fallback_indices = sorted_list_of_set failed\<rparr>
            in (if reorders bid \<noteq> None then Err (InvalidBatch ''duplicate batch reorder record'') else Ok (),
                reorders(bid \<mapsto> record))))"

definition install_slot :: "commit_slot_state list \<Rightarrow> nat set \<Rightarrow> nat \<Rightarrow> fs_state \<Rightarrow> fs_state result" where
  "install_slot snapshot failed index s =
     (if index \<in> failed then Ok s
      else case snapshot ! index of
          SlotPending \<Rightarrow> Err (InvalidBatch ''SCC commit slot is still pending at install'')
        | SlotFailed \<Rightarrow> Err (InvalidBatch ''SCC commit slot failed but is absent from failed set'')
        | SlotNoOp \<Rightarrow> Ok s
        | SlotDelta d \<Rightarrow> apply_delta_to_state s d)"

definition install_scc_successes :: "commit_slot_state list \<Rightarrow> nat set \<Rightarrow> fs_state \<Rightarrow> fs_state result" where
  "install_scc_successes snapshot failed s =
     fold_res (install_slot snapshot failed) [0..<length snapshot] s"

definition fallback_batch_from_failed_indices :: "batch \<Rightarrow> nat set \<Rightarrow> batch" where
  "fallback_batch_from_failed_indices b failed =
     \<lparr>batch_id = batch_id b,
      txs = map (\<lambda>(fallback_index, original_index).
          (txs b ! original_index)\<lparr>batch_index := word_of_nat fallback_index\<rparr>)
        (enumerate 0 (sorted_list_of_set failed))\<rparr>"

text \<open>The result records of the speculative successes, in batch order.\<close>

definition speculative_results :: "(nat \<rightharpoonup> tx_result_record) \<Rightarrow> nat set \<Rightarrow> tx_result_record list" where
  "speculative_results records failed =
     map (\<lambda>i. the (records i)) (filter (\<lambda>i. i \<notin> failed) (sorted_list_of_set (dom records)))"

definition worker_records :: "scc_system \<Rightarrow> shard_id \<Rightarrow> (nat \<rightharpoonup> tx_result_record)" where
  "worker_records c sh = (\<lambda>i. if i \<in> reported c sh
     then (case workers c sh i of WDone r \<Rightarrow> r | _ \<Rightarrow> None) else None)"

section \<open>The installed state\<close>

lemma failed_indices_iff:
  "i \<in> failed_indices_from_snapshot snapshot \<longleftrightarrow> i < length snapshot \<and> snapshot ! i = SlotFailed"
  by (auto simp: failed_indices_from_snapshot_def)

lemma finished_slots:
  assumes "scc_inv P L b s0 c" "reported c sh = {..<length (txs b)}"
  shows "slots c sh = map (scc_slot L b s0 sh) [0..<length (txs b)]"
  using scc_invD(1) [OF assms(1)] scc_inv_reported_slot [OF assms(1)] assms(2)
  by (intro nth_equalityI) auto

lemma finished_failed:
  assumes "scc_inv P L b s0 c" "reported c sh = {..<length (txs b)}"
  shows "failed_indices_from_snapshot (slots c sh) =
    {i. i < length (txs b) \<and> sh \<in> parts L b i \<and> \<not> scc_ok L b s0 i}"
  unfolding finished_slots [OF assms]
  by (auto simp: failed_indices_iff scc_slot_failed_iff nth_append)

lemma install_slot_step:
  assumes "scc_batch b s0" "i < length (txs b)" "snapshot ! i = scc_slot L b s0 sh i"
    and F: "i \<in> F \<longleftrightarrow> sh \<in> parts L b i \<and> \<not> scc_ok L b s0 i"
  shows "install_slot snapshot F i (shard_part L (scc_state L b s0 i) sh) =
    Ok (shard_part L (scc_state L b s0 (Suc i)) sh)"
proof (cases "i \<in> F")
  case True
  then have "scc_state L b s0 (Suc i) = scc_state L b s0 i" using F by (simp add: scc_state_Suc)
  then show ?thesis using True by (simp add: install_slot_def)
next
  case False
  let ?K = "{k. shard_for_key L k = sh}" and ?W = "local_write_keys L (tx_at b i) sh"
  have nf: "scc_slot L b s0 sh i \<noteq> SlotFailed" using False F by (simp add: scc_slot_failed_iff)
  have step: "slot_step ?K ?W (scc_slot L b s0 sh i) (scc_state L b s0 i) (scc_state L b s0 (Suc i))"
    by (rule scc_slot_step [OF assms(1,2) _ nf]) simp
  show ?thesis
  proof (cases "scc_slot L b s0 sh i")
    case SlotNoOp
    then have "shard_part L (scc_state L b s0 (Suc i)) sh = shard_part L (scc_state L b s0 i) sh"
      using step by (auto simp: slot_step_def shard_part_def restrict_map_def fun_eq_iff)
    then show ?thesis using False assms(3) SlotNoOp by (simp add: install_slot_def)
  next
    case (SlotDelta d)
    have W: "?W \<subseteq> ?K" by (auto simp: local_write_keys_def)
    have d: "\<forall>k \<in> ?K. fold_res apply_value (key_ops k (delta_ops d)) (scc_state L b s0 i k) =
        Ok (scc_state L b s0 (Suc i) k)" "delta_key ` set (delta_ops d) \<subseteq> ?W"
      using step SlotDelta by (simp_all add: slot_step_def)
    have "fold_res apply_value (key_ops k (delta_ops d)) (shard_part L (scc_state L b s0 i) sh k) =
        Ok (shard_part L (scc_state L b s0 (Suc i)) sh k)" for k
    proof (cases "k \<in> ?K")
      case True
      then show ?thesis using d(1) by (simp add: shard_part_def)
    next
      case False
      then have "key_ops k (delta_ops d) = []" using key_ops_outside [OF d(2)] W by blast
      then show ?thesis using False by (simp add: shard_part_def)
    qed
    then have "apply_delta_to_state (shard_part L (scc_state L b s0 i) sh) d =
        Ok (shard_part L (scc_state L b s0 (Suc i)) sh)" by (simp add: apply_delta_to_state_iff)
    then show ?thesis using False assms(3) SlotDelta by (simp add: install_slot_def)
  qed (use nf in simp_all)
qed

lemma install_finished:
  assumes "scc_batch b s0" "snapshot = map (scc_slot L b s0 sh) [0..<length (txs b)]"
    and "F = {i. i < length (txs b) \<and> sh \<in> parts L b i \<and> \<not> scc_ok L b s0 i}"
  shows "install_scc_successes snapshot F (shard_part L s0 sh) =
    Ok (shard_part L (scc_state L b s0 (length (txs b))) sh)"
proof -
  have "fold_res (install_slot snapshot F) [0..<n] (shard_part L s0 sh) = Ok (shard_part L (scc_state L b s0 n) sh)"
    if "n \<le> length (txs b)" for n
    using that
  proof (induction n)
    case (Suc n)
    have "install_slot snapshot F n (shard_part L (scc_state L b s0 n) sh) =
        Ok (shard_part L (scc_state L b s0 (Suc n)) sh)"
      using Suc.prems assms(2,3) by (intro install_slot_step [OF assms(1)]) auto
    then show ?case using Suc by (simp add: fold_res_append)
  qed simp
  then show ?thesis using assms(2) by (simp add: install_scc_successes_def)
qed

section \<open>The records\<close>

lemma record_batch_reorder_fresh:
  assumes "failed \<subseteq> {0..<length (txs b)}" "reorders (batch_id b) = None"
  shows "record_batch_reorder (batch_id b) (length (txs b)) failed reorders =
    (Ok (), reorders(batch_id b \<mapsto> canonical_reorder b failed))"
  using assms by (simp add: record_batch_reorder_def canonical_reorder_def Let_def)

lemma entry_set_Some [simp]: "m k = Some A \<Longrightarrow> entry_set m k = A"
  by (simp add: entry_set_def)

text \<open>One complete record per shard for one batch: the checker combines the fallback sets.\<close>

lemma check_one_batch:
  assumes "\<And>x. x \<in> set shards \<Longrightarrow> \<exists>A. snd x = [canonical_reorder b A] \<and> A \<subseteq> {0..<length (txs b)} \<and> A = F (fst x)"
  shows "fold_res (check_shard_records [batch_id b \<mapsto> b]) shards fb =
    Ok (if shards = [] then fb
        else fb(batch_id b \<mapsto> entry_set fb (batch_id b) \<union> (\<Union>x \<in> set shards. F (fst x))))"
  using assms
proof (induction shards arbitrary: fb)
  case (Cons x shards)
  have A: "snd x = [canonical_reorder b (F (fst x))]" "F (fst x) \<subseteq> {0..<length (txs b)}"
    using Cons.prems [of x] by auto
  let ?fb = "fb(batch_id b \<mapsto> entry_set fb (batch_id b) \<union> F (fst x))"
  have id: "reorder_batch_id (canonical_reorder b (F (fst x))) = batch_id b"
    "fallback_indices (canonical_reorder b (F (fst x))) = sorted_list_of_set (F (fst x))"
    by (simp_all add: canonical_reorder_def)
  have fin: "finite (F (fst x))" using A(2) finite_subset by blast
  have "check_shard_records [batch_id b \<mapsto> b] x fb = Ok ?fb"
    using A canonical_reorder_valid [OF A(2)] fin
    by (simp add: check_shard_records_def check_record_def id entry_set_def)
  moreover have "fold_res (check_shard_records [batch_id b \<mapsto> b]) shards ?fb =
      Ok (if shards = [] then ?fb
          else ?fb(batch_id b \<mapsto> entry_set ?fb (batch_id b) \<union> (\<Union>x \<in> set shards. F (fst x))))"
    using Cons.prems by (intro Cons.IH) simp
  ultimately show ?case by (auto simp: Un_assoc fun_upd_def)
qed simp

lemma reorders_of_one_batch:
  assumes "\<And>x. x \<in> set shards \<Longrightarrow> snd x = [canonical_reorder b (F (fst x))] \<and> F (fst x) \<subseteq> {0..<length (txs b)}"
    and "shards \<noteq> []"
  shows "assert_scc_reorders_consistent [b] shards =
    Ok [batch_id b \<mapsto> canonical_reorder b (\<Union>x \<in> set shards. F (fst x))]"
proof -
  let ?U = "\<Union>x \<in> set shards. F (fst x)"
  have U: "?U \<subseteq> {0..<length (txs b)}" using assms(1) by blast
  have "index_batches [b] = Ok [batch_id b \<mapsto> b]" by (simp add: index_batches_def)
  moreover have "fold_res (check_shard_records [batch_id b \<mapsto> b]) shards Map.empty = Ok [batch_id b \<mapsto> ?U]"
    using check_one_batch [of shards b F Map.empty] assms by (simp add: entry_set_def)
  moreover have "build_reference_reorder b (Map.empty, [batch_id b \<mapsto> ?U]) =
      Ok ([batch_id b \<mapsto> canonical_reorder b ?U], Map.empty)"
    unfolding build_reference_reorder_Ok using U by (simp add: entry_set_def)
  ultimately show ?thesis by (simp add: assert_scc_reorders_consistent_def)
qed

section \<open>The reordered reference\<close>

lemma valid_tx_update [simp]: "valid_tx (t\<lparr>batch_index := j\<rparr>) \<longleftrightarrow> valid_tx t"
  by (simp add: valid_tx_iff)

lemma apply_reference_tx_index [simp]: "apply_reference_tx (t\<lparr>batch_index := j\<rparr>) = apply_reference_tx t"
  by (simp add: apply_reference_tx_def execute_deterministic_def fun_eq_iff)

lemma run_fallback_batch:
  "run_txs (txs (fallback_batch_from_failed_indices b F)) s =
     run_txs (map (\<lambda>i. txs b ! i) (sorted_list_of_set F)) s"
proof -
  have "run_txs (map (\<lambda>(j, i). (txs b ! i)\<lparr>batch_index := word_of_nat j\<rparr>) (enumerate n is)) s =
      run_txs (map (\<lambda>i. txs b ! i) is) s" for n "is" and s
    by (induction "is" arbitrary: n s) simp_all
  then show ?thesis by (simp add: fallback_batch_from_failed_indices_def)
qed

lemma sorted_list_filter: "sorted_list_of_set {i. i < n \<and> Q i} = filter Q [0..<n]"
proof -
  have "{i. i < n \<and> Q i} = set (filter Q [0..<n])" by auto
  moreover have "sorted (filter Q [0..<n])" "distinct (filter Q [0..<n])" by (simp_all add: sorted_wrt_filter)
  ultimately show ?thesis by (simp only: sorted_list_of_set.idem_if_sorted_distinct)
qed

text \<open>The successes first, then the failures: the reference order of the batch.\<close>

lemma reference_of_scc_batch:
  assumes "scc_batch b s0" "F = {i. i < length (txs b) \<and> \<not> scc_ok L b s0 i}"
  shows "run_txs (permuted_txs b (canonical_reorder b F)) s0 =
    run_txs (txs (fallback_batch_from_failed_indices b F)) (scc_state L b s0 (length (txs b)))"
proof -
  have "{0..<length (txs b)} - F = {i. i < length (txs b) \<and> scc_ok L b s0 i}" using assms(2) by auto
  then have "permuted_txs b (canonical_reorder b F) =
      map (\<lambda>i. txs b ! i) (filter (scc_ok L b s0) [0..<length (txs b)]) @
      map (\<lambda>i. txs b ! i) (sorted_list_of_set F)"
    by (simp add: permuted_txs_def reorder_indices_def canonical_reorder_def sorted_list_filter)
  moreover have "run_txs (map (\<lambda>i. txs b ! i) (filter (scc_ok L b s0) [0..<length (txs b)])) s0 =
      scc_state L b s0 (length (txs b))"
    using assms(1)
    by (subst run_txs_op_apply) (auto simp: scc_state_ops scc_batch_def run_ops_def fold_map comp_def)
  ultimately show ?thesis by (simp add: run_fallback_batch)
qed

end
