(* ===== verification/SccAbort.thy ===== *)
theory SccAbort
  imports SccProgress
begin

text \<open>
  A run in which a shard aborts: a transaction fails on the shard that alone takes part in it, the
  next one conflicts with it and spans another shard. The first shard's worker of the second
  transaction meets the failed slot, reports the failure and drops its mailbox; the read of the
  other shard then finds the mailbox closed, and that shard's whole batch ends with an error.
\<close>

lemma abort_run:
  assumes S: "scc_setting L b s0 ps P" and c0: "scc_initial P = Ok c0" and n: "1 < length (txs b)"
    and p0: "parts L b 0 = {x}" "\<not> scc_ok L b s0 0"
    and p1: "prefix_len b 1 = 1" "x \<in> parts L b 1" "y \<in> parts L b 1" "x \<noteq> y"
  shows "\<exists>c. (scc_step P)\<^sup>*\<^sup>* c0 c \<and> y \<in> failed_shards c"
proof -
  note sd = scc_settingD [OF S]
  have len: "0 < length (txs b)" using n by linarith
  have i0: "workers c0 = (\<lambda>_ _. WEffectWait)" "reported c0 = (\<lambda>_. {})" "failed_shards c0 = {}"
    using c0 by (auto simp: scc_initial_def rbind_eq_Inr)
  have inv: "scc_inv P L b s0 c" if "(scc_step P)\<^sup>*\<^sup>* c0 c" for c
    by (rule scc_inv_reachable [OF S c0 that])
  have pf: "\<not> prefix_failed L b s0 x 0" "prefix_failed L b s0 x 1" "\<not> prefix_failed L b s0 y 1"
    using prefix_len_le [of b 0] p0 p1 by (auto simp: prefix_failed_def)
  obtain c1 r where s1: "scc_step P c0 c1" and m1: "moved c0 x 0 (WEffectCollect r) c1"
    using read_step [OF inv [OF rtranclp.rtrancl_refl] S len, of x] p0(1) i0 pf(1) by auto
  have r1: "(scc_step P)\<^sup>*\<^sup>* c0 c1" using s1 by (rule r_into_rtranclp)
  have w1: "workers c1 x 0 = WEffectCollect r" using m1 by (simp add: moved_def)
  have x0: "x \<in> parts L b 0" using p0(1) by simp
  note lw = local_invD [OF scc_invD(5) [OF inv [OF r1] len] x0]
  have "collect_at P c1 x 0 SccEffect r \<noteq> Ok None"
    using collect_at_cases [OF inv [OF r1] S len x0 lw(3) [OF w1], folded lw(4) [OF w1]] p0(1) by auto
  then obtain c2 where s2: "scc_step P c1 c2" and m2: "moved c1 x 0 (WDone None) c2"
    using execute_step [OF inv [OF r1] S len x0 w1] p0(2) by auto
  have r2: "(scc_step P)\<^sup>*\<^sup>* c0 c2" using r1 s2 by (rule rtranclp.rtrancl_into_rtrancl)
  obtain c3 where s3: "scc_step P c2 c3" and m3: "reported_step c2 x 0 c3"
    using report_step [OF inv [OF r2] S len x0, of None] m1 m2 i0 by (auto simp: moved_def)
  have r3: "(scc_step P)\<^sup>*\<^sup>* c0 c3" using r2 s3 by (rule rtranclp.rtrancl_into_rtrancl)
  obtain c4 where s4: "scc_step P c3 c4" and m4: "reported_step c3 y 0 c4"
    using skip_step [OF inv [OF r3] S len, of y] m1 m2 m3 i0 p0(1) p1(4) by (auto simp: moved_def reported_step_def)
  have r4: "(scc_step P)\<^sup>*\<^sup>* c0 c4" using r3 s4 by (rule rtranclp.rtrancl_into_rtrancl)
  have a4: "workers c4 x 1 = WEffectWait" "workers c4 y 1 = WEffectWait" "0 \<in> reported c4 x" "0 \<in> reported c4 y"
    "failed_shards c4 = {}"
    using m1 m2 m3 m4 i0 p1(4) by (auto simp: moved_def reported_step_def)
  obtain c5 where s5: "scc_step P c4 c5" and m5: "moved c4 x 1 (WDone None) c5"
    using read_step [OF inv [OF r4] S n p1(2)] a4 pf(2) by (auto simp: lessThan_Suc)
  have r5: "(scc_step P)\<^sup>*\<^sup>* c0 c5" using r4 s5 by (rule rtranclp.rtrancl_into_rtrancl)
  have a5: "workers c5 y 1 = WEffectWait" "0 \<in> reported c5 y" using a4 m5 p1(4) by (auto simp: moved_def)
  obtain c6 r' where s6: "scc_step P c5 c6" and m6: "moved c5 y 1 (WEffectCollect r') c6"
    and n6: "(x, emsg L b s0 y 1) \<in># net c6"
    using read_step [OF inv [OF r5] S n p1(3)] a5 pf(3) p1(2,4) by (auto simp: lessThan_Suc)
  have r6: "(scc_step P)\<^sup>*\<^sup>* c0 c6" using r5 s6 by (rule rtranclp.rtrancl_into_rtrancl)
  have w6: "workers c6 x 1 = WDone None" using m5 m6 p1(4) by (auto simp: moved_def)
  have "scc_step P c6 (c6\<lparr>net := net c6 - {#(x, emsg L b s0 y 1)#},
      failed_shards := insert (lrr_from_shard (emsg L b s0 y 1)) (failed_shards c6)\<rparr>)"
    by (rule deliver_closed [OF n6 _ _ w6]) (use n p1(2) in \<open>simp_all add: sd(7,8)\<close>)
  then show ?thesis using rtranclp.rtrancl_into_rtrancl [OF r6] by fastforce
qed

end
