(* ===== verification/SccTheorems.thy ===== *)
theory SccTheorems
  imports SccInstall SccAbort
begin

text \<open>
  The properties of semantic concurrency control: of the plan, of the graph runtime, of deltas, of
  the condition check, and of whole runs of the worker system. The witnesses use the batch
  \<open>Stat /; Create /a\<close> over two shards, which own \<open>/\<close> and \<open>/a\<close>.
\<close>

section \<open>A concrete setting\<close>

abbreviation path_a :: key where
  "path_a \<equiv> Key ''/a''"

definition stat_create :: batch where
  "stat_create = \<lparr>batch_id = 0, txs = [tx_of 0 (Stat root), tx_of 1 (Create path_a)]\<rparr>"

definition two_shards :: shard_layout where
  "two_shards = \<lparr>shard_count = 2\<rparr>"

lemma path_a: "valid_key path_a" "path_a \<noteq> root" "parent_of path_a = root"
  "shard_for_key two_shards root = 0" "shard_for_key two_shards path_a = 1"
  by code_simp+

lemma stat_create_parts:
  "parts two_shards stat_create 0 = {0}" "parts two_shards stat_create 1 = {0, 1}"
  using path_a by (auto simp: stat_create_def participants_of_def participants_all tx_of_def)

lemma stat_create_batch: "scc_batch stat_create Map.empty"
  using path_a by (auto simp: scc_batch_def stat_create_def tree_inv_empty moves_into_itself_def)

lemma stat_create_setting: "\<exists>P. scc_setting two_shards stat_create Map.empty {0, 1} P"
proof -
  have "\<And>t. t \<in> set (txs stat_create) \<Longrightarrow> valid_op (op t)"
    using path_a(1) by (auto simp: stat_create_def)
  then obtain p where "build_scc_batch_plan stat_create = Ok p" using build_plan_eq by blast
  then have "\<exists>P. params_for two_shards stat_create Map.empty {0, 1} = Ok P" by (simp add: params_for_def)
  moreover have "distinct (map tx_id (txs stat_create))" by (simp add: stat_create_def tx_of_def)
  moreover have "\<forall>i < length (txs stat_create). parts two_shards stat_create i \<subseteq> {0, 1}"
    using stat_create_parts by (auto simp: less_Suc_eq stat_create_def)
  ultimately show ?thesis using stat_create_batch unfolding scc_setting_def by blast
qed

lemma stat_create_outcomes:
  "prefix_len stat_create 1 = 1" "\<not> scc_ok two_shards stat_create Map.empty 0"
proof -
  have "ops_conflict (Stat root) (Create path_a)" by code_simp
  then have "{i. i < 1 \<and> conflicts stat_create i 1} = {0}"
    by (auto simp: conflicts_def stat_create_def tx_of_def)
  then show "prefix_len stat_create 1 = 1" by (simp add: prefix_len_def max_pred_def max_of_def)
  have "op_result (op (tx_at stat_create 0)) (scc_state two_shards stat_create Map.empty 0) \<noteq> TxOk"
    by (simp add: stat_create_def tx_of_def op_result_def)
  then show "\<not> scc_ok two_shards stat_create Map.empty 0"
    using prefix_len_le [of stat_create 0] by (simp add: scc_ok_parts)
qed

text \<open>A batch that commits, over one shard.\<close>

definition make_root :: batch where
  "make_root = \<lparr>batch_id = 0, txs = [tx_of 0 (Mkdir root)]\<rparr>"

lemma make_root_tx: "valid_tx (tx_of 0 (Mkdir root))" "op_result (Mkdir root) Map.empty = TxOk"
  by (simp_all add: op_result_def)

lemma make_root_setting: "\<exists>P. scc_setting \<lparr>shard_count = 1\<rparr> make_root Map.empty {0} P"
proof -
  have "\<And>t. t \<in> set (txs make_root) \<Longrightarrow> valid_op (op t)" by (auto simp: make_root_def)
  then obtain p where "build_scc_batch_plan make_root = Ok p" using build_plan_eq by blast
  then have "\<exists>P. params_for \<lparr>shard_count = 1\<rparr> make_root Map.empty {0} = Ok P" by (simp add: params_for_def)
  then show ?thesis
    by (auto simp: scc_setting_def scc_batch_def make_root_def tree_inv_empty moves_into_itself_def
        participants_of_def participants_all shard_for_key_def)
qed

lemma make_root_ok: "\<forall>i < length (txs make_root). scc_ok \<lparr>shard_count = 1\<rparr> make_root Map.empty i"
proof -
  have "prefix_len make_root 0 = 0" using prefix_len_le [of make_root 0] by simp
  then have "scc_ok \<lparr>shard_count = 1\<rparr> make_root Map.empty 0"
    using make_root_tx(2) unfolding scc_ok_parts [of _ _ _ 0]
    by (simp add: prefix_failed_def) (simp add: make_root_def)
  then show ?thesis by (simp add: make_root_def)
qed

lemma stuck_reachable: "\<exists>c. (scc_step P)\<^sup>*\<^sup>* c0 c \<and> (\<nexists>c'. scc_step P c c')"
proof (induction c0 rule: wfp_induct_rule [OF scc_runs_finite [of P]])
  case (1 c0)
  then show ?case
    by (cases "\<exists>c'. scc_step P c0 c'") (blast intro: converse_rtranclp_into_rtranclp)+
qed

lemma make_root_parts: "\<forall>i < length (txs make_root). parts \<lparr>shard_count = 1\<rparr> make_root i \<subseteq> set [0]"
  by (auto simp: participants_of_def participants_all shard_for_key_def)

lemma make_root_finishes:
  obtains P c0 c where "scc_setting \<lparr>shard_count = 1\<rparr> make_root Map.empty {0} P" "scc_initial P = Ok c0"
    "(scc_step P)\<^sup>*\<^sup>* c0 c" "\<forall>sh. reported c sh = {..<length (txs make_root)}"
proof -
  obtain P where P: "scc_setting \<lparr>shard_count = 1\<rparr> make_root Map.empty {0} P" using make_root_setting by blast
  obtain c0 where c0: "scc_initial P = Ok c0" using scc_initial_inv [OF P] by blast
  obtain c where c: "(scc_step P)\<^sup>*\<^sup>* c0 c" "\<nexists>c'. scc_step P c c'" using stuck_reachable by blast
  have "failed_shards c = {}" using scc_abort_cause [OF P c0 c(1)] make_root_ok by blast
  then have "reported c sh = {..<length (txs make_root)}" for sh
    using scc_progress [OF scc_inv_reachable [OF P c0 c(1)] P] c(2)
      scc_invD(2) [OF scc_inv_reachable [OF P c0 c(1)], of sh] by blast
  then show thesis using that P c0 c(1) by blast
qed

section \<open>Properties of the parts\<close>

text \<open>C40: The signed addition is exact. The result of adding an \<open>i64\<close> to a \<open>u64\<close> counter is a value
  exactly when the integer sum is in range, and then it is that sum: nothing wraps.\<close>

theorem signed_delta_is_exact:
  "(apply_signed_delta v d = Some w \<longleftrightarrow> uint w = uint v + sint d) \<and>
   (apply_signed_delta v d = None \<longleftrightarrow> uint v + sint d < 0 \<or> 2 ^ 64 \<le> uint v + sint d)"
proof
  show *: "apply_signed_delta v d = Some w \<longleftrightarrow> uint w = uint v + sint d" for w
    by (rule apply_signed_delta_Some_iff)
  have "apply_signed_delta v d = None \<longleftrightarrow> \<not> (\<exists>w. apply_signed_delta v d = Some w)" by simp
  then have "apply_signed_delta v d = None \<longleftrightarrow> \<not> (\<exists>w :: u64. uint w = uint v + sint d)"
    unfolding apply_signed_delta_Some_iff .
  also have "(\<exists>w :: u64. uint w = uint v + sint d) \<longleftrightarrow> 0 \<le> uint v + sint d \<and> uint v + sint d < 2 ^ 64"
  proof
    assume "\<exists>w :: u64. uint w = uint v + sint d"
    then obtain w :: u64 where w: "uint w = uint v + sint d" by blast
    show "0 \<le> uint v + sint d \<and> uint v + sint d < 2 ^ 64"
      using uint_bounded [of w] by (simp add: w [symmetric])
  next
    assume "0 \<le> uint v + sint d \<and> uint v + sint d < 2 ^ 64"
    then have "uint (word_of_int (uint v + sint d) :: u64) = uint v + sint d"
      by (subst uint_word_of_int) simp
    then show "\<exists>w :: u64. uint w = uint v + sint d" by blast
  qed
  finally show "apply_signed_delta v d = None \<longleftrightarrow> uint v + sint d < 0 \<or> 2 ^ 64 \<le> uint v + sint d" by linarith
qed

text \<open>The delta of an output is equivalent to its writes. Applied to the state that was read, the
  delta built from a successful output has exactly the effect of the output's writes.\<close>

theorem delta_equals_writes:
  assumes "valid_tx tx" "result out = TxOk" "write_key ` set (writes out) \<subseteq> write_set tx"
    and "output_to_delta tx (reads_of s (read_set tx)) out = Ok d"
  shows "apply_delta_to_state s d = Ok (apply_writes s (writes out))"
proof -
  have "finite (write_set tx)" "write_set tx \<subseteq> read_set tx"
    using valid_tx_sets [OF assms(1)] by blast+
  then show ?thesis using apply_delta_roundtrip [OF assms(2) _ _ assms(3,4)] by blast
qed

theorem delta_equals_writes_witness:
  "\<exists>d. output_to_delta (tx_of 0 (Mkdir root)) (reads_of Map.empty {root}) (op_output (Mkdir root) Map.empty) = Ok d \<and>
     apply_delta_to_state Map.empty d = Ok [root \<mapsto> inode_directory 0]"
proof -
  let ?tx = "tx_of 0 (Mkdir root)" and ?out = "op_output (Mkdir root) Map.empty"
  obtain d where d: "output_to_delta ?tx (reads_of Map.empty (read_set ?tx)) ?out = Ok d"
    using op_delta_exists [OF tree_inv_empty _ make_root_tx(1)] make_root_tx(2) by auto
  have "apply_delta_to_state Map.empty d = Ok (apply_writes Map.empty (writes ?out))"
    by (rule delta_equals_writes [OF make_root_tx(1) _ _ d]) simp_all
  then show ?thesis using d by auto
qed

text \<open>C18: Deltas commute with what the conflict relation lets pass. A delta computed on one tree state
  applies to every tree state that agrees with it on the target and on the kind of the parent, and
  has there the effect of executing the operation: the child counter is added to, not overwritten.\<close>

theorem stale_delta_executes_operation:
  assumes "valid_tx tx" "similar (op tx) s t" "op_result (op tx) s = TxOk"
    and "tree_inv s" "tree_inv t" "card (dom s) < 2 ^ 64" "card (dom t) < 2 ^ 64"
    and "output_to_delta tx (reads_of s (read_set tx)) (execute_deterministic tx (reads_of s (read_set tx))) = Ok d"
  shows "apply_delta_to_state t d = Ok (op_apply (op tx) t)"
  unfolding apply_delta_to_state_iff
  using stale_delta_applies [OF assms(1-7)] assms(8) execute_deterministic_reads_of [OF assms(1)] by simp

theorem stale_delta_executes_operation_witness:
  "\<exists>d. output_to_delta (tx_of 0 (Mkdir root)) (reads_of Map.empty {root}) (op_output (Mkdir root) Map.empty) = Ok d \<and>
     apply_delta_to_state Map.empty d = Ok (op_apply (Mkdir root) Map.empty)"
proof -
  let ?tx = "tx_of 0 (Mkdir root)"
  obtain d where d: "output_to_delta ?tx (reads_of Map.empty (read_set ?tx)) (op_output (op ?tx) Map.empty) = Ok d"
    using op_delta_exists [OF tree_inv_empty _ make_root_tx(1)] make_root_tx(2) by auto
  then have e: "output_to_delta ?tx (reads_of Map.empty (read_set ?tx))
      (execute_deterministic ?tx (reads_of Map.empty (read_set ?tx))) = Ok d"
    by (simp only: execute_deterministic_reads_of [OF make_root_tx(1)])
  have "apply_delta_to_state Map.empty d = Ok (op_apply (op ?tx) Map.empty)"
    by (rule stale_delta_executes_operation [OF make_root_tx(1) _ _ tree_inv_empty tree_inv_empty _ _ e])
      (use make_root_tx(2) in \<open>simp_all add: similar_def\<close>)
  then show ?thesis using d by auto
qed

text \<open>C33: The plan of a batch of valid transactions exists and is determined by the conflict relation:
  an edge from each transaction to every later one it conflicts with, and the last conflicting
  predecessor as the prefix to read. Both graphs are equal, so the prefix of the effect phase
  always covers the condition and the condition phase is never entered.\<close>

theorem plan_is_conflict_relation:
  assumes "\<And>t. t \<in> set (txs b) \<Longrightarrow> valid_tx t"
  shows "\<exists>p. build_scc_batch_plan b = Ok p \<and> condition_dag p = effect_dag p \<and>
    length (nodes (effect_dag p)) = length (txs b) \<and>
    (\<forall>i < length (txs b). nodes (effect_dag p) ! i = {j. i < j \<and> j < length (txs b) \<and> conflicts b i j}) \<and>
    (\<forall>j < length (txs b). plan_path (tx_plans p ! j) = predicted_path (op (txs b ! j)) \<and>
       effect_max_pred_index (tx_plans p ! j) = max_of {i. i < j \<and> conflicts b i j} \<and>
       effect_prefix_covers_condition (tx_plans p ! j))"
proof -
  have v: "\<And>t. t \<in> set (txs b) \<Longrightarrow> valid_op (op t)" using assms by (auto simp: valid_tx_iff)
  then obtain p where p: "build_scc_batch_plan b = Ok p" using build_plan_eq by blast
  note f = plan_facts [where b = b, OF v p, simplified]
  have "effect_prefix_covers_condition (tx_plans p ! j)" if "j < length (txs b)" for j
    using f(5) [OF that] by (simp add: effect_prefix_covers_condition_def split: option.split)
  then show ?thesis using p f(1,2,4,5) by (auto simp: max_pred_def)
qed

theorem plan_is_conflict_relation_witness:
  "\<exists>p. build_scc_batch_plan stat_create = Ok p \<and> length (nodes (effect_dag p)) = 2 \<and>
     condition_dag p = effect_dag p"
proof -
  have "valid_tx t" if "t \<in> set (txs stat_create)" for t
    using that stat_create_batch by (auto simp: scc_batch_def)
  from plan_is_conflict_relation [where b = stat_create, OF this]
  obtain p where "build_scc_batch_plan stat_create = Ok p" "condition_dag p = effect_dag p"
    "length (nodes (effect_dag p)) = length (txs stat_create)" by auto
  then show ?thesis by (intro exI [of _ p]) (simp, simp add: stat_create_def)
qed

text \<open>C34: The graph runtime notifies exactly the vertices whose predecessors have all finished, in
  whatever order they finish, and no in-degree underflows on the way.\<close>

theorem notified_when_predecessors_finished:
  assumes "batch_ordered g" "distinct vs" "set vs \<subseteq> {..<length (nodes g)}"
  shows "\<exists>rt0 rt. dag_start (dag_runtime_new g) = Ok rt0 \<and> fold_res finish_vertex vs rt0 = Ok rt \<and>
    (\<forall>v < length (nodes g). (ready_tx (rt ! v) \<longleftrightarrow> \<not> preds g v \<subseteq> set vs) \<and>
       (finished (rt ! v) \<longleftrightarrow> v \<in> set vs))"
proof -
  obtain rt0 where rt0: "dag_start (dag_runtime_new g) = Ok rt0" "dag_inv g True {} rt0"
    using dag_inv_start [OF dag_inv_new [OF assms(1)]] by blast
  have "\<exists>rt'. fold_res finish_vertex vs rt = Ok rt' \<and> dag_inv g True (F \<union> set vs) rt'"
    if "dag_inv g True F rt" "distinct vs" "set vs \<subseteq> {..<length (nodes g)} - F" for F rt
    using that
  proof (induction vs arbitrary: F rt)
    case (Cons v vs)
    obtain rt1 where "finish_vertex v rt = Ok rt1" "dag_inv g True (insert v F) rt1"
      using dag_inv_finish [OF assms(1) Cons.prems(1), of v] Cons.prems(3) by auto
    moreover obtain rt' where "fold_res finish_vertex vs rt1 = Ok rt'" "dag_inv g True (insert v F \<union> set vs) rt'"
      using Cons.IH [OF calculation(2)] Cons.prems(2,3) by auto
    ultimately show ?case by (simp add: insert_commute Un_insert_left)
  qed simp
  from this [OF rt0(2) assms(2)] assms(3) obtain rt where rt: "fold_res finish_vertex vs rt0 = Ok rt"
    "dag_inv g True (set vs) rt" by auto
  then have "rt ! v = \<lparr>indegree = card (preds g v - set vs), successors = nodes g ! v,
      ready_tx = (card (preds g v - set vs) \<noteq> 0), finished = (v \<in> set vs)\<rparr>" if "v < length (nodes g)" for v
    using that by (simp add: dag_inv_def)
  then show ?thesis using rt0(1) rt(1) by auto
qed

theorem notified_when_predecessors_finished_witness:
  "\<exists>rt0 rt. dag_start (dag_runtime_new \<lparr>nodes = [{1}, {}]\<rparr>) = Ok rt0 \<and> finish_vertex 0 rt0 = Ok rt \<and>
     \<not> ready_tx (rt ! 1)"
proof -
  have "batch_ordered \<lparr>nodes = [{1}, {}]\<rparr>" by (auto simp: batch_ordered_def less_Suc_eq nth_Cons')
  from notified_when_predecessors_finished [OF this, of "[0]"] show ?thesis
    by (auto simp: rbind_eq_Inr preds_def less_Suc_eq)
qed

text \<open>The condition check decides success. On reads that cover the read set, the check of the
  predicted path of a transaction is equivalent to its execution answering \<open>Ok\<close>, except that it also
  refuses a rename to a path below the source; the creation of the root is set aside.\<close>

theorem condition_check_decides_success:
  assumes "valid_tx tx" "read_set tx \<subseteq> dom reads" "op tx \<noteq> Create root"
  shows "check_success_path_condition tx (predicted_path (op tx)) reads =
    Ok (result (execute_deterministic tx reads) = TxOk \<and> \<not> moves_into_itself (op tx))"
  using check_condition_iff [OF assms] execute_deterministic_covered [OF assms(1,2)] by (simp add: op_result_def)

theorem condition_check_decides_success_witness:
  "check_success_path_condition (tx_of 0 (Stat root)) StatSuccess [root \<mapsto> Missing] = Ok False"
  using condition_check_decides_success [of "tx_of 0 (Stat root)" "[root \<mapsto> Missing]"]
    execute_deterministic_covered [of "tx_of 0 (Stat root)" "[root \<mapsto> Missing]"]
  by (simp add: state_of_reads_def)

section \<open>Properties of runs\<close>

text \<open>C16: Runs are deterministic. In every reachable state of the workers of all shards, under any
  interleaving and any order of messages, a commit slot is pending or holds the value that the batch
  and the initial state determine, and it holds that value once the worker is reported.\<close>

theorem slots_are_determined:
  assumes "scc_setting L b s0 ps P" "scc_initial P = Ok c0" "(scc_step P)\<^sup>*\<^sup>* c0 c" "i < length (txs b)"
  shows "(slots c sh ! i = SlotPending \<or> slots c sh ! i = scc_slot L b s0 sh i) \<and>
    (i \<in> reported c sh \<longrightarrow> slots c sh ! i = scc_slot L b s0 sh i)"
  using scc_inv_slot [OF scc_inv_reachable [OF assms(1-3)] assms(4)]
    scc_inv_reported_slot [OF scc_inv_reachable [OF assms(1-3)] assms(4)] by blast

theorem slots_are_determined_witness:
  "\<exists>P c0. scc_setting two_shards stat_create Map.empty {0, 1} P \<and> scc_initial P = Ok c0 \<and>
     (slots c0 1 ! 0 = SlotPending \<or> slots c0 1 ! 0 = SlotNoOp)"
proof -
  obtain P where P: "scc_setting two_shards stat_create Map.empty {0, 1} P" using stat_create_setting by blast
  obtain c0 where c0: "scc_initial P = Ok c0" using scc_initial_inv [OF P] by blast
  have "scc_slot two_shards stat_create Map.empty 1 0 = SlotNoOp"
    unfolding scc_slot_def stat_create_parts(1) by simp
  moreover have "0 < length (txs stat_create)" by (simp add: stat_create_def)
  note slots_are_determined [OF P c0 rtranclp.rtrancl_refl this, of 1]
  ultimately have "slots c0 1 ! 0 = SlotPending \<or> slots c0 1 ! 0 = SlotNoOp" by simp
  then show ?thesis using P c0 by blast
qed

text \<open>C21: Every run of the worker system is finite.\<close>

theorem worker_runs_terminate: "wfP (\<lambda>c' c. scc_step P c c')"
  by (rule scc_runs_finite)

text \<open>C20: No deadlock. A reachable state in which no step is possible has every worker of every shard
  reported, or a shard aborted; with the previous property every run ends in such a state.\<close>

theorem workers_do_not_block:
  assumes "scc_setting L b s0 ps P" "scc_initial P = Ok c0" "(scc_step P)\<^sup>*\<^sup>* c0 c" "\<nexists>c'. scc_step P c c'"
  shows "failed_shards c \<noteq> {} \<or> (\<forall>sh. reported c sh = {..<length (txs b)})"
proof (rule ccontr)
  note inv = scc_inv_reachable [OF assms(1-3)]
  assume "\<not> ?thesis"
  then obtain sh where "failed_shards c = {}" "reported c sh \<noteq> {..<length (txs b)}" by blast
  moreover from this scc_invD(2) [OF inv, of sh] obtain i where "i < length (txs b)" "i \<notin> reported c sh" by auto
  ultimately show False using scc_progress [OF inv assms(1)] assms(4) by blast
qed

theorem workers_do_not_block_witness:
  "\<exists>P c0 c. scc_setting two_shards stat_create Map.empty {0, 1} P \<and> scc_initial P = Ok c0 \<and>
     (scc_step P)\<^sup>*\<^sup>* c0 c \<and> (failed_shards c \<noteq> {} \<or> (\<forall>sh. reported c sh = {0, 1}))"
proof -
  obtain P where P: "scc_setting two_shards stat_create Map.empty {0, 1} P" using stat_create_setting by blast
  obtain c0 where c0: "scc_initial P = Ok c0" using scc_initial_inv [OF P] by blast
  obtain c where c: "(scc_step P)\<^sup>*\<^sup>* c0 c" "\<nexists>c'. scc_step P c c'" using stuck_reachable by blast
  have eq: "{..<length (txs stat_create)} = {0, 1}" by (auto simp: stat_create_def less_Suc_eq)
  have "failed_shards c \<noteq> {} \<or> (\<forall>sh. reported c sh = {0, 1})"
    using workers_do_not_block [OF P c0 c] unfolding eq .
  then show ?thesis using P c0 c(1) by blast
qed

text \<open>C23: A shard aborts a batch only if a transaction of the batch failed its speculation: when all of
  them commit, no read arrives at a closed mailbox.\<close>

theorem abort_needs_failed_transaction:
  assumes "scc_setting L b s0 ps P" "scc_initial P = Ok c0" "(scc_step P)\<^sup>*\<^sup>* c0 c"
    and "\<forall>i < length (txs b). scc_ok L b s0 i"
  shows "failed_shards c = {}"
  using scc_abort_cause [OF assms(1-3)] assms(4) by blast

theorem abort_needs_failed_transaction_witness:
  "\<exists>P c0. scc_setting \<lparr>shard_count = 1\<rparr> make_root Map.empty {0} P \<and> scc_initial P = Ok c0 \<and>
     (\<forall>c. (scc_step P)\<^sup>*\<^sup>* c0 c \<longrightarrow> failed_shards c = {})"
proof -
  obtain P where P: "scc_setting \<lparr>shard_count = 1\<rparr> make_root Map.empty {0} P" using make_root_setting by blast
  obtain c0 where c0: "scc_initial P = Ok c0" using scc_initial_inv [OF P] by blast
  show ?thesis using abort_needs_failed_transaction [OF P c0 _ make_root_ok] P c0 by blast
qed

text \<open>C22: The converse fails, and that is a defect: a failed speculation, a regular outcome that the
  fallback is there for, can make another shard's whole batch end with an error. In the batch
  \<open>Stat /; Create /a\<close> on the empty state there is a run in which shard 0 fails the second transaction
  because of the first and drops its mailbox before the read of shard 1 arrives.\<close>

theorem failed_speculation_can_abort_batch:
  "\<exists>P c0 c. scc_setting two_shards stat_create Map.empty {0, 1} P \<and> scc_initial P = Ok c0 \<and>
     (scc_step P)\<^sup>*\<^sup>* c0 c \<and> 1 \<in> failed_shards c"
proof -
  obtain P where P: "scc_setting two_shards stat_create Map.empty {0, 1} P" using stat_create_setting by blast
  obtain c0 where c0: "scc_initial P = Ok c0" using scc_initial_inv [OF P] by blast
  have "\<exists>c. (scc_step P)\<^sup>*\<^sup>* c0 c \<and> 1 \<in> failed_shards c"
    by (rule abort_run [OF P c0 _ stat_create_parts(1) stat_create_outcomes(2,1)])
      (simp_all add: stat_create_parts [unfolded One_nat_def], simp add: stat_create_def)
  then show ?thesis using P c0 by blast
qed

text \<open>A finished batch matches the reference. When all workers of all shards are reported, each
  shard installs its part of one state, the records of the shards are consistent and combine to the
  union of the failures, and executing the fallback batch serially on the installed state is the
  reference execution in the order of the combined record.\<close>

theorem finished_batch_matches_reference:
  assumes S: "scc_setting L b s0 ps P" and run: "scc_initial P = Ok c0" "(scc_step P)\<^sup>*\<^sup>* c0 c"
    and all: "\<forall>sh. reported c sh = {..<length (txs b)}"
    and shs: "\<forall>i < length (txs b). parts L b i \<subseteq> set shs" "shs \<noteq> []"
  defines "failed \<equiv> \<lambda>sh. failed_indices_from_snapshot (terminal_snapshot (slots c sh))"
  shows "\<exists>s reorder. (\<forall>sh. install_scc_successes (slots c sh) (failed sh) (shard_part L s0 sh) = Ok (shard_part L s sh)) \<and>
    assert_scc_reorders_consistent [b]
      (map (\<lambda>sh. (sh, [the (snd (record_batch_reorder (batch_id b) (length (txs b)) (failed sh) Map.empty) (batch_id b))])) shs) =
      Ok [batch_id b \<mapsto> reorder] \<and>
    run_txs (permuted_txs b reorder) s0 =
      run_txs (txs (fallback_batch_from_failed_indices b (\<Union>sh \<in> set shs. failed sh))) s"
proof -
  note sd = scc_settingD [OF S]
  note inv = scc_inv_reachable [OF S run]
  have F: "failed sh = {i. i < length (txs b) \<and> sh \<in> parts L b i \<and> \<not> scc_ok L b s0 i}" for sh
    using finished_failed [OF inv] all by (simp add: failed_def terminal_snapshot_def)
  have sub: "failed sh \<subseteq> {0..<length (txs b)}" for sh by (auto simp: F)
  have "parts L b i \<noteq> {}" if "i < length (txs b)" for i
    using scc_batchD(1) [OF sd(1) that] by (auto simp: participants_of_def participants_all valid_tx_iff)
  then have U: "(\<Union>sh \<in> set shs. failed sh) = {i. i < length (txs b) \<and> \<not> scc_ok L b s0 i}"
    using shs(1) by (fastforce simp: F)
  let ?s = "scc_state L b s0 (length (txs b))" and ?r = "canonical_reorder b (\<Union>sh \<in> set shs. failed sh)"
  have "install_scc_successes (slots c sh) (failed sh) (shard_part L s0 sh) = Ok (shard_part L ?s sh)" for sh
    by (rule install_finished [OF sd(1) finished_slots [OF inv] F]) (simp add: all)
  moreover have "assert_scc_reorders_consistent [b] (map (\<lambda>sh. (sh, [canonical_reorder b (failed sh)])) shs) =
      Ok [batch_id b \<mapsto> ?r]"
  proof -
    let ?m = "map (\<lambda>sh. (sh, [canonical_reorder b (failed sh)])) shs"
    have "assert_scc_reorders_consistent [b] ?m =
        Ok [batch_id b \<mapsto> canonical_reorder b (\<Union>x \<in> set ?m. failed (fst x))]"
      by (rule reorders_of_one_batch) (use sub shs(2) in auto)
    then show ?thesis by simp
  qed
  moreover have "the (snd (record_batch_reorder (batch_id b) (length (txs b)) (failed sh) Map.empty) (batch_id b)) =
      canonical_reorder b (failed sh)" for sh
    using record_batch_reorder_fresh [OF sub, of Map.empty] by simp
  moreover have "run_txs (permuted_txs b ?r) s0 =
      run_txs (txs (fallback_batch_from_failed_indices b (\<Union>sh \<in> set shs. failed sh))) ?s"
    by (rule reference_of_scc_batch [OF sd(1) U])
  ultimately show ?thesis unfolding failed_def [symmetric] by (intro exI [of _ ?s] exI [of _ ?r]) simp
qed

theorem finished_batch_matches_reference_witness:
  "\<exists>P c0 c s. scc_setting \<lparr>shard_count = 1\<rparr> make_root Map.empty {0} P \<and> scc_initial P = Ok c0 \<and>
     (scc_step P)\<^sup>*\<^sup>* c0 c \<and>
     install_scc_successes (slots c 0) (failed_indices_from_snapshot (slots c 0)) Map.empty =
       Ok (shard_part \<lparr>shard_count = 1\<rparr> s 0)"
proof -
  obtain P c0 c where P: "scc_setting \<lparr>shard_count = 1\<rparr> make_root Map.empty {0} P" "scc_initial P = Ok c0"
    and c: "(scc_step P)\<^sup>*\<^sup>* c0 c" "\<forall>sh. reported c sh = {..<length (txs make_root)}" by (rule make_root_finishes)
  have "shard_part \<lparr>shard_count = 1\<rparr> Map.empty 0 = Map.empty" by (simp add: shard_part_def)
  then obtain s where "install_scc_successes (slots c 0) (failed_indices_from_snapshot (slots c 0)) Map.empty =
      Ok (shard_part \<lparr>shard_count = 1\<rparr> s 0)"
    using finished_batch_matches_reference [OF P c(1,2) make_root_parts list.distinct(2)]
    unfolding terminal_snapshot_def by metis
  then show ?thesis using P c(1) by blast
qed

end
