(* ===== verification/Lock.thy ===== *)
theory Lock
  imports Model
begin

text \<open>
  The lock table of a shard, \<open>src/lock.rs\<close>: one first-in first-out queue of transactions per key, a
  grant message to the transaction at the head. The lemmas show that the queue of a key always
  lists the transactions that still hold or want it in the order they were enqueued, that a grant
  goes exactly to a new head, and that a release by another transaction is refused.
\<close>

section \<open>Operations\<close>

text \<open>
  A queue entry is the transaction and its grant channel; the channel is named by the transaction,
  and \<open>open_rx\<close> says whose receiver is alive. Grants are the list of messages sent.
\<close>

type_synonym lock_table = "key \<rightharpoonup> tx_id list"
type_synonym grant = "tx_id \<times> key"

definition lock_table_new :: lock_table where
  "lock_table_new = Map.empty"

definition push_back :: "tx_id \<Rightarrow> key \<Rightarrow> lock_table \<Rightarrow> lock_table" where
  "push_back tx k queues = queues(k \<mapsto> (case queues k of None \<Rightarrow> [] | Some q \<Rightarrow> q) @ [tx])"

definition enqueue :: "tx_id \<Rightarrow> key set \<Rightarrow> lock_table \<Rightarrow> lock_table" where
  "enqueue tx local_keys queues = fold (push_back tx) (sorted_list_of_set local_keys) queues"

definition send_grant :: "tx_id set \<Rightarrow> tx_id \<Rightarrow> key \<Rightarrow> grant result" where
  "send_grant open_rx tx k =
     (if tx \<in> open_rx then Ok (tx, k) else Err (ChannelClosed ''lock grant receiver is closed''))"

definition grant_head :: "tx_id set \<Rightarrow> key \<Rightarrow> tx_id list \<Rightarrow> grant list result" where
  "grant_head open_rx k q =
     (case q of [] \<Rightarrow> Ok [] | tx # _ \<Rightarrow> rbind (send_grant open_rx tx k) (\<lambda>g. Ok [g]))"

definition grant_initial_heads :: "tx_id set \<Rightarrow> lock_table \<Rightarrow> grant list result" where
  "grant_initial_heads open_rx queues =
     rbind (traverse (\<lambda>k. grant_head open_rx k (the (queues k))) (sorted_list_of_set (dom queues)))
       (\<lambda>gs. Ok (concat gs))"

definition release_key ::
    "tx_id set \<Rightarrow> tx_id \<Rightarrow> key \<Rightarrow> lock_table \<times> grant list \<Rightarrow> (lock_table \<times> grant list) result" where
  "release_key open_rx tx k st =
     (case st of (queues, sent) \<Rightarrow>
        (case queues k of
           None \<Rightarrow> Err (LockInvariant ''missing lock queue for key'')
         | Some [] \<Rightarrow> Err (LockInvariant ''empty lock queue for key'')
         | Some (front # q) \<Rightarrow>
             if front \<noteq> tx then Err (LockInvariant ''queue head is another transaction'')
             else rbind (grant_head open_rx k q) (\<lambda>gs. Ok (queues(k \<mapsto> q), sent @ gs))))"

definition release_and_grant_next ::
    "tx_id set \<Rightarrow> tx_id \<Rightarrow> key set \<Rightarrow> lock_table \<Rightarrow> (lock_table \<times> grant list) result" where
  "release_and_grant_next open_rx tx local_keys queues =
     fold_res (release_key open_rx tx) (sorted_list_of_set local_keys) (queues, [])"

section \<open>The queue of a key\<close>

definition queue_of :: "lock_table \<Rightarrow> key \<Rightarrow> tx_id list" where
  "queue_of queues k = (case queues k of None \<Rightarrow> [] | Some q \<Rightarrow> q)"

definition holder :: "lock_table \<Rightarrow> key \<Rightarrow> tx_id option" where
  "holder queues k = (case queue_of queues k of [] \<Rightarrow> None | tx # _ \<Rightarrow> Some tx)"

lemma queue_of_new [simp]: "queue_of lock_table_new k = []"
  by (simp add: queue_of_def lock_table_new_def)

lemma in_set_tlD: "x \<in> set (tl xs) \<Longrightarrow> x \<in> set xs"
  by (cases xs) simp_all

lemma queue_of_Some: "queues k = Some q \<Longrightarrow> queue_of queues k = q"
  by (simp add: queue_of_def)

lemma queue_of_enqueue:
  assumes "finite K"
  shows "queue_of (enqueue tx K queues) k = queue_of queues k @ (if k \<in> K then [tx] else [])"
proof -
  have "queue_of (fold (push_back tx) ks queues) k = queue_of queues k @ (if k \<in> set ks then [tx] else [])"
    if "distinct ks" for ks
    using that by (induction ks arbitrary: queues) (auto simp: push_back_def queue_of_def)
  from this [of "sorted_list_of_set K"] assms show ?thesis by (simp add: enqueue_def)
qed

lemma enqueue_dom: "finite K \<Longrightarrow> dom (enqueue tx K queues) = dom queues \<union> K"
proof -
  assume "finite K"
  moreover have "dom (fold (push_back tx) ks queues) = dom queues \<union> set ks" for ks
    by (induction ks arbitrary: queues) (auto simp: push_back_def)
  ultimately show ?thesis by (simp add: enqueue_def)
qed

lemma grant_head_Ok:
  "set q \<subseteq> open_rx \<Longrightarrow> grant_head open_rx k q = Ok (case q of [] \<Rightarrow> [] | tx # _ \<Rightarrow> [(tx, k)])"
  by (auto simp: grant_head_def send_grant_def split: list.split)

text \<open>The first grants go to the head of every queue, one each.\<close>

lemma grant_initial_heads_Ok:
  assumes "finite (dom queues)" "\<And>k. set (queue_of queues k) \<subseteq> open_rx"
  shows "\<exists>gs. grant_initial_heads open_rx queues = Ok gs \<and> distinct gs \<and>
    set gs = {(tx, k). holder queues k = Some tx}"
proof -
  let ?g = "\<lambda>k. case the (queues k) of [] \<Rightarrow> [] | tx # _ \<Rightarrow> [(tx, k)]"
  let ?ks = "sorted_list_of_set (dom queues)"
  have "grant_head open_rx k (the (queues k)) = Ok (?g k)" if "k \<in> set ?ks" for k
    using that assms(1) assms(2) [of k] by (intro grant_head_Ok) (auto simp: queue_of_Some)
  then have "grant_initial_heads open_rx queues = Ok (concat (map ?g ?ks))"
    by (simp add: grant_initial_heads_def traverse_all_ok)
  moreover have "distinct (concat (map ?g ks)) \<and> set (concat (map ?g ks)) \<subseteq> UNIV \<times> set ks"
    if "distinct ks" for ks
    using that by (induction ks) (auto split: list.splits)
  moreover have "set (concat (map ?g ?ks)) = {(tx, k). holder queues k = Some tx}"
    using assms(1) by (auto simp: holder_def queue_of_def split: list.splits option.splits)
      (metis list.exhaust_sel list.sel(1))
  ultimately show ?thesis by auto
qed

text \<open>
  A release by the head of all its queues succeeds: it removes the transaction from each, and
  grants each key to the next transaction in its queue.
\<close>

lemma release_Ok:
  assumes "finite K" "\<And>k. k \<in> K \<Longrightarrow> holder queues k = Some tx" "\<And>k. set (tl (queue_of queues k)) \<subseteq> open_rx"
  shows "\<exists>queues' gs. release_and_grant_next open_rx tx K queues = Ok (queues', gs) \<and> distinct gs \<and>
    (\<forall>k. queue_of queues' k = (if k \<in> K then tl (queue_of queues k) else queue_of queues k)) \<and>
    dom queues' = dom queues \<and> set gs = {(t, k). k \<in> K \<and> holder queues' k = Some t}"
proof -
  have "\<exists>queues' gs'. fold_res (release_key open_rx tx) ks (queues, gs) = Ok (queues', gs @ gs') \<and> distinct gs' \<and>
      (\<forall>k. queue_of queues' k = (if k \<in> set ks then tl (queue_of queues k) else queue_of queues k)) \<and>
      dom queues' = dom queues \<and> set gs' = {(t, k). k \<in> set ks \<and> holder queues' k = Some t}"
    if "distinct ks" "\<forall>k \<in> set ks. holder queues k = Some tx" "\<forall>k. set (tl (queue_of queues k)) \<subseteq> open_rx" for ks gs
    using that
  proof (induction ks arbitrary: queues gs)
    case (Cons k ks)
    obtain q where q: "queues k = Some (tx # q)"
      using Cons.prems(2) by (auto simp: holder_def queue_of_def split: option.splits list.splits)
    let ?q = "queues(k \<mapsto> q)"
    let ?g = "case q of [] \<Rightarrow> [] | t # _ \<Rightarrow> [(t, k)]"
    have sub: "set q \<subseteq> open_rx" using Cons.prems(3) [rule_format, of k] queue_of_Some [of queues, OF q] by simp
    then have rel: "release_key open_rx tx k (queues, gs) = Ok (?q, gs @ ?g)"
      using q grant_head_Ok [of q open_rx k] by (simp add: release_key_def)
    have q': "queue_of ?q x = (if x = k then tl (queue_of queues x) else queue_of queues x)" for x
      using q by (simp add: queue_of_def)
    have same: "holder ?q x = holder queues x" if "x \<noteq> k" for x using q' that by (simp add: holder_def)
    have held: "holder ?q x = Some tx" if "x \<in> set ks" for x
      using that Cons.prems(1,2) same by (cases "x = k") auto
    have prems: "distinct ks" "\<forall>x \<in> set ks. holder ?q x = Some tx" "\<forall>x. set (tl (queue_of ?q x)) \<subseteq> open_rx"
      using Cons.prems held q' sub queue_of_Some [of queues, OF q] by (auto dest: in_set_tlD)
    obtain queues' gs' where IH: "fold_res (release_key open_rx tx) ks (?q, gs @ ?g) = Ok (queues', (gs @ ?g) @ gs')"
      "distinct gs'" "\<And>x. queue_of queues' x = (if x \<in> set ks then tl (queue_of ?q x) else queue_of ?q x)"
      "dom queues' = dom ?q" "set gs' = {(t, x). x \<in> set ks \<and> holder queues' x = Some t}"
      using Cons.IH [OF prems] by blast
    have k: "k \<notin> set ks" using Cons.prems(1) by simp
    then have "queue_of queues' k = q" using IH(3) [of k] q by (simp add: queue_of_def)
    then have "set (?g @ gs') = {(t, x). x \<in> set (k # ks) \<and> holder queues' x = Some t}"
      using IH(5) by (auto simp: holder_def split: list.splits)
    moreover have "distinct (?g @ gs')" using IH(2,5) k by (auto split: list.splits)
    moreover have "queue_of queues' x = (if x \<in> set (k # ks) then tl (queue_of queues x) else queue_of queues x)" for x
      using IH(3) [of x] q' [of x] k by auto
    moreover have "dom queues' = dom queues" using IH(4) q by auto
    ultimately show ?case using IH(1) rel by (auto intro!: exI [of _ "?g @ gs'"])
  qed auto
  from this [of "sorted_list_of_set K" "[]"] assms show ?thesis
    by (auto simp: release_and_grant_next_def)
qed

text \<open>Anyone else is refused.\<close>

lemma release_refused:
  assumes "finite K" "k \<in> K" "holder queues k \<noteq> Some tx" "\<And>k. set (tl (queue_of queues k)) \<subseteq> open_rx"
  shows "\<exists>m. release_and_grant_next open_rx tx K queues = Err (LockInvariant m)"
proof -
  have "\<exists>m. fold_res (release_key open_rx tx) ks (queues, gs) = Err (LockInvariant m)"
    if "k \<in> set ks" "distinct ks" "holder queues k \<noteq> Some tx" "\<forall>k. set (tl (queue_of queues k)) \<subseteq> open_rx" for ks gs
    using that
  proof (induction ks arbitrary: queues gs)
    case (Cons x ks)
    show ?case
    proof (cases "holder queues x = Some tx")
      case False
      then show ?thesis
        by (auto simp: release_key_def holder_def queue_of_def split: option.splits list.splits)
    next
      case True
      then obtain q where q: "queues x = Some (tx # q)"
        by (auto simp: holder_def queue_of_def split: option.splits list.splits)
      have sub: "set q \<subseteq> open_rx" using Cons.prems(4) [rule_format, of x] queue_of_Some [of queues, OF q] by simp
      then have rel: "release_key open_rx tx x (queues, gs) =
          Ok (queues(x \<mapsto> q), gs @ (case q of [] \<Rightarrow> [] | t # _ \<Rightarrow> [(t, x)]))"
        using q grant_head_Ok [of q open_rx x] by (simp add: release_key_def)
      have "x \<noteq> k" using True Cons.prems(3) by auto
      then have "\<exists>m. fold_res (release_key open_rx tx) ks
          (queues(x \<mapsto> q), gs @ (case q of [] \<Rightarrow> [] | t # _ \<Rightarrow> [(t, x)])) = Err (LockInvariant m)"
        using Cons.prems sub by (intro Cons.IH) (auto simp: holder_def queue_of_def dest: in_set_tlD)
      then show ?thesis by (simp only: fold_res.simps rel rbind.simps)
    qed
  qed simp
  from this [of "sorted_list_of_set K" "[]"] assms show ?thesis
    by (auto simp: release_and_grant_next_def)
qed

section \<open>Properties\<close>

text \<open>Locks are first come, first served. After any sequence of requests into an empty table the
  queue of a key lists exactly the transactions that asked for it, in the order of the requests.\<close>

theorem lock_queues_are_fifo:
  assumes "\<forall>(tx, K) \<in> set requests. finite K"
  shows "queue_of (fold (\<lambda>(tx, K). enqueue tx K) requests lock_table_new) k =
    map fst (filter (\<lambda>(tx, K). k \<in> K) requests)"
proof -
  have "queue_of (fold (\<lambda>(tx, K). enqueue tx K) requests queues) k =
      queue_of queues k @ map fst (filter (\<lambda>(tx, K). k \<in> K) requests)" for queues
    using assms by (induction requests arbitrary: queues) (auto simp: queue_of_enqueue)
  then show ?thesis by simp
qed

theorem lock_queues_are_fifo_witness:
  "queue_of (enqueue 2 {root} (enqueue 1 {root} lock_table_new)) root = [1, 2]"
  using lock_queues_are_fifo [of "[(1, {root}), (2, {root})]" root] by simp

text \<open>C32: A release hands each key on. If a transaction heads the queues of all its keys and the
  receivers of the waiting transactions are open, its release succeeds: it leaves every one of its
  queues and no other, and sends one grant per key, to the transaction that is then at the head. If
  it does not head one of them, the release ends with a lock invariant error.\<close>

theorem release_hands_over:
  assumes "finite K" "\<forall>k. set (tl (queue_of queues k)) \<subseteq> open_rx"
  shows "(if \<forall>k \<in> K. holder queues k = Some tx
    then \<exists>queues' gs. release_and_grant_next open_rx tx K queues = Ok (queues', gs) \<and>
      (\<forall>k. queue_of queues' k = (if k \<in> K then tl (queue_of queues k) else queue_of queues k)) \<and>
      distinct gs \<and> set gs = {(t, k). k \<in> K \<and> holder queues' k = Some t}
    else \<exists>m. release_and_grant_next open_rx tx K queues = Err (LockInvariant m))"
proof (cases "\<forall>k \<in> K. holder queues k = Some tx")
  case True
  then show ?thesis using release_Ok [OF assms(1), of queues tx open_rx] assms(2) by (auto simp del: split_paired_Ex)
next
  case False
  then obtain k where "k \<in> K" "holder queues k \<noteq> Some tx" by blast
  then have "\<exists>m. release_and_grant_next open_rx tx K queues = Err (LockInvariant m)"
    using release_refused [OF assms(1)] assms(2) by blast
  then show ?thesis using False by (simp only: if_False)
qed

theorem release_hands_over_witness:
  "\<exists>m. release_and_grant_next {1, 2} 2 {root} [root \<mapsto> [1, 2]] = Err (LockInvariant m)"
  using release_hands_over [of "{root}" "[root \<mapsto> [1, 2]]" "{1, 2}" 2]
  by (simp add: holder_def queue_of_def)

end
