(* ===== verification/LockRun.thy ===== *)
theory LockRun
  imports Lock Registry Checker "HOL-Library.Multiset" "HOL-Library.Product_Lexorder"
begin

text \<open>
  Batches that run under locks, in \<open>src/engine.rs\<close>: the part that \<open>execute_calvin_batch\<close> with its
  \<open>TxWorker\<close> and \<open>execute_aria_fallback_batch\<close> with its \<open>AriaFallbackWorker\<close> share, as a transition
  system over all shards. A worker waits for its lock grants, reads its local keys and sends them to
  the active participants; an active worker collects the reads of the other sources, executes,
  applies its local writes and ends; the coordinator of the shard takes the outcomes in any order,
  releases the locks of the worker and passes the grants on. The two executors differ in the
  functions of \<open>lock_ops\<close>, which their own theories define from the code.
\<close>

section \<open>Workers\<close>

record lock_worker =
  lw_tx :: ordered_tx
  lw_active :: "shard_id set"
  lw_sources :: "shard_id set"
  lw_result_shard :: shard_id
  lw_lock_keys :: "key set"
  lw_read_keys :: "key set"
  lw_write_keys :: "key set"

abbreviation lw_id :: "lock_worker \<Rightarrow> tx_id" where "lw_id w \<equiv> tx_id (lw_tx w)"

text \<open>What a worker knows of its shard: the layout, the peers with an endpoint, the batch, the shard.\<close>

record shard_ctx =
  cx_layout :: shard_layout
  cx_peers :: "shard_id set"
  cx_batch_id :: batch_id
  cx_shard :: shard_id

datatype worker_completion = Active tx_result "tx_result_record option" | Passive

type_synonym outbox = "(shard_id \<times> local_read_result) list"
type_synonym accounts = "tx_result_record list \<times> (tx_id \<rightharpoonup> tx_result)"

text \<open>
  \<open>x_wait\<close> and \<open>x_collect\<close> look at the messages that arrived so far and return \<open>None\<close> to wait for
  more; \<open>x_start\<close> runs from the grants to the sent reads and returns the local reads of an active
  worker; \<open>x_finish\<close> runs from the full reads to the end; \<open>x_handle\<close> books an outcome.
\<close>

record lock_ops =
  x_phase :: read_phase
  x_wait :: "key set \<Rightarrow> key list \<Rightarrow> unit option result"
  x_start :: "shard_ctx \<Rightarrow> lock_worker \<Rightarrow> fs_state \<Rightarrow> (outbox \<times> reads option) result"
  x_collect :: "shard_ctx \<Rightarrow> lock_worker \<Rightarrow> reads \<Rightarrow> local_read_result list \<Rightarrow> reads option result"
  x_finish :: "shard_ctx \<Rightarrow> lock_worker \<Rightarrow> reads \<Rightarrow> fs_state \<Rightarrow> tx_result_registry
    \<Rightarrow> (fs_state \<times> tx_result_registry \<times> worker_completion) result"
  x_handle :: "tx_id \<Rightarrow> worker_completion \<Rightarrow> accounts \<Rightarrow> accounts result"

text \<open>The prologue of a batch on a shard: the spawned workers, the filled lock table, the registries.\<close>

record spawned =
  sp_jobs :: "lock_worker list"
  sp_table :: lock_table
  sp_mail :: mailbox_registry
  sp_results :: tx_result_registry

section \<open>The system\<close>

datatype lock_worker_state = LockWait | ReadCollect reads | LockDone "worker_completion result"

record lock_system =
  ls_store :: "shard_id \<Rightarrow> fs_state"
  ls_locks :: "shard_id \<Rightarrow> lock_table"
  ls_grants :: "shard_id \<Rightarrow> tx_id \<Rightarrow> key list"
  ls_state :: "shard_id \<Rightarrow> tx_id \<Rightarrow> lock_worker_state"
  ls_handled :: "shard_id \<Rightarrow> tx_id set"
  ls_accounts :: "shard_id \<Rightarrow> accounts"
  ls_results :: "shard_id \<Rightarrow> tx_result_registry"
  ls_net :: "(shard_id \<times> local_read_result) multiset"
  ls_mail :: "shard_id \<Rightarrow> mailbox_registry"
  ls_failed :: "shard_id \<rightharpoonup> error"

record lock_params =
  lp_layout :: shard_layout
  lp_peers :: "shard_id set"
  lp_batch_id :: batch_id
  lp_jobs :: "shard_id \<Rightarrow> lock_worker list"

definition ctx_of :: "lock_params \<Rightarrow> shard_id \<Rightarrow> shard_ctx" where
  "ctx_of P sh = \<lparr>cx_layout = lp_layout P, cx_peers = lp_peers P, cx_batch_id = lp_batch_id P, cx_shard = sh\<rparr>"

definition mail_key :: "lock_ops \<Rightarrow> lock_params \<Rightarrow> tx_id \<Rightarrow> mailbox_key" where
  "mail_key X P t = (lp_batch_id P, t, x_phase X)"

definition is_lock_done :: "lock_worker_state \<Rightarrow> bool" where
  "is_lock_done s \<longleftrightarrow> (case s of LockDone _ \<Rightarrow> True | _ \<Rightarrow> False)"

text \<open>The grants a list of messages carries to a transaction.\<close>

definition grants_to :: "tx_id \<Rightarrow> grant list \<Rightarrow> key list" where
  "grants_to t gs = map snd (filter (\<lambda>g. fst g = t) gs)"

definition set_state :: "shard_id \<Rightarrow> tx_id \<Rightarrow> lock_worker_state \<Rightarrow> lock_system \<Rightarrow> lock_system" where
  "set_state sh t s c = c\<lparr>ls_state := (ls_state c)(sh := (ls_state c sh)(t := s))\<rparr>"

definition send_reads :: "outbox \<Rightarrow> lock_system \<Rightarrow> lock_system" where
  "send_reads ms c = c\<lparr>ls_net := ls_net c + mset ms\<rparr>"

text \<open>The coordinator releases first and looks at the result of the worker afterwards.\<close>

definition handle_outcome ::
    "lock_ops \<Rightarrow> tx_id set \<Rightarrow> lock_worker \<Rightarrow> worker_completion result \<Rightarrow> lock_table \<Rightarrow> accounts
      \<Rightarrow> (lock_table \<times> grant list \<times> accounts) result" where
  "handle_outcome X open_rx w outcome table acc =
     rbind (release_and_grant_next open_rx (lw_id w) (lw_lock_keys w) table) (\<lambda>(table', gs).
     rbind outcome (\<lambda>completion.
     rbind (x_handle X (lw_id w) completion acc) (\<lambda>acc'.
     Ok (table', gs, acc'))))"

text \<open>
  A shard that failed takes no further step: the error is the result of its batch. A message that
  finds its mailbox dropped makes the sending worker and with it the batch of its shard fail.
\<close>

inductive lock_step :: "lock_ops \<Rightarrow> lock_params \<Rightarrow> lock_system \<Rightarrow> lock_system \<Rightarrow> bool" for X P where
  start_active:
    "ls_failed c sh = None \<Longrightarrow> w \<in> set (lp_jobs P sh) \<Longrightarrow> ls_state c sh (lw_id w) = LockWait \<Longrightarrow>
     x_wait X (lw_lock_keys w) (ls_grants c sh (lw_id w)) = Ok (Some ()) \<Longrightarrow>
     x_start X (ctx_of P sh) w (ls_store c sh) = Ok (ms, Some r) \<Longrightarrow>
     lock_step X P c (send_reads ms (set_state sh (lw_id w) (ReadCollect r) c))"
| start_passive:
    "ls_failed c sh = None \<Longrightarrow> w \<in> set (lp_jobs P sh) \<Longrightarrow> ls_state c sh (lw_id w) = LockWait \<Longrightarrow>
     x_wait X (lw_lock_keys w) (ls_grants c sh (lw_id w)) = Ok (Some ()) \<Longrightarrow>
     x_start X (ctx_of P sh) w (ls_store c sh) = Ok (ms, None) \<Longrightarrow>
     lock_step X P c (send_reads ms (set_state sh (lw_id w) (LockDone (Ok Passive)) c))"
| start_error:
    "ls_failed c sh = None \<Longrightarrow> w \<in> set (lp_jobs P sh) \<Longrightarrow> ls_state c sh (lw_id w) = LockWait \<Longrightarrow>
     x_wait X (lw_lock_keys w) (ls_grants c sh (lw_id w)) = Err e \<or>
     x_wait X (lw_lock_keys w) (ls_grants c sh (lw_id w)) = Ok (Some ()) \<and>
       x_start X (ctx_of P sh) w (ls_store c sh) = Err e \<Longrightarrow>
     lock_step X P c ((set_state sh (lw_id w) (LockDone (Err e)) c)
       \<lparr>ls_mail := (ls_mail c)(sh := drop_receiver (mail_key X P (lw_id w)) (ls_mail c sh))\<rparr>)"
| finish:
    "ls_failed c sh = None \<Longrightarrow> w \<in> set (lp_jobs P sh) \<Longrightarrow> ls_state c sh (lw_id w) = ReadCollect r \<Longrightarrow>
     x_collect X (ctx_of P sh) w r (inbox (ls_mail c sh) (mail_key X P (lw_id w))) = Ok (Some full) \<Longrightarrow>
     x_finish X (ctx_of P sh) w full (ls_store c sh) (ls_results c sh) = Ok (store', results', completion) \<Longrightarrow>
     lock_step X P c ((set_state sh (lw_id w) (LockDone (Ok completion)) c)
       \<lparr>ls_store := (ls_store c)(sh := store'), ls_results := (ls_results c)(sh := results'),
        ls_mail := (ls_mail c)(sh := drop_receiver (mail_key X P (lw_id w)) (ls_mail c sh))\<rparr>)"
| finish_error:
    "ls_failed c sh = None \<Longrightarrow> w \<in> set (lp_jobs P sh) \<Longrightarrow> ls_state c sh (lw_id w) = ReadCollect r \<Longrightarrow>
     x_collect X (ctx_of P sh) w r (inbox (ls_mail c sh) (mail_key X P (lw_id w))) = Err e \<or>
     (\<exists>full. x_collect X (ctx_of P sh) w r (inbox (ls_mail c sh) (mail_key X P (lw_id w))) = Ok (Some full) \<and>
       x_finish X (ctx_of P sh) w full (ls_store c sh) (ls_results c sh) = Err e) \<Longrightarrow>
     lock_step X P c ((set_state sh (lw_id w) (LockDone (Err e)) c)
       \<lparr>ls_mail := (ls_mail c)(sh := drop_receiver (mail_key X P (lw_id w)) (ls_mail c sh))\<rparr>)"
| handle:
    "ls_failed c sh = None \<Longrightarrow> w \<in> set (lp_jobs P sh) \<Longrightarrow> ls_state c sh (lw_id w) = LockDone outcome \<Longrightarrow>
     lw_id w \<notin> ls_handled c sh \<Longrightarrow>
     handle_outcome X {t. \<not> is_lock_done (ls_state c sh t)} w outcome (ls_locks c sh) (ls_accounts c sh) =
       Ok (table', gs, acc') \<Longrightarrow>
     lock_step X P c (c\<lparr>ls_locks := (ls_locks c)(sh := table'),
       ls_grants := (ls_grants c)(sh := \<lambda>t. ls_grants c sh t @ grants_to t gs),
       ls_handled := (ls_handled c)(sh := insert (lw_id w) (ls_handled c sh)),
       ls_accounts := (ls_accounts c)(sh := acc')\<rparr>)"
| handle_error:
    "ls_failed c sh = None \<Longrightarrow> w \<in> set (lp_jobs P sh) \<Longrightarrow> ls_state c sh (lw_id w) = LockDone outcome \<Longrightarrow>
     lw_id w \<notin> ls_handled c sh \<Longrightarrow>
     handle_outcome X {t. \<not> is_lock_done (ls_state c sh t)} w outcome (ls_locks c sh) (ls_accounts c sh) = Err e \<Longrightarrow>
     lock_step X P c (c\<lparr>ls_failed := (ls_failed c)(sh \<mapsto> e)\<rparr>)"
| deliver:
    "(target, m) \<in># ls_net c \<Longrightarrow> route m (ls_mail c target) = (Ok (), mail') \<Longrightarrow>
     lock_step X P c (c\<lparr>ls_net := ls_net c - {#(target, m)#}, ls_mail := (ls_mail c)(target := mail')\<rparr>)"
| deliver_closed:
    "(target, m) \<in># ls_net c \<Longrightarrow> route m (ls_mail c target) = (Err e, mail') \<Longrightarrow>
     lock_step X P c (c\<lparr>ls_net := ls_net c - {#(target, m)#}, ls_mail := (ls_mail c)(target := mail'),
       ls_failed := (ls_failed c)(lrr_from_shard m \<mapsto> e)\<rparr>)"

text \<open>The start of a batch: every shard has spawned its workers and granted the heads of its queues.\<close>

definition lock_initial :: "(shard_id \<Rightarrow> spawned) \<Rightarrow> (shard_id \<Rightarrow> fs_state) \<Rightarrow> lock_system" where
  "lock_initial sp stores =
     \<lparr>ls_store = stores, ls_locks = (\<lambda>sh. sp_table (sp sh)),
      ls_grants = (\<lambda>sh t. case grant_initial_heads UNIV (sp_table (sp sh)) of
        Ok gs \<Rightarrow> grants_to t gs | Err _ \<Rightarrow> []),
      ls_state = (\<lambda>_ _. LockWait), ls_handled = (\<lambda>_. {}), ls_accounts = (\<lambda>_. ([], Map.empty)),
      ls_results = (\<lambda>sh. sp_results (sp sh)), ls_net = {#}, ls_mail = (\<lambda>sh. sp_mail (sp sh)),
      ls_failed = (\<lambda>sh. case grant_initial_heads UNIV (sp_table (sp sh)) of
        Ok _ \<Rightarrow> None | Err e \<Rightarrow> Some e)\<rparr>"

definition lock_params_of ::
    "shard_layout \<Rightarrow> shard_id set \<Rightarrow> batch_id \<Rightarrow> (shard_id \<Rightarrow> spawned) \<Rightarrow> lock_params" where
  "lock_params_of L ps bid sp =
     \<lparr>lp_layout = L, lp_peers = ps, lp_batch_id = bid, lp_jobs = (\<lambda>sh. sp_jobs (sp sh))\<rparr>"

text \<open>A shard is finished when its coordinator has handled all its workers.\<close>

definition lock_finished :: "lock_params \<Rightarrow> lock_system \<Rightarrow> bool" where
  "lock_finished P c \<longleftrightarrow> (\<forall>sh. ls_failed c sh = None \<and> ls_handled c sh = lw_id ` set (lp_jobs P sh))"

definition batch_records :: "lock_system \<Rightarrow> shard_id \<Rightarrow> tx_result_record list" where
  "batch_records c sh = sort_key (\<lambda>r. (rec_tx_id r, rec_shard_id r)) (fst (ls_accounts c sh))"

lemma set_state_simps [simp]:
  "ls_store (set_state sh t s c) = ls_store c" "ls_locks (set_state sh t s c) = ls_locks c"
  "ls_grants (set_state sh t s c) = ls_grants c" "ls_handled (set_state sh t s c) = ls_handled c"
  "ls_accounts (set_state sh t s c) = ls_accounts c" "ls_results (set_state sh t s c) = ls_results c"
  "ls_net (set_state sh t s c) = ls_net c" "ls_mail (set_state sh t s c) = ls_mail c"
  "ls_failed (set_state sh t s c) = ls_failed c"
  "ls_state (set_state sh t s c) = (ls_state c)(sh := (ls_state c sh)(t := s))"
  by (simp_all add: set_state_def)

lemma send_reads_simps [simp]:
  "ls_store (send_reads ms c) = ls_store c" "ls_locks (send_reads ms c) = ls_locks c"
  "ls_grants (send_reads ms c) = ls_grants c" "ls_handled (send_reads ms c) = ls_handled c"
  "ls_accounts (send_reads ms c) = ls_accounts c" "ls_results (send_reads ms c) = ls_results c"
  "ls_net (send_reads ms c) = ls_net c + mset ms" "ls_mail (send_reads ms c) = ls_mail c"
  "ls_failed (send_reads ms c) = ls_failed c" "ls_state (send_reads ms c) = ls_state c"
  by (simp_all add: send_reads_def)

lemma is_lock_done_simps [simp]:
  "\<not> is_lock_done LockWait" "\<not> is_lock_done (ReadCollect r)" "is_lock_done (LockDone res)"
  by (simp_all add: is_lock_done_def)

lemma grants_to_simps [simp]:
  "grants_to t [] = []" "grants_to t (gs @ gs') = grants_to t gs @ grants_to t gs'"
  by (simp_all add: grants_to_def)

lemma grants_to_facts:
  "distinct gs \<Longrightarrow> distinct (grants_to t gs)" "set (grants_to t gs) = {k. (t, k) \<in> set gs}"
  by (auto simp: grants_to_def distinct_map inj_on_def image_iff)

end
