(* ===== verification/LockInv.thy ===== *)
theory LockInv
  imports LockRun
begin

text \<open>
  The contract between the two lock-based executors and their common system: the locale
  \<open>lock_executor\<close> says what their functions do with well-formed arguments, and the invariant of the
  system relates every reachable state to the serial execution of the transactions in their order,
  whatever the interleaving of workers, messages and coordinators.
\<close>

section \<open>Batches and their serial execution\<close>

text \<open>
  What an executor decides per transaction: who executes it, who answers the client, what record an
  executing shard produces.
\<close>

record lock_kind =
  lk_active :: "shard_layout \<Rightarrow> ordered_tx \<Rightarrow> shard_id set"
  lk_result :: "shard_layout \<Rightarrow> ordered_tx \<Rightarrow> shard_id"
  lk_record :: "shard_layout \<Rightarrow> shard_id \<Rightarrow> ordered_tx \<Rightarrow> tx_result \<Rightarrow> tx_result_record option"

text \<open>
  The transactions all shards work on, in their order. A shard need not have the same batch: the
  fallback of a speculative batch has on each shard only the transactions that shard takes part in.
\<close>

record lock_batch =
  lb_layout :: shard_layout
  lb_peers :: "shard_id set"
  lb_id :: batch_id
  lb_txs :: "ordered_tx list"
  lb_state :: fs_state

abbreviation lb_size :: "lock_batch \<Rightarrow> nat" where "lb_size B \<equiv> length (lb_txs B)"
abbreviation nth_tx :: "lock_batch \<Rightarrow> nat \<Rightarrow> ordered_tx" where "nth_tx B g \<equiv> lb_txs B ! g"
abbreviation nth_id :: "lock_batch \<Rightarrow> nat \<Rightarrow> tx_id" where "nth_id B g \<equiv> tx_id (nth_tx B g)"

definition serial :: "lock_batch \<Rightarrow> nat \<Rightarrow> fs_state" where
  "serial B g = run_txs (take g (lb_txs B)) (lb_state B)"

definition serial_result :: "lock_batch \<Rightarrow> nat \<Rightarrow> tx_result" where
  "serial_result B g = op_result (op (nth_tx B g)) (serial B g)"

definition read_sources :: "lock_batch \<Rightarrow> nat \<Rightarrow> shard_id set" where
  "read_sources B g = p_all (participants_of (lb_layout B) (nth_tx B g))"

definition executors :: "lock_kind \<Rightarrow> lock_batch \<Rightarrow> nat \<Rightarrow> shard_id set" where
  "executors K B g = lk_active K (lb_layout B) (nth_tx B g)"

definition lkeys :: "lock_batch \<Rightarrow> shard_id \<Rightarrow> nat \<Rightarrow> key set" where
  "lkeys B sh g = local_lock_keys (lb_layout B) (nth_tx B g) sh"

definition rkeys :: "lock_batch \<Rightarrow> shard_id \<Rightarrow> nat \<Rightarrow> key set" where
  "rkeys B sh g = local_read_keys (lb_layout B) (nth_tx B g) sh"

definition takes_part :: "lock_kind \<Rightarrow> shard_layout \<Rightarrow> shard_id \<Rightarrow> ordered_tx \<Rightarrow> bool" where
  "takes_part K L sh t \<longleftrightarrow> sh \<in> p_all (participants_of L t) \<or> sh \<in> lk_active K L t"

definition involved :: "lock_kind \<Rightarrow> lock_batch \<Rightarrow> shard_id \<Rightarrow> nat \<Rightarrow> bool" where
  "involved K B sh g \<longleftrightarrow> sh \<in> read_sources B g \<or> sh \<in> executors K B g"

definition completion_of :: "lock_kind \<Rightarrow> lock_batch \<Rightarrow> shard_id \<Rightarrow> nat \<Rightarrow> worker_completion" where
  "completion_of K B sh g =
     (if sh \<in> executors K B g
      then Active (serial_result B g) (lk_record K (lb_layout B) sh (nth_tx B g) (serial_result B g)) else Passive)"

definition completion_records :: "worker_completion \<Rightarrow> tx_result_record list" where
  "completion_records x = (case x of Active _ (Some r) \<Rightarrow> [r] | _ \<Rightarrow> [])"

definition read_message :: "shard_layout \<Rightarrow> batch_id \<Rightarrow> read_phase \<Rightarrow> ordered_tx \<Rightarrow> shard_id \<Rightarrow> fs_state \<Rightarrow> local_read_result" where
  "read_message L bid ph t f s = \<lparr>lrr_batch_id = bid, lrr_tx_id = tx_id t, lrr_phase = ph,
     lrr_from_shard = f, lrr_status = StatusOk, lrr_reads = reads_of s (local_read_keys L t f)\<rparr>"

definition lmsg :: "read_phase \<Rightarrow> lock_batch \<Rightarrow> shard_id \<Rightarrow> nat \<Rightarrow> local_read_result" where
  "lmsg ph B f g = read_message (lb_layout B) (lb_id B) ph (nth_tx B g) f (serial B g)"

lemma read_message_simps [simp]:
  "lrr_batch_id (read_message L bid ph t f s) = bid" "lrr_tx_id (read_message L bid ph t f s) = tx_id t"
  "lrr_phase (read_message L bid ph t f s) = ph" "lrr_from_shard (read_message L bid ph t f s) = f"
  "lrr_status (read_message L bid ph t f s) = StatusOk"
  "lrr_reads (read_message L bid ph t f s) = reads_of s (local_read_keys L t f)"
  by (simp_all add: read_message_def)

lemma message_key_lmsg [simp]: "message_key (lmsg ph B f g) = (lb_id B, nth_id B g, ph)"
  by (simp add: message_key_def lmsg_def)

lemma lmsg_simps [simp]:
  "lrr_from_shard (lmsg ph B f g) = f" "lrr_batch_id (lmsg ph B f g) = lb_id B" "lrr_phase (lmsg ph B f g) = ph"
  by (simp_all add: lmsg_def)

section \<open>The contract of an executor\<close>

definition is_job :: "lock_kind \<Rightarrow> shard_layout \<Rightarrow> shard_id \<Rightarrow> ordered_tx \<Rightarrow> lock_worker \<Rightarrow> bool" where
  "is_job K L sh t w \<longleftrightarrow> (\<exists>j. lw_tx w = t\<lparr>batch_index := j\<rparr>) \<and> lw_active w = lk_active K L t \<and>
     lw_sources w = p_all (participants_of L t) \<and> lw_result_shard w = lk_result K L t \<and>
     lw_lock_keys w = local_lock_keys L t sh \<and> lw_read_keys w = local_read_keys L t sh \<and>
     lw_write_keys w = local_write_keys L t sh"

lemma is_jobD:
  assumes "is_job K L sh t w"
  shows "lw_id w = tx_id t" "lw_lock_keys w = local_lock_keys L t sh" "lw_active w = lk_active K L t"
    "op (lw_tx w) = op t" "read_set (lw_tx w) = read_set t" "write_set (lw_tx w) = write_set t"
    "lw_sources w = p_all (participants_of L t)" "lw_result_shard w = lk_result K L t"
    "lw_read_keys w = local_read_keys L t sh" "lw_write_keys w = local_write_keys L t sh"
  using assms by (auto simp: is_job_def)

locale lock_executor =
  fixes X :: lock_ops and K :: lock_kind
  assumes active_owners: "valid_tx t \<Longrightarrow> k \<in> write_set t \<Longrightarrow> shard_for_key L k \<in> lk_active K L t"
    and result_active: "valid_tx t \<Longrightarrow> lk_result K L t \<in> lk_active K L t"
    and wait_law: "finite A \<Longrightarrow> distinct ks \<Longrightarrow> set ks \<subseteq> A \<Longrightarrow> x_wait X A ks = Ok (if set ks = A then Some () else None)"
    and start_law: "valid_tx t \<Longrightarrow> takes_part K L sh t \<Longrightarrow> is_job K L sh t w \<Longrightarrow> lk_active K L t \<subseteq> ps \<Longrightarrow>
      \<exists>ms. x_start X \<lparr>cx_layout = L, cx_peers = ps, cx_batch_id = bid, cx_shard = sh\<rparr> w s =
          Ok (ms, if sh \<in> lk_active K L t then Some (reads_of s (local_read_keys L t sh)) else None) \<and>
        mset ms = mset_set (if sh \<in> p_all (participants_of L t)
          then (\<lambda>target. (target, read_message L bid (x_phase X) t sh s)) ` (lk_active K L t - {sh}) else {})"
    and collect_law: "valid_tx t \<Longrightarrow> is_job K L sh t w \<Longrightarrow> sh \<in> lk_active K L t \<Longrightarrow> distinct fs \<Longrightarrow>
      set fs \<subseteq> p_all (participants_of L t) - {sh} \<Longrightarrow>
      x_collect X \<lparr>cx_layout = L, cx_peers = ps, cx_batch_id = bid, cx_shard = sh\<rparr> w
        (reads_of s (local_read_keys L t sh)) (map (\<lambda>f. read_message L bid (x_phase X) t f s) fs) =
      Ok (if set fs = p_all (participants_of L t) - {sh} then Some (reads_of s (read_set t)) else None)"
    and finish_law: "valid_tx t \<Longrightarrow> is_job K L sh t w \<Longrightarrow> sh \<in> lk_active K L t \<Longrightarrow>
      x_finish X \<lparr>cx_layout = L, cx_peers = ps, cx_batch_id = bid, cx_shard = sh\<rparr> w
        (reads_of s (read_set t)) store reg =
      Ok (apply_writes store (filter_local_writes (writes (op_output (op t) s)) sh L),
          if lk_result K L t = sh then mark_ready (tx_id t) (op_result (op t) s) reg else reg,
          Active (op_result (op t) s) (lk_record K L sh t (op_result (op t) s)))"
    and handle_law: "i \<notin> dom (snd acc) \<Longrightarrow>
      \<exists>results. x_handle X i x acc = Ok (fst acc @ completion_records x, results) \<and>
        dom results \<subseteq> insert i (dom (snd acc))"
    and start_bound: "x_start X cx w s = Ok (ms, r) \<Longrightarrow> length ms \<le> card (UNIV :: shard_id set)"

section \<open>The setting\<close>

text \<open>
  What the prologue of the batch leaves on each shard: a worker for every transaction the shard takes
  part in, queues in the order of the batch, a taken and empty mailbox for every executing worker.
\<close>

definition lock_setting ::
    "lock_kind \<Rightarrow> read_phase \<Rightarrow> lock_batch \<Rightarrow> (shard_id \<Rightarrow> spawned) \<Rightarrow> bool" where
  "lock_setting K ph B sp \<longleftrightarrow>
     distinct (map tx_id (lb_txs B)) \<and>
     (\<forall>t \<in> set (lb_txs B). valid_tx t \<and> lk_active K (lb_layout B) t \<subseteq> lb_peers B) \<and>
     (\<forall>sh. list_all2 (is_job K (lb_layout B) sh)
         (filter (takes_part K (lb_layout B) sh) (lb_txs B)) (sp_jobs (sp sh)) \<and>
       finite (dom (sp_table (sp sh))) \<and>
       (\<forall>k. queue_of (sp_table (sp sh)) k =
         map tx_id (filter (\<lambda>t. k \<in> local_lock_keys (lb_layout B) t sh) (lb_txs B))) \<and>
       (\<forall>t \<in> set (lb_txs B).
          inbox (sp_mail (sp sh)) (lb_id B, tx_id t, ph) = [] \<and>
          open_mailbox (sp_mail (sp sh)) (lb_id B, tx_id t, ph) \<and>
          taken_mailbox (sp_mail (sp sh)) (lb_id B, tx_id t, ph) = (sh \<in> lk_active K (lb_layout B) t)))"

lemma lock_settingD:
  assumes "lock_setting K ph B sp"
  shows "distinct (map tx_id (lb_txs B))" "g < lb_size B \<Longrightarrow> valid_tx (nth_tx B g)"
    "g < lb_size B \<Longrightarrow> executors K B g \<subseteq> lb_peers B" "finite (dom (sp_table (sp sh)))"
    "list_all2 (is_job K (lb_layout B) sh) (filter (takes_part K (lb_layout B) sh) (lb_txs B)) (sp_jobs (sp sh))"
    "queue_of (sp_table (sp sh)) k = map tx_id (filter (\<lambda>t. k \<in> local_lock_keys (lb_layout B) t sh) (lb_txs B))"
    "g < lb_size B \<Longrightarrow> inbox (sp_mail (sp sh)) (lb_id B, nth_id B g, ph) = []"
    "g < lb_size B \<Longrightarrow> open_mailbox (sp_mail (sp sh)) (lb_id B, nth_id B g, ph)"
    "g < lb_size B \<Longrightarrow> taken_mailbox (sp_mail (sp sh)) (lb_id B, nth_id B g, ph) = (sh \<in> executors K B g)"
  using assms by (auto simp: lock_setting_def executors_def)

lemma nth_id_inject:
  assumes "lock_setting K ph B sp" "g < lb_size B" "h < lb_size B"
  shows "nth_id B g = nth_id B h \<longleftrightarrow> g = h"
  using nth_eq_iff_index_eq [OF lock_settingD(1) [OF assms(1)], of g h] assms(2,3) by simp

lemma list_all2_elem:
  "list_all2 R xs ys \<Longrightarrow> x \<in> set xs \<Longrightarrow> \<exists>y \<in> set ys. R x y"
  "list_all2 R xs ys \<Longrightarrow> y \<in> set ys \<Longrightarrow> \<exists>x \<in> set xs. R x y"
  by (induction rule: list_all2_induct) auto

text \<open>The workers of a shard and the transactions it takes part in correspond.\<close>

lemma job_of_worker:
  assumes "lock_setting K ph B sp" "w \<in> set (sp_jobs (sp sh))"
  obtains g where "g < lb_size B" "involved K B sh g" "is_job K (lb_layout B) sh (nth_tx B g) w" "lw_id w = nth_id B g"
proof -
  obtain t where "t \<in> set (filter (takes_part K (lb_layout B) sh) (lb_txs B))" "is_job K (lb_layout B) sh t w"
    using list_all2_elem(2) [OF lock_settingD(5) [OF assms(1)] assms(2)] by blast
  then obtain g where "g < lb_size B" "nth_tx B g = t" "takes_part K (lb_layout B) sh t"
    "is_job K (lb_layout B) sh t w" by (auto simp: in_set_conv_nth)
  then show thesis
    by (intro that [of g]) (auto simp: involved_def takes_part_def read_sources_def executors_def is_jobD)
qed

lemma worker_of_job:
  assumes "lock_setting K ph B sp" "g < lb_size B" "involved K B sh g"
  obtains w where "w \<in> set (sp_jobs (sp sh))" "is_job K (lb_layout B) sh (nth_tx B g) w" "lw_id w = nth_id B g"
proof -
  have "nth_tx B g \<in> set (filter (takes_part K (lb_layout B) sh) (lb_txs B))"
    using assms(2,3) by (simp add: involved_def takes_part_def read_sources_def executors_def)
  then obtain w where "w \<in> set (sp_jobs (sp sh))" "is_job K (lb_layout B) sh (nth_tx B g) w"
    using list_all2_elem(1) [OF lock_settingD(5) [OF assms(1)]] by blast
  then show thesis using that is_jobD by blast
qed

lemma serial_0 [simp]: "serial B 0 = lb_state B"
  by (simp add: serial_def)

lemma serial_Suc:
  assumes "lock_setting K ph B sp" "g < lb_size B"
  shows "serial B (Suc g) = op_apply (op (nth_tx B g)) (serial B g)"
  using apply_reference_tx_eq [OF lock_settingD(2) [OF assms]] assms(2)
  by (simp add: serial_def take_Suc_conv_app_nth)

lemma serial_size [simp]: "serial B (lb_size B) = run_txs (lb_txs B) (lb_state B)"
  by (simp add: serial_def)

text \<open>A key changes only at the transactions that lock it.\<close>

lemma lkeys_iff:
  assumes "lock_setting K ph B sp" "g < lb_size B"
  shows "k \<in> lkeys B sh g \<longleftrightarrow> k \<in> read_set (nth_tx B g) \<and> shard_for_key (lb_layout B) k = sh"
  using valid_tx_sets(4) [OF lock_settingD(2) [OF assms]] by (auto simp: lkeys_def local_lock_keys_def)

lemma lkeys_finite:
  assumes "lock_setting K ph B sp" "g < lb_size B"
  shows "finite (lkeys B sh g)"
  using valid_tx_sets(1,2) [OF lock_settingD(2) [OF assms]] by (simp add: lkeys_def local_lock_keys_def)

lemma lkeys_involved: "k \<in> lkeys B sh g \<Longrightarrow> involved K B sh g"
  by (auto simp: lkeys_def involved_def read_sources_def local_lock_keys_def participants_of_def participants_all)

lemma serial_same:
  assumes S: "lock_setting K ph B sp" and g: "g < lb_size B" "shard_for_key (lb_layout B) k = sh" "k \<notin> lkeys B sh g"
  shows "serial B (Suc g) k = serial B g k"
proof -
  have "k \<notin> op_writes (op (nth_tx B g))"
    using lkeys_iff [OF S g(1)] g(2,3) lock_settingD(2) [OF S g(1)] valid_tx_sets(4) [OF lock_settingD(2) [OF S g(1)]]
    by (auto simp: valid_tx_iff)
  then show ?thesis by (simp add: serial_Suc [OF S g(1)] op_apply_other)
qed

lemma serial_stable:
  assumes S: "lock_setting K ph B sp" and "shard_for_key (lb_layout B) k = sh"
    and "a \<le> b" "b \<le> lb_size B" "\<And>h. a \<le> h \<Longrightarrow> h < b \<Longrightarrow> k \<notin> lkeys B sh h"
  shows "serial B b k = serial B a k"
  using assms(3-5)
proof (induction b rule: dec_induct)
  case (step n)
  then show ?case using serial_same [OF S _ assms(2), of n] by simp
qed simp

end
