(* ===== verification/LockStep.thy ===== *)
theory LockStep
  imports LockInv
begin

text \<open>
  The invariant of the lock-based system and its preservation by every step: what a worker holds,
  reads, sends and writes is what the serial execution of the batch determines, and no shard fails.
\<close>

section \<open>The invariant\<close>

abbreviation done_at :: "lock_batch \<Rightarrow> lock_system \<Rightarrow> shard_id \<Rightarrow> nat \<Rightarrow> bool" where
  "done_at B c sh g \<equiv> is_lock_done (ls_state c sh (nth_id B g))"

abbreviation handled_at :: "lock_batch \<Rightarrow> lock_system \<Rightarrow> shard_id \<Rightarrow> nat \<Rightarrow> bool" where
  "handled_at B c sh g \<equiv> nth_id B g \<in> ls_handled c sh"

abbreviation key_at :: "read_phase \<Rightarrow> lock_batch \<Rightarrow> nat \<Rightarrow> mailbox_key" where
  "key_at ph B g \<equiv> (lb_id B, nth_id B g, ph)"

definition holds :: "lock_batch \<Rightarrow> lock_system \<Rightarrow> shard_id \<Rightarrow> nat \<Rightarrow> bool" where
  "holds B c sh g \<longleftrightarrow> (\<forall>k \<in> lkeys B sh g. holder (ls_locks c sh) k = Some (nth_id B g))"

definition worker_inv :: "lock_kind \<Rightarrow> lock_batch \<Rightarrow> lock_system \<Rightarrow> shard_id \<Rightarrow> nat \<Rightarrow> bool" where
  "worker_inv K B c sh g \<longleftrightarrow>
     (case ls_state c sh (nth_id B g) of
        LockWait \<Rightarrow> \<not> handled_at B c sh g \<and> distinct (ls_grants c sh (nth_id B g)) \<and>
          set (ls_grants c sh (nth_id B g)) = {k \<in> lkeys B sh g. holder (ls_locks c sh) k = Some (nth_id B g)}
      | ReadCollect r \<Rightarrow> \<not> handled_at B c sh g \<and> sh \<in> executors K B g \<and> holds B c sh g \<and>
          r = reads_of (serial B g) (rkeys B sh g)
      | LockDone res \<Rightarrow> res = Ok (completion_of K B sh g) \<and> (handled_at B c sh g \<or> holds B c sh g))"

definition queue_inv :: "lock_batch \<Rightarrow> lock_system \<Rightarrow> shard_id \<Rightarrow> bool" where
  "queue_inv B c sh \<longleftrightarrow>
     (\<forall>k. queue_of (ls_locks c sh) k =
        map (nth_id B) (filter (\<lambda>g. k \<in> lkeys B sh g \<and> \<not> handled_at B c sh g) [0..<lb_size B])) \<and>
     (\<forall>k g h. h < g \<and> g < lb_size B \<and> k \<in> lkeys B sh h \<and> k \<in> lkeys B sh g \<and> handled_at B c sh g \<longrightarrow>
        handled_at B c sh h)"

definition store_inv :: "lock_batch \<Rightarrow> lock_system \<Rightarrow> shard_id \<Rightarrow> bool" where
  "store_inv B c sh \<longleftrightarrow>
     (\<forall>k g. shard_for_key (lb_layout B) k = sh \<and> g \<le> lb_size B \<and>
        (\<forall>h < g. k \<in> lkeys B sh h \<longrightarrow> done_at B c sh h) \<and>
        (\<forall>h. g \<le> h \<and> h < lb_size B \<and> k \<in> lkeys B sh h \<longrightarrow> \<not> done_at B c sh h) \<longrightarrow>
        ls_store c sh k = serial B g k) \<and>
     (\<forall>k. shard_for_key (lb_layout B) k \<noteq> sh \<longrightarrow> ls_store c sh k = None)"

lemma store_invI:
  assumes "\<And>k g. shard_for_key (lb_layout B) k = sh \<Longrightarrow> g \<le> lb_size B \<Longrightarrow>
      \<forall>h < g. k \<in> lkeys B sh h \<longrightarrow> done_at B c sh h \<Longrightarrow>
      \<forall>h. g \<le> h \<and> h < lb_size B \<and> k \<in> lkeys B sh h \<longrightarrow> \<not> done_at B c sh h \<Longrightarrow>
      ls_store c sh k = serial B g k"
    and "\<And>k. shard_for_key (lb_layout B) k \<noteq> sh \<Longrightarrow> ls_store c sh k = None"
  shows "store_inv B c sh"
  using assms unfolding store_inv_def by blast

definition book_inv :: "lock_kind \<Rightarrow> lock_batch \<Rightarrow> (shard_id \<Rightarrow> spawned) \<Rightarrow> lock_system \<Rightarrow> shard_id \<Rightarrow> bool" where
  "book_inv K B sp c sh \<longleftrightarrow>
     ls_handled c sh \<subseteq> nth_id B ` {g. g < lb_size B \<and> involved K B sh g} \<and>
     (\<forall>i. ls_results c sh i =
        (if \<exists>g < lb_size B. nth_id B g = i \<and> done_at B c sh g \<and> lk_result K (lb_layout B) (nth_tx B g) = sh
         then Some (ResultReady (serial_result B (THE g. g < lb_size B \<and> nth_id B g = i)))
         else sp_results (sp sh) i)) \<and>
     mset (fst (ls_accounts c sh)) = mset (concat (map (\<lambda>g. completion_records (completion_of K B sh g))
        (filter (\<lambda>g. handled_at B c sh g) [0..<lb_size B]))) \<and>
     dom (snd (ls_accounts c sh)) \<subseteq> ls_handled c sh"

definition msg_due :: "lock_kind \<Rightarrow> lock_batch \<Rightarrow> lock_system \<Rightarrow> shard_id \<Rightarrow> shard_id \<Rightarrow> nat \<Rightarrow> bool" where
  "msg_due K B c t f g \<longleftrightarrow> g < lb_size B \<and> f \<in> read_sources B g \<and> t \<in> executors K B g \<and> t \<noteq> f \<and>
     ls_state c f (nth_id B g) \<noteq> LockWait"

definition msg_copies :: "lock_system \<Rightarrow> shard_id \<Rightarrow> local_read_result \<Rightarrow> nat" where
  "msg_copies c t m = count (ls_net c) (t, m) + count (mset (inbox (ls_mail c t) (message_key m))) m"

definition exchange_inv :: "lock_kind \<Rightarrow> read_phase \<Rightarrow> lock_batch \<Rightarrow> lock_system \<Rightarrow> bool" where
  "exchange_inv K ph B c \<longleftrightarrow>
     (\<forall>t f g. g < lb_size B \<longrightarrow> msg_copies c t (lmsg ph B f g) = (if msg_due K B c t f g then 1 else 0)) \<and>
     (\<forall>t m. (t, m) \<in># ls_net c \<longrightarrow> (\<exists>f g. msg_due K B c t f g \<and> m = lmsg ph B f g)) \<and>
     (\<forall>t g. g < lb_size B \<longrightarrow>
        (\<forall>m \<in> set (inbox (ls_mail c t) (key_at ph B g)). \<exists>f. msg_due K B c t f g \<and> m = lmsg ph B f g) \<and>
        taken_mailbox (ls_mail c t) (key_at ph B g) = (t \<in> executors K B g) \<and>
        open_mailbox (ls_mail c t) (key_at ph B g) = (\<not> (t \<in> executors K B g \<and> done_at B c t g)) \<and>
        (t \<in> executors K B g \<and> done_at B c t g \<longrightarrow>
          (\<forall>f \<in> read_sources B g - {t}. lmsg ph B f g \<in> set (inbox (ls_mail c t) (key_at ph B g)))))"

definition lock_inv :: "lock_kind \<Rightarrow> read_phase \<Rightarrow> lock_batch \<Rightarrow> (shard_id \<Rightarrow> spawned) \<Rightarrow> lock_system \<Rightarrow> bool" where
  "lock_inv K ph B sp c \<longleftrightarrow>
     (\<forall>sh. ls_failed c sh = None \<and> queue_inv B c sh \<and> store_inv B c sh \<and> book_inv K B sp c sh \<and>
        (\<forall>g < lb_size B. involved K B sh g \<longrightarrow> worker_inv K B c sh g)) \<and>
     exchange_inv K ph B c"

lemma lock_invD:
  assumes "lock_inv K ph B sp c"
  shows "ls_failed c sh = None" "queue_inv B c sh" "store_inv B c sh" "book_inv K B sp c sh"
    "g < lb_size B \<Longrightarrow> involved K B sh g \<Longrightarrow> worker_inv K B c sh g" "exchange_inv K ph B c"
  using assms by (simp_all add: lock_inv_def)

section \<open>Holding locks\<close>

lemma filter_upt_head:
  "filter Q [0..<n] = g # gs \<Longrightarrow> g < n \<and> Q g \<and> (\<forall>h < g. \<not> Q h) \<and> filter (\<lambda>h. Q h \<and> h \<noteq> g) [0..<n] = gs"
proof -
  assume a: "filter Q [0..<n] = g # gs"
  have "g \<in> set (filter Q [0..<n])" by (simp add: a)
  moreover have "\<not> Q h" if "h < g" for h
  proof
    assume "Q h"
    then have "h \<in> set (g # gs)" using that calculation by (simp flip: a)
    moreover have "sorted (g # gs)" unfolding a [symmetric] by (simp add: sorted_wrt_filter)
    ultimately show False using that by auto
  qed
  moreover have "filter (\<lambda>h. h \<noteq> g) (filter Q [0..<n]) = gs"
    using distinct_filter [of "[0..<n]" Q] unfolding a by (simp add: filter_id_conv) blast
  ultimately show ?thesis by (simp add: conj_commute)
qed

lemma filter_upt_first:
  assumes "g < n" "Q g" "\<forall>h < g. \<not> Q h"
  shows "\<exists>gs. filter Q [0..<n] = g # gs"
proof (cases "filter Q [0..<n]")
  case Nil
  then show ?thesis using assms by (auto simp: filter_empty_conv)
next
  case (Cons a as)
  then have "a = g" using filter_upt_head [OF Cons] assms by (metis linorder_neqE_nat)
  then show ?thesis using Cons by simp
qed

lemma holder_queue: "holder T k = Some i \<longleftrightarrow> (\<exists>q. queue_of T k = i # q)"
  by (auto simp: holder_def split: list.splits)

lemma holder_iff:
  assumes S: "lock_setting K ph B sp" and inv: "queue_inv B c sh" and g: "g < lb_size B"
  shows "holder (ls_locks c sh) k = Some (nth_id B g) \<longleftrightarrow>
    k \<in> lkeys B sh g \<and> \<not> handled_at B c sh g \<and> (\<forall>h < g. k \<in> lkeys B sh h \<longrightarrow> handled_at B c sh h)"
proof -
  let ?Q = "\<lambda>g. k \<in> lkeys B sh g \<and> \<not> handled_at B c sh g"
  have q: "queue_of (ls_locks c sh) k = map (nth_id B) (filter ?Q [0..<lb_size B])"
    using inv by (simp add: queue_inv_def)
  have "(\<exists>q. queue_of (ls_locks c sh) k = nth_id B g # q) \<longleftrightarrow> (\<exists>gs. filter ?Q [0..<lb_size B] = g # gs)"
  proof
    assume "\<exists>q. queue_of (ls_locks c sh) k = nth_id B g # q"
    then obtain h gs where h: "filter ?Q [0..<lb_size B] = h # gs" "nth_id B h = nth_id B g"
      unfolding q by (auto simp: map_eq_Cons_conv)
    then have "h = g" using filter_upt_head [OF h(1)] nth_id_inject [OF S _ g] by simp
    then show "\<exists>gs. filter ?Q [0..<lb_size B] = g # gs" using h(1) by blast
  qed (auto simp: q)
  also have "\<dots> \<longleftrightarrow> ?Q g \<and> (\<forall>h < g. \<not> ?Q h)"
    using filter_upt_head [of ?Q "lb_size B" g] filter_upt_first [OF g, of ?Q] by blast
  finally show ?thesis unfolding holder_queue by blast
qed

lemma holder_cases:
  assumes "queue_inv B c sh" "holder (ls_locks c sh) k = Some i"
  obtains g where "g < lb_size B" "i = nth_id B g" "k \<in> lkeys B sh g"
proof -
  have "i \<in> set (queue_of (ls_locks c sh) k)" using assms(2) by (auto simp: holder_queue)
  then show thesis using assms(1) that by (auto simp: queue_inv_def)
qed

lemma handled_done:
  assumes "worker_inv K B c sh g" "handled_at B c sh g" shows "done_at B c sh g"
  using assms by (auto simp: worker_inv_def split: lock_worker_state.splits)

lemma done_handled_or_holds:
  assumes "worker_inv K B c sh g" "done_at B c sh g" shows "handled_at B c sh g \<or> holds B c sh g"
  using assms by (auto simp: worker_inv_def is_lock_done_def split: lock_worker_state.splits)

text \<open>Before the holder of a key every other transaction on the key is over, after it none has begun.\<close>

lemma holder_separates:
  assumes S: "lock_setting K ph B sp" and inv: "lock_inv K ph B sp c" and g: "g < lb_size B" "\<not> done_at B c sh g"
    and k: "holder (ls_locks c sh) k = Some (nth_id B g)" and h: "h < lb_size B" "k \<in> lkeys B sh h"
  shows "done_at B c sh h \<longleftrightarrow> h < g"
proof -
  note q = lock_invD(2) [OF inv, of sh]
  note iff = holder_iff [OF S q g(1), of k]
  note w = lock_invD(5) [OF inv _ lkeys_involved]
  show ?thesis
  proof (cases "h < g")
    case True
    then have "handled_at B c sh h" using iff k h by blast
    then show ?thesis using handled_done [OF w [OF h]] True by simp
  next
    case False
    have "\<not> done_at B c sh h"
    proof
      assume d: "done_at B c sh h"
      have ne: "h \<noteq> g" using d g(2) by blast
      consider "handled_at B c sh h" | "holds B c sh h" using done_handled_or_holds [OF w [OF h] d] by blast
      then show False
      proof cases
        case 1
        then have "handled_at B c sh g"
          using q False ne h iff k unfolding queue_inv_def by (meson linorder_neqE_nat)
        then show False using iff k by blast
      next
        case 2
        then have "nth_id B h = nth_id B g" using h(2) k by (simp add: holds_def)
        then show False using nth_id_inject [OF S h(1) g(1)] ne by simp
      qed
    qed
    then show ?thesis using False by simp
  qed
qed

text \<open>A worker that holds its keys sees the serial state before its transaction.\<close>

lemma held_store:
  assumes S: "lock_setting K ph B sp" and inv: "lock_inv K ph B sp c" and g: "g < lb_size B" "\<not> done_at B c sh g" "holds B c sh g"
    and k: "k \<in> lkeys B sh g"
  shows "ls_store c sh k = serial B g k"
proof -
  have own: "shard_for_key (lb_layout B) k = sh" using k by (simp add: lkeys_def local_lock_keys_def)
  have "holder (ls_locks c sh) k = Some (nth_id B g)" using g(3) k by (simp add: holds_def)
  from holder_separates [OF S inv g(1,2) this]
  have "\<forall>h < g. k \<in> lkeys B sh h \<longrightarrow> done_at B c sh h"
    "\<forall>h. g \<le> h \<and> h < lb_size B \<and> k \<in> lkeys B sh h \<longrightarrow> \<not> done_at B c sh h" using g(1) by auto
  then show ?thesis
    using lock_invD(3) [OF inv, of sh] own less_imp_le [OF g(1)] unfolding store_inv_def by blast
qed

text \<open>When it executes, the store reaches the serial state after its transaction.\<close>

lemma executed_store_inv:
  assumes S: "lock_setting K ph B sp" and inv: "lock_inv K ph B sp c" and g: "g < lb_size B" "\<not> done_at B c sh g" "holds B c sh g"
    and store: "\<And>k. shard_for_key (lb_layout B) k = sh \<Longrightarrow>
      ls_store c' sh k = (if k \<in> lkeys B sh g then serial B (Suc g) k else ls_store c sh k)"
    and foreign: "\<And>k. shard_for_key (lb_layout B) k \<noteq> sh \<Longrightarrow> ls_store c' sh k = ls_store c sh k"
    and over: "\<And>h. h < lb_size B \<Longrightarrow> done_at B c' sh h \<longleftrightarrow> h = g \<or> done_at B c sh h"
  shows "store_inv B c' sh"
proof (rule store_invI)
  show "ls_store c' sh k = None" if "shard_for_key (lb_layout B) k \<noteq> sh" for k
    using foreign [OF that] lock_invD(3) [OF inv, of sh] that by (simp add: store_inv_def)
next
  fix k n
  assume own: "shard_for_key (lb_layout B) k = sh" and n: "n \<le> lb_size B"
    and before: "\<forall>h < n. k \<in> lkeys B sh h \<longrightarrow> done_at B c' sh h"
    and after: "\<forall>h. n \<le> h \<and> h < lb_size B \<and> k \<in> lkeys B sh h \<longrightarrow> \<not> done_at B c' sh h"
  show "ls_store c' sh k = serial B n k"
  proof (cases "k \<in> lkeys B sh g")
    case True
    have gn: "g < n" using after True g(1) over [OF g(1)] by (meson not_less)
    have "holder (ls_locks c sh) k = Some (nth_id B g)" using g(3) True by (simp add: holds_def)
    note sep = holder_separates [OF S inv g(1,2) this]
    have "serial B n k = serial B (Suc g) k"
    proof (rule serial_stable [OF S own])
      fix h assume h: "Suc g \<le> h" "h < n"
      show "k \<notin> lkeys B sh h"
      proof
        assume kh: "k \<in> lkeys B sh h"
        then have "done_at B c' sh h" using before h(2) by blast
        moreover have "h < lb_size B" "h \<noteq> g" using h n by auto
        ultimately have "done_at B c sh h" using over by blast
        then show False using sep [OF \<open>h < lb_size B\<close> kh] h(1) by simp
      qed
    qed (use gn n in simp_all)
    then show ?thesis using store [OF own] True by simp
  next
    case False
    have "done_at B c' sh h \<longleftrightarrow> done_at B c sh h" if "h < lb_size B" "k \<in> lkeys B sh h" for h
      using over [OF that(1)] that(2) False by blast
    then have "\<forall>h < n. k \<in> lkeys B sh h \<longrightarrow> done_at B c sh h"
      "\<forall>h. n \<le> h \<and> h < lb_size B \<and> k \<in> lkeys B sh h \<longrightarrow> \<not> done_at B c sh h"
      using before after n by auto
    then have "ls_store c sh k = serial B n k"
      using lock_invD(3) [OF inv, of sh] own n unfolding store_inv_def by blast
    then show ?thesis using store [OF own] False by simp
  qed
qed

section \<open>Messages\<close>

lemma lmsg_inject:
  assumes "lock_setting K ph B sp" "g < lb_size B" "h < lb_size B"
  shows "lmsg ph B f g = lmsg ph B f' h \<longleftrightarrow> f = f' \<and> g = h"
proof
  assume eq: "lmsg ph B f g = lmsg ph B f' h"
  have "message_key (lmsg ph B f g) = message_key (lmsg ph B f' h)"
    "lrr_from_shard (lmsg ph B f g) = lrr_from_shard (lmsg ph B f' h)" by (simp_all only: eq)
  then show "f = f' \<and> g = h" using nth_id_inject [OF assms] by simp
qed simp

lemma exchange_invD:
  assumes "exchange_inv K ph B c"
  shows "g < lb_size B \<Longrightarrow> msg_copies c t (lmsg ph B f g) = (if msg_due K B c t f g then 1 else 0)"
    "(t, m) \<in># ls_net c \<Longrightarrow> \<exists>f g. msg_due K B c t f g \<and> m = lmsg ph B f g"
    "g < lb_size B \<Longrightarrow> m \<in> set (inbox (ls_mail c t) (key_at ph B g)) \<Longrightarrow> \<exists>f. msg_due K B c t f g \<and> m = lmsg ph B f g"
    "g < lb_size B \<Longrightarrow> taken_mailbox (ls_mail c t) (key_at ph B g) = (t \<in> executors K B g)"
    "g < lb_size B \<Longrightarrow> open_mailbox (ls_mail c t) (key_at ph B g) = (\<not> (t \<in> executors K B g \<and> done_at B c t g))"
    "g < lb_size B \<Longrightarrow> t \<in> executors K B g \<Longrightarrow> done_at B c t g \<Longrightarrow> f \<in> read_sources B g - {t} \<Longrightarrow>
      lmsg ph B f g \<in> set (inbox (ls_mail c t) (key_at ph B g))"
  using assms unfolding exchange_inv_def by blast+

text \<open>The mailbox of an executing worker holds one message from some of the other sources.\<close>

lemma lock_mailbox:
  assumes S: "lock_setting K ph B sp" and ex: "exchange_inv K ph B c" and g: "g < lb_size B" "t \<in> executors K B g"
  obtains fs where "inbox (ls_mail c t) (key_at ph B g) = map (\<lambda>f. lmsg ph B f g) fs" "distinct fs"
    "set fs \<subseteq> read_sources B g - {t}" "\<And>f. f \<in> set fs \<Longrightarrow> msg_due K B c t f g"
proof -
  let ?ms = "inbox (ls_mail c t) (key_at ph B g)"
  have sender: "msg_due K B c t (lrr_from_shard m) g \<and> m = lmsg ph B (lrr_from_shard m) g" if "m \<in> set ?ms" for m
    using exchange_invD(3) [OF ex g(1) that] by auto
  have "count (mset ?ms) m \<le> 1" for m
  proof (cases "m \<in> set ?ms")
    case True
    then obtain f where f: "msg_due K B c t f g" "m = lmsg ph B f g" using exchange_invD(3) [OF ex g(1)] by blast
    then have "count (mset ?ms) m \<le> msg_copies c t m" by (simp add: msg_copies_def)
    then show ?thesis using exchange_invD(1) [OF ex g(1), of t f] f by simp
  qed simp
  then have d: "distinct ?ms" by (rule distinct_if_count_le_1)
  show thesis
  proof (rule that [of "map lrr_from_shard ?ms"])
    show "?ms = map (\<lambda>f. lmsg ph B f g) (map lrr_from_shard ?ms)" using sender by (auto intro!: nth_equalityI)
    show "distinct (map lrr_from_shard ?ms)" unfolding distinct_map using d sender by (auto simp: inj_on_def) metis
    show "set (map lrr_from_shard ?ms) \<subseteq> read_sources B g - {t}"
      "\<And>f. f \<in> set (map lrr_from_shard ?ms) \<Longrightarrow> msg_due K B c t f g"
      using sender by (auto simp: msg_due_def)
  qed
qed

lemma exchange_inv_cong:
  "ls_net c' = ls_net c \<Longrightarrow> ls_mail c' = ls_mail c \<Longrightarrow> ls_state c' = ls_state c \<Longrightarrow>
     exchange_inv K ph B c' = exchange_inv K ph B c"
  by (simp add: exchange_inv_def msg_due_def msg_copies_def)

lemma send_exchange_inv:
  assumes S: "lock_setting K ph B sp" and ex: "exchange_inv K ph B c" and g: "g < lb_size B"
    and st: "ls_state c sh (nth_id B g) = LockWait" "s \<noteq> LockWait" "is_lock_done s \<Longrightarrow> sh \<notin> executors K B g"
    and ms: "mset ms = mset_set (if sh \<in> read_sources B g
      then (\<lambda>target. (target, lmsg ph B sh g)) ` (executors K B g - {sh}) else {})"
  shows "exchange_inv K ph B (send_reads ms (set_state sh (nth_id B g) s c))" (is "exchange_inv K ph B ?c")
proof -
  have due: "msg_due K B ?c t f h \<longleftrightarrow> msg_due K B c t f h \<or>
      f = sh \<and> h = g \<and> sh \<in> read_sources B g \<and> t \<in> executors K B g \<and> t \<noteq> sh" for t f h
    using g st nth_id_inject [OF S, of h g] by (auto simp: msg_due_def)
  have sent: "count (mset ms) (t, m) =
      (if sh \<in> read_sources B g \<and> t \<in> executors K B g - {sh} \<and> m = lmsg ph B sh g then 1 else 0)" for t m
    unfolding ms by (auto simp: count_mset_set')
  have copies: "msg_copies ?c t m = msg_copies c t m + count (mset ms) (t, m)" for t m by (simp add: msg_copies_def)
  have none: "\<not> msg_due K B c t sh g" for t using st(1) by (simp add: msg_due_def)
  have over: "t \<in> executors K B h \<and> done_at B ?c t h \<longleftrightarrow> t \<in> executors K B h \<and> done_at B c t h"
    if "h < lb_size B" for t h
    using st nth_id_inject [OF S that g] by auto
  show ?thesis
    unfolding exchange_inv_def
  proof (intro conjI allI impI)
    show "msg_copies ?c t (lmsg ph B f h) = (if msg_due K B ?c t f h then 1 else 0)" if "h < lb_size B" for t f h
      using exchange_invD(1) [OF ex that, of t f] none lmsg_inject [OF S that g, of f sh]
      by (auto simp: copies sent due)
    show "\<exists>f h. msg_due K B ?c t f h \<and> m = lmsg ph B f h" if "(t, m) \<in># ls_net ?c" for t m
    proof (cases "(t, m) \<in># ls_net c")
      case True
      then show ?thesis using exchange_invD(2) [OF ex True] unfolding due by blast
    next
      case False
      then have "0 < count (mset ms) (t, m)" using that by (simp add: count_mset_gt_0)
      then show ?thesis unfolding sent due by (auto split: if_splits)
    qed
    fix t h assume h: "h < lb_size B"
    show "\<forall>m \<in> set (inbox (ls_mail ?c t) (key_at ph B h)). \<exists>f. msg_due K B ?c t f h \<and> m = lmsg ph B f h"
      using exchange_invD(3) [OF ex h, of _ t] unfolding due by (simp only: send_reads_simps set_state_simps) blast
    show "taken_mailbox (ls_mail ?c t) (key_at ph B h) = (t \<in> executors K B h)"
      using exchange_invD(4) [OF ex h] by simp
    show "open_mailbox (ls_mail ?c t) (key_at ph B h) = (\<not> (t \<in> executors K B h \<and> done_at B ?c t h))"
      unfolding over [OF h] using exchange_invD(5) [OF ex h] by simp
    show "\<forall>f \<in> read_sources B h - {t}. lmsg ph B f h \<in> set (inbox (ls_mail ?c t) (key_at ph B h))"
      if "t \<in> executors K B h \<and> done_at B ?c t h"
      using that exchange_invD(6) [OF ex h] unfolding over [OF h] by simp
  qed
qed

lemma finish_exchange_inv:
  assumes S: "lock_setting K ph B sp" and ex: "exchange_inv K ph B c" and g: "g < lb_size B" "sh \<in> executors K B g"
    and st: "ls_state c sh (nth_id B g) = ReadCollect r"
    and all: "\<forall>f \<in> read_sources B g - {sh}. lmsg ph B f g \<in> set (inbox (ls_mail c sh) (key_at ph B g))"
    and c': "ls_net c' = ls_net c" "ls_mail c' = (ls_mail c)(sh := drop_receiver (key_at ph B g) (ls_mail c sh))"
      "ls_state c' = (ls_state c)(sh := (ls_state c sh)(nth_id B g := LockDone res))"
  shows "exchange_inv K ph B c'"
proof -
  have due: "msg_due K B c' t f h \<longleftrightarrow> msg_due K B c t f h" for t f h
    using st nth_id_inject [OF S _ g(1), of h] by (auto simp: msg_due_def c')
  have inbox: "inbox (ls_mail c' t) q = inbox (ls_mail c t) q" for t q by (simp add: c' drop_receiver_registry)
  have copies: "msg_copies c' t m = msg_copies c t m" for t m by (simp add: msg_copies_def inbox c'(1))
  have over: "done_at B c' t h \<longleftrightarrow> t = sh \<and> h = g \<or> done_at B c t h" if "h < lb_size B" for t h
    using nth_id_inject [OF S that g(1)] by (auto simp: c')
  show ?thesis
    unfolding exchange_inv_def due copies inbox
  proof (intro conjI allI impI)
    show "msg_copies c t (lmsg ph B f h) = (if msg_due K B c t f h then 1 else 0)" if "h < lb_size B" for t f h
      by (rule exchange_invD(1) [OF ex that])
    show "\<exists>f h. msg_due K B c t f h \<and> m = lmsg ph B f h" if "(t, m) \<in># ls_net c'" for t m
      by (rule exchange_invD(2) [OF ex]) (use that c'(1) in simp)
    fix t h assume h: "h < lb_size B"
    show "\<forall>m \<in> set (inbox (ls_mail c t) (key_at ph B h)). \<exists>f. msg_due K B c t f h \<and> m = lmsg ph B f h"
      using exchange_invD(3) [OF ex h] by blast
    show "taken_mailbox (ls_mail c' t) (key_at ph B h) = (t \<in> executors K B h)"
      using exchange_invD(4) [OF ex h] by (simp add: c' drop_receiver_registry)
    show "open_mailbox (ls_mail c' t) (key_at ph B h) = (\<not> (t \<in> executors K B h \<and> done_at B c' t h))"
      unfolding over [OF h] using exchange_invD(4,5) [OF ex h] g(2)
      by (auto simp: c' drop_receiver_registry nth_id_inject [OF S h g(1)])
    show "\<forall>f \<in> read_sources B h - {t}. lmsg ph B f h \<in> set (inbox (ls_mail c t) (key_at ph B h))"
      if "t \<in> executors K B h \<and> done_at B c' t h"
      using that exchange_invD(6) [OF ex h] all unfolding over [OF h] by blast
  qed
qed

text \<open>A message in transit finds its mailbox open: its receiver still waits for it.\<close>

lemma in_transit_open:
  assumes S: "lock_setting K ph B sp" and ex: "exchange_inv K ph B c" and n: "(t, m) \<in># ls_net c"
  shows "open_mailbox (ls_mail c t) (message_key m)"
proof -
  obtain f g where m: "msg_due K B c t f g" "m = lmsg ph B f g" using exchange_invD(2) [OF ex n] by blast
  then have g: "g < lb_size B" "f \<in> read_sources B g - {t}" by (auto simp: msg_due_def)
  have "0 < count (ls_net c) (t, m)" using n by (simp only: count_greater_zero_iff)
  moreover have "count (ls_net c) (t, m) + count (mset (inbox (ls_mail c t) (key_at ph B g))) m = 1"
    using exchange_invD(1) [OF ex g(1), of t f] m by (simp add: msg_copies_def)
  ultimately have "count (mset (inbox (ls_mail c t) (key_at ph B g))) m = 0" by linarith
  then have "m \<notin> set (inbox (ls_mail c t) (key_at ph B g))" by (simp only: count_eq_zero_iff set_mset_mset not_False_eq_True)
  then have "\<not> (t \<in> executors K B g \<and> done_at B c t g)"
    using exchange_invD(6) [OF ex g(1) _ _ g(2)] m(2) by blast
  then show ?thesis using exchange_invD(5) [OF ex g(1)] m(2) by simp
qed

lemma deliver_exchange_inv:
  assumes S: "lock_setting K ph B sp" and ex: "exchange_inv K ph B c" and n: "(t, m) \<in># ls_net c"
    and r: "route m (ls_mail c t) = (Ok (), mail')"
    and c': "ls_net c' = ls_net c - {#(t, m)#}" "ls_mail c' = (ls_mail c)(t := mail')" "ls_state c' = ls_state c"
  shows "exchange_inv K ph B c'"
proof -
  have op: "open_mailbox (ls_mail c t) (message_key m)" by (rule in_transit_open [OF S ex n])
  have mail: "mail' = snd (route m (ls_mail c t))" by (simp add: r)
  have inbox: "inbox (ls_mail c' u) q = inbox (ls_mail c u) q @ (if u = t \<and> q = message_key m then [m] else [])" for u q
    using op by (simp add: c' mail route_registry)
  have due: "msg_due K B c' u f h \<longleftrightarrow> msg_due K B c u f h" for u f h by (simp add: msg_due_def c')
  have copies: "msg_copies c' u x = msg_copies c u x" for u x
    using n by (cases "(u, x) = (t, m)") (auto simp: msg_copies_def inbox c'(1))
  show ?thesis
    unfolding exchange_inv_def due copies
  proof (intro conjI allI impI)
    show "msg_copies c u (lmsg ph B f h) = (if msg_due K B c u f h then 1 else 0)" if "h < lb_size B" for u f h
      by (rule exchange_invD(1) [OF ex that])
    show "\<exists>f h. msg_due K B c u f h \<and> x = lmsg ph B f h" if "(u, x) \<in># ls_net c'" for u x
      by (rule exchange_invD(2) [OF ex]) (use that c'(1) in_diffD in simp)
    fix u h assume h: "h < lb_size B"
    show "\<forall>x \<in> set (inbox (ls_mail c' u) (key_at ph B h)). \<exists>f. msg_due K B c u f h \<and> x = lmsg ph B f h"
    proof
      fix x assume x: "x \<in> set (inbox (ls_mail c' u) (key_at ph B h))"
      show "\<exists>f. msg_due K B c u f h \<and> x = lmsg ph B f h"
      proof (cases "x \<in> set (inbox (ls_mail c u) (key_at ph B h))")
        case False
        then have new: "u = t" "key_at ph B h = message_key m" "x = m" using x by (auto simp: inbox split: if_splits)
        obtain f g where m: "msg_due K B c t f g" "m = lmsg ph B f g" using exchange_invD(2) [OF ex n] by blast
        then have g: "g < lb_size B" by (simp add: msg_due_def)
        have "key_at ph B h = key_at ph B g" unfolding new(2) m(2) message_key_lmsg ..
        then have "g = h" using nth_id_inject [OF S g h] by (simp only: prod.inject) blast
        then show ?thesis using m new by blast
      qed (rule exchange_invD(3) [OF ex h])
    qed
    show "taken_mailbox (ls_mail c' u) (key_at ph B h) = (u \<in> executors K B h)"
      using exchange_invD(4) [OF ex h] by (simp add: c' mail route_registry)
    show "open_mailbox (ls_mail c' u) (key_at ph B h) = (\<not> (u \<in> executors K B h \<and> done_at B c' u h))"
      using exchange_invD(5) [OF ex h] by (simp add: c' mail route_registry)
    show "\<forall>f \<in> read_sources B h - {u}. lmsg ph B f h \<in> set (inbox (ls_mail c' u) (key_at ph B h))"
      if "u \<in> executors K B h \<and> done_at B c' u h"
      using that exchange_invD(6) [OF ex h] by (simp add: c'(3) inbox)
  qed
qed

end
