(* ===== verification/LockSerial.thy ===== *)
theory LockSerial
  imports LockStep
begin

text \<open>
  What each step of the lock-based system does in a state that satisfies the invariant, from the
  contract of the executor, and the preservation of the invariant by all steps.
\<close>

abbreviation params_for_batch :: "lock_batch \<Rightarrow> (shard_id \<Rightarrow> spawned) \<Rightarrow> lock_params" where
  "params_for_batch B sp \<equiv> lock_params_of (lb_layout B) (lb_peers B) (lb_id B) sp"

lemma params_for_batch_simps [simp]:
  "ctx_of (params_for_batch B sp) sh =
     \<lparr>cx_layout = lb_layout B, cx_peers = lb_peers B, cx_batch_id = lb_id B, cx_shard = sh\<rparr>"
  "lp_jobs (params_for_batch B sp) = (\<lambda>sh. sp_jobs (sp sh))"
  "mail_key X (params_for_batch B sp) i = (lb_id B, i, x_phase X)"
  by (simp_all add: ctx_of_def lock_params_of_def mail_key_def)

lemma reads_of_cong: "(\<And>k. k \<in> A \<Longrightarrow> s k = t k) \<Longrightarrow> reads_of s A = reads_of t A"
  by (auto simp: reads_of_def)

lemma rkeys_subset: "rkeys B sh g \<subseteq> lkeys B sh g"
  by (auto simp: rkeys_def lkeys_def local_read_keys_def local_lock_keys_def)

lemma mset_concat_map: "mset (concat (map f xs)) = (\<Sum>x \<in># mset xs. mset (f x))"
  by (induction xs) auto

lemma mset_concat_add:
  "mset xs = add_mset a (mset ys) \<Longrightarrow> mset (concat (map f xs)) = mset (concat (map f ys)) + mset (f a)"
  by (simp only: mset_concat_map) simp

section \<open>Preservation of the parts\<close>

lemma worker_inv_cong:
  assumes "ls_state c' t (nth_id B h) = ls_state c t (nth_id B h)" "ls_grants c' t = ls_grants c t"
    "ls_locks c' t = ls_locks c t" "ls_handled c' t = ls_handled c t"
  shows "worker_inv K B c' t h = worker_inv K B c t h"
  unfolding worker_inv_def holds_def assms ..

text \<open>A step that changes the state of one worker, and nothing the other workers know.\<close>

lemma worker_inv_other:
  assumes "lock_setting K ph B sp" "g < lb_size B" "h < lb_size B" "\<not> (t = sh \<and> h = g)"
    and "ls_state c' = (ls_state c)(sh := (ls_state c sh)(nth_id B g := s))"
    and "ls_grants c' = ls_grants c" "ls_locks c' = ls_locks c" "ls_handled c' = ls_handled c"
    and "worker_inv K B c t h"
  shows "worker_inv K B c' t h"
proof -
  have "ls_state c' t (nth_id B h) = ls_state c t (nth_id B h)"
    using assms(4,5) nth_id_inject [OF assms(1,3,2)] by auto
  then show ?thesis using assms(6-9) worker_inv_cong [of c' t B h c K] by simp
qed

lemma queue_inv_cong:
  "ls_locks c' sh = ls_locks c sh \<Longrightarrow> ls_handled c' sh = ls_handled c sh \<Longrightarrow> queue_inv B c' sh = queue_inv B c sh"
  by (simp add: queue_inv_def)

lemma store_inv_cong:
  assumes "ls_store c' sh = ls_store c sh" "\<And>h. h < lb_size B \<Longrightarrow> done_at B c' sh h \<longleftrightarrow> done_at B c sh h"
    "store_inv B c sh"
  shows "store_inv B c' sh"
proof (rule store_invI, unfold assms(1))
  show "ls_store c sh k = None" if "shard_for_key (lb_layout B) k \<noteq> sh" for k
    using assms(3) that by (simp add: store_inv_def)
next
  fix k n
  assume a: "shard_for_key (lb_layout B) k = sh" "n \<le> lb_size B"
    "\<forall>h < n. k \<in> lkeys B sh h \<longrightarrow> done_at B c' sh h"
    "\<forall>h. n \<le> h \<and> h < lb_size B \<and> k \<in> lkeys B sh h \<longrightarrow> \<not> done_at B c' sh h"
  then have "\<forall>h < n. k \<in> lkeys B sh h \<longrightarrow> done_at B c sh h"
    "\<forall>h. n \<le> h \<and> h < lb_size B \<and> k \<in> lkeys B sh h \<longrightarrow> \<not> done_at B c sh h"
    using assms(2) by auto
  then show "ls_store c sh k = serial B n k" using assms(3) a(1,2) unfolding store_inv_def by blast
qed

lemma the_nth_id:
  assumes "lock_setting K ph B sp" "g < lb_size B" "i = nth_id B g"
  shows "(THE h. h < lb_size B \<and> nth_id B h = i) = g"
  using nth_id_inject [OF assms(1)] assms(2,3) by (intro the_equality) auto

text \<open>The books change with the completion of the worker that answers the client.\<close>

lemma book_inv_done:
  assumes S: "lock_setting K ph B sp" and bi: "book_inv K B sp c sh" and g: "g < lb_size B"
    and over: "\<And>h. h < lb_size B \<Longrightarrow> done_at B c' sh h \<longleftrightarrow> h = g \<or> done_at B c sh h"
    and res: "ls_results c' sh = (if lk_result K (lb_layout B) (nth_tx B g) = sh
      then mark_ready (nth_id B g) (serial_result B g) (ls_results c sh) else ls_results c sh)"
    and same: "ls_handled c' sh = ls_handled c sh" "ls_accounts c' sh = ls_accounts c sh"
  shows "book_inv K B sp c' sh"
proof -
  let ?ex = "\<lambda>c i. \<exists>h < lb_size B. nth_id B h = i \<and> done_at B c sh h \<and> lk_result K (lb_layout B) (nth_tx B h) = sh"
  have old: "ls_results c sh i = (if ?ex c i
      then Some (ResultReady (serial_result B (THE h. h < lb_size B \<and> nth_id B h = i))) else sp_results (sp sh) i)" for i
    using bi by (simp add: book_inv_def)
  have ex: "?ex c' i \<longleftrightarrow> ?ex c i \<or> i = nth_id B g \<and> lk_result K (lb_layout B) (nth_tx B g) = sh" for i
    using over g by blast
  have "ls_results c' sh i = (if ?ex c' i
      then Some (ResultReady (serial_result B (THE h. h < lb_size B \<and> nth_id B h = i))) else sp_results (sp sh) i)" for i
    unfolding ex res using old [of i] the_nth_id [OF S g, of i] by (auto simp: mark_apply)
  then show ?thesis using bi unfolding book_inv_def same by blast
qed

lemma book_inv_cong:
  assumes "book_inv K B sp c sh" "\<And>h. h < lb_size B \<Longrightarrow> done_at B c' sh h \<longleftrightarrow> done_at B c sh h"
    "ls_results c' sh = ls_results c sh" "ls_handled c' sh = ls_handled c sh" "ls_accounts c' sh = ls_accounts c sh"
  shows "book_inv K B sp c' sh"
proof -
  have "(\<exists>g < lb_size B. nth_id B g = i \<and> done_at B c' sh g \<and> lk_result K (lb_layout B) (nth_tx B g) = sh) \<longleftrightarrow>
      (\<exists>g < lb_size B. nth_id B g = i \<and> done_at B c sh g \<and> lk_result K (lb_layout B) (nth_tx B g) = sh)" for i
    using assms(2) by blast
  with assms(1) show ?thesis unfolding book_inv_def assms(3-5) by simp
qed

text \<open>Messages in transit matter to the exchange only.\<close>

lemma lock_inv_messages:
  assumes "lock_inv K ph B sp c" "exchange_inv K ph B c'"
    and "ls_state c' = ls_state c" "ls_grants c' = ls_grants c" "ls_locks c' = ls_locks c"
      "ls_handled c' = ls_handled c" "ls_store c' = ls_store c" "ls_results c' = ls_results c"
      "ls_accounts c' = ls_accounts c" "ls_failed c' = ls_failed c"
  shows "lock_inv K ph B sp c'"
  using assms(1,2) unfolding lock_inv_def queue_inv_def store_inv_def book_inv_def worker_inv_def holds_def assms(3-10)
  by blast

text \<open>A step of one worker of one shard keeps the invariant if it keeps the parts of that shard.\<close>

lemma worker_step_inv:
  assumes S: "lock_setting K ph B sp" and inv: "lock_inv K ph B sp c" and g: "g < lb_size B"
    and st: "ls_state c' = (ls_state c)(sh := (ls_state c sh)(nth_id B g := s))"
    and same: "ls_grants c' = ls_grants c" "ls_locks c' = ls_locks c" "ls_handled c' = ls_handled c"
      "ls_accounts c' = ls_accounts c" "ls_failed c' = ls_failed c"
    and others: "\<And>t. t \<noteq> sh \<Longrightarrow> ls_store c' t = ls_store c t \<and> ls_results c' t = ls_results c t"
    and own: "worker_inv K B c' sh g" "store_inv B c' sh" "book_inv K B sp c' sh" "exchange_inv K ph B c'"
  shows "lock_inv K ph B sp c'"
  unfolding lock_inv_def
proof (intro conjI allI impI)
  fix t
  show "ls_failed c' t = None" using lock_invD(1) [OF inv] same by simp
  show "queue_inv B c' t" using lock_invD(2) [OF inv, of t] same queue_inv_cong [of c' t c] by simp
  have eq: "done_at B c' t h \<longleftrightarrow> done_at B c t h" if "t \<noteq> sh" for h using that st by simp
  show "store_inv B c' t"
    using own(2) others store_inv_cong [OF _ _ lock_invD(3) [OF inv]] eq by (cases "t = sh") auto
  show "book_inv K B sp c' t"
    using own(3) others same book_inv_cong [OF lock_invD(4) [OF inv]] eq by (cases "t = sh") auto
  show "worker_inv K B c' t h" if "h < lb_size B" "involved K B t h" for h
    using own(1) worker_inv_other [OF S g that(1) _ st same(1-3) lock_invD(5) [OF inv that]]
    by (cases "t = sh \<and> h = g") auto
qed (rule own(4))

section \<open>The steps of an executor\<close>

context lock_executor
begin

lemma wait_at:
  assumes S: "lock_setting K (x_phase X) B sp" and inv: "lock_inv K (x_phase X) B sp c"
    and g: "g < lb_size B" "involved K B sh g" "is_job K (lb_layout B) sh (nth_tx B g) w"
    and st: "ls_state c sh (nth_id B g) = LockWait"
  shows "x_wait X (lw_lock_keys w) (ls_grants c sh (lw_id w)) = Ok (if holds B c sh g then Some () else None)"
proof -
  have "lw_lock_keys w = lkeys B sh g" "lw_id w = nth_id B g" using is_jobD [OF g(3)] by (simp_all add: lkeys_def)
  moreover have "distinct (ls_grants c sh (nth_id B g))"
    "set (ls_grants c sh (nth_id B g)) = {k \<in> lkeys B sh g. holder (ls_locks c sh) k = Some (nth_id B g)}"
    using lock_invD(5) [OF inv g(1,2)] st by (simp_all add: worker_inv_def)
  moreover have "{k \<in> lkeys B sh g. holder (ls_locks c sh) k = Some (nth_id B g)} = lkeys B sh g \<longleftrightarrow> holds B c sh g"
    by (auto simp: holds_def)
  ultimately show ?thesis
    using wait_law [OF lkeys_finite [OF S g(1)], of "ls_grants c sh (nth_id B g)" sh] by simp
qed

lemma start_at:
  assumes S: "lock_setting K (x_phase X) B sp" and inv: "lock_inv K (x_phase X) B sp c"
    and g: "g < lb_size B" "involved K B sh g" "is_job K (lb_layout B) sh (nth_tx B g) w"
    and st: "ls_state c sh (nth_id B g) = LockWait" "holds B c sh g"
  obtains ms where "x_start X (ctx_of (params_for_batch B sp) sh) w (ls_store c sh) =
      Ok (ms, if sh \<in> executors K B g then Some (reads_of (serial B g) (rkeys B sh g)) else None)"
    "mset ms = mset_set (if sh \<in> read_sources B g
      then (\<lambda>target. (target, lmsg (x_phase X) B sh g)) ` (executors K B g - {sh}) else {})"
proof -
  have "ls_store c sh k = serial B g k" if "k \<in> rkeys B sh g" for k
    using held_store [OF S inv g(1) _ st(2) subsetD [OF rkeys_subset that]] st(1) by simp
  then have "reads_of (ls_store c sh) (rkeys B sh g) = reads_of (serial B g) (rkeys B sh g)" by (rule reads_of_cong)
  then have "reads_of (ls_store c sh) (local_read_keys (lb_layout B) (nth_tx B g) sh) = reads_of (serial B g) (rkeys B sh g)"
    "read_message (lb_layout B) (lb_id B) (x_phase X) (nth_tx B g) sh (ls_store c sh) = lmsg (x_phase X) B sh g"
    by (simp_all add: rkeys_def lmsg_def read_message_def)
  moreover have part: "takes_part K (lb_layout B) sh (nth_tx B g)"
    using g(2) by (simp add: involved_def takes_part_def read_sources_def executors_def)
  ultimately show thesis
    using start_law [OF lock_settingD(2) [OF S g(1)] part g(3) lock_settingD(3) [OF S g(1), unfolded executors_def],
        of "lb_id B" "ls_store c sh"] that
    by (auto simp: executors_def read_sources_def)
qed

lemma collect_at_lock:
  assumes S: "lock_setting K (x_phase X) B sp" and inv: "lock_inv K (x_phase X) B sp c"
    and g: "g < lb_size B" "is_job K (lb_layout B) sh (nth_tx B g) w"
    and st: "ls_state c sh (nth_id B g) = ReadCollect r" "involved K B sh g"
  shows "x_collect X (ctx_of (params_for_batch B sp) sh) w r (inbox (ls_mail c sh) (key_at (x_phase X) B g)) =
    Ok (if \<forall>f \<in> read_sources B g - {sh}. lmsg (x_phase X) B f g \<in> set (inbox (ls_mail c sh) (key_at (x_phase X) B g))
        then Some (reads_of (serial B g) (read_set (nth_tx B g))) else None)"
proof -
  have w: "sh \<in> executors K B g" "r = reads_of (serial B g) (local_read_keys (lb_layout B) (nth_tx B g) sh)"
    using lock_invD(5) [OF inv g(1) st(2)] st(1) by (simp_all add: worker_inv_def rkeys_def)
  obtain fs where fs: "inbox (ls_mail c sh) (key_at (x_phase X) B g) = map (\<lambda>f. lmsg (x_phase X) B f g) fs"
    "distinct fs" "set fs \<subseteq> read_sources B g - {sh}"
    by (rule lock_mailbox [OF S lock_invD(6) [OF inv] g(1) w(1)]) blast
  have "lmsg (x_phase X) B f g \<in> set (inbox (ls_mail c sh) (key_at (x_phase X) B g)) \<longleftrightarrow> f \<in> set fs" for f
    using lmsg_inject [OF S g(1) g(1)] unfolding fs(1) by auto
  then have all: "(\<forall>f \<in> read_sources B g - {sh}. lmsg (x_phase X) B f g \<in> set (inbox (ls_mail c sh) (key_at (x_phase X) B g)))
      \<longleftrightarrow> set fs = read_sources B g - {sh}" using fs(3) by auto
  show ?thesis
    unfolding all unfolding fs(1) w(2) lmsg_def params_for_batch_simps read_sources_def
    by (rule collect_law [OF lock_settingD(2) [OF S g(1)] g(2) _ fs(2)])
      (use w(1) fs(3) in \<open>simp_all add: executors_def read_sources_def\<close>)
qed

lemma finish_at:
  assumes S: "lock_setting K (x_phase X) B sp" and g: "g < lb_size B" "is_job K (lb_layout B) sh (nth_tx B g) w"
    and e: "sh \<in> executors K B g"
  shows "x_finish X (ctx_of (params_for_batch B sp) sh) w (reads_of (serial B g) (read_set (nth_tx B g))) store reg =
    Ok (apply_writes store (filter_local_writes (writes (op_output (op (nth_tx B g)) (serial B g))) sh (lb_layout B)),
        if lk_result K (lb_layout B) (nth_tx B g) = sh then mark_ready (nth_id B g) (serial_result B g) reg else reg,
        completion_of K B sh g)"
  using finish_law [OF lock_settingD(2) [OF S g(1)] g(2)] e
  by (simp add: executors_def completion_of_def serial_result_def)

lemma passive_start_inv:
  assumes S: "lock_setting K (x_phase X) B sp" and inv: "lock_inv K (x_phase X) B sp c"
    and g: "g < lb_size B" "involved K B sh g" "is_job K (lb_layout B) sh (nth_tx B g) w"
    and st: "ls_state c sh (nth_id B g) = LockWait" "holds B c sh g" "sh \<notin> executors K B g"
    and ms: "mset ms = mset_set (if sh \<in> read_sources B g
      then (\<lambda>target. (target, lmsg (x_phase X) B sh g)) ` (executors K B g - {sh}) else {})"
  shows "lock_inv K (x_phase X) B sp (send_reads ms (set_state sh (nth_id B g) (LockDone (Ok Passive)) c))"
    (is "lock_inv _ _ _ _ ?c")
proof -
  note v = lock_settingD(2) [OF S g(1)]
  have over: "done_at B ?c sh h \<longleftrightarrow> h = g \<or> done_at B c sh h" if "h < lb_size B" for h
    using nth_id_inject [OF S that g(1)] by auto
  have nw: "k \<notin> op_writes (op (nth_tx B g))" if "shard_for_key (lb_layout B) k = sh" for k
    using active_owners [OF v] that st(3) v by (auto simp: executors_def valid_tx_iff)
  have same: "serial B (Suc g) k = serial B g k" if "shard_for_key (lb_layout B) k = sh" for k
    using nw [OF that] by (simp add: serial_Suc [OF S g(1)] op_apply_other)
  have nd: "\<not> done_at B c sh g" using st(1) by simp
  show ?thesis
  proof (rule worker_step_inv [OF S inv g(1)])
    show "worker_inv K B ?c sh g" using st(2,3) by (simp add: worker_inv_def completion_of_def holds_def)
    show "store_inv B ?c sh"
      by (rule executed_store_inv [OF S inv g(1) nd st(2)])
        (use same held_store [OF S inv g(1) nd st(2)] over in auto)
    show "book_inv K B sp ?c sh"
      by (rule book_inv_done [OF S lock_invD(4) [OF inv] g(1) over])
        (use result_active [OF v] st(3) in \<open>auto simp: executors_def\<close>)
    show "exchange_inv K (x_phase X) B ?c"
      by (rule send_exchange_inv [OF S lock_invD(6) [OF inv] g(1) st(1) _ _ ms]) (use st(3) in simp_all)
  qed simp_all
qed

lemma active_start_inv:
  assumes S: "lock_setting K (x_phase X) B sp" and inv: "lock_inv K (x_phase X) B sp c"
    and g: "g < lb_size B" "involved K B sh g" "is_job K (lb_layout B) sh (nth_tx B g) w"
    and st: "ls_state c sh (nth_id B g) = LockWait" "holds B c sh g" "sh \<in> executors K B g"
    and ms: "mset ms = mset_set (if sh \<in> read_sources B g
      then (\<lambda>target. (target, lmsg (x_phase X) B sh g)) ` (executors K B g - {sh}) else {})"
  shows "lock_inv K (x_phase X) B sp
    (send_reads ms (set_state sh (nth_id B g) (ReadCollect (reads_of (serial B g) (rkeys B sh g))) c))"
    (is "lock_inv _ _ _ _ ?c")
proof -
  have over: "done_at B ?c sh h \<longleftrightarrow> done_at B c sh h" if "h < lb_size B" for h
    using nth_id_inject [OF S that g(1)] st(1) by auto
  have "\<not> handled_at B c sh g" using lock_invD(5) [OF inv g(1,2)] st(1) by (simp add: worker_inv_def)
  then show ?thesis
    using st over
    by (intro worker_step_inv [OF S inv g(1)] store_inv_cong [OF _ _ lock_invD(3) [OF inv]]
        book_inv_cong [OF lock_invD(4) [OF inv]] send_exchange_inv [OF S lock_invD(6) [OF inv] g(1) st(1) _ _ ms])
      (auto simp: worker_inv_def holds_def)
qed

lemma finish_inv:
  assumes S: "lock_setting K (x_phase X) B sp" and inv: "lock_inv K (x_phase X) B sp c"
    and g: "g < lb_size B" "involved K B sh g" "is_job K (lb_layout B) sh (nth_tx B g) w"
    and st: "ls_state c sh (nth_id B g) = ReadCollect r"
    and co: "x_collect X (ctx_of (params_for_batch B sp) sh) w r (inbox (ls_mail c sh) (key_at (x_phase X) B g)) = Ok (Some full)"
    and fi: "x_finish X (ctx_of (params_for_batch B sp) sh) w full (ls_store c sh) (ls_results c sh) = Ok (store', results', completion)"
  shows "lock_inv K (x_phase X) B sp ((set_state sh (nth_id B g) (LockDone (Ok completion)) c)
       \<lparr>ls_store := (ls_store c)(sh := store'), ls_results := (ls_results c)(sh := results'),
        ls_mail := (ls_mail c)(sh := drop_receiver (key_at (x_phase X) B g) (ls_mail c sh))\<rparr>)"
    (is "lock_inv _ _ _ _ ?c")
proof -
  note v = lock_settingD(2) [OF S g(1)]
  have w: "\<not> handled_at B c sh g" "sh \<in> executors K B g" "holds B c sh g"
    using lock_invD(5) [OF inv g(1,2)] st by (simp_all add: worker_inv_def)
  have all: "\<forall>f \<in> read_sources B g - {sh}. lmsg (x_phase X) B f g \<in> set (inbox (ls_mail c sh) (key_at (x_phase X) B g))"
    and full: "full = reads_of (serial B g) (read_set (nth_tx B g))"
    using co collect_at_lock [OF S inv g(1,3) st g(2)] by (simp_all split: if_splits)
  let ?ws = "writes (op_output (op (nth_tx B g)) (serial B g))"
  have fin: "store' = apply_writes (ls_store c sh) (filter_local_writes ?ws sh (lb_layout B))"
    "results' = (if lk_result K (lb_layout B) (nth_tx B g) = sh
      then mark_ready (nth_id B g) (serial_result B g) (ls_results c sh) else ls_results c sh)"
    "completion = completion_of K B sh g"
    using fi finish_at [OF S g(1,3) w(2)] by (simp_all add: full)
  have over: "done_at B ?c sh h \<longleftrightarrow> h = g \<or> done_at B c sh h" if "h < lb_size B" for h
    using nth_id_inject [OF S that g(1)] by auto
  have nd: "\<not> done_at B c sh g" using st by simp
  have store: "store' k = (if k \<in> lkeys B sh g then serial B (Suc g) k else ls_store c sh k)"
    if k: "shard_for_key (lb_layout B) k = sh" for k
  proof -
    have "store' k = apply_writes (ls_store c sh) ?ws k"
      using k apply_writes_filter [of "ls_store c sh" "\<lambda>k. shard_for_key (lb_layout B) k = sh" ?ws k]
      by (simp add: fin(1) filter_local_writes_def)
    moreover have "apply_writes (ls_store c sh) ?ws k = serial B (Suc g) k" if "k \<in> lkeys B sh g"
      using held_store [OF S inv g(1) nd w(3) that] apply_writes_cong [of "ls_store c sh" k "serial B g" ?ws]
      by (simp add: serial_Suc [OF S g(1)] op_apply_def)
    moreover have "apply_writes (ls_store c sh) ?ws k = ls_store c sh k" if "k \<notin> lkeys B sh g"
    proof (rule apply_writes_other)
      have "k \<notin> read_set (nth_tx B g)" using that k lkeys_iff [OF S g(1)] by blast
      then show "k \<notin> write_key ` set ?ws"
        using op_output_writes [of "op (nth_tx B g)" "serial B g"] op_writes_subset [of "op (nth_tx B g)"] v
        by (auto simp: valid_tx_iff)
    qed
    ultimately show ?thesis by simp
  qed
  have foreign: "store' k = ls_store c sh k" if "shard_for_key (lb_layout B) k \<noteq> sh" for k
    using that apply_writes_filter [of "ls_store c sh" "\<lambda>k. shard_for_key (lb_layout B) k = sh" ?ws k]
    by (simp add: fin(1) filter_local_writes_def)
  show ?thesis
  proof (rule worker_step_inv [OF S inv g(1)])
    show "worker_inv K B ?c sh g" using w(3) fin(3) by (simp add: worker_inv_def holds_def)
    show "store_inv B ?c sh" by (rule executed_store_inv [OF S inv g(1) nd w(3)]) (use store foreign over in auto)
    show "book_inv K B sp ?c sh" by (rule book_inv_done [OF S lock_invD(4) [OF inv] g(1) over]) (use fin(2) in simp_all)
    show "exchange_inv K (x_phase X) B ?c"
      by (rule finish_exchange_inv [OF S lock_invD(6) [OF inv] g(1) w(2) st all]) simp_all
  qed (use lock_invD(4) [OF inv] in simp_all)
qed

text \<open>The others in a queue are still waiting, so their grant channels are open.\<close>

lemma queue_tail_open:
  assumes S: "lock_setting K ph B sp" and inv: "lock_inv K ph B sp c"
  shows "set (tl (queue_of (ls_locks c sh) k)) \<subseteq> {t. \<not> is_lock_done (ls_state c sh t)}"
proof
  fix i assume i: "i \<in> set (tl (queue_of (ls_locks c sh) k))"
  let ?Q = "\<lambda>g. k \<in> lkeys B sh g \<and> \<not> handled_at B c sh g"
  note qi = lock_invD(2) [OF inv, of sh]
  have q: "queue_of (ls_locks c sh) k = map (nth_id B) (filter ?Q [0..<lb_size B])"
    using qi by (simp add: queue_inv_def)
  obtain g gs where gs: "filter ?Q [0..<lb_size B] = g # gs" using i by (cases "filter ?Q [0..<lb_size B]") (auto simp: q)
  note head = filter_upt_head [OF gs]
  obtain h where h: "h \<in> set gs" "i = nth_id B h" using i by (auto simp: q gs)
  then have "h \<in> set (filter (\<lambda>h. ?Q h \<and> h \<noteq> g) [0..<lb_size B])" using head by simp
  then have h': "h < lb_size B" "?Q h" "h \<noteq> g" by auto
  have hold: "holder (ls_locks c sh) k = Some (nth_id B g)" by (simp add: holder_queue q gs)
  have "\<not> done_at B c sh h"
  proof
    assume "done_at B c sh h"
    then have "holds B c sh h"
      using done_handled_or_holds [OF lock_invD(5) [OF inv h'(1) lkeys_involved]] h'(2) by blast
    then have "nth_id B h = nth_id B g" using hold h'(2) by (simp add: holds_def)
    then show False using nth_id_inject [OF S h'(1), of g] head h'(3) by simp
  qed
  then show "i \<in> {t. \<not> is_lock_done (ls_state c sh t)}" using h(2) by simp
qed

lemma handle_at:
  assumes S: "lock_setting K (x_phase X) B sp" and inv: "lock_inv K (x_phase X) B sp c"
    and g: "g < lb_size B" "involved K B sh g" "is_job K (lb_layout B) sh (nth_tx B g) w"
    and st: "ls_state c sh (nth_id B g) = LockDone outcome" "\<not> handled_at B c sh g"
  obtains table' gs results where
    "handle_outcome X {t. \<not> is_lock_done (ls_state c sh t)} w outcome (ls_locks c sh) (ls_accounts c sh) =
      Ok (table', gs, fst (ls_accounts c sh) @ completion_records (completion_of K B sh g), results)"
    "dom results \<subseteq> insert (nth_id B g) (dom (snd (ls_accounts c sh)))" "distinct gs"
    "set gs = {(t, k). k \<in> lkeys B sh g \<and> holder table' k = Some t}"
    "\<And>k. queue_of table' k = (if k \<in> lkeys B sh g then tl (queue_of (ls_locks c sh) k) else queue_of (ls_locks c sh) k)"
proof -
  have w: "outcome = Ok (completion_of K B sh g)" "holds B c sh g"
    using lock_invD(5) [OF inv g(1,2)] st by (simp_all add: worker_inv_def)
  have job: "lw_lock_keys w = lkeys B sh g" "lw_id w = nth_id B g" using is_jobD [OF g(3)] by (simp_all add: lkeys_def)
  obtain table' gs where rel: "release_and_grant_next {t. \<not> is_lock_done (ls_state c sh t)} (nth_id B g) (lkeys B sh g)
      (ls_locks c sh) = Ok (table', gs)" "distinct gs"
    "\<And>k. queue_of table' k = (if k \<in> lkeys B sh g then tl (queue_of (ls_locks c sh) k) else queue_of (ls_locks c sh) k)"
    "set gs = {(t, k). k \<in> lkeys B sh g \<and> holder table' k = Some t}"
    using release_Ok [where tx = "nth_id B g", OF lkeys_finite [OF S g(1)] _ queue_tail_open [OF S inv]] w(2)
    unfolding holds_def by blast
  have "dom (snd (ls_accounts c sh)) \<subseteq> ls_handled c sh" using lock_invD(4) [OF inv] by (simp add: book_inv_def)
  then have "nth_id B g \<notin> dom (snd (ls_accounts c sh))" using st(2) by blast
  from handle_law [OF this, of "completion_of K B sh g"] obtain results where
    "x_handle X (nth_id B g) (completion_of K B sh g) (ls_accounts c sh) =
      Ok (fst (ls_accounts c sh) @ completion_records (completion_of K B sh g), results)"
    "dom results \<subseteq> insert (nth_id B g) (dom (snd (ls_accounts c sh)))" by blast
  then show thesis using rel by (intro that [of table' gs results]) (simp_all add: handle_outcome_def job w(1))
qed

text \<open>Booking a completion, for each part of the invariant. The worker leaves the head of all its queues.\<close>

lemma handle_queue_inv:
  assumes S: "lock_setting K ph B sp" and qi: "queue_inv B c sh" and g: "g < lb_size B"
    and hg: "\<And>k. k \<in> lkeys B sh g \<Longrightarrow> holder (ls_locks c sh) k = Some (nth_id B g)"
    and c': "ls_handled c' sh = insert (nth_id B g) (ls_handled c sh)"
    and q': "\<And>k. queue_of (ls_locks c' sh) k =
      (if k \<in> lkeys B sh g then tl (queue_of (ls_locks c sh) k) else queue_of (ls_locks c sh) k)"
  shows "queue_inv B c' sh"
proof -
  have eq: "nth_id B h = nth_id B g \<longleftrightarrow> h = g" if "h < lb_size B" for h by (rule nth_id_inject [OF S that g])
  show ?thesis
    unfolding queue_inv_def
  proof (intro conjI allI impI)
    fix k
    let ?Q = "\<lambda>g. k \<in> lkeys B sh g \<and> \<not> handled_at B c sh g"
    have q: "queue_of (ls_locks c sh) k = map (nth_id B) (filter ?Q [0..<lb_size B])"
      using qi by (simp add: queue_inv_def)
    have "filter (\<lambda>h. k \<in> lkeys B sh h \<and> \<not> handled_at B c' sh h) [0..<lb_size B] =
        filter (\<lambda>h. ?Q h \<and> h \<noteq> g) [0..<lb_size B]"
      by (rule filter_cong) (use eq c' in auto)
    moreover have "queue_of (ls_locks c' sh) k = map (nth_id B) (filter (\<lambda>h. ?Q h \<and> h \<noteq> g) [0..<lb_size B])"
    proof (cases "k \<in> lkeys B sh g")
      case True
      have "?Q g \<and> (\<forall>h < g. \<not> ?Q h)" using hg [OF True] unfolding holder_iff [OF S qi g] by blast
      then obtain rest where rest: "filter ?Q [0..<lb_size B] = g # rest" using filter_upt_first [OF g, of ?Q] by blast
      have "tl (queue_of (ls_locks c sh) k) = map (nth_id B) rest" unfolding q rest by simp
      then show ?thesis using filter_upt_head [OF rest] q' [of k] True by (simp only: if_True)
    next
      case False
      then have "filter (\<lambda>h. ?Q h \<and> h \<noteq> g) [0..<lb_size B] = filter ?Q [0..<lb_size B]"
        by (intro filter_cong) auto
      then show ?thesis using q' [of k] False by (simp only: q if_False)
    qed
    ultimately show "queue_of (ls_locks c' sh) k =
        map (nth_id B) (filter (\<lambda>h. k \<in> lkeys B sh h \<and> \<not> handled_at B c' sh h) [0..<lb_size B])" by simp
  next
    fix k n h
    assume "h < n \<and> n < lb_size B \<and> k \<in> lkeys B sh h \<and> k \<in> lkeys B sh n \<and> handled_at B c' sh n"
    then have h: "h < n" "n < lb_size B" "k \<in> lkeys B sh h" "k \<in> lkeys B sh n" "handled_at B c' sh n" by blast+
    show "handled_at B c' sh h"
    proof (cases "n = g")
      case True
      then have "handled_at B c sh h" using hg h holder_iff [OF S qi g, of k] by blast
      then show ?thesis using c' by simp
    next
      case False
      then have "handled_at B c sh n" using h(5) eq [OF h(2)] c' by simp
      then have "handled_at B c sh h" using qi h(1-4) unfolding queue_inv_def by blast
      then show ?thesis using c' by simp
    qed
  qed
qed

lemma handle_records:
  assumes S: "lock_setting K ph B sp" and g: "g < lb_size B" "\<not> handled_at B c sh g"
    and c': "ls_handled c' sh = insert (nth_id B g) (ls_handled c sh)"
  shows "mset (concat (map f (filter (\<lambda>h. handled_at B c' sh h) [0..<lb_size B]))) =
    mset (concat (map f (filter (\<lambda>h. handled_at B c sh h) [0..<lb_size B]))) + mset (f g)"
proof -
  have "filter (\<lambda>h. handled_at B c' sh h) [0..<lb_size B] = filter (\<lambda>h. handled_at B c sh h \<or> h = g) [0..<lb_size B]"
    by (rule filter_cong) (use c' nth_id_inject [OF S _ g(1)] in auto)
  moreover have "mset (filter (\<lambda>h. handled_at B c sh h \<or> h = g) [0..<lb_size B]) =
      add_mset g (mset (filter (\<lambda>h. handled_at B c sh h) [0..<lb_size B]))"
    using g by (intro multiset_eqI) (auto simp: count_mset_set')
  ultimately show ?thesis using mset_concat_add by (simp only:)
qed

text \<open>The worker itself is done; the others may be granted keys that it leaves.\<close>

lemma handle_worker_inv:
  assumes S: "lock_setting K ph B sp" and inv: "lock_inv K ph B sp c"
    and g: "g < lb_size B" "involved K B sh g" "done_at B c sh g"
    and hg: "\<And>k. k \<in> lkeys B sh g \<Longrightarrow> holder (ls_locks c sh) k = Some (nth_id B g)"
    and gs: "distinct gs" "set gs = {(t, k). k \<in> lkeys B sh g \<and> holder (ls_locks c' sh) k = Some t}"
    and holder': "\<And>k. k \<notin> lkeys B sh g \<Longrightarrow> holder (ls_locks c' sh) k = holder (ls_locks c sh) k"
    and queue: "queue_inv B c' sh"
    and c': "ls_state c' sh = ls_state c sh" "ls_grants c' sh = (\<lambda>t. ls_grants c sh t @ grants_to t gs)"
      "ls_handled c' sh = insert (nth_id B g) (ls_handled c sh)"
    and h: "h < lb_size B" "involved K B sh h"
  shows "worker_inv K B c' sh h"
proof (cases "h = g")
  case True
  obtain res where "ls_state c sh (nth_id B g) = LockDone res"
    using g(3) by (auto simp: is_lock_done_def split: lock_worker_state.splits)
  then show ?thesis using lock_invD(5) [OF inv g(1,2)] True c' by (simp add: worker_inv_def)
next
  case False
  have eq: "nth_id B h = nth_id B g \<longleftrightarrow> h = g" by (rule nth_id_inject [OF S h(1) g(1)])
  have owner: "k \<in> lkeys B sh h" if t: "holder (ls_locks c' sh) k = Some (nth_id B h)" for k
  proof -
    obtain n where n: "n < lb_size B" "nth_id B h = nth_id B n" "k \<in> lkeys B sh n"
      using holder_cases [OF queue t] by auto
    then show ?thesis using nth_id_inject [OF S h(1) n(1)] by simp
  qed
  have free: "k \<notin> lkeys B sh g" if "holder (ls_locks c sh) k = Some (nth_id B h)" for k
    using hg [of k] that eq False by auto
  have keep: "holds B c' sh h" if "holds B c sh h"
    using that free holder' by (simp add: holds_def)
  have new: "{k \<in> lkeys B sh h. holder (ls_locks c' sh) k = Some (nth_id B h)} =
      {k \<in> lkeys B sh h. holder (ls_locks c sh) k = Some (nth_id B h)} \<union> {k. (nth_id B h, k) \<in> set gs}"
    using free holder' owner by (auto simp: gs(2))
  have apart: "{k. holder (ls_locks c sh) k = Some (nth_id B h)} \<inter> {k. (nth_id B h, k) \<in> set gs} = {}"
    using free by (auto simp: gs(2))
  show ?thesis
    using lock_invD(5) [OF inv h] keep new apart grants_to_facts(1) [OF gs(1)] grants_to_facts(2) [of _ gs] eq False c'
    by (auto simp: worker_inv_def split: lock_worker_state.splits)
qed

lemma handle_inv:
  assumes S: "lock_setting K ph B sp" and inv: "lock_inv K ph B sp c"
    and g: "g < lb_size B" "involved K B sh g"
    and st: "done_at B c sh g" "\<not> handled_at B c sh g"
    and gs: "distinct gs" "set gs = {(t, k). k \<in> lkeys B sh g \<and> holder table' k = Some t}"
    and q': "\<And>k. queue_of table' k = (if k \<in> lkeys B sh g then tl (queue_of (ls_locks c sh) k) else queue_of (ls_locks c sh) k)"
    and acc: "fst acc' = fst (ls_accounts c sh) @ completion_records (completion_of K B sh g)"
      "dom (snd acc') \<subseteq> insert (nth_id B g) (dom (snd (ls_accounts c sh)))"
  shows "lock_inv K ph B sp (c\<lparr>ls_locks := (ls_locks c)(sh := table'),
       ls_grants := (ls_grants c)(sh := \<lambda>t. ls_grants c sh t @ grants_to t gs),
       ls_handled := (ls_handled c)(sh := insert (nth_id B g) (ls_handled c sh)),
       ls_accounts := (ls_accounts c)(sh := acc')\<rparr>)"
    (is "lock_inv _ _ _ _ ?c")
proof -
  note qi = lock_invD(2) [OF inv, of sh]
  have hold: "holds B c sh g" using done_handled_or_holds [OF lock_invD(5) [OF inv g] st(1)] st(2) by blast
  then have hg: "holder (ls_locks c sh) k = Some (nth_id B g)" if "k \<in> lkeys B sh g" for k
    using that by (simp add: holds_def)
  have holder': "holder table' k = holder (ls_locks c sh) k" if "k \<notin> lkeys B sh g" for k
    using q' [of k] that by (simp add: holder_def)
  have queue: "queue_inv B ?c sh" by (rule handle_queue_inv [OF S qi g(1) hg]) (simp_all add: q')
  have workers: "worker_inv K B ?c sh h" if "h < lb_size B" "involved K B sh h" for h
    by (rule handle_worker_inv [OF S inv g st(1) hg gs(1) _ _ queue _ _ _ that]) (simp_all add: gs(2) holder')
  have book: "book_inv K B sp ?c sh"
  proof -
    have records: "mset (fst acc') = mset (concat (map (\<lambda>g. completion_records (completion_of K B sh g))
        (filter (\<lambda>h. handled_at B ?c sh h) [0..<lb_size B])))"
      using lock_invD(4) [OF inv, of sh] acc(1) 
        handle_records [OF S g(1) st(2), where c' = ?c and f = "\<lambda>g. completion_records (completion_of K B sh g)"]
      by (simp add: book_inv_def)
    have old: "book_inv K B sp c sh" by (rule lock_invD(4) [OF inv])
    then have "dom (snd acc') \<subseteq> insert (nth_id B g) (ls_handled c sh)" using acc(2) unfolding book_inv_def by blast
    then show ?thesis using old records g unfolding book_inv_def by simp
  qed
  show ?thesis
    unfolding lock_inv_def
  proof (intro conjI allI impI)
    fix t
    show "ls_failed ?c t = None" using lock_invD(1) [OF inv] by simp
    show "queue_inv B ?c t"
      using queue queue_inv_cong [of ?c t c] lock_invD(2) [OF inv] by (cases "t = sh") auto
    show "store_inv B ?c t" using lock_invD(3) [OF inv] by (simp add: store_inv_def)
    show "book_inv K B sp ?c t"
      using book book_inv_cong [OF lock_invD(4) [OF inv, of t], of ?c] by (cases "t = sh") auto
    show "worker_inv K B ?c t h" if "h < lb_size B" "involved K B t h" for h
    proof (cases "t = sh")
      case True
      then show ?thesis using workers that by simp
    next
      case False
      then show ?thesis using lock_invD(5) [OF inv that] worker_inv_cong [of ?c t B h c K] by simp
    qed
  next
    show "exchange_inv K ph B ?c" using lock_invD(6) [OF inv] exchange_inv_cong [of ?c c] by simp
  qed
qed

text \<open>The invariant is kept by every step; in particular the error steps never happen.\<close>

lemma lock_step_inv:
  assumes "lock_step X (params_for_batch B sp) c c'" and inv: "lock_inv K (x_phase X) B sp c"
    and S: "lock_setting K (x_phase X) B sp"
  shows "lock_inv K (x_phase X) B sp c'"
  using assms(1)
proof cases
  case (start_active sh w ms r)
  obtain g where g: "g < lb_size B" "involved K B sh g" "is_job K (lb_layout B) sh (nth_tx B g) w" "lw_id w = nth_id B g"
    using job_of_worker [OF S, of w sh] start_active(3) by auto
  have st: "ls_state c sh (nth_id B g) = LockWait" using start_active(4) g(4) by simp
  have "holds B c sh g" using wait_at [OF S inv g(1-3) st] start_active(5) by (simp split: if_splits)
  note at = start_at [OF S inv g(1-3) st this]
  show ?thesis
    by (rule at) (use start_active(1,6) g active_start_inv [OF S inv g(1-3) st \<open>holds B c sh g\<close>] in \<open>auto split: if_splits\<close>)
next
  case (start_passive sh w ms)
  obtain g where g: "g < lb_size B" "involved K B sh g" "is_job K (lb_layout B) sh (nth_tx B g) w" "lw_id w = nth_id B g"
    using job_of_worker [OF S, of w sh] start_passive(3) by auto
  have st: "ls_state c sh (nth_id B g) = LockWait" using start_passive(4) g(4) by simp
  have "holds B c sh g" using wait_at [OF S inv g(1-3) st] start_passive(5) by (simp split: if_splits)
  note at = start_at [OF S inv g(1-3) st this]
  show ?thesis
    by (rule at) (use start_passive(1,6) g passive_start_inv [OF S inv g(1-3) st \<open>holds B c sh g\<close>] in \<open>auto split: if_splits\<close>)
next
  case (start_error sh w e)
  obtain g where g: "g < lb_size B" "involved K B sh g" "is_job K (lb_layout B) sh (nth_tx B g) w" "lw_id w = nth_id B g"
    using job_of_worker [OF S, of w sh] start_error(3) by auto
  have st: "ls_state c sh (nth_id B g) = LockWait" using start_error(4) g(4) by simp
  have wait: "x_wait X (lw_lock_keys w) (ls_grants c sh (lw_id w)) = Ok (Some ()) \<and>
      x_start X (ctx_of (params_for_batch B sp) sh) w (ls_store c sh) = Err e" and "holds B c sh g"
    using wait_at [OF S inv g(1-3) st] start_error(5) by (auto split: if_splits)
  show ?thesis by (rule start_at [OF S inv g(1-3) st \<open>holds B c sh g\<close>]) (use wait in simp)
next
  case (finish sh w r full store' results' completion)
  obtain g where g: "g < lb_size B" "involved K B sh g" "is_job K (lb_layout B) sh (nth_tx B g) w" "lw_id w = nth_id B g"
    using job_of_worker [OF S, of w sh] finish(3) by auto
  show ?thesis using finish_inv [OF S inv g(1-3)] finish g(4) by simp
next
  case (finish_error sh w r e)
  obtain g where g: "g < lb_size B" "involved K B sh g" "is_job K (lb_layout B) sh (nth_tx B g) w" "lw_id w = nth_id B g"
    using job_of_worker [OF S, of w sh] finish_error(3) by auto
  have st: "ls_state c sh (nth_id B g) = ReadCollect r" using finish_error(4) g(4) by simp
  then have e: "sh \<in> executors K B g" using lock_invD(5) [OF inv g(1,2)] by (simp add: worker_inv_def)
  show ?thesis
    using finish_error(5) collect_at_lock [OF S inv g(1,3) st g(2)] finish_at [OF S g(1,3) e] g(4)
    by (auto split: if_splits)
next
  case (handle sh w outcome table' gs acc')
  obtain g where g: "g < lb_size B" "involved K B sh g" "is_job K (lb_layout B) sh (nth_tx B g) w" "lw_id w = nth_id B g"
    using job_of_worker [OF S, of w sh] handle(3) by auto
  have st: "ls_state c sh (nth_id B g) = LockDone outcome" "\<not> handled_at B c sh g" using handle(4,5) g(4) by simp_all
  show ?thesis
    unfolding handle(1) g(4)
    by (rule handle_at [OF S inv g(1-3) st], rule handle_inv [OF S inv g(1,2)]) (use handle(6) st in auto)
next
  case (handle_error sh w outcome e)
  obtain g where g: "g < lb_size B" "involved K B sh g" "is_job K (lb_layout B) sh (nth_tx B g) w" "lw_id w = nth_id B g"
    using job_of_worker [OF S, of w sh] handle_error(3) by auto
  have st: "ls_state c sh (nth_id B g) = LockDone outcome" "\<not> handled_at B c sh g" using handle_error(4,5) g(4) by simp_all
  show ?thesis by (rule handle_at [OF S inv g(1-3) st]) (use handle_error(6) in simp)
next
  case (deliver target m mail')
  then have ex: "exchange_inv K (x_phase X) B c'"
    by (intro deliver_exchange_inv [OF S lock_invD(6) [OF inv] deliver(2,3)]) simp_all
  then show ?thesis by (rule lock_inv_messages [OF inv]) (simp_all add: deliver(1))
next
  case (deliver_closed target m e mail')
  have "fst (route m (ls_mail c target)) = Ok ()"
    using in_transit_open [OF S lock_invD(6) [OF inv] deliver_closed(2)] by (simp add: route_result)
  then show ?thesis using deliver_closed(3) by simp
qed

end

end
