(* ===== verification/LockProgress.thy ===== *)
theory LockProgress
  imports LockSerial
begin

text \<open>
  Whole runs of the lock-based system, from the contract of an executor: the start satisfies the
  invariant, every run is finite, a run that cannot continue has finished on every shard, and a
  finished run leaves the serial state, the serial results and their records.
\<close>

section \<open>The start\<close>

definition stores_hold :: "shard_layout \<Rightarrow> (shard_id \<Rightarrow> fs_state) \<Rightarrow> fs_state \<Rightarrow> bool" where
  "stores_hold L stores s \<longleftrightarrow> (\<forall>sh. stores sh = shard_part L s sh)"

lemma filter_map_nth: "map f (filter Q xs) = map (\<lambda>g. f (xs ! g)) (filter (\<lambda>g. Q (xs ! g)) [0..<length xs])"
proof -
  have "filter Q xs = map (\<lambda>g. xs ! g) (filter (\<lambda>g. Q (xs ! g)) [0..<length xs])"
    by (subst map_nth [symmetric]) (simp add: filter_map comp_def)
  then show ?thesis by simp
qed

lemma lock_initial_inv:
  assumes S: "lock_setting K ph B sp" and s0: "stores_hold (lb_layout B) stores (lb_state B)"
  shows "lock_inv K ph B sp (lock_initial sp stores)"
    (is "lock_inv _ _ _ _ ?c")
proof -
  have grants: "\<exists>gs. grant_initial_heads UNIV (sp_table (sp sh)) = Ok gs \<and> distinct gs \<and>
      set gs = {(t, k). holder (sp_table (sp sh)) k = Some t}" for sh
    by (rule grant_initial_heads_Ok [OF lock_settingD(4) [OF S]]) simp
  have queue: "queue_inv B ?c sh" for sh
    using lock_settingD(6) [OF S, of sh]
    by (simp add: queue_inv_def lock_initial_def lkeys_def filter_map_nth [of tx_id _ "lb_txs B"])
  have workers: "worker_inv K B ?c sh g" if g: "g < lb_size B" for sh g
  proof -
    obtain gs where gs: "grant_initial_heads UNIV (sp_table (sp sh)) = Ok gs" "distinct gs"
      "set gs = {(t, k). holder (sp_table (sp sh)) k = Some t}" using grants by blast
    have "k \<in> lkeys B sh g" if "holder (sp_table (sp sh)) k = Some (nth_id B g)" for k
      using holder_iff [OF S queue g, of sh k] that by (simp add: lock_initial_def)
    then have "{k. (nth_id B g, k) \<in> set gs} = {k \<in> lkeys B sh g. holder (sp_table (sp sh)) k = Some (nth_id B g)}"
      using gs(3) by auto
    then show ?thesis
      using gs(1) grants_to_facts(1) [OF gs(2)] grants_to_facts(2) [of "nth_id B g" gs]
      by (simp add: worker_inv_def lock_initial_def)
  qed
  show ?thesis
    unfolding lock_inv_def
  proof (intro conjI allI impI)
    fix sh
    show "ls_failed ?c sh = None" using grants [of sh] by (auto simp: lock_initial_def)
    show "queue_inv B ?c sh" by (rule queue)
    show "store_inv B ?c sh"
    proof (rule store_invI)
      show "ls_store ?c sh k = None" if "shard_for_key (lb_layout B) k \<noteq> sh" for k
        using s0 that by (simp add: stores_hold_def lock_initial_def shard_part_def)
    next
      fix k n
      assume k: "shard_for_key (lb_layout B) k = sh" "n \<le> lb_size B"
        and before: "\<forall>h < n. k \<in> lkeys B sh h \<longrightarrow> done_at B ?c sh h"
      have "serial B n k = serial B 0 k"
        by (rule serial_stable [OF S k(1) _ k(2)]) (use before in \<open>auto simp: lock_initial_def\<close>)
      then show "ls_store ?c sh k = serial B n k" using s0 k(1) by (simp add: stores_hold_def lock_initial_def shard_part_def)
    qed
    show "book_inv K B sp ?c sh" by (auto simp: book_inv_def lock_initial_def)
    show "worker_inv K B ?c sh g" if "g < lb_size B" "involved K B sh g" for g by (rule workers [OF that(1)])
  next
    show "exchange_inv K ph B ?c"
      using lock_settingD(7-9) [OF S]
      by (simp add: exchange_inv_def lock_initial_def msg_copies_def msg_due_def)
  qed
qed

section \<open>Finished runs\<close>

definition serial_records :: "lock_kind \<Rightarrow> lock_batch \<Rightarrow> shard_id \<Rightarrow> tx_result_record list" where
  "serial_records K B sh = sort_key (\<lambda>r. (rec_tx_id r, rec_shard_id r))
     (concat (map (\<lambda>g. completion_records (completion_of K B sh g))
        (filter (\<lambda>g. involved K B sh g) [0..<lb_size B])))"

lemma lock_jobs_ids:
  assumes S: "lock_setting K ph B sp"
  shows "lw_id ` set (sp_jobs (sp sh)) = nth_id B ` {g. g < lb_size B \<and> involved K B sh g}"
proof (intro equalityI subsetI)
  fix i assume "i \<in> lw_id ` set (sp_jobs (sp sh))"
  then obtain w where w: "w \<in> set (sp_jobs (sp sh))" "i = lw_id w" by blast
  show "i \<in> nth_id B ` {g. g < lb_size B \<and> involved K B sh g}"
    by (rule job_of_worker [OF S w(1)]) (use w(2) in auto)
next
  fix i assume "i \<in> nth_id B ` {g. g < lb_size B \<and> involved K B sh g}"
  then obtain g where g: "g < lb_size B" "involved K B sh g" "i = nth_id B g" by blast
  show "i \<in> lw_id ` set (sp_jobs (sp sh))" by (rule worker_of_job [OF S g(1,2)]) (use g(3) in \<open>metis imageI\<close>)
qed

lemma sort_key_mset:
  assumes "mset xs = mset ys" "inj_on f (set ys)"
  shows "sort_key f xs = sort_key f ys"
  by (rule sort_key_inj_key_eq) (use assms in \<open>simp_all flip: set_mset_mset\<close>)

lemma finished_handled:
  assumes S: "lock_setting K ph B sp" and fin: "lock_finished (params_for_batch B sp) c"
    and g: "g < lb_size B" "involved K B sh g"
  shows "handled_at B c sh g"
  using fin g lock_jobs_ids [OF S, of sh] by (simp add: lock_finished_def)

lemma finished_store:
  assumes S: "lock_setting K ph B sp" and inv: "lock_inv K ph B sp c"
    and fin: "lock_finished (params_for_batch B sp) c"
  shows "stores_hold (lb_layout B) (ls_store c) (run_txs (lb_txs B) (lb_state B))"
  unfolding stores_hold_def
proof (intro allI ext)
  fix sh k
  have over: "done_at B c sh h" if "h < lb_size B" "k \<in> lkeys B sh h" for h
  proof -
    have i: "involved K B sh h" by (rule lkeys_involved [OF that(2)])
    show ?thesis
      by (rule handled_done [OF lock_invD(5) [OF inv that(1) i] finished_handled [OF S fin that(1) i]])
  qed
  have "ls_store c sh k = serial B (lb_size B) k" if "shard_for_key (lb_layout B) k = sh"
    using lock_invD(3) [OF inv, of sh] that over unfolding store_inv_def by (metis leD le_refl)
  moreover have "ls_store c sh k = None" if "shard_for_key (lb_layout B) k \<noteq> sh"
    using lock_invD(3) [OF inv, of sh] that by (simp add: store_inv_def)
  ultimately show "ls_store c sh k = shard_part (lb_layout B) (run_txs (lb_txs B) (lb_state B)) sh k"
    by (auto simp: shard_part_def restrict_map_def)
qed

lemma finished_results:
  assumes S: "lock_setting K ph B sp" and inv: "lock_inv K ph B sp c"
    and fin: "lock_finished (params_for_batch B sp) c" and g: "g < lb_size B"
    and e: "lk_result K (lb_layout B) (nth_tx B g) \<in> executors K B g"
  shows "ls_results c (lk_result K (lb_layout B) (nth_tx B g)) (nth_id B g) = Some (ResultReady (serial_result B g))"
proof -
  let ?sh = "lk_result K (lb_layout B) (nth_tx B g)"
  have i: "involved K B ?sh g" using e by (simp add: involved_def)
  have "done_at B c ?sh g"
    by (rule handled_done [OF lock_invD(5) [OF inv g i] finished_handled [OF S fin g i]])
  then show ?thesis using lock_invD(4) [OF inv, of ?sh] g the_nth_id [OF S g refl] by (auto simp: book_inv_def)
qed

lemma finished_records:
  assumes S: "lock_setting K ph B sp" and inv: "lock_inv K ph B sp c"
    and fin: "lock_finished (params_for_batch B sp) c"
    and inj: "inj_on (\<lambda>r. (rec_tx_id r, rec_shard_id r))
      (\<Union>g \<in> {..<lb_size B}. set (completion_records (completion_of K B sh g)))"
  shows "batch_records c sh = serial_records K B sh"
proof -
  have b: "ls_handled c sh \<subseteq> nth_id B ` {g. g < lb_size B \<and> involved K B sh g}"
    "mset (fst (ls_accounts c sh)) = mset (concat (map (\<lambda>g. completion_records (completion_of K B sh g))
        (filter (\<lambda>g. handled_at B c sh g) [0..<lb_size B])))"
    using lock_invD(4) [OF inv, of sh] by (simp_all add: book_inv_def)
  have "handled_at B c sh g \<longleftrightarrow> involved K B sh g" if "g < lb_size B" for g
    using finished_handled [OF S fin that] b(1) nth_id_inject [OF S that] by blast
  then have "filter (\<lambda>g. handled_at B c sh g) [0..<lb_size B] = filter (\<lambda>g. involved K B sh g) [0..<lb_size B]"
    by (intro filter_cong) auto
  with b(2) show ?thesis
    unfolding batch_records_def serial_records_def
    by (intro sort_key_mset inj_on_subset [OF inj]) auto
qed

section \<open>Termination\<close>

definition lock_rank :: "lock_worker_state \<Rightarrow> nat" where
  "lock_rank s = (case s of LockWait \<Rightarrow> 2 | ReadCollect _ \<Rightarrow> 1 | LockDone _ \<Rightarrow> 0)"

definition shard_rank :: "lock_params \<Rightarrow> lock_system \<Rightarrow> shard_id \<Rightarrow> nat" where
  "shard_rank P c sh = (if ls_failed c sh = None then 1 else 0) +
     (\<Sum>i \<in> lw_id ` set (lp_jobs P sh). lock_rank (ls_state c sh i) + (if i \<in> ls_handled c sh then 0 else 1))"

definition lock_measure :: "lock_params \<Rightarrow> lock_system \<Rightarrow> nat" where
  "lock_measure P c = (\<Sum>sh \<in> UNIV. shard_rank P c sh) * Suc (card (UNIV :: shard_id set)) + size (ls_net c)"

lemma lock_rank_simps [simp]:
  "lock_rank LockWait = 2" "lock_rank (ReadCollect r) = 1" "lock_rank (LockDone d) = 0"
  by (simp_all add: lock_rank_def)

lemma lock_measure_work:
  assumes "shard_rank P c' sh < shard_rank P c sh" "\<And>t. t \<noteq> sh \<Longrightarrow> shard_rank P c' t = shard_rank P c t"
    and "size (ls_net c') \<le> size (ls_net c) + card (UNIV :: shard_id set)"
  shows "lock_measure P c' < lock_measure P c"
proof -
  let ?M = "Suc (card (UNIV :: shard_id set))"
  have "shard_rank P c' t \<le> shard_rank P c t" for t using assms(1,2) by (cases "t = sh") auto
  then have "(\<Sum>sh \<in> UNIV. shard_rank P c' sh) < (\<Sum>sh \<in> UNIV. shard_rank P c sh)"
    using assms(1) by (intro sum_strict_mono_ex1) auto
  then have "Suc (\<Sum>sh \<in> UNIV. shard_rank P c' sh) * ?M \<le> (\<Sum>sh \<in> UNIV. shard_rank P c sh) * ?M"
    by (intro mult_le_mono1) simp
  then show ?thesis using assms(3) by (simp add: lock_measure_def)
qed

lemma lock_measure_message:
  assumes "x \<in># ls_net c" "ls_net c' = ls_net c - {#x#}" "\<And>t. shard_rank P c' t \<le> shard_rank P c t"
  shows "lock_measure P c' < lock_measure P c"
proof -
  let ?M = "Suc (card (UNIV :: shard_id set))"
  have "size (ls_net c') < size (ls_net c)"
    using assms(1,2) size_Diff_singleton [OF assms(1)] nonempty_has_size [of "ls_net c"] by auto
  moreover have "(\<Sum>sh \<in> UNIV. shard_rank P c' sh) * ?M \<le> (\<Sum>sh \<in> UNIV. shard_rank P c sh) * ?M"
    using assms(3) by (intro mult_le_mono1 sum_mono) simp
  ultimately show ?thesis by (simp add: lock_measure_def)
qed

lemma shard_rank_worker:
  assumes "w \<in> set (lp_jobs P sh)" "ls_failed c' sh = ls_failed c sh"
    and "\<And>i. i \<noteq> lw_id w \<Longrightarrow> ls_state c' sh i = ls_state c sh i \<and> (i \<in> ls_handled c' sh \<longleftrightarrow> i \<in> ls_handled c sh)"
    and "lock_rank (ls_state c' sh (lw_id w)) + (if lw_id w \<in> ls_handled c' sh then 0 else 1) <
      lock_rank (ls_state c sh (lw_id w)) + (if lw_id w \<in> ls_handled c sh then 0 else 1)"
  shows "shard_rank P c' sh < shard_rank P c sh"
proof -
  let ?f = "\<lambda>c i. lock_rank (ls_state c sh i) + (if i \<in> ls_handled c sh then 0 else 1)"
  have "?f c' i \<le> ?f c i" for i using assms(3,4) by (cases "i = lw_id w") auto
  moreover have "\<exists>i \<in> lw_id ` set (lp_jobs P sh). ?f c' i < ?f c i"
    using assms(1,4) by (intro bexI [of _ "lw_id w"] imageI)
  ultimately have "(\<Sum>i \<in> lw_id ` set (lp_jobs P sh). ?f c' i) < (\<Sum>i \<in> lw_id ` set (lp_jobs P sh). ?f c i)"
    by (intro sum_strict_mono_ex1) auto
  then show ?thesis using assms(2) by (simp add: shard_rank_def)
qed

context lock_executor
begin

lemma lock_step_decreases: "lock_step X P c c' \<Longrightarrow> lock_measure P c' < lock_measure P c"
proof (induction rule: lock_step.induct)
  case (start_active c sh w ms r)
  then show ?case
    using start_bound [OF start_active(5)]
    by (intro lock_measure_work [of _ _ sh] shard_rank_worker [of w]) (auto simp: shard_rank_def)
next
  case (start_passive c sh w ms)
  then show ?case
    using start_bound [OF start_passive(5)]
    by (intro lock_measure_work [of _ _ sh] shard_rank_worker [of w]) (auto simp: shard_rank_def)
next
  case (handle_error c sh w outcome e)
  then show ?case by (intro lock_measure_work [of _ _ sh]) (auto simp: shard_rank_def)
next
  case (deliver target m c mail')
  show ?case by (rule lock_measure_message [OF deliver(1)]) (simp_all add: shard_rank_def)
next
  case (deliver_closed target m c e mail')
  show ?case by (rule lock_measure_message [OF deliver_closed(1)]) (simp_all add: shard_rank_def)
next
  case (start_error c sh w e)
  then show ?case by (intro lock_measure_work [of _ _ sh] shard_rank_worker [of w]) (auto simp: shard_rank_def)
next
  case (finish c sh w r full store' results' completion)
  then show ?case by (intro lock_measure_work [of _ _ sh] shard_rank_worker [of w]) (auto simp: shard_rank_def)
next
  case (finish_error c sh w r e)
  then show ?case by (intro lock_measure_work [of _ _ sh] shard_rank_worker [of w]) (auto simp: shard_rank_def)
next
  case (handle c sh w outcome table' gs acc')
  then show ?case by (intro lock_measure_work [of _ _ sh] shard_rank_worker [of w]) (auto simp: shard_rank_def)
qed

lemma lock_runs_finite: "wfP (\<lambda>c' c. lock_step X P c c')"
  by (rule wfp_if_convertible_to_nat [of _ "lock_measure P"]) (rule lock_step_decreases)

section \<open>Progress\<close>

lemma lock_inv_reachable:
  assumes S: "lock_setting K (x_phase X) B sp" and s0: "stores_hold (lb_layout B) stores (lb_state B)"
    and "(lock_step X (params_for_batch B sp))\<^sup>*\<^sup>* (lock_initial sp stores) c"
  shows "lock_inv K (x_phase X) B sp c"
  using assms(3)
proof (induction rule: rtranclp_induct)
  case base
  show ?case by (rule lock_initial_inv [OF S s0])
next
  case (step c c')
  show ?case by (rule lock_step_inv [OF step(2,3) S])
qed

text \<open>The first transaction that is not over somewhere: it holds its locks wherever it is not over.\<close>

lemma first_unfinished:
  assumes S: "lock_setting K (x_phase X) B sp" and inv: "lock_inv K (x_phase X) B sp c"
    and nf: "\<not> lock_finished (params_for_batch B sp) c"
  obtains g sh where "g < lb_size B" "involved K B sh g" "\<not> handled_at B c sh g"
    "\<forall>f. \<not> handled_at B c f g \<longrightarrow> holds B c f g"
proof -
  let ?open = "\<lambda>g. g < lb_size B \<and> (\<exists>sh. involved K B sh g \<and> \<not> handled_at B c sh g)"
  have "\<exists>g. ?open g"
  proof (rule ccontr)
    assume none: "\<nexists>g. ?open g"
    have "ls_handled c sh = lw_id ` set (sp_jobs (sp sh))" for sh
    proof -
      have "ls_handled c sh \<subseteq> nth_id B ` {g. g < lb_size B \<and> involved K B sh g}"
        using lock_invD(4) [OF inv, of sh] by (simp add: book_inv_def)
      moreover have "handled_at B c sh g" if "g < lb_size B" "involved K B sh g" for g using none that by blast
      ultimately show ?thesis unfolding lock_jobs_ids [OF S, of sh] by auto
    qed
    then show False using nf lock_invD(1) [OF inv] by (simp add: lock_finished_def)
  qed
  then obtain g where g: "?open g" "\<And>h. h < g \<Longrightarrow> \<not> ?open h"
    using exists_least_iff [of ?open] by blast
  then have gB: "g < lb_size B" by blast
  have before: "handled_at B c sh h" if "h < g" "involved K B sh h" for sh h
    using g(2) [OF that(1)] that gB by auto
  have hold: "\<forall>f. \<not> handled_at B c f g \<longrightarrow> holds B c f g"
    unfolding holds_def holder_iff [OF S lock_invD(2) [OF inv] gB]
    using before lkeys_involved by blast
  from g(1) obtain sh where "involved K B sh g" "\<not> handled_at B c sh g" by blast
  from that [OF gB this hold] show thesis .
qed

text \<open>What it can do: start, receive what it waits for, finish, be booked.\<close>

lemma waiting_can_start:
  assumes S: "lock_setting K (x_phase X) B sp" and inv: "lock_inv K (x_phase X) B sp c"
    and g: "g < lb_size B" "involved K B f g" and st: "ls_state c f (nth_id B g) = LockWait"
    and hold: "\<not> handled_at B c f g \<Longrightarrow> holds B c f g"
  shows "\<exists>c'. lock_step X (params_for_batch B sp) c c'"
proof -
  note failed = lock_invD(1) [OF inv]
  obtain w where w: "w \<in> set (sp_jobs (sp f))" "is_job K (lb_layout B) f (nth_tx B g) w" "lw_id w = nth_id B g"
    by (rule worker_of_job [OF S g])
  have nh: "\<not> handled_at B c f g" using lock_invD(5) [OF inv g] st by (simp add: worker_inv_def)
  have wait: "x_wait X (lw_lock_keys w) (ls_grants c f (lw_id w)) = Ok (Some ())"
    using wait_at [OF S inv g w(2) st] hold [OF nh] by simp
  obtain ms where ms: "x_start X (ctx_of (params_for_batch B sp) f) w (ls_store c f) =
      Ok (ms, if f \<in> executors K B g then Some (reads_of (serial B g) (rkeys B f g)) else None)"
    by (rule start_at [OF S inv g w(2) st hold [OF nh]])
  show ?thesis
    using lock_step.start_active [OF failed _ _ wait, of "params_for_batch B sp"]
      lock_step.start_passive [OF failed _ _ wait, of "params_for_batch B sp"] ms w st
    by (cases "f \<in> executors K B g") (simp_all, blast+)
qed

lemma sent_can_arrive:
  assumes S: "lock_setting K (x_phase X) B sp" and inv: "lock_inv K (x_phase X) B sp c" and m: "(t, m) \<in># ls_net c"
  shows "\<exists>c'. lock_step X (params_for_batch B sp) c c'"
proof -
  have "fst (route m (ls_mail c t)) = Ok ()" using in_transit_open [OF S lock_invD(6) [OF inv] m] by (simp add: route_result)
  then obtain mail' where "route m (ls_mail c t) = (Ok (), mail')" by (metis prod.collapse)
  then show ?thesis using lock_step.deliver [OF m] by blast
qed

lemma collecting_can_go_on:
  assumes S: "lock_setting K (x_phase X) B sp" and inv: "lock_inv K (x_phase X) B sp c"
    and g: "g < lb_size B" "involved K B sh g" and st: "ls_state c sh (nth_id B g) = ReadCollect r"
    and started: "\<nexists>f. involved K B f g \<and> ls_state c f (nth_id B g) = LockWait"
  shows "\<exists>c'. lock_step X (params_for_batch B sp) c c'"
proof -
  obtain w where w: "w \<in> set (sp_jobs (sp sh))" "is_job K (lb_layout B) sh (nth_tx B g) w" "lw_id w = nth_id B g"
    by (rule worker_of_job [OF S g])
  have e: "sh \<in> executors K B g" using lock_invD(5) [OF inv g] st by (simp add: worker_inv_def)
  show ?thesis
  proof (cases "\<forall>f \<in> read_sources B g - {sh}. lmsg (x_phase X) B f g \<in> set (inbox (ls_mail c sh) (key_at (x_phase X) B g))")
    case True
    then have co: "x_collect X (ctx_of (params_for_batch B sp) sh) w r
        (inbox (ls_mail c sh) (mail_key X (params_for_batch B sp) (lw_id w))) =
        Ok (Some (reads_of (serial B g) (read_set (nth_tx B g))))"
      using collect_at_lock [OF S inv g(1) w(2) st g(2)] w(3) by simp
    show ?thesis
      by (rule exI, rule lock_step.finish [OF lock_invD(1) [OF inv] _ _ co finish_at [OF S g(1) w(2) e]]) (use w st in simp_all)
  next
    case False
    then obtain f where f: "f \<in> read_sources B g" "f \<noteq> sh"
      "lmsg (x_phase X) B f g \<notin> set (inbox (ls_mail c sh) (key_at (x_phase X) B g))" by blast
    have "involved K B f g" using f(1) by (simp add: involved_def)
    then have "msg_due K B c sh f g" using f g(1) e started by (auto simp: msg_due_def)
    then have "msg_copies c sh (lmsg (x_phase X) B f g) = 1" using exchange_invD(1) [OF lock_invD(6) [OF inv] g(1)] by simp
    then have "0 < count (ls_net c) (sh, lmsg (x_phase X) B f g)" using f(3) by (simp add: msg_copies_def)
    then show ?thesis using sent_can_arrive [OF S inv] by simp
  qed
qed

lemma done_can_be_handled:
  assumes S: "lock_setting K (x_phase X) B sp" and inv: "lock_inv K (x_phase X) B sp c"
    and g: "g < lb_size B" "involved K B sh g" and st: "ls_state c sh (nth_id B g) = LockDone outcome" "\<not> handled_at B c sh g"
  shows "\<exists>c'. lock_step X (params_for_batch B sp) c c'"
proof -
  obtain w where w: "w \<in> set (sp_jobs (sp sh))" "is_job K (lb_layout B) sh (nth_tx B g) w" "lw_id w = nth_id B g"
    by (rule worker_of_job [OF S g])
  obtain table' gs results where
    "handle_outcome X {t. \<not> is_lock_done (ls_state c sh t)} w outcome (ls_locks c sh) (ls_accounts c sh) =
      Ok (table', gs, fst (ls_accounts c sh) @ completion_records (completion_of K B sh g), results)"
    by (rule handle_at [OF S inv g w(2) st])
  note lock_step.handle [OF lock_invD(1) [OF inv] _ _ _ this, of "params_for_batch B sp"]
  then show ?thesis using w st by (metis params_for_batch_simps(2))
qed

lemma lock_progress:
  assumes S: "lock_setting K (x_phase X) B sp" and inv: "lock_inv K (x_phase X) B sp c"
    and nf: "\<not> lock_finished (params_for_batch B sp) c"
  shows "\<exists>c'. lock_step X (params_for_batch B sp) c c'"
proof -
  obtain g sh where g: "g < lb_size B" "involved K B sh g" "\<not> handled_at B c sh g"
    "\<forall>f. \<not> handled_at B c f g \<longrightarrow> holds B c f g" by (rule first_unfinished [OF assms])
  show ?thesis
  proof (cases "\<exists>f. involved K B f g \<and> ls_state c f (nth_id B g) = LockWait")
    case True
    then show ?thesis using waiting_can_start [OF S inv g(1)] g(4) by blast
  next
    case False
    then have "ls_state c sh (nth_id B g) \<noteq> LockWait" using g(2) by blast
    then show ?thesis
      using collecting_can_go_on [OF S inv g(1,2) _ False] done_can_be_handled [OF S inv g(1,2) _ g(3)]
      by (cases "ls_state c sh (nth_id B g)") auto
  qed
qed

text \<open>Every reachable state leads to a finished one.\<close>

lemma lock_can_finish:
  assumes S: "lock_setting K (x_phase X) B sp" and s0: "stores_hold (lb_layout B) stores (lb_state B)"
    and r: "(lock_step X (params_for_batch B sp))\<^sup>*\<^sup>* (lock_initial sp stores) c"
  shows "\<exists>c'. (lock_step X (params_for_batch B sp))\<^sup>*\<^sup>* c c' \<and> lock_finished (params_for_batch B sp) c'"
  using r
proof (induction c rule: wfp_induct_rule [OF lock_runs_finite [of "params_for_batch B sp"]])
  case (1 c)
  show ?case
  proof (cases "lock_finished (params_for_batch B sp) c")
    case False
    obtain c' where c': "lock_step X (params_for_batch B sp) c c'"
      using lock_progress [OF S lock_inv_reachable [OF S s0 1(2)] False] by blast
    then obtain c'' where "(lock_step X (params_for_batch B sp))\<^sup>*\<^sup>* c' c''" "lock_finished (params_for_batch B sp) c''"
      using 1(1) [of c'] 1(2) by (meson rtranclp.rtrancl_into_rtrancl)
    then show ?thesis using c' by (meson converse_rtranclp_into_rtranclp)
  qed blast
qed

end

end
