(* ===== verification/LockSpawn.thy ===== *)
theory LockSpawn
  imports LockProgress
begin

text \<open>
  The prologue that both lock-based executors of \<open>src/engine.rs\<close> run on a batch: the order check,
  then a loop that queues the locks of a transaction, takes its mailbox and spawns its worker. The
  locale \<open>lock_spawner\<close> says what one round of the loop does; from it follows that the prologue
  accepts well-formed batches and that all shards together have the setting in which the
  lock-based system is serial.
\<close>

section \<open>The order check\<close>

text \<open>\<open>check_batch_order\<close> is the loop of \<open>validate_batch_order\<close> from an index and the ids seen so far.\<close>

fun check_batch_order :: "nat \<Rightarrow> tx_id set \<Rightarrow> ordered_tx list \<Rightarrow> unit result" where
  "check_batch_order index seen [] = Ok ()"
| "check_batch_order index seen (tx # rest) =
     (if unat (batch_index tx) \<noteq> index then Err (InvalidBatch ''tx has unexpected batch_index'')
      else if tx_id tx \<in> seen then Err (InvalidBatch ''duplicate tx_id in batch'')
      else check_batch_order (Suc index) (insert (tx_id tx) seen) rest)"

definition validate_batch_order :: "batch \<Rightarrow> unit result" where
  "validate_batch_order b = check_batch_order 0 {} (txs b)"

text \<open>The loop of the order check.\<close>

lemma check_batch_order_Ok:
  "check_batch_order n seen ts = Ok () \<longleftrightarrow>
     (\<forall>i < length ts. unat (batch_index (ts ! i)) = n + i) \<and> distinct (map tx_id ts) \<and>
     seen \<inter> tx_id ` set ts = {}"
proof (induction ts arbitrary: n seen)
  case (Cons t ts)
  have "(\<forall>i < length (t # ts). unat (batch_index ((t # ts) ! i)) = n + i) \<longleftrightarrow>
      unat (batch_index t) = n \<and> (\<forall>i < length ts. unat (batch_index (ts ! i)) = Suc n + i)"
    by (auto simp: less_Suc_eq_0_disj)
  then show ?case using Cons [of "Suc n" "insert (tx_id t) seen"] by auto
qed simp

lemma validate_batch_order_Ok:
  "validate_batch_order b = Ok () \<longleftrightarrow>
     (\<forall>i < length (txs b). unat (batch_index (txs b ! i)) = i) \<and> distinct (map tx_id (txs b))"
  by (simp add: validate_batch_order_def check_batch_order_Ok)

text \<open>The common prologue, with the round of the loop as an argument.\<close>

definition lock_prologue ::
    "(shard_layout \<Rightarrow> shard_id \<Rightarrow> batch_id \<Rightarrow> ordered_tx \<Rightarrow> spawned \<Rightarrow> spawned result)
      \<Rightarrow> shard_layout \<Rightarrow> shard_id \<Rightarrow> batch \<Rightarrow> mailbox_registry \<Rightarrow> tx_result_registry \<Rightarrow> spawned result" where
  "lock_prologue spawn L sh b mail results =
     rbind (validate_batch_order b) (\<lambda>_.
     fold_res (spawn L sh (batch_id b)) (txs b)
       \<lparr>sp_jobs = [], sp_table = lock_table_new, sp_mail = mail, sp_results = results\<rparr>)"

section \<open>Fresh mailboxes and indices\<close>

definition fresh_mailboxes :: "batch_id \<Rightarrow> read_phase \<Rightarrow> mailbox_registry \<Rightarrow> bool" where
  "fresh_mailboxes bid ph mail \<longleftrightarrow> (\<forall>i. inbox mail (bid, i, ph) = [] \<and>
     open_mailbox mail (bid, i, ph) \<and> \<not> taken_mailbox mail (bid, i, ph))"

definition unindexed :: "ordered_tx \<Rightarrow> ordered_tx" where
  "unindexed t = t\<lparr>batch_index := 0\<rparr>"

lemma fresh_mailboxes_new: "fresh_mailboxes bid ph mailbox_registry_new"
  by (simp add: fresh_mailboxes_def)


lemma unindexed_simps [simp]:
  "tx_id (unindexed t) = tx_id t" "op (unindexed t) = op t" "read_set (unindexed t) = read_set t"
  "write_set (unindexed t) = write_set t" "local_lock_keys L (unindexed t) sh = local_lock_keys L t sh"
  "local_read_keys L (unindexed t) sh = local_read_keys L t sh"
  "local_write_keys L (unindexed t) sh = local_write_keys L t sh"
  "participants_of L (unindexed t) = participants_of L t" "result_shard L (unindexed t) = result_shard L t"
  by (simp_all add: unindexed_def local_keys_defs participants_of_def result_shard_def)

lemma unindexed_eq:
  assumes "unindexed t = unindexed u"
  shows "tx_id t = tx_id u" "op t = op u" "read_set t = read_set u" "write_set t = write_set u"
    "\<exists>j. t = u\<lparr>batch_index := j\<rparr>" "participants_of L t = participants_of L u"
proof -
  show "tx_id t = tx_id u" using arg_cong [where f = tx_id, OF assms] by simp
  show "op t = op u" using arg_cong [where f = op, OF assms] by simp
  show "read_set t = read_set u" using arg_cong [where f = read_set, OF assms] by simp
  show "write_set t = write_set u" using arg_cong [where f = write_set, OF assms] by simp
  show "participants_of L t = participants_of L u" using arg_cong [where f = "participants_of L", OF assms] by simp
  show "\<exists>j. t = u\<lparr>batch_index := j\<rparr>"
    using assms by (intro exI [of _ "batch_index t"]) (cases t; cases u; simp add: unindexed_def)
qed

text \<open>What depends on the keys and the id only is the same in both lists.\<close>

lemma filter_unindexed:
  assumes "map unindexed (filter Q xs) = map unindexed (filter Q ys)"
    and "\<And>t. Q' (unindexed t) = Q' t" "\<And>t. Q' t \<Longrightarrow> Q t"
  shows "map tx_id (filter Q' xs) = map tx_id (filter Q' ys)"
proof -
  have "filter Q' zs = filter Q' (filter Q zs)" for zs using assms(3) by (auto intro: filter_cong)
  then have eq: "map tx_id (filter Q' zs) = map tx_id (filter Q' (map unindexed (filter Q zs)))" for zs
    by (simp add: filter_map comp_def assms(2))
  show ?thesis by (simp only: eq [of xs] eq [of ys] assms(1))
qed

lemma validate_sets_finite:
  assumes "validate_sets tx = Ok ()"
  shows "finite (read_set tx)" "finite (write_set tx)" "read_set tx \<noteq> {}" "result_shard L tx \<noteq> None"
proof -
  have d: "derive_read_write_set (op tx) = Ok (read_set tx, write_set tx)" using assms by (simp add: validate_sets_Ok_iff)
  show "finite (read_set tx)" "finite (write_set tx)" "read_set tx \<noteq> {}" using derive_sets [OF d] by auto
  then have "result_shard L tx = Some (Min (p_active (participants_of L tx)))" by (intro result_shard_Min) auto
  then show "result_shard L tx \<noteq> None" by simp
qed

section \<open>The contract of the spawning loop\<close>

text \<open>
  A batch per shard, such that the transactions a shard takes part in are, up to their index, those
  of one common list in its order.
\<close>

definition spawn_setting ::
    "(shard_layout \<Rightarrow> shard_id \<Rightarrow> batch_id \<Rightarrow> ordered_tx \<Rightarrow> spawned \<Rightarrow> spawned result) \<Rightarrow> lock_kind \<Rightarrow> read_phase
      \<Rightarrow> lock_batch \<Rightarrow> (shard_id \<Rightarrow> batch) \<Rightarrow> (shard_id \<Rightarrow> spawned) \<Rightarrow> bool" where
  "spawn_setting spawn K ph B batches sp \<longleftrightarrow>
     distinct (map tx_id (lb_txs B)) \<and>
     (\<forall>t \<in> set (lb_txs B). valid_tx t \<and> lk_active K (lb_layout B) t \<subseteq> lb_peers B) \<and>
     (\<forall>sh. \<exists>mail results. fresh_mailboxes (lb_id B) ph mail \<and>
        lock_prologue spawn (lb_layout B) sh (batches sh) mail results = Ok (sp sh) \<and>
        (\<forall>t \<in> set (txs (batches sh)). validate_sets t = Ok ()) \<and>
        batch_id (batches sh) = lb_id B \<and>
        map unindexed (filter (takes_part K (lb_layout B) sh) (txs (batches sh))) =
        map unindexed (filter (takes_part K (lb_layout B) sh) (lb_txs B)))"

locale lock_spawner =
  fixes spawn :: "shard_layout \<Rightarrow> shard_id \<Rightarrow> batch_id \<Rightarrow> ordered_tx \<Rightarrow> spawned \<Rightarrow> spawned result"
    and K :: lock_kind and ph :: read_phase
    and job :: "shard_layout \<Rightarrow> shard_id \<Rightarrow> ordered_tx \<Rightarrow> lock_worker"
  assumes job_law: "valid_tx t \<Longrightarrow> unindexed t = unindexed u \<Longrightarrow> is_job K L sh t (job L sh u)"
    and active_index: "lk_active K L (unindexed t) = lk_active K L t"
    and spawn_law: "validate_sets t = Ok () \<Longrightarrow>
      (sh \<in> lk_active K L t \<Longrightarrow> \<not> taken_mailbox (sp_mail sp) (bid, tx_id t, ph)) \<Longrightarrow>
      \<exists>sp'. spawn L sh bid t sp = Ok sp' \<and>
        sp_jobs sp' = sp_jobs sp @ (if takes_part K L sh t then [job L sh t] else []) \<and>
        (\<forall>k. queue_of (sp_table sp') k =
          queue_of (sp_table sp) k @ (if k \<in> local_lock_keys L t sh then [tx_id t] else [])) \<and>
        (finite (dom (sp_table sp)) \<longrightarrow> finite (dom (sp_table sp'))) \<and>
        inbox (sp_mail sp') = inbox (sp_mail sp) \<and> open_mailbox (sp_mail sp') = open_mailbox (sp_mail sp) \<and>
        (\<forall>q. taken_mailbox (sp_mail sp') q \<longleftrightarrow>
          taken_mailbox (sp_mail sp) q \<or> sh \<in> lk_active K L t \<and> q = (bid, tx_id t, ph))"

context lock_spawner
begin

lemma spawn_all:
  assumes "\<forall>t \<in> set ts. validate_sets t = Ok ()" "distinct (map tx_id ts)"
    and "\<forall>t \<in> set ts. \<not> taken_mailbox (sp_mail sp) (bid, tx_id t, ph)" "finite (dom (sp_table sp))"
  shows "\<exists>sp'. fold_res (spawn L sh bid) ts sp = Ok sp' \<and>
    sp_jobs sp' = sp_jobs sp @ map (job L sh) (filter (takes_part K L sh) ts) \<and>
    (\<forall>k. queue_of (sp_table sp') k =
      queue_of (sp_table sp) k @ map tx_id (filter (\<lambda>t. k \<in> local_lock_keys L t sh) ts)) \<and>
    finite (dom (sp_table sp')) \<and>
    inbox (sp_mail sp') = inbox (sp_mail sp) \<and> open_mailbox (sp_mail sp') = open_mailbox (sp_mail sp) \<and>
    (\<forall>q. taken_mailbox (sp_mail sp') q \<longleftrightarrow>
      taken_mailbox (sp_mail sp) q \<or> (\<exists>t \<in> set ts. sh \<in> lk_active K L t \<and> q = (bid, tx_id t, ph)))"
  using assms
proof (induction ts arbitrary: sp)
  case (Cons t ts)
  obtain sp1 where sp1: "spawn L sh bid t sp = Ok sp1"
    "sp_jobs sp1 = sp_jobs sp @ (if takes_part K L sh t then [job L sh t] else [])"
    "\<And>k. queue_of (sp_table sp1) k = queue_of (sp_table sp) k @ (if k \<in> local_lock_keys L t sh then [tx_id t] else [])"
    "finite (dom (sp_table sp1))" "inbox (sp_mail sp1) = inbox (sp_mail sp)"
    "open_mailbox (sp_mail sp1) = open_mailbox (sp_mail sp)"
    "\<And>q. taken_mailbox (sp_mail sp1) q \<longleftrightarrow>
      taken_mailbox (sp_mail sp) q \<or> sh \<in> lk_active K L t \<and> q = (bid, tx_id t, ph)"
    using spawn_law [of t sh L sp bid] Cons.prems by auto
  have "\<forall>t \<in> set ts. \<not> taken_mailbox (sp_mail sp1) (bid, tx_id t, ph)"
    using Cons.prems by (simp add: sp1(7)) (metis imageI)
  from Cons.IH [of sp1, OF _ _ this sp1(4)] Cons.prems obtain sp' where sp': "fold_res (spawn L sh bid) ts sp1 = Ok sp'"
    "sp_jobs sp' = sp_jobs sp1 @ map (job L sh) (filter (takes_part K L sh) ts)"
    "\<And>k. queue_of (sp_table sp') k = queue_of (sp_table sp1) k @ map tx_id (filter (\<lambda>t. k \<in> local_lock_keys L t sh) ts)"
    "finite (dom (sp_table sp'))" "inbox (sp_mail sp') = inbox (sp_mail sp1)"
    "open_mailbox (sp_mail sp') = open_mailbox (sp_mail sp1)"
    "\<And>q. taken_mailbox (sp_mail sp') q \<longleftrightarrow> taken_mailbox (sp_mail sp1) q \<or>
      (\<exists>t \<in> set ts. sh \<in> lk_active K L t \<and> q = (bid, tx_id t, ph))"
    by auto
  show ?case
    by (rule exI [of _ sp']) (use sp1 sp' in auto)
qed auto

text \<open>What the prologue leaves behind, and when it accepts.\<close>

lemma prologue_outcome:
  assumes "validate_batch_order b = Ok ()" "\<forall>t \<in> set (txs b). validate_sets t = Ok ()"
    and "fresh_mailboxes (batch_id b) ph mail"
  shows "\<exists>sp. lock_prologue spawn L sh b mail results = Ok sp \<and>
    sp_jobs sp = map (job L sh) (filter (takes_part K L sh) (txs b)) \<and>
    (\<forall>k. queue_of (sp_table sp) k = map tx_id (filter (\<lambda>t. k \<in> local_lock_keys L t sh) (txs b))) \<and>
    finite (dom (sp_table sp)) \<and> inbox (sp_mail sp) = inbox mail \<and> open_mailbox (sp_mail sp) = open_mailbox mail \<and>
    (\<forall>q. taken_mailbox (sp_mail sp) q \<longleftrightarrow> taken_mailbox mail q \<or>
      (\<exists>t \<in> set (txs b). sh \<in> lk_active K L t \<and> q = (batch_id b, tx_id t, ph)))"
proof -
  let ?sp0 = "\<lparr>sp_jobs = [], sp_table = lock_table_new, sp_mail = mail, sp_results = results\<rparr>"
  have "\<forall>t \<in> set (txs b). \<not> taken_mailbox (sp_mail ?sp0) (batch_id b, tx_id t, ph)"
    using assms(3) by (simp add: fresh_mailboxes_def)
  moreover have "finite (dom (sp_table ?sp0))" by (simp add: lock_table_new_def)
  moreover have "distinct (map tx_id (txs b))" using assms(1) by (simp add: validate_batch_order_Ok)
  ultimately show ?thesis
    using spawn_all [of "txs b" ?sp0 "batch_id b" L sh, OF assms(2)]
    unfolding lock_prologue_def assms(1) rbind.simps by simp
qed

lemma prologue_accepts:
  assumes "validate_batch_order b = Ok ()" "\<forall>t \<in> set (txs b). validate_sets t = Ok ()"
    and "fresh_mailboxes (batch_id b) ph mail"
  shows "\<exists>sp. lock_prologue spawn L sh b mail results = Ok sp"
  using prologue_outcome [OF assms] by blast

lemma takes_part_index [simp]: "takes_part K L sh (unindexed t) = takes_part K L sh t"
  by (simp add: takes_part_def active_index)

lemma setting:
  assumes C: "spawn_setting spawn K ph B batches sp"
  shows "lock_setting K ph B sp"
  unfolding lock_setting_def
proof (intro conjI ballI allI)
  let ?L = "lb_layout B"
  note c = C [unfolded spawn_setting_def]
  have v: "valid_tx t" if "t \<in> set (lb_txs B)" for t using c that by blast
  show "distinct (map tx_id (lb_txs B))" using c by blast
  show "valid_tx t" "lk_active K ?L t \<subseteq> lb_peers B" if "t \<in> set (lb_txs B)" for t
    using c that by auto
  fix sh
  let ?Q = "takes_part K ?L sh"
  obtain mail results where m: "fresh_mailboxes (lb_id B) ph mail"
    "lock_prologue spawn ?L sh (batches sh) mail results = Ok (sp sh)" "batch_id (batches sh) = lb_id B"
    "map unindexed (filter ?Q (txs (batches sh))) = map unindexed (filter ?Q (lb_txs B))"
    "\<forall>t \<in> set (txs (batches sh)). validate_sets t = Ok ()" using c by blast
  have o: "validate_batch_order (batches sh) = Ok ()" using m(2) by (auto simp: lock_prologue_def res_simps)
  have p: "sp_jobs (sp sh) = map (job ?L sh) (filter ?Q (txs (batches sh)))"
    "queue_of (sp_table (sp sh)) k = map tx_id (filter (\<lambda>t. k \<in> local_lock_keys ?L t sh) (txs (batches sh)))"
    "finite (dom (sp_table (sp sh)))" "inbox (sp_mail (sp sh)) = inbox mail" "open_mailbox (sp_mail (sp sh)) = open_mailbox mail"
    "taken_mailbox (sp_mail (sp sh)) q \<longleftrightarrow> taken_mailbox mail q \<or>
      (\<exists>t \<in> set (txs (batches sh)). sh \<in> lk_active K ?L t \<and> q = (lb_id B, tx_id t, ph))" for k q
    using prologue_outcome [OF o m(5) m(1) [folded m(3)], of ?L sh results] unfolding m(2,3)
    by (simp_all del: split_paired_All)
  have common: "(\<exists>u \<in> set (filter ?Q (txs (batches sh))). unindexed u = x) \<longleftrightarrow>
      (\<exists>u \<in> set (filter ?Q (lb_txs B)). unindexed u = x)" for x
    using arg_cong [where f = "\<lambda>xs. x \<in> set xs", OF m(4)] by auto
  show "list_all2 (is_job K ?L sh) (filter ?Q (lb_txs B)) (sp_jobs (sp sh))"
  proof -
    have len: "length (filter ?Q (txs (batches sh))) = length (filter ?Q (lb_txs B))"
      using arg_cong [where f = length, OF m(4)] by simp
    have "unindexed (filter ?Q (lb_txs B) ! i) = unindexed (filter ?Q (txs (batches sh)) ! i)"
      "valid_tx (filter ?Q (lb_txs B) ! i)"
      if "i < length (filter ?Q (lb_txs B))" for i
      using arg_cong [where f = "\<lambda>xs. xs ! i", OF m(4)] that len v nth_mem [OF that] by auto
    then show ?thesis unfolding p(1) using len by (simp add: list_all2_conv_all_nth job_law)
  qed
  show "finite (dom (sp_table (sp sh)))" by (rule p(3))
  show "queue_of (sp_table (sp sh)) k = map tx_id (filter (\<lambda>t. k \<in> local_lock_keys ?L t sh) (lb_txs B))" for k
    unfolding p(2) using local_lock_keys_participant
    by (intro filter_unindexed [OF m(4)]) (auto simp: takes_part_def)
  fix t assume t: "t \<in> set (lb_txs B)"
  show "inbox (sp_mail (sp sh)) (lb_id B, tx_id t, ph) = []" "open_mailbox (sp_mail (sp sh)) (lb_id B, tx_id t, ph)"
    using m(1) unfolding p(4,5) by (simp_all add: fresh_mailboxes_def)
  have "(\<exists>u \<in> set (txs (batches sh)). sh \<in> lk_active K ?L u \<and> tx_id t = tx_id u) \<longleftrightarrow> sh \<in> lk_active K ?L t"
  proof
    assume "\<exists>u \<in> set (txs (batches sh)). sh \<in> lk_active K ?L u \<and> tx_id t = tx_id u"
    then obtain u where u: "u \<in> set (txs (batches sh))" "sh \<in> lk_active K ?L u" "tx_id t = tx_id u" by blast
    then have "u \<in> set (filter ?Q (txs (batches sh)))" by (simp add: takes_part_def)
    then obtain t' where t': "t' \<in> set (lb_txs B)" "unindexed t' = unindexed u"
      using common [of "unindexed u"] by auto
    then have "tx_id t' = tx_id t" using unindexed_eq(1) [OF t'(2)] u(3) by simp
    then have "t' = t" using c t t'(1) by (auto simp: distinct_map inj_on_def)
    then have "lk_active K ?L u = lk_active K ?L t"
      using t'(2) active_index by metis
    then show "sh \<in> lk_active K ?L t" using u(2) by simp
  next
    assume a: "sh \<in> lk_active K ?L t"
    then have "t \<in> set (filter ?Q (lb_txs B))" using t by (simp add: takes_part_def)
    then obtain u where u: "u \<in> set (txs (batches sh))" "unindexed u = unindexed t"
      using common [of "unindexed t"] by auto
    then have "lk_active K ?L u = lk_active K ?L t"
      using u(2) active_index by metis
    then show "\<exists>u \<in> set (txs (batches sh)). sh \<in> lk_active K ?L u \<and> tx_id t = tx_id u"
      using a u unindexed_eq(1) [OF u(2)] by (intro bexI [of _ u]) auto
  qed
  then show "taken_mailbox (sp_mail (sp sh)) (lb_id B, tx_id t, ph) = (sh \<in> lk_active K ?L t)"
    unfolding p(6) using m(1) by (auto simp: fresh_mailboxes_def)
qed

end

end
