(* ===== verification/Calvin.thy ===== *)
theory Calvin
  imports LockSpawn
begin

text \<open>
  The locking scheduler, \<open>execute_calvin_batch\<close> and \<open>TxWorker\<close> of \<open>src/engine.rs\<close>: the checks and
  the spawning loop of the batch, and the parts of the worker as functions. They satisfy the
  contract \<open>lock_executor\<close>, so every batch runs to its end on all shards and has the effect and the
  results of the serial execution of its transactions. Timing profiles are left out.
\<close>

section \<open>The prologue of the batch\<close>

definition announce_result :: "shard_id \<Rightarrow> shard_id \<Rightarrow> tx_id \<Rightarrow> tx_result_registry \<Rightarrow> tx_result_registry" where
  "announce_result rs sh tx results =
     (if rs = sh then ensure_pending tx results else mark_not_responsible tx results)"

definition calvin_spawn :: "shard_layout \<Rightarrow> shard_id \<Rightarrow> batch_id \<Rightarrow> ordered_tx \<Rightarrow> spawned \<Rightarrow> spawned result" where
  "calvin_spawn L sh bid tx sp =
     rbind (validate_sets tx) (\<lambda>_.
     case result_shard L tx of
       None \<Rightarrow> Err (InvalidBatch ''tx has no result shard'')
     | Some rs \<Rightarrow>
         (let sp = sp\<lparr>sp_results := announce_result rs sh (tx_id tx) (sp_results sp)\<rparr>;
              local_keys = local_lock_keys L tx sh
          in if local_keys = {} then Ok sp
             else
               (let table = enqueue (tx_id tx) local_keys (sp_table sp);
                    parts = participants_of L tx;
                    (taken, mail) =
                      (if sh \<in> p_active parts
                       then receiver bid (tx_id tx) Calvin (max (card (p_all parts)) 1) (sp_mail sp)
                       else (Ok (), sp_mail sp))
                in rbind taken (\<lambda>_. Ok (sp\<lparr>sp_table := table, sp_mail := mail,
                     sp_jobs := sp_jobs sp @ [\<lparr>lw_tx = tx, lw_active = p_active parts, lw_sources = p_all parts,
                       lw_result_shard = rs, lw_lock_keys = local_keys,
                       lw_read_keys = local_read_keys L tx sh,
                       lw_write_keys = local_write_keys L tx sh\<rparr>]\<rparr>)))))"

definition calvin_prologue ::
    "shard_layout \<Rightarrow> shard_id \<Rightarrow> batch \<Rightarrow> mailbox_registry \<Rightarrow> tx_result_registry \<Rightarrow> spawned result" where
  "calvin_prologue L sh b mail results =
     rbind (validate_batch_order b) (\<lambda>_.
     fold_res (calvin_spawn L sh (batch_id b)) (txs b)
       \<lparr>sp_jobs = [], sp_table = lock_table_new, sp_mail = mail, sp_results = results\<rparr>)"

section \<open>The worker\<close>

fun wait_grants_loop :: "key set \<Rightarrow> key set \<Rightarrow> key list \<Rightarrow> unit option result" where
  "wait_grants_loop local_keys granted [] =
     (if card granted < card local_keys then Ok None else Ok (Some ()))"
| "wait_grants_loop local_keys granted (k # ks) =
     (if card granted < card local_keys then
        if k \<notin> local_keys then Err (LockInvariant ''unexpected lock grant'')
        else if k \<in> granted then Err (LockInvariant ''duplicate lock grant'')
        else wait_grants_loop local_keys (insert k granted) ks
      else Ok (Some ()))"

definition wait_for_lock_grants :: "key set \<Rightarrow> key list \<Rightarrow> unit option result" where
  "wait_for_lock_grants local_keys grants = wait_grants_loop local_keys {} grants"

definition send_reads_to ::
    "shard_id set \<Rightarrow> shard_ctx \<Rightarrow> read_phase \<Rightarrow> tx_id \<Rightarrow> reads \<Rightarrow> outbox result" where
  "send_reads_to targets cx phase tx local_reads =
     traverse (\<lambda>target.
       if target \<notin> cx_peers cx then Err (MissingPeer target)
       else Ok (target, \<lparr>lrr_batch_id = cx_batch_id cx, lrr_tx_id = tx, lrr_phase = phase,
              lrr_from_shard = cx_shard cx, lrr_status = StatusOk, lrr_reads = local_reads\<rparr>))
       (filter (\<lambda>target. target \<noteq> cx_shard cx) (sorted_list_of_set targets))"

definition calvin_send_local_reads :: "shard_ctx \<Rightarrow> lock_worker \<Rightarrow> reads \<Rightarrow> outbox result" where
  "calvin_send_local_reads cx w local_reads =
     send_reads_to (lw_active w) cx Calvin (lw_id w) local_reads"

definition calvin_start :: "shard_ctx \<Rightarrow> lock_worker \<Rightarrow> fs_state \<Rightarrow> (outbox \<times> reads option) result" where
  "calvin_start cx w store =
     (let local_reads = reads_of store (local_read_keys (cx_layout cx) (lw_tx w) (cx_shard cx))
      in rbind (calvin_send_local_reads cx w local_reads) (\<lambda>sent.
         Ok (sent, if cx_shard cx \<in> lw_active w then Some local_reads else None)))"

fun calvin_collect_loop ::
    "shard_ctx \<Rightarrow> ordered_tx \<Rightarrow> shard_id set \<Rightarrow> reads \<Rightarrow> shard_id set \<Rightarrow> local_read_result list
      \<Rightarrow> reads option result" where
  "calvin_collect_loop cx tx expected full_reads received [] =
     (if card received < card expected then Ok None
      else if dom full_reads \<noteq> read_set tx then Err (InvalidBatch ''full read set mismatch'')
      else Ok (Some full_reads))"
| "calvin_collect_loop cx tx expected full_reads received (msg # msgs) =
     (if card received < card expected then
        if lrr_batch_id msg \<noteq> cx_batch_id cx \<or> lrr_tx_id msg \<noteq> tx_id tx
        then Err (InvalidBatch ''remote read result routed to wrong tx'')
        else if lrr_phase msg \<noteq> Calvin
        then Err (InvalidBatch ''remote read result routed to wrong phase'')
        else if lrr_status msg \<noteq> StatusOk
        then Err (InvalidBatch ''Calvin read result has non-ok status'')
        else if lrr_from_shard msg \<notin> expected
        then Err (InvalidBatch ''unexpected read result'')
        else if lrr_from_shard msg \<in> received
        then Err (InvalidBatch ''duplicate read result'')
        else if dom (lrr_reads msg) \<noteq> local_read_keys (cx_layout cx) tx (lrr_from_shard msg)
        then Err (InvalidBatch ''read keys mismatch'')
        else if dom full_reads \<inter> dom (lrr_reads msg) \<noteq> {}
        then Err (InvalidBatch ''duplicate full read key'')
        else calvin_collect_loop cx tx expected (full_reads ++ lrr_reads msg)
               (insert (lrr_from_shard msg) received) msgs
      else if dom full_reads \<noteq> read_set tx then Err (InvalidBatch ''full read set mismatch'')
      else Ok (Some full_reads))"

definition calvin_collect_full_reads ::
    "shard_ctx \<Rightarrow> lock_worker \<Rightarrow> reads \<Rightarrow> local_read_result list \<Rightarrow> reads option result" where
  "calvin_collect_full_reads cx w local_reads msgs =
     calvin_collect_loop cx (lw_tx w) (lw_sources w - {cx_shard cx}) local_reads {} msgs"

definition calvin_validate_local_writes :: "shard_ctx \<Rightarrow> lock_worker \<Rightarrow> write_op list \<Rightarrow> unit result" where
  "calvin_validate_local_writes cx w ws =
     (let expected = local_write_keys (cx_layout cx) (lw_tx w) (cx_shard cx)
      in rbind (traverse (\<lambda>write.
           if write_key write \<notin> expected
           then Err (InvalidBatch ''tx tried to write unexpected local key'')
           else if shard_for_key (cx_layout cx) (write_key write) \<noteq> cx_shard cx
           then Err (InvalidBatch ''tx tried to write key owned by another shard'')
           else Ok ()) ws) (\<lambda>_. Ok ()))"

definition calvin_finish ::
    "shard_ctx \<Rightarrow> lock_worker \<Rightarrow> reads \<Rightarrow> fs_state \<Rightarrow> tx_result_registry
      \<Rightarrow> (fs_state \<times> tx_result_registry \<times> worker_completion) result" where
  "calvin_finish cx w full_reads store results =
     (let output = execute_deterministic (lw_tx w) full_reads;
          res = result output;
          local_writes = filter_local_writes (writes output) (cx_shard cx) (cx_layout cx)
      in rbind (calvin_validate_local_writes cx w local_writes) (\<lambda>_.
         Ok (apply_writes store local_writes,
             if lw_result_shard w = cx_shard cx then mark_ready (lw_id w) res results else results,
             Active res (Some \<lparr>rec_tx_id = lw_id w, rec_shard_id = cx_shard cx, rec_result = res\<rparr>))))"

definition calvin_handle :: "tx_id \<Rightarrow> worker_completion \<Rightarrow> accounts \<Rightarrow> accounts result" where
  "calvin_handle tx completion acc =
     (case completion of
        Active _ (Some r) \<Rightarrow> Ok (fst acc @ [r], snd acc)
      | Active _ None \<Rightarrow> Ok acc
      | Passive \<Rightarrow> Ok acc)"

definition calvin_ops :: lock_ops where
  "calvin_ops = \<lparr>x_phase = Calvin, x_wait = wait_for_lock_grants, x_start = calvin_start,
     x_collect = calvin_collect_full_reads, x_finish = calvin_finish, x_handle = calvin_handle\<rparr>"

definition calvin_kind :: lock_kind where
  "calvin_kind =
     \<lparr>lk_active = (\<lambda>L t. p_active (participants_of L t)),
      lk_result = (\<lambda>L t. the (result_shard L t)),
      lk_record = (\<lambda>L sh t r. Some \<lparr>rec_tx_id = tx_id t, rec_shard_id = sh, rec_result = r\<rparr>)\<rparr>"

section \<open>The contract\<close>

lemma wait_grants_loop:
  assumes "finite A" "distinct ks" "set ks \<subseteq> A" "granted \<subseteq> A" "granted \<inter> set ks = {}"
  shows "wait_grants_loop A granted ks = Ok (if granted \<union> set ks = A then Some () else None)"
  using assms(2-)
proof (induction ks arbitrary: granted)
  case Nil
  then show ?case using card_subset_eq [OF assms(1), of granted] psubset_card_mono [OF assms(1), of granted] by auto
next
  case (Cons k ks)
  then have "card granted < card A" using psubset_card_mono [OF assms(1), of granted] by auto
  then show ?case using Cons by auto
qed

lemma card_less_subset:
  assumes "finite E" "R \<subseteq> E" shows "card R < card E \<longleftrightarrow> R \<noteq> E"
  using assms psubset_card_mono [of E R] by auto

lemma reads_of_union: "reads_of s A ++ reads_of s B = reads_of s (A \<union> B)"
  by (auto simp: reads_of_def map_add_def fun_eq_iff split: option.split)

text \<open>Sending to the peers produces exactly one message per target.\<close>

lemma send_reads_to_Ok:
  assumes "targets \<subseteq> cx_peers cx"
  shows "\<exists>ms. send_reads_to targets cx ph tx rs = Ok ms \<and> mset ms = mset_set
    ((\<lambda>target. (target, \<lparr>lrr_batch_id = cx_batch_id cx, lrr_tx_id = tx, lrr_phase = ph,
       lrr_from_shard = cx_shard cx, lrr_status = StatusOk, lrr_reads = rs\<rparr>)) ` (targets - {cx_shard cx}))"
proof -
  let ?m = "\<lambda>target. (target, \<lparr>lrr_batch_id = cx_batch_id cx, lrr_tx_id = tx, lrr_phase = ph,
       lrr_from_shard = cx_shard cx, lrr_status = StatusOk, lrr_reads = rs\<rparr>)"
  let ?ts = "filter (\<lambda>target. target \<noteq> cx_shard cx) (sorted_list_of_set targets)"
  have "send_reads_to targets cx ph tx rs = Ok (map ?m ?ts)"
    unfolding send_reads_to_def using assms by (intro traverse_all_ok) auto
  moreover have "mset (map ?m ?ts) = mset_set (?m ` (targets - {cx_shard cx}))"
  proof -
    have "mset ?ts = mset_set (set ?ts)" by (rule mset_set_set [symmetric]) simp
    moreover have "set ?ts = targets - {cx_shard cx}" by auto
    ultimately show ?thesis by (simp add: image_mset_mset_set inj_on_def)
  qed
  ultimately show ?thesis by blast
qed

lemma send_reads_to_length:
  "send_reads_to targets cx ph tx rs = Ok ms \<Longrightarrow> length ms \<le> card (UNIV :: shard_id set)"
proof -
  assume "send_reads_to targets cx ph tx rs = Ok ms"
  then have "length ms = length (filter (\<lambda>t. t \<noteq> cx_shard cx) (sorted_list_of_set targets))"
    unfolding send_reads_to_def by (rule traverse_length)
  also have "\<dots> \<le> card targets" by (rule order_trans [OF length_filter_le]) simp
  also have "\<dots> \<le> card (UNIV :: shard_id set)" by (intro card_mono) auto
  finally show ?thesis .
qed

lemma local_read_keys_union:
  "(\<Union>f \<in> p_all (participants_of L t). local_read_keys L t f) = read_set t"
  by (auto simp: participants_of_def participants_all local_read_keys_def)

lemma calvin_collect_loop:
  fixes L t sh s bid
  defines "E \<equiv> p_all (participants_of L t) - {sh}"
    and "rd \<equiv> \<lambda>A. reads_of s (\<Union>f \<in> A. local_read_keys L t f)"
  assumes "cx_layout cx = L" "cx_batch_id cx = bid" "tx_id tx = tx_id t" "read_set tx = read_set t"
    and fin: "finite E" and cover: "(\<Union>f \<in> insert sh E. local_read_keys L t f) = read_set t"
    and "distinct fs" "set fs \<subseteq> E" "R \<subseteq> E" "R \<inter> set fs = {}"
  shows "calvin_collect_loop cx tx E (rd (insert sh R)) R (map (\<lambda>f. read_message L bid Calvin t f s) fs) =
    Ok (if R \<union> set fs = E then Some (rd (insert sh E)) else None)"
  using assms(9-)
proof (induction fs arbitrary: R)
  case Nil
  then show ?case using card_less_subset [OF fin, of R] cover assms(6) by (auto simp: rd_def)
next
  case (Cons f fs)
  have f: "f \<in> E" "f \<notin> R" using Cons.prems by auto
  then have less: "card R < card E" using card_less_subset [OF fin Cons.prems(3)] by auto
  have disj: "dom (rd (insert sh R)) \<inter> local_read_keys L t f = {}"
    using f by (auto simp: rd_def E_def local_read_keys_def)
  have add: "rd (insert sh R) ++ reads_of s (local_read_keys L t f) = rd (insert sh (insert f R))"
    unfolding rd_def reads_of_union by (rule arg_cong [where f = "reads_of _"]) auto
  have keys: "local_read_keys L tx f = local_read_keys L t f" using assms(6) by (simp add: local_read_keys_def)
  have "calvin_collect_loop cx tx E (rd (insert sh R)) R (map (\<lambda>f. read_message L bid Calvin t f s) (f # fs)) =
      calvin_collect_loop cx tx E (rd (insert sh (insert f R))) (insert f R)
        (map (\<lambda>f. read_message L bid Calvin t f s) fs)"
    using less f disj add assms(3-5) keys by simp
  also have "\<dots> = Ok (if insert f R \<union> set fs = E then Some (rd (insert sh E)) else None)"
    using Cons.prems by (intro Cons.IH) auto
  finally show ?case by simp
qed

lemma calvin_active_sub: "valid_tx t \<Longrightarrow> p_active (participants_of L t) \<subseteq> p_all (participants_of L t)"
  using participants_active_subset [OF valid_tx_sets(1)] by (simp add: participants_of_def)

lemma calvin_result:
  assumes "valid_tx t"
  shows "result_shard L t = Some (Min (p_active (participants_of L t)))"
    "Min (p_active (participants_of L t)) \<in> p_active (participants_of L t)"
proof -
  note v = valid_tx_sets [OF assms]
  show "result_shard L t = Some (Min (p_active (participants_of L t)))"
    using v by (intro result_shard_Min) auto
  have "finite (p_active (participants_of L t))" "p_active (participants_of L t) \<noteq> {}"
    using participants_active_finite [OF v(2)] participants_active_nonempty [OF v(1)] v(3)
    by (simp_all add: participants_of_def)
  then show "Min (p_active (participants_of L t)) \<in> p_active (participants_of L t)" by (rule Min_in)
qed

lemma validate_local_Ok:
  assumes "\<And>k. k \<in> write_key ` set ws \<Longrightarrow> k \<in> local_write_keys (cx_layout cx) (lw_tx w) (cx_shard cx)"
  shows "calvin_validate_local_writes cx w ws = Ok ()"
proof -
  have own: "shard_for_key (cx_layout cx) k = cx_shard cx" if "k \<in> write_key ` set ws" for k
    using assms [OF that] by (simp add: local_write_keys_def)
  show ?thesis
    unfolding calvin_validate_local_writes_def Let_def
    by (subst traverse_all_ok [where g = "\<lambda>_. ()"]) (use assms own in auto)
qed

lemma execute_other_index:
  "op tx = op t \<Longrightarrow> execute_deterministic tx rs = execute_deterministic t rs"
  by (simp add: execute_deterministic_def)

lemma local_writes_owned:
  assumes "valid_tx t" "k \<in> write_key ` set (filter_local_writes (writes (op_output (op t) s)) sh L)"
  shows "k \<in> local_write_keys L t sh"
  using assms op_output_writes [of "op t" s] by (auto simp: filter_local_writes_def local_write_keys_def valid_tx_iff)

interpretation calvin: lock_executor calvin_ops calvin_kind
proof unfold_locales
  fix t :: ordered_tx and L :: shard_layout and k
  assume v: "valid_tx t"
  show "shard_for_key L k \<in> lk_active calvin_kind L t" if "k \<in> write_set t"
    using that participants_active_writes [of "write_set t"] by (auto simp: calvin_kind_def participants_of_def)
  show "lk_result calvin_kind L t \<in> lk_active calvin_kind L t"
    using calvin_result [OF v] by (simp add: calvin_kind_def)
next
  fix A :: "key set" and ks
  assume "finite A" "distinct ks" "set ks \<subseteq> A"
  then show "x_wait calvin_ops A ks = Ok (if set ks = A then Some () else None)"
    using wait_grants_loop [of A ks "{}"] by (simp add: calvin_ops_def wait_for_lock_grants_def)
next
  fix t :: ordered_tx and L sh w ps bid s
  assume v: "valid_tx t" and part: "takes_part calvin_kind L sh t" and job: "is_job calvin_kind L sh t w" and ps: "lk_active calvin_kind L t \<subseteq> ps"
  note j = is_jobD [OF job]
  have keys: "local_read_keys L (lw_tx w) sh = local_read_keys L t sh" by (simp add: local_read_keys_def j)
  let ?cx = "\<lparr>cx_layout = L, cx_peers = ps, cx_batch_id = bid, cx_shard = sh\<rparr>"
  obtain ms where "send_reads_to (lw_active w) ?cx Calvin (tx_id t) (reads_of s (local_read_keys L t sh)) = Ok ms"
    "mset ms = mset_set ((\<lambda>target. (target, read_message L bid Calvin t sh s)) ` (lk_active calvin_kind L t - {sh}))"
    using send_reads_to_Ok [of "lw_active w" ?cx Calvin "tx_id t" "reads_of s (local_read_keys L t sh)"] ps j(3)
    by (auto simp: read_message_def)
  moreover have "sh \<in> p_all (participants_of L t)"
    using part calvin_active_sub [OF v] by (auto simp: takes_part_def calvin_kind_def)
  ultimately show "\<exists>ms. x_start calvin_ops ?cx w s =
          Ok (ms, if sh \<in> lk_active calvin_kind L t then Some (reads_of s (local_read_keys L t sh)) else None) \<and>
        mset ms = mset_set (if sh \<in> p_all (participants_of L t)
          then (\<lambda>target. (target, read_message L bid (x_phase calvin_ops) t sh s)) ` (lk_active calvin_kind L t - {sh}) else {})"
    using j keys by (auto simp: calvin_ops_def calvin_start_def calvin_send_local_reads_def)
next
  fix t :: ordered_tx and L sh w ps bid s and fs :: "shard_id list"
  assume v: "valid_tx t" and job: "is_job calvin_kind L sh t w" and act: "sh \<in> lk_active calvin_kind L t"
    and fs: "distinct fs" "set fs \<subseteq> p_all (participants_of L t) - {sh}"
  note j = is_jobD [OF job]
  let ?E = "p_all (participants_of L t) - {sh}"
  have "finite ?E" by simp
  moreover have "insert sh ?E = p_all (participants_of L t)"
    using act calvin_active_sub [OF v] by (auto simp: calvin_kind_def)
  then have "(\<Union>f \<in> insert sh ?E. local_read_keys L t f) = read_set t" by (simp only: local_read_keys_union)
  ultimately show "x_collect calvin_ops \<lparr>cx_layout = L, cx_peers = ps, cx_batch_id = bid, cx_shard = sh\<rparr> w
        (reads_of s (local_read_keys L t sh)) (map (\<lambda>f. read_message L bid (x_phase calvin_ops) t f s) fs) =
      Ok (if set fs = ?E then Some (reads_of s (read_set t)) else None)"
    using calvin_collect_loop [where cx = "\<lparr>cx_layout = L, cx_peers = ps, cx_batch_id = bid, cx_shard = sh\<rparr>"
        and L = L and t = t and sh = sh and s = s and bid = bid and tx = "lw_tx w" and fs = fs and R = "{}"] fs j
    by (simp add: calvin_ops_def calvin_collect_full_reads_def)
next
  fix t :: ordered_tx and L sh w ps bid s store reg
  assume v: "valid_tx t" and job: "is_job calvin_kind L sh t w" and act: "sh \<in> lk_active calvin_kind L t"
  note j = is_jobD [OF job]
  have ex: "execute_deterministic (lw_tx w) (reads_of s (read_set t)) = op_output (op t) s"
    using execute_deterministic_reads_of [OF v, of s] execute_other_index [OF j(4)] by simp
  have lw: "local_write_keys L (lw_tx w) sh = local_write_keys L t sh" by (simp add: local_write_keys_def j)
  have "calvin_validate_local_writes \<lparr>cx_layout = L, cx_peers = ps, cx_batch_id = bid, cx_shard = sh\<rparr> w
      (filter_local_writes (writes (op_output (op t) s)) sh L) = Ok ()"
    by (rule validate_local_Ok) (use local_writes_owned [OF v] lw in simp)
  then show "x_finish calvin_ops \<lparr>cx_layout = L, cx_peers = ps, cx_batch_id = bid, cx_shard = sh\<rparr> w
        (reads_of s (read_set t)) store reg =
      Ok (apply_writes store (filter_local_writes (writes (op_output (op t) s)) sh L),
          if lk_result calvin_kind L t = sh then mark_ready (tx_id t) (op_result (op t) s) reg else reg,
          Active (op_result (op t) s) (lk_record calvin_kind L sh t (op_result (op t) s)))"
    using j ex by (simp add: calvin_ops_def calvin_finish_def op_result_def calvin_kind_def Let_def)
next
  fix i x and acc :: accounts
  show "\<exists>results. x_handle calvin_ops i x acc = Ok (fst acc @ completion_records x, results) \<and>
        dom results \<subseteq> insert i (dom (snd acc))"
    by (cases acc; cases x) (auto simp: calvin_ops_def calvin_handle_def completion_records_def split: option.splits)
next
  show "length ms \<le> card (UNIV :: shard_id set)" if "x_start calvin_ops cx w s = Ok (ms, r)" for cx w s ms r
    using that send_reads_to_length
    by (auto simp: calvin_ops_def calvin_start_def calvin_send_local_reads_def Let_def res_simps)
qed

section \<open>The prologue\<close>

definition calvin_job :: "shard_layout \<Rightarrow> shard_id \<Rightarrow> ordered_tx \<Rightarrow> lock_worker" where
  "calvin_job L sh tx = \<lparr>lw_tx = tx, lw_active = p_active (participants_of L tx),
     lw_sources = p_all (participants_of L tx), lw_result_shard = the (result_shard L tx),
     lw_lock_keys = local_lock_keys L tx sh, lw_read_keys = local_read_keys L tx sh,
     lw_write_keys = local_write_keys L tx sh\<rparr>"

lemma calvin_takes_part:
  assumes "finite (read_set t)"
  shows "takes_part calvin_kind L sh t \<longleftrightarrow> local_lock_keys L t sh \<noteq> {}"
  using local_lock_keys_participant [of L t sh] participants_active_subset [OF assms, of L "write_set t"]
  by (auto simp: takes_part_def calvin_kind_def participants_of_def)

lemma is_job_calvin:
  assumes "unindexed t = unindexed u"
  shows "is_job calvin_kind L sh t (calvin_job L sh u)"
proof -
  obtain j where "u = t\<lparr>batch_index := j\<rparr>" using unindexed_eq(5) [OF assms [symmetric]] by blast
  then show ?thesis
    by (auto simp: is_job_def calvin_job_def calvin_kind_def participants_of_def result_shard_def local_keys_defs)
qed

lemma calvin_spawn_Ok:
  assumes "validate_sets tx = Ok ()"
    and "sh \<in> p_active (participants_of L tx) \<Longrightarrow> \<not> taken_mailbox (sp_mail sp) (bid, tx_id tx, Calvin)"
  shows "\<exists>sp'. calvin_spawn L sh bid tx sp = Ok sp' \<and>
    sp_jobs sp' = sp_jobs sp @ (if local_lock_keys L tx sh \<noteq> {} then [calvin_job L sh tx] else []) \<and>
    (\<forall>k. queue_of (sp_table sp') k =
      queue_of (sp_table sp) k @ (if k \<in> local_lock_keys L tx sh then [tx_id tx] else [])) \<and>
    (finite (dom (sp_table sp)) \<longrightarrow> finite (dom (sp_table sp'))) \<and>
    inbox (sp_mail sp') = inbox (sp_mail sp) \<and> open_mailbox (sp_mail sp') = open_mailbox (sp_mail sp) \<and>
    (\<forall>q. taken_mailbox (sp_mail sp') q \<longleftrightarrow>
      taken_mailbox (sp_mail sp) q \<or> sh \<in> p_active (participants_of L tx) \<and> q = (bid, tx_id tx, Calvin)) \<and>
    sp_results sp' = announce_result (the (result_shard L tx)) sh (tx_id tx) (sp_results sp)"
proof -
  note f = validate_sets_finite [OF assms(1)]
  obtain rs where rs: "result_shard L tx = Some rs" using f(4) by blast
  have fin: "finite (local_lock_keys L tx sh)" using f by (simp add: local_lock_keys_def)
  show ?thesis
  proof (cases "local_lock_keys L tx sh = {}")
    case True
    then have "sh \<notin> p_active (participants_of L tx)"
      using local_lock_keys_participant [of L tx sh] participants_active_subset [OF f(1), of L "write_set tx"]
      by (auto simp: participants_of_def)
    then show ?thesis using True rs assms(1) by (simp add: calvin_spawn_def Let_def)
  next
    case False
    let ?r = "receiver bid (tx_id tx) Calvin (max (card (p_all (participants_of L tx))) 1) (sp_mail sp)"
    have ok: "fst ?r = Ok ()" if "sh \<in> p_active (participants_of L tx)"
      using assms(2) [OF that] by (simp add: receiver_result)
    let ?mail = "if sh \<in> p_active (participants_of L tx) then snd ?r else sp_mail sp"
    have "calvin_spawn L sh bid tx sp = Ok (sp\<lparr>sp_results := announce_result rs sh (tx_id tx) (sp_results sp),
        sp_table := enqueue (tx_id tx) (local_lock_keys L tx sh) (sp_table sp), sp_mail := ?mail,
        sp_jobs := sp_jobs sp @ [calvin_job L sh tx]\<rparr>)"
      using False rs assms(1) ok
      by (auto simp: calvin_spawn_def calvin_job_def Let_def case_prod_beta)
    then show ?thesis
      using False rs queue_of_enqueue [OF fin] enqueue_dom [OF fin] fin
      by (auto simp: receiver_registry fun_eq_iff)
  qed
qed

interpretation calvin_loop: lock_spawner calvin_spawn calvin_kind Calvin calvin_job
proof unfold_locales
  fix t u :: ordered_tx and L sh
  show "is_job calvin_kind L sh t (calvin_job L sh u)" if "unindexed t = unindexed u" by (rule is_job_calvin [OF that])
  show "lk_active calvin_kind L (unindexed t) = lk_active calvin_kind L t" by (simp add: calvin_kind_def)
next
  fix t :: ordered_tx and sh L bid and sp :: spawned
  assume v: "validate_sets t = Ok ()"
    and m: "sh \<in> lk_active calvin_kind L t \<Longrightarrow> \<not> taken_mailbox (sp_mail sp) (bid, tx_id t, Calvin)"
  have a: "lk_active calvin_kind L t = p_active (participants_of L t)" by (simp add: calvin_kind_def)
  show "\<exists>sp'. calvin_spawn L sh bid t sp = Ok sp' \<and>
      sp_jobs sp' = sp_jobs sp @ (if takes_part calvin_kind L sh t then [calvin_job L sh t] else []) \<and>
      (\<forall>k. queue_of (sp_table sp') k = queue_of (sp_table sp) k @ (if k \<in> local_lock_keys L t sh then [tx_id t] else [])) \<and>
      (finite (dom (sp_table sp)) \<longrightarrow> finite (dom (sp_table sp'))) \<and>
      inbox (sp_mail sp') = inbox (sp_mail sp) \<and> open_mailbox (sp_mail sp') = open_mailbox (sp_mail sp) \<and>
      (\<forall>q. taken_mailbox (sp_mail sp') q \<longleftrightarrow>
        taken_mailbox (sp_mail sp) q \<or> sh \<in> lk_active calvin_kind L t \<and> q = (bid, tx_id t, Calvin))"
    using calvin_spawn_Ok [OF v, of sh L sp bid] m
    unfolding a calvin_takes_part [OF validate_sets_finite(1) [OF v]] by blast
qed

lemma calvin_prologue_lock: "calvin_prologue = lock_prologue calvin_spawn"
  by (intro ext) (simp add: calvin_prologue_def lock_prologue_def)

end
