(* ===== verification/LockLate.thy ===== *)
theory LockLate
  imports LockSpawn
begin

text \<open>
  Batches whose shards enter the locked part at different moments. A shard spawns its workers when it
  gets there; until then it is busy with what comes before (nothing, or a phase of its own scheduler),
  while the reads that others send it wait in its mailboxes. The lemmas reduce such a run to one in
  which all shards have spawned their workers at the start: what a mailbox holds does not depend on
  whether the message or its receiver comes first, and the steps of the others do not touch a shard
  that has not entered. All three schedulers of \<open>src/engine.rs\<close> run their batches this way.
\<close>

section \<open>Entering\<close>

definition no_workers :: "mailbox_registry \<Rightarrow> tx_result_registry \<Rightarrow> spawned" where
  "no_workers mail results = \<lparr>sp_jobs = [], sp_table = lock_table_new, sp_mail = mail, sp_results = results\<rparr>"

text \<open>The state of what comes before, the workers of the shards that have entered, and the locked part.\<close>

record 'c late_system =
  lt_first :: 'c
  lt_jobs :: "shard_id \<rightharpoonup> lock_worker list"
  lt_lock :: lock_system

definition late_initial ::
    "'c \<Rightarrow> (shard_id \<Rightarrow> fs_state) \<Rightarrow> (shard_id \<Rightarrow> mailbox_registry) \<Rightarrow> (shard_id \<Rightarrow> tx_result_registry) \<Rightarrow> 'c late_system" where
  "late_initial c stores mail results = \<lparr>lt_first = c, lt_jobs = Map.empty,
     lt_lock = lock_initial (\<lambda>sh. no_workers (mail sh) (results sh)) stores\<rparr>"

text \<open>The prologue has filled the lock table, taken the receivers and spawned the workers; the heads are granted.\<close>

definition enter_lock :: "shard_id \<Rightarrow> fs_state \<Rightarrow> spawned \<Rightarrow> lock_system \<Rightarrow> lock_system" where
  "enter_lock sh store sp d =
     d\<lparr>ls_store := (ls_store d)(sh := store), ls_locks := (ls_locks d)(sh := sp_table sp),
       ls_grants := (ls_grants d)(sh := \<lambda>t. case grant_initial_heads UNIV (sp_table sp) of
         Ok gs \<Rightarrow> grants_to t gs | Err _ \<Rightarrow> []),
       ls_results := (ls_results d)(sh := sp_results sp), ls_mail := (ls_mail d)(sh := sp_mail sp),
       ls_failed := (case grant_initial_heads UNIV (sp_table sp) of
         Ok _ \<Rightarrow> ls_failed d | Err e \<Rightarrow> (ls_failed d)(sh \<mapsto> e))\<rparr>"

definition late_params ::
    "shard_layout \<Rightarrow> shard_id set \<Rightarrow> batch_id \<Rightarrow> (shard_id \<rightharpoonup> lock_worker list) \<Rightarrow> lock_params" where
  "late_params L ps bid jobs = \<lparr>lp_layout = L, lp_peers = ps, lp_batch_id = bid,
     lp_jobs = (\<lambda>sh. case jobs sh of None \<Rightarrow> [] | Some js \<Rightarrow> js)\<rparr>"

text \<open>
  A step of what comes before; a shard that is ready for the locked part enters it, with the mailboxes
  it finds then, or ends its batch with the error of its prologue; a step of the locked part.
\<close>

inductive late_step ::
    "lock_ops \<Rightarrow> shard_layout \<Rightarrow> shard_id set \<Rightarrow> batch_id \<Rightarrow> ('c \<Rightarrow> 'c \<Rightarrow> bool) \<Rightarrow> ('c \<Rightarrow> shard_id \<Rightarrow> bool)
      \<Rightarrow> ('c \<Rightarrow> shard_id \<Rightarrow> mailbox_registry \<Rightarrow> (fs_state \<times> spawned) result) \<Rightarrow> 'c late_system \<Rightarrow> 'c late_system \<Rightarrow> bool"
  for X L ps bid first_step is_ready entry where
  before: "first_step (lt_first l) c \<Longrightarrow> late_step X L ps bid first_step is_ready entry l (l\<lparr>lt_first := c\<rparr>)"
| enter:
    "is_ready (lt_first l) sh \<Longrightarrow> lt_jobs l sh = None \<Longrightarrow> ls_failed (lt_lock l) sh = None \<Longrightarrow>
     entry (lt_first l) sh (ls_mail (lt_lock l) sh) = Ok (store, sp) \<Longrightarrow>
     late_step X L ps bid first_step is_ready entry l
       (l\<lparr>lt_jobs := (lt_jobs l)(sh \<mapsto> sp_jobs sp), lt_lock := enter_lock sh store sp (lt_lock l)\<rparr>)"
| enter_error:
    "is_ready (lt_first l) sh \<Longrightarrow> lt_jobs l sh = None \<Longrightarrow> ls_failed (lt_lock l) sh = None \<Longrightarrow>
     entry (lt_first l) sh (ls_mail (lt_lock l) sh) = Err e \<Longrightarrow>
     late_step X L ps bid first_step is_ready entry l
       (l\<lparr>lt_lock := (lt_lock l)\<lparr>ls_failed := (ls_failed (lt_lock l))(sh \<mapsto> e)\<rparr>\<rparr>)"
| locked:
    "lock_step X (late_params L ps bid (lt_jobs l)) (lt_lock l) d \<Longrightarrow>
     late_step X L ps bid first_step is_ready entry l (l\<lparr>lt_lock := d\<rparr>)"

text \<open>All shards that are asked have entered, and their coordinators have handled all their workers.\<close>

definition late_finished ::
    "shard_layout \<Rightarrow> shard_id set \<Rightarrow> batch_id \<Rightarrow> shard_id set \<Rightarrow> 'c late_system \<Rightarrow> bool" where
  "late_finished L ps bid asked l \<longleftrightarrow>
     dom (lt_jobs l) = asked \<and> lock_finished (late_params L ps bid (lt_jobs l)) (lt_lock l)"

text \<open>Nobody's grant channel is closed at the start.\<close>

lemma grant_initial_heads_UNIV: "\<exists>gs. grant_initial_heads UNIV table = Ok gs"
proof -
  have "grant_head UNIV k q = Ok (case q of [] \<Rightarrow> [] | tx # _ \<Rightarrow> [(tx, k)])" for k q by (rule grant_head_Ok) simp
  then show ?thesis by (simp add: grant_initial_heads_def traverse_all_ok)
qed

lemma initial_failed: "ls_failed (lock_initial sp stores) = Map.empty"
proof
  fix sh
  obtain gs where "grant_initial_heads UNIV (sp_table (sp sh)) = Ok gs" using grant_initial_heads_UNIV by blast
  then show "ls_failed (lock_initial sp stores) sh = None" by (simp add: lock_initial_def)
qed

lemma enter_failed: "ls_failed (enter_lock sh store sp d) = ls_failed d"
  using grant_initial_heads_UNIV [of "sp_table sp"] by (auto simp: enter_lock_def)

section \<open>What a shard sees\<close>

text \<open>The state of a shard but its messages, and the messages.\<close>

definition lock_view :: "lock_system \<Rightarrow> shard_id
    \<Rightarrow> fs_state \<times> lock_table \<times> (tx_id \<Rightarrow> key list) \<times> (tx_id \<Rightarrow> lock_worker_state) \<times> tx_id set \<times> accounts
      \<times> tx_result_registry \<times> (mailbox_key \<Rightarrow> bool)" where
  "lock_view c sh = (ls_store c sh, ls_locks c sh, ls_grants c sh, ls_state c sh, ls_handled c sh, ls_accounts c sh,
     ls_results c sh, taken_mailbox (ls_mail c sh))"

text \<open>Two mailbox registries that differ at most in capacities and in empty entries.\<close>

definition same_mail :: "mailbox_registry \<Rightarrow> mailbox_registry \<Rightarrow> bool" where
  "same_mail m n \<longleftrightarrow> inbox m = inbox n \<and> open_mailbox m = open_mailbox n"

definition same_posts :: "lock_system \<Rightarrow> lock_system \<Rightarrow> bool" where
  "same_posts c e \<longleftrightarrow> ls_net c = ls_net e \<and> (\<forall>sh. same_mail (ls_mail c sh) (ls_mail e sh))"

lemma lock_view_eq:
  "lock_view c sh = lock_view e sh \<longleftrightarrow>
     ls_store c sh = ls_store e sh \<and> ls_locks c sh = ls_locks e sh \<and> ls_grants c sh = ls_grants e sh \<and>
     ls_state c sh = ls_state e sh \<and> ls_handled c sh = ls_handled e sh \<and> ls_accounts c sh = ls_accounts e sh \<and>
     ls_results c sh = ls_results e sh \<and> taken_mailbox (ls_mail c sh) = taken_mailbox (ls_mail e sh)"
  by (simp add: lock_view_def)

lemma lock_failed_mono:
  assumes "lock_step X P c c'" "ls_failed c' = Map.empty"
  shows "ls_failed c = Map.empty"
  using assms by cases simp_all

lemma same_mail_refl [simp]: "same_mail m m"
  by (simp add: same_mail_def)

lemma same_mail_drop:
  "same_mail m n \<Longrightarrow> taken_mailbox m = taken_mailbox n \<Longrightarrow> same_mail (drop_receiver q m) (drop_receiver q n)"
  unfolding same_mail_def fun_eq_iff by (simp only: drop_receiver_registry) simp

lemma same_mail_route:
  assumes "same_mail m n" "route r m = (Ok (), m')"
  shows "\<exists>n'. route r n = (Ok (), n') \<and> same_mail m' n' \<and> taken_mailbox m' = taken_mailbox m \<and> taken_mailbox n' = taken_mailbox n"
proof -
  have "fst (route r n) = Ok ()" using assms route_result [of r m] by (simp add: route_result same_mail_def)
  then have "route r n = (Ok (), snd (route r n))" by (metis prod.collapse)
  moreover have m': "m' = snd (route r m)" using assms(2) by simp
  moreover have "same_mail m' (snd (route r n))"
    using assms(1) unfolding m' same_mail_def fun_eq_iff by (simp only: route_registry) simp
  moreover have "taken_mailbox (snd (route r g)) = taken_mailbox g" for g unfolding fun_eq_iff by (simp only: route_registry) simp
  ultimately show ?thesis by metis
qed

lemma same_receiver:
  assumes "taken_mailbox n = taken_mailbox m"
  shows "fst (receiver bid t ph k n) = fst (receiver bid t ph k m) \<and> same_mail (snd (receiver bid t ph k n)) n \<and>
    taken_mailbox (snd (receiver bid t ph k n)) = taken_mailbox (snd (receiver bid t ph k m))"
proof -
  have "fst (receiver bid t ph k m) = (if taken_mailbox m (bid, t, ph)
      then Err (InvalidBatch ''remote read receiver already taken'') else Ok ())" for m
    by (auto simp: receiver_def mailbox_defs Let_def split: option.splits)
  then show ?thesis using assms unfolding same_mail_def fun_eq_iff by (simp only: receiver_registry) simp
qed

lemma taken_drop: "taken_mailbox (drop_receiver q m) = taken_mailbox m"
  unfolding fun_eq_iff by (simp only: drop_receiver_registry) simp

text \<open>
  A step is possible in every state that looks the same to the shards with workers, and there has the
  same effect; to a shard without workers nothing happens but messages.
\<close>

lemma lock_step_view:
  assumes step: "lock_step X P c c'" and ok: "ls_failed c' = Map.empty"
    and same: "lp_layout Q = lp_layout P" "lp_peers Q = lp_peers P" "lp_batch_id Q = lp_batch_id P"
    and jobs: "\<And>sh w. w \<in> set (lp_jobs P sh) \<Longrightarrow> w \<in> set (lp_jobs Q sh) \<and> lock_view c sh = lock_view e sh"
    and posts: "same_posts c e" "ls_failed e = Map.empty"
  shows "\<exists>e'. lock_step X Q e e' \<and> ls_failed e' = Map.empty \<and> same_posts c' e' \<and>
    (\<forall>sh. lock_view c sh = lock_view e sh \<longrightarrow> lock_view c' sh = lock_view e' sh) \<and>
    (\<forall>sh. lp_jobs P sh = [] \<longrightarrow> lock_view c' sh = lock_view c sh \<and> lock_view e' sh = lock_view e sh)"
proof -
  have ctx: "ctx_of Q sh = ctx_of P sh" "mail_key X Q t = mail_key X P t" for sh t
    by (simp_all add: ctx_of_def mail_key_def same)
  have mail: "same_mail (ls_mail c sh) (ls_mail e sh)" and net: "ls_net c = ls_net e" for sh
    using posts(1) by (simp_all add: same_posts_def)
  have inb: "inbox (ls_mail e sh) = inbox (ls_mail c sh)" for sh using mail [of sh] by (simp add: same_mail_def)
  have free: "ls_failed e sh = None" for sh by (simp add: posts(2))
  from step show ?thesis
  proof cases
    case (start_active sh w ms r)
    have v: "w \<in> set (lp_jobs Q sh)" "lp_jobs P sh \<noteq> []" and eq: "lock_view c sh = lock_view e sh"
      using jobs start_active(3) by auto
    note veq = eq [unfolded lock_view_eq]
    let ?e = "send_reads ms (set_state sh (lw_id w) (ReadCollect r) e)"
    have "lock_step X Q e ?e"
      by (rule lock_step.start_active [OF free v(1)]) (use start_active(4-6) veq in \<open>simp_all add: ctx\<close>)
    moreover have "same_posts c' ?e" using mail net by (simp add: same_posts_def start_active(1))
    ultimately show ?thesis
      by (intro exI [of _ ?e]) (use v(2) veq posts(2) in \<open>simp add: lock_view_eq start_active(1)\<close>)
  next
    case (start_passive sh w ms)
    have v: "w \<in> set (lp_jobs Q sh)" "lp_jobs P sh \<noteq> []" and eq: "lock_view c sh = lock_view e sh"
      using jobs start_passive(3) by auto
    note veq = eq [unfolded lock_view_eq]
    let ?e = "send_reads ms (set_state sh (lw_id w) (LockDone (Ok Passive)) e)"
    have "lock_step X Q e ?e"
      by (rule lock_step.start_passive [OF free v(1)]) (use start_passive(4-6) veq in \<open>simp_all add: ctx\<close>)
    moreover have "same_posts c' ?e" using mail net by (simp add: same_posts_def start_passive(1))
    ultimately show ?thesis
      by (intro exI [of _ ?e]) (use v(2) veq posts(2) in \<open>simp add: lock_view_eq start_passive(1)\<close>)
  next
    case (start_error sh w err)
    have v: "w \<in> set (lp_jobs Q sh)" "lp_jobs P sh \<noteq> []" and eq: "lock_view c sh = lock_view e sh"
      using jobs start_error(3) by auto
    note veq = eq [unfolded lock_view_eq]
    let ?e = "(set_state sh (lw_id w) (LockDone (Err err)) e)
      \<lparr>ls_mail := (ls_mail e)(sh := drop_receiver (mail_key X Q (lw_id w)) (ls_mail e sh))\<rparr>"
    have "lock_step X Q e ?e"
      by (rule lock_step.start_error [OF free v(1)]) (use start_error(4-5) veq in \<open>simp_all add: ctx\<close>)
    moreover have "same_posts c' ?e"
      using mail net same_mail_drop [OF mail] veq by (simp add: same_posts_def start_error(1) ctx)
    ultimately show ?thesis
      by (intro exI [of _ ?e]) (use v(2) veq posts(2) in \<open>simp add: lock_view_eq start_error(1) ctx taken_drop\<close>)
  next
    case (finish sh w r full store' results' completion)
    have v: "w \<in> set (lp_jobs Q sh)" "lp_jobs P sh \<noteq> []" and eq: "lock_view c sh = lock_view e sh"
      using jobs finish(3) by auto
    note veq = eq [unfolded lock_view_eq]
    let ?e = "(set_state sh (lw_id w) (LockDone (Ok completion)) e)
       \<lparr>ls_store := (ls_store e)(sh := store'), ls_results := (ls_results e)(sh := results'),
        ls_mail := (ls_mail e)(sh := drop_receiver (mail_key X Q (lw_id w)) (ls_mail e sh))\<rparr>"
    have "lock_step X Q e ?e"
      by (rule lock_step.finish [OF free v(1)]) (use finish(4-6) veq in \<open>simp_all add: ctx inb\<close>)
    moreover have "same_posts c' ?e"
      using mail net same_mail_drop [OF mail] veq by (simp add: same_posts_def finish(1) ctx)
    ultimately show ?thesis
      by (intro exI [of _ ?e]) (use v(2) veq posts(2) in \<open>simp add: lock_view_eq finish(1) ctx taken_drop\<close>)
  next
    case (finish_error sh w r err)
    have v: "w \<in> set (lp_jobs Q sh)" "lp_jobs P sh \<noteq> []" and eq: "lock_view c sh = lock_view e sh"
      using jobs finish_error(3) by auto
    note veq = eq [unfolded lock_view_eq]
    let ?e = "(set_state sh (lw_id w) (LockDone (Err err)) e)
      \<lparr>ls_mail := (ls_mail e)(sh := drop_receiver (mail_key X Q (lw_id w)) (ls_mail e sh))\<rparr>"
    have "lock_step X Q e ?e"
      by (rule lock_step.finish_error [OF free v(1)]) (use finish_error(4-5) veq in \<open>simp_all add: ctx inb\<close>)
    moreover have "same_posts c' ?e"
      using mail net same_mail_drop [OF mail] veq by (simp add: same_posts_def finish_error(1) ctx)
    ultimately show ?thesis
      by (intro exI [of _ ?e]) (use v(2) veq posts(2) in \<open>simp add: lock_view_eq finish_error(1) ctx taken_drop\<close>)
  next
    case (handle sh w outcome table' gs acc')
    have v: "w \<in> set (lp_jobs Q sh)" "lp_jobs P sh \<noteq> []" and eq: "lock_view c sh = lock_view e sh"
      using jobs handle(3) by auto
    note veq = eq [unfolded lock_view_eq]
    let ?e = "e\<lparr>ls_locks := (ls_locks e)(sh := table'),
       ls_grants := (ls_grants e)(sh := \<lambda>t. ls_grants e sh t @ grants_to t gs),
       ls_handled := (ls_handled e)(sh := insert (lw_id w) (ls_handled e sh)),
       ls_accounts := (ls_accounts e)(sh := acc')\<rparr>"
    have "lock_step X Q e ?e"
      by (rule lock_step.handle [OF free v(1)]) (use handle(4-6) veq in simp_all)
    moreover have "same_posts c' ?e" using mail net by (simp add: same_posts_def handle(1))
    ultimately show ?thesis
      by (intro exI [of _ ?e]) (use v(2) veq posts(2) in \<open>simp add: lock_view_eq handle(1)\<close>)
  next
    case (deliver target m mail')
    obtain n' where n': "route m (ls_mail e target) = (Ok (), n')" "same_mail mail' n'"
      "taken_mailbox mail' = taken_mailbox (ls_mail c target)" "taken_mailbox n' = taken_mailbox (ls_mail e target)"
      using same_mail_route [OF mail deliver(3)] by blast
    let ?e = "e\<lparr>ls_net := ls_net e - {#(target, m)#}, ls_mail := (ls_mail e)(target := n')\<rparr>"
    have "lock_step X Q e ?e" using lock_step.deliver [OF _ n'(1)] deliver(2) net by metis
    moreover have "same_posts c' ?e" using mail net n'(2) by (simp add: same_posts_def deliver(1))
    ultimately show ?thesis
      by (intro exI [of _ ?e]) (use n'(3,4) posts(2) in \<open>simp add: lock_view_eq deliver(1)\<close>)
  qed (use ok in simp_all)
qed

section \<open>The mailboxes of a prologue\<close>

text \<open>
  Of its mailboxes a prologue needs to know only which receivers are taken; it takes its own and keeps
  the messages.
\<close>

locale mail_spawner =
  fixes spawn :: "shard_layout \<Rightarrow> shard_id \<Rightarrow> batch_id \<Rightarrow> ordered_tx \<Rightarrow> spawned \<Rightarrow> spawned result"
  assumes mail_law: "spawn L sh bid t sp = Ok sp' \<Longrightarrow> taken_mailbox n = taken_mailbox (sp_mail sp) \<Longrightarrow>
      \<exists>n'. spawn L sh bid t (sp\<lparr>sp_mail := n\<rparr>) = Ok (sp'\<lparr>sp_mail := n'\<rparr>) \<and> same_mail n' n \<and>
        taken_mailbox n' = taken_mailbox (sp_mail sp')"
begin

lemma fold_mail:
  assumes "fold_res (spawn L sh bid) ts sp = Ok sp'" "taken_mailbox n = taken_mailbox (sp_mail sp)"
  shows "\<exists>n'. fold_res (spawn L sh bid) ts (sp\<lparr>sp_mail := n\<rparr>) = Ok (sp'\<lparr>sp_mail := n'\<rparr>) \<and> same_mail n' n \<and>
    taken_mailbox n' = taken_mailbox (sp_mail sp')"
  using assms
proof (induction ts arbitrary: sp n)
  case Nil
  then show ?case by (intro exI [of _ n]) simp
next
  case (Cons t ts)
  obtain sp1 where sp1: "spawn L sh bid t sp = Ok sp1" "fold_res (spawn L sh bid) ts sp1 = Ok sp'"
    using Cons.prems(1) by (auto simp: rbind_eq_Inr)
  obtain n1 where n1: "spawn L sh bid t (sp\<lparr>sp_mail := n\<rparr>) = Ok (sp1\<lparr>sp_mail := n1\<rparr>)" "same_mail n1 n"
    "taken_mailbox n1 = taken_mailbox (sp_mail sp1)" using mail_law [OF sp1(1) Cons.prems(2)] by blast
  obtain n2 where "fold_res (spawn L sh bid) ts (sp1\<lparr>sp_mail := n1\<rparr>) = Ok (sp'\<lparr>sp_mail := n2\<rparr>)" "same_mail n2 n1"
    "taken_mailbox n2 = taken_mailbox (sp_mail sp')" using Cons.IH [OF sp1(2) n1(3)] by blast
  then show ?case using n1 by (intro exI [of _ n2]) (simp add: same_mail_def)
qed

lemma prologue_mail:
  assumes "lock_prologue spawn L sh b m r = Ok sp" "taken_mailbox n = taken_mailbox m"
  shows "\<exists>n'. lock_prologue spawn L sh b n r = Ok (sp\<lparr>sp_mail := n'\<rparr>) \<and> same_mail n' n \<and>
    taken_mailbox n' = taken_mailbox (sp_mail sp)"
  using fold_mail [where sp = "\<lparr>sp_jobs = [], sp_table = lock_table_new, sp_mail = m, sp_results = r\<rparr>" and n = n] assms
  by (auto simp: lock_prologue_def rbind_eq_Inr)

end

section \<open>The reduction\<close>

text \<open>What a shard spawns when it enters, from the mailboxes it had at the start.\<close>

definition late_entry ::
    "(shard_id \<Rightarrow> bool) \<Rightarrow> (shard_id \<Rightarrow> mailbox_registry \<Rightarrow> (fs_state \<times> spawned) result) \<Rightarrow> (shard_id \<Rightarrow> mailbox_registry)
      \<Rightarrow> (shard_id \<Rightarrow> fs_state) \<Rightarrow> (shard_id \<Rightarrow> tx_result_registry) \<Rightarrow> shard_id \<Rightarrow> fs_state \<times> spawned" where
  "late_entry rdy entry mail stores results sh =
     (if rdy sh then case entry sh (mail sh) of Ok p \<Rightarrow> p | Err _ \<Rightarrow> (stores sh, no_workers (mail sh) (results sh))
      else (stores sh, no_workers (mail sh) (results sh)))"

text \<open>
  A run in which shards enter late, and one in which they have all entered at the start with the
  workers \<open>sp\<close> and the stores \<open>st\<close>: they agree on the shards that have entered, the others have not moved.
\<close>

definition late_rel ::
    "(shard_id \<Rightarrow> spawned) \<Rightarrow> (shard_id \<Rightarrow> fs_state) \<Rightarrow> lock_system \<Rightarrow> 'c late_system \<Rightarrow> lock_system \<Rightarrow> bool" where
  "late_rel sp st d0 l e \<longleftrightarrow> ls_failed (lt_lock l) = Map.empty \<and> ls_failed e = Map.empty \<and> same_posts (lt_lock l) e \<and>
     (\<forall>sh. (lt_jobs l sh = None \<longrightarrow>
         lock_view (lt_lock l) sh = lock_view d0 sh \<and> lock_view e sh = lock_view (lock_initial sp st) sh) \<and>
       (lt_jobs l sh \<noteq> None \<longrightarrow> lt_jobs l sh = Some (sp_jobs (sp sh)) \<and> lock_view (lt_lock l) sh = lock_view e sh))"

lemma late_relD:
  assumes "late_rel sp st d0 l e"
  shows "ls_failed (lt_lock l) = Map.empty" "ls_failed e = Map.empty" "same_posts (lt_lock l) e"
    "lt_jobs l sh = None \<Longrightarrow> lock_view (lt_lock l) sh = lock_view d0 sh"
    "lt_jobs l sh = None \<Longrightarrow> lock_view e sh = lock_view (lock_initial sp st) sh"
    "lt_jobs l sh \<noteq> None \<Longrightarrow> lt_jobs l sh = Some (sp_jobs (sp sh))"
    "lt_jobs l sh \<noteq> None \<Longrightarrow> lock_view (lt_lock l) sh = lock_view e sh"
  using assms unfolding late_rel_def by blast+

lemma late_rel_start:
  assumes "\<And>sh. same_mail (mail sh) (sp_mail (sp sh))"
  shows "late_rel sp st (lock_initial (\<lambda>sh. no_workers (mail sh) (results sh)) stores)
    (late_initial c stores mail results) (lock_initial sp st)"
  using assms by (simp add: late_rel_def late_initial_def same_posts_def initial_failed, simp add: lock_initial_def no_workers_def)

text \<open>A step of the locked part.\<close>

lemma late_rel_locked:
  assumes rel: "late_rel sp st d0 l e" and step: "lock_step X (late_params L ps bid (lt_jobs l)) (lt_lock l) d"
    and ok: "ls_failed d = Map.empty"
  shows "\<exists>e'. lock_step X (lock_params_of L ps bid sp) e e' \<and> late_rel sp st d0 (l\<lparr>lt_lock := d\<rparr>) e'"
proof -
  note r = late_relD [OF rel]
  let ?P = "late_params L ps bid (lt_jobs l)" and ?Q = "lock_params_of L ps bid sp"
  have jobs: "w \<in> set (lp_jobs ?Q sh) \<and> lock_view (lt_lock l) sh = lock_view e sh" if "w \<in> set (lp_jobs ?P sh)" for sh w
    using that r(6,7) [of sh] by (cases "lt_jobs l sh") (simp_all add: late_params_def lock_params_of_def)
  obtain e' where e': "lock_step X ?Q e e'" "ls_failed e' = Map.empty" "same_posts d e'"
    "\<forall>sh. lock_view (lt_lock l) sh = lock_view e sh \<longrightarrow> lock_view d sh = lock_view e' sh"
    "\<forall>sh. lp_jobs ?P sh = [] \<longrightarrow> lock_view d sh = lock_view (lt_lock l) sh \<and> lock_view e' sh = lock_view e sh"
    using lock_step_view [OF step ok _ _ _ jobs r(3,2)] by (auto simp: late_params_def lock_params_of_def)
  have "lp_jobs ?P sh = []" if "lt_jobs l sh = None" for sh using that by (simp add: late_params_def)
  then have "late_rel sp st d0 (l\<lparr>lt_lock := d\<rparr>) e'"
    using e'(2-5) ok rel unfolding late_rel_def by simp
  then show ?thesis using e'(1) by blast
qed

text \<open>A shard enters.\<close>

lemma late_rel_enter:
  assumes rel: "late_rel sp st (lock_initial (\<lambda>sh. no_workers (mail sh) (results sh)) stores) l e" and sh: "lt_jobs l sh = None"
    and same: "sp sh = sp1\<lparr>sp_mail := n\<rparr>" "same_mail (sp_mail sp1) (ls_mail (lt_lock l) sh)"
      "taken_mailbox n = taken_mailbox (sp_mail sp1)"
  shows "late_rel sp st (lock_initial (\<lambda>sh. no_workers (mail sh) (results sh)) stores)
    (l\<lparr>lt_jobs := (lt_jobs l)(sh \<mapsto> sp_jobs sp1), lt_lock := enter_lock sh (st sh) sp1 (lt_lock l)\<rparr>) e"
    (is "late_rel sp st ?d0 ?l e")
proof -
  note r = late_relD [OF rel]
  note v = r(4) [OF sh, unfolded lock_view_eq] and w = r(5) [OF sh, unfolded lock_view_eq]
  have "lock_view (lt_lock ?l) sh = lock_view e sh"
    using v w same(1,3) by (simp add: lock_view_eq enter_lock_def lock_initial_def no_workers_def)
  moreover have "lock_view (lt_lock ?l) q = lock_view (lt_lock l) q" if "q \<noteq> sh" for q
    using that by (simp add: lock_view_eq enter_lock_def)
  moreover have "same_posts (lt_lock ?l) e"
    using r(3) same(2) by (simp add: same_posts_def enter_lock_def same_mail_def)
  ultimately show ?thesis using rel same(1) unfolding late_rel_def by (simp add: enter_failed)
qed

text \<open>
  The interface of what comes before the locked part: a shard that is ready stays so and would enter
  with the same workers, and what it spawns depends on its mailboxes as a prologue does.
\<close>

locale late_phases =
  fixes first_step :: "'c \<Rightarrow> 'c \<Rightarrow> bool" and is_ready :: "'c \<Rightarrow> shard_id \<Rightarrow> bool"
    and entry :: "'c \<Rightarrow> shard_id \<Rightarrow> mailbox_registry \<Rightarrow> (fs_state \<times> spawned) result"
    and good :: "'c \<Rightarrow> bool"
  assumes good_step: "good c \<Longrightarrow> first_step c c' \<Longrightarrow> good c'"
    and ready_step: "good c \<Longrightarrow> first_step c c' \<Longrightarrow> is_ready c sh \<Longrightarrow> is_ready c' sh \<and> entry c' sh = entry c sh"
    and entry_mail: "entry c sh m = Ok (s, sp) \<Longrightarrow> taken_mailbox n = taken_mailbox m \<Longrightarrow>
      \<exists>n'. entry c sh n = Ok (s, sp\<lparr>sp_mail := n'\<rparr>) \<and> same_mail n' n \<and> taken_mailbox n' = taken_mailbox (sp_mail sp)"
begin

lemma entry_same_mail: "entry c sh m = Ok (s, sp) \<Longrightarrow> same_mail (sp_mail sp) m"
  using entry_mail [of c sh m s sp m] by (cases sp) auto

lemma ready_stable:
  assumes "first_step\<^sup>*\<^sup>* c c'" "good c"
  shows "good c' \<and> (is_ready c sh \<longrightarrow> is_ready c' sh \<and> entry c' sh = entry c sh)"
  using assms(1)
proof (induction rule: rtranclp_induct)
  case (step c1 c2)
  then show ?case using good_step [of c1 c2] ready_step [of c1 c2 sh] by simp
qed (use assms(2) in simp)

lemma late_back:
  assumes "(late_step X L ps bid first_step is_ready entry)\<^sup>*\<^sup>* l m" "ls_failed (lt_lock m) = Map.empty"
  shows "first_step\<^sup>*\<^sup>* (lt_first l) (lt_first m) \<and> ls_failed (lt_lock l) = Map.empty"
  using assms(1)
proof (induction rule: converse_rtranclp_induct)
  case (step l1 l2)
  from step(1) show ?case
  proof cases
    case (before c)
    then show ?thesis using step(3) by (auto intro: converse_rtranclp_into_rtranclp)
  next
    case (locked d)
    then show ?thesis using step(3) lock_failed_mono by fastforce
  next
    case (enter_error sh err)
    then have "ls_failed (lt_lock l2) sh = Some err" by simp
    then show ?thesis using step(3) by simp
  qed (use step(3) in \<open>simp add: enter_failed\<close>)
qed (use assms(2) in simp)

lemma late_rel_reachable:
  fixes mail stores results l
  assumes run: "(late_step X L ps bid first_step is_ready entry)\<^sup>*\<^sup>* (late_initial c0 stores mail results) m"
    and rest: "(late_step X L ps bid first_step is_ready entry)\<^sup>*\<^sup>* m l"
    and ok: "ls_failed (lt_lock l) = Map.empty" and good: "good c0"
  defines "en \<equiv> late_entry (is_ready (lt_first l)) (entry (lt_first l)) mail stores results"
  shows "\<exists>e. (lock_step X (lock_params_of L ps bid (snd \<circ> en)))\<^sup>*\<^sup>* (lock_initial (snd \<circ> en) (fst \<circ> en)) e \<and>
    late_rel (snd \<circ> en) (fst \<circ> en) (lock_initial (\<lambda>sh. no_workers (mail sh) (results sh)) stores) m e \<and>
    (\<forall>sh. lt_jobs m sh \<noteq> None \<longrightarrow> is_ready (lt_first m) sh \<and> entry (lt_first m) sh (mail sh) = Ok (en sh))"
  using run rest
proof (induction rule: rtranclp_induct)
  case base
  have "same_mail (mail q) (sp_mail ((snd \<circ> en) q))" for q
    using entry_same_mail [of "lt_first l" q "mail q"]
    by (auto simp: en_def late_entry_def no_workers_def same_mail_def split: sum.splits)
  note r = late_rel_start [of mail "snd \<circ> en" "fst \<circ> en" results stores c0, OF this]
  show ?case
    by (rule exI [of _ "lock_initial (snd \<circ> en) (fst \<circ> en)"], intro conjI rtranclp.rtrancl_refl r) (simp add: late_initial_def)
next
  case (step l1 l2)
  let ?sp = "snd \<circ> en" and ?st = "fst \<circ> en" and ?d0 = "lock_initial (\<lambda>sh. no_workers (mail sh) (results sh)) stores"
  have r1: "(late_step X L ps bid first_step is_ready entry)\<^sup>*\<^sup>* l1 l" using step(2,4) by (rule converse_rtranclp_into_rtranclp)
  obtain e where e: "(lock_step X (lock_params_of L ps bid ?sp))\<^sup>*\<^sup>* (lock_initial ?sp ?st) e" "late_rel ?sp ?st ?d0 l1 e"
    "\<forall>sh. lt_jobs l1 sh \<noteq> None \<longrightarrow> is_ready (lt_first l1) sh \<and> entry (lt_first l1) sh (mail sh) = Ok (en sh)"
    using step.IH [OF r1] by blast
  have ok1: "first_step\<^sup>*\<^sup>* (lt_first l1) (lt_first l)" using late_back [OF r1 ok] by blast
  have ok2: "ls_failed (lt_lock l2) = Map.empty" using late_back [OF step(4) ok] by blast
  have "first_step\<^sup>*\<^sup>* c0 (lt_first l1)"
    using late_back [OF step(1)] late_back [OF r1 ok] by (simp add: late_initial_def)
  then have g: "good (lt_first l1)" using ready_stable good by blast
  from step(2) show ?case
  proof cases
    case (before c)
    have "late_rel ?sp ?st ?d0 l2 e" using e(2) by (simp add: before late_rel_def)
    moreover have "is_ready (lt_first l2) sh \<and> entry (lt_first l2) sh (mail sh) = Ok (en sh)" if "lt_jobs l2 sh \<noteq> None" for sh
      using e(3) that ready_step [OF g before(2)] by (simp add: before(1))
    ultimately show ?thesis using e(1) by blast
  next
    case (enter sh store sp1)
    have tk: "taken_mailbox (mail sh) = taken_mailbox (ls_mail (lt_lock l1) sh)"
      using late_relD(4) [OF e(2) enter(3)] by (simp add: lock_view_eq lock_initial_def no_workers_def)
    obtain n where n: "entry (lt_first l1) sh (mail sh) = Ok (store, sp1\<lparr>sp_mail := n\<rparr>)" "taken_mailbox n = taken_mailbox (sp_mail sp1)"
      using entry_mail [OF enter(5) tk] by blast
    have "is_ready (lt_first l) sh \<and> entry (lt_first l) sh = entry (lt_first l1) sh"
      using ready_stable [OF ok1 g] enter(2) by blast
    then have en: "en sh = (store, sp1\<lparr>sp_mail := n\<rparr>)" using n(1) by (simp add: en_def late_entry_def)
    have "late_rel ?sp ?st ?d0 l2 e"
      using late_rel_enter [OF e(2) enter(3) _ entry_same_mail [OF enter(5)] n(2)] by (simp add: en enter(1))
    moreover have "\<forall>q. lt_jobs l2 q \<noteq> None \<longrightarrow> is_ready (lt_first l2) q \<and> entry (lt_first l2) q (mail q) = Ok (en q)"
      using e(3) n(1) enter(2) by (simp add: enter(1) en)
    ultimately show ?thesis using e(1) by blast
  next
    case (enter_error sh err)
    then show ?thesis using ok2 by simp
  next
    case (locked d)
    then obtain e' where e': "lock_step X (lock_params_of L ps bid ?sp) e e'" "late_rel ?sp ?st ?d0 l2 e'"
      using late_rel_locked [OF e(2) locked(2)] ok2 by (auto simp: locked(1))
    show ?thesis
      by (intro exI [of _ e'] conjI e'(2) rtranclp.rtrancl_into_rtrancl [OF e(1) e'(1)]) (use e(3) in \<open>simp add: locked(1)\<close>)
  qed
qed

text \<open>A finished run leaves what a run leaves in which all shards have entered at the start.\<close>

lemma late_run:
  assumes run: "(late_step X L ps bid first_step is_ready entry)\<^sup>*\<^sup>* (late_initial c0 stores mail results) l"
    and fin: "late_finished L ps bid asked l" and good: "good c0" and asked: "\<And>sh. is_ready (lt_first l) sh \<Longrightarrow> sh \<in> asked"
  obtains sp st d where "first_step\<^sup>*\<^sup>* c0 (lt_first l)"
    "\<And>sh. sh \<in> asked \<Longrightarrow> is_ready (lt_first l) sh \<and> entry (lt_first l) sh (mail sh) = Ok (st sh, sp sh)"
    "\<And>sh. sh \<notin> asked \<Longrightarrow> sp sh = no_workers (mail sh) (results sh) \<and> st sh = stores sh"
    "(lock_step X (lock_params_of L ps bid sp))\<^sup>*\<^sup>* (lock_initial sp st) d"
    "lock_finished (lock_params_of L ps bid sp) d" "\<And>sh. lock_view (lt_lock l) sh = lock_view d sh"
proof -
  define en where "en = late_entry (is_ready (lt_first l)) (entry (lt_first l)) mail stores results"
  let ?sp = "snd \<circ> en" and ?st = "fst \<circ> en" and ?d0 = "lock_initial (\<lambda>sh. no_workers (mail sh) (results sh)) stores"
  have dom: "dom (lt_jobs l) = asked" and f: "lock_finished (late_params L ps bid (lt_jobs l)) (lt_lock l)"
    using fin by (simp_all add: late_finished_def)
  have ok: "ls_failed (lt_lock l) = Map.empty" using f by (simp add: lock_finished_def fun_eq_iff)
  have "first_step\<^sup>*\<^sup>* c0 (lt_first l)" using late_back [OF run ok] by (simp add: late_initial_def)
  obtain d where d: "(lock_step X (lock_params_of L ps bid ?sp))\<^sup>*\<^sup>* (lock_initial ?sp ?st) d" "late_rel ?sp ?st ?d0 l d"
    "\<And>sh. lt_jobs l sh \<noteq> None \<Longrightarrow> is_ready (lt_first l) sh \<and> entry (lt_first l) sh (mail sh) = Ok (en sh)"
    using late_rel_reachable [OF run rtranclp.rtrancl_refl ok good] unfolding en_def by blast
  have idle: "en sh = (stores sh, no_workers (mail sh) (results sh))" if "sh \<notin> asked" for sh
    using that asked by (auto simp: en_def late_entry_def)
  have view: "lock_view (lt_lock l) sh = lock_view d sh" for sh
  proof (cases "sh \<in> asked")
    case True
    then show ?thesis using late_relD(7) [OF d(2), of sh] dom by blast
  next
    case False
    then have "lt_jobs l sh = None" using dom by blast
    then show ?thesis
      using late_relD(4,5) [OF d(2), of sh] idle [OF False] by (simp add: lock_view_eq lock_initial_def)
  qed
  have "lock_finished (lock_params_of L ps bid ?sp) d"
    unfolding lock_finished_def
  proof (intro allI conjI)
    fix sh
    show "ls_failed d sh = None" using late_relD(2) [OF d(2)] by simp
    have "ls_handled d sh = lw_id ` set (lp_jobs (late_params L ps bid (lt_jobs l)) sh)"
      using f view [of sh] by (simp add: lock_finished_def lock_view_eq)
    moreover have "lp_jobs (late_params L ps bid (lt_jobs l)) sh = sp_jobs (?sp sh)"
    proof (cases "sh \<in> asked")
      case True
      then have "lt_jobs l sh \<noteq> None" using dom by blast
      from late_relD(6) [OF d(2) this] show ?thesis by (simp add: late_params_def)
    next
      case False
      then have "lt_jobs l sh = None" using dom by blast
      then show ?thesis using idle [OF False] by (simp add: late_params_def no_workers_def)
    qed
    ultimately show "ls_handled d sh = lw_id ` set (lp_jobs (lock_params_of L ps bid ?sp) sh)" by (simp add: lock_params_of_def)
  qed
  moreover have "is_ready (lt_first l) sh \<and> entry (lt_first l) sh (mail sh) = Ok (?st sh, ?sp sh)" if "sh \<in> asked" for sh
    using d(3) [of sh] that dom by auto
  moreover have "?sp sh = no_workers (mail sh) (results sh) \<and> ?st sh = stores sh" if "sh \<notin> asked" for sh
    using idle [OF that] by simp
  ultimately show thesis by (intro that [of ?st ?sp d] \<open>first_step\<^sup>*\<^sup>* c0 (lt_first l)\<close> d(1) view)
qed

text \<open>Conversely, shards can enter one after the other and then run.\<close>

lemma late_run_exists:
  assumes run: "first_step\<^sup>*\<^sup>* c0 c" and asked: "finite asked"
    and start: "\<And>sh. sh \<in> asked \<Longrightarrow> is_ready c sh \<and> entry c sh (mail sh) = Ok (st sh, sp sh)"
    and idle: "\<And>sh. sh \<notin> asked \<Longrightarrow> sp sh = no_workers (mail sh) (results sh) \<and> st sh = stores sh"
    and locked: "(lock_step X (lock_params_of L ps bid sp))\<^sup>*\<^sup>* (lock_initial sp st) d"
    and fin: "lock_finished (lock_params_of L ps bid sp) d"
  obtains l where "(late_step X L ps bid first_step is_ready entry)\<^sup>*\<^sup>* (late_initial c0 stores mail results) l"
    "late_finished L ps bid asked l" "lt_first l = c" "lt_lock l = d"
proof -
  let ?step = "late_step X L ps bid first_step is_ready entry"
  let ?jobs = "\<lambda>A sh. if sh \<in> A then Some (sp_jobs (sp sh)) else None"
  define lk where "lk A = lock_initial (\<lambda>sh. if sh \<in> A then sp sh else no_workers (mail sh) (results sh))
    (\<lambda>sh. if sh \<in> A then st sh else stores sh)" for A
  have enter: "lk (insert sh A) = enter_lock sh (st sh) (sp sh) (lk A)" for sh A
  proof -
    obtain gs where "grant_initial_heads UNIV (sp_table (sp sh)) = Ok gs" using grant_initial_heads_UNIV by blast
    moreover obtain gs' where "grant_initial_heads UNIV (sp_table (no_workers (mail sh) (results sh))) = Ok gs'"
      using grant_initial_heads_UNIV by blast
    ultimately show ?thesis by (auto simp: lk_def enter_lock_def lock_initial_def fun_eq_iff)
  qed
  have all: "lk asked = lock_initial sp st"
  proof -
    have "(\<lambda>sh. if sh \<in> asked then sp sh else no_workers (mail sh) (results sh)) = sp"
      "(\<lambda>sh. if sh \<in> asked then st sh else stores sh) = st" using idle by auto
    then show ?thesis by (simp only: lk_def)
  qed
  have "?step\<^sup>*\<^sup>* (late_initial c0 stores mail results) (late_initial c stores mail results)"
    using run
  proof (induction rule: rtranclp_induct)
    case (step c1 c2)
    have "?step (late_initial c1 stores mail results) (late_initial c2 stores mail results)"
      using late_step.before [of first_step "late_initial c1 stores mail results" c2 X L ps bid is_ready entry] step(2)
      by (simp add: late_initial_def)
    then show ?case using step.IH by simp
  qed simp
  moreover have "late_initial c stores mail results = \<lparr>lt_first = c, lt_jobs = ?jobs {}, lt_lock = lk {}\<rparr>"
    by (simp add: late_initial_def lk_def)
  moreover have "?step\<^sup>*\<^sup>* \<lparr>lt_first = c, lt_jobs = ?jobs {}, lt_lock = lk {}\<rparr> \<lparr>lt_first = c, lt_jobs = ?jobs asked, lt_lock = lk asked\<rparr>"
    using asked start
  proof (induction asked rule: finite_induct)
    case (insert sh A)
    let ?l = "\<lparr>lt_first = c, lt_jobs = ?jobs A, lt_lock = lk A\<rparr>"
    have mail: "ls_mail (lk A) sh = mail sh" "ls_failed (lk A) sh = None"
      using insert.hyps(2) by (simp_all add: lk_def initial_failed, simp add: lock_initial_def no_workers_def)
    have "?step ?l (?l\<lparr>lt_jobs := (lt_jobs ?l)(sh \<mapsto> sp_jobs (sp sh)), lt_lock := enter_lock sh (st sh) (sp sh) (lt_lock ?l)\<rparr>)"
      by (rule late_step.enter) (use insert.prems [of sh] insert.hyps(2) mail in simp_all)
    also have "?l\<lparr>lt_jobs := (lt_jobs ?l)(sh \<mapsto> sp_jobs (sp sh)), lt_lock := enter_lock sh (st sh) (sp sh) (lt_lock ?l)\<rparr> =
        \<lparr>lt_first = c, lt_jobs = ?jobs (insert sh A), lt_lock = lk (insert sh A)\<rparr>"
      by (auto simp: enter fun_eq_iff)
    finally show ?case using insert by simp
  qed simp
  ultimately have a: "?step\<^sup>*\<^sup>* (late_initial c0 stores mail results) \<lparr>lt_first = c, lt_jobs = ?jobs asked, lt_lock = lock_initial sp st\<rparr>"
    by (simp add: all)
  have P: "late_params L ps bid (?jobs asked) = lock_params_of L ps bid sp"
    using idle by (simp add: late_params_def lock_params_of_def no_workers_def fun_eq_iff)
  have "?step\<^sup>*\<^sup>* \<lparr>lt_first = c, lt_jobs = ?jobs asked, lt_lock = lock_initial sp st\<rparr> \<lparr>lt_first = c, lt_jobs = ?jobs asked, lt_lock = d\<rparr>"
    using locked
  proof (induction rule: rtranclp_induct)
    case (step d1 d2)
    have "?step \<lparr>lt_first = c, lt_jobs = ?jobs asked, lt_lock = d1\<rparr> (\<lparr>lt_first = c, lt_jobs = ?jobs asked, lt_lock = d1\<rparr>\<lparr>lt_lock := d2\<rparr>)"
      by (rule late_step.locked) (use step(2) P in simp)
    then show ?case using step.IH by simp
  qed simp
  with a have "?step\<^sup>*\<^sup>* (late_initial c0 stores mail results) \<lparr>lt_first = c, lt_jobs = ?jobs asked, lt_lock = d\<rparr>" by simp
  moreover have "late_finished L ps bid asked \<lparr>lt_first = c, lt_jobs = ?jobs asked, lt_lock = d\<rparr>"
    using fin P by (auto simp: late_finished_def split: if_splits)
  ultimately show thesis using that by simp
qed

lemmas late_run_exists_all = late_run_exists [where asked = UNIV, simplified]

end

end
