(* ===== verification/Harness.thy ===== *)
theory Harness
  imports Checker
begin

text \<open>
  When the checks of \<open>src/checker.rs\<close> accept. \<open>Checker\<close> shows what an accepted check establishes; here the
  converse: complete and agreeing records are accepted, so each check is characterised exactly.
\<close>

section \<open>Reorder records\<close>

lemma check_records_accept:
  assumes "distinct (map reorder_batch_id rs)" "reorder_batch_id ` set rs \<inter> seen = {}"
    and "\<forall>r \<in> set rs. \<exists>b. m (reorder_batch_id r) = Some b \<and> validate_reorder_record b r = Ok ()"
  shows "\<exists>fb'. fold_res (check_record m) rs (fb, seen) = Ok (fb', seen \<union> reorder_batch_id ` set rs)"
  using assms
proof (induction rs arbitrary: fb seen)
  case (Cons r rs)
  let ?id = "reorder_batch_id r"
  let ?fb = "fb(?id \<mapsto> entry_set fb ?id \<union> set (fallback_indices r))"
  have "check_record m r (fb, seen) = Ok (?fb, insert ?id seen)"
    unfolding check_record_Ok using Cons.prems by auto
  moreover have "\<exists>fb'. fold_res (check_record m) rs (?fb, insert ?id seen) = Ok (fb', insert ?id seen \<union> reorder_batch_id ` set rs)"
    using Cons.prems by (intro Cons.IH) auto
  ultimately show ?case by (auto simp: insert_commute)
qed simp

lemma check_all_shards_accept:
  assumes "\<And>x. x \<in> set shards \<Longrightarrow> distinct (map reorder_batch_id (snd x)) \<and> reorder_batch_id ` set (snd x) = dom m \<and>
    (\<forall>r \<in> set (snd x). \<exists>b. m (reorder_batch_id r) = Some b \<and> validate_reorder_record b r = Ok ())"
  shows "\<exists>fb'. fold_res (check_shard_records m) shards fb = Ok fb'"
  using assms
proof (induction shards arbitrary: fb)
  case (Cons x shards)
  obtain fb1 where "fold_res (check_record m) (snd x) (fb, {}) = Ok (fb1, dom m)"
    using check_records_accept [of "snd x" "{}" m fb] Cons.prems [of x] by auto
  then have "check_shard_records m x fb = Ok fb1" by (simp add: check_shard_records_def)
  moreover have "\<exists>fb'. fold_res (check_shard_records m) shards fb1 = Ok fb'"
    by (rule Cons.IH) (rule Cons.prems, simp)
  ultimately show ?case by simp
qed simp

lemma index_batches_accept: "distinct (map batch_id bs) \<Longrightarrow> \<exists>m. index_batches bs = Ok m"
proof -
  have "\<exists>m. fold_res (\<lambda>b batch_by_id. if batch_by_id (batch_id b) \<noteq> None
       then Err (Checker ''duplicate SCC batch id in reference batches'')
       else Ok (batch_by_id(batch_id b \<mapsto> b))) bs m0 = Ok m"
    if "distinct (map batch_id bs)" "\<forall>b \<in> set bs. m0 (batch_id b) = None" for m0
    using that
  proof (induction bs arbitrary: m0)
    case (Cons b bs)
    then have "\<forall>b' \<in> set bs. (m0(batch_id b \<mapsto> b)) (batch_id b') = None" by (auto simp: image_iff)
    then show ?case using Cons.IH [of "m0(batch_id b \<mapsto> b)"] Cons.prems by (simp del: fun_upd_apply)
  qed simp
  then show "distinct (map batch_id bs) \<Longrightarrow> \<exists>m. index_batches bs = Ok m" by (simp add: index_batches_def)
qed

lemma build_reorders_accept:
  assumes "distinct (map batch_id bs)" "\<forall>b \<in> set bs. entry_set fb (batch_id b) \<subseteq> {0..<length (txs b)}"
  shows "\<exists>m'. fold_res build_reference_reorder bs (m, fb) = Ok (m', fb |` (- batch_id ` set bs))"
  using assms
proof (induction bs arbitrary: m fb)
  case (Cons b bs)
  let ?fb = "fb(batch_id b := None)"
  let ?m = "m(batch_id b \<mapsto> canonical_reorder b (entry_set fb (batch_id b)))"
  have "build_reference_reorder b (m, fb) = Ok (?m, ?fb)"
    unfolding build_reference_reorder_Ok using Cons.prems by simp
  moreover have "entry_set ?fb (batch_id b') = entry_set fb (batch_id b')" if "b' \<in> set bs" for b'
    using that Cons.prems(1) by (auto simp: entry_set_def image_iff)
  then have "\<exists>m'. fold_res build_reference_reorder bs (?m, ?fb) = Ok (m', ?fb |` (- batch_id ` set bs))"
    using Cons.prems by (intro Cons.IH) (auto simp del: fun_upd_apply)
  moreover have "?fb |` (- batch_id ` set bs) = fb |` (- batch_id ` set (b # bs))"
    by (auto simp: restrict_map_def)
  ultimately show ?case by simp
qed (simp add: restrict_map_def)

text \<open>One complete record per shard and batch is accepted.\<close>

lemma complete_records_accepted:
  assumes "distinct (map batch_id bs)"
    and "\<And>x. x \<in> set shards \<Longrightarrow> distinct (map reorder_batch_id (snd x)) \<and> reorder_batch_id ` set (snd x) = batch_id ` set bs"
    and "\<And>x r. x \<in> set shards \<Longrightarrow> r \<in> set (snd x) \<Longrightarrow> \<exists>b \<in> set bs. validate_reorder_record b r = Ok ()"
  shows "\<exists>reorders. assert_scc_reorders_consistent bs shards = Ok reorders"
proof -
  obtain m where m: "index_batches bs = Ok m" using index_batches_accept [OF assms(1)] by blast
  note im = index_batches_Ok [OF m]
  have each: "\<exists>b. m (reorder_batch_id r) = Some b \<and> validate_reorder_record b r = Ok ()"
    if "x \<in> set shards" "r \<in> set (snd x)" for x r
    using assms(3) [OF that] im(2) by (auto simp: validate_reorder_record_Ok_iff)
  then obtain fb where fb: "fold_res (check_shard_records m) shards Map.empty = Ok fb"
    using check_all_shards_accept [of shards m Map.empty] assms(2) im(4) by auto
  note cs = check_all_shards_Ok [OF fb]
  have "entry_set fb (batch_id b) \<subseteq> {0..<length (txs b)}" if b: "b \<in> set bs" for b
  proof -
    have "set (fallback_indices r) \<subseteq> {0..<length (txs b)}"
      if r: "x \<in> set shards" "r \<in> set (snd x)" "reorder_batch_id r = batch_id b" for x r
    proof -
      have "validate_reorder_record b r = Ok ()" using each [OF r(1,2)] im(2) [OF b] r(3) by simp
      then have "set (reorder_indices r) = {0..<length (txs b)}" by (simp add: validate_reorder_record_Ok_iff)
      then show ?thesis by (auto simp: reorder_indices_def)
    qed
    then show ?thesis using cs by (auto simp: entry_set_def fallback_union_def)
  qed
  then obtain rs where rs: "fold_res build_reference_reorder bs (Map.empty, fb) = Ok (rs, fb |` (- batch_id ` set bs))"
    using build_reorders_accept [OF assms(1), of fb Map.empty] by blast
  have "dom fb \<subseteq> batch_id ` set bs" using cs im(4) by auto
  then have "fb |` (- batch_id ` set bs) = Map.empty" by (auto simp: restrict_map_def fun_eq_iff)
  then show ?thesis using m fb rs by (simp add: assert_scc_reorders_consistent_def)
qed

section \<open>Result records\<close>

lemma index_results_accept:
  assumes "distinct (map (\<lambda>r. (rec_tx_id r, rec_shard_id r)) rs)"
  shows "\<exists>m. index_results rs = Ok m"
proof -
  have "\<exists>m'. fold_res (\<lambda>r by_tx.
       let entry = (case by_tx (rec_tx_id r) of None \<Rightarrow> Map.empty | Some m \<Rightarrow> m)
       in if entry (rec_shard_id r) \<noteq> None then Err (Checker ''duplicate result for tx'')
          else Ok (by_tx(rec_tx_id r \<mapsto> entry(rec_shard_id r \<mapsto> rec_result r)))) rs m = Ok m'"
    if "\<forall>r \<in> set rs. results_entry m (rec_tx_id r) (rec_shard_id r) = None" for m
    using that assms
  proof (induction rs arbitrary: m)
    case (Cons r rs)
    let ?m = "m(rec_tx_id r \<mapsto> (results_entry m (rec_tx_id r))(rec_shard_id r \<mapsto> rec_result r))"
    have "results_entry ?m (rec_tx_id u) (rec_shard_id u) = None" if "u \<in> set rs" for u
    proof -
      have "(rec_tx_id u, rec_shard_id u) \<noteq> (rec_tx_id r, rec_shard_id r)" using Cons.prems(2) that by (auto simp: image_iff)
      then show ?thesis using Cons.prems(1) that by (auto simp: results_entry_def)
    qed
    then show ?case using Cons.IH [of ?m] Cons.prems by (simp add: Let_def results_entry_def del: fun_upd_apply)
  qed simp
  from this [of Map.empty] show ?thesis by (simp add: index_results_def results_entry_def)
qed

lemma check_tx_results_accept:
  assumes "dom (results_entry m (tx_id tx)) = p_active (participants_of L tx)"
    and "finite (p_active (participants_of L tx))" "p_active (participants_of L tx) \<noteq> {}"
    and "\<forall>s \<in> p_active (participants_of L tx). results_entry m (tx_id tx) s = Some v"
  shows "check_tx_results L m tx = Ok ()"
proof -
  obtain f where f: "m (tx_id tx) = Some f" "results_entry m (tx_id tx) = f"
    using assms(1,3) by (cases "m (tx_id tx)") (auto simp: results_entry_def)
  let ?vs = "map (\<lambda>s. the (f s)) (sorted_list_of_set (dom f))"
  have "set ?vs = {v}" using assms f(2) by force
  then obtain vs where "?vs = v # vs" "set vs \<subseteq> {v}" by (cases ?vs) auto
  then show ?thesis using assms(1) f by (auto simp: check_tx_results_def)
qed

text \<open>If each transaction is reported once by each of its active shards, with one result, the check accepts.\<close>

lemma agreeing_results_accepted:
  assumes "distinct (map (\<lambda>r. (rec_tx_id r, rec_shard_id r)) rs)"
    and "\<And>t. t \<in> set (concat (map txs bs)) \<Longrightarrow> finite (p_active (participants_of L t)) \<and>
      p_active (participants_of L t) \<noteq> {} \<and> reporting_shards rs (tx_id t) = p_active (participants_of L t) \<and>
      (\<exists>v. \<forall>r \<in> set rs. rec_tx_id r = tx_id t \<longrightarrow> rec_result r = v)"
  shows "assert_tx_results_consistent L bs rs = Ok ()"
proof -
  obtain m where m: "index_results rs = Ok m" using index_results_accept [OF assms(1)] by blast
  note im = index_results_Ok [OF m]
  have "check_tx_results L m t = Ok ()" if t: "t \<in> set (concat (map txs bs))" for t
  proof -
    obtain v where v: "\<forall>r \<in> set rs. rec_tx_id r = tx_id t \<longrightarrow> rec_result r = v" using assms(2) [OF t] by blast
    have "results_entry m (tx_id t) s = Some v" if "s \<in> p_active (participants_of L t)" for s
    proof -
      have "s \<in> reporting_shards rs (tx_id t)" using assms(2) [OF t] that by simp
      then obtain r where r: "r \<in> set rs" "rec_tx_id r = tx_id t" "rec_shard_id r = s" by (auto simp: reporting_shards_def)
      then show ?thesis using im(2) [OF r(1)] v by simp
    qed
    then show ?thesis using assms(2) [OF t] im(3) by (intro check_tx_results_accept) auto
  qed
  moreover have unit: "fold_res f xs () = Ok ()" if "\<And>x. x \<in> set xs \<Longrightarrow> f x () = Ok ()"
    for f :: "'x \<Rightarrow> unit \<Rightarrow> unit result" and xs
    using that by (induction xs) auto
  ultimately have "fold_res (\<lambda>b _. fold_res (\<lambda>t _. check_tx_results L m t) (txs b) ()) bs () = Ok ()"
    by (intro unit) auto
  then show ?thesis by (simp add: assert_tx_results_consistent_def m)
qed

section \<open>The results of a serial execution\<close>

text \<open>
  The result of the transaction at a position of a list, executed in its turn from the state \<open>s\<close>, and
  the records a shard owes for the list, when \<open>A\<close> gives the shards that report a transaction.
\<close>

abbreviation active_shards :: "shard_layout \<Rightarrow> ordered_tx \<Rightarrow> shard_id set" where
  "active_shards L t \<equiv> p_active (participants_of L t)"

definition turn_result :: "fs_state \<Rightarrow> ordered_tx list \<Rightarrow> nat \<Rightarrow> tx_result" where
  "turn_result s ts p =
     result (execute_deterministic (ts ! p) (reads_of (run_txs (take p ts) s) (read_set (ts ! p))))"

definition turn_record :: "fs_state \<Rightarrow> ordered_tx list \<Rightarrow> shard_id \<Rightarrow> nat \<Rightarrow> tx_result_record" where
  "turn_record s ts sh p = \<lparr>rec_tx_id = tx_id (ts ! p), rec_shard_id = sh, rec_result = turn_result s ts p\<rparr>"

definition turn_records ::
    "(ordered_tx \<Rightarrow> shard_id set) \<Rightarrow> fs_state \<Rightarrow> ordered_tx list \<Rightarrow> shard_id \<Rightarrow> tx_result_record list" where
  "turn_records A s ts sh = map (turn_record s ts sh) (filter (\<lambda>p. sh \<in> A (ts ! p)) [0..<length ts])"

lemma turn_result_append:
  "p < length ts \<Longrightarrow> turn_result s (ts @ us) p = turn_result s ts p"
  "turn_result s (ts @ us) (length ts + p) = turn_result (run_txs ts s) us p"
  by (simp_all add: turn_result_def nth_append)

lemma map_filter_positions:
  "map (\<lambda>p. f (xs ! p)) (filter (\<lambda>p. Q (xs ! p)) [0..<length xs]) = map f (filter Q xs)"
  using filter_map [of Q "\<lambda>p. xs ! p" "[0..<length xs]"] by (simp add: map_nth comp_def)

lemma sort_key_append_sorted: "sort_key f (xs @ sort_key f ys) = sort_key f (xs @ ys)"
proof -
  have st: "filter (\<lambda>x. f k = f x) (sort_key f zs) = filter (\<lambda>x. f k = f x) zs" for k zs
    using sort_key_stable [of f "f k" zs] by (simp add: eq_commute)
  show ?thesis by (rule properties_for_sort_key [symmetric]) (simp_all add: st)
qed

lemma map_filter_shifted:
  "map f (filter Q [n..<n + m]) = map (\<lambda>g. f (n + g)) (filter (\<lambda>g. Q (n + g)) [0..<m])"
proof -
  have "[n..<n + m] = map (\<lambda>g. n + g) [0..<m]" using map_add_upt [of n m] by (simp add: add.commute)
  then show ?thesis by (simp add: filter_map comp_def)
qed

lemma turn_records_append:
  "turn_records A s (ts @ us) sh = turn_records A s ts sh @ turn_records A (run_txs ts s) us sh"
proof -
  let ?Q = "\<lambda>p. sh \<in> A ((ts @ us) ! p)" and ?F = "turn_record s (ts @ us) sh"
  have "map ?F (filter ?Q [0..<length ts]) = turn_records A s ts sh"
    unfolding turn_records_def by (intro map_cong filter_cong) (auto simp: turn_record_def turn_result_append nth_append)
  moreover have "map ?F (filter ?Q [length ts..<length ts + length us]) = turn_records A (run_txs ts s) us sh"
    unfolding turn_records_def map_filter_shifted
    by (intro map_cong filter_cong) (auto simp: turn_record_def turn_result_append nth_append)
  moreover have "[0..<length (ts @ us)] = [0..<length ts] @ [length ts..<length ts + length us]"
    unfolding length_append by (rule upt_add_eq_append) simp
  ultimately show ?thesis unfolding turn_records_def [of A s "ts @ us"] by (simp only: filter_append map_append)
qed

lemma distinct_concat_keys:
  assumes "distinct xs" "\<And>x. x \<in> set xs \<Longrightarrow> distinct (map f (g x))"
    and "\<And>x r. x \<in> set xs \<Longrightarrow> r \<in> set (g x) \<Longrightarrow> snd (f r) = x"
  shows "distinct (map f (concat (map g xs)))"
  using assms
proof (induction xs)
  case (Cons x xs)
  have "f r \<noteq> f u" if "r \<in> set (g x)" "y \<in> set xs" "u \<in> set (g y)" for r y u
    using Cons.prems(1,3) that by (metis distinct.simps(2) list.set_intros)
  then have "f ` set (g x) \<inter> f ` set (concat (map g xs)) = {}" by force
  moreover have "distinct (map f (concat (map g xs)))" using Cons by simp
  moreover have "distinct (map f (g x))" using Cons.prems(2) by simp
  ultimately show ?case by (simp only: list.map concat.simps map_append distinct_append set_map)
qed simp

text \<open>The result check accepts the records of a serial execution in whatever order.\<close>

lemma turn_records_accepted:
  assumes rs: "\<And>sh. sh \<in> set shards \<Longrightarrow> mset (records sh) = mset (turn_records (active_shards L) s ts sh)"
    and d: "distinct shards" "distinct (map tx_id ts)" "set (concat (map txs bs)) \<subseteq> set ts"
    and t: "\<And>t. t \<in> set ts \<Longrightarrow> p_active (participants_of L t) \<subseteq> set shards \<and> p_active (participants_of L t) \<noteq> {}"
  shows "assert_tx_results_consistent L bs (concat (map records shards)) = Ok ()"
proof (rule agreeing_results_accepted)
  have mem: "r \<in> set (records sh) \<longleftrightarrow> (\<exists>p < length ts. sh \<in> p_active (participants_of L (ts ! p)) \<and> r = turn_record s ts sh p)"
    if "sh \<in> set shards" for r sh
    using mset_eq_setD [OF rs [OF that]] by (auto simp: turn_records_def)
  have key: "distinct (map (\<lambda>r. (rec_tx_id r, rec_shard_id r)) (records sh))" if "sh \<in> set shards" for sh
  proof -
    have "inj_on (\<lambda>p. (tx_id (ts ! p), sh)) {..<length ts}" using d(2) by (auto simp: inj_on_def distinct_conv_nth)
    then have "distinct (map (\<lambda>r. (rec_tx_id r, rec_shard_id r)) (turn_records (active_shards L) s ts sh))"
      by (auto simp: turn_records_def turn_record_def comp_def distinct_map inj_on_def)
    moreover have "mset (map (\<lambda>r. (rec_tx_id r, rec_shard_id r)) (records sh)) =
        mset (map (\<lambda>r. (rec_tx_id r, rec_shard_id r)) (turn_records (active_shards L) s ts sh))" using rs [OF that] by simp
    ultimately show ?thesis using mset_eq_imp_distinct_iff by blast
  qed
  show "distinct (map (\<lambda>r. (rec_tx_id r, rec_shard_id r)) (concat (map records shards)))"
    by (rule distinct_concat_keys [OF d(1) key]) (auto simp: mem turn_record_def)
  fix t assume "t \<in> set (concat (map txs bs))"
  then have "t \<in> set ts" using d(3) by blast
  then obtain p where p: "p < length ts" "t = ts ! p" by (auto simp: in_set_conv_nth)
  have uniq: "q = p" if "q < length ts" "tx_id (ts ! q) = tx_id t" for q
    using that p d(2) by (simp add: distinct_conv_nth) metis
  have all: "\<exists>sh \<in> set shards. sh \<in> p_active (participants_of L t) \<and> r = turn_record s ts sh p"
    if "r \<in> set (concat (map records shards))" "rec_tx_id r = tx_id t" for r
    using that uniq mem by (fastforce simp: turn_record_def p(2))
  have "reporting_shards (concat (map records shards)) (tx_id t) = p_active (participants_of L t)"
  proof (intro equalityI subsetI)
    fix sh assume "sh \<in> p_active (participants_of L t)"
    then have "turn_record s ts sh p \<in> set (concat (map records shards))"
      using t [OF \<open>t \<in> set ts\<close>] mem [of sh "turn_record s ts sh p"] p by auto
    then show "sh \<in> reporting_shards (concat (map records shards)) (tx_id t)"
      using p(2) by (force simp: reporting_shards_def turn_record_def)
  qed (use all in \<open>fastforce simp: reporting_shards_def turn_record_def\<close>)
  moreover have "rec_result r = turn_result s ts p"
    if "r \<in> set (concat (map records shards))" "rec_tx_id r = tx_id t" for r
    using all [OF that] by (auto simp: turn_record_def)
  ultimately show "finite (p_active (participants_of L t)) \<and> p_active (participants_of L t) \<noteq> {} \<and>
      reporting_shards (concat (map records shards)) (tx_id t) = p_active (participants_of L t) \<and>
      (\<exists>v. \<forall>r \<in> set (concat (map records shards)). rec_tx_id r = tx_id t \<longrightarrow> rec_result r = v)"
    using t [OF \<open>t \<in> set ts\<close>] finite_subset by blast
qed

end
