(* ===== verification/CalvinTheorems.thy ===== *)
theory CalvinTheorems
  imports Calvin LockLate Harness
begin

text \<open>
  What the locking scheduler guarantees: from any start that the prologue accepts, every run of all
  shards ends, none fails, and the stores, the client results and the records are those of the
  serial execution of the batch. The batches of a log run one after the other, since the sequencer
  waits for all shards before it sends the next; their stores together are the reference state.
\<close>

section \<open>The setting\<close>

text \<open>
  A batch per shard, such that the transactions a shard takes part in are, up to their index, those
  of one common list in its order. In the normal case all shards have the same batch; after a
  speculative batch each shard has the fallback batch of its own failed transactions.
\<close>

definition calvin_setting ::
    "lock_batch \<Rightarrow> (shard_id \<Rightarrow> batch) \<Rightarrow> (shard_id \<Rightarrow> spawned) \<Rightarrow> (shard_id \<Rightarrow> fs_state) \<Rightarrow> bool" where
  "calvin_setting B batches sp stores \<longleftrightarrow>
     distinct (map tx_id (lb_txs B)) \<and>
     (\<forall>t \<in> set (lb_txs B). valid_tx t \<and> p_active (participants_of (lb_layout B) t) \<subseteq> lb_peers B) \<and>
     (\<forall>sh. \<exists>mail results. fresh_mailboxes (lb_id B) Calvin mail \<and>
        calvin_prologue (lb_layout B) sh (batches sh) mail results = Ok (sp sh) \<and>
        batch_id (batches sh) = lb_id B \<and>
        map unindexed (filter (\<lambda>t. local_lock_keys (lb_layout B) t sh \<noteq> {}) (txs (batches sh))) =
        map unindexed (filter (\<lambda>t. local_lock_keys (lb_layout B) t sh \<noteq> {}) (lb_txs B))) \<and>
     (\<forall>sh. stores sh = shard_part (lb_layout B) (lb_state B) sh)"

lemma prologue_spawns:
  assumes "calvin_prologue L sh b mail results = Ok sp"
  shows "validate_batch_order b = Ok ()" "\<forall>t \<in> set (txs b). validate_sets t = Ok ()"
    "fold_res (calvin_spawn L sh (batch_id b)) (txs b)
       \<lparr>sp_jobs = [], sp_table = lock_table_new, sp_mail = mail, sp_results = results\<rparr> = Ok sp"
proof -
  show o: "validate_batch_order b = Ok ()"
    and f: "fold_res (calvin_spawn L sh (batch_id b)) (txs b)
       \<lparr>sp_jobs = [], sp_table = lock_table_new, sp_mail = mail, sp_results = results\<rparr> = Ok sp"
    using assms by (auto simp: calvin_prologue_def res_simps)
  have "fold_res (calvin_spawn L sh bid) ts sp0 = Ok sp1 \<Longrightarrow> \<forall>t \<in> set ts. validate_sets t = Ok ()" for bid ts sp0 sp1
    by (induction ts arbitrary: sp0) (auto simp: calvin_spawn_def res_simps)
  then show "\<forall>t \<in> set (txs b). validate_sets t = Ok ()" using f by blast
qed

lemma calvin_setting_spawn:
  assumes C: "calvin_setting B batches sp stores"
  shows "spawn_setting calvin_spawn calvin_kind Calvin B batches sp"
  unfolding spawn_setting_def
proof (intro conjI allI)
  note c = C [unfolded calvin_setting_def]
  show "distinct (map tx_id (lb_txs B))" using c by blast
  show "\<forall>t \<in> set (lb_txs B). valid_tx t \<and> lk_active calvin_kind (lb_layout B) t \<subseteq> lb_peers B"
    using c by (simp add: calvin_kind_def)
  fix sh
  obtain mail results where m: "fresh_mailboxes (lb_id B) Calvin mail" "batch_id (batches sh) = lb_id B"
    "calvin_prologue (lb_layout B) sh (batches sh) mail results = Ok (sp sh)"
    "map unindexed (filter (\<lambda>t. local_lock_keys (lb_layout B) t sh \<noteq> {}) (txs (batches sh))) =
     map unindexed (filter (\<lambda>t. local_lock_keys (lb_layout B) t sh \<noteq> {}) (lb_txs B))" using c by blast
  note p = prologue_spawns [OF m(3)]
  have "filter (takes_part calvin_kind (lb_layout B) sh) ts = filter (\<lambda>t. local_lock_keys (lb_layout B) t sh \<noteq> {}) ts"
    if "\<forall>t \<in> set ts. validate_sets t = Ok ()" for ts
    using that validate_sets_finite(1) by (intro filter_cong) (auto simp: calvin_takes_part)
  then have "map unindexed (filter (takes_part calvin_kind (lb_layout B) sh) (txs (batches sh))) =
      map unindexed (filter (takes_part calvin_kind (lb_layout B) sh) (lb_txs B))"
    using m(4) p(2) c by (simp add: valid_tx_def)
  then show "\<exists>mail results. fresh_mailboxes (lb_id B) Calvin mail \<and>
      lock_prologue calvin_spawn (lb_layout B) sh (batches sh) mail results = Ok (sp sh) \<and>
      (\<forall>t \<in> set (txs (batches sh)). validate_sets t = Ok ()) \<and> batch_id (batches sh) = lb_id B \<and>
      map unindexed (filter (takes_part calvin_kind (lb_layout B) sh) (txs (batches sh))) =
      map unindexed (filter (takes_part calvin_kind (lb_layout B) sh) (lb_txs B))"
    using m(1-3) p(2) unfolding calvin_prologue_lock by blast
qed

lemma calvin_setting_lock:
  assumes "calvin_setting B batches sp stores"
  shows "lock_setting calvin_kind (x_phase calvin_ops) B sp" "stores_hold (lb_layout B) stores (lb_state B)"
  using calvin_loop.setting [OF calvin_setting_spawn [OF assms]] assms
  by (simp_all add: calvin_ops_def calvin_setting_def stores_hold_def)

text \<open>Every batch of valid transactions has a setting.\<close>

lemmas calvin_prologue_accepts = calvin_loop.prologue_accepts [folded calvin_prologue_lock]

lemma calvin_setting_exists:
  assumes "validate_batch_order b = Ok ()"
    and "\<forall>t \<in> set (txs b). valid_tx t \<and> p_active (participants_of L t) \<subseteq> ps"
  shows "\<exists>sp. calvin_setting \<lparr>lb_layout = L, lb_peers = ps, lb_id = batch_id b, lb_txs = txs b, lb_state = s\<rparr>
    (\<lambda>_. b) sp (shard_part L s)"
proof -
  have "\<forall>sh. \<exists>sp. calvin_prologue L sh b mailbox_registry_new Map.empty = Ok sp"
    using calvin_prologue_accepts [OF assms(1) _ fresh_mailboxes_new] assms(2) by (auto simp: valid_tx_def)
  then obtain sp where "\<forall>sh. calvin_prologue L sh b mailbox_registry_new Map.empty = Ok (sp sh)" by metis
  then show ?thesis
    using assms fresh_mailboxes_new by (intro exI [of _ sp]) (force simp: calvin_setting_def validate_batch_order_Ok)
qed

lemma calvin_can_finish:
  assumes "calvin_setting B batches sp stores"
    and "(lock_step calvin_ops (params_for_batch B sp))\<^sup>*\<^sup>* (lock_initial sp stores) c"
  shows "\<exists>c'. (lock_step calvin_ops (params_for_batch B sp))\<^sup>*\<^sup>* c c' \<and> lock_finished (params_for_batch B sp) c'"
  by (rule calvin.lock_can_finish [OF calvin_setting_lock [OF assms(1)] assms(2)])

text \<open>The results of the system are those of the turns of the transactions.\<close>

lemma serial_result_reference:
  assumes "calvin_setting B batches sp stores" "i < lb_size B"
  shows "serial_result B i = turn_result (lb_state B) (lb_txs B) i"
proof -
  have "valid_tx (nth_tx B i)" using assms by (simp add: calvin_setting_def)
  then show ?thesis by (simp add: serial_result_def turn_result_def serial_def op_result_def execute_deterministic_reads_of)
qed

lemma calvin_completion_records:
  assumes "calvin_setting B batches sp stores" "i < lb_size B"
  shows "completion_records (completion_of calvin_kind B sh i) =
    (if sh \<in> p_active (participants_of (lb_layout B) (nth_tx B i)) then [turn_record (lb_state B) (lb_txs B) sh i] else [])"
  using serial_result_reference [OF assms]
  by (simp add: completion_records_def completion_of_def executors_def calvin_kind_def turn_record_def)

lemma concat_if_singleton: "concat (map (\<lambda>i. if Q i then [f i] else []) xs) = map f (filter Q xs)"
  by (induction xs) auto

lemma calvin_serial_records:
  assumes C: "calvin_setting B batches sp stores"
  shows "serial_records calvin_kind B sh = sort_key (\<lambda>r. (rec_tx_id r, rec_shard_id r))
    (turn_records (active_shards (lb_layout B)) (lb_state B) (lb_txs B) sh)"
proof -
  let ?A = "\<lambda>i. sh \<in> p_active (participants_of (lb_layout B) (lb_txs B ! i))"
  have "map (\<lambda>i. completion_records (completion_of calvin_kind B sh i)) (filter (involved calvin_kind B sh) [0..<lb_size B]) =
      map (\<lambda>i. if ?A i then [turn_record (lb_state B) (lb_txs B) sh i] else []) (filter (involved calvin_kind B sh) [0..<lb_size B])"
    by (rule map_cong) (use calvin_completion_records [OF C] in auto)
  then have "concat (map (\<lambda>i. completion_records (completion_of calvin_kind B sh i)) (filter (involved calvin_kind B sh) [0..<lb_size B])) =
      map (turn_record (lb_state B) (lb_txs B) sh) (filter ?A (filter (involved calvin_kind B sh) [0..<lb_size B]))"
    by (simp only: concat_if_singleton)
  moreover have "filter ?A (filter (involved calvin_kind B sh) [0..<lb_size B]) = filter ?A [0..<lb_size B]"
    by (auto simp: involved_def executors_def calvin_kind_def intro: filter_cong)
  ultimately show ?thesis by (simp add: serial_records_def turn_records_def)
qed

lemma calvin_finished:
  assumes "calvin_setting B batches sp stores"
    and "(lock_step calvin_ops (params_for_batch B sp))\<^sup>*\<^sup>* (lock_initial sp stores) c"
    and "lock_finished (params_for_batch B sp) c"
  shows "ls_store c sh = shard_part (lb_layout B) (run_txs (lb_txs B) (lb_state B)) sh"
    "i < lb_size B \<Longrightarrow> ls_results c (the (result_shard (lb_layout B) (lb_txs B ! i))) (tx_id (lb_txs B ! i)) =
      Some (ResultReady (turn_result (lb_state B) (lb_txs B) i))"
    "batch_records c sh = sort_key (\<lambda>r. (rec_tx_id r, rec_shard_id r))
      (turn_records (active_shards (lb_layout B)) (lb_state B) (lb_txs B) sh)"
proof -
  note S = calvin_setting_lock [OF assms(1)]
  note inv = calvin.lock_inv_reachable [OF S assms(2)]
  show "ls_store c sh = shard_part (lb_layout B) (run_txs (lb_txs B) (lb_state B)) sh"
    using finished_store [OF S(1) inv assms(3)] by (simp add: stores_hold_def)
  show "ls_results c (the (result_shard (lb_layout B) (lb_txs B ! i))) (tx_id (lb_txs B ! i)) =
      Some (ResultReady (turn_result (lb_state B) (lb_txs B) i))" if i: "i < lb_size B"
  proof -
    have v: "valid_tx (nth_tx B i)" using assms(1) i by (simp add: calvin_setting_def)
    show ?thesis
      using finished_results [OF S(1) inv assms(3) i] calvin.result_active [OF v, of "lb_layout B"]
        serial_result_reference [OF assms(1) i]
      by (simp add: executors_def calvin_kind_def)
  qed
  have "batch_records c sh = serial_records calvin_kind B sh"
  proof (rule finished_records [OF S(1) inv assms(3)])
    show "inj_on (\<lambda>r. (rec_tx_id r, rec_shard_id r))
        (\<Union>i \<in> {..<lb_size B}. set (completion_records (completion_of calvin_kind B sh i)))"
      using calvin_completion_records [OF assms(1)] nth_id_inject [OF S(1)]
      by (auto simp: inj_on_def turn_record_def split: if_splits)
  qed
  then show "batch_records c sh = sort_key (\<lambda>r. (rec_tx_id r, rec_shard_id r))
      (turn_records (active_shards (lb_layout B)) (lb_state B) (lb_txs B) sh)"
    using calvin_serial_records [OF assms(1)] by simp
qed

section \<open>A small batch\<close>

text \<open>Two reads of the root on one shard, for the witnesses.\<close>

definition stat_batch :: batch where
  "stat_batch = \<lparr>batch_id = 1, txs = [tx_of 0 (Stat root), tx_of 1 (Stat root)]\<rparr>"

definition stat_pair :: lock_batch where
  "stat_pair = \<lparr>lb_layout = \<lparr>shard_count = 1\<rparr>, lb_peers = UNIV, lb_id = 1, lb_txs = txs stat_batch, lb_state = Map.empty\<rparr>"

lemma stat_pair_setting:
  "\<exists>sp. calvin_setting stat_pair (\<lambda>_. stat_batch) sp (shard_part \<lparr>shard_count = 1\<rparr> Map.empty)"
proof -
  have "validate_batch_order stat_batch = Ok ()"
    by (simp add: validate_batch_order_def stat_batch_def tx_of_def)
  then show ?thesis
    using calvin_setting_exists [of stat_batch "\<lparr>shard_count = 1\<rparr>" UNIV Map.empty]
    by (simp add: stat_pair_def stat_batch_def)
qed

lemma stat_pair_finishes:
  obtains sp c where
    "calvin_setting stat_pair (\<lambda>_. stat_batch) sp (shard_part \<lparr>shard_count = 1\<rparr> Map.empty)"
    "(lock_step calvin_ops (params_for_batch stat_pair sp))\<^sup>*\<^sup>* (lock_initial sp (shard_part \<lparr>shard_count = 1\<rparr> Map.empty)) c"
    "lock_finished (params_for_batch stat_pair sp) c"
  using stat_pair_setting calvin_can_finish [OF _ rtranclp.rtrancl_refl] by metis

lemma stat_pair_simps [simp]:
  "lb_txs stat_pair = [tx_of 0 (Stat root), tx_of 1 (Stat root)]" "lb_layout stat_pair = \<lparr>shard_count = 1\<rparr>"
  "lb_state stat_pair = Map.empty" "shard_for_key \<lparr>shard_count = 1\<rparr> k = 0"
  by (simp_all add: stat_pair_def stat_batch_def shard_for_key_def)

section \<open>Properties\<close>

text \<open>C6: The locking scheduler is serializable. Whenever all shards have finished a batch, under any
  interleaving of workers, coordinators and messages, the store of every shard is its part of the
  state after the serial execution of the transactions in batch order, the shard responsible for a
  transaction holds its serial result for the client, and the records of each shard are the serial
  results of the transactions it executes.\<close>

theorem calvin_batch_is_serial:
  assumes "calvin_setting B batches sp stores"
    and "(lock_step calvin_ops (params_for_batch B sp))\<^sup>*\<^sup>* (lock_initial sp stores) c"
    and "lock_finished (params_for_batch B sp) c"
  shows "(\<forall>sh. ls_store c sh = shard_part (lb_layout B) (run_txs (lb_txs B) (lb_state B)) sh) \<and>
    (\<forall>i < lb_size B. ls_results c (the (result_shard (lb_layout B) (lb_txs B ! i))) (tx_id (lb_txs B ! i)) =
      Some (ResultReady (turn_result (lb_state B) (lb_txs B) i))) \<and>
    (\<forall>sh. batch_records c sh = sort_key (\<lambda>r. (rec_tx_id r, rec_shard_id r))
      (turn_records (active_shards (lb_layout B)) (lb_state B) (lb_txs B) sh))"
  using calvin_finished [OF assms] by blast

theorem calvin_batch_is_serial_witness:
  "\<exists>sp c. lock_finished (params_for_batch stat_pair sp) c \<and>
     ls_results c 0 0 = Some (ResultReady NotFound) \<and> ls_store c 0 = Map.empty"
proof -
  obtain sp c where c: "calvin_setting stat_pair (\<lambda>_. stat_batch) sp (shard_part \<lparr>shard_count = 1\<rparr> Map.empty)"
    "(lock_step calvin_ops (params_for_batch stat_pair sp))\<^sup>*\<^sup>* (lock_initial sp (shard_part \<lparr>shard_count = 1\<rparr> Map.empty)) c"
    "lock_finished (params_for_batch stat_pair sp) c" by (rule stat_pair_finishes)
  note t = calvin_batch_is_serial [OF c]
  have "turn_result (lb_state stat_pair) (lb_txs stat_pair) 0 = NotFound"
    by (simp add: turn_result_def execute_deterministic_def exec_stat_def read_key_def reads_of_def
        read_value_of_def no_writes_def)
  moreover have "result_shard \<lparr>shard_count = 1\<rparr> (tx_of 0 (Stat root)) = Some 0"
    by (simp add: result_shard_def result_shard_for_sets_def participants_for_sets_def read_only_coordinator_def Let_def)
  ultimately have "ls_results c 0 0 = Some (ResultReady NotFound)"
    using conjunct1 [OF conjunct2 [OF t], rule_format, of 0] by simp
  moreover have "ls_store c 0 = Map.empty"
    using conjunct1 [OF t, rule_format, of 0]
    by (simp add: apply_reference_tx_eq op_apply_def shard_part_def restrict_map_def)
  ultimately show ?thesis using c(3) by blast
qed

text \<open>C13: The locking scheduler never fails and never deadlocks. From every reachable state of an
  accepted batch no shard has failed, and some continuation finishes the batch on all shards; a
  state in which no step is possible is finished.\<close>

theorem calvin_batch_finishes:
  assumes "calvin_setting B batches sp stores"
    and "(lock_step calvin_ops (params_for_batch B sp))\<^sup>*\<^sup>* (lock_initial sp stores) c"
  shows "(\<forall>sh. ls_failed c sh = None) \<and>
    (\<exists>c'. (lock_step calvin_ops (params_for_batch B sp))\<^sup>*\<^sup>* c c' \<and> lock_finished (params_for_batch B sp) c') \<and>
    ((\<exists>c'. lock_step calvin_ops (params_for_batch B sp) c c') \<or> lock_finished (params_for_batch B sp) c)"
proof (intro conjI)
  note inv = calvin.lock_inv_reachable [OF calvin_setting_lock [OF assms(1)] assms(2)]
  show "\<forall>sh. ls_failed c sh = None" using lock_invD(1) [OF inv] by blast
  show "\<exists>c'. (lock_step calvin_ops (params_for_batch B sp))\<^sup>*\<^sup>* c c' \<and> lock_finished (params_for_batch B sp) c'"
    by (rule calvin_can_finish [OF assms])
  show "(\<exists>c'. lock_step calvin_ops (params_for_batch B sp) c c') \<or> lock_finished (params_for_batch B sp) c"
    using calvin.lock_progress [OF calvin_setting_lock(1) [OF assms(1)] inv] by blast
qed

theorem calvin_batch_finishes_witness:
  "\<exists>sp. \<forall>sh. ls_failed (lock_initial sp (shard_part \<lparr>shard_count = 1\<rparr> Map.empty)) sh = None \<and>
     sp_jobs (sp 0) \<noteq> []"
proof -
  obtain sp where sp: "calvin_setting stat_pair (\<lambda>_. stat_batch) sp (shard_part \<lparr>shard_count = 1\<rparr> Map.empty)"
    using stat_pair_setting by blast
  have "involved calvin_kind stat_pair 0 0"
    by (simp add: involved_def read_sources_def participants_of_def participants_all)
  then have "nth_id stat_pair 0 \<in> lw_id ` set (sp_jobs (sp 0))"
    unfolding lock_jobs_ids [OF calvin_setting_lock(1) [OF sp]] by force
  then show ?thesis using calvin_batch_finishes [OF sp rtranclp.rtrancl_refl] by auto
qed

text \<open>C14: Every run of a locked batch is finite, whatever the batch and the messages are.\<close>

theorem calvin_runs_terminate: "wfP (\<lambda>c' c. lock_step calvin_ops P c c')"
  by (rule calvin.lock_runs_finite)

text \<open>C15: Locks are exclusive and no mailbox closes early. At any moment of a run of a locked batch: a
  worker past its lock grants, which has read but not yet executed, shares no local key with another
  such worker of its shard (a transaction of the same shard that comes earlier in the batch and shares a
  key is executed already, a later one has not read); every message in transit finds its mailbox open
  when it is delivered, at whatever moment it arrives; and no shard has failed.\<close>

theorem calvin_locks_exclusive:
  assumes "calvin_setting B batches sp stores"
    and "(lock_step calvin_ops (params_for_batch B sp))\<^sup>*\<^sup>* (lock_initial sp stores) c"
  shows "(\<forall>sh i j r. i < lb_size B \<longrightarrow> j < lb_size B \<longrightarrow> j \<noteq> i \<longrightarrow>
        ls_state c sh (tx_id (lb_txs B ! i)) = ReadCollect r \<longrightarrow>
        local_lock_keys (lb_layout B) (lb_txs B ! i) sh \<inter> local_lock_keys (lb_layout B) (lb_txs B ! j) sh \<noteq> {} \<longrightarrow>
        (if j < i then is_lock_done (ls_state c sh (tx_id (lb_txs B ! j)))
         else ls_state c sh (tx_id (lb_txs B ! j)) = LockWait)) \<and>
    (\<forall>target m. (target, m) \<in># ls_net c \<longrightarrow> fst (route m (ls_mail c target)) = Ok ()) \<and>
    ls_failed c = Map.empty"
proof (intro conjI allI impI)
  note S = calvin_setting_lock(1) [OF assms(1)]
  note inv = calvin.lock_inv_reachable [OF calvin_setting_lock [OF assms(1)] assms(2)]
  show "fst (route m (ls_mail c target)) = Ok ()" if "(target, m) \<in># ls_net c" for target m
    using in_transit_open [OF S lock_invD(6) [OF inv] that] by (simp add: route_result)
  show "ls_failed c = Map.empty" using lock_invD(1) [OF inv] by blast
  fix sh i j r
  assume i: "i < lb_size B" and j: "j < lb_size B" "j \<noteq> i" and st: "ls_state c sh (nth_id B i) = ReadCollect r"
    and "local_lock_keys (lb_layout B) (lb_txs B ! i) sh \<inter> local_lock_keys (lb_layout B) (lb_txs B ! j) sh \<noteq> {}"
  then obtain k where k: "k \<in> lkeys B sh i" "k \<in> lkeys B sh j" by (auto simp: lkeys_def)
  have hi: "holds B c sh i"
    using lock_invD(5) [OF inv i lkeys_involved [OF k(1)]] st by (simp add: worker_inv_def)
  then have hk: "holder (ls_locks c sh) k = Some (nth_id B i)" using k by (simp add: holds_def)
  have sep: "done_at B c sh j \<longleftrightarrow> j < i"
    by (rule holder_separates [OF S inv i _ hk j(1) k(2)]) (use st in simp)
  have "ls_state c sh (nth_id B j) \<noteq> ReadCollect r'" for r'
  proof
    assume "ls_state c sh (nth_id B j) = ReadCollect r'"
    then have "holds B c sh j"
      using lock_invD(5) [OF inv j(1) lkeys_involved [OF k(2)]] by (simp add: worker_inv_def)
    then show False using hk k(2) nth_id_inject [OF S i j(1)] j(2) by (simp add: holds_def)
  qed
  then show "if j < i then is_lock_done (ls_state c sh (nth_id B j)) else ls_state c sh (nth_id B j) = LockWait"
    using sep by (cases "ls_state c sh (nth_id B j)") (auto simp: is_lock_done_def)
qed

theorem calvin_locks_exclusive_witness:
  "\<exists>sp c. (lock_step calvin_ops (params_for_batch stat_pair sp))\<^sup>*\<^sup>*
       (lock_initial sp (shard_part \<lparr>shard_count = 1\<rparr> Map.empty)) c \<and>
     ls_state c 0 0 \<noteq> LockWait \<and> ls_state c 0 1 = LockWait"
proof -
  let ?s0 = "shard_part \<lparr>shard_count = 1\<rparr> Map.empty"
  obtain sp where sp: "calvin_setting stat_pair (\<lambda>_. stat_batch) sp ?s0" using stat_pair_setting by blast
  note S = calvin_setting_lock [OF sp]
  let ?c = "lock_initial sp ?s0" and ?B = stat_pair
  note inv = calvin.lock_inv_reachable [OF S rtranclp.rtrancl_refl]
  have i: "involved calvin_kind ?B 0 0" "0 < lb_size ?B" "0 \<in> executors calvin_kind ?B 0"
    by (simp_all add: involved_def read_sources_def executors_def calvin_kind_def participants_of_def
        participants_all participants_active_read_only)
  obtain w where w: "w \<in> set (sp_jobs (sp 0))" "is_job calvin_kind (lb_layout ?B) 0 (nth_tx ?B 0) w" "lw_id w = nth_id ?B 0"
    by (rule worker_of_job [OF S(1) i(2,1)])
  have st: "ls_state ?c 0 (nth_id ?B 0) = LockWait" "ls_handled ?c 0 = {}" by (simp_all add: lock_initial_def)
  have h: "holds ?B ?c 0 0"
    unfolding holds_def holder_iff [OF S(1) lock_invD(2) [OF inv] i(2)] using st by simp
  obtain ms where ms: "x_start calvin_ops (ctx_of (params_for_batch ?B sp) 0) w (ls_store ?c 0) =
      Ok (ms, Some (reads_of (serial ?B 0) (rkeys ?B 0 0)))"
    by (rule calvin.start_at [OF S(1) inv i(2,1) w(2) st(1) h]) (use i(3) in simp)
  let ?c' = "send_reads ms (set_state 0 (lw_id w) (ReadCollect (reads_of (serial ?B 0) (rkeys ?B 0 0))) ?c)"
  have "lock_step calvin_ops (params_for_batch ?B sp) ?c ?c'"
    by (rule lock_step.start_active [OF lock_invD(1) [OF inv] _ _ _ ms])
      (use w st(1) calvin.wait_at [OF S(1) inv i(2,1) w(2) st(1)] h in \<open>simp_all add: lock_params_of_def\<close>)
  then have r: "(lock_step calvin_ops (params_for_batch ?B sp))\<^sup>*\<^sup>* ?c ?c'" by blast
  have c': "ls_state ?c' 0 (tx_id (lb_txs ?B ! 0)) = ReadCollect (reads_of (serial ?B 0) (rkeys ?B 0 0))"
    using w(3) by simp
  have "ls_state ?c' 0 (tx_id (lb_txs ?B ! 1)) = LockWait"
  proof -
    have "if 1 < (0 :: nat) then is_lock_done (ls_state ?c' 0 (tx_id (lb_txs ?B ! 1)))
      else ls_state ?c' 0 (tx_id (lb_txs ?B ! 1)) = LockWait"
      by (rule conjunct1 [OF calvin_locks_exclusive [OF sp r], rule_format, OF i(2) _ _ c'])
        (simp_all add: local_lock_keys_def)
    then show ?thesis by simp
  qed
  then show ?thesis using r c' by (intro exI [of _ sp] exI [of _ ?c']) simp
qed

text \<open>A shard accepts a batch exactly if its indices count up from zero, its transaction ids are
  distinct and every read and write set is the derived one; the workers it spawns are those of the
  transactions with local keys, in batch order.\<close>

theorem calvin_prologue_checks:
  assumes "fresh_mailboxes (batch_id b) Calvin mail"
  shows "((\<exists>sp. calvin_prologue L sh b mail results = Ok sp) \<longleftrightarrow>
      (\<forall>i < length (txs b). unat (batch_index (txs b ! i)) = i) \<and> distinct (map tx_id (txs b)) \<and>
      (\<forall>t \<in> set (txs b). derive_read_write_set (op t) = Ok (read_set t, write_set t))) \<and>
    (\<forall>sp. calvin_prologue L sh b mail results = Ok sp \<longrightarrow>
      map lw_tx (sp_jobs sp) = filter (\<lambda>t. local_lock_keys L t sh \<noteq> {}) (txs b))"
proof (intro conjI allI impI)
  show "(\<exists>sp. calvin_prologue L sh b mail results = Ok sp) \<longleftrightarrow>
      (\<forall>i < length (txs b). unat (batch_index (txs b ! i)) = i) \<and> distinct (map tx_id (txs b)) \<and>
      (\<forall>t \<in> set (txs b). derive_read_write_set (op t) = Ok (read_set t, write_set t))"
    using calvin_prologue_accepts [OF _ _ assms] prologue_spawns
    by (simp only: validate_batch_order_Ok validate_sets_Ok_iff) meson
next
  fix sp assume sp: "calvin_prologue L sh b mail results = Ok sp"
  note p = prologue_spawns [OF sp]
  have "sp_jobs sp = map (calvin_job L sh) (filter (takes_part calvin_kind L sh) (txs b))"
    using calvin_loop.prologue_outcome [OF p(1,2) assms, of L sh results] sp by (auto simp: calvin_prologue_lock)
  moreover have "filter (takes_part calvin_kind L sh) (txs b) = filter (\<lambda>t. local_lock_keys L t sh \<noteq> {}) (txs b)"
    using p(2) validate_sets_finite(1) by (intro filter_cong) (auto simp: calvin_takes_part)
  ultimately show "map lw_tx (sp_jobs sp) = filter (\<lambda>t. local_lock_keys L t sh \<noteq> {}) (txs b)"
    by (simp add: calvin_job_def comp_def)
qed

theorem calvin_prologue_checks_witness:
  "\<exists>sp. calvin_prologue \<lparr>shard_count = 1\<rparr> 0 stat_batch mailbox_registry_new Map.empty = Ok sp"
  using calvin_prologue_checks [where L = "\<lparr>shard_count = 1\<rparr>" and sh = 0 and b = stat_batch
      and results = Map.empty, OF fresh_mailboxes_new]
  by (simp add: stat_batch_def derive_eq tx_of_def less_Suc_eq)

section \<open>Logs of batches\<close>

text \<open>
  A shard enters a batch with its prologue, at any moment; its store is where the last batch left it.
\<close>

definition calvin_entry ::
    "shard_layout \<Rightarrow> batch \<Rightarrow> (shard_id \<Rightarrow> fs_state) \<Rightarrow> (shard_id \<Rightarrow> tx_result_registry) \<Rightarrow> unit \<Rightarrow> shard_id
      \<Rightarrow> mailbox_registry \<Rightarrow> (fs_state \<times> spawned) result" where
  "calvin_entry L b stores results c sh mail =
     rbind (calvin_prologue L sh b mail (results sh)) (\<lambda>sp. Ok (stores sh, sp))"

interpretation calvin_mail: mail_spawner calvin_spawn
proof unfold_locales
  fix L sh bid t sp sp' and n :: mailbox_registry
  assume s: "calvin_spawn L sh bid t sp = Ok sp'" and n: "taken_mailbox n = taken_mailbox (sp_mail sp)"
  show "\<exists>n'. calvin_spawn L sh bid t (sp\<lparr>sp_mail := n\<rparr>) = Ok (sp'\<lparr>sp_mail := n'\<rparr>) \<and> same_mail n' n \<and>
      taken_mailbox n' = taken_mailbox (sp_mail sp')"
    using s same_receiver [OF n] n
    by (intro exI [of _ "if local_lock_keys L t sh \<noteq> {} \<and> sh \<in> p_active (participants_of L t)
        then snd (receiver bid (tx_id t) Calvin (max (card (p_all (participants_of L t))) 1) n) else n"])
      (auto simp: calvin_spawn_def res_simps Let_def case_prod_beta split: if_splits option.splits)
qed

interpretation calvin_late: late_phases "\<lambda>_ _. False" "\<lambda>_ _. True" "calvin_entry L b stores results" "\<lambda>_. True"
  for L b stores results
proof unfold_locales
  fix c sh m s sp and n :: mailbox_registry
  assume e: "calvin_entry L b stores results c sh m = Ok (s, sp)" and n: "taken_mailbox n = taken_mailbox m"
  then have "calvin_prologue L sh b m (results sh) = Ok sp" "s = stores sh" by (auto simp: calvin_entry_def rbind_eq_Inr)
  then show "\<exists>n'. calvin_entry L b stores results c sh n = Ok (s, sp\<lparr>sp_mail := n'\<rparr>) \<and> same_mail n' n \<and>
      taken_mailbox n' = taken_mailbox (sp_mail sp)"
    using calvin_mail.prologue_mail [OF _ n, of L sh b "results sh" sp] by (auto simp: calvin_entry_def calvin_prologue_lock)
qed simp_all

text \<open>
  The batches of a log on all shards, one after the other: the stores start empty, a batch starts
  where the last one left them, and ends when all shards have finished it. A shard enters with whatever
  mailboxes and results it has then. The records are those of the summaries the sequencer receives.
\<close>

inductive calvin_execution ::
    "shard_layout \<Rightarrow> shard_id set \<Rightarrow> batch list \<Rightarrow> (shard_id \<Rightarrow> fs_state) \<Rightarrow> (shard_id \<Rightarrow> tx_result_record list) \<Rightarrow> bool"
  for L ps where
  no_batch: "calvin_execution L ps [] (\<lambda>_. Map.empty) (\<lambda>_. [])"
| next_batch:
    "calvin_execution L ps bs stores records \<Longrightarrow>
     (\<And>sh. fresh_mailboxes (batch_id b) Calvin (mail sh)) \<Longrightarrow>
     (late_step calvin_ops L ps (batch_id b) (\<lambda>_ _. False) (\<lambda>_ _. True) (calvin_entry L b stores results))\<^sup>*\<^sup>*
       (late_initial () stores mail results) l \<Longrightarrow>
     late_finished L ps (batch_id b) UNIV l \<Longrightarrow>
     calvin_execution L ps (bs @ [b]) (ls_store (lt_lock l)) (\<lambda>sh. records sh @ batch_records (lt_lock l) sh)"

text \<open>It leaves what a run leaves in which all shards have entered at the start.\<close>

lemma calvin_entered_together:
  assumes "(late_step calvin_ops L ps (batch_id b) (\<lambda>_ _. False) (\<lambda>_ _. True) (calvin_entry L b stores results))\<^sup>*\<^sup>*
      (late_initial () stores mail results) l"
    and "late_finished L ps (batch_id b) UNIV l"
  obtains sp d where "\<And>sh. calvin_prologue L sh b (mail sh) (results sh) = Ok (sp sh)"
    "(lock_step calvin_ops (lock_params_of L ps (batch_id b) sp))\<^sup>*\<^sup>* (lock_initial sp stores) d"
    "lock_finished (lock_params_of L ps (batch_id b) sp) d"
    "ls_store (lt_lock l) = ls_store d" "\<And>sh. batch_records (lt_lock l) sh = batch_records d sh"
proof -
  obtain sp st d where r: "\<And>sh. calvin_entry L b stores results (lt_first l) sh (mail sh) = Ok (st sh, sp sh)"
    "(lock_step calvin_ops (lock_params_of L ps (batch_id b) sp))\<^sup>*\<^sup>* (lock_initial sp st) d"
    "lock_finished (lock_params_of L ps (batch_id b) sp) d" "\<And>sh. lock_view (lt_lock l) sh = lock_view d sh"
    by (rule calvin_late.late_run [OF assms]) auto
  have p: "calvin_prologue L sh b (mail sh) (results sh) = Ok (sp sh) \<and> st sh = stores sh" for sh
    using r(1) [of sh] by (auto simp: calvin_entry_def rbind_eq_Inr)
  then have "st = stores" by auto
  then show thesis using that [of sp d] p r(2-4) by (auto simp: lock_view_eq batch_records_def)
qed

lemma calvin_execution_outcome:
  assumes "calvin_execution L ps bs stores records"
    and "\<forall>t \<in> set (concat (map txs bs)). valid_op (op t) \<and> p_active (participants_of L t) \<subseteq> ps"
  shows "stores = shard_part L (reference_execute_batches bs) \<and>
    (\<forall>sh. mset (records sh) = mset (turn_records (active_shards L) Map.empty (concat (map txs bs)) sh)) \<and>
    (\<forall>t \<in> set (concat (map txs bs)). valid_tx t)"
  using assms
proof (induction)
  case no_batch
  show ?case by (simp add: reference_execute_batches_concat shard_part_def restrict_map_def turn_records_def fun_eq_iff)
next
  case (next_batch bs stores records b mail results l)
  obtain sp d where d: "\<And>sh. calvin_prologue L sh b (mail sh) (results sh) = Ok (sp sh)"
    "(lock_step calvin_ops (lock_params_of L ps (batch_id b) sp))\<^sup>*\<^sup>* (lock_initial sp stores) d"
    "lock_finished (lock_params_of L ps (batch_id b) sp) d"
    "ls_store (lt_lock l) = ls_store d" "\<And>sh. batch_records (lt_lock l) sh = batch_records d sh"
    using calvin_entered_together [OF next_batch.hyps(3,4)] by blast
  let ?s = "reference_execute_batches bs"
  let ?B = "\<lparr>lb_layout = L, lb_peers = ps, lb_id = batch_id b, lb_txs = txs b, lb_state = ?s\<rparr>"
  have IH: "stores = shard_part L ?s" "mset (records sh) = mset (turn_records (active_shards L) Map.empty (concat (map txs bs)) sh)"
    "\<forall>t \<in> set (concat (map txs bs)). valid_tx t" for sh using next_batch.IH next_batch.prems by auto
  have v: "valid_tx t \<and> p_active (participants_of L t) \<subseteq> ps" if "t \<in> set (txs b)" for t
    using next_batch.prems that prologue_spawns(2) [OF d(1)] by (simp add: valid_tx_def)
  moreover have "distinct (map tx_id (txs b))"
    using prologue_spawns(1) [OF d(1)] by (simp add: validate_batch_order_Ok)
  ultimately have C: "calvin_setting ?B (\<lambda>_. b) sp stores"
    using next_batch.hyps(2) d(1) IH(1) by (force simp: calvin_setting_def)
  have "ls_store d = shard_part L (run_txs (txs b) ?s)"
    "batch_records d sh = sort_key (\<lambda>r. (rec_tx_id r, rec_shard_id r)) (turn_records (active_shards L) ?s (txs b) sh)" for sh
    using calvin_finished [OF C] d(2,3) by (auto simp: fun_eq_iff)
  then show ?case using IH v d(4,5) by (auto simp: reference_execute_batches_concat turn_records_append)
qed

lemma run_txs_finite: "finite (dom s) \<Longrightarrow> finite (dom (run_txs ts s))"
proof (induction ts arbitrary: s)
  case (Cons t ts)
  have "finite (dom (apply_writes s ws))" if "finite (dom s)" for ws and s :: fs_state
    using that
  proof (induction ws arbitrary: s)
    case (Cons w ws)
    have "finite (dom (apply_write w s))" using Cons.prems by (cases w) auto
    then show ?case using Cons.IH by simp
  qed simp
  then show ?case using Cons by (simp add: apply_reference_tx_def)
qed simp

end
