(* ===== verification/SccFallback.thy ===== *)
theory SccFallback
  imports SccTheorems CalvinTheorems
begin

text \<open>
  The whole of \<open>execute_scc_batch\<close> in \<open>src/engine.rs\<close>: the speculative phase, the installation of
  its successes and the fallback, which runs the failed transactions under the locking scheduler.
  Each shard builds the fallback batch from its own failed slots, so the batches of the shards
  differ; they agree on the transactions a shard takes part in, which is what the locking scheduler
  needs. A shard enters its fallback while others still speculate; \<open>SccBatch\<close> models that and reduces
  it to the runs of this theory and the next, in which all shards have finished the speculative phase
  and spawned their fallback workers at the start.
\<close>

definition failed_at :: "scc_system \<Rightarrow> shard_id \<Rightarrow> nat set" where
  "failed_at c sh = failed_indices_from_snapshot (terminal_snapshot (slots c sh))"

text \<open>What a shard hands to the fallback: the store after the install and the spawned workers.\<close>

definition fallback_start ::
    "shard_layout \<Rightarrow> batch \<Rightarrow> scc_system \<Rightarrow> shard_id \<Rightarrow> mailbox_registry \<Rightarrow> tx_result_registry \<Rightarrow> fs_state
      \<Rightarrow> (fs_state \<times> spawned) result" where
  "fallback_start L b c sh mail results store =
     rbind (install_scc_successes (terminal_snapshot (slots c sh)) (failed_at c sh) store) (\<lambda>store'.
     rbind (if failed_at c sh = {} then Ok (no_workers mail results)
       else calvin_prologue L sh (fallback_batch_from_failed_indices b (failed_at c sh)) mail results) (\<lambda>sp.
     Ok (store', sp)))"

lemma no_txs_order [simp]: "validate_batch_order \<lparr>batch_id = i, txs = []\<rparr> = Ok ()"
  by (simp add: validate_batch_order_Ok)

lemma fallback_start_prologue:
  "fallback_start L b c sh mail results store =
     rbind (install_scc_successes (terminal_snapshot (slots c sh)) (failed_at c sh) store) (\<lambda>store'.
     rbind (calvin_prologue L sh (fallback_batch_from_failed_indices b (failed_at c sh)) mail results) (\<lambda>sp.
     Ok (store', sp)))"
  by (simp add: fallback_start_def calvin_prologue_def fallback_batch_from_failed_indices_def no_workers_def)

definition scc_fallback_txs :: "shard_layout \<Rightarrow> batch \<Rightarrow> fs_state \<Rightarrow> ordered_tx list" where
  "scc_fallback_txs L b s0 = map (\<lambda>i. txs b ! i) (filter (\<lambda>i. \<not> scc_ok L b s0 i) [0..<length (txs b)])"

abbreviation scc_fallback_batch :: "shard_layout \<Rightarrow> shard_id set \<Rightarrow> batch \<Rightarrow> fs_state \<Rightarrow> lock_batch" where
  "scc_fallback_batch L ps b s0 \<equiv>
     \<lparr>lb_layout = L, lb_peers = ps, lb_id = batch_id b, lb_txs = scc_fallback_txs L b s0,
      lb_state = scc_state L b s0 (length (txs b))\<rparr>"

lemma unindexed_update [simp]: "unindexed (t\<lparr>batch_index := j\<rparr>) = unindexed t"
  by (simp add: unindexed_def)

lemma unindexed_fallback:
  "map unindexed (txs (fallback_batch_from_failed_indices b F)) = map (\<lambda>i. unindexed (txs b ! i)) (sorted_list_of_set F)"
proof -
  have "map (\<lambda>p. unindexed (txs b ! snd p)) (enumerate 0 xs) = map (\<lambda>i. unindexed (txs b ! i)) xs" for xs
    using map_map [of "\<lambda>i. unindexed (txs b ! i)" snd "enumerate 0 xs"] by (simp add: comp_def)
  then show ?thesis by (simp add: fallback_batch_from_failed_indices_def case_prod_beta comp_def)
qed

lemma filter_map_unindexed:
  "map unindexed (filter (\<lambda>t. local_lock_keys L t sh \<noteq> {}) ts) =
     filter (\<lambda>t. local_lock_keys L t sh \<noteq> {}) (map unindexed ts)"
  by (simp add: filter_map comp_def)

lemma fallback_batch_id [simp]: "batch_id (fallback_batch_from_failed_indices b F) = batch_id b"
  by (simp add: fallback_batch_from_failed_indices_def)

text \<open>The fallback batch of every shard is accepted, and restricted to the shard it is the common one.\<close>

lemma fallback_batch_common:
  assumes "F = {i. i < length (txs b) \<and> sh \<in> parts L b i \<and> \<not> scc_ok L b s0 i}"
  shows "map unindexed (filter (\<lambda>t. local_lock_keys L t sh \<noteq> {}) (txs (fallback_batch_from_failed_indices b F))) =
    map unindexed (filter (\<lambda>t. local_lock_keys L t sh \<noteq> {}) (scc_fallback_txs L b s0))"
proof -
  have s: "sorted_list_of_set F = filter (\<lambda>i. sh \<in> parts L b i \<and> \<not> scc_ok L b s0 i) [0..<length (txs b)]"
    unfolding assms by (rule sorted_list_filter)
  show ?thesis
    unfolding filter_map_unindexed unindexed_fallback s
    by (simp add: scc_fallback_txs_def filter_map comp_def local_lock_keys_participant conj_commute)
      (auto intro!: arg_cong [where f = "map _"] filter_cong)
qed

lemma fallback_order:
  assumes "distinct (map tx_id (txs b))" "F \<subseteq> {0..<length (txs b)}" "length (txs b) \<le> 2 ^ 32"
  shows "validate_batch_order (fallback_batch_from_failed_indices b F) = Ok ()"
  unfolding validate_batch_order_Ok
proof (intro conjI allI impI)
  have fin: "finite F" using assms(2) finite_subset by blast
  have len: "card F \<le> 2 ^ 32" using card_mono [OF _ assms(2)] assms(3) by simp
  let ?f = "fallback_batch_from_failed_indices b F"
  have ids: "map tx_id (txs ?f) = map (\<lambda>i. tx_id (txs b ! i)) (sorted_list_of_set F)"
    using arg_cong [where f = "map tx_id", OF unindexed_fallback [of b F]] by (simp add: comp_def)
  have "inj_on (\<lambda>i. tx_id (txs b ! i)) F"
    using assms(1,2) nth_eq_iff_index_eq [OF assms(1)] by (auto simp: inj_on_def subset_iff)
  then show "distinct (map tx_id (txs ?f))" unfolding ids using fin by (simp add: distinct_map)
  fix j assume j: "j < length (txs ?f)"
  then have "j < card F" using fin by (simp add: fallback_batch_from_failed_indices_def)
  then show "unat (batch_index (txs ?f ! j)) = j"
    using len fin by (simp add: fallback_batch_from_failed_indices_def nth_enumerate_eq unat_of_nat)
qed

lemma failed_at_finished:
  assumes "scc_setting L b s0 ps P" "scc_initial P = Ok c0" "(scc_step P)\<^sup>*\<^sup>* c0 c"
    and "\<forall>sh. reported c sh = {..<length (txs b)}"
  shows "failed_at c sh = {i. i < length (txs b) \<and> sh \<in> parts L b i \<and> \<not> scc_ok L b s0 i}"
  using finished_failed [OF scc_inv_reachable [OF assms(1-3)]] assms(4)
  by (simp add: failed_at_def terminal_snapshot_def)

lemma scc_fallback_accepted:
  assumes S: "scc_setting L b s0 ps P" and run: "scc_initial P = Ok c0" "(scc_step P)\<^sup>*\<^sup>* c0 c"
    and all: "\<forall>sh. reported c sh = {..<length (txs b)}" and len: "length (txs b) \<le> 2 ^ 32"
    and m: "fresh_mailboxes (batch_id b) Calvin mail"
  shows "\<exists>sp. fallback_start L b c sh mail results (shard_part L s0 sh) =
    Ok (shard_part L (scc_state L b s0 (length (txs b))) sh, sp)"
proof -
  note sd = scc_settingD [OF S]
  note F = failed_at_finished [OF S run all, of sh]
  have sub: "failed_at c sh \<subseteq> {0..<length (txs b)}" by (auto simp: F)
  let ?f = "fallback_batch_from_failed_indices b (failed_at c sh)"
  have "validate_sets t = Ok ()" if "t \<in> set (txs ?f)" for t
  proof -
    have "unindexed t \<in> set (map unindexed (txs ?f))" using that by simp
    then obtain i where i: "i \<in> failed_at c sh" "unindexed t = unindexed (txs b ! i)"
      unfolding unindexed_fallback using finite_subset [OF sub] by auto
    then have "valid_tx (txs b ! i)" using scc_batchD(1) [OF sd(1), of i] sub by auto
    then show ?thesis using unindexed_eq(2-4) [OF i(2)] by (simp add: valid_tx_def validate_sets_Ok_iff)
  qed
  then obtain sp where sp: "calvin_prologue L sh ?f mail results = Ok sp"
    using calvin_prologue_accepts [OF fallback_order [OF sd(2) sub len], of mail L sh results] m
    by (auto simp: fallback_batch_id)
  have i: "install_scc_successes (slots c sh) (failed_at c sh) (shard_part L s0 sh) =
      Ok (shard_part L (scc_state L b s0 (length (txs b))) sh)"
    by (rule install_finished [OF sd(1) finished_slots [OF scc_inv_reachable [OF S run]] F]) (simp add: all)
  show ?thesis using sp i by (simp add: fallback_start_prologue terminal_snapshot_def)
qed

lemma scc_fallback_setting:
  assumes S: "scc_setting L b s0 ps P" and run: "scc_initial P = Ok c0" "(scc_step P)\<^sup>*\<^sup>* c0 c"
    and all: "\<forall>sh. reported c sh = {..<length (txs b)}"
    and m: "\<And>sh. fresh_mailboxes (batch_id b) Calvin (mail sh)"
    and f: "\<And>sh. fallback_start L b c sh (mail sh) (results sh) (shard_part L s0 sh) = Ok (stores sh, sp sh)"
  shows "calvin_setting (scc_fallback_batch L ps b s0)
    (\<lambda>sh. fallback_batch_from_failed_indices b (failed_at c sh)) sp stores"
  unfolding calvin_setting_def
proof (intro conjI allI ballI)
  note sd = scc_settingD [OF S]
  let ?B = "scc_fallback_batch L ps b s0"
  have "map tx_id (scc_fallback_txs L b s0) = map (\<lambda>i. map tx_id (txs b) ! i) (filter (\<lambda>i. \<not> scc_ok L b s0 i) [0..<length (txs b)])"
    by (simp add: scc_fallback_txs_def)
  moreover have "inj_on (\<lambda>i. map tx_id (txs b) ! i) (set (filter (\<lambda>i. \<not> scc_ok L b s0 i) [0..<length (txs b)]))"
    using inj_on_nth [OF sd(2)] by (simp add: subset_iff)
  ultimately show "distinct (map tx_id (lb_txs ?B))" by (simp only: distinct_map lock_batch.simps) simp
  show "valid_tx t" if "t \<in> set (lb_txs ?B)" for t
    using that scc_batchD(1) [OF sd(1)] by (auto simp: scc_fallback_txs_def)
  then show "p_active (participants_of (lb_layout ?B) t) \<subseteq> lb_peers ?B" if "t \<in> set (lb_txs ?B)" for t
    using that sd(6) calvin_active_sub by (fastforce simp: scc_fallback_txs_def)
  fix sh
  note F = failed_at_finished [OF S run all, of sh]
  let ?f = "fallback_batch_from_failed_indices b (failed_at c sh)"
  have c: "calvin_prologue L sh ?f (mail sh) (results sh) = Ok (sp sh)"
    and i: "install_scc_successes (slots c sh) (failed_at c sh) (shard_part L s0 sh) = Ok (stores sh)"
    using f [of sh] by (auto simp: fallback_start_prologue terminal_snapshot_def res_simps)
  show "\<exists>mail results. fresh_mailboxes (lb_id ?B) Calvin mail \<and>
      calvin_prologue (lb_layout ?B) sh ?f mail results = Ok (sp sh) \<and> batch_id ?f = lb_id ?B \<and>
      map unindexed (filter (\<lambda>t. local_lock_keys (lb_layout ?B) t sh \<noteq> {}) (txs ?f)) =
      map unindexed (filter (\<lambda>t. local_lock_keys (lb_layout ?B) t sh \<noteq> {}) (lb_txs ?B))"
    using m c fallback_batch_common [OF F]
    by (intro exI [of _ "mail sh"] exI [of _ "results sh"]) (simp add: fallback_batch_from_failed_indices_def)
  have "install_scc_successes (slots c sh) (failed_at c sh) (shard_part L s0 sh) =
      Ok (shard_part L (scc_state L b s0 (length (txs b))) sh)"
    by (rule install_finished [OF sd(1) finished_slots [OF scc_inv_reachable [OF S run]] F]) (simp add: all)
  then show "stores sh = shard_part (lb_layout ?B) (lb_state ?B) sh" using i by simp
qed

section \<open>Positions in the recorded order\<close>

lemma take_filter_upt:
  "p < length (filter Q [0..<n]) \<Longrightarrow> take p (filter Q [0..<n]) = filter Q [0..<filter Q [0..<n] ! p]"
proof (induction n)
  case (Suc n)
  then show ?case by (cases "p < length (filter Q [0..<n])") (auto simp: nth_append not_less split: if_splits)
qed simp

lemma fold_mark_ready:
  "fold (\<lambda>i. mark_ready (f i) (g i)) is reg t =
     (let js = filter (\<lambda>i. f i = t) is in if js = [] then reg t else Some (ResultReady (g (last js))))"
  by (induction "is" arbitrary: reg) (auto simp: mark_apply Let_def filter_empty_conv)

lemma last_of_singleton:
  assumes "set js = {i}"
  shows "last js = i" "js \<noteq> []"
proof -
  show "js \<noteq> []" using assms by auto
  from last_in_set [OF this] show "last js = i" using assms by blast
qed

end
