(* ===== verification/SccOutcome.thy ===== *)
theory SccOutcome
  imports SccFallback
begin

text \<open>
  What a speculative batch leaves behind on every shard (\<open>execute_scc_batch\<close> in \<open>src/engine.rs\<close>): the
  store, the results clients wait for, and the result records of the summary. All of them are those of
  the serial execution in the recorded order, the speculative successes first.
\<close>

section \<open>The registry and the records\<close>

definition scc_announce ::
    "shard_layout \<Rightarrow> shard_id \<Rightarrow> ordered_tx \<Rightarrow> tx_result_registry \<Rightarrow> tx_result_registry result" where
  "scc_announce L sh tx results =
     rbind (validate_sets tx) (\<lambda>_.
     case result_shard L tx of
       None \<Rightarrow> Err (InvalidBatch ''tx has no result shard'')
     | Some rs \<Rightarrow> Ok (announce_result rs sh (tx_id tx) results))"

definition scc_prologue ::
    "shard_layout \<Rightarrow> shard_id \<Rightarrow> batch \<Rightarrow> tx_result_registry \<Rightarrow> tx_result_registry result" where
  "scc_prologue L sh b results =
     rbind (validate_batch_order b) (\<lambda>_. fold_res (scc_announce L sh) (txs b) results)"

text \<open>
  A worker that commits on the result shard marks the result ready. The marks of different
  transactions commute, so the registry at the end is a function of the workers' states.
\<close>

definition worker_committed :: "scc_system \<Rightarrow> shard_id \<Rightarrow> nat \<Rightarrow> bool" where
  "worker_committed c sh i \<longleftrightarrow>
     (case workers c sh i of WDone _ \<Rightarrow> slots c sh ! i \<noteq> SlotFailed | _ \<Rightarrow> False)"

definition scc_client_results ::
    "scc_params \<Rightarrow> scc_system \<Rightarrow> shard_id \<Rightarrow> tx_result_registry \<Rightarrow> tx_result_registry" where
  "scc_client_results P c sh results =
     fold (\<lambda>i. mark_ready (tx_id (tx_of_params P i)) TxOk)
       (filter (\<lambda>i. participates P sh i \<and> result_shard (layout P) (tx_of_params P i) = Some sh \<and> worker_committed c sh i)
         [0..<length (txs (the_batch P))]) results"

text \<open>The summary: the records of the successes, those of the fallback, sorted.\<close>

definition scc_batch_records :: "scc_system \<Rightarrow> lock_system \<Rightarrow> shard_id \<Rightarrow> tx_result_record list" where
  "scc_batch_records c d sh = sort_key (\<lambda>r. (rec_tx_id r, rec_shard_id r))
     (speculative_results (worker_records c sh) (failed_at c sh) @ batch_records d sh)"

section \<open>The order of execution\<close>

abbreviation scc_winners :: "shard_layout \<Rightarrow> batch \<Rightarrow> fs_state \<Rightarrow> nat list" where
  "scc_winners L b s0 \<equiv> filter (scc_ok L b s0) [0..<length (txs b)]"

definition scc_reorder :: "shard_layout \<Rightarrow> batch \<Rightarrow> fs_state \<Rightarrow> reorder_record" where
  "scc_reorder L b s0 = canonical_reorder b {i. i < length (txs b) \<and> \<not> scc_ok L b s0 i}"

lemma scc_permuted:
  "permuted_txs b (scc_reorder L b s0) = map (\<lambda>i. txs b ! i) (scc_winners L b s0) @ scc_fallback_txs L b s0"
proof -
  have "{0..<length (txs b)} - {i. i < length (txs b) \<and> \<not> scc_ok L b s0 i} = {i. i < length (txs b) \<and> scc_ok L b s0 i}"
    by auto
  then show ?thesis
    by (simp only: permuted_txs_def reorder_indices_def scc_reorder_def canonical_reorder_def reorder_record.simps
        sorted_list_filter scc_fallback_txs_def map_append)
qed

lemma winners_state:
  assumes "scc_batch b s0" "n \<le> length (txs b)"
  shows "run_txs (map (\<lambda>i. txs b ! i) (filter (scc_ok L b s0) [0..<n])) s0 = scc_state L b s0 n"
  using assms by (subst run_txs_op_apply) (auto simp: scc_state_ops scc_batch_def run_ops_def fold_map comp_def)

lemma scc_winner_result:
  assumes b: "scc_batch b s0" and p: "p < length (scc_winners L b s0)"
  shows "turn_result s0 (permuted_txs b (scc_reorder L b s0)) p = TxOk"
proof -
  let ?i = "scc_winners L b s0 ! p"
  have "?i \<in> set (scc_winners L b s0)" using p by (rule nth_mem)
  then have i: "?i < length (txs b)" "scc_ok L b s0 ?i" by auto
  have "take p (scc_winners L b s0) = filter (scc_ok L b s0) [0..<?i]" by (rule take_filter_upt [OF p])
  then have "run_txs (take p (permuted_txs b (scc_reorder L b s0))) s0 = scc_state L b s0 ?i"
    using p winners_state [OF b, of ?i L] i(1) by (simp add: scc_permuted take_map)
  moreover have "permuted_txs b (scc_reorder L b s0) ! p = txs b ! ?i" using p by (simp add: scc_permuted nth_append)
  ultimately show ?thesis
    using scc_ok_current [OF b i] execute_deterministic_reads_of [OF scc_batchD(1) [OF b i(1)]]
    by (simp add: turn_result_def op_result_def)
qed

section \<open>What the speculative phase leaves\<close>

lemma finished_worker:
  assumes S: "scc_setting L b s0 ps P" and run: "scc_initial P = Ok c0" "(scc_step P)\<^sup>*\<^sup>* c0 c"
    and all: "\<forall>sh. reported c sh = {..<length (txs b)}" and i: "i < length (txs b)" "sh \<in> parts L b i"
  shows "workers c sh i = WDone (if scc_ok L b s0 i then success_record L sh (txs b ! i) else None)"
    "worker_committed c sh i \<longleftrightarrow> scc_ok L b s0 i"
proof -
  note inv = scc_inv_reachable [OF S run]
  have l: "local_inv L b s0 sh i (workers c sh i) (slots c sh ! i) True" "is_done (workers c sh i)"
    using scc_invD(5,6) [OF inv] all i by auto
  then obtain r where r: "workers c sh i = WDone r" by (auto simp: is_done_def)
  show "workers c sh i = WDone (if scc_ok L b s0 i then success_record L sh (txs b ! i) else None)"
    using l(1) i(2) r by (simp add: local_inv_def)
  have "slots c sh ! i = scc_slot L b s0 sh i" using l(1) i(2) r by (simp add: local_inv_def)
  then show "worker_committed c sh i \<longleftrightarrow> scc_ok L b s0 i"
    using r i(2) by (simp add: worker_committed_def scc_slot_failed_iff)
qed

lemma result_shard_part:
  assumes "valid_tx t" "result_shard L t = Some rs"
  shows "rs \<in> p_active (participants_of L t)" "rs \<in> p_all (participants_of L t)"
proof -
  note f = validate_sets_finite [of t, OF assms(1) [unfolded valid_tx_def, THEN conjunct2]]
  show "rs \<in> p_active (participants_of L t)"
    using assms(2) calvin.result_active [OF assms(1), of L] by (simp add: calvin_kind_def)
  then show "rs \<in> p_all (participants_of L t)" using calvin_active_sub [OF assms(1)] by blast
qed

lemma speculative_result:
  assumes S: "scc_setting L b s0 ps P" and run: "scc_initial P = Ok c0" "(scc_step P)\<^sup>*\<^sup>* c0 c"
    and all: "\<forall>sh. reported c sh = {..<length (txs b)}"
    and i: "i < length (txs b)" "scc_ok L b s0 i" "result_shard L (txs b ! i) = Some rs"
  shows "scc_client_results P c rs results (tx_id (txs b ! i)) = Some (ResultReady TxOk)"
proof -
  note sd = scc_settingD [OF S]
  have rs: "rs \<in> parts L b i" by (rule result_shard_part [OF scc_batchD(1) [OF sd(1) i(1)] i(3)])
  have eq: "j = i" if "j < length (txs b)" "tx_id (txs b ! j) = tx_id (txs b ! i)" for j
    using that sd(2) i(1) by (simp add: distinct_conv_nth) metis
  let ?js = "filter (\<lambda>j. tx_id (tx_of_params P j) = tx_id (txs b ! i))
    (filter (\<lambda>i. participates P rs i \<and> result_shard (layout P) (tx_of_params P i) = Some rs \<and> worker_committed c rs i)
      [0..<length (txs (the_batch P))])"
  have "set ?js = {i}"
    using eq i rs finished_worker(2) [OF S run all i(1) rs] by (auto simp: sd(3,4,7,8))
  then have "last ?js = i" "?js \<noteq> []" by (rule last_of_singleton)+
  then show ?thesis unfolding scc_client_results_def fold_mark_ready Let_def by simp
qed

lemma announce_other: "t \<noteq> tx \<Longrightarrow> announce_result rs sh tx results t = results t"
  by (simp add: announce_result_def ensure_pending_apply mark_not_responsible_def registry_update_def)

lemma spawn_keeps_results:
  "calvin_spawn L sh bid u sp0 = Ok sp \<Longrightarrow> t \<noteq> tx_id u \<Longrightarrow> sp_results sp t = sp_results sp0 t"
  by (auto simp: calvin_spawn_def res_simps Let_def case_prod_beta announce_other split: if_splits option.splits)

lemma prologue_keeps_results:
  assumes "calvin_prologue L sh b mail results = Ok sp" "t \<notin> tx_id ` set (txs b)"
  shows "sp_results sp t = results t"
proof -
  have "sp_results sp1 t = sp_results sp0 t"
    if "fold_res (calvin_spawn L sh bid) ts sp0 = Ok sp1" "t \<notin> tx_id ` set ts" for bid ts sp0 sp1
    using that by (induction ts arbitrary: sp0) (auto simp: rbind_eq_Inr spawn_keeps_results)
  then show ?thesis using assms by (fastforce simp: calvin_prologue_def res_simps)
qed

text \<open>The fallback runs other transactions than the successes.\<close>

lemma success_untouched:
  assumes S: "scc_setting L b s0 ps P" and C: "calvin_setting (scc_fallback_batch L ps b s0) batches sp stores"
    and fallback: "(lock_step calvin_ops (params_for_batch (scc_fallback_batch L ps b s0) sp))\<^sup>*\<^sup>* (lock_initial sp stores) d"
    and i: "i < length (txs b)" "scc_ok L b s0 i"
  shows "ls_results d sh (tx_id (txs b ! i)) = sp_results (sp sh) (tx_id (txs b ! i))"
proof -
  let ?B = "scc_fallback_batch L ps b s0"
  have "nth_id ?B g \<noteq> tx_id (txs b ! i)" if g: "g < lb_size ?B" for g
  proof -
    have "lb_txs ?B ! g \<in> set (lb_txs ?B)" using g by (rule nth_mem)
    then obtain j where "j < length (txs b)" "\<not> scc_ok L b s0 j" "lb_txs ?B ! g = txs b ! j"
      by (auto simp: scc_fallback_txs_def)
    then show ?thesis using scc_settingD(2) [OF S] i by (auto simp: distinct_conv_nth)
  qed
  then show ?thesis
    using lock_invD(4) [OF calvin.lock_inv_reachable [OF calvin_setting_lock [OF C] fallback], of sh]
    by (auto simp: book_inv_def)
qed

lemma not_in_fallback:
  assumes "distinct (map tx_id (txs b))" "i < length (txs b)" "i \<notin> F" "F \<subseteq> {0..<length (txs b)}"
  shows "tx_id (txs b ! i) \<notin> tx_id ` set (txs (fallback_batch_from_failed_indices b F))"
proof
  assume "tx_id (txs b ! i) \<in> tx_id ` set (txs (fallback_batch_from_failed_indices b F))"
  then have "tx_id (txs b ! i) \<in> tx_id ` set (map unindexed (txs (fallback_batch_from_failed_indices b F)))"
    by (simp add: image_image)
  then obtain j where "j \<in> F" "tx_id (txs b ! j) = tx_id (txs b ! i)"
    unfolding unindexed_fallback using finite_subset [OF assms(4)] by auto
  then show False using assms nth_eq_iff_index_eq [OF assms(1), of i j] by (auto simp: subset_iff)
qed

section \<open>The records\<close>

lemma speculative_records:
  assumes S: "scc_setting L b s0 ps P" and run: "scc_initial P = Ok c0" "(scc_step P)\<^sup>*\<^sup>* c0 c"
    and all: "\<forall>sh. reported c sh = {..<length (txs b)}"
  shows "speculative_results (worker_records c sh) (failed_at c sh) =
    map (\<lambda>i. \<lparr>rec_tx_id = tx_id (txs b ! i), rec_shard_id = sh, rec_result = TxOk\<rparr>)
      (filter (\<lambda>i. sh \<in> p_active (participants_of L (txs b ! i))) (scc_winners L b s0))"
proof -
  note sd = scc_settingD [OF S] and F = failed_at_finished [OF S run all, of sh]
  have act: "p_active (participants_of L (txs b ! i)) \<subseteq> parts L b i" if "i < length (txs b)" for i
    by (rule calvin_active_sub [OF scc_batchD(1) [OF sd(1) that]])
  have non: "workers c sh i = WEffectWait" if "i < length (txs b)" "sh \<notin> parts L b i" for i
    using scc_invD(5) [OF scc_inv_reachable [OF S run] that(1), of sh] that(2) by (simp add: local_inv_def)
  have w: "worker_records c sh i = (if i < length (txs b) \<and> scc_ok L b s0 i \<and> sh \<in> p_active (participants_of L (txs b ! i))
      then Some \<lparr>rec_tx_id = tx_id (txs b ! i), rec_shard_id = sh, rec_result = TxOk\<rparr> else None)" for i
    using all act [of i] non [of i] finished_worker(1) [OF S run all, of i sh]
    by (cases "sh \<in> parts L b i") (auto simp: worker_records_def success_record_def)
  have "dom (worker_records c sh) = {i. i < length (txs b) \<and> (scc_ok L b s0 i \<and> sh \<in> p_active (participants_of L (txs b ! i)))}"
    by (auto simp: w dom_def split: if_splits)
  then have "filter (\<lambda>i. i \<notin> failed_at c sh) (sorted_list_of_set (dom (worker_records c sh))) =
      filter (\<lambda>i. sh \<in> p_active (participants_of L (txs b ! i))) (scc_winners L b s0)"
    by (simp only: sorted_list_filter filter_filter F) (rule filter_cong, auto)
  then show ?thesis unfolding speculative_results_def by (auto simp: w)
qed

lemma scc_turn_records:
  assumes b: "scc_batch b s0"
  shows "turn_records (active_shards L) s0 (permuted_txs b (scc_reorder L b s0)) sh =
    map (\<lambda>i. \<lparr>rec_tx_id = tx_id (txs b ! i), rec_shard_id = sh, rec_result = TxOk\<rparr>)
      (filter (\<lambda>i. sh \<in> p_active (participants_of L (txs b ! i))) (scc_winners L b s0)) @
    turn_records (active_shards L) (scc_state L b s0 (length (txs b))) (scc_fallback_txs L b s0) sh"
proof -
  let ?w = "scc_winners L b s0" and ?A = "\<lambda>i. sh \<in> p_active (participants_of L (txs b ! i))"
  have "turn_result s0 (map (\<lambda>i. txs b ! i) ?w) p = TxOk" if "p < length ?w" for p
    using scc_winner_result [OF b that] turn_result_append(1) [of p "map (\<lambda>i. txs b ! i) ?w" s0 "scc_fallback_txs L b s0"] that
    by (simp add: scc_permuted)
  then have "turn_records (active_shards L) s0 (map (\<lambda>i. txs b ! i) ?w) sh =
      map (\<lambda>p. \<lparr>rec_tx_id = tx_id (txs b ! (?w ! p)), rec_shard_id = sh, rec_result = TxOk\<rparr>)
        (filter (\<lambda>p. ?A (?w ! p)) [0..<length ?w])"
    unfolding turn_records_def by (intro map_cong filter_cong) (auto simp: turn_record_def)
  then have "turn_records (active_shards L) s0 (map (\<lambda>i. txs b ! i) ?w) sh =
      map (\<lambda>i. \<lparr>rec_tx_id = tx_id (txs b ! i), rec_shard_id = sh, rec_result = TxOk\<rparr>) (filter ?A ?w)"
    unfolding map_filter_positions [of "\<lambda>i. \<lparr>rec_tx_id = tx_id (txs b ! i), rec_shard_id = sh, rec_result = TxOk\<rparr>" ?w ?A] .
  then show ?thesis unfolding scc_permuted turn_records_append winners_state [OF b order_refl] by simp
qed

section \<open>The outcome\<close>

lemma scc_outcome:
  assumes S: "scc_setting L b s0 ps P" and run: "scc_initial P = Ok c0" "(scc_step P)\<^sup>*\<^sup>* c0 c"
    and all: "\<forall>sh. reported c sh = {..<length (txs b)}"
    and start: "\<And>sh. fresh_mailboxes (batch_id b) Calvin (mail sh) \<and>
      fallback_start L b c sh (mail sh) (scc_client_results P c sh (announced sh)) (shard_part L s0 sh) = Ok (stores sh, sp sh)"
    and fallback: "(lock_step calvin_ops (lock_params_of L ps (batch_id b) sp))\<^sup>*\<^sup>* (lock_initial sp stores) d"
    and finished: "lock_finished (lock_params_of L ps (batch_id b) sp) d"
  defines "r \<equiv> scc_reorder L b s0"
  shows "ls_store d sh = shard_part L (run_txs (permuted_txs b r) s0) sh"
    "p < length (permuted_txs b r) \<Longrightarrow>
      ls_results d (the (result_shard L (permuted_txs b r ! p))) (tx_id (permuted_txs b r ! p)) =
      Some (ResultReady (turn_result s0 (permuted_txs b r) p))"
    "scc_batch_records c d sh = sort_key (\<lambda>r. (rec_tx_id r, rec_shard_id r)) (turn_records (active_shards L) s0 (permuted_txs b r) sh)"
proof -
  note sd = scc_settingD [OF S]
  let ?B = "scc_fallback_batch L ps b s0" and ?w = "scc_winners L b s0" and ?f = "scc_fallback_txs L b s0"
  have C: "calvin_setting ?B (\<lambda>sh. fallback_batch_from_failed_indices b (failed_at c sh)) sp stores"
    using start by (intro scc_fallback_setting [OF S run all]) blast+
  have d: "(lock_step calvin_ops (params_for_batch ?B sp))\<^sup>*\<^sup>* (lock_initial sp stores) d"
    "lock_finished (params_for_batch ?B sp) d" using fallback finished by simp_all
  note fin = calvin_finished [OF C d]
  have perm: "permuted_txs b r = map (\<lambda>i. txs b ! i) ?w @ ?f" unfolding r_def by (rule scc_permuted)
  show "ls_store d sh = shard_part L (run_txs (permuted_txs b r) s0) sh"
    using fin(1) winners_state [OF sd(1) order_refl, of L] by (simp add: perm)
  show "ls_results d (the (result_shard L (permuted_txs b r ! p))) (tx_id (permuted_txs b r ! p)) =
      Some (ResultReady (turn_result s0 (permuted_txs b r) p))" if p: "p < length (permuted_txs b r)"
  proof (cases "p < length ?w")
    case True
    let ?i = "?w ! p"
    have "?i \<in> set ?w" using True by (rule nth_mem)
    then have i: "?i < length (txs b)" "scc_ok L b s0 ?i" by auto
    note v = scc_batchD(1) [OF sd(1) i(1)]
    obtain rs where rs: "result_shard L (txs b ! ?i) = Some rs"
      using validate_sets_finite(4) v unfolding valid_tx_def by blast
    have fs: "fallback_start L b c rs (mail rs) (scc_client_results P c rs (announced rs)) (shard_part L s0 rs) = Ok (stores rs, sp rs)"
      using start by blast
    have "tx_id (txs b ! ?i) \<notin> tx_id ` set (txs (fallback_batch_from_failed_indices b (failed_at c rs)))"
      by (rule not_in_fallback [OF sd(2) i(1)]) (use i in \<open>auto simp: failed_at_finished [OF S run all]\<close>)
    then have "sp_results (sp rs) (tx_id (txs b ! ?i)) = scc_client_results P c rs (announced rs) (tx_id (txs b ! ?i))"
      using fs prologue_keeps_results by (auto simp: fallback_start_prologue res_simps)
    then have "ls_results d rs (tx_id (txs b ! ?i)) = Some (ResultReady TxOk)"
      using success_untouched [OF S C d(1) i] speculative_result [OF S run all i rs] by simp
    moreover have "permuted_txs b r ! p = txs b ! ?i" unfolding perm using True by (simp add: nth_append)
    ultimately show ?thesis using scc_winner_result [OF sd(1) True] rs by (simp add: r_def)
  next
    case False
    then obtain g where g: "p = length ?w + g" "g < length ?f"
      using p by (metis perm le_add_diff_inverse length_append length_map nat_add_left_cancel_less not_less)
    have "permuted_txs b r ! p = ?f ! g" unfolding perm g(1) by (simp add: nth_append)
    moreover have "turn_result s0 (permuted_txs b r) p = turn_result (scc_state L b s0 (length (txs b))) ?f g"
      unfolding perm g(1) using turn_result_append(2) [of s0 "map (\<lambda>i. txs b ! i) ?w" ?f g] winners_state [OF sd(1) order_refl, of L]
      by simp
    ultimately show ?thesis using fin(2) [of g] g(2) by simp
  qed
  show "scc_batch_records c d sh = sort_key (\<lambda>r. (rec_tx_id r, rec_shard_id r)) (turn_records (active_shards L) s0 (permuted_txs b r) sh)"
    using fin(3) speculative_records [OF S run all, of sh] scc_turn_records [OF sd(1), of L sh]
    by (simp add: scc_batch_records_def sort_key_append_sorted r_def)
qed

text \<open>Every shard records the canonical order of its own failures; together they are all failures.\<close>

lemma scc_records_canonical:
  assumes S: "scc_setting L b s0 ps P" and run: "scc_initial P = Ok c0" "(scc_step P)\<^sup>*\<^sup>* c0 c"
    and all: "\<forall>sh. reported c sh = {..<length (txs b)}"
  shows "failed_at c sh \<subseteq> {0..<length (txs b)}"
    "\<forall>i < length (txs b). parts L b i \<subseteq> set shs \<Longrightarrow>
      (\<Union>sh \<in> set shs. failed_at c sh) = {i. i < length (txs b) \<and> \<not> scc_ok L b s0 i}"
proof -
  note F = failed_at_finished [OF S run all]
  show "failed_at c sh \<subseteq> {0..<length (txs b)}" by (auto simp: F)
  have "parts L b i \<noteq> {}" if "i < length (txs b)" for i
    using scc_batchD(1) [OF scc_settingD(1) [OF S] that] by (auto simp: participants_of_def participants_all valid_tx_iff)
  then show "\<forall>i < length (txs b). parts L b i \<subseteq> set shs \<Longrightarrow>
      (\<Union>sh \<in> set shs. failed_at c sh) = {i. i < length (txs b) \<and> \<not> scc_ok L b s0 i}"
    by (fastforce simp: F)
qed

section \<open>Properties\<close>

text \<open>C4: A speculative batch has the effect of the reordered reference. Let all workers of all shards
  be reported, every shard install its successes and start the fallback of its own failed
  transactions, and let all shards finish that fallback, in any interleaving. Then the reorder
  records of the shards are consistent, and in the combined order, the successes and then the failed
  transactions: every store is its part of the state after the serial execution, the shard responsible
  for a transaction holds the result of its turn, and the summary of a shard has the results of the
  turns of the transactions it executes.\<close>

theorem scc_batch_matches_reference:
  assumes S: "scc_setting L b s0 ps P" and run: "scc_initial P = Ok c0" "(scc_step P)\<^sup>*\<^sup>* c0 c"
    and all: "\<forall>sh. reported c sh = {..<length (txs b)}"
    and shs: "\<forall>i < length (txs b). parts L b i \<subseteq> set shs" "shs \<noteq> []"
    and start: "\<And>sh. fresh_mailboxes (batch_id b) Calvin (mail sh) \<and>
      fallback_start L b c sh (mail sh) (scc_client_results P c sh (announced sh)) (shard_part L s0 sh) = Ok (stores sh, sp sh)"
    and fallback: "(lock_step calvin_ops (lock_params_of L ps (batch_id b) sp))\<^sup>*\<^sup>* (lock_initial sp stores) d"
    and finished: "lock_finished (lock_params_of L ps (batch_id b) sp) d"
  shows "\<exists>reorder. assert_scc_reorders_consistent [b]
      (map (\<lambda>sh. (sh, [the (snd (record_batch_reorder (batch_id b) (length (txs b)) (failed_at c sh) Map.empty) (batch_id b))])) shs) =
      Ok [batch_id b \<mapsto> reorder] \<and>
    (\<forall>sh. ls_store d sh = shard_part L (run_txs (permuted_txs b reorder) s0) sh) \<and>
    (\<forall>p < length (permuted_txs b reorder). let t = permuted_txs b reorder ! p
      in ls_results d (the (result_shard L t)) (tx_id t) = Some (ResultReady (turn_result s0 (permuted_txs b reorder) p))) \<and>
    (\<forall>sh. scc_batch_records c d sh =
      sort_key (\<lambda>r. (rec_tx_id r, rec_shard_id r)) (turn_records (active_shards L) s0 (permuted_txs b reorder) sh))"
proof -
  note c = scc_records_canonical [OF S run all]
  have "the (snd (record_batch_reorder (batch_id b) (length (txs b)) (failed_at c sh) Map.empty) (batch_id b)) =
      canonical_reorder b (failed_at c sh)" for sh
    using record_batch_reorder_fresh [OF c(1), of Map.empty] by simp
  moreover have "assert_scc_reorders_consistent [b] (map (\<lambda>sh. (sh, [canonical_reorder b (failed_at c sh)])) shs) =
      Ok [batch_id b \<mapsto> scc_reorder L b s0]"
  proof -
    let ?m = "map (\<lambda>sh. (sh, [canonical_reorder b (failed_at c sh)])) shs"
    have "assert_scc_reorders_consistent [b] ?m =
        Ok [batch_id b \<mapsto> canonical_reorder b (\<Union>x \<in> set ?m. failed_at c (fst x))]"
      by (rule reorders_of_one_batch) (use c(1) shs(2) in auto)
    then show ?thesis using c(2) [OF shs(1)] by (simp add: scc_reorder_def)
  qed
  ultimately show ?thesis
    using scc_outcome [OF S run all start fallback finished]
    by (intro exI [of _ "scc_reorder L b s0"]) (simp add: Let_def)
qed

theorem scc_batch_matches_reference_witness:
  "\<exists>P c0 c stores sp d. scc_setting \<lparr>shard_count = 1\<rparr> make_root Map.empty {0} P \<and>
     scc_initial P = Ok c0 \<and> (scc_step P)\<^sup>*\<^sup>* c0 c \<and>
     lock_finished (lock_params_of \<lparr>shard_count = 1\<rparr> {0} 0 sp) d \<and>
     (lock_step calvin_ops (lock_params_of \<lparr>shard_count = 1\<rparr> {0} 0 sp))\<^sup>*\<^sup>* (lock_initial sp stores) d \<and>
     ls_store d 0 = [root \<mapsto> inode_directory 0]"
proof -
  let ?L = "\<lparr>shard_count = 1\<rparr> :: shard_layout" and ?b = make_root
  obtain P c0 c where P: "scc_setting ?L ?b Map.empty {0} P" "scc_initial P = Ok c0"
    and c: "(scc_step P)\<^sup>*\<^sup>* c0 c" "\<forall>sh. reported c sh = {..<length (txs ?b)}" by (rule make_root_finishes)
  note all = c(2)
  let ?m = "mailbox_registry_new" and ?s = "scc_state ?L ?b Map.empty (length (txs ?b))"
  have "\<forall>sh. \<exists>sp. fallback_start ?L ?b c sh ?m (scc_client_results P c sh Map.empty) (shard_part ?L Map.empty sh) = Ok (shard_part ?L ?s sh, sp)"
    using scc_fallback_accepted [OF P c(1) all _ fresh_mailboxes_new] by (simp add: make_root_def)
  then obtain sp where sp: "\<And>sh. fallback_start ?L ?b c sh ?m (scc_client_results P c sh Map.empty) (shard_part ?L Map.empty sh) =
      Ok (shard_part ?L ?s sh, sp sh)" by metis
  let ?B = "scc_fallback_batch ?L {0} ?b Map.empty"
  have C: "calvin_setting ?B (\<lambda>sh. fallback_batch_from_failed_indices ?b (failed_at c sh)) sp (shard_part ?L ?s)"
    by (rule scc_fallback_setting [OF P c(1) all fresh_mailboxes_new sp])
  obtain d where d: "(lock_step calvin_ops (params_for_batch ?B sp))\<^sup>*\<^sup>* (lock_initial sp (shard_part ?L ?s)) d"
    "lock_finished (params_for_batch ?B sp) d" using calvin_can_finish [OF C rtranclp.rtrancl_refl] by blast
  have start: "fresh_mailboxes (batch_id ?b) Calvin ?m \<and>
      fallback_start ?L ?b c sh ?m (scc_client_results P c sh Map.empty) (shard_part ?L Map.empty sh) = Ok (shard_part ?L ?s sh, sp sh)" for sh
    using sp fresh_mailboxes_new by blast
  have e: "params_for_batch ?B sp = lock_params_of ?L {0} (batch_id ?b) sp" by simp
  obtain reorder where r: "assert_scc_reorders_consistent [?b] (map (\<lambda>sh. (sh, [the (snd (record_batch_reorder
      (batch_id ?b) (length (txs ?b)) (failed_at c sh) Map.empty) (batch_id ?b))])) [0]) = Ok [batch_id ?b \<mapsto> reorder]"
    "\<And>sh. ls_store d sh = shard_part ?L (run_txs (permuted_txs ?b reorder) Map.empty) sh"
    using scc_batch_matches_reference [OF P c(1) all make_root_parts list.distinct(2) start d [unfolded e]] by blast
  have "failed_at c 0 = {}" unfolding failed_at_finished [OF P c(1) all] using make_root_ok by blast
  then have "[batch_id ?b \<mapsto> reorder] = [batch_id ?b \<mapsto> canonical_reorder ?b {}]"
    using r(1) record_batch_reorder_fresh [of "{}" ?b Map.empty] reorders_of_one_batch [of "[(0, [canonical_reorder ?b {}])]" ?b "\<lambda>_. {}"]
    by auto
  from fun_upd_eqD [OF this] have "reorder = canonical_reorder ?b {}" by simp
  then have "permuted_txs ?b reorder = txs ?b"
    by (simp add: permuted_txs_def reorder_indices_def canonical_reorder_def map_nth sorted_list_of_set_range)
  then have "ls_store d 0 = op_apply (Mkdir root) Map.empty"
    using r(2) by (simp add: make_root_def apply_reference_tx_eq shard_part_def shard_for_key_def restrict_map_def)
  moreover have "op_apply (Mkdir root) Map.empty = [root \<mapsto> inode_directory 0]"
    by (simp add: op_apply_def)
  ultimately have "ls_store d 0 = [root \<mapsto> inode_directory 0]" by simp
  moreover have "batch_id ?b = 0" by (simp add: make_root_def)
  ultimately show ?thesis using P c(1) d unfolding e by metis
qed

end
