(* ===== verification/Convert.thy ===== *)
theory Convert
  imports FsSpec "HOL-Library.Multiset"
begin

text \<open>
  The wire messages of \<open>proto/calvinfs.proto\<close> and the conversions of \<open>src/convert.rs\<close>. An optional field
  is an \<open>option\<close>, a choice a datatype, an enumeration its 32 bit number. Encoding a set or a map lists
  it in the order of its keys; decoding checks every path, refuses duplicates, missing choices and
  unknown numbers. The profiles are in their own theory.
\<close>

type_synonym i32 = "32 word"

section \<open>Messages\<close>

datatype pb_op =
    PbCreate string
  | PbMkdir string
  | PbUnlink string
  | PbRmdir string
  | PbRename string string
  | PbStat string

text \<open>The message \<open>FsOp\<close> wraps an optional choice, and the field of a transaction is itself optional.\<close>

type_synonym pb_fs_op = "pb_op option"

record pb_ordered_tx =
  pb_tx_id :: u64
  pb_batch_index :: u32
  pb_tx_op :: "pb_fs_op option"
  pb_read_set :: "string list"
  pb_write_set :: "string list"

record pb_batch =
  pb_batch_id :: u64
  pb_txs :: "pb_ordered_tx list"

record pb_inode =
  pb_kind :: i32
  pb_child_count :: u64

datatype pb_value = PbInode pb_inode | PbMissing

record pb_read_entry =
  pb_read_key :: string
  pb_read_value :: "pb_value option"

datatype pb_write_op = PbPut string "pb_inode option" | PbDelete string

type_synonym pb_write_entry = "pb_write_op option"

record pb_inode_entry =
  pb_inode_key :: string
  pb_inode_value :: "pb_inode option"

record pb_tx_result_record =
  pb_rec_tx_id :: u64
  pb_rec_shard_id :: u64
  pb_rec_result :: i32

record pb_reorder_record =
  pb_reorder_batch_id :: u64
  pb_success_indices :: "u32 list"
  pb_fallback_indices :: "u32 list"

section \<open>Enumerations\<close>

fun tx_result_to_i32 :: "tx_result \<Rightarrow> i32" where
  "tx_result_to_i32 TxOk = 1"
| "tx_result_to_i32 NotFound = 2"
| "tx_result_to_i32 AlreadyExists = 3"
| "tx_result_to_i32 NotDirectory = 4"
| "tx_result_to_i32 DirectoryNotEmpty = 5"
| "tx_result_to_i32 TxInvalid = 6"

definition tx_result_from_i32 :: "i32 \<Rightarrow> tx_result result" where
  "tx_result_from_i32 v =
     (if v = 1 then Ok TxOk else if v = 2 then Ok NotFound else if v = 3 then Ok AlreadyExists
      else if v = 4 then Ok NotDirectory else if v = 5 then Ok DirectoryNotEmpty else if v = 6 then Ok TxInvalid
      else Err (InvalidProto ''invalid TxResult''))"

fun read_phase_to_i32 :: "read_phase \<Rightarrow> i32" where
  "read_phase_to_i32 Calvin = 1"
| "read_phase_to_i32 SccEffect = 2"
| "read_phase_to_i32 SccCondition = 3"
| "read_phase_to_i32 AriaFallback = 4"

definition read_phase_from_i32 :: "i32 \<Rightarrow> read_phase result" where
  "read_phase_from_i32 v =
     (if v = 1 then Ok Calvin else if v = 2 then Ok SccEffect else if v = 3 then Ok SccCondition
      else if v = 4 then Ok AriaFallback else Err (InvalidProto ''invalid ReadPhase''))"

fun local_read_status_to_i32 :: "local_read_status \<Rightarrow> i32" where
  "local_read_status_to_i32 StatusOk = 1"
| "local_read_status_to_i32 StatusSpeculationFailed = 2"

definition local_read_status_from_i32 :: "i32 \<Rightarrow> local_read_status result" where
  "local_read_status_from_i32 v =
     (if v = 1 then Ok StatusOk else if v = 2 then Ok StatusSpeculationFailed
      else Err (InvalidProto ''invalid LocalReadStatus''))"

fun node_kind_to_i32 :: "node_kind \<Rightarrow> i32" where
  "node_kind_to_i32 File = 1"
| "node_kind_to_i32 Directory = 2"

definition node_kind_from_i32 :: "i32 \<Rightarrow> node_kind result" where
  "node_kind_from_i32 v =
     (if v = 1 then Ok File else if v = 2 then Ok Directory else Err (InvalidProto ''invalid NodeKind''))"

section \<open>Operations and batches\<close>

fun fs_op_to_proto :: "fs_op \<Rightarrow> pb_fs_op" where
  "fs_op_to_proto (Create path) = Some (PbCreate (as_str path))"
| "fs_op_to_proto (Mkdir path) = Some (PbMkdir (as_str path))"
| "fs_op_to_proto (Unlink path) = Some (PbUnlink (as_str path))"
| "fs_op_to_proto (Rmdir path) = Some (PbRmdir (as_str path))"
| "fs_op_to_proto (Rename src dst) = Some (PbRename (as_str src) (as_str dst))"
| "fs_op_to_proto (Stat path) = Some (PbStat (as_str path))"

definition fs_op_from_proto :: "pb_fs_op option \<Rightarrow> fs_op result" where
  "fs_op_from_proto value =
     (case value of
        None \<Rightarrow> Err (InvalidProto ''missing FsOp'')
      | Some None \<Rightarrow> Err (InvalidProto ''missing FsOp oneof'')
      | Some (Some oneof) \<Rightarrow>
          (case oneof of
             PbCreate path \<Rightarrow> rbind (key_new path) (\<lambda>k. Ok (Create k))
           | PbMkdir path \<Rightarrow> rbind (key_new path) (\<lambda>k. Ok (Mkdir k))
           | PbUnlink path \<Rightarrow> rbind (key_new path) (\<lambda>k. Ok (Unlink k))
           | PbRmdir path \<Rightarrow> rbind (key_new path) (\<lambda>k. Ok (Rmdir k))
           | PbRename src dst \<Rightarrow> rbind (key_new src) (\<lambda>s. rbind (key_new dst) (\<lambda>d. Ok (Rename s d)))
           | PbStat path \<Rightarrow> rbind (key_new path) (\<lambda>k. Ok (Stat k))))"

definition keys_from_proto :: "string list \<Rightarrow> key set result" where
  "keys_from_proto values =
     fold_res (\<lambda>value out. rbind (key_new value) (\<lambda>k.
       if k \<in> out then Err (InvalidProto ''duplicate key'') else Ok (insert k out))) values {}"

definition keys_to_proto :: "key set \<Rightarrow> string list" where
  "keys_to_proto K = map as_str (sorted_list_of_set K)"

definition ordered_tx_to_proto :: "ordered_tx \<Rightarrow> pb_ordered_tx" where
  "ordered_tx_to_proto tx =
     \<lparr>pb_tx_id = tx_id tx, pb_batch_index = batch_index tx, pb_tx_op = Some (fs_op_to_proto (op tx)),
      pb_read_set = keys_to_proto (read_set tx), pb_write_set = keys_to_proto (write_set tx)\<rparr>"

definition ordered_tx_from_proto :: "pb_ordered_tx \<Rightarrow> ordered_tx result" where
  "ordered_tx_from_proto value =
     rbind (keys_from_proto (pb_read_set value)) (\<lambda>rs.
     rbind (keys_from_proto (pb_write_set value)) (\<lambda>ws.
     rbind (fs_op_from_proto (pb_tx_op value)) (\<lambda>fs.
     Ok \<lparr>tx_id = pb_tx_id value, batch_index = pb_batch_index value, op = fs, read_set = rs, write_set = ws\<rparr>)))"

definition batch_to_proto :: "batch \<Rightarrow> pb_batch" where
  "batch_to_proto b = \<lparr>pb_batch_id = batch_id b, pb_txs = map ordered_tx_to_proto (txs b)\<rparr>"

definition batch_from_proto :: "pb_batch \<Rightarrow> batch result" where
  "batch_from_proto value =
     rbind (traverse ordered_tx_from_proto (pb_txs value)) (\<lambda>ts.
     Ok \<lparr>batch_id = pb_batch_id value, txs = ts\<rparr>)"

section \<open>Reads and writes\<close>

definition inode_to_proto :: "inode \<Rightarrow> pb_inode" where
  "inode_to_proto i = \<lparr>pb_kind = node_kind_to_i32 (kind i), pb_child_count = child_count i\<rparr>"

definition inode_from_proto :: "pb_inode option \<Rightarrow> inode result" where
  "inode_from_proto value =
     (case value of
        None \<Rightarrow> Err (InvalidProto ''missing inode'')
      | Some i \<Rightarrow> rbind (node_kind_from_i32 (pb_kind i)) (\<lambda>k. Ok \<lparr>kind = k, child_count = pb_child_count i\<rparr>))"

definition read_value_from_proto :: "pb_value option \<Rightarrow> read_value result" where
  "read_value_from_proto value =
     (case value of
        None \<Rightarrow> Err (InvalidProto ''missing read value'')
      | Some (PbInode i) \<Rightarrow> rbind (inode_from_proto (Some i)) (\<lambda>i. Ok (Present i))
      | Some PbMissing \<Rightarrow> Ok Missing)"

definition read_entry_to_proto :: "key \<Rightarrow> read_value \<Rightarrow> pb_read_entry" where
  "read_entry_to_proto k value =
     \<lparr>pb_read_key = as_str k,
      pb_read_value = Some (case value of Present i \<Rightarrow> PbInode (inode_to_proto i) | Missing \<Rightarrow> PbMissing)\<rparr>"

definition read_entry_from_proto :: "pb_read_entry option \<Rightarrow> (key \<times> read_value) result" where
  "read_entry_from_proto entry =
     (case entry of
        None \<Rightarrow> Err (InvalidProto ''missing read entry'')
      | Some e \<Rightarrow>
          rbind (key_new (pb_read_key e)) (\<lambda>k.
          rbind (read_value_from_proto (pb_read_value e)) (\<lambda>v.
          Ok (k, v))))"

definition read_entries_to_proto :: "reads \<Rightarrow> pb_read_entry list" where
  "read_entries_to_proto rs = map (\<lambda>k. read_entry_to_proto k (the (rs k))) (sorted_list_of_set (dom rs))"

text \<open>The loop of \<open>read_entries_from_proto\<close> and of \<open>inode_entries_from_proto\<close>: an insertion that refuses duplicates.\<close>

definition insert_new :: "string \<Rightarrow> key \<Rightarrow> 'v \<Rightarrow> (key \<rightharpoonup> 'v) \<Rightarrow> (key \<rightharpoonup> 'v) result" where
  "insert_new what k v m = (if m k \<noteq> None then Err (InvalidProto what) else Ok (m(k \<mapsto> v)))"

definition read_entries_from_proto :: "pb_read_entry list \<Rightarrow> reads result" where
  "read_entries_from_proto entries =
     fold_res (\<lambda>e rs. rbind (read_entry_from_proto (Some e)) (\<lambda>(k, v). insert_new ''duplicate read key'' k v rs))
       entries Map.empty"

fun write_entry_to_proto :: "write_op \<Rightarrow> pb_write_entry" where
  "write_entry_to_proto (Put k i) = Some (PbPut (as_str k) (Some (inode_to_proto i)))"
| "write_entry_to_proto (Delete k) = Some (PbDelete (as_str k))"

definition write_entry_from_proto :: "pb_write_entry \<Rightarrow> write_op result" where
  "write_entry_from_proto entry =
     (case entry of
        None \<Rightarrow> Err (InvalidProto ''missing write op'')
      | Some (PbPut k i) \<Rightarrow> rbind (key_new k) (\<lambda>k. rbind (inode_from_proto i) (\<lambda>i. Ok (Put k i)))
      | Some (PbDelete k) \<Rightarrow> rbind (key_new k) (\<lambda>k. Ok (Delete k)))"

definition write_entries_to_proto :: "write_op list \<Rightarrow> pb_write_entry list" where
  "write_entries_to_proto ws = map write_entry_to_proto ws"

definition write_entries_from_proto :: "pb_write_entry list \<Rightarrow> write_op list result" where
  "write_entries_from_proto entries = traverse write_entry_from_proto entries"

definition inode_entries_to_proto :: "fs_state \<Rightarrow> pb_inode_entry list" where
  "inode_entries_to_proto s =
     map (\<lambda>k. \<lparr>pb_inode_key = as_str k, pb_inode_value = Some (inode_to_proto (the (s k)))\<rparr>) (sorted_list_of_set (dom s))"

definition inode_entries_from_proto :: "pb_inode_entry list \<Rightarrow> fs_state result" where
  "inode_entries_from_proto entries =
     fold_res (\<lambda>e s. rbind (key_new (pb_inode_key e)) (\<lambda>k. rbind (inode_from_proto (pb_inode_value e)) (\<lambda>i.
       insert_new ''duplicate inode key'' k i s))) entries Map.empty"

section \<open>Results and reorder records\<close>

definition tx_result_record_to_proto :: "tx_result_record \<Rightarrow> pb_tx_result_record" where
  "tx_result_record_to_proto r =
     \<lparr>pb_rec_tx_id = rec_tx_id r, pb_rec_shard_id = rec_shard_id r, pb_rec_result = tx_result_to_i32 (rec_result r)\<rparr>"

definition tx_result_record_from_proto :: "pb_tx_result_record \<Rightarrow> tx_result_record result" where
  "tx_result_record_from_proto value =
     rbind (tx_result_from_i32 (pb_rec_result value)) (\<lambda>r.
     Ok \<lparr>rec_tx_id = pb_rec_tx_id value, rec_shard_id = pb_rec_shard_id value, rec_result = r\<rparr>)"

definition tx_result_records_to_proto :: "tx_result_record list \<Rightarrow> pb_tx_result_record list" where
  "tx_result_records_to_proto rs = map tx_result_record_to_proto rs"

definition tx_result_records_from_proto :: "pb_tx_result_record list \<Rightarrow> tx_result_record list result" where
  "tx_result_records_from_proto values = traverse tx_result_record_from_proto values"

text \<open>An index is cut to 32 bits.\<close>

definition scc_reorder_record_to_proto :: "reorder_record \<Rightarrow> pb_reorder_record" where
  "scc_reorder_record_to_proto r =
     \<lparr>pb_reorder_batch_id = reorder_batch_id r,
      pb_success_indices = map word_of_nat (speculative_success_indices r),
      pb_fallback_indices = map word_of_nat (fallback_indices r)\<rparr>"

definition scc_reorder_record_from_proto :: "pb_reorder_record \<Rightarrow> reorder_record" where
  "scc_reorder_record_from_proto value =
     \<lparr>reorder_batch_id = pb_reorder_batch_id value,
      speculative_success_indices = map unat (pb_success_indices value),
      fallback_indices = map unat (pb_fallback_indices value)\<rparr>"

definition scc_reorder_records_to_proto :: "reorder_record list \<Rightarrow> pb_reorder_record list" where
  "scc_reorder_records_to_proto rs = map scc_reorder_record_to_proto rs"

definition scc_reorder_records_from_proto :: "pb_reorder_record list \<Rightarrow> reorder_record list" where
  "scc_reorder_records_from_proto values = map scc_reorder_record_from_proto values"

section \<open>Codes\<close>

lemma key_new_as_str: "key_new (as_str k) = Ok k \<longleftrightarrow> valid_key k"
  by (auto simp: key_new_Ok_iff)

lemma tx_result_code: "tx_result_from_i32 v = Ok r \<longleftrightarrow> v = tx_result_to_i32 r"
  by (cases r) (auto simp: tx_result_from_i32_def)

lemma read_phase_code: "read_phase_from_i32 v = Ok ph \<longleftrightarrow> v = read_phase_to_i32 ph"
  by (cases ph) (auto simp: read_phase_from_i32_def)

lemma local_read_status_code: "local_read_status_from_i32 v = Ok st \<longleftrightarrow> v = local_read_status_to_i32 st"
  by (cases st) (auto simp: local_read_status_from_i32_def)

lemma node_kind_code: "node_kind_from_i32 v = Ok nk \<longleftrightarrow> v = node_kind_to_i32 nk"
  by (cases nk) (auto simp: node_kind_from_i32_def)

lemmas enum_codes = tx_result_code read_phase_code local_read_status_code node_kind_code

section \<open>What decoding accepts\<close>

text \<open>
  A key set or a map that can be on the wire: finitely many keys, each a path that \<open>Key::new\<close>
  accepts. Decoding is exact: a message is accepted as a value iff the value is one of these and the
  message is its encoding, where a set or a map may be listed in any order.
\<close>

definition wire_keys :: "key set \<Rightarrow> bool" where
  "wire_keys K \<longleftrightarrow> finite K \<and> (\<forall>k \<in> K. valid_key k)"

definition wire_tx :: "ordered_tx \<Rightarrow> bool" where
  "wire_tx tx \<longleftrightarrow> valid_op (op tx) \<and> wire_keys (read_set tx) \<and> wire_keys (write_set tx)"

definition wire_batch :: "batch \<Rightarrow> bool" where
  "wire_batch b \<longleftrightarrow> (\<forall>tx \<in> set (txs b). wire_tx tx)"

definition same_tx_message :: "pb_ordered_tx \<Rightarrow> pb_ordered_tx \<Rightarrow> bool" where
  "same_tx_message p q \<longleftrightarrow>
     pb_tx_id p = pb_tx_id q \<and> pb_batch_index p = pb_batch_index q \<and> pb_tx_op p = pb_tx_op q \<and>
     mset (pb_read_set p) = mset (pb_read_set q) \<and> mset (pb_write_set p) = mset (pb_write_set q)"

definition same_batch_message :: "pb_batch \<Rightarrow> pb_batch \<Rightarrow> bool" where
  "same_batch_message p q \<longleftrightarrow> pb_batch_id p = pb_batch_id q \<and> list_all2 same_tx_message (pb_txs p) (pb_txs q)"

lemma inj_as_str: "inj_on as_str A"
  by (auto simp: inj_on_def key.expand)

lemma fs_op_exact: "fs_op_from_proto p = Ok fs \<longleftrightarrow> p = Some (fs_op_to_proto fs) \<and> valid_op fs"
  by (cases fs) (auto simp: fs_op_from_proto_def valid_op_def res_simps key_new_Ok_iff split: option.splits pb_op.splits)

lemma keys_from_proto_fold:
  "fold_res (\<lambda>value out. rbind (key_new value) (\<lambda>k. if k \<in> out then Err (InvalidProto ''duplicate key'') else Ok (insert k out)))
     values A = Ok B \<longleftrightarrow>
   (\<forall>v \<in> set values. valid_key (Key v)) \<and> distinct values \<and> Key ` set values \<inter> A = {} \<and> B = Key ` set values \<union> A"
proof (induction "values" arbitrary: A)
  case (Cons v vs)
  show ?case
  proof (cases "valid_key (Key v) \<and> Key v \<notin> A")
    case True
    then have "key_new v = Ok (Key v)" by (simp add: key_new_Ok_iff)
    then show ?thesis using True Cons.IH [of "insert (Key v) A"] by auto
  next
    case False
    then show ?thesis by (auto simp: res_simps key_new_Ok_iff)
  qed
qed auto

lemma keys_from_proto_Ok:
  "keys_from_proto values = Ok K \<longleftrightarrow> (\<forall>v \<in> set values. valid_key (Key v)) \<and> distinct values \<and> K = Key ` set values"
  by (simp add: keys_from_proto_def keys_from_proto_fold)

lemma keys_exact: "keys_from_proto values = Ok K \<longleftrightarrow> wire_keys K \<and> mset values = mset (keys_to_proto K)"
proof (cases "finite K")
  case True
  have d: "distinct (keys_to_proto K)" by (simp add: keys_to_proto_def distinct_map inj_as_str)
  have s: "set (keys_to_proto K) = as_str ` K" using True by (simp add: keys_to_proto_def)
  have "mset values = mset (keys_to_proto K) \<longleftrightarrow> distinct values \<and> K = Key ` set values"
  proof
    assume m: "mset values = mset (keys_to_proto K)"
    then have "set values = as_str ` K" using s by (metis mset_eq_setD)
    moreover have "distinct values" using m d mset_eq_imp_distinct_iff by blast
    ultimately show "distinct values \<and> K = Key ` set values" by (simp add: image_image)
  next
    assume "distinct values \<and> K = Key ` set values"
    then show "mset values = mset (keys_to_proto K)"
      using d s set_eq_iff_mset_eq_distinct [of "values" "keys_to_proto K"] by (simp add: image_image)
  qed
  then show ?thesis using True by (auto simp: keys_from_proto_Ok wire_keys_def)
qed (auto simp: keys_from_proto_Ok wire_keys_def)

lemma ordered_tx_exact:
  "ordered_tx_from_proto p = Ok tx \<longleftrightarrow> wire_tx tx \<and> same_tx_message p (ordered_tx_to_proto tx)"
  by (cases tx) (auto simp: ordered_tx_from_proto_def ordered_tx_to_proto_def res_simps keys_exact fs_op_exact wire_tx_def
      same_tx_message_def)

lemma traverse_list_all2: "traverse f xs = Inr ys \<longleftrightarrow> list_all2 (\<lambda>x y. f x = Inr y) xs ys"
proof (induction xs arbitrary: ys)
  case (Cons x xs)
  then show ?case by (cases ys) (auto simp: res_simps)
qed auto

lemma traverse_exact:
  assumes "\<And>x y. f x = Inr y \<longleftrightarrow> P y \<and> x = g y"
  shows "traverse f xs = Inr ys \<longleftrightarrow> (\<forall>y \<in> set ys. P y) \<and> xs = map g ys"
proof (induction xs arbitrary: ys)
  case (Cons x xs)
  then show ?case using assms by (cases ys) (auto simp: res_simps)
qed auto

lemma batch_exact: "batch_from_proto p = Ok b \<longleftrightarrow> wire_batch b \<and> same_batch_message p (batch_to_proto b)"
proof -
  have "traverse ordered_tx_from_proto ps = Ok ts \<longleftrightarrow>
      (\<forall>tx \<in> set ts. wire_tx tx) \<and> list_all2 same_tx_message ps (map ordered_tx_to_proto ts)" for ps ts
    unfolding traverse_list_all2 by (induction ps arbitrary: ts) (auto simp: ordered_tx_exact list_all2_Cons1 list_all2_map2)
  then show ?thesis
    by (cases b) (auto simp: batch_from_proto_def batch_to_proto_def same_batch_message_def wire_batch_def res_simps)
qed

lemma same_batch_message_refl: "same_batch_message p p"
  by (simp add: same_batch_message_def same_tx_message_def list_all2_refl)

lemma batch_roundtrip: "wire_batch b \<Longrightarrow> batch_from_proto (batch_to_proto b) = Ok b"
  by (simp add: batch_exact same_batch_message_refl)

subsection \<open>Maps\<close>

lemma fold_insert_new:
  "fold_res (\<lambda>e m. rbind (dec e) (\<lambda>(k, v). insert_new w k v m)) es m0 = Ok m \<longleftrightarrow>
     (\<exists>kvs. traverse dec es = Ok kvs \<and> distinct (map fst kvs) \<and> fst ` set kvs \<inter> dom m0 = {} \<and> m = m0 ++ map_of kvs)"
proof (induction es arbitrary: m0)
  case (Cons e es)
  show ?case
  proof (cases "dec e")
    case (Inr p)
    obtain k v where p: "p = (k, v)" by fastforce
    show ?thesis
    proof (cases "m0 k")
      case None
      have step: "distinct (map fst kvs) \<and> fst ` set kvs \<inter> dom (m0(k \<mapsto> v)) = {} \<and> m = m0(k \<mapsto> v) ++ map_of kvs
        \<longleftrightarrow> distinct (map fst ((k, v) # kvs)) \<and> fst ` set ((k, v) # kvs) \<inter> dom m0 = {} \<and> m = m0 ++ map_of ((k, v) # kvs)"
        for kvs
      proof (cases "k \<in> fst ` set kvs")
        case False
        then have "map_of kvs k = None" by (simp add: map_of_eq_None_iff)
        then have "m0(k \<mapsto> v) ++ map_of kvs = m0 ++ map_of ((k, v) # kvs)"
          by (auto simp: map_add_def fun_eq_iff split: option.split)
        with False None show ?thesis by auto
      qed auto
      have tr: "traverse dec (e # es) = Ok K \<longleftrightarrow> (\<exists>kvs. traverse dec es = Ok kvs \<and> K = (k, v) # kvs)" for K
        using Inr p by (auto simp: res_simps)
      have "fold_res (\<lambda>e m. rbind (dec e) (\<lambda>(k, v). insert_new w k v m)) (e # es) m0
        = fold_res (\<lambda>e m. rbind (dec e) (\<lambda>(k, v). insert_new w k v m)) es (m0(k \<mapsto> v))"
        using Inr p None by (simp add: insert_new_def)
      then show ?thesis unfolding tr by (simp only: Cons.IH step) blast
    qed (use Inr p in \<open>auto simp: insert_new_def res_simps\<close>)
  qed simp
qed auto

lemma map_of_sorted: "finite (dom m) \<Longrightarrow> map_of (map (\<lambda>k. (k, the (m k))) (sorted_list_of_set (dom m))) = m"
  by (rule ext) (auto simp: map_of_map_restrict restrict_map_def domIff)

lemma map_of_permuted:
  assumes "mset kvs = mset L" "distinct (map fst L)"
  shows "distinct (map fst kvs)" and "map_of kvs = map_of L"
proof -
  have "mset (map fst kvs) = mset (map fst L)" using assms(1) by simp
  then show d: "distinct (map fst kvs)" using assms(2) mset_eq_imp_distinct_iff by blast
  show "map_of kvs = map_of L" using map_of_inject_set [OF d assms(2)] mset_eq_setD [OF assms(1)] by simp
qed

lemma map_inverse_permuted:
  assumes m: "mset es = mset (map g L)" and v: "\<forall>p \<in> set L. h (g p) = p"
  shows "mset (map h es) = mset L" and "es = map g (map h es)"
proof -
  have "image_mset h (image_mset g (mset L)) = mset L"
    unfolding image_mset.compositionality by (rule multiset.map_ident_strong) (use v in \<open>simp only: comp_def set_mset_mset\<close>)
  then show "mset (map h es) = mset L" using m by (simp only: mset_map)
  have "g (h e) = e" if "e \<in> set es" for e
  proof -
    have "e \<in> g ` set L" using that mset_eq_setD [OF m] by simp
    then show ?thesis using v by auto
  qed
  then show "es = map g (map h es)" by (simp add: map_idI comp_def)
qed

lemma fold_insert_exact:
  assumes dec: "\<And>e k v. dec e = Ok (k, v) \<longleftrightarrow> valid_key k \<and> e = enc k v"
  shows "fold_res (\<lambda>e m. rbind (dec e) (\<lambda>(k, v). insert_new w k v m)) es Map.empty = Ok m \<longleftrightarrow>
    wire_keys (dom m) \<and> mset es = mset (map (\<lambda>k. enc k (the (m k))) (sorted_list_of_set (dom m)))"
    (is "?L \<longleftrightarrow> _ \<and> mset es = mset (map ?e ?ks)")
proof -
  let ?g = "\<lambda>(k, v). enc k v" and ?P = "\<lambda>(k, v). valid_key k"
  let ?kvs = "map (\<lambda>k. (k, the (m k))) ?ks"
  have tr: "traverse dec es = Ok kvs \<longleftrightarrow> (\<forall>p \<in> set kvs. ?P p) \<and> es = map ?g kvs" for kvs
    by (rule traverse_exact) (auto simp: dec)
  have e: "map ?e ?ks = map ?g ?kvs" by simp
  have L: "?L \<longleftrightarrow> (\<exists>kvs. traverse dec es = Ok kvs \<and> distinct (map fst kvs) \<and> m = map_of kvs)"
    by (simp add: fold_insert_new)
  have d: "distinct (map fst ?kvs)" by (simp add: comp_def)
  show ?thesis
  proof
    assume ?L
    then obtain kvs where k: "\<forall>p \<in> set kvs. ?P p" "es = map ?g kvs" "distinct (map fst kvs)" "m = map_of kvs"
      by (auto simp: L tr)
    then have w: "wire_keys (dom m)" by (auto simp: wire_keys_def dom_map_of_conv_image_fst)
    then have "set kvs = set ?kvs"
      using map_of_inject_set [OF k(3) d] map_of_sorted [of m] k(4) by (simp add: wire_keys_def)
    then have "mset kvs = mset ?kvs" using k(3) d by (metis distinct_map set_eq_iff_mset_eq_distinct)
    then have "mset es = mset (map ?g ?kvs)" unfolding k(2) by (simp only: mset_map)
    with w show "wire_keys (dom m) \<and> mset es = mset (map ?e ?ks)" unfolding e by blast
  next
    assume r: "wire_keys (dom m) \<and> mset es = mset (map ?e ?ks)"
    let ?xs = "map (\<lambda>e. projr (dec e)) es"
    have "dec (enc k v) = Ok (k, v)" if "valid_key k" for k v using that by (simp add: dec)
    then have v: "\<forall>p \<in> set ?kvs. ?P p \<and> projr (dec (?g p)) = p" using r by (simp add: wire_keys_def)
    have "mset es = mset (map ?g ?kvs)" using r e by (simp only:)
    note x = map_inverse_permuted [OF this, of "\<lambda>e. projr (dec e)"]
    have x1: "mset ?xs = mset ?kvs" and x2: "es = map ?g ?xs" using x v by blast+
    have "?P p" if "p \<in> set ?xs" for p using that x1 v by (metis mset_eq_setD)
    with x2 have "traverse dec es = Ok ?xs" by (simp only: tr) blast
    then show ?L using map_of_permuted [OF x1 d] map_of_sorted [of m] r by (auto simp: L wire_keys_def)
  qed
qed

lemma inode_exact: "inode_from_proto p = Ok i \<longleftrightarrow> p = Some (inode_to_proto i)"
  by (cases i) (auto simp: inode_from_proto_def inode_to_proto_def node_kind_code res_simps split: option.splits)

lemma read_value_exact:
  "read_value_from_proto p = Ok v \<longleftrightarrow>
   p = Some (case v of Present i \<Rightarrow> PbInode (inode_to_proto i) | Missing \<Rightarrow> PbMissing)"
  by (cases v) (auto simp: read_value_from_proto_def res_simps inode_exact split: option.splits pb_value.splits)

lemma read_entry_exact:
  "read_entry_from_proto (Some e) = Ok (k, v) \<longleftrightarrow> valid_key k \<and> e = read_entry_to_proto k v"
  by (cases e) (auto simp: read_entry_from_proto_def read_entry_to_proto_def res_simps key_new_Ok_iff read_value_exact)

lemma read_entries_exact:
  "read_entries_from_proto es = Ok rs \<longleftrightarrow> wire_keys (dom rs) \<and> mset es = mset (read_entries_to_proto rs)"
  unfolding read_entries_from_proto_def read_entries_to_proto_def by (rule fold_insert_exact) (rule read_entry_exact)

lemma read_entries_encode: "wire_keys (dom rs) \<Longrightarrow> read_entries_from_proto (read_entries_to_proto rs) = Ok rs"
  by (simp add: read_entries_exact)

lemma write_entry_exact:
  "write_entry_from_proto e = Ok w \<longleftrightarrow> valid_key (write_key w) \<and> e = write_entry_to_proto w"
  by (cases w) (auto simp: write_entry_from_proto_def res_simps key_new_Ok_iff inode_exact
      split: option.splits pb_write_op.splits)

lemma write_entries_exact:
  "write_entries_from_proto es = Ok ws \<longleftrightarrow> wire_keys (write_key ` set ws) \<and> es = write_entries_to_proto ws"
  unfolding write_entries_from_proto_def write_entries_to_proto_def
  by (subst traverse_exact [OF write_entry_exact]) (auto simp: wire_keys_def)

definition inode_entry_to_proto :: "key \<Rightarrow> inode \<Rightarrow> pb_inode_entry" where
  "inode_entry_to_proto k i = \<lparr>pb_inode_key = as_str k, pb_inode_value = Some (inode_to_proto i)\<rparr>"

lemma inode_entry_exact:
  "rbind (key_new (pb_inode_key e)) (\<lambda>k. rbind (inode_from_proto (pb_inode_value e)) (\<lambda>i. Ok (k, i))) = Ok (k, i)
   \<longleftrightarrow> valid_key k \<and> e = inode_entry_to_proto k i"
  by (cases e) (auto simp: res_simps key_new_Ok_iff inode_exact inode_entry_to_proto_def)

lemma inode_entries_exact:
  "inode_entries_from_proto es = Ok s \<longleftrightarrow> wire_keys (dom s) \<and> mset es = mset (inode_entries_to_proto s)"
proof -
  have f: "inode_entries_from_proto es = fold_res (\<lambda>e m. rbind (rbind (key_new (pb_inode_key e)) (\<lambda>k.
     rbind (inode_from_proto (pb_inode_value e)) (\<lambda>i. Ok (k, i)))) (\<lambda>(k, v). insert_new ''duplicate inode key'' k v m)) es Map.empty"
    by (simp add: inode_entries_from_proto_def rbind_assoc)
  show ?thesis unfolding f inode_entries_to_proto_def inode_entry_to_proto_def [symmetric]
    by (rule fold_insert_exact) (rule inode_entry_exact)
qed

lemma tx_result_records_exact:
  "tx_result_records_from_proto ps = Ok rs \<longleftrightarrow> ps = tx_result_records_to_proto rs"
proof -
  have "tx_result_record_from_proto p = Ok r \<longleftrightarrow> True \<and> p = tx_result_record_to_proto r" for p r
    by (cases r; cases p) (auto simp: tx_result_record_from_proto_def tx_result_record_to_proto_def res_simps tx_result_code)
  from traverse_exact [of tx_result_record_from_proto, OF this] show ?thesis
    by (simp add: tx_result_records_from_proto_def tx_result_records_to_proto_def)
qed

definition index_fits :: "nat \<Rightarrow> bool" where
  "index_fits i \<longleftrightarrow> i < 2 ^ 32"

lemma index_roundtrip: "unat (word_of_nat i :: u32) = i \<longleftrightarrow> index_fits i"
  by (simp add: index_fits_def unat_of_nat) (metis mod_less mod_less_divisor zero_less_numeral)

lemma indices_roundtrip: "map unat (map (word_of_nat :: nat \<Rightarrow> u32) xs) = xs \<longleftrightarrow> list_all index_fits xs"
  by (induction xs) (auto simp: index_roundtrip)

lemma reorder_roundtrip:
  "scc_reorder_record_from_proto (scc_reorder_record_to_proto r) = r \<longleftrightarrow>
   list_all index_fits (speculative_success_indices r @ fallback_indices r)"
  by (cases r) (simp add: scc_reorder_record_from_proto_def scc_reorder_record_to_proto_def indices_roundtrip del: map_map)

section \<open>Properties\<close>

text \<open>C27: A batch message is accepted iff every path in it is one a \<open>Key\<close> can hold, no set lists a key twice
  and every operation is present, and the batch it becomes is the one it encodes: ids, order, operations and
  sets are those of the message. Encoding and decoding a batch gives it back iff its keys are valid.\<close>

theorem batch_messages_decode_exactly:
  "(batch_from_proto p = Ok b \<longleftrightarrow> wire_batch b \<and> same_batch_message p (batch_to_proto b)) \<and>
   (batch_from_proto (batch_to_proto b) = Ok b \<longleftrightarrow> wire_batch b)"
  by (simp add: batch_exact same_batch_message_refl)

text \<open>C28: The other messages of the protocol decode to what they encode: reads and dumped states up to the
  order of their entries and without a key twice, writes in their order, results one by one. Every number
  that is not the code of a result is refused. The indices of a reorder record survive the 32 bits of
  the message iff they fit.\<close>

theorem tables_decode_exactly:
  "(read_entries_from_proto es = Ok rs \<longleftrightarrow> wire_keys (dom rs) \<and> mset es = mset (read_entries_to_proto rs)) \<and>
   (write_entries_from_proto es' = Ok ws \<longleftrightarrow> wire_keys (write_key ` set ws) \<and> es' = write_entries_to_proto ws) \<and>
   (inode_entries_from_proto es'' = Ok s \<longleftrightarrow> wire_keys (dom s) \<and> mset es'' = mset (inode_entries_to_proto s)) \<and>
   (tx_result_records_from_proto ps = Ok recs \<longleftrightarrow> ps = tx_result_records_to_proto recs) \<and>
   (tx_result_from_i32 v = Ok r \<longleftrightarrow> v = tx_result_to_i32 r) \<and>
   (scc_reorder_record_from_proto (scc_reorder_record_to_proto rec) = rec \<longleftrightarrow>
      list_all index_fits (speculative_success_indices rec @ fallback_indices rec))"
  by (intro conjI read_entries_exact write_entries_exact inode_entries_exact tx_result_records_exact tx_result_code
      reorder_roundtrip)

end
