(* ===== verification/Profile.thy ===== *)
theory Profile
  imports Convert SccPlan
begin

text \<open>
  The profiles a shard keeps of the batches it executes (\<open>src/model.rs\<close>), the functions of
  \<open>src/engine.rs\<close> that start a profile and merge the workers' measurements into it, and the wire form of
  \<open>src/convert.rs\<close>. A measured duration is an argument; every counter stays at its largest value.
\<close>

section \<open>Records\<close>

datatype profile_scheduler = ProfCalvinLocking | ProfSccOnline | ProfAria

record worker_stage_stats =
  sum_ns :: u64
  max_ns :: u64

record scheduler_profile_counters =
  tx_count :: u64
  relevant_tx_count :: u64
  active_tx_count :: u64
  passive_tx_count :: u64
  non_participant_tx_count :: u64
  local_read_key_count :: u64
  local_write_key_count :: u64
  remote_read_messages_sent :: u64
  remote_read_messages_received :: u64
  result_records_produced :: u64
  lock_key_count :: u64
  plan_pair_count :: u64
  effect_edge_count :: u64
  condition_edge_count :: u64
  condition_skipped_count :: u64
  speculative_success_count :: u64
  local_failed_count :: u64
  global_failed_count :: u64
  fallback_tx_count :: u64
  delta_op_count :: u64
  completion_reports_sent :: u64
  completion_reports_received :: u64

record scheduler_profile_timings =
  total_ns :: u64
  cleanup_ns :: u64
  validate_ns :: u64
  result_registry_ns :: u64
  lock_wait_sum_ns :: u64
  lock_wait_max_ns :: u64
  local_read_ns :: u64
  remote_read_send_ns :: u64
  remote_read_collect_ns :: u64
  execute_apply_ns :: u64
  result_mark_ns :: u64
  outcome_collect_release_ns :: u64
  plan_build_ns :: u64
  dag_setup_ns :: u64
  base_read_ns :: u64
  mailbox_spawn_ns :: u64
  completion_publish_ns :: u64
  completion_collect_ns :: u64
  record_reorder_ns :: u64
  install_successes_ns :: u64
  fallback_ns :: u64
  scc_effect_wait :: worker_stage_stats
  scc_effect_materialize :: worker_stage_stats
  scc_effect_send :: worker_stage_stats
  scc_effect_collect :: worker_stage_stats
  scc_execute :: worker_stage_stats
  scc_delta_build :: worker_stage_stats
  scc_condition_wait :: worker_stage_stats
  scc_condition_materialize :: worker_stage_stats
  scc_condition_send :: worker_stage_stats
  scc_condition_collect :: worker_stage_stats
  scc_condition_check :: worker_stage_stats
  scc_commit :: worker_stage_stats

record scheduler_profile_record =
  prof_scheduler :: profile_scheduler
  prof_batch_id :: batch_id
  prof_shard_id :: shard_id
  prof_counters :: scheduler_profile_counters
  prof_timings :: scheduler_profile_timings

text \<open>The default of a number is zero.\<close>

definition stage_stats_default :: worker_stage_stats where
  "stage_stats_default = \<lparr>sum_ns = 0, max_ns = 0\<rparr>"

definition counters_default :: scheduler_profile_counters where
  "counters_default =
     \<lparr>tx_count = 0, relevant_tx_count = 0, active_tx_count = 0, passive_tx_count = 0, non_participant_tx_count = 0,
      local_read_key_count = 0, local_write_key_count = 0, remote_read_messages_sent = 0,
      remote_read_messages_received = 0, result_records_produced = 0, lock_key_count = 0, plan_pair_count = 0,
      effect_edge_count = 0, condition_edge_count = 0, condition_skipped_count = 0, speculative_success_count = 0,
      local_failed_count = 0, global_failed_count = 0, fallback_tx_count = 0, delta_op_count = 0,
      completion_reports_sent = 0, completion_reports_received = 0\<rparr>"

definition timings_default :: scheduler_profile_timings where
  "timings_default =
     \<lparr>total_ns = 0, cleanup_ns = 0, validate_ns = 0, result_registry_ns = 0, lock_wait_sum_ns = 0,
      lock_wait_max_ns = 0, local_read_ns = 0, remote_read_send_ns = 0, remote_read_collect_ns = 0,
      execute_apply_ns = 0, result_mark_ns = 0, outcome_collect_release_ns = 0, plan_build_ns = 0, dag_setup_ns = 0,
      base_read_ns = 0, mailbox_spawn_ns = 0, completion_publish_ns = 0, completion_collect_ns = 0,
      record_reorder_ns = 0, install_successes_ns = 0, fallback_ns = 0, scc_effect_wait = stage_stats_default,
      scc_effect_materialize = stage_stats_default, scc_effect_send = stage_stats_default,
      scc_effect_collect = stage_stats_default, scc_execute = stage_stats_default,
      scc_delta_build = stage_stats_default, scc_condition_wait = stage_stats_default,
      scc_condition_materialize = stage_stats_default, scc_condition_send = stage_stats_default,
      scc_condition_collect = stage_stats_default, scc_condition_check = stage_stats_default,
      scc_commit = stage_stats_default\<rparr>"

section \<open>Wire form\<close>

record pb_stage_stats =
  pb_sum_ns :: u64
  pb_max_ns :: u64

record pb_profile_counters =
  pb_tx_count :: u64
  pb_relevant_tx_count :: u64
  pb_active_tx_count :: u64
  pb_passive_tx_count :: u64
  pb_non_participant_tx_count :: u64
  pb_local_read_key_count :: u64
  pb_local_write_key_count :: u64
  pb_remote_read_messages_sent :: u64
  pb_remote_read_messages_received :: u64
  pb_result_records_produced :: u64
  pb_lock_key_count :: u64
  pb_plan_pair_count :: u64
  pb_effect_edge_count :: u64
  pb_condition_edge_count :: u64
  pb_condition_skipped_count :: u64
  pb_speculative_success_count :: u64
  pb_local_failed_count :: u64
  pb_global_failed_count :: u64
  pb_fallback_tx_count :: u64
  pb_delta_op_count :: u64
  pb_completion_reports_sent :: u64
  pb_completion_reports_received :: u64

record pb_profile_timings =
  pb_total_ns :: u64
  pb_cleanup_ns :: u64
  pb_validate_ns :: u64
  pb_result_registry_ns :: u64
  pb_lock_wait_sum_ns :: u64
  pb_lock_wait_max_ns :: u64
  pb_local_read_ns :: u64
  pb_remote_read_send_ns :: u64
  pb_remote_read_collect_ns :: u64
  pb_execute_apply_ns :: u64
  pb_result_mark_ns :: u64
  pb_outcome_collect_release_ns :: u64
  pb_plan_build_ns :: u64
  pb_dag_setup_ns :: u64
  pb_base_read_ns :: u64
  pb_mailbox_spawn_ns :: u64
  pb_completion_publish_ns :: u64
  pb_completion_collect_ns :: u64
  pb_record_reorder_ns :: u64
  pb_install_successes_ns :: u64
  pb_fallback_ns :: u64
  pb_scc_effect_wait :: "pb_stage_stats option"
  pb_scc_effect_materialize :: "pb_stage_stats option"
  pb_scc_effect_send :: "pb_stage_stats option"
  pb_scc_effect_collect :: "pb_stage_stats option"
  pb_scc_execute :: "pb_stage_stats option"
  pb_scc_delta_build :: "pb_stage_stats option"
  pb_scc_condition_wait :: "pb_stage_stats option"
  pb_scc_condition_materialize :: "pb_stage_stats option"
  pb_scc_condition_send :: "pb_stage_stats option"
  pb_scc_condition_collect :: "pb_stage_stats option"
  pb_scc_condition_check :: "pb_stage_stats option"
  pb_scc_commit :: "pb_stage_stats option"

record pb_profile_record =
  pb_prof_scheduler :: i32
  pb_prof_batch_id :: u64
  pb_prof_shard_id :: u64
  pb_prof_counters :: "pb_profile_counters option"
  pb_prof_timings :: "pb_profile_timings option"

fun scheduler_to_i32 :: "profile_scheduler \<Rightarrow> i32" where
  "scheduler_to_i32 ProfCalvinLocking = 1"
| "scheduler_to_i32 ProfSccOnline = 2"
| "scheduler_to_i32 ProfAria = 3"

definition scheduler_from_i32 :: "i32 \<Rightarrow> profile_scheduler result" where
  "scheduler_from_i32 v =
     (if v = 1 then Ok ProfCalvinLocking else if v = 2 then Ok ProfSccOnline else if v = 3 then Ok ProfAria
      else Err (InvalidProto ''invalid SchedulerProfileScheduler''))"

definition pb_stage_stats_default :: pb_stage_stats where
  "pb_stage_stats_default = \<lparr>pb_sum_ns = 0, pb_max_ns = 0\<rparr>"

definition pb_counters_default :: pb_profile_counters where
  "pb_counters_default =
     \<lparr>pb_tx_count = 0, pb_relevant_tx_count = 0, pb_active_tx_count = 0, pb_passive_tx_count = 0,
      pb_non_participant_tx_count = 0, pb_local_read_key_count = 0, pb_local_write_key_count = 0,
      pb_remote_read_messages_sent = 0, pb_remote_read_messages_received = 0, pb_result_records_produced = 0,
      pb_lock_key_count = 0, pb_plan_pair_count = 0, pb_effect_edge_count = 0, pb_condition_edge_count = 0,
      pb_condition_skipped_count = 0, pb_speculative_success_count = 0, pb_local_failed_count = 0,
      pb_global_failed_count = 0, pb_fallback_tx_count = 0, pb_delta_op_count = 0, pb_completion_reports_sent = 0,
      pb_completion_reports_received = 0\<rparr>"

definition pb_timings_default :: pb_profile_timings where
  "pb_timings_default =
     \<lparr>pb_total_ns = 0, pb_cleanup_ns = 0, pb_validate_ns = 0, pb_result_registry_ns = 0, pb_lock_wait_sum_ns = 0,
      pb_lock_wait_max_ns = 0, pb_local_read_ns = 0, pb_remote_read_send_ns = 0, pb_remote_read_collect_ns = 0,
      pb_execute_apply_ns = 0, pb_result_mark_ns = 0, pb_outcome_collect_release_ns = 0, pb_plan_build_ns = 0,
      pb_dag_setup_ns = 0, pb_base_read_ns = 0, pb_mailbox_spawn_ns = 0, pb_completion_publish_ns = 0,
      pb_completion_collect_ns = 0, pb_record_reorder_ns = 0, pb_install_successes_ns = 0, pb_fallback_ns = 0,
      pb_scc_effect_wait = None, pb_scc_effect_materialize = None, pb_scc_effect_send = None,
      pb_scc_effect_collect = None, pb_scc_execute = None, pb_scc_delta_build = None, pb_scc_condition_wait = None,
      pb_scc_condition_materialize = None, pb_scc_condition_send = None, pb_scc_condition_collect = None,
      pb_scc_condition_check = None, pb_scc_commit = None\<rparr>"

definition unwrap_or :: "'a \<Rightarrow> 'a option \<Rightarrow> 'a" where
  "unwrap_or d v = (case v of Some x \<Rightarrow> x | None \<Rightarrow> d)"

definition stage_stats_to_proto :: "worker_stage_stats \<Rightarrow> pb_stage_stats" where
  "stage_stats_to_proto s = \<lparr>pb_sum_ns = sum_ns s, pb_max_ns = max_ns s\<rparr>"

definition stage_stats_from_proto :: "pb_stage_stats option \<Rightarrow> worker_stage_stats" where
  "stage_stats_from_proto value =
     (let v = unwrap_or pb_stage_stats_default value in \<lparr>sum_ns = pb_sum_ns v, max_ns = pb_max_ns v\<rparr>)"

definition counters_to_proto :: "scheduler_profile_counters \<Rightarrow> pb_profile_counters" where
  "counters_to_proto c =
     \<lparr>pb_tx_count = tx_count c, pb_relevant_tx_count = relevant_tx_count c, pb_active_tx_count = active_tx_count c,
      pb_passive_tx_count = passive_tx_count c, pb_non_participant_tx_count = non_participant_tx_count c,
      pb_local_read_key_count = local_read_key_count c, pb_local_write_key_count = local_write_key_count c,
      pb_remote_read_messages_sent = remote_read_messages_sent c,
      pb_remote_read_messages_received = remote_read_messages_received c,
      pb_result_records_produced = result_records_produced c, pb_lock_key_count = lock_key_count c,
      pb_plan_pair_count = plan_pair_count c, pb_effect_edge_count = effect_edge_count c,
      pb_condition_edge_count = condition_edge_count c, pb_condition_skipped_count = condition_skipped_count c,
      pb_speculative_success_count = speculative_success_count c, pb_local_failed_count = local_failed_count c,
      pb_global_failed_count = global_failed_count c, pb_fallback_tx_count = fallback_tx_count c,
      pb_delta_op_count = delta_op_count c, pb_completion_reports_sent = completion_reports_sent c,
      pb_completion_reports_received = completion_reports_received c\<rparr>"

definition counters_from_proto :: "pb_profile_counters \<Rightarrow> scheduler_profile_counters" where
  "counters_from_proto v =
     \<lparr>tx_count = pb_tx_count v, relevant_tx_count = pb_relevant_tx_count v, active_tx_count = pb_active_tx_count v,
      passive_tx_count = pb_passive_tx_count v, non_participant_tx_count = pb_non_participant_tx_count v,
      local_read_key_count = pb_local_read_key_count v, local_write_key_count = pb_local_write_key_count v,
      remote_read_messages_sent = pb_remote_read_messages_sent v,
      remote_read_messages_received = pb_remote_read_messages_received v,
      result_records_produced = pb_result_records_produced v, lock_key_count = pb_lock_key_count v,
      plan_pair_count = pb_plan_pair_count v, effect_edge_count = pb_effect_edge_count v,
      condition_edge_count = pb_condition_edge_count v, condition_skipped_count = pb_condition_skipped_count v,
      speculative_success_count = pb_speculative_success_count v, local_failed_count = pb_local_failed_count v,
      global_failed_count = pb_global_failed_count v, fallback_tx_count = pb_fallback_tx_count v,
      delta_op_count = pb_delta_op_count v, completion_reports_sent = pb_completion_reports_sent v,
      completion_reports_received = pb_completion_reports_received v\<rparr>"

definition timings_to_proto :: "scheduler_profile_timings \<Rightarrow> pb_profile_timings" where
  "timings_to_proto t =
     \<lparr>pb_total_ns = total_ns t, pb_cleanup_ns = cleanup_ns t, pb_validate_ns = validate_ns t,
      pb_result_registry_ns = result_registry_ns t, pb_lock_wait_sum_ns = lock_wait_sum_ns t,
      pb_lock_wait_max_ns = lock_wait_max_ns t, pb_local_read_ns = local_read_ns t,
      pb_remote_read_send_ns = remote_read_send_ns t, pb_remote_read_collect_ns = remote_read_collect_ns t,
      pb_execute_apply_ns = execute_apply_ns t, pb_result_mark_ns = result_mark_ns t,
      pb_outcome_collect_release_ns = outcome_collect_release_ns t, pb_plan_build_ns = plan_build_ns t,
      pb_dag_setup_ns = dag_setup_ns t, pb_base_read_ns = base_read_ns t, pb_mailbox_spawn_ns = mailbox_spawn_ns t,
      pb_completion_publish_ns = completion_publish_ns t, pb_completion_collect_ns = completion_collect_ns t,
      pb_record_reorder_ns = record_reorder_ns t, pb_install_successes_ns = install_successes_ns t,
      pb_fallback_ns = fallback_ns t, pb_scc_effect_wait = Some (stage_stats_to_proto (scc_effect_wait t)),
      pb_scc_effect_materialize = Some (stage_stats_to_proto (scc_effect_materialize t)),
      pb_scc_effect_send = Some (stage_stats_to_proto (scc_effect_send t)),
      pb_scc_effect_collect = Some (stage_stats_to_proto (scc_effect_collect t)),
      pb_scc_execute = Some (stage_stats_to_proto (scc_execute t)),
      pb_scc_delta_build = Some (stage_stats_to_proto (scc_delta_build t)),
      pb_scc_condition_wait = Some (stage_stats_to_proto (scc_condition_wait t)),
      pb_scc_condition_materialize = Some (stage_stats_to_proto (scc_condition_materialize t)),
      pb_scc_condition_send = Some (stage_stats_to_proto (scc_condition_send t)),
      pb_scc_condition_collect = Some (stage_stats_to_proto (scc_condition_collect t)),
      pb_scc_condition_check = Some (stage_stats_to_proto (scc_condition_check t)),
      pb_scc_commit = Some (stage_stats_to_proto (scc_commit t))\<rparr>"

definition timings_from_proto :: "pb_profile_timings \<Rightarrow> scheduler_profile_timings" where
  "timings_from_proto v =
     \<lparr>total_ns = pb_total_ns v, cleanup_ns = pb_cleanup_ns v, validate_ns = pb_validate_ns v,
      result_registry_ns = pb_result_registry_ns v, lock_wait_sum_ns = pb_lock_wait_sum_ns v,
      lock_wait_max_ns = pb_lock_wait_max_ns v, local_read_ns = pb_local_read_ns v,
      remote_read_send_ns = pb_remote_read_send_ns v, remote_read_collect_ns = pb_remote_read_collect_ns v,
      execute_apply_ns = pb_execute_apply_ns v, result_mark_ns = pb_result_mark_ns v,
      outcome_collect_release_ns = pb_outcome_collect_release_ns v, plan_build_ns = pb_plan_build_ns v,
      dag_setup_ns = pb_dag_setup_ns v, base_read_ns = pb_base_read_ns v, mailbox_spawn_ns = pb_mailbox_spawn_ns v,
      completion_publish_ns = pb_completion_publish_ns v, completion_collect_ns = pb_completion_collect_ns v,
      record_reorder_ns = pb_record_reorder_ns v, install_successes_ns = pb_install_successes_ns v,
      fallback_ns = pb_fallback_ns v, scc_effect_wait = stage_stats_from_proto (pb_scc_effect_wait v),
      scc_effect_materialize = stage_stats_from_proto (pb_scc_effect_materialize v),
      scc_effect_send = stage_stats_from_proto (pb_scc_effect_send v),
      scc_effect_collect = stage_stats_from_proto (pb_scc_effect_collect v),
      scc_execute = stage_stats_from_proto (pb_scc_execute v),
      scc_delta_build = stage_stats_from_proto (pb_scc_delta_build v),
      scc_condition_wait = stage_stats_from_proto (pb_scc_condition_wait v),
      scc_condition_materialize = stage_stats_from_proto (pb_scc_condition_materialize v),
      scc_condition_send = stage_stats_from_proto (pb_scc_condition_send v),
      scc_condition_collect = stage_stats_from_proto (pb_scc_condition_collect v),
      scc_condition_check = stage_stats_from_proto (pb_scc_condition_check v),
      scc_commit = stage_stats_from_proto (pb_scc_commit v)\<rparr>"

definition profile_record_to_proto :: "scheduler_profile_record \<Rightarrow> pb_profile_record" where
  "profile_record_to_proto r =
     \<lparr>pb_prof_scheduler = scheduler_to_i32 (prof_scheduler r), pb_prof_batch_id = prof_batch_id r,
      pb_prof_shard_id = prof_shard_id r, pb_prof_counters = Some (counters_to_proto (prof_counters r)),
      pb_prof_timings = Some (timings_to_proto (prof_timings r))\<rparr>"

definition profile_record_from_proto :: "pb_profile_record \<Rightarrow> scheduler_profile_record result" where
  "profile_record_from_proto v =
     rbind (scheduler_from_i32 (pb_prof_scheduler v)) (\<lambda>s.
     Ok \<lparr>prof_scheduler = s, prof_batch_id = pb_prof_batch_id v, prof_shard_id = pb_prof_shard_id v,
         prof_counters = counters_from_proto (unwrap_or pb_counters_default (pb_prof_counters v)),
         prof_timings = timings_from_proto (unwrap_or pb_timings_default (pb_prof_timings v))\<rparr>)"

definition profile_records_to_proto :: "scheduler_profile_record list \<Rightarrow> pb_profile_record list" where
  "profile_records_to_proto rs = map profile_record_to_proto rs"

definition profile_records_from_proto :: "pb_profile_record list \<Rightarrow> scheduler_profile_record list result" where
  "profile_records_from_proto vs = traverse profile_record_from_proto vs"

section \<open>Measuring\<close>

text \<open>A worker's own measurements, and what it reports about its messages.\<close>

record calvin_worker_profile =
  cw_lock_wait_ns :: u64
  cw_local_read_ns :: u64
  cw_remote_read_send_ns :: u64
  cw_remote_read_collect_ns :: u64
  cw_execute_apply_ns :: u64
  cw_result_mark_ns :: u64
  cw_remote_sent :: u64
  cw_remote_received :: u64

record scc_worker_profile =
  sw_effect_wait_ns :: u64
  sw_effect_materialize_ns :: u64
  sw_effect_send_ns :: u64
  sw_effect_collect_ns :: u64
  sw_execute_ns :: u64
  sw_delta_build_ns :: u64
  sw_condition_wait_ns :: u64
  sw_condition_materialize_ns :: u64
  sw_condition_send_ns :: u64
  sw_condition_collect_ns :: u64
  sw_condition_check_ns :: u64
  sw_commit_ns :: u64
  sw_remote_sent :: u64
  sw_remote_received :: u64
  sw_condition_skipped :: bool
  sw_delta_op_count :: u64

definition add_sample :: "u64 \<Rightarrow> worker_stage_stats \<Rightarrow> worker_stage_stats" where
  "add_sample ns s = \<lparr>sum_ns = saturating_add (sum_ns s) ns, max_ns = max (max_ns s) ns\<rparr>"

definition add_stage_sample :: "u64 \<Rightarrow> worker_stage_stats \<Rightarrow> worker_stage_stats" where
  "add_stage_sample ns s = (if 0 < ns then add_sample ns s else s)"

definition usize_to_u64 :: "nat \<Rightarrow> u64" where
  "usize_to_u64 n = (if n < 2 ^ 64 then word_of_nat n else - 1)"

text \<open>The clock's difference in nanoseconds, at least one.\<close>

definition elapsed_ns :: "nat \<Rightarrow> u64" where
  "elapsed_ns nanos = max (word_of_nat (min nanos (2 ^ 64 - 1))) 1"

definition saturating_mul :: "u64 \<Rightarrow> u64 \<Rightarrow> u64" where
  "saturating_mul a b = (if unat a * unat b < 2 ^ 64 then a * b else - 1)"

definition plan_pair_count_of :: "nat \<Rightarrow> u64" where
  "plan_pair_count_of n = (let t = usize_to_u64 n in saturating_mul t (saturating_sub t 1) div 2)"

definition dag_edge_count :: "semantic_dag \<Rightarrow> u64" where
  "dag_edge_count g = fold (\<lambda>node total. saturating_add total (usize_to_u64 (card node))) (nodes g) 0"

definition new_scheduler_profile :: "profile_scheduler \<Rightarrow> batch \<Rightarrow> shard_id \<Rightarrow> scheduler_profile_record" where
  "new_scheduler_profile sched b me =
     \<lparr>prof_scheduler = sched, prof_batch_id = batch_id b, prof_shard_id = me,
      prof_counters = counters_default\<lparr>tx_count := usize_to_u64 (length (txs b))\<rparr>,
      prof_timings = timings_default\<rparr>"

definition add_counter ::
    "(scheduler_profile_counters \<Rightarrow> scheduler_profile_counters) \<Rightarrow> scheduler_profile_record option
      \<Rightarrow> scheduler_profile_record option" where
  "add_counter update profile =
     (case profile of None \<Rightarrow> None | Some p \<Rightarrow> Some (p\<lparr>prof_counters := update (prof_counters p)\<rparr>))"

definition add_timing ::
    "(scheduler_profile_timings \<Rightarrow> scheduler_profile_timings) \<Rightarrow> scheduler_profile_record option
      \<Rightarrow> scheduler_profile_record option" where
  "add_timing update profile =
     (case profile of None \<Rightarrow> None | Some p \<Rightarrow> Some (p\<lparr>prof_timings := update (prof_timings p)\<rparr>))"

definition add_participant_counters ::
    "participants \<Rightarrow> shard_id \<Rightarrow> scheduler_profile_record option \<Rightarrow> scheduler_profile_record option" where
  "add_participant_counters ps me profile = add_counter (\<lambda>c.
     if me \<in> p_active ps then c\<lparr>active_tx_count := saturating_add (active_tx_count c) 1\<rparr>
     else c\<lparr>passive_tx_count := saturating_add (passive_tx_count c) 1\<rparr>) profile"

definition merge_calvin_worker_profile ::
    "calvin_worker_profile option \<Rightarrow> scheduler_profile_record option \<Rightarrow> scheduler_profile_record option" where
  "merge_calvin_worker_profile worker profile =
     (case (worker, profile) of
        (Some w, Some p) \<Rightarrow>
          Some (p\<lparr>prof_timings := (prof_timings p)\<lparr>
                   lock_wait_sum_ns := saturating_add (lock_wait_sum_ns (prof_timings p)) (cw_lock_wait_ns w),
                   lock_wait_max_ns := max (lock_wait_max_ns (prof_timings p)) (cw_lock_wait_ns w),
                   local_read_ns := saturating_add (local_read_ns (prof_timings p)) (cw_local_read_ns w),
                   remote_read_send_ns := saturating_add (remote_read_send_ns (prof_timings p)) (cw_remote_read_send_ns w),
                   remote_read_collect_ns := saturating_add (remote_read_collect_ns (prof_timings p)) (cw_remote_read_collect_ns w),
                   execute_apply_ns := saturating_add (execute_apply_ns (prof_timings p)) (cw_execute_apply_ns w),
                   result_mark_ns := saturating_add (result_mark_ns (prof_timings p)) (cw_result_mark_ns w)\<rparr>,
                 prof_counters := (prof_counters p)\<lparr>
                   remote_read_messages_sent := saturating_add (remote_read_messages_sent (prof_counters p)) (cw_remote_sent w),
                   remote_read_messages_received :=
                     saturating_add (remote_read_messages_received (prof_counters p)) (cw_remote_received w)\<rparr>\<rparr>)
      | _ \<Rightarrow> profile)"

definition merge_scc_worker_profile ::
    "scc_worker_profile option \<Rightarrow> scheduler_profile_record option \<Rightarrow> scheduler_profile_record option" where
  "merge_scc_worker_profile worker profile =
     (case (worker, profile) of
        (Some w, Some p) \<Rightarrow>
          Some (p\<lparr>prof_timings := (prof_timings p)\<lparr>
                   scc_effect_wait := add_stage_sample (sw_effect_wait_ns w) (scc_effect_wait (prof_timings p)),
                   scc_effect_materialize := add_stage_sample (sw_effect_materialize_ns w) (scc_effect_materialize (prof_timings p)),
                   scc_effect_send := add_stage_sample (sw_effect_send_ns w) (scc_effect_send (prof_timings p)),
                   scc_effect_collect := add_stage_sample (sw_effect_collect_ns w) (scc_effect_collect (prof_timings p)),
                   scc_execute := add_stage_sample (sw_execute_ns w) (scc_execute (prof_timings p)),
                   scc_delta_build := add_stage_sample (sw_delta_build_ns w) (scc_delta_build (prof_timings p)),
                   scc_condition_wait := add_stage_sample (sw_condition_wait_ns w) (scc_condition_wait (prof_timings p)),
                   scc_condition_materialize := add_stage_sample (sw_condition_materialize_ns w) (scc_condition_materialize (prof_timings p)),
                   scc_condition_send := add_stage_sample (sw_condition_send_ns w) (scc_condition_send (prof_timings p)),
                   scc_condition_collect := add_stage_sample (sw_condition_collect_ns w) (scc_condition_collect (prof_timings p)),
                   scc_condition_check := add_stage_sample (sw_condition_check_ns w) (scc_condition_check (prof_timings p)),
                   scc_commit := add_stage_sample (sw_commit_ns w) (scc_commit (prof_timings p))\<rparr>,
                 prof_counters := (prof_counters p)\<lparr>
                   condition_skipped_count :=
                     (if sw_condition_skipped w then saturating_add (condition_skipped_count (prof_counters p)) 1
                      else condition_skipped_count (prof_counters p)),
                   delta_op_count := saturating_add (delta_op_count (prof_counters p)) (sw_delta_op_count w),
                   remote_read_messages_sent := saturating_add (remote_read_messages_sent (prof_counters p)) (sw_remote_sent w),
                   remote_read_messages_received :=
                     saturating_add (remote_read_messages_received (prof_counters p)) (sw_remote_received w)\<rparr>\<rparr>)
      | _ \<Rightarrow> profile)"

section \<open>Decoding is exact up to missing fields\<close>

lemma unwrap_or_simps [simp]: "unwrap_or d None = d" "unwrap_or d (Some x) = x"
  by (simp_all add: unwrap_or_def)

definition fill_timings :: "pb_profile_timings \<Rightarrow> pb_profile_timings" where
  "fill_timings v = v\<lparr>
     pb_scc_effect_wait := Some (unwrap_or pb_stage_stats_default (pb_scc_effect_wait v)),
     pb_scc_effect_materialize := Some (unwrap_or pb_stage_stats_default (pb_scc_effect_materialize v)),
     pb_scc_effect_send := Some (unwrap_or pb_stage_stats_default (pb_scc_effect_send v)),
     pb_scc_effect_collect := Some (unwrap_or pb_stage_stats_default (pb_scc_effect_collect v)),
     pb_scc_execute := Some (unwrap_or pb_stage_stats_default (pb_scc_execute v)),
     pb_scc_delta_build := Some (unwrap_or pb_stage_stats_default (pb_scc_delta_build v)),
     pb_scc_condition_wait := Some (unwrap_or pb_stage_stats_default (pb_scc_condition_wait v)),
     pb_scc_condition_materialize := Some (unwrap_or pb_stage_stats_default (pb_scc_condition_materialize v)),
     pb_scc_condition_send := Some (unwrap_or pb_stage_stats_default (pb_scc_condition_send v)),
     pb_scc_condition_collect := Some (unwrap_or pb_stage_stats_default (pb_scc_condition_collect v)),
     pb_scc_condition_check := Some (unwrap_or pb_stage_stats_default (pb_scc_condition_check v)),
     pb_scc_commit := Some (unwrap_or pb_stage_stats_default (pb_scc_commit v))\<rparr>"

definition fill_profile :: "pb_profile_record \<Rightarrow> pb_profile_record" where
  "fill_profile v = v\<lparr>pb_prof_counters := Some (unwrap_or pb_counters_default (pb_prof_counters v)),
     pb_prof_timings := Some (fill_timings (unwrap_or pb_timings_default (pb_prof_timings v)))\<rparr>"

lemma scheduler_code: "scheduler_from_i32 v = Ok s \<longleftrightarrow> v = scheduler_to_i32 s"
  by (cases s) (auto simp: scheduler_from_i32_def)

lemma stage_stats_codes [simp]:
  "stage_stats_from_proto (Some (stage_stats_to_proto s)) = s"
  "stage_stats_to_proto (stage_stats_from_proto v) = unwrap_or pb_stage_stats_default v"
  "stage_stats_from_proto (Some (unwrap_or pb_stage_stats_default v)) = stage_stats_from_proto v"
  by (simp_all add: stage_stats_from_proto_def stage_stats_to_proto_def Let_def)

lemma counters_codes [simp]:
  "counters_from_proto (counters_to_proto c) = c"
  "counters_to_proto (counters_from_proto v) = v"
  by (simp_all add: counters_from_proto_def counters_to_proto_def)

lemma timings_decode_encode: "timings_from_proto (timings_to_proto t) = t"
  by (simp add: timings_from_proto_def timings_to_proto_def)

lemma timings_encode_decode: "timings_to_proto (timings_from_proto v) = fill_timings v"
  by (simp add: timings_from_proto_def timings_to_proto_def fill_timings_def)

lemma timings_from_fill: "timings_from_proto (fill_timings v) = timings_from_proto v"
  by (simp add: timings_from_proto_def fill_timings_def)

lemma timings_exact: "timings_from_proto v = t \<longleftrightarrow> fill_timings v = timings_to_proto t"
  by (metis timings_decode_encode timings_encode_decode timings_from_fill)

lemma counters_exact: "counters_from_proto v = c \<longleftrightarrow> v = counters_to_proto c"
  by (metis counters_codes)

lemma profile_record_exact: "profile_record_from_proto v = Ok r \<longleftrightarrow> fill_profile v = profile_record_to_proto r"
  by (cases v; cases r)
    (auto simp: profile_record_from_proto_def profile_record_to_proto_def fill_profile_def res_simps scheduler_code
      counters_exact timings_exact)

section \<open>Merging\<close>

lemma unat_saturating_add: "unat (saturating_add a b) = min (unat a + unat b) (2 ^ LENGTH('a) - 1)"
  for a b :: "'a::len word"
  by (auto simp: saturating_add_def unat_word_ariths unsigned_minus_1_eq_mask mask_eq_exp_minus_1 min_def)

lemma saturating_add_swap: "saturating_add (saturating_add a b) c = saturating_add (saturating_add a c) b"
  for a b c :: "'a::len word"
  by (rule word_unat_eq_iff [THEN iffD2]) (auto simp: unat_saturating_add min_def)

lemma add_sample_swap: "add_sample a (add_sample b s) = add_sample b (add_sample a s)"
  by (simp add: add_sample_def saturating_add_swap max.left_commute max.commute)

lemma add_stage_sample_swap: "add_stage_sample a (add_stage_sample b s) = add_stage_sample b (add_stage_sample a s)"
  by (simp add: add_stage_sample_def add_sample_swap)

lemma merge_calvin_swap:
  "merge_calvin_worker_profile v (merge_calvin_worker_profile w p) =
   merge_calvin_worker_profile w (merge_calvin_worker_profile v p)"
  by (cases p; cases v; cases w)
    (simp_all add: merge_calvin_worker_profile_def saturating_add_swap max.assoc max.left_commute max.commute)

lemma merge_scc_swap:
  "merge_scc_worker_profile v (merge_scc_worker_profile w p) =
   merge_scc_worker_profile w (merge_scc_worker_profile v p)"
  by (cases p; cases v; cases w)
    (simp_all add: merge_scc_worker_profile_def saturating_add_swap add_stage_sample_swap)

text \<open>The workers of a batch finish in any order; the profile does not depend on it.\<close>

lemma merge_calvin_order:
  "mset ws = mset ws' \<Longrightarrow> fold merge_calvin_worker_profile ws p = fold merge_calvin_worker_profile ws' p"
  by (rule fold_multiset_equiv [THEN fun_cong]) (auto simp: fun_eq_iff merge_calvin_swap)

lemma merge_scc_order:
  "mset ws = mset ws' \<Longrightarrow> fold merge_scc_worker_profile ws p = fold merge_scc_worker_profile ws' p"
  by (rule fold_multiset_equiv [THEN fun_cong]) (auto simp: fun_eq_iff merge_scc_swap)

lemma stage_samples_total:
  "unat (sum_ns (fold add_stage_sample xs s)) = min (unat (sum_ns s) + sum_list (map unat xs)) (2 ^ 64 - 1)
   \<and> max_ns (fold add_stage_sample xs s) = fold max xs (max_ns s)"
proof (induction xs arbitrary: s)
  case Nil
  have "unat (sum_ns s) < 2 ^ 64" using unsigned_less [of "sum_ns s"] by simp
  then show ?case by simp
next
  case (Cons x xs)
  show ?case
  proof (cases "0 < x")
    case True
    then have "add_stage_sample x s = add_sample x s" by (simp add: add_stage_sample_def)
    then show ?thesis by (simp add: Cons.IH add_sample_def unat_saturating_add max.commute)
  next
    case False
    then have "x = 0" "add_stage_sample x s = s" by (simp_all add: add_stage_sample_def)
    then show ?thesis by (simp add: Cons.IH)
  qed
qed

section \<open>Counting edges\<close>

lemma unat_usize: "unat (usize_to_u64 n) = min n (2 ^ 64 - 1)"
  by (auto simp: usize_to_u64_def unat_of_nat unsigned_minus_1_eq_mask mask_eq_exp_minus_1 min_def)

lemma fold_count: "unat (fold (\<lambda>x total. saturating_add total (usize_to_u64 (f x))) xs t)
  = min (unat t + sum_list (map f xs)) (2 ^ 64 - 1)" for t :: u64
proof (induction xs arbitrary: t)
  case Nil
  have "unat t < 2 ^ 64" using unsigned_less [of t] by simp
  then show ?case by simp
next
  case (Cons x xs)
  then show ?case by (auto simp: unat_saturating_add unat_usize min_def)
qed

lemma unat_saturating_mul: "unat (saturating_mul a b) = min (unat a * unat b) (2 ^ 64 - 1)"
  by (auto simp: saturating_mul_def unat_word_ariths unsigned_minus_1_eq_mask mask_eq_exp_minus_1 min_def)

lemma unat_pair_count:
  assumes "n \<le> 2 ^ 32" shows "unat (plan_pair_count_of n) = n * (n - 1) div 2"
proof -
  have "n * (n - 1) \<le> 2 ^ 32 * (2 ^ 32 - 1)" using assms by (intro mult_mono) auto
  then have "min (n * (n - 1)) (2 ^ 64 - 1) = n * (n - 1)" by simp
  moreover have "min n (2 ^ 64 - 1) = n" using assms by simp
  ultimately show ?thesis
    by (simp add: plan_pair_count_of_def Let_def unat_div unat_saturating_mul unat_saturating_sub unat_usize)
qed

lemma later_pairs: "(\<Sum>i<n. n - 1 - i) = n * (n - 1) div 2" for n :: nat
proof -
  have "(\<Sum>i<n. n - 1 - i) = (\<Sum>i<n. i)"
    by (rule sum.reindex_bij_witness [of _ "\<lambda>i. n - 1 - i" "\<lambda>i. n - 1 - i"]) auto
  also have "\<dots> = n * (n - 1) div 2" by (simp add: lessThan_atLeast0 gauss_sum_nat Sum_Ico_nat)
  finally show ?thesis .
qed

lemma edge_count:
  assumes v: "\<And>t. t \<in> set (txs b) \<Longrightarrow> valid_op (op t)" and p: "build_scc_batch_plan b = Ok p"
    and n: "length (txs b) \<le> 2 ^ 32"
  shows "unat (dag_edge_count (effect_dag p)) = card {(i, j). i < j \<and> j < length (txs b) \<and> conflicts b i j}"
    and "unat (dag_edge_count (effect_dag p)) \<le> length (txs b) * (length (txs b) - 1) div 2"
proof -
  let ?n = "length (txs b)" and ?g = "effect_dag p"
  let ?N = "\<lambda>i. {j. i < j \<and> j < ?n \<and> conflicts b i j}"
  have f: "length (nodes ?g) = ?n" "\<And>i. i < ?n \<Longrightarrow> nodes ?g ! i = ?N i"
    using plan_facts(2,4) [where b = b, OF v p] by auto
  have s: "sum_list (map card (nodes ?g)) = (\<Sum>i<?n. card (?N i))"
    using f by (simp add: sum_list_sum_nth atLeast0LessThan)
  have "(\<Sum>i<?n. card (?N i)) \<le> (\<Sum>i<?n. ?n - 1 - i)"
  proof (rule sum_mono)
    fix i
    have "card (?N i) \<le> card {Suc i..<?n}" by (rule card_mono) auto
    then show "card (?N i) \<le> ?n - 1 - i" by simp
  qed
  then have le: "(\<Sum>i<?n. card (?N i)) \<le> ?n * (?n - 1) div 2" by (simp only: later_pairs)
  have "?n * (?n - 1) \<le> 2 ^ 32 * (2 ^ 32 - 1)" using n by (intro mult_mono) auto
  then have "?n * (?n - 1) div 2 \<le> 2 ^ 64 - 1" by (simp add: div_le_mono [THEN order_trans])
  then have c: "unat (dag_edge_count ?g) = (\<Sum>i<?n. card (?N i))"
    using le s fold_count [of card "nodes ?g" 0] by (simp add: dag_edge_count_def)
  then show "unat (dag_edge_count ?g) \<le> ?n * (?n - 1) div 2" using le by simp
  have "{(i, j). i < j \<and> j < ?n \<and> conflicts b i j} = (SIGMA i:{..<?n}. ?N i)" by auto
  then show "unat (dag_edge_count ?g) = card {(i, j). i < j \<and> j < ?n \<and> conflicts b i j}"
    using c by (simp add: card_SigmaI)
qed

section \<open>Properties\<close>

text \<open>A profile message is accepted iff its scheduler number is known, and then as the record whose
  encoding it is once the sub-messages it lacks are read as zeros. So a profile survives the wire unchanged.\<close>

theorem profile_messages_decode_exactly:
  "(profile_record_from_proto v = Ok r \<longleftrightarrow> fill_profile v = profile_record_to_proto r) \<and>
   profile_record_from_proto (profile_record_to_proto r) = Ok r \<and>
   ((\<exists>e. profile_record_from_proto v = Err e) \<longleftrightarrow> pb_prof_scheduler v \<notin> {1, 2, 3})"
proof -
  have r: "profile_record_from_proto (profile_record_to_proto r) = Ok r"
    by (simp add: profile_record_from_proto_def profile_record_to_proto_def scheduler_code [THEN iffD2] timings_decode_encode)
  have "(\<exists>e. profile_record_from_proto v = Err e) \<longleftrightarrow> pb_prof_scheduler v \<notin> {1, 2, 3}"
    by (auto simp: profile_record_from_proto_def scheduler_from_i32_def)
  with r show ?thesis using profile_record_exact by blast
qed

text \<open>C30: The workers of a batch report in whatever order they finish. The profile of the batch is the same
  in every order, for the locking and for the speculative workers; a stage's sum is the sum of the
  samples, or the largest number if that is smaller, and its maximum the largest sample.\<close>

theorem worker_profiles_merge_in_any_order:
  assumes "mset cws = mset cws'" "mset sws = mset sws'"
  shows "fold merge_calvin_worker_profile cws p = fold merge_calvin_worker_profile cws' p \<and>
    fold merge_scc_worker_profile sws p = fold merge_scc_worker_profile sws' p \<and>
    unat (sum_ns (fold add_stage_sample xs s)) = min (unat (sum_ns s) + sum_list (map unat xs)) (2 ^ 64 - 1) \<and>
    max_ns (fold add_stage_sample xs s) = fold max xs (max_ns s)"
  using merge_calvin_order [OF assms(1)] merge_scc_order [OF assms(2)] stage_samples_total by blast

definition a_sample :: "u64 \<Rightarrow> calvin_worker_profile option" where
  "a_sample n = Some \<lparr>cw_lock_wait_ns = n, cw_local_read_ns = n, cw_remote_read_send_ns = n, cw_remote_read_collect_ns = n,
     cw_execute_apply_ns = n, cw_result_mark_ns = n, cw_remote_sent = 1, cw_remote_received = 0\<rparr>"

definition a_profile :: "scheduler_profile_record option" where
  "a_profile = Some (new_scheduler_profile ProfCalvinLocking \<lparr>batch_id = 1, txs = []\<rparr> 0)"

theorem worker_profiles_merge_in_any_order_witness:
  "fold merge_calvin_worker_profile [a_sample 1, None, a_sample 2] a_profile =
     fold merge_calvin_worker_profile [a_sample 2, a_sample 1, None] a_profile \<and>
   unat (sum_ns (fold add_stage_sample [- 1, 2] stage_stats_default)) = 2 ^ 64 - 1"
proof -
  have m: "mset [a_sample 1, None, a_sample 2] = mset [a_sample 2, a_sample 1, None]" by simp
  from worker_profiles_merge_in_any_order [OF m refl, of a_profile "[]" "[- 1, 2]" stage_stats_default]
  show ?thesis by (simp add: stage_stats_default_def unsigned_minus_1_eq_mask mask_eq_exp_minus_1)
qed

text \<open>The counters a speculative batch reports of its plan are exact: the edges of the graph are the
  conflicting pairs, at most all pairs, and neither number is cut off for any batch an index of 32 bits can order.\<close>

theorem plan_counters_are_exact:
  assumes "\<And>t. t \<in> set (txs b) \<Longrightarrow> valid_op (op t)" "length (txs b) \<le> 2 ^ 32" "build_scc_batch_plan b = Ok p"
  shows "unat (dag_edge_count (effect_dag p)) = card {(i, j). i < j \<and> j < length (txs b) \<and> conflicts b i j} \<and>
    unat (plan_pair_count_of (length (txs b))) = length (txs b) * (length (txs b) - 1) div 2 \<and>
    dag_edge_count (effect_dag p) \<le> plan_pair_count_of (length (txs b)) \<and> condition_dag p = effect_dag p"
  using edge_count [OF assms(1,3,2)] unat_pair_count [OF assms(2)] plan_facts(1) [where b = b, OF assms(1,3)]
  by (simp add: word_le_nat_alt)

definition two_mkdirs :: batch where
  "two_mkdirs = \<lparr>batch_id = 1, txs = [\<lparr>tx_id = 1, batch_index = 0, op = Mkdir root, read_set = {root}, write_set = {root}\<rparr>,
     \<lparr>tx_id = 2, batch_index = 1, op = Mkdir root, read_set = {root}, write_set = {root}\<rparr>]\<rparr>"

theorem plan_counters_are_exact_witness:
  "\<exists>p. build_scc_batch_plan two_mkdirs = Ok p \<and> dag_edge_count (effect_dag p) \<le> plan_pair_count_of 2 \<and>
     unat (plan_pair_count_of 2) = 1"
proof -
  have v: "valid_op (op t)" if "t \<in> set (txs two_mkdirs)" for t using that by (auto simp: two_mkdirs_def valid_op_def)
  obtain p where p: "build_scc_batch_plan two_mkdirs = Ok p" using build_plan_eq [where b = two_mkdirs] v by blast
  have n: "length (txs two_mkdirs) = 2" by (simp add: two_mkdirs_def)
  from plan_counters_are_exact [where b = two_mkdirs, OF v _ p] show ?thesis using p by (auto simp: n)
qed

end
