(* ===== verification/AriaLocking.thy ===== *)
theory AriaLocking
  imports CalvinTheorems
begin

text \<open>
  The fallback of the optimistic scheduler, \<open>execute_aria_fallback_batch\<close> and \<open>AriaFallbackWorker\<close> of
  \<open>src/engine.rs\<close>: the transactions that lost a conflict run again under locks. It differs from the
  locking scheduler in who executes a transaction (the owners of written keys and the shard chosen
  by the transaction id), in who answers the client, and in that only this shard keeps a record. Its
  functions satisfy the same contract \<open>lock_executor\<close>, so it has the serial effect as well.
\<close>

section \<open>Operations\<close>

definition aria_result_shard :: "tx_id \<Rightarrow> u64 \<Rightarrow> shard_id" where
  "aria_result_shard tx n = tx mod n"

definition owner_shards_for_keys :: "shard_layout \<Rightarrow> key set \<Rightarrow> shard_id set" where
  "owner_shards_for_keys L ks = shard_for_key L ` ks"

definition aria_fallback_active_shards :: "shard_layout \<Rightarrow> ordered_tx \<Rightarrow> shard_id set" where
  "aria_fallback_active_shards L tx =
     insert (aria_result_shard (tx_id tx) (shard_count L)) (owner_shards_for_keys L (write_set tx))"

definition tx_with_derived_sets :: "ordered_tx \<Rightarrow> ordered_tx result" where
  "tx_with_derived_sets tx =
     rbind (derive_read_write_set (op tx)) (\<lambda>(rs, ws). Ok (tx\<lparr>read_set := rs, write_set := ws\<rparr>))"

definition fallback_batch_with_derived_sets :: "batch \<Rightarrow> nat set \<Rightarrow> batch result" where
  "fallback_batch_with_derived_sets b failed =
     rbind (traverse (\<lambda>(fallback_index, original_index).
         rbind (tx_with_derived_sets (txs b ! original_index)) (\<lambda>tx.
         Ok (tx\<lparr>batch_index := word_of_nat fallback_index\<rparr>)))
       (enumerate 0 (sorted_list_of_set failed))) (\<lambda>ts.
     Ok \<lparr>batch_id = batch_id b, txs = ts\<rparr>)"

definition aria_spawn :: "shard_layout \<Rightarrow> shard_id \<Rightarrow> batch_id \<Rightarrow> ordered_tx \<Rightarrow> spawned \<Rightarrow> spawned result" where
  "aria_spawn L sh bid tx0 sp =
     rbind (tx_with_derived_sets tx0) (\<lambda>tx.
     let lock_keys = local_lock_keys L tx sh;
         active = aria_fallback_active_shards L tx;
         sources = owner_shards_for_keys L (read_set tx)
     in if lock_keys = {} \<and> sh \<notin> active \<and> sh \<notin> sources then Ok sp
        else
          (let table = (if lock_keys \<noteq> {} then enqueue (tx_id tx) lock_keys (sp_table sp) else sp_table sp);
               (taken, mail) =
                 (if sh \<in> active
                  then receiver bid (tx_id tx) AriaFallback (max (card sources) 1) (sp_mail sp)
                  else (Ok (), sp_mail sp))
           in rbind taken (\<lambda>_. Ok (sp\<lparr>sp_table := table, sp_mail := mail,
                sp_jobs := sp_jobs sp @ [\<lparr>lw_tx = tx, lw_active = active, lw_sources = sources,
                  lw_result_shard = aria_result_shard (tx_id tx) (shard_count L), lw_lock_keys = lock_keys,
                  lw_read_keys = local_read_keys L tx sh, lw_write_keys = local_write_keys L tx sh\<rparr>]\<rparr>))))"

definition aria_fallback_prologue ::
    "shard_layout \<Rightarrow> shard_id \<Rightarrow> batch \<Rightarrow> mailbox_registry \<Rightarrow> tx_result_registry \<Rightarrow> spawned result" where
  "aria_fallback_prologue L sh b mail results =
     rbind (validate_batch_order b) (\<lambda>_.
     fold_res (aria_spawn L sh (batch_id b)) (txs b)
       \<lparr>sp_jobs = [], sp_table = lock_table_new, sp_mail = mail, sp_results = results\<rparr>)"

fun aria_wait_grants_loop :: "key set \<Rightarrow> key set \<Rightarrow> key list \<Rightarrow> unit option result" where
  "aria_wait_grants_loop lock_keys granted [] =
     (if card granted < card lock_keys then Ok None else Ok (Some ()))"
| "aria_wait_grants_loop lock_keys granted (k # ks) =
     (if card granted < card lock_keys then
        if k \<notin> lock_keys then Err (LockInvariant ''Aria fallback tx got unexpected lock grant'')
        else if k \<in> granted then Err (LockInvariant ''Aria fallback tx got duplicate lock grant'')
        else aria_wait_grants_loop lock_keys (insert k granted) ks
      else Ok (Some ()))"

definition aria_wait_for_lock_grants :: "key set \<Rightarrow> key list \<Rightarrow> unit option result" where
  "aria_wait_for_lock_grants lock_keys grants = aria_wait_grants_loop lock_keys {} grants"

definition aria_fallback_send_local_reads :: "shard_ctx \<Rightarrow> lock_worker \<Rightarrow> reads \<Rightarrow> outbox result" where
  "aria_fallback_send_local_reads cx w local_reads =
     send_reads_to (lw_active w) cx AriaFallback (lw_id w) local_reads"

definition aria_fallback_start :: "shard_ctx \<Rightarrow> lock_worker \<Rightarrow> fs_state \<Rightarrow> (outbox \<times> reads option) result" where
  "aria_fallback_start cx w store =
     (let local_reads = reads_of store (lw_read_keys w)
      in rbind (if cx_shard cx \<in> lw_sources w then aria_fallback_send_local_reads cx w local_reads else Ok []) (\<lambda>sent.
         Ok (sent, if cx_shard cx \<in> lw_active w then Some local_reads else None)))"

fun aria_collect_loop ::
    "shard_ctx \<Rightarrow> ordered_tx \<Rightarrow> shard_id set \<Rightarrow> reads \<Rightarrow> shard_id set \<Rightarrow> local_read_result list
      \<Rightarrow> reads option result" where
  "aria_collect_loop cx tx expected full_reads received [] =
     (if card received < card expected then Ok None
      else if dom full_reads \<noteq> read_set tx then Err (InvalidBatch ''full read set mismatch'')
      else Ok (Some full_reads))"
| "aria_collect_loop cx tx expected full_reads received (msg # msgs) =
     (if card received < card expected then
        if lrr_batch_id msg \<noteq> cx_batch_id cx \<or> lrr_tx_id msg \<noteq> tx_id tx \<or> lrr_phase msg \<noteq> AriaFallback
        then Err (InvalidBatch ''Aria fallback read result routed to wrong target'')
        else if lrr_from_shard msg \<notin> expected
        then Err (InvalidBatch ''unexpected Aria fallback read result'')
        else if lrr_from_shard msg \<in> received
        then Err (InvalidBatch ''duplicate Aria fallback read result'')
        else if lrr_status msg \<noteq> StatusOk
        then Err (InvalidBatch ''Aria fallback read result has bad status'')
        else if dom (lrr_reads msg) \<noteq> local_read_keys (cx_layout cx) tx (lrr_from_shard msg)
        then Err (InvalidBatch ''Aria fallback read keys mismatch'')
        else if dom full_reads \<inter> dom (lrr_reads msg) \<noteq> {}
        then Err (InvalidBatch ''duplicate Aria fallback full read key'')
        else aria_collect_loop cx tx expected (full_reads ++ lrr_reads msg)
               (insert (lrr_from_shard msg) received) msgs
      else if dom full_reads \<noteq> read_set tx then Err (InvalidBatch ''full read set mismatch'')
      else Ok (Some full_reads))"

definition aria_collect_full_reads ::
    "shard_ctx \<Rightarrow> lock_worker \<Rightarrow> reads \<Rightarrow> local_read_result list \<Rightarrow> reads option result" where
  "aria_collect_full_reads cx w local_reads msgs =
     aria_collect_loop cx (lw_tx w) (lw_sources w - {cx_shard cx}) local_reads {} msgs"

definition aria_validate_local_writes :: "lock_worker \<Rightarrow> write_op list \<Rightarrow> unit result" where
  "aria_validate_local_writes w ws =
     rbind (traverse (\<lambda>write.
         if write_key write \<notin> lw_write_keys w
         then Err (InvalidBatch ''Aria fallback tx tried to write unexpected key'') else Ok ()) ws) (\<lambda>_. Ok ())"

definition aria_fallback_finish ::
    "shard_ctx \<Rightarrow> lock_worker \<Rightarrow> reads \<Rightarrow> fs_state \<Rightarrow> tx_result_registry
      \<Rightarrow> (fs_state \<times> tx_result_registry \<times> worker_completion) result" where
  "aria_fallback_finish cx w full_reads store results =
     (let output = execute_deterministic (lw_tx w) full_reads;
          res = result output;
          local_writes = filter_local_writes (writes output) (cx_shard cx) (cx_layout cx)
      in rbind (aria_validate_local_writes w local_writes) (\<lambda>_.
         let store' = apply_writes store local_writes
         in if lw_result_shard w = cx_shard cx
            then Ok (store', mark_ready (lw_id w) res results,
              Active res (Some \<lparr>rec_tx_id = lw_id w, rec_shard_id = cx_shard cx, rec_result = res\<rparr>))
            else Ok (store', results, Active res None)))"

definition aria_fallback_handle :: "tx_id \<Rightarrow> worker_completion \<Rightarrow> accounts \<Rightarrow> accounts result" where
  "aria_fallback_handle tx completion acc =
     (case completion of
        Passive \<Rightarrow> Ok acc
      | Active res record \<Rightarrow>
          (let active_results = (snd acc)(tx \<mapsto> res)
           in if (\<exists>previous. snd acc tx = Some previous \<and> previous \<noteq> res)
              then Err (InvalidBatch ''Aria fallback active executors disagree'')
              else Ok (fst acc @ (case record of Some r \<Rightarrow> [r] | None \<Rightarrow> []), active_results)))"

definition aria_fallback_ops :: lock_ops where
  "aria_fallback_ops = \<lparr>x_phase = AriaFallback, x_wait = aria_wait_for_lock_grants, x_start = aria_fallback_start,
     x_collect = aria_collect_full_reads, x_finish = aria_fallback_finish, x_handle = aria_fallback_handle\<rparr>"

definition aria_fallback_kind :: lock_kind where
  "aria_fallback_kind =
     \<lparr>lk_active = aria_fallback_active_shards,
      lk_result = (\<lambda>L t. aria_result_shard (tx_id t) (shard_count L)),
      lk_record = (\<lambda>L sh t r. if aria_result_shard (tx_id t) (shard_count L) = sh
        then Some \<lparr>rec_tx_id = tx_id t, rec_shard_id = sh, rec_result = r\<rparr> else None)\<rparr>"

section \<open>The contract\<close>

lemma aria_wait_grants_loop:
  assumes "finite A" "distinct ks" "set ks \<subseteq> A" "granted \<subseteq> A" "granted \<inter> set ks = {}"
  shows "aria_wait_grants_loop A granted ks = Ok (if granted \<union> set ks = A then Some () else None)"
  using assms(2-)
proof (induction ks arbitrary: granted)
  case Nil
  then show ?case using card_less_subset [OF assms(1), of granted] by auto
next
  case (Cons k ks)
  then have "card granted < card A" using psubset_card_mono [OF assms(1), of granted] by auto
  then show ?case using Cons by auto
qed

lemma aria_collect_loop:
  fixes L t sh s bid
  defines "E \<equiv> p_all (participants_of L t) - {sh}"
    and "rd \<equiv> \<lambda>A. reads_of s (\<Union>f \<in> A. local_read_keys L t f)"
  assumes "cx_layout cx = L" "cx_batch_id cx = bid" "tx_id tx = tx_id t" "read_set tx = read_set t"
    and "distinct fs" "set fs \<subseteq> E" "R \<subseteq> E" "R \<inter> set fs = {}"
  shows "aria_collect_loop cx tx E (rd (insert sh R)) R (map (\<lambda>f. read_message L bid AriaFallback t f s) fs) =
    Ok (if R \<union> set fs = E then Some (reads_of s (read_set t)) else None)"
  using assms(7-)
proof (induction fs arbitrary: R)
  case Nil
  have fin: "finite E" by (simp add: E_def)
  have "rd (insert sh E) = reads_of s (read_set t)"
    unfolding rd_def local_read_keys_union [of L t, symmetric] E_def
    by (rule arg_cong [where f = "reads_of s"]) (auto simp: participants_of_def participants_all local_read_keys_def)
  then show ?case using Nil card_less_subset [OF fin, of R] assms(6) by auto
next
  case (Cons f fs)
  have fin: "finite E" by (simp add: E_def)
  have f: "f \<in> E" "f \<notin> R" using Cons.prems by auto
  then have less: "card R < card E" using card_less_subset [OF fin Cons.prems(3)] by auto
  have disj: "dom (rd (insert sh R)) \<inter> local_read_keys L t f = {}"
    using f by (auto simp: rd_def E_def local_read_keys_def)
  have add: "rd (insert sh R) ++ reads_of s (local_read_keys L t f) = rd (insert sh (insert f R))"
    unfolding rd_def reads_of_union by (rule arg_cong [where f = "reads_of _"]) auto
  have keys: "local_read_keys L tx f = local_read_keys L t f" using assms(6) by (simp add: local_read_keys_def)
  have "aria_collect_loop cx tx E (rd (insert sh R)) R (map (\<lambda>f. read_message L bid AriaFallback t f s) (f # fs)) =
      aria_collect_loop cx tx E (rd (insert sh (insert f R))) (insert f R)
        (map (\<lambda>f. read_message L bid AriaFallback t f s) fs)"
    using less f disj add assms(3-5) keys by simp
  also have "\<dots> = Ok (if insert f R \<union> set fs = E then Some (reads_of s (read_set t)) else None)"
    using Cons.prems by (intro Cons.IH) auto
  finally show ?case by simp
qed

lemma aria_sources: "valid_tx t \<Longrightarrow> p_all (participants_of L t) = owner_shards_for_keys L (read_set t)"
  using valid_tx_sets(4) [of t] by (auto simp: participants_of_def participants_all owner_shards_for_keys_def)

lemma aria_validate_local_Ok:
  "write_key ` set ws \<subseteq> lw_write_keys w \<Longrightarrow> aria_validate_local_writes w ws = Ok ()"
  unfolding aria_validate_local_writes_def by (subst traverse_all_ok [where g = "\<lambda>_. ()"]) auto

interpretation aria: lock_executor aria_fallback_ops aria_fallback_kind
proof unfold_locales
  fix t :: ordered_tx and L :: shard_layout and k
  show "shard_for_key L k \<in> lk_active aria_fallback_kind L t" if "k \<in> write_set t"
    using that by (simp add: aria_fallback_kind_def aria_fallback_active_shards_def owner_shards_for_keys_def)
  show "lk_result aria_fallback_kind L t \<in> lk_active aria_fallback_kind L t"
    by (simp add: aria_fallback_kind_def aria_fallback_active_shards_def)
next
  fix A :: "key set" and ks
  assume "finite A" "distinct ks" "set ks \<subseteq> A"
  then show "x_wait aria_fallback_ops A ks = Ok (if set ks = A then Some () else None)"
    using aria_wait_grants_loop [of A ks "{}"] by (simp add: aria_fallback_ops_def aria_wait_for_lock_grants_def)
next
  fix t :: ordered_tx and L sh w ps bid s
  assume job: "is_job aria_fallback_kind L sh t w" and ps: "lk_active aria_fallback_kind L t \<subseteq> ps"
  note j = is_jobD [OF job]
  let ?cx = "\<lparr>cx_layout = L, cx_peers = ps, cx_batch_id = bid, cx_shard = sh\<rparr>"
  obtain ms where "send_reads_to (lw_active w) ?cx AriaFallback (tx_id t) (reads_of s (local_read_keys L t sh)) = Ok ms"
    "mset ms = mset_set ((\<lambda>target. (target, read_message L bid AriaFallback t sh s)) ` (lk_active aria_fallback_kind L t - {sh}))"
    using send_reads_to_Ok [of "lw_active w" ?cx AriaFallback "tx_id t" "reads_of s (local_read_keys L t sh)"] ps j(3)
    by (auto simp: read_message_def)
  then show "\<exists>ms. x_start aria_fallback_ops ?cx w s =
          Ok (ms, if sh \<in> lk_active aria_fallback_kind L t then Some (reads_of s (local_read_keys L t sh)) else None) \<and>
        mset ms = mset_set (if sh \<in> p_all (participants_of L t)
          then (\<lambda>target. (target, read_message L bid (x_phase aria_fallback_ops) t sh s)) `
            (lk_active aria_fallback_kind L t - {sh}) else {})"
    using j by (simp add: aria_fallback_ops_def aria_fallback_start_def aria_fallback_send_local_reads_def)
next
  fix t :: ordered_tx and L sh w ps bid s and fs :: "shard_id list"
  assume job: "is_job aria_fallback_kind L sh t w" and act: "sh \<in> lk_active aria_fallback_kind L t"
    and fs: "distinct fs" "set fs \<subseteq> p_all (participants_of L t) - {sh}"
  note j = is_jobD [OF job]
  show "x_collect aria_fallback_ops \<lparr>cx_layout = L, cx_peers = ps, cx_batch_id = bid, cx_shard = sh\<rparr> w
        (reads_of s (local_read_keys L t sh)) (map (\<lambda>f. read_message L bid (x_phase aria_fallback_ops) t f s) fs) =
      Ok (if set fs = p_all (participants_of L t) - {sh} then Some (reads_of s (read_set t)) else None)"
    using aria_collect_loop [where cx = "\<lparr>cx_layout = L, cx_peers = ps, cx_batch_id = bid, cx_shard = sh\<rparr>"
        and L = L and t = t and sh = sh and s = s and bid = bid and tx = "lw_tx w" and fs = fs and R = "{}"] fs j
    by (simp add: aria_fallback_ops_def aria_collect_full_reads_def)
next
  fix t :: ordered_tx and L sh w ps bid s store reg
  assume v: "valid_tx t" and job: "is_job aria_fallback_kind L sh t w"
  note j = is_jobD [OF job]
  have ex: "execute_deterministic (lw_tx w) (reads_of s (read_set t)) = op_output (op t) s"
    using execute_deterministic_reads_of [OF v, of s] execute_other_index [OF j(4)] by simp
  have "aria_validate_local_writes w (filter_local_writes (writes (op_output (op t) s)) sh L) = Ok ()"
    by (rule aria_validate_local_Ok) (use local_writes_owned [OF v] j(10) in blast)
  then show "x_finish aria_fallback_ops \<lparr>cx_layout = L, cx_peers = ps, cx_batch_id = bid, cx_shard = sh\<rparr> w
        (reads_of s (read_set t)) store reg =
      Ok (apply_writes store (filter_local_writes (writes (op_output (op t) s)) sh L),
          if lk_result aria_fallback_kind L t = sh then mark_ready (tx_id t) (op_result (op t) s) reg else reg,
          Active (op_result (op t) s) (lk_record aria_fallback_kind L sh t (op_result (op t) s)))"
    using j ex by (simp add: aria_fallback_ops_def aria_fallback_finish_def op_result_def aria_fallback_kind_def Let_def)
next
  fix i x and acc :: accounts
  assume "i \<notin> dom (snd acc)"
  then show "\<exists>results. x_handle aria_fallback_ops i x acc = Ok (fst acc @ completion_records x, results) \<and>
        dom results \<subseteq> insert i (dom (snd acc))"
    by (cases acc; cases x) (auto simp: aria_fallback_ops_def aria_fallback_handle_def completion_records_def Let_def
        split: option.splits)
next
  show "length ms \<le> card (UNIV :: shard_id set)" if "x_start aria_fallback_ops cx w s = Ok (ms, r)" for cx w s ms r
    using that send_reads_to_length
    by (auto simp: aria_fallback_ops_def aria_fallback_start_def aria_fallback_send_local_reads_def Let_def res_simps
        split: if_splits)
qed

section \<open>The prologue\<close>

definition aria_job :: "shard_layout \<Rightarrow> shard_id \<Rightarrow> ordered_tx \<Rightarrow> lock_worker" where
  "aria_job L sh tx = \<lparr>lw_tx = tx, lw_active = aria_fallback_active_shards L tx,
     lw_sources = owner_shards_for_keys L (read_set tx),
     lw_result_shard = aria_result_shard (tx_id tx) (shard_count L), lw_lock_keys = local_lock_keys L tx sh,
     lw_read_keys = local_read_keys L tx sh, lw_write_keys = local_write_keys L tx sh\<rparr>"

lemma tx_with_derived_sets_same: "validate_sets tx = Ok () \<Longrightarrow> tx_with_derived_sets tx = Ok tx"
  by (cases tx) (simp add: tx_with_derived_sets_def validate_sets_Ok_iff)

lemma aria_takes_part:
  assumes "validate_sets t = Ok ()"
  shows "takes_part aria_fallback_kind L sh t \<longleftrightarrow> local_lock_keys L t sh \<noteq> {} \<or>
    sh \<in> aria_fallback_active_shards L t \<or> sh \<in> owner_shards_for_keys L (read_set t)"
  using local_lock_keys_participant [of L t sh]
  by (auto simp: takes_part_def aria_fallback_kind_def owner_shards_for_keys_def participants_of_def participants_all)

interpretation aria_loop: lock_spawner aria_spawn aria_fallback_kind AriaFallback aria_job
proof unfold_locales
  fix t u :: ordered_tx and L sh
  show "is_job aria_fallback_kind L sh t (aria_job L sh u)" if v: "valid_tx t" and u: "unindexed t = unindexed u"
  proof -
    obtain j where "u = t\<lparr>batch_index := j\<rparr>" using unindexed_eq(5) [OF u [symmetric]] by blast
    then show ?thesis
      using aria_sources [OF v, of L]
      by (auto simp: is_job_def aria_job_def aria_fallback_kind_def local_keys_defs aria_fallback_active_shards_def)
  qed
  show "lk_active aria_fallback_kind L (unindexed t) = lk_active aria_fallback_kind L t"
    by (simp add: aria_fallback_kind_def aria_fallback_active_shards_def)
next
  fix t :: ordered_tx and sh L bid and sp :: spawned
  assume v: "validate_sets t = Ok ()"
    and m: "sh \<in> lk_active aria_fallback_kind L t \<Longrightarrow> \<not> taken_mailbox (sp_mail sp) (bid, tx_id t, AriaFallback)"
  have a: "lk_active aria_fallback_kind L t = aria_fallback_active_shards L t" by (simp add: aria_fallback_kind_def)
  have fin: "finite (local_lock_keys L t sh)" using validate_sets_finite [OF v] by (simp add: local_lock_keys_def)
  let ?r = "receiver bid (tx_id t) AriaFallback (max (card (owner_shards_for_keys L (read_set t))) 1) (sp_mail sp)"
  let ?act = "sh \<in> aria_fallback_active_shards L t"
  let ?sp = "sp\<lparr>sp_table := (if local_lock_keys L t sh \<noteq> {} then enqueue (tx_id t) (local_lock_keys L t sh) (sp_table sp) else sp_table sp),
    sp_mail := (if ?act then snd ?r else sp_mail sp), sp_jobs := sp_jobs sp @ [aria_job L sh t]\<rparr>"
  have ok: "fst ?r = Ok ()" if ?act using m that by (simp add: receiver_result a)
  have "aria_spawn L sh bid t sp = Ok (if takes_part aria_fallback_kind L sh t then ?sp else sp)"
    using ok unfolding aria_takes_part [OF v]
    by (auto simp: aria_spawn_def tx_with_derived_sets_same [OF v] aria_job_def Let_def case_prod_beta)
  moreover have "local_lock_keys L t sh = {}" "\<not> ?act" if "\<not> takes_part aria_fallback_kind L sh t"
    using that by (auto simp: aria_takes_part [OF v])
  ultimately show "\<exists>sp'. aria_spawn L sh bid t sp = Ok sp' \<and>
      sp_jobs sp' = sp_jobs sp @ (if takes_part aria_fallback_kind L sh t then [aria_job L sh t] else []) \<and>
      (\<forall>k. queue_of (sp_table sp') k = queue_of (sp_table sp) k @ (if k \<in> local_lock_keys L t sh then [tx_id t] else [])) \<and>
      (finite (dom (sp_table sp)) \<longrightarrow> finite (dom (sp_table sp'))) \<and>
      inbox (sp_mail sp') = inbox (sp_mail sp) \<and> open_mailbox (sp_mail sp') = open_mailbox (sp_mail sp) \<and>
      (\<forall>q. taken_mailbox (sp_mail sp') q \<longleftrightarrow>
        taken_mailbox (sp_mail sp) q \<or> sh \<in> lk_active aria_fallback_kind L t \<and> q = (bid, tx_id t, AriaFallback))"
    using queue_of_enqueue [OF fin] enqueue_dom [OF fin] fin
    by (cases "takes_part aria_fallback_kind L sh t") (auto simp: receiver_registry fun_eq_iff a)
qed

lemma aria_prologue_lock: "aria_fallback_prologue = lock_prologue aria_spawn"
  by (intro ext) (simp add: aria_fallback_prologue_def lock_prologue_def)

end
