(* ===== verification/Sequencer.thy ===== *)
theory Sequencer
  imports AriaLocking
begin

text \<open>
  The sequencer of \<open>src/engine.rs\<close>: one actor that takes commands from a channel, gives transactions
  their numbers, collects them into batches and hands the batches to the dispatcher, which sends them
  to all shards one after the other. The commands of clients and timers arrive in any order; the
  actor handles one at a time, so a run is a fold over the list of commands it receives. A reply
  channel is a number.
\<close>

section \<open>State\<close>

datatype sequencer_result_policy = StaticReadWriteSet | TxIdModulo

record submit_batch_summary =
  sum_batch_id :: batch_id
  sum_tx_ids :: "tx_id list"
  sum_tx_results :: "tx_result_record list"

record submit_tx_ack =
  ack_tx_id :: tx_id
  ack_result_shard :: shard_id

datatype sequencer_command =
    SubmitTx fs_op nat
  | SubmitBatch "fs_op list" nat
  | FlushOpen batch_id

record open_batch =
  ob_batch_id :: batch_id
  ob_txs :: "ordered_tx list"
  ob_tx_ids :: "tx_id list"

record dispatch_batch_job =
  dj_batch :: batch
  dj_tx_ids :: "tx_id list"
  dj_reply :: "nat option"

datatype sequencer_reply =
    TxReply nat "submit_tx_ack result"
  | BatchReply nat "submit_batch_summary result"

text \<open>
  The state of the actor: the timers it has started, the jobs it has sent to the dispatcher, oldest
  first, and whether the dispatcher still receives.
\<close>

record sequencer =
  sq_layout :: shard_layout
  sq_result_policy :: sequencer_result_policy
  sq_max_batch_size :: nat
  sq_next_batch_id :: batch_id
  sq_next_tx_id :: tx_id
  sq_open :: "open_batch option"
  sq_timers :: "batch_id list"
  sq_dispatched :: "dispatch_batch_job list"
  sq_dispatch_closed :: bool

definition sequencer_new :: "shard_layout \<Rightarrow> sequencer_result_policy \<Rightarrow> nat \<Rightarrow> sequencer" where
  "sequencer_new L policy max_batch_size =
     \<lparr>sq_layout = L, sq_result_policy = policy, sq_max_batch_size = max_batch_size, sq_next_batch_id = 1,
      sq_next_tx_id = 1, sq_open = None, sq_timers = [], sq_dispatched = [], sq_dispatch_closed = False\<rparr>"

section \<open>Operations\<close>

text \<open>The counters are unsigned 64 bit numbers; a release build wraps.\<close>

definition take_next_batch_id :: "sequencer \<Rightarrow> batch_id \<times> sequencer" where
  "take_next_batch_id s = (sq_next_batch_id s, s\<lparr>sq_next_batch_id := sq_next_batch_id s + 1\<rparr>)"

definition spawn_flush_timer :: "batch_id \<Rightarrow> sequencer \<Rightarrow> sequencer" where
  "spawn_flush_timer bid s = s\<lparr>sq_timers := sq_timers s @ [bid]\<rparr>"

definition ensure_open_batch :: "sequencer \<Rightarrow> open_batch \<times> sequencer" where
  "ensure_open_batch s =
     (case sq_open s of
        Some ob \<Rightarrow> (ob, s)
      | None \<Rightarrow>
          (let (bid, s1) = take_next_batch_id s;
               ob = \<lparr>ob_batch_id = bid, ob_txs = [], ob_tx_ids = []\<rparr>
           in (ob, (spawn_flush_timer bid s1)\<lparr>sq_open := Some ob\<rparr>)))"

definition dispatch_batch :: "batch \<Rightarrow> tx_id list \<Rightarrow> nat option \<Rightarrow> sequencer \<Rightarrow> unit result \<times> sequencer" where
  "dispatch_batch b ids reply s =
     (if sq_dispatch_closed s then (Err (ChannelClosed ''sequencer dispatch queue is closed''), s)
      else (Ok (), s\<lparr>sq_dispatched := sq_dispatched s @ [\<lparr>dj_batch = b, dj_tx_ids = ids, dj_reply = reply\<rparr>]\<rparr>))"

definition seal_open_batch :: "sequencer \<Rightarrow> unit result \<times> sequencer" where
  "seal_open_batch s =
     (case sq_open s of
        None \<Rightarrow> (Ok (), s)
      | Some ob \<Rightarrow>
          (let s1 = s\<lparr>sq_open := None\<rparr>
           in if ob_txs ob = [] then (Ok (), s1)
              else dispatch_batch \<lparr>batch_id = ob_batch_id ob, txs = ob_txs ob\<rparr> (ob_tx_ids ob) None s1))"

definition result_shard_for_tx :: "sequencer \<Rightarrow> tx_id \<Rightarrow> key set \<Rightarrow> key set \<Rightarrow> shard_id result" where
  "result_shard_for_tx s tx rs ws =
     (case sq_result_policy s of
        StaticReadWriteSet \<Rightarrow>
          (case result_shard_for_sets (sq_layout s) rs ws of
             None \<Rightarrow> Err (InvalidBatch ''tx has no result shard'')
           | Some shard \<Rightarrow> Ok shard)
      | TxIdModulo \<Rightarrow> Ok (aria_result_shard tx (shard_count (sq_layout s))))"

definition handle_submit_tx :: "fs_op \<Rightarrow> sequencer \<Rightarrow> submit_tx_ack result \<times> sequencer" where
  "handle_submit_tx fs s =
     (let tx = sq_next_tx_id s
      in case derive_read_write_set fs of
           Err e \<Rightarrow> (Err e, s)
         | Ok (rs, ws) \<Rightarrow>
             (case result_shard_for_tx s tx rs ws of
                Err e \<Rightarrow> (Err e, s)
              | Ok shard \<Rightarrow>
                  (let (ob, s1) = ensure_open_batch s;
                       ob' = ob\<lparr>ob_tx_ids := ob_tx_ids ob @ [tx],
                         ob_txs := ob_txs ob @ [\<lparr>tx_id = tx, batch_index = word_of_nat (length (ob_txs ob)), op = fs,
                           read_set = rs, write_set = ws\<rparr>]\<rparr>;
                       should_flush = (sq_max_batch_size s \<le> length (ob_txs ob'));
                       s2 = s1\<lparr>sq_open := Some ob', sq_next_tx_id := sq_next_tx_id s1 + 1\<rparr>;
                       (sealed, s3) = (if should_flush then seal_open_batch s2 else (Ok (), s2))
                   in case sealed of
                        Err e \<Rightarrow> (Err e, s3)
                      | Ok _ \<Rightarrow> (Ok \<lparr>ack_tx_id = tx, ack_result_shard = shard\<rparr>, s3))))"

text \<open>The loop over the operations of a batch: the number of an operation that is refused is used up.\<close>

fun order_ops :: "nat \<Rightarrow> fs_op list \<Rightarrow> tx_id \<Rightarrow> ordered_tx list result \<times> tx_id" where
  "order_ops index [] next_id = (Ok [], next_id)"
| "order_ops index (fs # ops) next_id =
     (case derive_read_write_set fs of
        Err e \<Rightarrow> (Err e, next_id + 1)
      | Ok (rs, ws) \<Rightarrow>
          (case order_ops (Suc index) ops (next_id + 1) of
             (Err e, next_id') \<Rightarrow> (Err e, next_id')
           | (Ok ts, next_id') \<Rightarrow>
               (Ok (\<lparr>tx_id = next_id, batch_index = word_of_nat index, op = fs, read_set = rs, write_set = ws\<rparr> # ts),
                next_id')))"

text \<open>The reply goes on with the job; the list has the replies that are sent at once.\<close>

definition handle_submit_batch :: "fs_op list \<Rightarrow> nat \<Rightarrow> sequencer \<Rightarrow> sequencer_reply list \<times> sequencer" where
  "handle_submit_batch ops reply s =
     (if sq_max_batch_size s < length ops
      then ([BatchReply reply (Err (BatchTooLarge (length ops) (sq_max_batch_size s)))], s)
      else
        (case seal_open_batch s of
           (Err e, s1) \<Rightarrow> ([BatchReply reply (Err e)], s1)
         | (Ok _, s1) \<Rightarrow>
             (let (bid, s2) = take_next_batch_id s1;
                  (ordered, next_id) = order_ops 0 ops (sq_next_tx_id s2);
                  s3 = s2\<lparr>sq_next_tx_id := next_id\<rparr>
              in case ordered of
                   Err e \<Rightarrow> ([BatchReply reply (Err e)], s3)
                 | Ok ts \<Rightarrow> ([], snd (dispatch_batch \<lparr>batch_id = bid, txs = ts\<rparr> (map tx_id ts) (Some reply) s3)))))"

text \<open>One turn of \<open>run_sequencer_actor\<close>.\<close>

definition handle_command :: "sequencer_command \<Rightarrow> sequencer \<Rightarrow> sequencer_reply list \<times> sequencer" where
  "handle_command cmd s =
     (case cmd of
        SubmitTx fs reply \<Rightarrow> (let (response, s') = handle_submit_tx fs s in ([TxReply reply response], s'))
      | SubmitBatch ops reply \<Rightarrow> handle_submit_batch ops reply s
      | FlushOpen bid \<Rightarrow>
          (case sq_open s of
             None \<Rightarrow> ([], s)
           | Some ob \<Rightarrow> if ob_batch_id ob = bid then ([], snd (seal_open_batch s)) else ([], s)))"

fun run_sequencer_actor :: "sequencer_command list \<Rightarrow> sequencer \<Rightarrow> sequencer_reply list \<times> sequencer" where
  "run_sequencer_actor [] s = ([], s)"
| "run_sequencer_actor (cmd # cmds) s =
     (let (replies, s1) = handle_command cmd s;
          (others, s2) = run_sequencer_actor cmds s1
      in (replies @ others, s2))"

section \<open>The dispatcher\<close>

text \<open>
  The answers of the shards to one batch, by shard; they are collected in the order of the endpoints
  and the first error ends the collection.
\<close>

definition send_batch_to_all_shards ::
    "shard_id set \<Rightarrow> (shard_id \<Rightarrow> tx_result_record list result) \<Rightarrow> tx_result_record list result" where
  "send_batch_to_all_shards endpoints answer =
     rbind (traverse answer (sorted_list_of_set endpoints)) (\<lambda>records.
     Ok (sort_key (\<lambda>r. (rec_tx_id r, rec_shard_id r)) (concat records)))"

definition dispatch_job ::
    "shard_id set \<Rightarrow> (shard_id \<Rightarrow> tx_result_record list result) \<Rightarrow> dispatch_batch_job \<Rightarrow> batch list
      \<Rightarrow> sequencer_reply list \<times> batch list" where
  "dispatch_job endpoints answer job batch_log =
     (let response = send_batch_to_all_shards endpoints answer;
          batch_log' = (case response of Ok _ \<Rightarrow> batch_log @ [dj_batch job] | Err _ \<Rightarrow> batch_log)
      in (case dj_reply job of
            None \<Rightarrow> []
          | Some reply \<Rightarrow> [BatchReply reply (rbind response (\<lambda>records.
              Ok \<lparr>sum_batch_id = batch_id (dj_batch job), sum_tx_ids = dj_tx_ids job, sum_tx_results = records\<rparr>))],
          batch_log'))"

text \<open>The loop over the jobs, with the answers of the shards to each.\<close>

fun run_batch_dispatcher ::
    "shard_id set \<Rightarrow> (dispatch_batch_job \<times> (shard_id \<Rightarrow> tx_result_record list result)) list \<Rightarrow> batch list
      \<Rightarrow> sequencer_reply list \<times> batch list" where
  "run_batch_dispatcher endpoints [] batch_log = ([], batch_log)"
| "run_batch_dispatcher endpoints ((job, answer) # jobs) batch_log =
     (let (replies, log1) = dispatch_job endpoints answer job batch_log;
          (others, log2) = run_batch_dispatcher endpoints jobs log1
      in (replies @ others, log2))"

section \<open>The invariant\<close>

definition open_txs :: "sequencer \<Rightarrow> ordered_tx list" where
  "open_txs s = (case sq_open s of None \<Rightarrow> [] | Some ob \<Rightarrow> ob_txs ob)"

definition sent_txs :: "sequencer \<Rightarrow> ordered_tx list" where
  "sent_txs s = concat (map (\<lambda>j. txs (dj_batch j)) (sq_dispatched s))"

definition batch_ids :: "sequencer \<Rightarrow> batch_id list" where
  "batch_ids s = map (\<lambda>j. batch_id (dj_batch j)) (sq_dispatched s) @
     (case sq_open s of None \<Rightarrow> [] | Some ob \<Rightarrow> [ob_batch_id ob])"

definition indexed :: "ordered_tx list \<Rightarrow> bool" where
  "indexed ts \<longleftrightarrow> (\<forall>i < length ts. unat (batch_index (ts ! i)) = i)"

definition ascending :: "'a::linorder list \<Rightarrow> 'a \<Rightarrow> bool" where
  "ascending xs b \<longleftrightarrow> sorted_wrt (<) xs \<and> (\<forall>x \<in> set xs. x < b)"

definition sequencer_ok :: "sequencer \<Rightarrow> bool" where
  "sequencer_ok s \<longleftrightarrow>
     ascending (map tx_id (sent_txs s @ open_txs s)) (sq_next_tx_id s) \<and>
     ascending (batch_ids s) (sq_next_batch_id s) \<and>
     (\<forall>t \<in> set (sent_txs s @ open_txs s). validate_sets t = Ok ()) \<and>
     (\<forall>j \<in> set (sq_dispatched s). indexed (txs (dj_batch j)) \<and> dj_tx_ids j = map tx_id (txs (dj_batch j)) \<and>
        length (txs (dj_batch j)) \<le> max 1 (sq_max_batch_size s)) \<and>
     (\<forall>ob. sq_open s = Some ob \<longrightarrow> indexed (ob_txs ob) \<and> ob_tx_ids ob = map tx_id (ob_txs ob) \<and>
        ob_txs ob \<noteq> [] \<and> length (ob_txs ob) \<le> max 1 (sq_max_batch_size s) \<and> ob_batch_id ob \<in> set (sq_timers s))"

text \<open>Between two commands the open batch has room for another transaction.\<close>

definition sequencer_inv :: "sequencer \<Rightarrow> bool" where
  "sequencer_inv s \<longleftrightarrow> sequencer_ok s \<and> length (open_txs s) < max 1 (sq_max_batch_size s)"

lemma ascending_append: "ascending (xs @ ys) b \<Longrightarrow> ascending xs b"
  by (auto simp: ascending_def sorted_wrt_append)

lemma ascending_le: "ascending xs b \<Longrightarrow> b \<le> c \<Longrightarrow> ascending xs c"
  by (auto simp: ascending_def)

lemma unat_add_nat:
  "unat b + k < 2 ^ LENGTH('a) \<Longrightarrow> unat (b + word_of_nat k) = unat b + k" for b :: "'a::len word"
  by (simp add: unat_word_ariths unat_of_nat)

lemma word_le_add_nat:
  "unat b + k < 2 ^ LENGTH('a) \<Longrightarrow> b \<le> b + word_of_nat k" for b :: "'a::len word"
  by (simp add: word_le_nat_alt unat_add_nat)

lemma ascending_numbers:
  fixes b :: "'a::len word"
  assumes "ascending xs b" "unat b + n < 2 ^ LENGTH('a)"
  shows "ascending (xs @ map (\<lambda>j. b + word_of_nat j) [0..<n]) (b + word_of_nat n)"
proof -
  have lt: "b + word_of_nat i < b + word_of_nat j" if "i < j" "j \<le> n" for i j
    using that assms(2) by (simp add: word_less_nat_alt unat_add_nat)
  have below: "x < b + word_of_nat j" if "x \<in> set xs" "j \<le> n" for x j
    using that assms word_le_add_nat [of b j] by (auto simp: ascending_def intro: less_le_trans)
  have "sorted_wrt (<) (map (\<lambda>j. b + word_of_nat j) [0..<n])" by (simp add: sorted_wrt_iff_nth_less lt)
  then show ?thesis using assms(1) lt below by (auto simp: ascending_def sorted_wrt_append)
qed

lemma ascending_snoc:
  "ascending xs b \<Longrightarrow> unat b + 1 < 2 ^ LENGTH('a) \<Longrightarrow> ascending (xs @ [b]) (b + 1)" for b :: "'a::len word"
  using ascending_numbers [of xs b 1] by simp

lemma open_txs_simps [simp]:
  "sq_open s = None \<Longrightarrow> open_txs s = []" "sq_open s = Some ob \<Longrightarrow> open_txs s = ob_txs ob"
  by (simp_all add: open_txs_def)

subsection \<open>Sealing\<close>

lemma seal_open_batch_ok:
  assumes inv: "sequencer_ok s" and seal: "seal_open_batch s = (r, s')"
  shows "sequencer_inv s'" "sq_open s' = None" "sq_next_tx_id s' = sq_next_tx_id s" "sq_next_batch_id s' = sq_next_batch_id s"
    "sq_max_batch_size s' = sq_max_batch_size s" "sq_layout s' = sq_layout s" "sq_dispatch_closed s' = sq_dispatch_closed s"
    "sq_result_policy s' = sq_result_policy s" "sq_timers s' = sq_timers s" "prefix (sq_dispatched s) (sq_dispatched s')"
    "\<not> sq_dispatch_closed s \<Longrightarrow> r = Ok () \<and> sent_txs s' = sent_txs s @ open_txs s"
proof -
  have "s' = (case sq_open s of None \<Rightarrow> s | Some ob \<Rightarrow>
      (if sq_dispatch_closed s then s\<lparr>sq_open := None\<rparr> else s\<lparr>sq_open := None,
        sq_dispatched := sq_dispatched s @ [\<lparr>dj_batch = \<lparr>batch_id = ob_batch_id ob, txs = ob_txs ob\<rparr>,
          dj_tx_ids = ob_tx_ids ob, dj_reply = None\<rparr>]\<rparr>))" and
    r: "\<not> sq_dispatch_closed s \<Longrightarrow> r = Ok ()"
    using seal inv by (auto simp: seal_open_batch_def dispatch_batch_def sequencer_ok_def Let_def split: option.splits if_splits)
  then show "sequencer_inv s'" "sq_open s' = None" "sq_next_tx_id s' = sq_next_tx_id s" "sq_next_batch_id s' = sq_next_batch_id s"
    "sq_max_batch_size s' = sq_max_batch_size s" "sq_layout s' = sq_layout s" "sq_dispatch_closed s' = sq_dispatch_closed s"
    "sq_result_policy s' = sq_result_policy s" "sq_timers s' = sq_timers s" "prefix (sq_dispatched s) (sq_dispatched s')"
    "\<not> sq_dispatch_closed s \<Longrightarrow> r = Ok () \<and> sent_txs s' = sent_txs s @ open_txs s"
    using inv ascending_append
    by (auto simp: sequencer_inv_def sequencer_ok_def sent_txs_def batch_ids_def split: option.splits)
qed

subsection \<open>Submitting\<close>

lemma order_ops_Ok:
  "order_ops i ops n = (Ok ts, n') \<Longrightarrow> n' = n + word_of_nat (length ops) \<and>
     map tx_id ts = map (\<lambda>j. n + word_of_nat j) [0..<length ops] \<and>
     map batch_index ts = map word_of_nat [i..<i + length ops] \<and> map op ts = ops \<and>
     (\<forall>t \<in> set ts. validate_sets t = Ok ())"
proof (induction ops arbitrary: i n ts n')
  case (Cons fs ops)
  obtain rs ws us m where d: "derive_read_write_set fs = Ok (rs, ws)" "order_ops (Suc i) ops (n + 1) = (Ok us, m)"
    "ts = \<lparr>tx_id = n, batch_index = word_of_nat i, op = fs, read_set = rs, write_set = ws\<rparr> # us" "n' = m"
    using Cons.prems by (auto split: sum.splits prod.splits)
  show ?case
    using Cons.IH [OF d(2)] d
    by (simp add: validate_sets_Ok_iff map_upt_Suc upt_conv_Cons [of i] algebra_simps del: upt_Suc)
qed simp

lemma order_ops_next: "\<exists>k \<le> length ops. snd (order_ops i ops n) = n + word_of_nat k"
proof (induction ops arbitrary: i n)
  case (Cons fs ops)
  obtain k where "k \<le> length ops" "snd (order_ops (Suc i) ops (n + 1)) = n + 1 + word_of_nat k"
    using Cons.IH by blast
  then show ?case
    by (cases "derive_read_write_set fs")
      (auto simp: split_beta algebra_simps split: sum.splits intro: exI [of _ 1] exI [of _ "Suc k"])
qed simp

text \<open>Putting a transaction into the open batch, before a full batch is sealed.\<close>

definition put_tx :: "fs_op \<Rightarrow> key set \<Rightarrow> key set \<Rightarrow> sequencer \<Rightarrow> sequencer" where
  "put_tx fs rs ws s =
     (let (ob, s1) = ensure_open_batch s; tx = sq_next_tx_id s
      in s1\<lparr>sq_open := Some (ob\<lparr>ob_tx_ids := ob_tx_ids ob @ [tx],
           ob_txs := ob_txs ob @ [\<lparr>tx_id = tx, batch_index = word_of_nat (length (ob_txs ob)), op = fs,
             read_set = rs, write_set = ws\<rparr>]\<rparr>), sq_next_tx_id := sq_next_tx_id s1 + 1\<rparr>)"

lemma handle_submit_tx_put:
  "handle_submit_tx fs s =
     (case derive_read_write_set fs of Err e \<Rightarrow> (Err e, s)
      | Ok (rs, ws) \<Rightarrow>
          (case result_shard_for_tx s (sq_next_tx_id s) rs ws of Err e \<Rightarrow> (Err e, s)
           | Ok shard \<Rightarrow>
               (let s2 = put_tx fs rs ws s;
                    (sealed, s3) = (if sq_max_batch_size s \<le> length (open_txs s2) then seal_open_batch s2 else (Ok (), s2))
                in case sealed of Err e \<Rightarrow> (Err e, s3)
                   | Ok _ \<Rightarrow> (Ok \<lparr>ack_tx_id = sq_next_tx_id s, ack_result_shard = shard\<rparr>, s3))))"
  by (simp add: handle_submit_tx_def put_tx_def Let_def case_prod_beta split: sum.splits)

lemmas put_defs = put_tx_def ensure_open_batch_def take_next_batch_id_def spawn_flush_timer_def Let_def

lemma put_tx_ok:
  assumes inv: "sequencer_inv s" and d: "derive_read_write_set fs = Ok (rs, ws)"
    and room: "unat (sq_next_tx_id s) + 1 < 2 ^ 64" "unat (sq_next_batch_id s) + 1 < 2 ^ 64" "sq_max_batch_size s \<le> 2 ^ 32"
  shows "sequencer_ok (put_tx fs rs ws s)" "sent_txs (put_tx fs rs ws s) = sent_txs s"
    "open_txs (put_tx fs rs ws s) = open_txs s @ [\<lparr>tx_id = sq_next_tx_id s, batch_index = word_of_nat (length (open_txs s)),
       op = fs, read_set = rs, write_set = ws\<rparr>]"
    "sq_next_tx_id (put_tx fs rs ws s) = sq_next_tx_id s + 1"
    "unat (sq_next_batch_id (put_tx fs rs ws s)) \<le> unat (sq_next_batch_id s) + 1"
    "sq_max_batch_size (put_tx fs rs ws s) = sq_max_batch_size s" "sq_layout (put_tx fs rs ws s) = sq_layout s"
    "sq_dispatch_closed (put_tx fs rs ws s) = sq_dispatch_closed s" "sq_result_policy (put_tx fs rs ws s) = sq_result_policy s"
    "sq_dispatched (put_tx fs rs ws s) = sq_dispatched s"
proof -
  note o = inv [unfolded sequencer_inv_def sequencer_ok_def]
  let ?t = "\<lparr>tx_id = sq_next_tx_id s, batch_index = word_of_nat (length (open_txs s)), op = fs, read_set = rs, write_set = ws\<rparr>"
  let ?s = "put_tx fs rs ws s"
  show sent: "sent_txs ?s = sent_txs s" and opn: "open_txs ?s = open_txs s @ [?t]"
    and tx: "sq_next_tx_id ?s = sq_next_tx_id s + 1" and mx: "sq_max_batch_size ?s = sq_max_batch_size s"
    and "sq_layout ?s = sq_layout s" "sq_dispatch_closed ?s = sq_dispatch_closed s" "sq_result_policy ?s = sq_result_policy s"
    and "unat (sq_next_batch_id ?s) \<le> unat (sq_next_batch_id s) + 1"
    using unat_add_nat [of "sq_next_batch_id s" 1] room
    by (auto simp: put_defs sent_txs_def open_txs_def split: option.split)
  have len: "length (open_txs s) < 2 ^ 32" using inv room(3) by (auto simp: sequencer_inv_def)
  have "indexed (open_txs s)" using o by (cases "sq_open s") (auto simp: indexed_def)
  then have idx: "indexed (open_txs s @ [?t])" using len by (auto simp: indexed_def nth_append less_Suc_eq unat_of_nat)
  have ids: "ascending (map tx_id (sent_txs ?s @ open_txs ?s)) (sq_next_tx_id ?s)"
    using ascending_snoc [of "map tx_id (sent_txs s @ open_txs s)" "sq_next_tx_id s"] o room(1) by (simp add: sent opn tx)
  have bids: "ascending (batch_ids ?s) (sq_next_batch_id ?s)"
    using o ascending_snoc [of "batch_ids s" "sq_next_batch_id s"] room(2)
    by (cases "sq_open s") (simp_all add: put_defs batch_ids_def)
  have opn': "\<forall>ob. sq_open ?s = Some ob \<longrightarrow> indexed (ob_txs ob) \<and> ob_tx_ids ob = map tx_id (ob_txs ob) \<and>
      ob_txs ob \<noteq> [] \<and> length (ob_txs ob) \<le> max 1 (sq_max_batch_size ?s) \<and> ob_batch_id ob \<in> set (sq_timers ?s)"
    using o idx by (cases "sq_open s") (auto simp: put_defs)
  show jobs: "sq_dispatched ?s = sq_dispatched s"
    by (simp add: put_defs split: option.split)
  show "sequencer_ok ?s"
    unfolding sequencer_ok_def using ids bids opn' o d by (simp add: sent opn jobs mx validate_sets_Ok_iff)
qed

text \<open>What every command keeps, with a bound on the numbers it uses up.\<close>

definition later :: "nat \<Rightarrow> sequencer \<Rightarrow> sequencer \<Rightarrow> bool" where
  "later n s s' \<longleftrightarrow>
     sequencer_inv s' \<and> unat (sq_next_tx_id s') \<le> unat (sq_next_tx_id s) + n \<and>
     unat (sq_next_batch_id s') \<le> unat (sq_next_batch_id s) + n \<and>
     sq_max_batch_size s' = sq_max_batch_size s \<and> sq_layout s' = sq_layout s \<and>
     sq_dispatch_closed s' = sq_dispatch_closed s \<and> sq_result_policy s' = sq_result_policy s \<and>
     prefix (sq_dispatched s) (sq_dispatched s') \<and>
     (\<not> sq_dispatch_closed s \<longrightarrow> prefix (sent_txs s @ open_txs s) (sent_txs s' @ open_txs s'))"

lemma later_refl: "sequencer_inv s \<Longrightarrow> later n s s"
  by (simp add: later_def)

lemma later_trans: "later n s t \<Longrightarrow> later m t u \<Longrightarrow> later (n + m) s u"
  by (auto simp: later_def dest: prefix_order.trans)

lemma later_txs: "later n s s' \<Longrightarrow> \<not> sq_dispatch_closed s \<Longrightarrow> set (sent_txs s @ open_txs s) \<subseteq> set (sent_txs s' @ open_txs s')"
  unfolding later_def by (blast dest: set_mono_prefix)

lemma seal_later: "sequencer_ok s \<Longrightarrow> later n s (snd (seal_open_batch s))"
  using seal_open_batch_ok [of s "fst (seal_open_batch s)" "snd (seal_open_batch s)"] by (auto simp: later_def)

lemma handle_submit_tx_cases:
  assumes "handle_submit_tx fs s = (r, s')"
  obtains (refused) e where "r = Err e" "s' = s"
  | (taken) rs ws shard where "derive_read_write_set fs = Ok (rs, ws)"
      "result_shard_for_tx s (sq_next_tx_id s) rs ws = Ok shard"
      "s' = (if sq_max_batch_size s \<le> length (open_txs (put_tx fs rs ws s))
        then snd (seal_open_batch (put_tx fs rs ws s)) else put_tx fs rs ws s)"
      "\<forall>ack. r = Ok ack \<longrightarrow> ack = \<lparr>ack_tx_id = sq_next_tx_id s, ack_result_shard = shard\<rparr>"
proof (cases "derive_read_write_set fs")
  case (Inl e)
  then have "r = Err e" "s' = s" using assms by (simp_all add: handle_submit_tx_put)
  then show ?thesis by (rule refused)
next
  case (Inr p)
  obtain rs ws where p: "p = (rs, ws)" by fastforce
  show ?thesis
  proof (cases "result_shard_for_tx s (sq_next_tx_id s) rs ws")
    case (Inl e)
    then have "r = Err e" "s' = s" using assms Inr p by (simp_all add: handle_submit_tx_put)
    then show ?thesis by (rule refused)
  next
    case shard: (Inr shard)
    let ?s = "put_tx fs rs ws s"
    let ?sealed = "if sq_max_batch_size s \<le> length (open_txs ?s) then seal_open_batch ?s else (Ok (), ?s)"
    have "(r, s') = (case fst ?sealed of Err e \<Rightarrow> (Err e, snd ?sealed)
        | Ok _ \<Rightarrow> (Ok \<lparr>ack_tx_id = sq_next_tx_id s, ack_result_shard = shard\<rparr>, snd ?sealed))"
      using assms Inr p shard by (simp add: handle_submit_tx_put Let_def case_prod_beta)
    then have "s' = snd ?sealed" "\<forall>ack. r = Ok ack \<longrightarrow> ack = \<lparr>ack_tx_id = sq_next_tx_id s, ack_result_shard = shard\<rparr>"
      by (cases "fst ?sealed"; simp)+
    then show ?thesis using taken [of rs ws shard] Inr p shard by (simp split: if_splits)
  qed
qed

lemma handle_submit_tx_later:
  assumes inv: "sequencer_inv s" and h: "handle_submit_tx fs s = (r, s')"
    and room: "unat (sq_next_tx_id s) + 1 < 2 ^ 64" "unat (sq_next_batch_id s) + 1 < 2 ^ 64" "sq_max_batch_size s \<le> 2 ^ 32"
  shows "later 1 s s'"
    "r = Ok ack \<Longrightarrow> \<not> sq_dispatch_closed s \<Longrightarrow> \<exists>t \<in> set (sent_txs s' @ open_txs s'). tx_id t = ack_tx_id ack \<and> op t = fs \<and>
      result_shard_for_tx s (tx_id t) (read_set t) (write_set t) = Ok (ack_result_shard ack)"
proof -
  have "later 1 s s' \<and> (r = Ok ack \<longrightarrow> \<not> sq_dispatch_closed s \<longrightarrow>
      (\<exists>t \<in> set (sent_txs s' @ open_txs s'). tx_id t = ack_tx_id ack \<and> op t = fs \<and>
        result_shard_for_tx s (tx_id t) (read_set t) (write_set t) = Ok (ack_result_shard ack)))"
    using h
  proof (cases rule: handle_submit_tx_cases)
    case (taken rs ws shard)
    let ?s = "put_tx fs rs ws s"
    let ?t = "\<lparr>tx_id = sq_next_tx_id s, batch_index = word_of_nat (length (open_txs s)), op = fs, read_set = rs, write_set = ws\<rparr>"
    note p = put_tx_ok [OF inv taken(1) room]
    have tx: "unat (sq_next_tx_id ?s) \<le> unat (sq_next_tx_id s) + 1" using unat_add_nat [of "sq_next_tx_id s" 1] room(1) by (simp add: p)
    have ls: "later 0 ?s s'" if "sq_max_batch_size s \<le> length (open_txs ?s)" using seal_later [OF p(1)] taken(3) that by simp
    have pre: "prefix (sent_txs s @ open_txs s) (sent_txs ?s @ open_txs ?s)" by (simp add: p(2,3))
    have 1: "later 1 s s'"
    proof (cases "sq_max_batch_size s \<le> length (open_txs ?s)")
      case True
      then show ?thesis using ls p(4-10) tx prefix_order.trans [OF pre] by (auto simp: later_def)
    next
      case False
      then show ?thesis using p(1,4-10) tx pre taken(3) by (auto simp: later_def sequencer_inv_def)
    qed
    have "set (sent_txs ?s @ open_txs ?s) \<subseteq> set (sent_txs s' @ open_txs s')" if "\<not> sq_dispatch_closed s"
      using later_txs [OF ls] taken(3) that p(8) by (cases "sq_max_batch_size s \<le> length (open_txs ?s)") simp_all
    then have "?t \<in> set (sent_txs s' @ open_txs s')" if "\<not> sq_dispatch_closed s" using that by (simp add: p(3))
    then show ?thesis using 1 taken(2,4) by (intro conjI impI bexI [of _ ?t]) auto
  qed (simp add: later_refl inv)
  then show "later 1 s s'"
    "r = Ok ack \<Longrightarrow> \<not> sq_dispatch_closed s \<Longrightarrow> \<exists>t \<in> set (sent_txs s' @ open_txs s'). tx_id t = ack_tx_id ack \<and> op t = fs \<and>
      result_shard_for_tx s (tx_id t) (read_set t) (write_set t) = Ok (ack_result_shard ack)" by blast+
qed

text \<open>A batch submission seals the open batch, takes its numbers and becomes one job, or is answered with an error.\<close>

lemma indexed_iff: "indexed ts \<longleftrightarrow> map (\<lambda>t. unat (batch_index t)) ts = [0..<length ts]"
  unfolding indexed_def list_eq_iff_nth_eq by simp

lemma new_job_later:
  assumes inv: "sequencer_inv s" and none: "sq_open s = None" and o: "order_ops 0 ops (sq_next_tx_id s) = (Ok ts, n)"
    and room: "unat (sq_next_tx_id s) + length ops < 2 ^ 64" "unat (sq_next_batch_id s) + 1 < 2 ^ 64"
    and size: "length ops \<le> sq_max_batch_size s" "sq_max_batch_size s \<le> 2 ^ 32"
    and s': "s' = snd (dispatch_batch \<lparr>batch_id = sq_next_batch_id s, txs = ts\<rparr> (map tx_id ts) (Some reply)
      (s\<lparr>sq_next_batch_id := sq_next_batch_id s + 1, sq_next_tx_id := n\<rparr>))"
  shows "later (Suc (length ops)) s s'"
proof -
  note i = inv [unfolded sequencer_inv_def sequencer_ok_def]
  note t = order_ops_Ok [OF o]
  have len: "length ts = length ops" using t by (metis length_map)
  have n: "unat n = unat (sq_next_tx_id s) + length ops" using t unat_add_nat [of "sq_next_tx_id s" "length ops"] room(1) by simp
  have bid: "unat (sq_next_batch_id s + 1) = unat (sq_next_batch_id s) + 1"
    using unat_add_nat [of "sq_next_batch_id s" 1] room(2) by simp
  have up: "ascending (map tx_id (sent_txs s) @ map tx_id ts) n"
    using ascending_numbers [of "map tx_id (sent_txs s)" "sq_next_tx_id s" "length ops"] i none t room(1) by simp
  have idx: "indexed ts"
  proof -
    have "map batch_index ts = map word_of_nat [0..<length ops]" using t by simp
    from arg_cong [OF this, of "map unat"]
    have "map (\<lambda>t. unat (batch_index t)) ts = map (\<lambda>j. unat (word_of_nat j :: u32)) [0..<length ops]" by (simp add: comp_def)
    also have "\<dots> = [0..<length ops]" using size by (intro map_idI) (simp add: unat_of_nat)
    finally show ?thesis by (simp add: indexed_iff len)
  qed
  have b: "ascending (batch_ids s @ [sq_next_batch_id s]) (sq_next_batch_id s + 1)"
    using ascending_snoc [of "batch_ids s" "sq_next_batch_id s"] i room(2) by simp
  have le: "ascending (map tx_id (sent_txs s)) n" "ascending (batch_ids s) (sq_next_batch_id s + 1)"
    using ascending_append [OF up] ascending_append [OF b] by simp_all
  show ?thesis
  proof (cases "sq_dispatch_closed s")
    case True
    then have s'': "s' = s\<lparr>sq_next_batch_id := sq_next_batch_id s + 1, sq_next_tx_id := n\<rparr>" using s' by (simp add: dispatch_batch_def)
    show ?thesis
      using i le n bid none unfolding later_def sequencer_inv_def sequencer_ok_def s''
      by (simp add: sent_txs_def open_txs_def batch_ids_def)
  next
    case False
    then have s'': "s' = s\<lparr>sq_next_batch_id := sq_next_batch_id s + 1, sq_next_tx_id := n, sq_dispatched := sq_dispatched s @
        [\<lparr>dj_batch = \<lparr>batch_id = sq_next_batch_id s, txs = ts\<rparr>, dj_tx_ids = map tx_id ts, dj_reply = Some reply\<rparr>]\<rparr>"
      using s' by (simp add: dispatch_batch_def)
    have sent: "sent_txs s' = sent_txs s @ ts" "open_txs s' = []" "open_txs s = []" "batch_ids s' = batch_ids s @ [sq_next_batch_id s]"
      using none by (simp_all add: s'' sent_txs_def open_txs_def batch_ids_def)
    have jobs: "\<forall>j \<in> set (sq_dispatched s'). indexed (txs (dj_batch j)) \<and> dj_tx_ids j = map tx_id (txs (dj_batch j)) \<and>
        length (txs (dj_batch j)) \<le> max 1 (sq_max_batch_size s')"
      using i idx len size(1) by (simp add: s'')
    have valid: "\<forall>t \<in> set (sent_txs s' @ open_txs s'). validate_sets t = Ok ()" using i t unfolding sent by auto
    have "sequencer_inv s'"
      unfolding sequencer_inv_def sequencer_ok_def using up b jobs valid none unfolding sent by (simp add: s'')
    then show ?thesis unfolding later_def sent using n bid by (simp add: s'')
  qed
qed

lemma skip_numbers_later:
  assumes inv: "sequencer_inv s" and none: "sq_open s = None" and k: "k \<le> m"
    and room: "unat (sq_next_tx_id s) + m < 2 ^ 64" "unat (sq_next_batch_id s) + 1 < 2 ^ 64"
  shows "later (Suc m) s (s\<lparr>sq_next_batch_id := sq_next_batch_id s + 1, sq_next_tx_id := sq_next_tx_id s + word_of_nat k\<rparr>)"
proof -
  note i = inv [unfolded sequencer_inv_def sequencer_ok_def]
  have n: "unat (sq_next_tx_id s + word_of_nat k) = unat (sq_next_tx_id s) + k" "sq_next_tx_id s \<le> sq_next_tx_id s + word_of_nat k"
    using unat_add_nat [of "sq_next_tx_id s" k] word_le_add_nat [of "sq_next_tx_id s" k] k room(1) by simp_all
  have b: "unat (sq_next_batch_id s + 1) = unat (sq_next_batch_id s) + 1" "sq_next_batch_id s \<le> sq_next_batch_id s + 1"
    using unat_add_nat [of "sq_next_batch_id s" 1] word_le_add_nat [of "sq_next_batch_id s" 1] room(2) by simp_all
  have "ascending (map tx_id (sent_txs s)) (sq_next_tx_id s + word_of_nat k)" "ascending (batch_ids s) (sq_next_batch_id s + 1)"
    using i n(2) b(2) none by (auto intro: ascending_le)
  then show ?thesis
    using i n(1) b(1) k none unfolding later_def sequencer_inv_def sequencer_ok_def
    by (simp add: sent_txs_def open_txs_def batch_ids_def)
qed

lemma handle_submit_batch_later:
  assumes inv: "sequencer_inv s" and h: "handle_submit_batch ops reply s = (rs, s')"
    and room: "unat (sq_next_tx_id s) + Suc (length ops) < 2 ^ 64" "unat (sq_next_batch_id s) + 1 < 2 ^ 64"
      "sq_max_batch_size s \<le> 2 ^ 32"
  shows "later (Suc (length ops)) s s'"
    "\<not> sq_dispatch_closed s \<Longrightarrow> (\<exists>e. rs = [BatchReply reply (Err e)]) \<or>
      rs = [] \<and> (\<exists>j \<in> set (sq_dispatched s'). dj_reply j = Some reply \<and> map op (txs (dj_batch j)) = ops)"
proof -
  have "later (Suc (length ops)) s s' \<and> (\<not> sq_dispatch_closed s \<longrightarrow> (\<exists>e. rs = [BatchReply reply (Err e)]) \<or>
      rs = [] \<and> (\<exists>j \<in> set (sq_dispatched s'). dj_reply j = Some reply \<and> map op (txs (dj_batch j)) = ops))"
  proof (cases "sq_max_batch_size s < length ops")
    case True
    then show ?thesis using h inv by (auto simp: handle_submit_batch_def later_refl)
  next
    case False
    obtain q s1 where s1: "seal_open_batch s = (q, s1)" by fastforce
    have ok: "sequencer_ok s" using inv by (simp add: sequencer_inv_def)
    note c = seal_open_batch_ok [OF ok s1]
    have 0: "later 0 s s1" using seal_later [OF ok, of 0] s1 by simp
    show ?thesis
    proof (cases q)
      case (Inl e)
      then have "rs = [BatchReply reply (Err e)]" "s' = s1" using h False s1 by (simp_all add: handle_submit_batch_def)
      then show ?thesis using later_trans [OF 0 later_refl [OF c(1), of "Suc (length ops)"]] by simp
    next
      case (Inr u)
      obtain r n where o: "order_ops 0 ops (sq_next_tx_id s1) = (r, n)" by fastforce
      have room': "unat (sq_next_tx_id s1) + length ops < 2 ^ 64" "unat (sq_next_batch_id s1) + 1 < 2 ^ 64" using room c by simp_all
      show ?thesis
      proof (cases r)
        case (Inl e)
        obtain k where k: "k \<le> length ops" "n = sq_next_tx_id s1 + word_of_nat k"
          using order_ops_next [of ops 0 "sq_next_tx_id s1"] o by auto
        have "rs = [BatchReply reply (Err e)]"
          "s' = s1\<lparr>sq_next_batch_id := sq_next_batch_id s1 + 1, sq_next_tx_id := n\<rparr>"
          using h False s1 Inr o Inl by (simp_all add: handle_submit_batch_def take_next_batch_id_def)
        then show ?thesis using later_trans [OF 0 skip_numbers_later [OF c(1,2) k(1) room']] k(2) by simp
      next
        case (Inr ts)
        let ?s = "s1\<lparr>sq_next_batch_id := sq_next_batch_id s1 + 1, sq_next_tx_id := n\<rparr>"
        let ?d = "dispatch_batch \<lparr>batch_id = sq_next_batch_id s1, txs = ts\<rparr> (map tx_id ts) (Some reply) ?s"
        have e: "rs = []" "s' = snd ?d"
          using h False s1 \<open>q = Inr u\<close> o Inr by (simp_all add: handle_submit_batch_def take_next_batch_id_def)
        have "map op ts = ops" using order_ops_Ok [of 0 ops "sq_next_tx_id s1" ts n] o Inr by simp
        then have "\<exists>j \<in> set (sq_dispatched s'). dj_reply j = Some reply \<and> map op (txs (dj_batch j)) = ops"
          if "\<not> sq_dispatch_closed s" using that c by (simp add: e(2) dispatch_batch_def)
        moreover have "later (Suc (length ops)) s1 s'"
          by (rule new_job_later [OF c(1,2) _ room' _ _ e(2)]) (use o Inr False c room in auto)
        ultimately show ?thesis using later_trans [OF 0] e(1) by fastforce
      qed
    qed
  qed
  then show "later (Suc (length ops)) s s'"
    "\<not> sq_dispatch_closed s \<Longrightarrow> (\<exists>e. rs = [BatchReply reply (Err e)]) \<or>
      rs = [] \<and> (\<exists>j \<in> set (sq_dispatched s'). dj_reply j = Some reply \<and> map op (txs (dj_batch j)) = ops)" by blast+
qed

subsection \<open>The actor\<close>

fun command_cost :: "sequencer_command \<Rightarrow> nat" where
  "command_cost (SubmitTx _ _) = 1"
| "command_cost (SubmitBatch ops _) = Suc (length ops)"
| "command_cost (FlushOpen _) = 0"

definition has_room :: "nat \<Rightarrow> sequencer \<Rightarrow> bool" where
  "has_room n s \<longleftrightarrow> unat (sq_next_tx_id s) + n < 2 ^ 64 \<and> unat (sq_next_batch_id s) + n < 2 ^ 64 \<and>
     sq_max_batch_size s \<le> 2 ^ 32"

lemma has_room_later: "has_room (n + m) s \<Longrightarrow> later n s s' \<Longrightarrow> has_room m s'"
  by (auto simp: has_room_def later_def)

lemma handle_command_later:
  assumes "sequencer_inv s" "has_room (command_cost cmd) s" "handle_command cmd s = (rs, s')"
  shows "later (command_cost cmd) s s'"
proof (cases cmd)
  case (SubmitTx fs reply)
  obtain r where "handle_submit_tx fs s = (r, s')"
    using assms(3) SubmitTx by (auto simp: handle_command_def split: prod.splits)
  from handle_submit_tx_later(1) [OF assms(1) this] show ?thesis
    using assms(2) SubmitTx by (simp add: has_room_def)
next
  case (SubmitBatch ops reply)
  then show ?thesis using assms handle_submit_batch_later(1) [OF assms(1)] by (auto simp: handle_command_def has_room_def)
next
  case (FlushOpen bid)
  have "sequencer_ok s" using assms(1) by (simp add: sequencer_inv_def)
  then show ?thesis using assms(1,3) FlushOpen seal_later [of s 0]
    by (auto simp: handle_command_def later_refl split: option.splits if_splits)
qed

definition total_cost :: "sequencer_command list \<Rightarrow> nat" where
  "total_cost cmds = sum_list (map command_cost cmds)"

lemma run_later:
  "sequencer_inv s \<Longrightarrow> has_room (total_cost cmds) s \<Longrightarrow> run_sequencer_actor cmds s = (rs, s') \<Longrightarrow>
     later (total_cost cmds) s s'"
proof (induction cmds arbitrary: s rs)
  case (Cons cmd cmds)
  obtain r1 s1 r2 where s1: "handle_command cmd s = (r1, s1)" and r2: "run_sequencer_actor cmds s1 = (r2, s')"
    using Cons.prems(3) by (auto split: prod.splits)
  have "has_room (command_cost cmd) s" using Cons.prems(2) by (simp add: has_room_def total_cost_def)
  then have l: "later (command_cost cmd) s s1" using handle_command_later Cons.prems(1) s1 by blast
  moreover have "has_room (total_cost cmds) s1" using has_room_later [OF _ l] Cons.prems(2) by (simp add: total_cost_def)
  moreover have "sequencer_inv s1" using l by (simp add: later_def)
  ultimately have "later (total_cost cmds) s1 s'" using Cons.IH r2 by blast
  then show ?case using later_trans [OF l] by (simp add: total_cost_def)
qed (simp add: later_refl total_cost_def)

lemma sequencer_new_inv: "sequencer_inv (sequencer_new L policy n)"
  by (simp add: sequencer_inv_def sequencer_ok_def sequencer_new_def sent_txs_def open_txs_def batch_ids_def ascending_def)

lemma sequencer_new_room: "n \<le> 2 ^ 32 \<Longrightarrow> total_cost cmds < 2 ^ 64 - 1 \<Longrightarrow> has_room (total_cost cmds) (sequencer_new L policy n)"
  by (simp add: has_room_def sequencer_new_def)

subsection \<open>Replies\<close>

lemma result_shard_later: "later n s s' \<Longrightarrow> result_shard_for_tx s' = result_shard_for_tx s"
  by (intro ext) (simp add: result_shard_for_tx_def later_def cong: sequencer_result_policy.case_cong)

lemma handle_command_ack:
  assumes inv: "sequencer_inv s" and room: "has_room (command_cost cmd) s" and h: "handle_command cmd s = (rs, s')"
    and ack: "TxReply r (Ok ack) \<in> set rs" and live: "\<not> sq_dispatch_closed s"
  shows "\<exists>t \<in> set (sent_txs s' @ open_txs s'). tx_id t = ack_tx_id ack \<and> cmd = SubmitTx (op t) r \<and>
    result_shard_for_tx s (tx_id t) (read_set t) (write_set t) = Ok (ack_result_shard ack)"
proof -
  obtain fs where c: "cmd = SubmitTx fs r" "handle_submit_tx fs s = (Ok ack, s')"
    using h ack by (auto simp: handle_command_def handle_submit_batch_def case_prod_beta Let_def
        split: sequencer_command.splits sum.splits option.splits if_splits)
  have "unat (sq_next_tx_id s) + 1 < 2 ^ 64" "unat (sq_next_batch_id s) + 1 < 2 ^ 64" "sq_max_batch_size s \<le> 2 ^ 32"
    using room c(1) by (simp_all add: has_room_def)
  from handle_submit_tx_later(2) [OF inv c(2) this refl live] show ?thesis using c(1) by auto
qed

lemma run_acks:
  "sequencer_inv s \<Longrightarrow> has_room (total_cost cmds) s \<Longrightarrow> \<not> sq_dispatch_closed s \<Longrightarrow>
   run_sequencer_actor cmds s = (rs, s') \<Longrightarrow> TxReply r (Ok ack) \<in> set rs \<Longrightarrow>
   \<exists>t \<in> set (sent_txs s' @ open_txs s'). tx_id t = ack_tx_id ack \<and> SubmitTx (op t) r \<in> set cmds \<and>
     result_shard_for_tx s (tx_id t) (read_set t) (write_set t) = Ok (ack_result_shard ack)"
proof (induction cmds arbitrary: s rs)
  case (Cons cmd cmds)
  obtain r1 s1 r2 where s1: "handle_command cmd s = (r1, s1)" and r2: "run_sequencer_actor cmds s1 = (r2, s')" "rs = r1 @ r2"
    using Cons.prems(4) by (auto split: prod.splits)
  have room: "has_room (command_cost cmd) s" using Cons.prems(2) by (simp add: has_room_def total_cost_def)
  have l: "later (command_cost cmd) s s1" by (rule handle_command_later [OF Cons.prems(1) room s1])
  have room1: "has_room (total_cost cmds) s1" using has_room_later [OF _ l] Cons.prems(2) by (simp add: total_cost_def)
  have inv1: "sequencer_inv s1" and live1: "\<not> sq_dispatch_closed s1" using l Cons.prems(3) by (simp_all add: later_def)
  have l1: "later (total_cost cmds) s1 s'" by (rule run_later [OF inv1 room1 r2(1)])
  show ?case
  proof (cases "TxReply r (Ok ack) \<in> set r1")
    case True
    then show ?thesis
      using handle_command_ack [OF Cons.prems(1) room s1 _ Cons.prems(3)] later_txs [OF l1 live1] by fastforce
  next
    case False
    then show ?thesis
      using Cons.IH [OF inv1 room1 live1 r2(1)] Cons.prems(5) r2(2) result_shard_later [OF l] by fastforce
  qed
qed simp

lemma run_batches:
  "sequencer_inv s \<Longrightarrow> has_room (total_cost cmds) s \<Longrightarrow> \<not> sq_dispatch_closed s \<Longrightarrow>
   run_sequencer_actor cmds s = (rs, s') \<Longrightarrow> SubmitBatch ops r \<in> set cmds \<Longrightarrow>
   (\<exists>e. BatchReply r (Err e) \<in> set rs) \<or> (\<exists>j \<in> set (sq_dispatched s'). dj_reply j = Some r \<and> map op (txs (dj_batch j)) = ops)"
proof (induction cmds arbitrary: s rs)
  case (Cons cmd cmds)
  obtain r1 s1 r2 where s1: "handle_command cmd s = (r1, s1)" and r2: "run_sequencer_actor cmds s1 = (r2, s')" "rs = r1 @ r2"
    using Cons.prems(4) by (auto split: prod.splits)
  have room: "has_room (command_cost cmd) s" using Cons.prems(2) by (simp add: has_room_def total_cost_def)
  have l: "later (command_cost cmd) s s1" by (rule handle_command_later [OF Cons.prems(1) room s1])
  have room1: "has_room (total_cost cmds) s1" using has_room_later [OF _ l] Cons.prems(2) by (simp add: total_cost_def)
  have inv1: "sequencer_inv s1" and live1: "\<not> sq_dispatch_closed s1" using l Cons.prems(3) by (simp_all add: later_def)
  have "set (sq_dispatched s1) \<subseteq> set (sq_dispatched s')"
    using run_later [OF inv1 room1 r2(1)] by (auto simp: later_def dest: set_mono_prefix)
  moreover have "(\<exists>e. r1 = [BatchReply r (Err e)]) \<or>
      (\<exists>j \<in> set (sq_dispatched s1). dj_reply j = Some r \<and> map op (txs (dj_batch j)) = ops)" if "cmd = SubmitBatch ops r"
    using handle_submit_batch_later(2) [OF Cons.prems(1), of ops r r1 s1] s1 room that Cons.prems(3)
    by (auto simp: handle_command_def has_room_def)
  ultimately show ?case
    using Cons.IH [OF inv1 room1 live1 r2(1)] Cons.prems(5) r2(2) by fastforce
qed simp

lemma flush_all:
  "sequencer_ok s \<Longrightarrow> (\<And>ob. sq_open s = Some ob \<Longrightarrow> ob_batch_id ob \<in> set ids) \<Longrightarrow> \<not> sq_dispatch_closed s \<Longrightarrow>
   sq_open (snd (run_sequencer_actor (map FlushOpen ids) s)) = None \<and>
   sent_txs (snd (run_sequencer_actor (map FlushOpen ids) s)) = sent_txs s @ open_txs s"
proof (induction ids arbitrary: s)
  case (Cons i ids)
  have "fst (handle_command (FlushOpen i) s) = []" by (simp add: handle_command_def split: option.split)
  then obtain s1 where s1: "handle_command (FlushOpen i) s = ([], s1)" by (metis prod.collapse)
  have run: "run_sequencer_actor (map FlushOpen (i # ids)) s = run_sequencer_actor (map FlushOpen ids) s1"
    by (simp add: s1 case_prod_beta)
  show ?case
  proof (cases "\<exists>ob. sq_open s = Some ob \<and> ob_batch_id ob = i")
    case True
    then have "seal_open_batch s = (fst (seal_open_batch s), s1)" using s1 by (auto simp: handle_command_def)
    note c = seal_open_batch_ok [OF Cons.prems(1) this]
    have "sequencer_ok s1" using c(1) by (simp add: sequencer_inv_def)
    from Cons.IH [OF this] show ?thesis unfolding run using c Cons.prems(3) by simp
  next
    case False
    then have "s1 = s" using s1 by (auto simp: handle_command_def split: option.splits if_splits)
    then show ?thesis unfolding run using Cons.IH [of s] Cons.prems False by auto
  qed
next
  case Nil
  then show ?case by (cases "sq_open s") auto
qed

lemma dispatched_batches:
  assumes "sequencer_ok s"
  shows "sorted_wrt (<) (map (\<lambda>j. batch_id (dj_batch j)) (sq_dispatched s))"
    "sorted_wrt (<) (map tx_id (concat (map (\<lambda>j. txs (dj_batch j)) (sq_dispatched s))))"
    "j \<in> set (sq_dispatched s) \<Longrightarrow> validate_batch_order (dj_batch j) = Ok () \<and> dj_tx_ids j = map tx_id (txs (dj_batch j)) \<and>
      length (txs (dj_batch j)) \<le> max 1 (sq_max_batch_size s) \<and> (\<forall>t \<in> set (txs (dj_batch j)). validate_sets t = Ok ())"
proof -
  note i = assms [unfolded sequencer_ok_def]
  have ids: "sorted_wrt (<) (map tx_id (sent_txs s))" using i by (simp add: ascending_def sorted_wrt_append)
  then show "sorted_wrt (<) (map tx_id (concat (map (\<lambda>j. txs (dj_batch j)) (sq_dispatched s))))" by (simp add: sent_txs_def)
  show "sorted_wrt (<) (map (\<lambda>j. batch_id (dj_batch j)) (sq_dispatched s))"
    using i by (simp add: batch_ids_def ascending_def sorted_wrt_append)
  assume j: "j \<in> set (sq_dispatched s)"
  obtain js ks where "sq_dispatched s = js @ j # ks" using split_list [OF j] by blast
  then have "sorted_wrt (<) (map tx_id (txs (dj_batch j)))" using ids by (simp add: sent_txs_def sorted_wrt_append)
  then have "distinct (map tx_id (txs (dj_batch j)))" by (simp add: strict_sorted_iff)
  moreover have "t \<in> set (sent_txs s)" if "t \<in> set (txs (dj_batch j))" for t
    using that j by (auto simp: sent_txs_def)
  ultimately show "validate_batch_order (dj_batch j) = Ok () \<and> dj_tx_ids j = map tx_id (txs (dj_batch j)) \<and>
      length (txs (dj_batch j)) \<le> max 1 (sq_max_batch_size s) \<and> (\<forall>t \<in> set (txs (dj_batch j)). validate_sets t = Ok ())"
    using i j by (auto simp: validate_batch_order_Ok indexed_def)
qed

text \<open>The operations in flight are those that were submitted.\<close>

fun command_ops :: "sequencer_command \<Rightarrow> fs_op list" where
  "command_ops (SubmitTx fs _) = [fs]"
| "command_ops (SubmitBatch ops _) = ops"
| "command_ops (FlushOpen _) = []"

definition all_txs :: "sequencer \<Rightarrow> ordered_tx set" where
  "all_txs s = set (sent_txs s) \<union> set (open_txs s)"

lemma all_txs_update [simp]:
  "all_txs (s\<lparr>sq_next_batch_id := i\<rparr>) = all_txs s" "all_txs (s\<lparr>sq_next_tx_id := t\<rparr>) = all_txs s"
  by (simp_all add: all_txs_def sent_txs_def open_txs_def)

lemma dispatch_txs: "all_txs (snd (dispatch_batch b ids reply s)) \<subseteq> all_txs s \<union> set (txs b)"
  by (auto simp: all_txs_def dispatch_batch_def sent_txs_def open_txs_def)

lemma seal_txs: "all_txs (snd (seal_open_batch s)) \<subseteq> all_txs s"
  by (auto simp: all_txs_def seal_open_batch_def dispatch_batch_def sent_txs_def open_txs_def Let_def
      split: option.splits if_splits)

lemma put_txs: "op ` all_txs (put_tx fs rs ws s) = insert fs (op ` all_txs s)"
proof -
  have "sent_txs (put_tx fs rs ws s) = sent_txs s" "map op (open_txs (put_tx fs rs ws s)) = map op (open_txs s) @ [fs]"
    by (auto simp: put_defs sent_txs_def open_txs_def split: option.split)
  then have "op ` set (open_txs (put_tx fs rs ws s)) = insert fs (op ` set (open_txs s))"
    by (metis list.set_map list.simps(15) rotate1.simps(2) set_rotate1)
  then show ?thesis using \<open>sent_txs (put_tx fs rs ws s) = sent_txs s\<close> by (simp add: all_txs_def image_Un)
qed

lemma command_txs: "op ` all_txs (snd (handle_command cmd s)) \<subseteq> op ` all_txs s \<union> set (command_ops cmd)"
proof (cases cmd)
  case (SubmitTx fs reply)
  obtain r s' where h: "handle_submit_tx fs s = (r, s')" by fastforce
  then have "op ` all_txs s' \<subseteq> insert fs (op ` all_txs s)"
  proof (cases rule: handle_submit_tx_cases)
    case (taken rs ws shard)
    then have "all_txs s' \<subseteq> all_txs (put_tx fs rs ws s)" using seal_txs by (auto split: if_splits)
    then show ?thesis using put_txs [of fs rs ws s] by blast
  qed auto
  then show ?thesis using h SubmitTx by (simp add: handle_command_def)
next
  case (SubmitBatch ops reply)
  obtain r s1 where seal: "seal_open_batch s = (r, s1)" by fastforce
  obtain res n where o: "order_ops 0 ops (sq_next_tx_id s1) = (res, n)" by fastforce
  have 1: "all_txs s1 \<subseteq> all_txs s" using seal_txs [of s] seal by simp
  have 2: "op ` set ts = set ops" if "res = Ok ts" for ts using order_ops_Ok o that by (metis list.set_map)
  let ?new = "case res of Ok ts \<Rightarrow> set ts | Err _ \<Rightarrow> {}"
  have "all_txs (snd (handle_submit_batch ops reply s)) \<subseteq> all_txs s \<union> ?new"
  proof (cases r)
    case (Inr u)
    let ?s3 = "s1\<lparr>sq_next_batch_id := sq_next_batch_id s1 + 1, sq_next_tx_id := n\<rparr>"
    let ?b = "\<lambda>ts. \<lparr>batch_id = sq_next_batch_id s1, txs = ts\<rparr>"
    have s': "snd (handle_submit_batch ops reply s) = (if sq_max_batch_size s < length ops then s
        else case res of Err _ \<Rightarrow> ?s3 | Ok ts \<Rightarrow> snd (dispatch_batch (?b ts) (map tx_id ts) (Some reply) ?s3))"
      using Inr by (simp add: handle_submit_batch_def seal o take_next_batch_id_def Let_def split: sum.split)
    have "all_txs ?s3 \<subseteq> all_txs s" using 1 by simp
    then show ?thesis using dispatch_txs [of "?b ts" "map tx_id ts" "Some reply" ?s3 for ts]
      unfolding s' by (auto split: sum.split)
  qed (use 1 in \<open>auto simp: handle_submit_batch_def seal\<close>)
  then show ?thesis using 2 SubmitBatch by (cases res) (auto simp: handle_command_def)
next
  case (FlushOpen bid)
  then show ?thesis using seal_txs [of s] by (auto simp: handle_command_def split: option.split)
qed

lemma run_txs_submitted:
  "run_sequencer_actor cmds s = (rs, s') \<Longrightarrow> op ` all_txs s' \<subseteq> op ` all_txs s \<union> set (concat (map command_ops cmds))"
proof (induction cmds arbitrary: s rs)
  case (Cons cmd cmds)
  obtain r1 s1 where h: "handle_command cmd s = (r1, s1)" by fastforce
  obtain r2 where r2: "run_sequencer_actor cmds s1 = (r2, s')" using Cons.prems h by (auto split: prod.splits)
  show ?case using Cons.IH [OF r2] command_txs [of cmd s] h by auto
qed simp

section \<open>Properties\<close>

text \<open>C10: The sequencer fixes one order. Whatever commands arrive in whatever order, as long as fewer than
  2 ^ 64 - 1 numbers are used up, the jobs for the dispatcher carry strictly increasing batch ids, their
  transactions carry strictly increasing ids through all batches, every transaction has the sets derived
  from its operation, its index is its position, and no batch exceeds the configured size.\<close>

theorem sequencer_orders_batches:
  assumes "total_cost cmds < 2 ^ 64 - 1" "n \<le> 2 ^ 32"
    and "run_sequencer_actor cmds (sequencer_new L policy n) = (replies, s)"
  shows "sorted_wrt (<) (map (\<lambda>j. batch_id (dj_batch j)) (sq_dispatched s)) \<and>
    sorted_wrt (<) (map tx_id (concat (map (\<lambda>j. txs (dj_batch j)) (sq_dispatched s)))) \<and>
    (\<forall>j \<in> set (sq_dispatched s). validate_batch_order (dj_batch j) = Ok () \<and> dj_tx_ids j = map tx_id (txs (dj_batch j)) \<and>
      length (txs (dj_batch j)) \<le> max 1 n \<and> (\<forall>t \<in> set (txs (dj_batch j)). validate_sets t = Ok ()))"
proof -
  have "later (total_cost cmds) (sequencer_new L policy n) s"
    by (rule run_later [OF sequencer_new_inv sequencer_new_room [OF assms(2,1)] assms(3)])
  then have "sequencer_ok s" "sq_max_batch_size s = n" by (simp_all add: later_def sequencer_inv_def sequencer_new_def)
  then show ?thesis using dispatched_batches [of s] by blast
qed

text \<open>C11: The sequencer loses nothing. Every acknowledged transaction is, once the timers that were started
  have fired, part of a dispatched batch with the operation that was submitted and the acknowledged id,
  and the acknowledged result shard is the one that answers for it under the configured scheduler; every
  submitted batch is answered with an error or is one job with exactly its operations.\<close>

theorem sequencer_loses_nothing:
  assumes "total_cost cmds < 2 ^ 64 - 1" "n \<le> 2 ^ 32"
    and "run_sequencer_actor cmds (sequencer_new L policy n) = (replies, s)"
    and "run_sequencer_actor (map FlushOpen (sq_timers s)) s = (later_replies, s')"
  shows "sq_open s' = None \<and>
    (\<forall>r ack. TxReply r (Ok ack) \<in> set replies \<longrightarrow>
      (\<exists>j \<in> set (sq_dispatched s'). \<exists>t \<in> set (txs (dj_batch j)). tx_id t = ack_tx_id ack \<and> SubmitTx (op t) r \<in> set cmds \<and>
        (case policy of StaticReadWriteSet \<Rightarrow> result_shard L t = Some (ack_result_shard ack)
         | TxIdModulo \<Rightarrow> ack_result_shard ack = aria_result_shard (tx_id t) (shard_count L)))) \<and>
    (\<forall>r ops. SubmitBatch ops r \<in> set cmds \<longrightarrow> (\<exists>e. BatchReply r (Err e) \<in> set replies) \<or>
      (\<exists>j \<in> set (sq_dispatched s). dj_reply j = Some r \<and> map op (txs (dj_batch j)) = ops))"
proof -
  note start = sequencer_new_inv [of L policy n] sequencer_new_room [OF assms(2,1), of L policy]
  have live: "\<not> sq_dispatch_closed (sequencer_new L policy n)" by (simp add: sequencer_new_def)
  have l: "later (total_cost cmds) (sequencer_new L policy n) s" by (rule run_later [OF start assms(3)])
  have ok: "sequencer_ok s" "\<not> sq_dispatch_closed s" using l live by (simp_all add: later_def sequencer_inv_def)
  have f: "sq_open s' = None" "sent_txs s' = sent_txs s @ open_txs s"
    using flush_all [of s "sq_timers s"] ok assms(4) by (auto simp: sequencer_ok_def)
  show ?thesis
  proof (intro conjI allI impI)
    fix r ack assume "TxReply r (Ok ack) \<in> set replies"
    from run_acks [OF start live assms(3) this] obtain t where t: "t \<in> set (sent_txs s @ open_txs s)" "tx_id t = ack_tx_id ack"
      "SubmitTx (op t) r \<in> set cmds"
      "result_shard_for_tx (sequencer_new L policy n) (tx_id t) (read_set t) (write_set t) = Ok (ack_result_shard ack)" by blast
    then have "t \<in> set (sent_txs s')" using f(2) by simp
    then obtain j where j: "j \<in> set (sq_dispatched s')" "t \<in> set (txs (dj_batch j))" by (auto simp: sent_txs_def)
    have "case policy of StaticReadWriteSet \<Rightarrow> result_shard L t = Some (ack_result_shard ack)
         | TxIdModulo \<Rightarrow> ack_result_shard ack = aria_result_shard (tx_id t) (shard_count L)"
      using t(4) by (auto simp: result_shard_for_tx_def sequencer_new_def result_shard_def
          split: sequencer_result_policy.splits option.splits)
    with j t(2,3) show "\<exists>j \<in> set (sq_dispatched s'). \<exists>t \<in> set (txs (dj_batch j)). tx_id t = ack_tx_id ack \<and> SubmitTx (op t) r \<in> set cmds \<and>
        (case policy of StaticReadWriteSet \<Rightarrow> result_shard L t = Some (ack_result_shard ack)
         | TxIdModulo \<Rightarrow> ack_result_shard ack = aria_result_shard (tx_id t) (shard_count L))"
      by blast
  qed (use f(1) run_batches [OF start live assms(3)] in blast)+
qed

text \<open>A client that submits an operation, a batch and a directory without a parent.\<close>

definition some_commands :: "sequencer_command list" where
  "some_commands = [SubmitTx (Mkdir root) 0, SubmitBatch [Stat root, Stat root] 1, SubmitTx (Stat root) 2]"

lemma some_commands_run:
  "run_sequencer_actor some_commands (sequencer_new \<lparr>shard_count = 1\<rparr> StaticReadWriteSet 2) =
     (let stat = (\<lambda>i j. \<lparr>tx_id = i, batch_index = j, op = Stat root, read_set = {root}, write_set = {}\<rparr>);
          mkdir = \<lparr>tx_id = 1, batch_index = 0, op = Mkdir root, read_set = {root}, write_set = {root}\<rparr>;
          job = (\<lambda>i ts r. \<lparr>dj_batch = \<lparr>batch_id = i, txs = ts\<rparr>, dj_tx_ids = map tx_id ts, dj_reply = r\<rparr>)
      in ([TxReply 0 (Ok \<lparr>ack_tx_id = 1, ack_result_shard = 0\<rparr>), TxReply 2 (Ok \<lparr>ack_tx_id = 4, ack_result_shard = 0\<rparr>)],
          \<lparr>sq_layout = \<lparr>shard_count = 1\<rparr>, sq_result_policy = StaticReadWriteSet, sq_max_batch_size = 2,
           sq_next_batch_id = 4, sq_next_tx_id = 5,
           sq_open = Some \<lparr>ob_batch_id = 3, ob_txs = [stat 4 0], ob_tx_ids = [4]\<rparr>, sq_timers = [1, 3],
           sq_dispatched = [job 1 [mkdir] None, job 2 [stat 2 0, stat 3 1] (Some 1)], sq_dispatch_closed = False\<rparr>))"
  by (simp add: some_commands_def sequencer_new_def handle_command_def handle_submit_tx_def handle_submit_batch_def
      ensure_open_batch_def take_next_batch_id_def spawn_flush_timer_def seal_open_batch_def dispatch_batch_def
      result_shard_for_tx_def result_shard_for_sets_def participants_for_sets_def read_only_coordinator_def
      shard_for_key_def root_def numeral_2_eq_2 Let_def)

lemma some_commands_cost: "total_cost some_commands < 2 ^ 64 - 1"
  by (simp add: total_cost_def some_commands_def)

theorem sequencer_orders_batches_witness:
  "\<exists>replies s. run_sequencer_actor some_commands (sequencer_new \<lparr>shard_count = 1\<rparr> StaticReadWriteSet 2) = (replies, s) \<and>
     map (\<lambda>j. batch_id (dj_batch j)) (sq_dispatched s) = [1, 2] \<and>
     map tx_id (concat (map (\<lambda>j. txs (dj_batch j)) (sq_dispatched s))) = [1, 2, 3] \<and>
     (\<forall>j \<in> set (sq_dispatched s). validate_batch_order (dj_batch j) = Ok ())"
  using sequencer_orders_batches [OF some_commands_cost, of 2 "\<lparr>shard_count = 1\<rparr>" StaticReadWriteSet]
  unfolding some_commands_run Let_def by simp

theorem sequencer_loses_nothing_witness:
  "\<exists>replies s later_replies s'.
     run_sequencer_actor some_commands (sequencer_new \<lparr>shard_count = 1\<rparr> StaticReadWriteSet 2) = (replies, s) \<and>
     run_sequencer_actor (map FlushOpen (sq_timers s)) s = (later_replies, s') \<and>
     TxReply 2 (Ok \<lparr>ack_tx_id = 4, ack_result_shard = 0\<rparr>) \<in> set replies \<and>
     (\<exists>j \<in> set (sq_dispatched s'). \<exists>t \<in> set (txs (dj_batch j)). tx_id t = 4)"
proof -
  obtain replies s where s: "run_sequencer_actor some_commands (sequencer_new \<lparr>shard_count = 1\<rparr> StaticReadWriteSet 2) = (replies, s)"
    by fastforce
  obtain later_replies s' where s': "run_sequencer_actor (map FlushOpen (sq_timers s)) s = (later_replies, s')" by fastforce
  have ack: "TxReply 2 (Ok \<lparr>ack_tx_id = 4, ack_result_shard = 0\<rparr>) \<in> set replies"
    using s unfolding some_commands_run Let_def by auto
  have two: "2 \<le> (2 :: nat) ^ 32" by simp
  from sequencer_loses_nothing [OF some_commands_cost two s s', THEN conjunct2, THEN conjunct1, rule_format, OF ack]
  have "\<exists>j \<in> set (sq_dispatched s'). \<exists>t \<in> set (txs (dj_batch j)). tx_id t = 4" by auto
  with s s' ack show ?thesis by blast
qed

subsection \<open>The dispatcher\<close>

lemma traverse_Ok_iff: "(\<exists>ys. traverse f xs = Inr ys) \<longleftrightarrow> (\<forall>x \<in> set xs. \<exists>y. f x = Inr y)"
  by (induction xs) (auto simp: res_simps)

text \<open>The records of all shards, if all have executed the batch.\<close>

definition all_executed :: "shard_id set \<Rightarrow> (shard_id \<Rightarrow> tx_result_record list result) \<Rightarrow> bool" where
  "all_executed endpoints answer \<longleftrightarrow> (\<forall>sh \<in> endpoints. \<exists>records. answer sh = Ok records)"

lemma send_batch_to_all_shards_iff:
  "(\<exists>records. send_batch_to_all_shards endpoints answer = Ok records) \<longleftrightarrow> all_executed endpoints answer"
  using traverse_Ok_iff [of answer "sorted_list_of_set endpoints"]
  by (auto simp: send_batch_to_all_shards_def all_executed_def res_simps)

text \<open>C12: The dispatcher logs what all shards have executed. After any jobs, with any answers of the shards,
  the log has grown by exactly the batches that every shard has executed, in their order, whatever became
  of the others; and a client gets a summary exactly if its batch was executed by all shards, with the ids of
  its transactions and the records of all shards in the order of transaction and shard.\<close>

theorem dispatcher_logs_executed_batches:
  "let (replies, batch_log') = run_batch_dispatcher endpoints jobs batch_log
    in batch_log' = batch_log @ map (\<lambda>(job, answer). dj_batch job) (filter (\<lambda>(job, answer). all_executed endpoints answer) jobs) \<and>
      (\<forall>r summary. BatchReply r (Ok summary) \<in> set replies \<longleftrightarrow>
        (\<exists>job answer. (job, answer) \<in> set jobs \<and> dj_reply job = Some r \<and> all_executed endpoints answer \<and>
          summary = \<lparr>sum_batch_id = batch_id (dj_batch job), sum_tx_ids = dj_tx_ids job,
            sum_tx_results = sort_key (\<lambda>x. (rec_tx_id x, rec_shard_id x))
              (concat (map (\<lambda>sh. projr (answer sh)) (sorted_list_of_set endpoints)))\<rparr>))"
proof (induction jobs arbitrary: batch_log)
  case (Cons x jobs)
  obtain job answer where x: "x = (job, answer)" by fastforce
  obtain replies log1 where d: "dispatch_job endpoints answer job batch_log = (replies, log1)" by fastforce
  obtain others log2 where r: "run_batch_dispatcher endpoints jobs log1 = (others, log2)" by fastforce
  let ?records = "sort_key (\<lambda>x. (rec_tx_id x, rec_shard_id x))
    (concat (map (\<lambda>sh. projr (answer sh)) (sorted_list_of_set endpoints)))"
  have ok: "send_batch_to_all_shards endpoints answer = Ok ?records" if "all_executed endpoints answer"
    using that traverse_all_ok [of "sorted_list_of_set endpoints" answer "\<lambda>sh. projr (answer sh)"]
    by (force simp: send_batch_to_all_shards_def all_executed_def)
  have err: "\<exists>e. send_batch_to_all_shards endpoints answer = Err e" if "\<not> all_executed endpoints answer"
    using that send_batch_to_all_shards_iff by (cases "send_batch_to_all_shards endpoints answer") auto
  have "log1 = batch_log @ (if all_executed endpoints answer then [dj_batch job] else [])"
    using d ok err by (auto simp: dispatch_job_def Let_def)
  moreover have "BatchReply r (Ok summary) \<in> set replies \<longleftrightarrow> dj_reply job = Some r \<and> all_executed endpoints answer \<and>
      summary = \<lparr>sum_batch_id = batch_id (dj_batch job), sum_tx_ids = dj_tx_ids job, sum_tx_results = ?records\<rparr>" for r summary
    using d ok err by (cases "all_executed endpoints answer") (auto simp: dispatch_job_def Let_def split: option.splits)
  ultimately show ?case
    using Cons.IH [of log1] d r x by (simp add: Let_def) blast
qed simp

end
