(* ===== verification/Aria.thy ===== *)
theory Aria
  imports AriaLocking SccInstall
begin

text \<open>
  The optimistic scheduler, \<open>execute_aria_batch\<close>, \<open>run_aria_coordinator\<close> and \<open>AriaBatchRegistry\<close> of
  \<open>src/engine.rs\<close>. Each transaction has one coordinator, on the shard chosen by its id: it reads its
  keys from the stores before the batch, executes, and stages the writes at their owners. When all
  shards have told each other that they are done, each finds the conflicts on its own keys, all
  exchange them, and everyone installs the transactions without a conflict; the others are rerun.
  Here are the operations of the registry, the coordinator and the batch as a transition system.
  A remote call returns before its caller goes on, so it is one step at the called shard; the
  conversions of its messages are those of \<open>convert.rs\<close> and lose nothing but the upper half of an
  index, which is sent with 32 bits.
\<close>

section \<open>The registry of a batch\<close>

record aria_stage_outcome =
  aso_batch_id :: batch_id
  aso_tx_index :: nat
  aso_tx_id :: tx_id
  aso_from_shard :: shard_id
  aso_result :: tx_result
  aso_writes :: "write_op list"
  aso_is_result_shard :: bool

record aria_staged_outcome =
  ast_tx_index :: nat
  ast_tx_id :: tx_id
  ast_result :: "tx_result option"
  ast_local_writes :: "write_op list"
  ast_is_result_shard :: bool

record aria_batch_state =
  staged_outcomes :: "nat \<rightharpoonup> aria_staged_outcome"
  readers_by_key :: "key \<rightharpoonup> nat set"
  writers_by_key :: "key \<rightharpoonup> nat set"
  execution_done_reports :: "shard_id set"
  failure_reports :: "shard_id \<rightharpoonup> nat set"

type_synonym aria_registry = "batch_id \<rightharpoonup> aria_batch_state"

definition aria_batch_state_default :: aria_batch_state where
  "aria_batch_state_default = \<lparr>staged_outcomes = Map.empty, readers_by_key = Map.empty,
     writers_by_key = Map.empty, execution_done_reports = {}, failure_reports = Map.empty\<rparr>"

definition aria_entry :: "batch_id \<Rightarrow> aria_registry \<Rightarrow> aria_batch_state" where
  "aria_entry bid reg = (case reg bid of Some e \<Rightarrow> e | None \<Rightarrow> aria_batch_state_default)"

text \<open>\<open>map.entry(key).or_default().insert(index)\<close>\<close>

definition insert_at :: "key \<Rightarrow> nat \<Rightarrow> (key \<rightharpoonup> nat set) \<Rightarrow> (key \<rightharpoonup> nat set)" where
  "insert_at k i m = m(k \<mapsto> insert i (case m k of Some A \<Rightarrow> A | None \<Rightarrow> {}))"

definition read_snapshot ::
    "shard_layout \<Rightarrow> shard_id \<Rightarrow> fs_state \<Rightarrow> batch_id \<Rightarrow> nat \<Rightarrow> key \<Rightarrow> aria_registry
      \<Rightarrow> read_value result \<times> aria_registry" where
  "read_snapshot L sh store bid tx_index k reg =
     (if shard_for_key L k \<noteq> sh then (Err (InvalidBatch ''Aria read routed to the wrong shard''), reg)
      else case reads_of store {k} k of
          None \<Rightarrow> (Err (InvalidBatch ''missing Aria read value''), reg)
        | Some v \<Rightarrow>
            (let e = aria_entry bid reg
             in (Ok v, reg(bid \<mapsto> e\<lparr>readers_by_key := insert_at k tx_index (readers_by_key e)\<rparr>))))"

text \<open>On a duplicate the new outcome has replaced the old one when the error is returned.\<close>

definition stage_outcome ::
    "shard_layout \<Rightarrow> shard_id \<Rightarrow> aria_stage_outcome \<Rightarrow> aria_registry \<Rightarrow> unit result \<times> aria_registry" where
  "stage_outcome L sh out reg =
     (let expected = aria_result_shard (aso_tx_id out) (shard_count L)
      in if aso_from_shard out \<noteq> expected
         then (Err (InvalidBatch ''Aria staged outcome came from the wrong shard''), reg)
         else if aso_is_result_shard out \<noteq> (sh = expected)
         then (Err (InvalidBatch ''Aria staged outcome has the wrong is_result_shard''), reg)
         else if (\<exists>w \<in> set (aso_writes out). shard_for_key L (write_key w) \<noteq> sh)
         then (Err (InvalidBatch ''Aria staged write routed to the wrong shard''), reg)
         else
           (let e = aria_entry (aso_batch_id out) reg;
                staged = \<lparr>ast_tx_index = aso_tx_index out, ast_tx_id = aso_tx_id out,
                  ast_result = (if aso_is_result_shard out then Some (aso_result out) else None),
                  ast_local_writes = aso_writes out, ast_is_result_shard = aso_is_result_shard out\<rparr>;
                e' = e\<lparr>staged_outcomes := (staged_outcomes e)(aso_tx_index out \<mapsto> staged)\<rparr>
            in if staged_outcomes e (aso_tx_index out) \<noteq> None
               then (Err (InvalidBatch ''duplicate Aria staged outcome''), reg(aso_batch_id out \<mapsto> e'))
               else (Ok (), reg(aso_batch_id out \<mapsto> e'\<lparr>writers_by_key :=
                 fold (\<lambda>w. insert_at (write_key w) (aso_tx_index out)) (aso_writes out) (writers_by_key e')\<rparr>))))"

definition validate_aria_report_shard :: "shard_id \<Rightarrow> u64 \<Rightarrow> unit result" where
  "validate_aria_report_shard from_shard n =
     (if n \<le> from_shard then Err (InvalidBatch ''Aria report came from an unknown shard'') else Ok ())"

definition record_execution_done ::
    "batch_id \<Rightarrow> shard_id \<Rightarrow> u64 \<Rightarrow> aria_registry \<Rightarrow> unit result \<times> aria_registry" where
  "record_execution_done bid from_shard n reg =
     (case validate_aria_report_shard from_shard n of Err e \<Rightarrow> (Err e, reg)
      | Ok _ \<Rightarrow>
          (let e = aria_entry bid reg
           in if from_shard \<in> execution_done_reports e
              then (Err (InvalidBatch ''duplicate Aria execution-done report''), reg)
              else (Ok (), reg(bid \<mapsto> e\<lparr>execution_done_reports := insert from_shard (execution_done_reports e)\<rparr>))))"

definition record_local_failures ::
    "batch_id \<Rightarrow> shard_id \<Rightarrow> nat set \<Rightarrow> u64 \<Rightarrow> aria_registry \<Rightarrow> unit result \<times> aria_registry" where
  "record_local_failures bid from_shard failed n reg =
     (case validate_aria_report_shard from_shard n of Err e \<Rightarrow> (Err e, reg)
      | Ok _ \<Rightarrow>
          (let e = aria_entry bid reg
           in (if failure_reports e from_shard \<noteq> None
               then Err (InvalidBatch ''duplicate Aria local-failure report'') else Ok (),
               reg(bid \<mapsto> e\<lparr>failure_reports := (failure_reports e)(from_shard \<mapsto> failed)\<rparr>))))"

definition has_all_aria_reports :: "shard_id set \<Rightarrow> nat \<Rightarrow> bool" where
  "has_all_aria_reports shards n \<longleftrightarrow> (\<forall>shard < n. word_of_nat shard \<in> shards)"

text \<open>The writers of a key but the first, and its readers after the first writer.\<close>

definition failed_indices_at :: "aria_batch_state \<Rightarrow> key \<Rightarrow> nat set" where
  "failed_indices_at e k =
     (case writers_by_key e k of
        None \<Rightarrow> {}
      | Some ws \<Rightarrow>
          (if ws = {} then {}
           else let winner = Min ws
                in {w \<in> ws. w \<noteq> winner} \<union>
                   (case readers_by_key e k of None \<Rightarrow> {} | Some rs \<Rightarrow> {r \<in> rs. winner < r})))"

definition local_failed_indices :: "aria_batch_state \<Rightarrow> nat set" where
  "local_failed_indices e =
     (\<Union>k \<in> dom (writers_by_key e) \<union> dom (readers_by_key e). failed_indices_at e k)"

definition staged_outcome_list :: "aria_batch_state \<Rightarrow> aria_staged_outcome list" where
  "staged_outcome_list e = map (\<lambda>i. the (staged_outcomes e i)) (sorted_list_of_set (dom (staged_outcomes e)))"

definition aria_cleanup_batch :: "batch_id \<Rightarrow> aria_registry \<Rightarrow> aria_registry" where
  "aria_cleanup_batch bid reg = reg(bid := None)"

section \<open>The end of the batch\<close>

type_synonym aria_installed = "fs_state \<times> tx_result_registry \<times> tx_result_record list"

text \<open>An error leaves what was installed before it.\<close>

definition install_aria_outcome ::
    "shard_id \<Rightarrow> nat set \<Rightarrow> aria_staged_outcome \<Rightarrow> aria_installed \<Rightarrow> unit result \<times> aria_installed" where
  "install_aria_outcome sh failed out = (\<lambda>(store, results, records).
     if ast_tx_index out \<in> failed then (Ok (), store, results, records)
     else
       (let store' = apply_writes store (ast_local_writes out)
        in if \<not> ast_is_result_shard out then (Ok (), store', results, records)
           else case ast_result out of
               None \<Rightarrow> (Err (InvalidBatch ''Aria result shard outcome has no result''), store', results, records)
             | Some res \<Rightarrow> (Ok (), store', mark_ready (ast_tx_id out) res results,
                 records @ [\<lparr>rec_tx_id = ast_tx_id out, rec_shard_id = sh, rec_result = res\<rparr>])))"

fun install_aria_loop ::
    "shard_id \<Rightarrow> nat set \<Rightarrow> aria_staged_outcome list \<Rightarrow> aria_installed \<Rightarrow> unit result \<times> aria_installed" where
  "install_aria_loop sh failed [] st = (Ok (), st)"
| "install_aria_loop sh failed (out # outs) st =
     (case install_aria_outcome sh failed out st of
        (Err e, st') \<Rightarrow> (Err e, st')
      | (Ok _, st') \<Rightarrow> install_aria_loop sh failed outs st')"

definition install_aria_successes ::
    "shard_id \<Rightarrow> aria_batch_state \<Rightarrow> nat set \<Rightarrow> fs_state \<Rightarrow> tx_result_registry \<Rightarrow> unit result \<times> aria_installed" where
  "install_aria_successes sh e failed store results =
     install_aria_loop sh failed (sort_key ast_tx_index (staged_outcome_list e)) (store, results, [])"

section \<open>The coordinator\<close>

datatype aria_coordinator =
    CoordReading "key list" reads
  | CoordStaging "(shard_id \<times> aria_stage_outcome) list"
  | CoordDone "unit result"

definition aria_read_keys_for_tx :: "ordered_tx \<Rightarrow> key set result" where
  "aria_read_keys_for_tx tx = rbind (derive_read_write_set (op tx)) (\<lambda>(rs, _). Ok rs)"

definition aria_start_coordinator :: "ordered_tx \<Rightarrow> aria_coordinator" where
  "aria_start_coordinator tx =
     (case aria_read_keys_for_tx tx of
        Err e \<Rightarrow> CoordDone (Err e)
      | Ok ks \<Rightarrow> CoordReading (sorted_list_of_set ks) Map.empty)"

definition aria_outcomes ::
    "shard_layout \<Rightarrow> shard_id \<Rightarrow> batch_id \<Rightarrow> nat \<Rightarrow> ordered_tx \<Rightarrow> reads \<Rightarrow> (shard_id \<times> aria_stage_outcome) list" where
  "aria_outcomes L sh bid tx_index tx full_reads =
     (let output = execute_deterministic tx full_reads;
          result_shard = aria_result_shard (tx_id tx) (shard_count L);
          owner = (\<lambda>w. shard_for_key L (write_key w));
          targets = insert result_shard (owner ` set (writes output))
      in map (\<lambda>target. (target, \<lparr>aso_batch_id = bid, aso_tx_index = tx_index, aso_tx_id = tx_id tx,
           aso_from_shard = sh, aso_result = result output,
           aso_writes = filter (\<lambda>w. owner w = target) (writes output),
           aso_is_result_shard = (target = result_shard)\<rparr>)) (sorted_list_of_set targets))"

section \<open>The system\<close>

text \<open>
  A waiting shard looks at the reports under the lock of the entry and, if some are missing, registers
  for a notification afterwards: between the two, in \<open>WaitWindow\<close>, a notification is lost.
\<close>

datatype aria_wait = WaitChecking | WaitWindow | WaitAsleep

datatype aria_main =
    AriaCoordinating "nat set"
  | AriaPublishDone "shard_id list"
  | AriaAwaitDone aria_wait
  | AriaFindFailures
  | AriaPublishFailures "nat set" "shard_id list"
  | AriaAwaitFailures aria_wait
  | AriaInstall "nat set"
  | AriaInstalled "nat set" "tx_result_record list"

record aria_system =
  as_store :: "shard_id \<Rightarrow> fs_state"
  as_registry :: "shard_id \<Rightarrow> aria_registry"
  as_results :: "shard_id \<Rightarrow> tx_result_registry"
  as_reorders :: "shard_id \<Rightarrow> (batch_id \<rightharpoonup> reorder_record)"
  as_coord :: "nat \<Rightarrow> aria_coordinator"
  as_main :: "shard_id \<Rightarrow> aria_main"
  as_failed :: "shard_id \<rightharpoonup> error"

record aria_params =
  ap_layout :: shard_layout
  ap_peers :: "shard_id set"
  ap_batch :: batch

abbreviation ap_count :: "aria_params \<Rightarrow> u64" where "ap_count P \<equiv> shard_count (ap_layout P)"
abbreviation ap_id :: "aria_params \<Rightarrow> batch_id" where "ap_id P \<equiv> batch_id (ap_batch P)"
abbreviation ap_tx :: "aria_params \<Rightarrow> nat \<Rightarrow> ordered_tx" where "ap_tx P i \<equiv> txs (ap_batch P) ! i"
abbreviation ap_shard :: "aria_params \<Rightarrow> nat \<Rightarrow> shard_id" where
  "ap_shard P i \<equiv> aria_result_shard (tx_id (ap_tx P i)) (ap_count P)"

definition all_shards :: "shard_layout \<Rightarrow> shard_id list" where
  "all_shards L = map word_of_nat [0..<unat (shard_count L)]"

definition own_coordinators :: "aria_params \<Rightarrow> shard_id \<Rightarrow> nat set" where
  "own_coordinators P sh = {i \<in> {..<length (txs (ap_batch P))}. ap_shard P i = sh}"

text \<open>\<open>notify_waiters\<close> wakes the batch of the shard if it sleeps.\<close>

definition wake :: "aria_main \<Rightarrow> aria_main" where
  "wake m = (case m of
       AriaAwaitDone WaitAsleep \<Rightarrow> AriaAwaitDone WaitChecking
     | AriaAwaitFailures WaitAsleep \<Rightarrow> AriaAwaitFailures WaitChecking
     | _ \<Rightarrow> m)"

definition set_main :: "shard_id \<Rightarrow> aria_main \<Rightarrow> aria_system \<Rightarrow> aria_system" where
  "set_main sh m c = c\<lparr>as_main := (as_main c)(sh := m)\<rparr>"

definition set_coord :: "nat \<Rightarrow> aria_coordinator \<Rightarrow> aria_system \<Rightarrow> aria_system" where
  "set_coord i s c = c\<lparr>as_coord := (as_coord c)(i := s)\<rparr>"

definition fail_shard :: "shard_id \<Rightarrow> error \<Rightarrow> aria_system \<Rightarrow> aria_system" where
  "fail_shard sh e c = c\<lparr>as_failed := (as_failed c)(sh \<mapsto> e)\<rparr>"

text \<open>
  A call from one shard at the registry of another: the peer must be known, an error comes back as a
  status, a successful call notifies the waiting batch there.
\<close>

definition call_registry ::
    "aria_params \<Rightarrow> shard_id \<Rightarrow> shard_id \<Rightarrow> (aria_registry \<Rightarrow> 'a result \<times> aria_registry) \<Rightarrow> aria_system
      \<Rightarrow> 'a result \<times> aria_system" where
  "call_registry P caller target f c =
     (if target \<noteq> caller \<and> target \<notin> ap_peers P then (Err (MissingPeer target), c)
      else
        (let (res, reg) = f (as_registry c target);
             c' = c\<lparr>as_registry := (as_registry c)(target := reg)\<rparr>
         in case res of
              Ok x \<Rightarrow> (Ok x, set_main target (wake (as_main c target)) c')
            | Err e \<Rightarrow> (Err (if target = caller then e else TonicStatus ''remote call failed''), c')))"

definition wire_index :: "nat \<Rightarrow> nat" where
  "wire_index i = unat (word_of_nat i :: u32)"

definition aria_read_snapshot_local ::
    "aria_params \<Rightarrow> shard_id \<Rightarrow> nat \<Rightarrow> key \<Rightarrow> aria_system \<Rightarrow> read_value result \<times> aria_system" where
  "aria_read_snapshot_local P sh tx_index k c =
     call_registry P sh sh (read_snapshot (ap_layout P) sh (as_store c sh) (ap_id P) tx_index k) c"

text \<open>The reply of the service carries the key of the request, so the check of the returned key passes.\<close>

definition aria_read_snapshot_remote ::
    "aria_params \<Rightarrow> shard_id \<Rightarrow> nat \<Rightarrow> shard_id \<Rightarrow> key \<Rightarrow> aria_system \<Rightarrow> read_value result \<times> aria_system" where
  "aria_read_snapshot_remote P sh tx_index target k c =
     call_registry P sh target
       (read_snapshot (ap_layout P) target (as_store c target) (ap_id P) (wire_index tx_index) k) c"

definition send_aria_stage_outcome ::
    "aria_params \<Rightarrow> shard_id \<Rightarrow> shard_id \<Rightarrow> aria_stage_outcome \<Rightarrow> aria_system \<Rightarrow> unit result \<times> aria_system" where
  "send_aria_stage_outcome P sh target out c =
     call_registry P sh target
       (stage_outcome (ap_layout P) target (out\<lparr>aso_tx_index := wire_index (aso_tx_index out)\<rparr>)) c"

definition coordinator_step :: "aria_params \<Rightarrow> nat \<Rightarrow> aria_system \<Rightarrow> aria_system option" where
  "coordinator_step P i c =
     (let sh = ap_shard P i
      in case as_coord c i of
           CoordReading [] full_reads \<Rightarrow>
             Some (set_coord i (CoordStaging (aria_outcomes (ap_layout P) sh (ap_id P) i (ap_tx P i) full_reads)) c)
         | CoordReading (k # ks) full_reads \<Rightarrow>
             (let owner = shard_for_key (ap_layout P) k;
                  (res, c') = (if owner = sh then aria_read_snapshot_local P sh i k c
                    else aria_read_snapshot_remote P sh i owner k c)
              in Some (set_coord i (case res of
                   Err e \<Rightarrow> CoordDone (Err e)
                 | Ok v \<Rightarrow>
                     (if full_reads k \<noteq> None then CoordDone (Err (InvalidBatch ''duplicate Aria full read key''))
                      else CoordReading ks (full_reads(k \<mapsto> v)))) c'))
         | CoordStaging [] \<Rightarrow> Some (set_coord i (CoordDone (Ok ())) c)
         | CoordStaging ((target, out) # rest) \<Rightarrow>
             (let (res, c') = (if target = sh then call_registry P sh sh (stage_outcome (ap_layout P) sh out) c
                    else send_aria_stage_outcome P sh target out c)
              in Some (set_coord i (case res of Err e \<Rightarrow> CoordDone (Err e) | Ok _ \<Rightarrow> CoordStaging rest) c'))
         | CoordDone _ \<Rightarrow> None)"

section \<open>The batch of a shard\<close>

text \<open>One round of each broadcast: the next target. The indices are sent with 32 bits, also to the own shard.\<close>

definition broadcast_aria_execution_done ::
    "aria_params \<Rightarrow> shard_id \<Rightarrow> shard_id \<Rightarrow> aria_system \<Rightarrow> unit result \<times> aria_system" where
  "broadcast_aria_execution_done P sh target c =
     call_registry P sh target (record_execution_done (ap_id P) sh (ap_count P)) c"

definition broadcast_aria_local_failures ::
    "aria_params \<Rightarrow> shard_id \<Rightarrow> nat set \<Rightarrow> shard_id \<Rightarrow> aria_system \<Rightarrow> unit result \<times> aria_system" where
  "broadcast_aria_local_failures P sh failed target c =
     call_registry P sh target (record_local_failures (ap_id P) sh (wire_index ` failed) (ap_count P)) c"

text \<open>The waiting loops: look, leave the lock, register for a notification, sleep until one comes.\<close>

definition wait_execution_done :: "aria_batch_state \<Rightarrow> nat \<Rightarrow> aria_wait \<Rightarrow> aria_main option" where
  "wait_execution_done e n w =
     (case w of
        WaitChecking \<Rightarrow> Some (if has_all_aria_reports (execution_done_reports e) n
          then AriaFindFailures else AriaAwaitDone WaitWindow)
      | WaitWindow \<Rightarrow> Some (AriaAwaitDone WaitAsleep)
      | WaitAsleep \<Rightarrow> None)"

definition wait_failure_reports :: "aria_batch_state \<Rightarrow> nat \<Rightarrow> aria_wait \<Rightarrow> aria_main option" where
  "wait_failure_reports e n w =
     (case w of
        WaitChecking \<Rightarrow> Some (if has_all_aria_reports (dom (failure_reports e)) n
          then AriaInstall (\<Union> (ran (failure_reports e))) else AriaAwaitFailures WaitWindow)
      | WaitWindow \<Rightarrow> Some (AriaAwaitFailures WaitAsleep)
      | WaitAsleep \<Rightarrow> None)"

definition install_aria_batch :: "aria_params \<Rightarrow> shard_id \<Rightarrow> nat set \<Rightarrow> aria_system \<Rightarrow> aria_system" where
  "install_aria_batch P sh failed c =
     (let (recorded, reorders) =
            record_batch_reorder (ap_id P) (length (txs (ap_batch P))) failed (as_reorders c sh);
          c' = c\<lparr>as_reorders := (as_reorders c)(sh := reorders)\<rparr>
      in case recorded of
           Err e \<Rightarrow> fail_shard sh e c'
         | Ok _ \<Rightarrow>
             (let (installed, store, results, records) =
                    install_aria_successes sh (aria_entry (ap_id P) (as_registry c sh)) failed
                      (as_store c sh) (as_results c sh);
                  c'' = c'\<lparr>as_store := (as_store c)(sh := store), as_results := (as_results c)(sh := results)\<rparr>
              in case installed of
                   Err e \<Rightarrow> fail_shard sh e c''
                 | Ok _ \<Rightarrow> set_main sh (AriaInstalled failed records) c''))"

text \<open>The batch from one await to the next, without the collection of the coordinators.\<close>

definition main_step :: "aria_params \<Rightarrow> shard_id \<Rightarrow> aria_system \<Rightarrow> aria_system option" where
  "main_step P sh c =
     (let e = aria_entry (ap_id P) (as_registry c sh);
          n = unat (ap_count P)
      in case as_main c sh of
           AriaCoordinating handled \<Rightarrow>
             (if handled = own_coordinators P sh
              then Some (set_main sh (AriaPublishDone (all_shards (ap_layout P))) c) else None)
         | AriaPublishDone [] \<Rightarrow> Some (set_main sh (AriaAwaitDone WaitChecking) c)
         | AriaPublishDone (target # rest) \<Rightarrow>
             (let (res, c') = broadcast_aria_execution_done P sh target c
              in Some (case res of Err err \<Rightarrow> fail_shard sh err c' | Ok _ \<Rightarrow> set_main sh (AriaPublishDone rest) c'))
         | AriaAwaitDone w \<Rightarrow> map_option (\<lambda>m. set_main sh m c) (wait_execution_done e n w)
         | AriaFindFailures \<Rightarrow>
             Some (set_main sh (AriaPublishFailures (local_failed_indices e) (all_shards (ap_layout P))) c)
         | AriaPublishFailures failed [] \<Rightarrow> Some (set_main sh (AriaAwaitFailures WaitChecking) c)
         | AriaPublishFailures failed (target # rest) \<Rightarrow>
             (let (res, c') = broadcast_aria_local_failures P sh failed target c
              in Some (case res of Err err \<Rightarrow> fail_shard sh err c'
                       | Ok _ \<Rightarrow> set_main sh (AriaPublishFailures failed rest) c'))
         | AriaAwaitFailures w \<Rightarrow> map_option (\<lambda>m. set_main sh m c) (wait_failure_reports e n w)
         | AriaInstall failed \<Rightarrow> Some (install_aria_batch P sh failed c)
         | AriaInstalled _ _ \<Rightarrow> None)"

text \<open>
  The steps: a coordinator goes on, also when its batch has failed; the batch of a shard goes on; it
  takes the result of a coordinator, in any order.
\<close>

inductive aria_step :: "aria_params \<Rightarrow> aria_system \<Rightarrow> aria_system \<Rightarrow> bool" for P where
  coordinate:
    "i < length (txs (ap_batch P)) \<Longrightarrow> coordinator_step P i c = Some c' \<Longrightarrow> aria_step P c c'"
| proceed:
    "sh < ap_count P \<Longrightarrow> as_failed c sh = None \<Longrightarrow> main_step P sh c = Some c' \<Longrightarrow> aria_step P c c'"
| collect:
    "sh < ap_count P \<Longrightarrow> as_failed c sh = None \<Longrightarrow> as_main c sh = AriaCoordinating handled \<Longrightarrow>
     i \<in> own_coordinators P sh - handled \<Longrightarrow> as_coord c i = CoordDone (Ok ()) \<Longrightarrow>
     aria_step P c (set_main sh (AriaCoordinating (insert i handled)) c)"
| collect_error:
    "sh < ap_count P \<Longrightarrow> as_failed c sh = None \<Longrightarrow> as_main c sh = AriaCoordinating handled \<Longrightarrow>
     i \<in> own_coordinators P sh - handled \<Longrightarrow> as_coord c i = CoordDone (Err e) \<Longrightarrow>
     aria_step P c (fail_shard sh e c)"

definition aria_prologue ::
    "shard_layout \<Rightarrow> shard_id \<Rightarrow> batch \<Rightarrow> tx_result_registry \<Rightarrow> tx_result_registry result" where
  "aria_prologue L sh b results =
     rbind (validate_batch_order b) (\<lambda>_.
     Ok (fold (\<lambda>tx. announce_result (aria_result_shard (tx_id tx) (shard_count L)) sh (tx_id tx)) (txs b) results))"

definition aria_initial ::
    "aria_params \<Rightarrow> (shard_id \<Rightarrow> fs_state) \<Rightarrow> (shard_id \<Rightarrow> aria_registry) \<Rightarrow> (shard_id \<Rightarrow> tx_result_registry)
      \<Rightarrow> (shard_id \<Rightarrow> (batch_id \<rightharpoonup> reorder_record)) \<Rightarrow> aria_system" where
  "aria_initial P stores regs results reorders =
     \<lparr>as_store = stores, as_registry = regs, as_results = results, as_reorders = reorders,
      as_coord = (\<lambda>i. aria_start_coordinator (ap_tx P i)), as_main = (\<lambda>_. AriaCoordinating {}),
      as_failed = Map.empty\<rparr>"

lemma set_main_simps [simp]:
  "as_store (set_main sh m c) = as_store c" "as_registry (set_main sh m c) = as_registry c"
  "as_results (set_main sh m c) = as_results c" "as_reorders (set_main sh m c) = as_reorders c"
  "as_coord (set_main sh m c) = as_coord c" "as_failed (set_main sh m c) = as_failed c"
  "as_main (set_main sh m c) = (as_main c)(sh := m)"
  by (simp_all add: set_main_def)

lemma set_coord_simps [simp]:
  "as_store (set_coord i s c) = as_store c" "as_registry (set_coord i s c) = as_registry c"
  "as_results (set_coord i s c) = as_results c" "as_reorders (set_coord i s c) = as_reorders c"
  "as_main (set_coord i s c) = as_main c" "as_failed (set_coord i s c) = as_failed c"
  "as_coord (set_coord i s c) = (as_coord c)(i := s)"
  by (simp_all add: set_coord_def)

end
