(* ===== verification/Service.thy ===== *)
theory Service
  imports Profile Sequencer Aria
begin

text \<open>
  A node as its clients and peers see it: the runtime of a shard and the loop that executes its batches
  (\<open>ShardRuntime\<close>, \<open>run_batch_executor\<close> of \<open>src/engine.rs\<close>), and the handlers of the remote procedures
  (\<open>src/service.rs\<close>). A handler decodes the request, calls the runtime and encodes the answer; an error
  is a status. The transport is not modelled: a response is the value the client gets. The three
  schedulers are transition systems in their own theories, so their result is an argument here.
\<close>

section \<open>The runtime of a shard\<close>

datatype scheduler_kind = KindCalvinLocking | KindSccOnline | KindAria

record shard_runtime =
  rt_node_id :: string
  rt_shard_id :: shard_id
  rt_layout :: shard_layout
  rt_store :: fs_state
  rt_mailboxes :: mailbox_registry
  rt_aria :: aria_registry
  rt_results :: tx_result_registry
  rt_reorders :: "batch_id \<rightharpoonup> reorder_record"
  rt_profiles :: "(batch_id \<times> shard_id) \<rightharpoonup> scheduler_profile_record"
  rt_profile_enabled :: bool
  rt_scheduler :: scheduler_kind

record batch_execution_summary =
  bes_batch_id :: batch_id
  bes_shard_id :: shard_id
  bes_tx_results :: "tx_result_record list"

record profiled_batch_execution =
  pbe_summary :: batch_execution_summary
  pbe_profile :: "scheduler_profile_record option"

text \<open>\<open>None\<close> is the panic of \<open>ShardLayout::new\<close>.\<close>

definition shard_runtime_new ::
    "string \<Rightarrow> shard_id \<Rightarrow> u64 \<Rightarrow> scheduler_kind \<Rightarrow> bool \<Rightarrow> shard_runtime option" where
  "shard_runtime_new node shard n sched profile_enabled =
     map_option (\<lambda>L. \<lparr>rt_node_id = node, rt_shard_id = shard, rt_layout = L, rt_store = Map.empty,
         rt_mailboxes = mailbox_registry_new, rt_aria = Map.empty, rt_results = tx_result_registry_new,
         rt_reorders = Map.empty, rt_profiles = Map.empty, rt_profile_enabled = profile_enabled, rt_scheduler = sched\<rparr>)
       (layout_new n)"

definition route_local_read_result :: "local_read_result \<Rightarrow> shard_runtime \<Rightarrow> unit result \<times> shard_runtime" where
  "route_local_read_result m rt =
     (let (r, mail) = route m (rt_mailboxes rt) in (r, rt\<lparr>rt_mailboxes := mail\<rparr>))"

definition runtime_aria_read_snapshot ::
    "batch_id \<Rightarrow> nat \<Rightarrow> key \<Rightarrow> shard_runtime \<Rightarrow> read_value result \<times> shard_runtime" where
  "runtime_aria_read_snapshot bid tx_index k rt =
     (let (r, reg) = read_snapshot (rt_layout rt) (rt_shard_id rt) (rt_store rt) bid tx_index k (rt_aria rt)
      in (r, rt\<lparr>rt_aria := reg\<rparr>))"

definition route_aria_stage_outcome :: "aria_stage_outcome \<Rightarrow> shard_runtime \<Rightarrow> unit result \<times> shard_runtime" where
  "route_aria_stage_outcome out rt =
     (let (r, reg) = stage_outcome (rt_layout rt) (rt_shard_id rt) out (rt_aria rt) in (r, rt\<lparr>rt_aria := reg\<rparr>))"

definition report_aria_execution_done ::
    "batch_id \<Rightarrow> shard_id \<Rightarrow> shard_runtime \<Rightarrow> unit result \<times> shard_runtime" where
  "report_aria_execution_done bid from_shard rt =
     (let (r, reg) = record_execution_done bid from_shard (shard_count (rt_layout rt)) (rt_aria rt)
      in (r, rt\<lparr>rt_aria := reg\<rparr>))"

definition report_aria_local_failures ::
    "batch_id \<Rightarrow> shard_id \<Rightarrow> nat set \<Rightarrow> shard_runtime \<Rightarrow> unit result \<times> shard_runtime" where
  "report_aria_local_failures bid from_shard failed rt =
     (let (r, reg) = record_local_failures bid from_shard failed (shard_count (rt_layout rt)) (rt_aria rt)
      in (r, rt\<lparr>rt_aria := reg\<rparr>))"

text \<open>The result is \<open>None\<close> while the client waits.\<close>

definition runtime_get_tx_result :: "tx_id \<Rightarrow> shard_runtime \<Rightarrow> client_tx_result option \<times> shard_runtime" where
  "runtime_get_tx_result tx rt =
     (let (r, reg) = registry_wait tx (rt_results rt) in (r, rt\<lparr>rt_results := reg\<rparr>))"

text \<open>The values of a \<open>BTreeMap\<close>, in the order of its keys.\<close>

definition map_values :: "('k::linorder \<rightharpoonup> 'v) \<Rightarrow> 'v list" where
  "map_values m = map (\<lambda>k. the (m k)) (sorted_list_of_set (dom m))"

definition dump_scc_reorders :: "shard_runtime \<Rightarrow> reorder_record list" where
  "dump_scc_reorders rt = map_values (rt_reorders rt)"

definition dump_scheduler_profiles :: "shard_runtime \<Rightarrow> scheduler_profile_record list" where
  "dump_scheduler_profiles rt = map_values (rt_profiles rt)"

section \<open>The batch executor\<close>

definition cleanup_runtime :: "batch_id \<Rightarrow> shard_runtime \<Rightarrow> shard_runtime" where
  "cleanup_runtime bid rt =
     rt\<lparr>rt_mailboxes := cleanup_batch bid (rt_mailboxes rt), rt_aria := aria_cleanup_batch bid (rt_aria rt)\<rparr>"

text \<open>
  The scheduler is an argument: its result, and the runtime as it leaves it. So are the two durations.
\<close>

definition execute_batch_on_shard ::
    "(scheduler_kind \<Rightarrow> batch \<Rightarrow> shard_runtime \<Rightarrow> profiled_batch_execution result \<times> shard_runtime) \<Rightarrow> u64 \<Rightarrow> u64
      \<Rightarrow> batch \<Rightarrow> shard_runtime \<Rightarrow> batch_execution_summary result \<times> shard_runtime" where
  "execute_batch_on_shard execute cleaned spent b rt =
     (let (res, rt1) = execute (rt_scheduler rt) b rt;
          rt2 = cleanup_runtime (batch_id b) rt1
      in case res of
           Err e \<Rightarrow> (Err e, rt2)
         | Ok profiled \<Rightarrow>
             (case pbe_profile profiled of
                None \<Rightarrow> (Ok (pbe_summary profiled), rt2)
              | Some p \<Rightarrow>
                  (let p' = p\<lparr>prof_timings := (prof_timings p)\<lparr>cleanup_ns := cleaned, total_ns := spent\<rparr>\<rparr>
                   in (Ok (pbe_summary profiled),
                       rt2\<lparr>rt_profiles := (rt_profiles rt2)((prof_batch_id p', prof_shard_id p') \<mapsto> p')\<rparr>))))"

text \<open>The jobs in the order of the queue, with the durations of each.\<close>

fun run_batch_executor ::
    "(scheduler_kind \<Rightarrow> batch \<Rightarrow> shard_runtime \<Rightarrow> profiled_batch_execution result \<times> shard_runtime)
      \<Rightarrow> (batch \<times> u64 \<times> u64) list \<Rightarrow> shard_runtime \<Rightarrow> batch_execution_summary result list \<times> shard_runtime" where
  "run_batch_executor execute [] rt = ([], rt)"
| "run_batch_executor execute ((b, cleaned, spent) # jobs) rt =
     (let (response, rt1) = execute_batch_on_shard execute cleaned spent b rt;
          (responses, rt2) = run_batch_executor execute jobs rt1
      in (response # responses, rt2))"

section \<open>Requests and responses\<close>

record local_read_request =
  lr_batch_id :: u64
  lr_tx_id :: u64
  lr_from_shard :: u64
  lr_reads :: "pb_read_entry list"
  lr_phase :: i32
  lr_status :: i32

record aria_read_request =
  ar_batch_id :: u64
  ar_tx_index :: u32
  ar_tx_id :: u64
  ar_from_shard :: u64
  ar_key :: string

record aria_stage_request =
  sg_batch_id :: u64
  sg_tx_index :: u32
  sg_tx_id :: u64
  sg_from_shard :: u64
  sg_result :: i32
  sg_writes :: "pb_write_entry list"
  sg_is_result_shard :: bool

record execution_done_request =
  ed_batch_id :: u64
  ed_from_shard :: u64

record local_failures_request =
  lf_batch_id :: u64
  lf_from_shard :: u64
  lf_failed_indices :: "u32 list"

record ping_response =
  pr_node_id :: string
  pr_shard_id :: u64

record execute_batch_response =
  er_batch_id :: u64
  er_shard_id :: u64
  er_tx_results :: "pb_tx_result_record list"

record get_tx_result_response =
  gr_tx_id :: u64
  gr_shard_id :: u64
  gr_status :: i32
  gr_result :: i32

record dump_state_response =
  ds_entries :: "pb_inode_entry list"
  ds_scc_reorders :: "pb_reorder_record list"
  ds_scheduler_profiles :: "pb_profile_record list"

record submit_tx_response =
  st_tx_id :: u64
  st_result_shard :: u64

record submit_batch_response =
  sb_batch_id :: u64
  sb_tx_ids :: "u64 list"
  sb_tx_results :: "pb_tx_result_record list"

type_synonym 'a reply = "status_code + 'a"

definition to_reply :: "('a \<Rightarrow> 'b) \<Rightarrow> 'a result \<Rightarrow> 'b reply" where
  "to_reply encode r = map_sum status_of_error encode r"

text \<open>A handler goes on with the decoded request or answers with the status of the decoding error.\<close>

definition accept :: "'a result \<Rightarrow> ('a \<Rightarrow> 's \<Rightarrow> 'b reply \<times> 's) \<Rightarrow> 's \<Rightarrow> 'b reply \<times> 's" where
  "accept request serve s = (case request of Err e \<Rightarrow> (Inl (status_of_error e), s) | Ok x \<Rightarrow> serve x s)"

section \<open>The service of a shard\<close>

definition service_ping :: "shard_runtime \<Rightarrow> ping_response reply \<times> shard_runtime" where
  "service_ping rt = (Inr \<lparr>pr_node_id = rt_node_id rt, pr_shard_id = rt_shard_id rt\<rparr>, rt)"

text \<open>The batch goes into the queue of the executor; its summary comes back.\<close>

definition execute_batch_request :: "pb_batch option \<Rightarrow> batch reply" where
  "execute_batch_request request =
     (case request of None \<Rightarrow> Inl InvalidArgument | Some b \<Rightarrow> to_reply id (batch_from_proto b))"

definition execute_batch_reply :: "batch_execution_summary result \<Rightarrow> execute_batch_response reply" where
  "execute_batch_reply summary = to_reply (\<lambda>s. \<lparr>er_batch_id = bes_batch_id s, er_shard_id = bes_shard_id s,
     er_tx_results = tx_result_records_to_proto (bes_tx_results s)\<rparr>) summary"

definition local_read_from_request :: "local_read_request \<Rightarrow> local_read_result result" where
  "local_read_from_request req =
     rbind (read_entries_from_proto (lr_reads req)) (\<lambda>rs.
     rbind (read_phase_from_i32 (lr_phase req)) (\<lambda>phase.
     rbind (local_read_status_from_i32 (lr_status req)) (\<lambda>status.
     Ok \<lparr>lrr_batch_id = lr_batch_id req, lrr_tx_id = lr_tx_id req, lrr_phase = phase, lrr_from_shard = lr_from_shard req,
         lrr_status = status, lrr_reads = rs\<rparr>)))"

definition service_local_read_result :: "local_read_request \<Rightarrow> shard_runtime \<Rightarrow> unit reply \<times> shard_runtime" where
  "service_local_read_result req =
     accept (local_read_from_request req) (\<lambda>m rt.
       let (r, rt') = route_local_read_result m rt in (to_reply id r, rt'))"

definition service_aria_read_snapshot ::
    "aria_read_request \<Rightarrow> shard_runtime \<Rightarrow> pb_read_entry option reply \<times> shard_runtime" where
  "service_aria_read_snapshot req =
     accept (key_new (ar_key req)) (\<lambda>k rt.
       let (r, rt') = runtime_aria_read_snapshot (ar_batch_id req) (unat (ar_tx_index req)) k rt
       in (to_reply (\<lambda>v. Some (read_entry_to_proto k v)) r, rt'))"

definition stage_outcome_from_request :: "aria_stage_request \<Rightarrow> aria_stage_outcome result" where
  "stage_outcome_from_request req =
     rbind (write_entries_from_proto (sg_writes req)) (\<lambda>ws.
     rbind (tx_result_from_i32 (sg_result req)) (\<lambda>res.
     Ok \<lparr>aso_batch_id = sg_batch_id req, aso_tx_index = unat (sg_tx_index req), aso_tx_id = sg_tx_id req,
         aso_from_shard = sg_from_shard req, aso_result = res, aso_writes = ws,
         aso_is_result_shard = sg_is_result_shard req\<rparr>))"

definition service_aria_stage_outcome :: "aria_stage_request \<Rightarrow> shard_runtime \<Rightarrow> unit reply \<times> shard_runtime" where
  "service_aria_stage_outcome req =
     accept (stage_outcome_from_request req) (\<lambda>out rt.
       let (r, rt') = route_aria_stage_outcome out rt in (to_reply id r, rt'))"

definition service_report_execution_done ::
    "execution_done_request \<Rightarrow> shard_runtime \<Rightarrow> unit reply \<times> shard_runtime" where
  "service_report_execution_done req rt =
     (let (r, rt') = report_aria_execution_done (ed_batch_id req) (ed_from_shard req) rt in (to_reply id r, rt'))"

definition service_report_local_failures ::
    "local_failures_request \<Rightarrow> shard_runtime \<Rightarrow> unit reply \<times> shard_runtime" where
  "service_report_local_failures req rt =
     (let (r, rt') = report_aria_local_failures (lf_batch_id req) (lf_from_shard req)
            (unat ` set (lf_failed_indices req)) rt
      in (to_reply id r, rt'))"

text \<open>\<open>None\<close>: the call does not return yet. The codes are those of \<open>TxResultStatus\<close> and \<open>TxResult\<close>.\<close>

definition service_get_tx_result ::
    "tx_id \<Rightarrow> shard_runtime \<Rightarrow> get_tx_result_response reply option \<times> shard_runtime" where
  "service_get_tx_result tx rt =
     (let (r, rt') = runtime_get_tx_result tx rt
      in (map_option (\<lambda>res.
            let (status, code) = (case res of
                  ClientReady tr \<Rightarrow> (1, tx_result_to_i32 tr)
                | ClientNotResponsible \<Rightarrow> (2, 0))
            in Inr \<lparr>gr_tx_id = tx, gr_shard_id = rt_shard_id rt', gr_status = status, gr_result = code\<rparr>) r, rt'))"

definition service_dump_state :: "shard_runtime \<Rightarrow> dump_state_response reply \<times> shard_runtime" where
  "service_dump_state rt =
     (Inr \<lparr>ds_entries = inode_entries_to_proto (rt_store rt),
           ds_scc_reorders = scc_reorder_records_to_proto (dump_scc_reorders rt),
           ds_scheduler_profiles = profile_records_to_proto (dump_scheduler_profiles rt)\<rparr>, rt)"

section \<open>The service of the sequencer\<close>

definition sequencer_service_ping :: "string \<Rightarrow> ping_response reply" where
  "sequencer_service_ping node = Inr \<lparr>pr_node_id = node, pr_shard_id = 0\<rparr>"

definition service_submit_tx :: "pb_fs_op option \<Rightarrow> sequencer \<Rightarrow> submit_tx_response reply \<times> sequencer" where
  "service_submit_tx request =
     accept (fs_op_from_proto request) (\<lambda>fs s.
       let (ack, s') = handle_submit_tx fs s
       in (to_reply (\<lambda>a. \<lparr>st_tx_id = ack_tx_id a, st_result_shard = ack_result_shard a\<rparr>) ack, s'))"

text \<open>The command for the actor; the summary comes back when the batch was executed.\<close>

definition submit_batch_request :: "pb_fs_op list \<Rightarrow> fs_op list reply" where
  "submit_batch_request ops = to_reply id (traverse (\<lambda>fs. fs_op_from_proto (Some fs)) ops)"

definition submit_batch_reply :: "submit_batch_summary result \<Rightarrow> submit_batch_response reply" where
  "submit_batch_reply summary = to_reply (\<lambda>s. \<lparr>sb_batch_id = sum_batch_id s, sb_tx_ids = sum_tx_ids s,
     sb_tx_results = tx_result_records_to_proto (sum_tx_results s)\<rparr>) summary"

section \<open>The calls of a peer\<close>

text \<open>The requests that \<open>src/engine.rs\<close> builds, and what it makes of the answers. A status is an error of the transport.\<close>

definition local_read_request_of :: "local_read_result \<Rightarrow> local_read_request" where
  "local_read_request_of m =
     \<lparr>lr_batch_id = lrr_batch_id m, lr_tx_id = lrr_tx_id m, lr_from_shard = lrr_from_shard m,
      lr_reads = read_entries_to_proto (lrr_reads m), lr_phase = read_phase_to_i32 (lrr_phase m),
      lr_status = local_read_status_to_i32 (lrr_status m)\<rparr>"

definition aria_read_request_of :: "batch_id \<Rightarrow> nat \<Rightarrow> tx_id \<Rightarrow> shard_id \<Rightarrow> key \<Rightarrow> aria_read_request" where
  "aria_read_request_of bid tx_index tx me k =
     \<lparr>ar_batch_id = bid, ar_tx_index = word_of_nat tx_index, ar_tx_id = tx, ar_from_shard = me, ar_key = as_str k\<rparr>"

definition stage_request_of :: "aria_stage_outcome \<Rightarrow> aria_stage_request" where
  "stage_request_of out =
     \<lparr>sg_batch_id = aso_batch_id out, sg_tx_index = word_of_nat (aso_tx_index out), sg_tx_id = aso_tx_id out,
      sg_from_shard = aso_from_shard out, sg_result = tx_result_to_i32 (aso_result out),
      sg_writes = write_entries_to_proto (aso_writes out), sg_is_result_shard = aso_is_result_shard out\<rparr>"

definition execution_done_request_of :: "batch_id \<Rightarrow> shard_id \<Rightarrow> execution_done_request" where
  "execution_done_request_of bid me = \<lparr>ed_batch_id = bid, ed_from_shard = me\<rparr>"

definition local_failures_request_of :: "batch_id \<Rightarrow> shard_id \<Rightarrow> nat set \<Rightarrow> local_failures_request" where
  "local_failures_request_of bid me failed =
     \<lparr>lf_batch_id = bid, lf_from_shard = me, lf_failed_indices = map word_of_nat (sorted_list_of_set failed)\<rparr>"

definition remote :: "'a reply \<Rightarrow> 'a result" where
  "remote r = (case r of Inl _ \<Rightarrow> Err (TonicStatus ''remote call failed'') | Inr x \<Rightarrow> Ok x)"

definition aria_read_reply :: "key \<Rightarrow> pb_read_entry option reply \<Rightarrow> read_value result" where
  "aria_read_reply k response =
     rbind (remote response) (\<lambda>entry.
     rbind (read_entry_from_proto entry) (\<lambda>(returned_key, v).
     if returned_key \<noteq> k then Err (InvalidBatch ''Aria read returned another key'') else Ok v))"

text \<open>The request that hands a batch to a shard, and what the dispatcher makes of the response.\<close>

definition execute_batch_records :: "execute_batch_response reply \<Rightarrow> tx_result_record list result" where
  "execute_batch_records response = rbind (remote response) (\<lambda>r. tx_result_records_from_proto (er_tx_results r))"

section \<open>Decoding errors\<close>

definition refuses :: "'a result \<Rightarrow> bool" where
  "refuses r \<longleftrightarrow> (\<forall>e. r = Err e \<longrightarrow> status_of_error e = InvalidArgument)"

lemma refuses_simps [simp]:
  "refuses (Ok x)" "refuses (Err e) \<longleftrightarrow> status_of_error e = InvalidArgument"
  by (simp_all add: refuses_def)

lemma refuses_rbind: "refuses r \<Longrightarrow> (\<And>x. r = Ok x \<Longrightarrow> refuses (f x)) \<Longrightarrow> refuses (rbind r f)"
  by (cases r) auto

lemma refuses_traverse: "(\<And>x. refuses (f x)) \<Longrightarrow> refuses (traverse f xs)"
  by (induction xs) (auto intro!: refuses_rbind)

lemma refuses_fold: "(\<And>x s. refuses (f x s)) \<Longrightarrow> refuses (fold_res f xs s)"
  by (induction xs arbitrary: s) (auto intro!: refuses_rbind)

lemma refuses_key: "refuses (key_new p)"
  by (simp add: key_new_def validate_path_def)

lemma refuses_codes:
  "refuses (tx_result_from_i32 v)" "refuses (read_phase_from_i32 v)" "refuses (local_read_status_from_i32 v)"
  "refuses (node_kind_from_i32 v)"
  by (simp_all add: tx_result_from_i32_def read_phase_from_i32_def local_read_status_from_i32_def node_kind_from_i32_def)

lemma refuses_inode: "refuses (inode_from_proto p)"
  by (auto simp: inode_from_proto_def intro!: refuses_rbind refuses_codes split: option.split)

lemma refuses_fs_op: "refuses (fs_op_from_proto p)"
  by (auto simp: fs_op_from_proto_def intro!: refuses_rbind refuses_key split: option.split pb_op.split)

lemma refuses_batch: "refuses (batch_from_proto p)"
  unfolding batch_from_proto_def ordered_tx_from_proto_def keys_from_proto_def
  by (auto intro!: refuses_rbind refuses_traverse refuses_fold refuses_key refuses_fs_op)

lemma refuses_read_entry: "refuses (read_entry_from_proto p)"
  unfolding read_entry_from_proto_def read_value_from_proto_def
  by (auto intro!: refuses_rbind refuses_key refuses_inode split: option.split pb_value.split)

lemma refuses_read_entries: "refuses (read_entries_from_proto es)"
  unfolding read_entries_from_proto_def insert_new_def
  by (auto intro!: refuses_rbind refuses_fold refuses_read_entry split: prod.split)

lemma refuses_write_entries: "refuses (write_entries_from_proto es)"
  unfolding write_entries_from_proto_def write_entry_from_proto_def
  by (auto intro!: refuses_rbind refuses_traverse refuses_key refuses_inode split: option.split pb_write_op.split)

lemma refuses_local_read: "refuses (local_read_from_request req)"
  unfolding local_read_from_request_def by (auto intro!: refuses_rbind refuses_read_entries refuses_codes)

lemma refuses_stage: "refuses (stage_outcome_from_request req)"
  unfolding stage_outcome_from_request_def by (auto intro!: refuses_rbind refuses_write_entries refuses_codes)

lemma accept_refused: "refuses r \<Longrightarrow> isl r \<Longrightarrow> accept r f s = (Inl InvalidArgument, s)"
  by (cases r) (auto simp: accept_def)

lemma accept_Ok: "accept (Ok x) f s = f x s"
  by (simp add: accept_def)

text \<open>C26: A request that does not decode is answered with \<open>invalid_argument\<close> and changes nothing, in every
  handler of the shard and of the sequencer: no partly decoded batch, message or outcome reaches the engine.\<close>

theorem malformed_requests_change_nothing:
  "(isl (local_read_from_request lr) \<longrightarrow> service_local_read_result lr rt = (Inl InvalidArgument, rt)) \<and>
   (isl (key_new (ar_key ar)) \<longrightarrow> service_aria_read_snapshot ar rt = (Inl InvalidArgument, rt)) \<and>
   (isl (stage_outcome_from_request sg) \<longrightarrow> service_aria_stage_outcome sg rt = (Inl InvalidArgument, rt)) \<and>
   (execute_batch_request p = Inl InvalidArgument \<longleftrightarrow> (\<forall>b. p \<noteq> Some b \<or> isl (batch_from_proto b))) \<and>
   (isl (fs_op_from_proto fs) \<longrightarrow> service_submit_tx fs sq = (Inl InvalidArgument, sq)) \<and>
   (submit_batch_request ops = Inl InvalidArgument \<longleftrightarrow> (\<exists>op \<in> set ops. isl (fs_op_from_proto (Some op))))"
proof -
  have b: "to_reply id r = Inl InvalidArgument \<longleftrightarrow> isl r" if "refuses r" for r :: "'x result"
    using that by (cases r) (auto simp: to_reply_def)
  have t: "isl (traverse f xs) \<longleftrightarrow> (\<exists>x \<in> set xs. isl (f x))" for f :: "'x \<Rightarrow> 'y result" and xs
  proof (induction xs)
    case (Cons x xs)
    then show ?case by (cases "f x"; cases "traverse f xs") auto
  qed simp
  show ?thesis
    unfolding service_local_read_result_def service_aria_read_snapshot_def service_aria_stage_outcome_def service_submit_tx_def
      submit_batch_request_def execute_batch_request_def
    by (auto simp: accept_refused refuses_local_read refuses_key refuses_stage refuses_fs_op b refuses_batch refuses_traverse t
        split: option.splits)
qed

definition node0 :: shard_runtime where
  "node0 = the (shard_runtime_new ''shard-0'' 0 1 KindAria False)"

definition relative_read :: aria_read_request where
  "relative_read = \<lparr>ar_batch_id = 1, ar_tx_index = 0, ar_tx_id = 1, ar_from_shard = 0, ar_key = ''a''\<rparr>"

theorem malformed_requests_change_nothing_witness:
  "service_aria_read_snapshot relative_read node0 = (Inl InvalidArgument, node0)"
proof -
  have "isl (key_new (ar_key relative_read))"
    by (simp add: relative_read_def key_new_def validate_path_def starts_with_def)
  then show ?thesis using malformed_requests_change_nothing [of _ node0 relative_read] by blast
qed

section \<open>Remote calls\<close>

text \<open>The runtime of a shard of the optimistic system, and the system after a call at it.\<close>

definition runtime_of :: "aria_params \<Rightarrow> shard_id \<Rightarrow> aria_system \<Rightarrow> shard_runtime \<Rightarrow> bool" where
  "runtime_of P sh c rt \<longleftrightarrow> rt_layout rt = ap_layout P \<and> rt_shard_id rt = sh \<and> rt_store rt = as_store c sh \<and>
     rt_aria rt = as_registry c sh"

definition after_call :: "shard_id \<Rightarrow> 'a result \<Rightarrow> shard_runtime \<Rightarrow> aria_system \<Rightarrow> 'a result \<times> aria_system" where
  "after_call target r rt c =
     (let c' = c\<lparr>as_registry := (as_registry c)(target := rt_aria rt)\<rparr>
      in (r, if isl r then c' else set_main target (wake (as_main c target)) c'))"

lemma remote_simps [simp]:
  "remote (to_reply f (Ok x)) = Ok (f x)" "remote (to_reply f (Err e)) = Err (TonicStatus ''remote call failed'')"
  by (simp_all add: remote_def to_reply_def)

lemma key_new_as_str_valid: "valid_key k \<Longrightarrow> key_new (as_str k) = Ok k"
  by (simp add: key_new_Ok_iff)

lemma stage_outcome_decoded:
  "wire_keys (write_key ` set (aso_writes out)) \<Longrightarrow>
   stage_outcome_from_request (stage_request_of out) = Ok (out\<lparr>aso_tx_index := wire_index (aso_tx_index out)\<rparr>)"
  by (simp add: stage_outcome_from_request_def stage_request_of_def write_entries_exact [THEN iffD2]
      tx_result_code [THEN iffD2] wire_index_def)

lemma local_read_exact:
  "local_read_from_request req = Ok m \<longleftrightarrow>
     wire_keys (dom (lrr_reads m)) \<and> mset (lr_reads req) = mset (lr_reads (local_read_request_of m)) \<and>
     req\<lparr>lr_reads := []\<rparr> = (local_read_request_of m)\<lparr>lr_reads := []\<rparr>"
  by (cases req; cases m)
    (auto simp: local_read_from_request_def local_read_request_of_def res_simps read_entries_exact read_phase_code
      local_read_status_code)

lemma local_read_decoded: "wire_keys (dom (lrr_reads m)) \<Longrightarrow> local_read_from_request (local_read_request_of m) = Ok m"
  by (simp add: local_read_exact)

text \<open>A result as the caller sees it over the wire.\<close>

definition over_wire :: "'a result \<Rightarrow> 'a result" where
  "over_wire r = (case r of Ok x \<Rightarrow> Ok x | Err _ \<Rightarrow> Err (TonicStatus ''remote call failed''))"

lemma remote_to_reply: "remote (to_reply id r) = over_wire r"
  by (cases r) (simp_all add: over_wire_def)

lemma call_by_service:
  assumes "target \<noteq> me" "target \<in> ap_peers P" "rt_aria rt' = snd (f (as_registry c target))"
  shows "call_registry P me target f c = after_call target (over_wire (fst (f (as_registry c target)))) rt' c"
  using assms
  by (cases "f (as_registry c target)"; cases "fst (f (as_registry c target))")
    (auto simp: call_registry_def after_call_def over_wire_def Let_def)

lemma read_snapshot_by_service:
  assumes rt: "runtime_of P target c rt" and t: "target \<noteq> me" "target \<in> ap_peers P" and k: "valid_key k"
  shows "aria_read_snapshot_remote P me i target k c =
    (let (response, rt') = service_aria_read_snapshot (aria_read_request_of (ap_id P) i tx me k) rt
     in after_call target (aria_read_reply k response) rt' c)"
proof -
  obtain r reg where r: "read_snapshot (ap_layout P) target (as_store c target) (ap_id P) (wire_index i) k (as_registry c target) = (r, reg)"
    by fastforce
  have s: "service_aria_read_snapshot (aria_read_request_of (ap_id P) i tx me k) rt
      = (to_reply (\<lambda>v. Some (read_entry_to_proto k v)) r, rt\<lparr>rt_aria := reg\<rparr>)"
    using rt r k by (simp add: service_aria_read_snapshot_def aria_read_request_of_def accept_Ok key_new_as_str_valid
        runtime_aria_read_snapshot_def runtime_of_def wire_index_def)
  have a: "aria_read_reply k (to_reply (\<lambda>v. Some (read_entry_to_proto k v)) r)
      = over_wire r"
    using k by (cases r) (simp_all add: over_wire_def aria_read_reply_def read_entry_exact [THEN iffD2])
  show ?thesis unfolding aria_read_snapshot_remote_def s prod.case Let_def a
    by (subst call_by_service [OF t]) (simp_all add: r)
qed

lemma stage_outcome_by_service:
  assumes rt: "runtime_of P target c rt" and t: "target \<noteq> me" "target \<in> ap_peers P"
    and w: "wire_keys (write_key ` set (aso_writes out))"
  shows "send_aria_stage_outcome P me target out c =
    (let (response, rt') = service_aria_stage_outcome (stage_request_of out) rt in after_call target (remote response) rt' c)"
proof -
  let ?out = "out\<lparr>aso_tx_index := wire_index (aso_tx_index out)\<rparr>"
  obtain r reg where r: "stage_outcome (ap_layout P) target ?out (as_registry c target) = (r, reg)" by fastforce
  have s: "service_aria_stage_outcome (stage_request_of out) rt = (to_reply id r, rt\<lparr>rt_aria := reg\<rparr>)"
    using rt r w by (simp add: service_aria_stage_outcome_def stage_outcome_decoded accept_Ok route_aria_stage_outcome_def
        runtime_of_def)
  show ?thesis unfolding send_aria_stage_outcome_def s prod.case Let_def remote_to_reply
    by (subst call_by_service [OF t]) (simp_all add: r)
qed

lemma execution_done_by_service:
  assumes rt: "runtime_of P target c rt" and t: "target \<noteq> me" "target \<in> ap_peers P"
  shows "broadcast_aria_execution_done P me target c =
    (let (response, rt') = service_report_execution_done (execution_done_request_of (ap_id P) me) rt
     in after_call target (remote response) rt' c)"
proof -
  obtain r reg where r: "record_execution_done (ap_id P) me (ap_count P) (as_registry c target) = (r, reg)" by fastforce
  have s: "service_report_execution_done (execution_done_request_of (ap_id P) me) rt = (to_reply id r, rt\<lparr>rt_aria := reg\<rparr>)"
    using rt r by (simp add: service_report_execution_done_def execution_done_request_of_def report_aria_execution_done_def
        runtime_of_def)
  show ?thesis unfolding broadcast_aria_execution_done_def s prod.case Let_def remote_to_reply
    by (subst call_by_service [OF t]) (simp_all add: r)
qed

lemma local_failures_by_service:
  assumes rt: "runtime_of P target c rt" and t: "target \<noteq> me" "target \<in> ap_peers P" and f: "finite failed"
  shows "broadcast_aria_local_failures P me failed target c =
    (let (response, rt') = service_report_local_failures (local_failures_request_of (ap_id P) me failed) rt
     in after_call target (remote response) rt' c)"
proof -
  obtain r reg where r: "record_local_failures (ap_id P) me (wire_index ` failed) (ap_count P) (as_registry c target) = (r, reg)"
    by fastforce
  have i: "unat ` set (map (word_of_nat :: nat \<Rightarrow> u32) (sorted_list_of_set failed)) = wire_index ` failed"
    using f by (simp add: wire_index_def image_image)
  have s: "service_report_local_failures (local_failures_request_of (ap_id P) me failed) rt = (to_reply id r, rt\<lparr>rt_aria := reg\<rparr>)"
    using rt r i by (simp add: service_report_local_failures_def local_failures_request_of_def report_aria_local_failures_def
        runtime_of_def del: set_map)
  show ?thesis unfolding broadcast_aria_local_failures_def s prod.case Let_def remote_to_reply
    by (subst call_by_service [OF t]) (simp_all add: r)
qed

text \<open>C24: The transitions of the optimistic scheduler at another shard are the remote calls of the program: the
  caller's request, the handler of the target's service on its runtime, and the caller's reading of the
  answer give the result and the state of the registry operation, with an index cut to 32 bits and an
  error seen as a failed call. Reads and batches arrive as they were sent, and the records of a batch
  come back unchanged.\<close>

theorem remote_calls_go_through_the_service:
  assumes "runtime_of P target c rt" "target \<noteq> me" "target \<in> ap_peers P"
    and "valid_key k" "wire_keys (write_key ` set (aso_writes out))" "finite failed" "wire_keys (dom (lrr_reads m))" "wire_batch b"
  shows "aria_read_snapshot_remote P me i target k c =
      (let (response, rt') = service_aria_read_snapshot (aria_read_request_of (ap_id P) i tx me k) rt
       in after_call target (aria_read_reply k response) rt' c) \<and>
    send_aria_stage_outcome P me target out c =
      (let (response, rt') = service_aria_stage_outcome (stage_request_of out) rt in after_call target (remote response) rt' c) \<and>
    broadcast_aria_execution_done P me target c =
      (let (response, rt') = service_report_execution_done (execution_done_request_of (ap_id P) me) rt
       in after_call target (remote response) rt' c) \<and>
    broadcast_aria_local_failures P me failed target c =
      (let (response, rt') = service_report_local_failures (local_failures_request_of (ap_id P) me failed) rt
       in after_call target (remote response) rt' c) \<and>
    rt_mailboxes (snd (service_local_read_result (local_read_request_of m) rt)) = snd (route m (rt_mailboxes rt)) \<and>
    remote (fst (service_local_read_result (local_read_request_of m) rt)) = over_wire (fst (route m (rt_mailboxes rt))) \<and>
    execute_batch_request (Some (batch_to_proto b)) = Inr b \<and>
    execute_batch_records (execute_batch_reply (Ok s)) = Ok (bes_tx_results s)"
proof -
  have "rt_mailboxes (snd (service_local_read_result (local_read_request_of m) rt)) = snd (route m (rt_mailboxes rt)) \<and>
    remote (fst (service_local_read_result (local_read_request_of m) rt)) = over_wire (fst (route m (rt_mailboxes rt)))"
    using assms(7) by (simp add: service_local_read_result_def local_read_decoded accept_Ok route_local_read_result_def
        split_beta remote_to_reply)
  moreover have "execute_batch_request (Some (batch_to_proto b)) = Inr b"
    using assms(8) by (simp add: execute_batch_request_def batch_roundtrip to_reply_def)
  moreover have "execute_batch_records (execute_batch_reply (Ok s)) = Ok (bes_tx_results s)"
    by (simp add: execute_batch_records_def execute_batch_reply_def tx_result_records_exact)
  moreover note read_snapshot_by_service [OF assms(1-4)] stage_outcome_by_service [OF assms(1-3,5)]
    execution_done_by_service [OF assms(1-3)] local_failures_by_service [OF assms(1-3,6)]
  ultimately show ?thesis by blast
qed

definition two_shards :: aria_params where
  "two_shards = \<lparr>ap_layout = \<lparr>shard_count = 2\<rparr>, ap_peers = {0, 1}, ap_batch = \<lparr>batch_id = 1, txs = []\<rparr>\<rparr>"

definition quiet :: aria_system where
  "quiet = \<lparr>as_store = (\<lambda>_. Map.empty), as_registry = (\<lambda>_. Map.empty), as_results = (\<lambda>_. Map.empty),
     as_reorders = (\<lambda>_. Map.empty), as_coord = (\<lambda>_. CoordDone (Ok ())), as_main = (\<lambda>_. AriaAwaitDone WaitAsleep),
     as_failed = Map.empty\<rparr>"

definition node1 :: shard_runtime where
  "node1 = the (shard_runtime_new ''shard-1'' 1 2 KindAria False)"

theorem remote_calls_go_through_the_service_witness:
  "broadcast_aria_execution_done two_shards 0 1 quiet =
    (let (response, rt') = service_report_execution_done (execution_done_request_of 1 0) node1
     in after_call 1 (remote response) rt' quiet) \<and>
   execute_batch_request (Some (batch_to_proto \<lparr>batch_id = 7, txs = []\<rparr>)) = Inr \<lparr>batch_id = 7, txs = []\<rparr>"
proof -
  have r: "runtime_of two_shards 1 quiet node1"
    by (simp add: runtime_of_def two_shards_def quiet_def node1_def shard_runtime_new_def layout_new_def)
  let ?out = "\<lparr>aso_batch_id = 1, aso_tx_index = 0, aso_tx_id = 2, aso_from_shard = 0, aso_result = TxOk, aso_writes = [],
     aso_is_result_shard = False\<rparr>"
  let ?m = "\<lparr>lrr_batch_id = 1, lrr_tx_id = 2, lrr_phase = Calvin, lrr_from_shard = 0, lrr_status = StatusOk, lrr_reads = Map.empty\<rparr>"
  have w: "wire_keys (write_key ` set (aso_writes ?out))" "wire_keys (dom (lrr_reads ?m))" "wire_batch \<lparr>batch_id = 7, txs = []\<rparr>"
    by (simp_all add: wire_keys_def wire_batch_def)
  have p: "(0::shard_id) < 1" "(1::shard_id) \<noteq> 0" "1 \<in> ap_peers two_shards" "valid_key root" "finite ({} :: nat set)"
    by (simp_all add: two_shards_def)
  show ?thesis
    using remote_calls_go_through_the_service [OF r p(2-4) w(1) p(5) w(2,3)] by (simp add: two_shards_def)
qed

section \<open>What a request can put into a registry\<close>

text \<open>
  The messages of the mailboxes are under their own key and hold valid keys; the entries of the
  optimistic scheduler are about keys of this shard, each outcome under its own index, and every report
  is of a shard that exists.
\<close>

definition typed_mailboxes :: "mailbox_registry \<Rightarrow> bool" where
  "typed_mailboxes reg \<longleftrightarrow> (\<forall>k. \<forall>m \<in> set (inbox reg k). message_key m = k \<and> wire_keys (dom (lrr_reads m)))"

definition own_key :: "shard_layout \<Rightarrow> shard_id \<Rightarrow> key \<Rightarrow> bool" where
  "own_key L sh k \<longleftrightarrow> valid_key k \<and> shard_for_key L k = sh"

definition typed_outcome :: "shard_layout \<Rightarrow> shard_id \<Rightarrow> aria_staged_outcome \<Rightarrow> bool" where
  "typed_outcome L sh out \<longleftrightarrow>
     index_fits (ast_tx_index out) \<and> (\<forall>w \<in> set (ast_local_writes out). own_key L sh (write_key w)) \<and>
     (ast_is_result_shard out \<longleftrightarrow> aria_result_shard (ast_tx_id out) (shard_count L) = sh) \<and>
     (ast_result out = None \<longleftrightarrow> \<not> ast_is_result_shard out)"

definition typed_entry :: "shard_layout \<Rightarrow> shard_id \<Rightarrow> aria_batch_state \<Rightarrow> bool" where
  "typed_entry L sh e \<longleftrightarrow>
     (\<forall>k \<in> dom (readers_by_key e) \<union> dom (writers_by_key e). own_key L sh k) \<and>
     (\<forall>i out. staged_outcomes e i = Some out \<longrightarrow> ast_tx_index out = i \<and> typed_outcome L sh out) \<and>
     (\<forall>s \<in> execution_done_reports e \<union> dom (failure_reports e). s < shard_count L) \<and>
     (\<forall>failed \<in> ran (failure_reports e). finite failed \<and> (\<forall>i \<in> failed. index_fits i))"

definition typed_runtime :: "shard_runtime \<Rightarrow> bool" where
  "typed_runtime rt \<longleftrightarrow> typed_mailboxes (rt_mailboxes rt) \<and>
     (\<forall>bid e. rt_aria rt bid = Some e \<longrightarrow> typed_entry (rt_layout rt) (rt_shard_id rt) e)"

lemma typed_default: "typed_entry L sh aria_batch_state_default"
  by (simp add: typed_entry_def aria_batch_state_default_def)

lemma typed_aria_entry: "typed_runtime rt \<Longrightarrow> typed_entry (rt_layout rt) (rt_shard_id rt) (aria_entry bid (rt_aria rt))"
  by (auto simp: typed_runtime_def aria_entry_def typed_default split: option.split)

lemma typed_update:
  "typed_runtime rt \<Longrightarrow> typed_entry (rt_layout rt) (rt_shard_id rt) e \<Longrightarrow> typed_runtime (rt\<lparr>rt_aria := (rt_aria rt)(bid \<mapsto> e)\<rparr>)"
  by (auto simp: typed_runtime_def)

lemma dom_insert_at [simp]: "dom (insert_at k i m) = insert k (dom m)"
  by (auto simp: insert_at_def)

lemma dom_fold_insert_at: "dom (fold (\<lambda>w. insert_at (f w) i) ws m) = f ` set ws \<union> dom m"
  by (induction ws arbitrary: m) auto

lemma index_fits_unat [simp]: "index_fits (unat (i :: u32))"
  using unsigned_less [of i] by (simp add: index_fits_def)

lemma typed_route:
  "typed_runtime rt \<Longrightarrow> wire_keys (dom (lrr_reads m)) \<Longrightarrow> typed_runtime (snd (route_local_read_result m rt))"
  by (auto simp: typed_runtime_def typed_mailboxes_def route_local_read_result_def split_beta route_registry split: if_splits)

lemma typed_read:
  "typed_runtime rt \<Longrightarrow> valid_key k \<Longrightarrow> typed_runtime (snd (runtime_aria_read_snapshot bid i k rt))"
  using typed_aria_entry [of rt bid]
  by (auto simp: runtime_aria_read_snapshot_def read_snapshot_def Let_def typed_entry_def own_key_def split: option.split
      intro!: typed_update)

lemma typed_stage:
  assumes "typed_runtime rt" "wire_keys (write_key ` set (aso_writes out))" "index_fits (aso_tx_index out)"
  shows "typed_runtime (snd (route_aria_stage_outcome out rt))"
proof -
  let ?e = "aria_entry (aso_batch_id out) (rt_aria rt)"
  let ?L = "rt_layout rt" and ?sh = "rt_shard_id rt"
  let ?s = "\<lparr>ast_tx_index = aso_tx_index out, ast_tx_id = aso_tx_id out,
     ast_result = (if aso_is_result_shard out then Some (aso_result out) else None),
     ast_local_writes = aso_writes out, ast_is_result_shard = aso_is_result_shard out\<rparr>"
  let ?e' = "?e\<lparr>staged_outcomes := (staged_outcomes ?e)(aso_tx_index out \<mapsto> ?s)\<rparr>"
  show ?thesis
  proof (cases "aso_from_shard out = aria_result_shard (aso_tx_id out) (shard_count ?L) \<and>
      aso_is_result_shard out = (?sh = aria_result_shard (aso_tx_id out) (shard_count ?L)) \<and>
      (\<forall>w \<in> set (aso_writes out). shard_for_key ?L (write_key w) = ?sh)")
    case True
    have o: "\<forall>w \<in> set (aso_writes out). own_key ?L ?sh (write_key w)"
      using assms(2) True by (auto simp: own_key_def wire_keys_def)
    then have "typed_outcome ?L ?sh ?s" using assms(3) True by (auto simp: typed_outcome_def)
    then have e: "typed_entry ?L ?sh ?e'" using typed_aria_entry [OF assms(1), of "aso_batch_id out"] by (auto simp: typed_entry_def)
    then have "typed_entry ?L ?sh (?e'\<lparr>writers_by_key := fold (\<lambda>w. insert_at (write_key w) (aso_tx_index out))
        (aso_writes out) (writers_by_key ?e')\<rparr>)"
      using o by (auto simp: typed_entry_def dom_fold_insert_at)
    then show ?thesis using True e typed_update [OF assms(1)]
      by (auto simp: route_aria_stage_outcome_def stage_outcome_def Let_def)
  next
    case False
    then have "snd (stage_outcome ?L ?sh out (rt_aria rt)) = rt_aria rt" by (auto simp: stage_outcome_def Let_def)
    then show ?thesis using assms(1) by (simp add: route_aria_stage_outcome_def split_beta)
  qed
qed

lemma typed_done: "typed_runtime rt \<Longrightarrow> typed_runtime (snd (report_aria_execution_done bid from_shard rt))"
  using typed_aria_entry [of rt bid]
  by (auto simp: report_aria_execution_done_def record_execution_done_def validate_aria_report_shard_def Let_def typed_entry_def
      split: if_splits intro!: typed_update)

lemma typed_failures:
  assumes "typed_runtime rt" "finite failed" "\<forall>i \<in> failed. index_fits i"
  shows "typed_runtime (snd (report_aria_local_failures bid from_shard failed rt))"
proof -
  let ?e = "aria_entry bid (rt_aria rt)"
  have "typed_entry (rt_layout rt) (rt_shard_id rt) (?e\<lparr>failure_reports := (failure_reports ?e)(from_shard \<mapsto> failed)\<rparr>)"
    if "from_shard < shard_count (rt_layout rt)"
    using typed_aria_entry [OF assms(1), of bid] that assms(2,3) by (auto simp: typed_entry_def ran_def)
  then show ?thesis using assms(1) typed_update [OF assms(1)]
    by (auto simp: report_aria_local_failures_def record_local_failures_def validate_aria_report_shard_def Let_def not_le)
qed

text \<open>Any request of a peer or a client but a batch.\<close>

datatype shard_request =
    LocalReadResult local_read_request
  | AriaReadSnapshot aria_read_request
  | AriaStage aria_stage_request
  | AriaExecutionDone execution_done_request
  | AriaLocalFailures local_failures_request
  | GetTxResult tx_id
  | DumpState

fun serve :: "shard_request \<Rightarrow> shard_runtime \<Rightarrow> shard_runtime" where
  "serve (LocalReadResult req) rt = snd (service_local_read_result req rt)"
| "serve (AriaReadSnapshot req) rt = snd (service_aria_read_snapshot req rt)"
| "serve (AriaStage req) rt = snd (service_aria_stage_outcome req rt)"
| "serve (AriaExecutionDone req) rt = snd (service_report_execution_done req rt)"
| "serve (AriaLocalFailures req) rt = snd (service_report_local_failures req rt)"
| "serve (GetTxResult tx) rt = snd (service_get_tx_result tx rt)"
| "serve DumpState rt = snd (service_dump_state rt)"

lemma typed_accept:
  assumes "typed_runtime rt" "\<And>x. r = Ok x \<Longrightarrow> typed_runtime (snd (f x rt))"
  shows "typed_runtime (snd (accept r f rt))"
  using assms by (cases r) (auto simp: accept_def)

lemma typed_serve: "typed_runtime rt \<Longrightarrow> typed_runtime (serve req rt)"
proof (cases req)
  case (LocalReadResult r)
  assume "typed_runtime rt"
  with LocalReadResult show ?thesis
    by (auto simp: service_local_read_result_def split_beta local_read_exact intro!: typed_accept typed_route)
next
  case (AriaReadSnapshot r)
  assume "typed_runtime rt"
  with AriaReadSnapshot show ?thesis
    by (auto simp: service_aria_read_snapshot_def split_beta key_new_Ok_iff intro!: typed_accept typed_read)
next
  case (AriaStage r)
  assume "typed_runtime rt"
  with AriaStage show ?thesis
    by (auto simp: service_aria_stage_outcome_def stage_outcome_from_request_def split_beta res_simps write_entries_exact
        intro!: typed_accept typed_stage)
next
  case (AriaExecutionDone r)
  assume "typed_runtime rt"
  with AriaExecutionDone show ?thesis by (simp add: service_report_execution_done_def split_beta typed_done)
next
  case (AriaLocalFailures r)
  assume "typed_runtime rt"
  with AriaLocalFailures show ?thesis by (auto simp: service_report_local_failures_def split_beta intro!: typed_failures)
qed (simp_all add: service_get_tx_result_def runtime_get_tx_result_def service_dump_state_def split_beta typed_runtime_def)

lemma serve_fixed:
  "rt_store (serve req rt) = rt_store rt" "rt_layout (serve req rt) = rt_layout rt" "rt_shard_id (serve req rt) = rt_shard_id rt"
  "rt_reorders (serve req rt) = rt_reorders rt" "rt_profiles (serve req rt) = rt_profiles rt"
proof -
  have "rt_store (serve req rt) = rt_store rt \<and> rt_layout (serve req rt) = rt_layout rt \<and> rt_shard_id (serve req rt) = rt_shard_id rt \<and>
    rt_reorders (serve req rt) = rt_reorders rt \<and> rt_profiles (serve req rt) = rt_profiles rt"
    by (cases req) (simp_all add: accept_def service_local_read_result_def service_aria_read_snapshot_def
        service_aria_stage_outcome_def service_report_execution_done_def service_report_local_failures_def service_get_tx_result_def
        service_dump_state_def route_local_read_result_def runtime_aria_read_snapshot_def route_aria_stage_outcome_def
        report_aria_execution_done_def report_aria_local_failures_def runtime_get_tx_result_def split_beta split: sum.split)
  then show "rt_store (serve req rt) = rt_store rt" "rt_layout (serve req rt) = rt_layout rt"
    "rt_shard_id (serve req rt) = rt_shard_id rt" "rt_reorders (serve req rt) = rt_reorders rt"
    "rt_profiles (serve req rt) = rt_profiles rt" by simp_all
qed

text \<open>C25: Whatever requests arrive, well formed or not, from peers or clients, in any order: what they leave in
  the mailboxes and in the registry of the optimistic scheduler is well typed. Every key is a valid path,
  every staged write and every tracked read is of a key this shard owns, every outcome stands under its
  own 32 bit index and has a result just on the result shard, every report is of a shard that exists.
  No request touches the store, the reorder records or the profiles.\<close>

theorem requests_keep_registries_typed:
  assumes "typed_runtime rt"
  shows "typed_runtime (fold serve reqs rt) \<and> rt_store (fold serve reqs rt) = rt_store rt \<and>
    rt_reorders (fold serve reqs rt) = rt_reorders rt \<and> rt_profiles (fold serve reqs rt) = rt_profiles rt"
  using assms by (induction reqs arbitrary: rt) (simp_all add: typed_serve serve_fixed)

theorem requests_keep_registries_typed_witness:
  "typed_runtime (fold serve [AriaReadSnapshot relative_read, GetTxResult 9, DumpState] node0)"
proof -
  have "typed_runtime node0"
    by (simp add: node0_def shard_runtime_new_def layout_new_def typed_runtime_def typed_mailboxes_def)
  from requests_keep_registries_typed [OF this] show ?thesis by blast
qed

text \<open>The executor leaves nothing of a batch in the mailboxes and the registry, and touches no other batch.\<close>

lemma execute_batch_cleans_up:
  assumes "execute_batch_on_shard execute cleaned spent b rt = (response, rt')" "execute (rt_scheduler rt) b rt = (res, rt1)"
  shows "rt_aria rt' bid = (if bid = batch_id b then None else rt_aria rt1 bid)"
    and "rt_mailboxes rt' (bid, tx, ph) = (if bid = batch_id b then None else rt_mailboxes rt1 (bid, tx, ph))"
    and "response = map_sum id pbe_summary res" "rt_store rt' = rt_store rt1"
  using assms by (auto simp: execute_batch_on_shard_def cleanup_runtime_def cleanup_batch_def aria_cleanup_batch_def Let_def
      split: sum.splits option.splits)

text \<open>
  A message for a batch that is over makes a new mailbox, which no later batch removes: cleaning up is by
  the number of the batch, and numbers only grow.
\<close>

lemma executor_keeps_other_mailboxes:
  assumes "\<And>kind b' rt'. rt_mailboxes (snd (execute kind b' rt')) k = rt_mailboxes rt' k"
  shows "\<forall>(b', _) \<in> set jobs. batch_id b' \<noteq> fst k \<Longrightarrow>
    rt_mailboxes (snd (run_batch_executor execute jobs rt)) k = rt_mailboxes rt k"
proof (induction jobs arbitrary: rt)
  case (Cons j jobs)
  obtain b cleaned spent where j: "j = (b, cleaned, spent)" by (cases j) auto
  obtain response rt1 where e: "execute_batch_on_shard execute cleaned spent b rt = (response, rt1)" by fastforce
  obtain res rt0 where x: "execute (rt_scheduler rt) b rt = (res, rt0)" by fastforce
  have "rt_mailboxes rt1 k = rt_mailboxes rt0 k"
    using execute_batch_cleans_up(2) [OF e x, of "fst k" "fst (snd k)" "snd (snd k)"] Cons.prems j by auto
  moreover have "rt_mailboxes rt0 k = rt_mailboxes rt k" using assms [of "rt_scheduler rt" b rt] x by simp
  ultimately show ?case using Cons j e by (simp add: split_beta)
qed simp

theorem late_message_is_never_removed:
  assumes "execute_batch_on_shard execute cleaned spent b rt = (response, rt')" "wire_keys (dom (lrr_reads m))"
    and "lrr_batch_id m = batch_id b" "\<forall>(b', _) \<in> set others. batch_id b' \<noteq> batch_id b"
    and "\<And>kind b' rt'. rt_mailboxes (snd (execute kind b' rt')) (message_key m) = rt_mailboxes rt' (message_key m)"
  shows "fst (service_local_read_result (local_read_request_of m) rt') = Inr ()"
    and "inbox (rt_mailboxes (snd (run_batch_executor execute others
      (snd (service_local_read_result (local_read_request_of m) rt'))))) (message_key m) = [m]"
proof -
  obtain res rt1 where x: "execute (rt_scheduler rt) b rt = (res, rt1)" by fastforce
  have none: "rt_mailboxes rt' (message_key m) = None"
    using execute_batch_cleans_up(2) [OF assms(1) x] assms(3) by (simp add: message_key_def)
  have s: "service_local_read_result (local_read_request_of m) rt' =
      (Inr (), rt'\<lparr>rt_mailboxes := (rt_mailboxes rt')(message_key m \<mapsto> (new_mailbox DEFAULT_MAILBOX_CAPACITY)\<lparr>mb_sent := [m]\<rparr>)\<rparr>)"
    using assms(2) none by (simp add: service_local_read_result_def local_read_decoded accept_Ok route_local_read_result_def
        route_def entry_or_new_def new_mailbox_def to_reply_def)
  show "fst (service_local_read_result (local_read_request_of m) rt') = Inr ()" by (simp add: s)
  have "\<forall>(b', _) \<in> set others. batch_id b' \<noteq> fst (message_key m)" using assms(3,4) by (simp add: message_key_def)
  from executor_keeps_other_mailboxes [OF assms(5) this]
  show "inbox (rt_mailboxes (snd (run_batch_executor execute others
      (snd (service_local_read_result (local_read_request_of m) rt'))))) (message_key m) = [m]"
    by (simp add: inbox_def s)
qed

end
