(* ===== verification/Cluster.thy ===== *)
theory Cluster
  imports Service
begin

text \<open>
  The whole path of an operation under the locking scheduler: clients submit it to the sequencer, a
  batch carries it over the wire to every shard, the shards execute the batches one after the other,
  and the test harness merges their dumps. The result is the one of executing the submitted
  operations serially.
\<close>

section \<open>The checks of the harness\<close>

text \<open>The dumps of stores that are the parts of one state merge into it.\<close>

lemma merge_parts:
  assumes "finite (dom m)" "distinct shards" "set shards = {sh. sh < shard_count L}" "0 < shard_count L"
  shows "merge_shard_states L (map (\<lambda>sh. (sh, shard_part L m sh)) shards) = Ok m"
proof -
  let ?d = "map (\<lambda>sh. (sh, shard_part L m sh)) shards"
  have "shard_for_key L k \<in> set shards" for k using shard_for_key_bound [OF assms(4)] assms(3) by simp
  moreover have "merge_shard_states L ?d = Ok m \<longleftrightarrow>
      (\<forall>x \<in> set ?d. snd x = shard_part L m (fst x)) \<and> (\<forall>k \<in> dom m. shard_for_key L k \<in> fst ` set ?d)"
    by (rule merge_shard_states_parts) (use assms(1,2) in \<open>auto simp: comp_def shard_part_def finite_subset\<close>)
  ultimately show ?thesis by (simp add: image_image)
qed

lemma valid_tx_active: "valid_tx t \<Longrightarrow> p_active (participants_of L t) \<noteq> {}"
  using calvin.result_active [of t L] by (auto simp: calvin_kind_def)

lemma reference_finite: "finite (dom (reference_execute_batches bs))"
  unfolding reference_execute_batches_concat by (rule run_txs_finite) simp

lemma calvin_cluster_merges:
  assumes "calvin_execution L ps bs stores records"
    and "\<forall>t \<in> set (concat (map txs bs)). valid_op (op t) \<and> p_active (participants_of L t) \<subseteq> ps"
    and "distinct shards" "set shards = {sh. sh < shard_count L}" "0 < shard_count L"
  shows "merge_shard_states L (map (\<lambda>sh. (sh, stores sh)) shards) = Ok (reference_execute_batches bs)"
  using calvin_execution_outcome [OF assms(1,2)] merge_parts [OF reference_finite assms(3-5)] by simp

lemma calvin_cluster_results:
  assumes "calvin_execution L ps bs stores records"
    and "\<forall>t \<in> set (concat (map txs bs)). valid_op (op t) \<and> p_active (participants_of L t) \<subseteq> ps"
    and "distinct shards" "ps \<subseteq> set shards" "distinct (map tx_id (concat (map txs bs)))"
  shows "assert_tx_results_consistent L bs (concat (map records shards)) = Ok ()"
proof (rule turn_records_accepted [where s = Map.empty and ts = "concat (map txs bs)"])
  note o = calvin_execution_outcome [OF assms(1,2)]
  show "mset (records sh) = mset (turn_records (active_shards L) Map.empty (concat (map txs bs)) sh)" for sh using o by blast
  show "p_active (participants_of L t) \<subseteq> set shards \<and> p_active (participants_of L t) \<noteq> {}"
    if "t \<in> set (concat (map txs bs))" for t
    using o that assms(2,4) valid_tx_active by blast
qed (use assms(3,5) in simp_all)

section \<open>Executions exist\<close>

text \<open>Batches a sequencer can send are accepted by every shard, and each can be run to its end.\<close>

lemma calvin_execution_exists:
  assumes "\<forall>b \<in> set bs. validate_batch_order b = Ok () \<and> (\<forall>t \<in> set (txs b). valid_tx t \<and> p_active (participants_of L t) \<subseteq> ps)"
  shows "\<exists>stores records. calvin_execution L ps bs stores records"
  using assms
proof (induction bs rule: rev_induct)
  case Nil
  show ?case using calvin_execution.no_batch by blast
next
  case (snoc b bs)
  obtain stores records where e: "calvin_execution L ps bs stores records" using snoc by auto
  let ?s = "reference_execute_batches bs"
  let ?B = "\<lparr>lb_layout = L, lb_peers = ps, lb_id = batch_id b, lb_txs = txs b, lb_state = ?s\<rparr>"
  have st: "stores = shard_part L ?s"
    using calvin_execution_outcome [OF e] snoc.prems by (auto simp: valid_tx_def)
  obtain sp where C: "calvin_setting ?B (\<lambda>_. b) sp (shard_part L ?s)"
    using calvin_setting_exists [of b L ps ?s] snoc.prems by auto
  obtain c where c: "(lock_step calvin_ops (params_for_batch ?B sp))\<^sup>*\<^sup>* (lock_initial sp (shard_part L ?s)) c"
    "lock_finished (params_for_batch ?B sp) c"
    using calvin_can_finish [OF C rtranclp.rtrancl_refl] by blast
  have "\<forall>sh. \<exists>mail results. fresh_mailboxes (batch_id b) Calvin mail \<and> calvin_prologue L sh b mail results = Ok (sp sh)"
    using C by (fastforce simp: calvin_setting_def)
  then obtain mail results where m: "\<And>sh. fresh_mailboxes (batch_id b) Calvin (mail sh)"
    "\<And>sh. calvin_prologue L sh b (mail sh) (results sh) = Ok (sp sh)" by metis
  have "params_for_batch ?B sp = lock_params_of L ps (batch_id b) sp" by simp
  note c = c [unfolded this]
  have e': "calvin_entry L b stores results () sh (mail sh) = Ok (shard_part L ?s sh, sp sh)" for sh
    by (simp add: calvin_entry_def m(2) st)
  obtain l where "(late_step calvin_ops L ps (batch_id b) (\<lambda>_ _. False) (\<lambda>_ _. True) (calvin_entry L b stores results))\<^sup>*\<^sup>*
      (late_initial () stores mail results) l" "late_finished L ps (batch_id b) UNIV l"
    using calvin_late.late_run_exists_all [OF rtranclp.rtrancl_refl conjI [OF TrueI e'] c, where results = results] by blast
  from calvin_execution.next_batch [OF e m(1) this] show ?case by blast
qed

lemma wire_tx_valid: "valid_tx t \<Longrightarrow> wire_tx t"
  using op_reads_valid op_writes_subset finite_subset [OF op_writes_subset op_reads_finite]
  by (fastforce simp: wire_tx_def wire_keys_def valid_tx_iff)

lemma sent_batches_fit:
  assumes "sequencer_ok s" "op ` all_txs s \<subseteq> Collect valid_op" "j \<in> set (sq_dispatched s)" "0 < shard_count L"
  shows "validate_batch_order (dj_batch j) = Ok ()" "wire_batch (dj_batch j)"
    "\<forall>t \<in> set (txs (dj_batch j)). valid_tx t \<and> p_active (participants_of L t) \<subseteq> {sh. sh < shard_count L}"
proof -
  have v: "\<forall>t \<in> set (txs (dj_batch j)). valid_tx t"
    using dispatched_batches(3) [OF assms(1,3)] assms(2,3) by (auto simp: valid_tx_def all_txs_def sent_txs_def)
  then show "\<forall>t \<in> set (txs (dj_batch j)). valid_tx t \<and> p_active (participants_of L t) \<subseteq> {sh. sh < shard_count L}"
    using shard_for_key_bound [OF assms(4)]
    by (auto simp: participants_of_def participants_for_sets_def read_only_coordinator_def Let_def split: if_splits option.splits)
  show "validate_batch_order (dj_batch j) = Ok ()" using dispatched_batches(3) [OF assms(1,3)] by blast
  show "wire_batch (dj_batch j)" unfolding wire_batch_def using v by (auto simp: wire_tx_valid)
qed

section \<open>Properties\<close>

text \<open>The cluster under the locking scheduler passes the checks of the test harness. After any
  execution of the batches of a log, the dumps of all shards merge, the merged state is exactly the
  state of the serial reference execution of the log, and the result check accepts all records.\<close>

theorem calvin_cluster_matches_reference:
  assumes "calvin_execution L ps bs stores records"
    and "\<forall>t \<in> set (concat (map txs bs)). valid_op (op t) \<and> p_active (participants_of L t) \<subseteq> ps"
    and "distinct shards" "ps = set shards" "set shards = {sh. sh < shard_count L}" "0 < shard_count L"
    and "distinct (map tx_id (concat (map txs bs)))"
  shows "rbind (merge_shard_states L (map (\<lambda>sh. (sh, stores sh)) shards))
      (assert_state_matches (reference_execute_batches bs)) = Ok () \<and>
    assert_tx_results_consistent L bs (concat (map records shards)) = Ok ()"
  using calvin_cluster_merges [OF assms(1-3,5,6)] calvin_cluster_results [OF assms(1-3) _ assms(7)] assms(4)
  by (simp add: assert_state_matches_def)

end
