(* ===== verification/RecordedLog.thy ===== *)
theory RecordedLog
  imports SccOutcome Cluster
begin

text \<open>
  Logs of batches whose shards record the order in which they ran a batch: the speculative and the
  optimistic scheduler. The records of a batch that are complete determine the order of the log,
  and the harness accepts them (\<open>src/checker.rs\<close>).
\<close>

section \<open>The order of a log\<close>

definition combined_order :: "shard_id list \<Rightarrow> (shard_id \<Rightarrow> batch_id \<rightharpoonup> reorder_record) \<Rightarrow> batch \<Rightarrow> reorder_record" where
  "combined_order shards reorders b =
     canonical_reorder b (\<Union>sh \<in> set shards. set (fallback_indices (the (reorders sh (batch_id b)))))"

definition executed_txs :: "shard_id list \<Rightarrow> (shard_id \<Rightarrow> batch_id \<rightharpoonup> reorder_record) \<Rightarrow> batch list \<Rightarrow> ordered_tx list" where
  "executed_txs shards reorders bs = concat (map (\<lambda>b. permuted_txs b (combined_order shards reorders b)) bs)"

text \<open>The records of the shards in \<open>S\<close> are complete: one canonical record per batch.\<close>

definition complete_reorders :: "shard_id set \<Rightarrow> (shard_id \<Rightarrow> batch_id \<rightharpoonup> reorder_record) \<Rightarrow> batch list \<Rightarrow> bool" where
  "complete_reorders S reorders bs \<longleftrightarrow> distinct (map batch_id bs) \<and>
     (\<forall>sh \<in> S. dom (reorders sh) = batch_id ` set bs \<and>
       (\<forall>b \<in> set bs. \<exists>F \<subseteq> {0..<length (txs b)}. reorders sh (batch_id b) = Some (canonical_reorder b F)))"

lemma complete_reordersD:
  assumes "complete_reorders S reorders bs"
  shows "distinct (map batch_id bs)" "sh \<in> S \<Longrightarrow> dom (reorders sh) = batch_id ` set bs"
    "sh \<in> S \<Longrightarrow> b \<in> set bs \<Longrightarrow> \<exists>F. F \<subseteq> {0..<length (txs b)} \<and> reorders sh (batch_id b) = Some (canonical_reorder b F)"
  using assms by (auto simp: complete_reorders_def)

lemma combined_order_valid:
  assumes "complete_reorders S reorders bs" "set shards \<subseteq> S" "b \<in> set bs"
  shows "validate_reorder_record b (combined_order shards reorders b) = Ok ()"
    "fallback_indices (combined_order shards reorders b) =
      sorted_list_of_set (\<Union>sh \<in> set shards. set (fallback_indices (the (reorders sh (batch_id b)))))"
proof -
  have "set (fallback_indices (the (reorders sh (batch_id b)))) \<subseteq> {0..<length (txs b)}" if sh: "sh \<in> set shards" for sh
  proof -
    obtain F where F: "F \<subseteq> {0..<length (txs b)}" "reorders sh (batch_id b) = Some (canonical_reorder b F)"
      using complete_reordersD(3) [OF assms(1) subsetD [OF assms(2) sh] assms(3)] by blast
    then show ?thesis using finite_subset [OF F(1)] by (simp add: canonical_reorder_def)
  qed
  then have "(\<Union>sh \<in> set shards. set (fallback_indices (the (reorders sh (batch_id b))))) \<subseteq> {0..<length (txs b)}"
    by (rule UN_least)
  then show "validate_reorder_record b (combined_order shards reorders b) = Ok ()"
    unfolding combined_order_def by (rule canonical_reorder_valid)
qed (simp add: combined_order_def canonical_reorder_def)

lemma executed_txs_mset:
  assumes c: "complete_reorders S reorders bs" "set shards \<subseteq> S"
  shows "mset (executed_txs shards reorders bs) = mset (concat (map txs bs))"
proof -
  have "mset (permuted_txs b (combined_order shards reorders b)) = mset (txs b)" if "b \<in> set bs" for b
    by (rule permuted_txs_mset [OF combined_order_valid(1) [OF c that]])
  then show ?thesis unfolding executed_txs_def by (induction bs) auto
qed

text \<open>What the harness makes of complete records: the reorder check returns the combined order.\<close>

lemma map_values_ids:
  assumes "complete_reorders S reorders bs" "sh \<in> S"
  shows "distinct (map reorder_batch_id (map_values (reorders sh)))"
    "set (map_values (reorders sh)) = (\<lambda>b. the (reorders sh (batch_id b))) ` set bs"
    "b \<in> set bs \<Longrightarrow> reorder_batch_id (the (reorders sh (batch_id b))) = batch_id b"
proof -
  note c = assms(1) [unfolded complete_reorders_def]
  have id: "reorder_batch_id (the (reorders sh (batch_id b))) = batch_id b" if "b \<in> set bs" for b
  proof -
    obtain F where "reorders sh (batch_id b) = Some (canonical_reorder b F)" using c assms(2) \<open>b \<in> set bs\<close> by blast
    then show ?thesis by (simp add: canonical_reorder_def)
  qed
  then show "b \<in> set bs \<Longrightarrow> reorder_batch_id (the (reorders sh (batch_id b))) = batch_id b" .
  have d: "dom (reorders sh) = batch_id ` set bs" using c assms(2) by blast
  show "set (map_values (reorders sh)) = (\<lambda>b. the (reorders sh (batch_id b))) ` set bs"
    unfolding map_values_def d by (simp add: image_image)
  have "reorder_batch_id (the (reorders sh k)) = k" if "k \<in> batch_id ` set bs" for k using that id by auto
  then have "map reorder_batch_id (map_values (reorders sh)) = sorted_list_of_set (batch_id ` set bs)"
    unfolding map_values_def d by (simp, intro map_idI) simp
  then show "distinct (map reorder_batch_id (map_values (reorders sh)))" by simp
qed

lemma complete_reorders_accepted:
  assumes c: "complete_reorders S reorders bs" "set shards \<subseteq> S"
  shows "\<exists>rs. assert_scc_reorders_consistent bs (map (\<lambda>sh. (sh, map_values (reorders sh))) shards) = Ok rs \<and>
    (\<forall>b \<in> set bs. rs (batch_id b) = Some (combined_order shards reorders b)) \<and>
    reference_execute_scc_reordered_batches bs rs = Ok (run_txs (executed_txs shards reorders bs) Map.empty)"
proof -
  let ?d = "map (\<lambda>sh. (sh, map_values (reorders sh))) shards"
  note m = map_values_ids [OF c(1) subsetD [OF c(2)]]
  have "\<exists>rs. assert_scc_reorders_consistent bs ?d = Ok rs"
  proof (rule complete_records_accepted)
    show "distinct (map batch_id bs)" using c by (simp add: complete_reorders_def)
    show "distinct (map reorder_batch_id (snd x)) \<and> reorder_batch_id ` set (snd x) = batch_id ` set bs"
      if x: "x \<in> set ?d" for x
    proof -
      obtain sh where "sh \<in> set shards" "snd x = map_values (reorders sh)" using x by auto
      then show ?thesis using m(1) [of sh] m(2) [of sh] m(3) [of sh] by (simp add: image_image)
    qed
    fix x r assume "x \<in> set ?d" "r \<in> set (snd x)"
    then obtain sh where sh: "sh \<in> set shards" "r \<in> set (map_values (reorders sh))" by auto
    then obtain b where b: "b \<in> set bs" "r = the (reorders sh (batch_id b))" using m(2) by blast
    then obtain F where "F \<subseteq> {0..<length (txs b)}" "reorders sh (batch_id b) = Some (canonical_reorder b F)"
      using complete_reordersD(3) [OF c(1) subsetD [OF c(2) sh(1)] b(1)] by blast
    then have "validate_reorder_record b r = Ok ()" using b(2) canonical_reorder_valid by simp
    then show "\<exists>b \<in> set bs. validate_reorder_record b r = Ok ()" using b(1) by blast
  qed
  then obtain rs where rs: "assert_scc_reorders_consistent bs ?d = Ok rs" by blast
  have "rs (batch_id b) = Some (combined_order shards reorders b)" if b: "b \<in> set bs" for b
  proof -
    have uniq: "b' = b" if "b' \<in> set bs" "batch_id b' = batch_id b" for b'
      using that b c(1) by (auto simp: complete_reorders_def distinct_map inj_on_def)
    have "{r \<in> set (concat (map snd ?d)). reorder_batch_id r = batch_id b} =
        (\<lambda>sh. the (reorders sh (batch_id b))) ` set shards"
    proof (intro equalityI subsetI)
      fix r assume "r \<in> {r \<in> set (concat (map snd ?d)). reorder_batch_id r = batch_id b}"
      then obtain sh b' where r: "sh \<in> set shards" "b' \<in> set bs" "r = the (reorders sh (batch_id b'))"
        "reorder_batch_id r = batch_id b" by (auto simp: m(2))
      then have "b' = b" using m(3) [of sh b'] uniq by metis
      then show "r \<in> (\<lambda>sh. the (reorders sh (batch_id b))) ` set shards" using r by blast
    qed (use b m(3) in \<open>auto simp: m(2)\<close>)
    then have "fallback_union (concat (map snd ?d)) (batch_id b) =
        (\<Union>sh \<in> set shards. set (fallback_indices (the (reorders sh (batch_id b)))))"
      unfolding fallback_union_def by simp
    then show ?thesis using assert_scc_reorders_consistent_Ok(2) [OF rs b] by (simp add: combined_order_def)
  qed
  note rsb = this
  have eq: "map (\<lambda>b. permuted_txs b (the (rs (batch_id b)))) bs = map (\<lambda>b. permuted_txs b (combined_order shards reorders b)) bs"
    by (rule map_cong) (simp_all add: rsb)
  have "reference_execute_scc_reordered_batches bs rs = Ok (run_txs (executed_txs shards reorders bs) Map.empty)"
    unfolding reference_reordered_Ok_iff executed_txs_def eq using rsb combined_order_valid(1) [OF c] by blast
  then show ?thesis using rs rsb by blast
qed

section \<open>The contract of a scheduler that records its order\<close>

text \<open>The shards that are asked for their dumps are all shards of the layout, each once.\<close>

definition all_asked :: "shard_layout \<Rightarrow> shard_id list \<Rightarrow> bool" where
  "all_asked L shards \<longleftrightarrow> distinct shards \<and> set shards = {sh. sh < shard_count L} \<and> 0 < shard_count L"

text \<open>
  What a log leaves: complete reorder records, on every shard its part of the state after the executed
  transactions, and the records of the turns of the transactions a shard reports.
\<close>

definition recorded_outcome ::
    "(ordered_tx \<Rightarrow> shard_id set) \<Rightarrow> shard_layout \<Rightarrow> shard_id list \<Rightarrow> batch list \<Rightarrow> (shard_id \<Rightarrow> fs_state)
      \<Rightarrow> (shard_id \<Rightarrow> batch_id \<rightharpoonup> reorder_record) \<Rightarrow> (shard_id \<Rightarrow> tx_result_record list) \<Rightarrow> bool" where
  "recorded_outcome A L shards bs stores reorders records \<longleftrightarrow>
     complete_reorders (set shards) reorders bs \<and> (\<forall>t \<in> set (concat (map txs bs)). valid_tx t) \<and>
     stores = shard_part L (run_txs (executed_txs shards reorders bs) Map.empty) \<and>
     (\<forall>sh \<in> set shards. mset (records sh) = mset (turn_records A Map.empty (executed_txs shards reorders bs) sh))"

text \<open>
  What the harness makes of such a log: the dumps merge into the state of the reordered reference, which
  is the serial execution by the specification of the operations.
\<close>

lemma recorded_log_checks:
  assumes o: "recorded_outcome A L shards bs stores reorders records" and a: "all_asked L shards"
  obtains rs where "assert_scc_reorders_consistent bs (map (\<lambda>sh. (sh, map_values (reorders sh))) shards) = Ok rs"
    "\<forall>b \<in> set bs. \<exists>r. rs (batch_id b) = Some r \<and> mset (permuted_txs b r) = mset (txs b)"
    "merge_shard_states L (map (\<lambda>sh. (sh, stores sh)) shards) = Ok (run_txs (executed_txs shards reorders bs) Map.empty)"
    "reference_execute_scc_reordered_batches bs rs = Ok (run_txs (executed_txs shards reorders bs) Map.empty)"
    "executed_txs shards reorders bs = concat (map (\<lambda>b. permuted_txs b (the (rs (batch_id b)))) bs)"
    "run_txs (executed_txs shards reorders bs) Map.empty = fold (\<lambda>t. op_apply (op t)) (executed_txs shards reorders bs) Map.empty"
proof -
  have c: "complete_reorders (set shards) reorders bs" "set shards \<subseteq> set shards"
    and v: "\<forall>t \<in> set (concat (map txs bs)). valid_tx t"
    and st: "stores = shard_part L (run_txs (executed_txs shards reorders bs) Map.empty)"
    using o by (simp_all add: recorded_outcome_def)
  have shards: "distinct shards" "set shards = {sh. sh < shard_count L}" "0 < shard_count L"
    using a by (simp_all add: all_asked_def)
  let ?ts = "executed_txs shards reorders bs"
  obtain rs where rs: "assert_scc_reorders_consistent bs (map (\<lambda>sh. (sh, map_values (reorders sh))) shards) = Ok rs"
    "\<forall>b \<in> set bs. rs (batch_id b) = Some (combined_order shards reorders b)"
    "reference_execute_scc_reordered_batches bs rs = Ok (run_txs ?ts Map.empty)"
    using complete_reorders_accepted [OF c] by blast
  have "mset (permuted_txs b (combined_order shards reorders b)) = mset (txs b)" if "b \<in> set bs" for b
    by (rule permuted_txs_mset [OF combined_order_valid(1) [OF c that]])
  then have perm: "\<forall>b \<in> set bs. \<exists>r. rs (batch_id b) = Some r \<and> mset (permuted_txs b r) = mset (txs b)" using rs(2) by simp
  have "finite (dom (run_txs ?ts Map.empty))" by (rule run_txs_finite) simp
  then have merge: "merge_shard_states L (map (\<lambda>sh. (sh, stores sh)) shards) = Ok (run_txs ?ts Map.empty)"
    using merge_parts [OF _ shards] st by simp
  have ts: "?ts = concat (map (\<lambda>b. permuted_txs b (the (rs (batch_id b)))) bs)"
    unfolding executed_txs_def by (rule arg_cong [where f = concat], rule map_cong) (simp_all add: rs(2))
  have "valid_tx t" if "t \<in> set ?ts" for t
    using v that mset_eq_setD [OF executed_txs_mset [OF c]] by blast
  then have "run_txs ?ts Map.empty = fold (\<lambda>t. op_apply (op t)) ?ts Map.empty" by (rule run_txs_op_apply)
  from that [OF rs(1) perm merge rs(3) ts this] show thesis .
qed

lemma permuted_log_mset:
  assumes "\<forall>b \<in> set bs. \<exists>r. rs (batch_id b) = Some r \<and> mset (permuted_txs b r) = mset (txs b)"
  shows "mset (concat (map (\<lambda>b. permuted_txs b (the (rs (batch_id b)))) bs)) = mset (concat (map txs bs))"
  using assms by (induction bs) auto

text \<open>
  The interface of the two schedulers: a log that fits can be run to its end on all shards, and whatever
  run it was, the outcome is a recorded one.
\<close>

locale recorded_scheduler =
  fixes execution :: "shard_layout \<Rightarrow> shard_id set \<Rightarrow> batch list \<Rightarrow> (shard_id \<Rightarrow> fs_state)
      \<Rightarrow> (shard_id \<Rightarrow> batch_id \<rightharpoonup> reorder_record) \<Rightarrow> (shard_id \<Rightarrow> tx_result_record list) \<Rightarrow> bool"
    and fit :: "shard_layout \<Rightarrow> shard_id set \<Rightarrow> batch list \<Rightarrow> bool"
    and reporters :: "shard_layout \<Rightarrow> ordered_tx \<Rightarrow> shard_id set"
  assumes can_run: "fit L (set shards) bs \<Longrightarrow> all_asked L shards \<Longrightarrow>
      \<exists>stores reorders records. execution L (set shards) bs stores reorders records"
    and outcome: "execution L (set shards) bs stores reorders records \<Longrightarrow> fit L (set shards) bs \<Longrightarrow> all_asked L shards \<Longrightarrow>
      recorded_outcome (reporters L) L shards bs stores reorders records"
begin

text \<open>Every run is the serial execution in the order the checks determine, and one exists.\<close>

lemma runs_in_recorded_order:
  assumes "fit L (set shards) bs" "all_asked L shards"
  shows "(\<exists>stores reorders records. execution L (set shards) bs stores reorders records) \<and>
    (\<forall>stores reorders records. execution L (set shards) bs stores reorders records \<longrightarrow>
      (\<exists>rs m ts. assert_scc_reorders_consistent bs (map (\<lambda>sh. (sh, map_values (reorders sh))) shards) = Ok rs \<and>
        (\<forall>b \<in> set bs. \<exists>r. rs (batch_id b) = Some r \<and> mset (permuted_txs b r) = mset (txs b)) \<and>
        ts = concat (map (\<lambda>b. permuted_txs b (the (rs (batch_id b)))) bs) \<and>
        merge_shard_states L (map (\<lambda>sh. (sh, stores sh)) shards) = Ok m \<and>
        reference_execute_scc_reordered_batches bs rs = Ok m \<and>
        m = fold (\<lambda>t. op_apply (op t)) ts Map.empty \<and>
        (\<forall>sh \<in> set shards. mset (records sh) = mset (turn_records (reporters L) Map.empty ts sh))))"
proof (intro conjI allI impI can_run [OF assms])
  fix stores reorders records assume e: "execution L (set shards) bs stores reorders records"
  note o = outcome [OF e assms]
  let ?ts = "executed_txs shards reorders bs"
  obtain rs where rs: "assert_scc_reorders_consistent bs (map (\<lambda>sh. (sh, map_values (reorders sh))) shards) = Ok rs"
    "\<forall>b \<in> set bs. \<exists>r. rs (batch_id b) = Some r \<and> mset (permuted_txs b r) = mset (txs b)"
    "merge_shard_states L (map (\<lambda>sh. (sh, stores sh)) shards) = Ok (run_txs ?ts Map.empty)"
    "reference_execute_scc_reordered_batches bs rs = Ok (run_txs ?ts Map.empty)"
    "?ts = concat (map (\<lambda>b. permuted_txs b (the (rs (batch_id b)))) bs)"
    "run_txs ?ts Map.empty = fold (\<lambda>t. op_apply (op t)) ?ts Map.empty"
    by (rule recorded_log_checks [OF o assms(2)])
  moreover have "\<forall>sh \<in> set shards. mset (records sh) = mset (turn_records (reporters L) Map.empty ?ts sh)"
    using o by (simp add: recorded_outcome_def)
  ultimately show "\<exists>rs m ts. assert_scc_reorders_consistent bs (map (\<lambda>sh. (sh, map_values (reorders sh))) shards) = Ok rs \<and>
      (\<forall>b \<in> set bs. \<exists>r. rs (batch_id b) = Some r \<and> mset (permuted_txs b r) = mset (txs b)) \<and>
      ts = concat (map (\<lambda>b. permuted_txs b (the (rs (batch_id b)))) bs) \<and>
      merge_shard_states L (map (\<lambda>sh. (sh, stores sh)) shards) = Ok m \<and>
      reference_execute_scc_reordered_batches bs rs = Ok m \<and>
      m = fold (\<lambda>t. op_apply (op t)) ts Map.empty \<and>
      (\<forall>sh \<in> set shards. mset (records sh) = mset (turn_records (reporters L) Map.empty ts sh))"
    by (intro exI [of _ rs] exI [of _ "run_txs ?ts Map.empty"] exI [of _ ?ts]) (intro conjI rs)
qed

end

section \<open>A further batch\<close>

lemma record_batch_reorder_Ok:
  assumes "record_batch_reorder (batch_id b) (length (txs b)) failed reorders = (Ok (), reorders')"
    and "failed \<subseteq> {0..<length (txs b)}"
  shows "reorders (batch_id b) = None" "reorders' = reorders(batch_id b \<mapsto> canonical_reorder b failed)"
  using assms by (auto simp: record_batch_reorder_def canonical_reorder_def Let_def split: if_splits)

lemma complete_reorders_step:
  assumes c: "complete_reorders S reorders bs"
    and S: "S \<noteq> {}" "set shards \<subseteq> S" and r: "\<And>sh. sh \<in> S \<Longrightarrow> F sh \<subseteq> {0..<length (txs b)}"
    and u: "\<And>sh. sh \<in> S \<Longrightarrow> reorders sh (batch_id b) = None \<and> reorders' sh = (reorders sh)(batch_id b \<mapsto> canonical_reorder b (F sh))"
  shows "complete_reorders S reorders' (bs @ [b])"
    "combined_order shards reorders' b = canonical_reorder b (\<Union>sh \<in> set shards. F sh)"
    "executed_txs shards reorders' bs = executed_txs shards reorders bs"
proof -
  note c' = c [unfolded complete_reorders_def]
  have new: "batch_id b' \<noteq> batch_id b" if "b' \<in> set bs" for b'
  proof -
    obtain sh where "sh \<in> S" using S(1) by blast
    then show ?thesis using c' u [of sh] that by (metis domIff imageI)
  qed
  have old: "reorders' sh (batch_id b') = reorders sh (batch_id b')" if "sh \<in> S" "b' \<in> set bs" for sh b'
    using u [OF that(1)] new [OF that(2)] by simp
  have "finite (F sh)" if "sh \<in> S" for sh using r [OF that] finite_subset by blast
  then have "set (fallback_indices (the (reorders' sh (batch_id b)))) = F sh" if "sh \<in> set shards" for sh
    using u [OF subsetD [OF S(2) that]] that S(2) by (simp add: canonical_reorder_def subset_iff)
  then show "combined_order shards reorders' b = canonical_reorder b (\<Union>sh \<in> set shards. F sh)"
    unfolding combined_order_def by (simp cong: SUP_cong)
  have "combined_order shards reorders' b' = combined_order shards reorders b'" if "b' \<in> set bs" for b'
    using old [OF subsetD [OF S(2)] that] by (simp add: combined_order_def)
  then show "executed_txs shards reorders' bs = executed_txs shards reorders bs"
    unfolding executed_txs_def by (simp cong: map_cong)
  show "complete_reorders S reorders' (bs @ [b])"
    unfolding complete_reorders_def
  proof (intro conjI ballI)
    have "batch_id b \<notin> batch_id ` set bs" using new by fastforce
    then show "distinct (map batch_id (bs @ [b]))" using c' by simp
    show "dom (reorders' sh) = batch_id ` set (bs @ [b])" if "sh \<in> S" for sh using c' u [OF that] that by auto
    show "\<exists>F \<subseteq> {0..<length (txs b')}. reorders' sh (batch_id b') = Some (canonical_reorder b' F)"
      if sh: "sh \<in> S" and "b' \<in> set (bs @ [b])" for sh b'
    proof (cases "b' = b")
      case True
      then show ?thesis using u [OF sh] r [OF sh] by auto
    next
      case False
      then have "b' \<in> set bs" using that by simp
      then show ?thesis using c' old sh by simp
    qed
  qed
qed

section \<open>Sizes\<close>

lemma card_run_txs:
  assumes "finite (dom s)" "\<And>t. t \<in> set ts \<Longrightarrow> valid_tx t"
  shows "card (dom (run_txs ts s)) \<le> card (dom s) + length ts"
  using assms
proof (induction ts arbitrary: s)
  case (Cons t ts)
  let ?s = "apply_reference_tx t s"
  have "finite (dom ?s)" using run_txs_finite [OF Cons.prems(1), of "[t]"] by simp
  moreover have "card (dom ?s) \<le> Suc (card (dom s))"
    using dom_op_apply [OF Cons.prems(1)] Cons.prems(2) by (simp add: apply_reference_tx_eq)
  ultimately show ?case using Cons.IH [of ?s] Cons.prems(2) by fastforce
qed simp

lemma ascending_length: "ascending xs (b :: 'a::len word) \<Longrightarrow> length xs \<le> unat b"
proof -
  assume a: "ascending xs b"
  have "unat ` set xs \<subseteq> {..<unat b}" using a by (auto simp: ascending_def word_less_nat_alt)
  then have "card (unat ` set xs) \<le> unat b" using card_mono [of "{..<unat b}"] by fastforce
  moreover have "card (unat ` set xs) = card (set xs)" by (rule card_image) (simp add: inj_on_def word_unat_eq_iff)
  moreover have "card (set xs) = length xs"
    using a by (intro distinct_card) (simp add: ascending_def strict_sorted_iff)
  ultimately show ?thesis by simp
qed

lemma batch_order_length:
  assumes "validate_batch_order b = Ok ()"
  shows "length (txs b) \<le> 2 ^ 32"
proof (rule ccontr)
  assume "\<not> ?thesis"
  then have "unat (batch_index (txs b ! (2 ^ 32))) = 2 ^ 32" using assms by (simp add: validate_batch_order_Ok)
  moreover have "unat (batch_index (txs b ! (2 ^ 32))) < 2 ^ 32"
    using unsigned_less [of "batch_index (txs b ! (2 ^ 32))"] by simp
  ultimately show False by simp
qed

end
