(* ===== verification/SccBatch.thy ===== *)
theory SccBatch
  imports SccOutcome
begin

text \<open>
  The whole of \<open>execute_scc_batch\<close> in \<open>src/engine.rs\<close> on all shards together. A shard whose
  coordinator has handled all its workers records the reorder, installs the successes and goes on with
  the fallback; others may still speculate then. Its speculative state does not change any more, so a
  run leaves what one leaves in which all shards finish the speculative phase first.
\<close>

section \<open>The end of the speculative phase of a shard\<close>

definition speculation_done :: "scc_params \<Rightarrow> scc_system \<Rightarrow> shard_id \<Rightarrow> bool" where
  "speculation_done P c sh \<longleftrightarrow> reported c sh = {..<length (txs (the_batch P))}"

text \<open>From there to the workers of the fallback.\<close>

definition scc_entry ::
    "scc_params \<Rightarrow> (shard_id \<Rightarrow> batch_id \<rightharpoonup> reorder_record) \<Rightarrow> (shard_id \<Rightarrow> fs_state) \<Rightarrow> (shard_id \<Rightarrow> tx_result_registry)
      \<Rightarrow> scc_system \<Rightarrow> shard_id \<Rightarrow> mailbox_registry \<Rightarrow> (fs_state \<times> spawned) result" where
  "scc_entry P reorders stores announced c sh mail =
     rbind (fst (record_batch_reorder (batch_id (the_batch P)) (length (txs (the_batch P))) (failed_at c sh) (reorders sh))) (\<lambda>_.
     fallback_start (layout P) (the_batch P) c sh mail (scc_client_results P c sh (announced sh)) (stores sh))"

abbreviation scc_batch_step ::
    "scc_params \<Rightarrow> (shard_id \<Rightarrow> batch_id \<rightharpoonup> reorder_record) \<Rightarrow> (shard_id \<Rightarrow> fs_state) \<Rightarrow> (shard_id \<Rightarrow> tx_result_registry)
      \<Rightarrow> scc_system late_system \<Rightarrow> scc_system late_system \<Rightarrow> bool" where
  "scc_batch_step P reorders stores announced \<equiv>
     late_step calvin_ops (layout P) (peers P) (batch_id (the_batch P)) (scc_step P) (speculation_done P)
       (scc_entry P reorders stores announced)"

text \<open>The steps of the other shards and the messages do not touch it.\<close>

definition scc_good :: "scc_params \<Rightarrow> scc_system \<Rightarrow> bool" where
  "scc_good P c \<longleftrightarrow> (\<exists>L b s0 ps. scc_setting L b s0 ps P \<and> scc_inv P L b s0 c)"

lemma done_stays:
  assumes good: "scc_good P c" and step: "scc_step P c c'" and sh: "speculation_done P c sh"
  shows "reported c' sh = reported c sh" "slots c' sh = slots c sh" "workers c' sh = workers c sh"
proof -
  obtain L b s0 ps where S: "scc_setting L b s0 ps P" and inv: "scc_inv P L b s0 c"
    using good by (auto simp: scc_good_def)
  note sd = scc_settingD [OF S]
  have ne: "q \<noteq> sh" if "participates P q i" "\<forall>r. workers c q i \<noteq> WDone r" for q i
    using that scc_invD(6) [OF inv, of i sh] sh by (auto simp: speculation_done_def sd(4,8) is_done_def split: worker_state.splits)
  have rep: "i \<in> reported c sh" if "i < length (txs (the_batch P))" for i
    using that sh by (simp add: speculation_done_def)
  note upd = set_slots_def set_worker_def post_def
  from step have "reported c' sh = reported c sh \<and> slots c' sh = slots c sh \<and> workers c' sh = workers c sh"
  proof cases
    case (non_participant i q cs d)
    then have "q \<noteq> sh" using rep by blast
    then show ?thesis by (simp add: non_participant(1) upd)
  next
    case (effect_read q i local_reads ms)
    then have "q \<noteq> sh" using ne by simp
    then show ?thesis by (simp add: effect_read(1) upd)
  next
    case (effect_read_failed q i reason ms cs)
    then have "q \<noteq> sh" using ne by simp
    then show ?thesis by (simp add: effect_read_failed(1) upd)
  next
    case deliver
    then show ?thesis by simp
  next
    case deliver_closed
    then show ?thesis by simp
  next
    case deliver_late
    then show ?thesis by simp
  next
    case deliver_unread
    then show ?thesis by simp
  next
    case deliver_aborted
    then show ?thesis by simp
  next
    case (execute q i local_reads full_reads local_delta)
    then have "q \<noteq> sh" using ne by simp
    then show ?thesis by (simp add: execute(1) upd)
  next
    case (execute_failed q i local_reads full_reads cs)
    then have "q \<noteq> sh" using ne by simp
    then show ?thesis by (simp add: execute_failed(1) upd)
  next
    case (collect_failed q i local_reads reason cs)
    then have "q \<noteq> sh" using ne by simp
    then show ?thesis by (simp add: collect_failed(1) upd)
  next
    case (commit_success q i local_delta cs)
    then have "q \<noteq> sh" using ne by simp
    then show ?thesis by (simp add: commit_success(1) upd)
  next
    case (condition_read q i local_delta local_reads ms)
    then have "q \<noteq> sh" using ne by simp
    then show ?thesis by (simp add: condition_read(1) upd)
  next
    case (condition_read_failed q i local_delta reason ms cs)
    then have "q \<noteq> sh" using ne by simp
    then show ?thesis by (simp add: condition_read_failed(1) upd)
  next
    case (condition_success q i local_delta local_reads full_reads cs)
    then have "q \<noteq> sh" using ne by simp
    then show ?thesis by (simp add: condition_success(1) upd)
  next
    case (condition_failed q i local_delta local_reads reason cs)
    then have "q \<noteq> sh" using ne by simp
    then show ?thesis by (simp add: condition_failed(1) upd)
  next
    case (report q i r d)
    then have "q \<noteq> sh" using rep by (auto simp: participates_def)
    then show ?thesis by (simp add: report(1) upd)
  qed
  then show "reported c' sh = reported c sh" "slots c' sh = slots c sh" "workers c' sh = workers c sh" by blast+
qed

lemma failed_at_cong: "slots c' sh = slots c sh \<Longrightarrow> failed_at c' sh = failed_at c sh"
  by (simp add: failed_at_def)

lemma scc_entry_cong:
  assumes "slots c' sh = slots c sh" "workers c' sh = workers c sh"
  shows "scc_entry P reorders stores announced c' sh = scc_entry P reorders stores announced c sh"
proof -
  have "worker_committed c' sh = worker_committed c sh"
    using assms by (simp add: fun_eq_iff worker_committed_def split: worker_state.split)
  then show ?thesis
    using assms(1) by (simp add: fun_eq_iff scc_entry_def fallback_start_def failed_at_def scc_client_results_def)
qed

interpretation scc_late: late_phases "scc_step P" "speculation_done P" "scc_entry P reorders stores announced" "scc_good P"
  for P reorders stores announced
proof unfold_locales
  fix c c' sh m s sp and n :: mailbox_registry
  show "scc_good P c'" if g: "scc_good P c" and step: "scc_step P c c'"
  proof -
    obtain L b s0 ps where S: "scc_setting L b s0 ps P" "scc_inv P L b s0 c" using g unfolding scc_good_def by blast
    then show ?thesis using scc_step_inv [OF step S(2,1)] unfolding scc_good_def by blast
  qed
  show "speculation_done P c' sh \<and> scc_entry P reorders stores announced c' sh = scc_entry P reorders stores announced c sh"
    if "scc_good P c" "scc_step P c c'" "speculation_done P c sh"
    using scc_entry_cong [OF done_stays(2,3) [OF that]] done_stays(1) [OF that] that(3) by (simp only: speculation_done_def)
  assume e: "scc_entry P reorders stores announced c sh m = Ok (s, sp)" and n: "taken_mailbox n = taken_mailbox m"
  let ?b = "fallback_batch_from_failed_indices (the_batch P) (failed_at c sh)" and ?r = "scc_client_results P c sh (announced sh)"
  have "calvin_prologue (layout P) sh ?b m ?r = Ok sp"
    using e by (auto simp: scc_entry_def fallback_start_prologue rbind_eq_Inr)
  then obtain n' where "calvin_prologue (layout P) sh ?b n ?r = Ok (sp\<lparr>sp_mail := n'\<rparr>)" "same_mail n' n"
    "taken_mailbox n' = taken_mailbox (sp_mail sp)"
    using calvin_mail.prologue_mail [OF _ n] unfolding calvin_prologue_lock by blast
  then show "\<exists>n'. scc_entry P reorders stores announced c sh n = Ok (s, sp\<lparr>sp_mail := n'\<rparr>) \<and> same_mail n' n \<and>
      taken_mailbox n' = taken_mailbox (sp_mail sp)"
    using e by (auto simp: scc_entry_def fallback_start_prologue rbind_eq_Inr)
qed

section \<open>The reduction\<close>

lemma scc_entered_together:
  assumes S: "scc_setting L b s0 ps P" and c0: "scc_initial P = Ok c0"
    and run: "(scc_batch_step P reorders stores announced)\<^sup>*\<^sup>* (late_initial c0 stores mail announced) l"
    and fin: "late_finished L ps (batch_id b) UNIV l"
  obtains stores' sp d where "(scc_step P)\<^sup>*\<^sup>* c0 (lt_first l)" "\<And>sh. reported (lt_first l) sh = {..<length (txs b)}"
    "\<And>sh. fst (record_batch_reorder (batch_id b) (length (txs b)) (failed_at (lt_first l) sh) (reorders sh)) = Ok ()"
    "\<And>sh. fallback_start L b (lt_first l) sh (mail sh) (scc_client_results P (lt_first l) sh (announced sh)) (stores sh) =
      Ok (stores' sh, sp sh)"
    "(lock_step calvin_ops (lock_params_of L ps (batch_id b) sp))\<^sup>*\<^sup>* (lock_initial sp stores') d"
    "lock_finished (lock_params_of L ps (batch_id b) sp) d"
    "ls_store (lt_lock l) = ls_store d" "\<And>sh. scc_batch_records (lt_first l) (lt_lock l) sh = scc_batch_records (lt_first l) d sh"
proof -
  note sd = scc_settingD [OF S]
  have good: "scc_good P c0"
    using S scc_inv_reachable [OF S c0 rtranclp.rtrancl_refl] unfolding scc_good_def by blast
  obtain sp st d where r: "(scc_step P)\<^sup>*\<^sup>* c0 (lt_first l)"
    "\<And>sh. speculation_done P (lt_first l) sh \<and> scc_entry P reorders stores announced (lt_first l) sh (mail sh) = Ok (st sh, sp sh)"
    "(lock_step calvin_ops (lock_params_of L ps (batch_id b) sp))\<^sup>*\<^sup>* (lock_initial sp st) d"
    "lock_finished (lock_params_of L ps (batch_id b) sp) d" "\<And>sh. lock_view (lt_lock l) sh = lock_view d sh"
    by (rule scc_late.late_run [OF run [unfolded sd(3-5)] fin good]) auto
  have e: "fst (record_batch_reorder (batch_id b) (length (txs b)) (failed_at (lt_first l) sh) (reorders sh)) = Ok () \<and>
      fallback_start L b (lt_first l) sh (mail sh) (scc_client_results P (lt_first l) sh (announced sh)) (stores sh) =
      Ok (st sh, sp sh)" for sh
    using r(2) [of sh] by (auto simp: scc_entry_def rbind_eq_Inr sd(3,4))
  have v: "ls_store (lt_lock l) = ls_store d" "ls_accounts (lt_lock l) = ls_accounts d"
    using r(5) by (auto simp: lock_view_eq)
  show thesis
    by (rule that [OF r(1) _ _ _ r(3,4)]) (use r(2) e v in \<open>simp_all add: speculation_done_def sd(4) scc_batch_records_def batch_records_def\<close>)
qed

end
