(* ===== verification/SccCluster.thy ===== *)
theory SccCluster
  imports RecordedLog SccBatch
begin

text \<open>
  A log of batches under the speculative scheduler: all shards run the batches one after the other,
  and the test harness compares what they leave with the reordered reference execution.
\<close>

section \<open>A run without an abort\<close>

text \<open>
  A message to a worker that is done can find its mailbox closed, and then the batch of the sender
  aborts; it can also arrive before the mailbox is closed. So no state forces an abort.
\<close>

lemma scc_step_without_abort:
  assumes "scc_step P c c'" "failed_shards c = {}"
  shows "\<exists>c'. scc_step P c c' \<and> failed_shards c' = {}"
  using assms
proof cases
  case (deliver_closed target msg i r)
  from scc_step.deliver_unread [OF this(2-5)] show ?thesis using assms(2) by fastforce
qed (use assms in \<open>auto simp: post_def set_worker_def set_slots_def\<close>)

lemma scc_can_finish:
  assumes S: "scc_setting L b s0 ps P" and c0: "scc_initial P = Ok c0"
    and run: "(scc_step P)\<^sup>*\<^sup>* c0 c" and "failed_shards c = {}"
  shows "\<exists>c'. (scc_step P)\<^sup>*\<^sup>* c0 c' \<and> (\<forall>sh. reported c' sh = {..<length (txs b)})"
  using run assms(4)
proof (induction c rule: wfp_induct_rule [OF scc_runs_finite [of P]])
  case (1 c)
  note inv = scc_inv_reachable [OF S c0 1(2)]
  show ?case
  proof (cases "\<forall>sh. reported c sh = {..<length (txs b)}")
    case False
    then obtain sh i where "i < length (txs b)" "i \<notin> reported c sh" using scc_invD(2) [OF inv] by blast
    then obtain c' where "scc_step P c c'" using scc_progress [OF inv S] 1(3) by blast
    then obtain c' where c': "scc_step P c c'" "failed_shards c' = {}" using scc_step_without_abort 1(3) by blast
    show ?thesis by (rule 1(1) [OF c'(1) _ c'(2)]) (use 1(2) c'(1) in simp)
  qed (use 1(2) in blast)
qed

section \<open>Executions\<close>

text \<open>The parameters of a batch that starts on given stores.\<close>

definition scc_params_at ::
    "shard_layout \<Rightarrow> batch \<Rightarrow> (shard_id \<Rightarrow> fs_state) \<Rightarrow> shard_id set \<Rightarrow> scc_params result" where
  "scc_params_at L b stores ps =
     rbind (build_scc_batch_plan b) (\<lambda>p.
     Ok \<lparr>layout = L, the_batch = b, plan = p,
         base_cache = (\<lambda>sh. reads_of (stores sh) (\<Union>tx \<in> set (txs b). local_read_keys L tx sh)), peers = ps\<rparr>)"

lemma scc_params_at_parts: "scc_params_at L b (shard_part L s) ps = params_for L b s ps"
  by (simp add: scc_params_at_def params_for_def)

text \<open>
  A batch on all shards, each at its own pace: the prologue, the speculative workers to the end, the
  reorder record, the install, and the fallback to its end. It hands on the stores, the reorder records
  and the results.
\<close>

inductive scc_execution ::
    "shard_layout \<Rightarrow> shard_id set \<Rightarrow> batch list \<Rightarrow> (shard_id \<Rightarrow> fs_state) \<Rightarrow> (shard_id \<Rightarrow> batch_id \<rightharpoonup> reorder_record)
      \<Rightarrow> (shard_id \<Rightarrow> tx_result_record list) \<Rightarrow> bool"
  for L ps where
  no_batch: "scc_execution L ps [] (\<lambda>_. Map.empty) (\<lambda>_. Map.empty) (\<lambda>_. [])"
| next_batch:
    "scc_execution L ps bs stores reorders records \<Longrightarrow>
     (\<And>sh. scc_prologue L sh b (results sh) = Ok (announced sh)) \<Longrightarrow>
     scc_params_at L b stores ps = Ok P \<Longrightarrow> scc_initial P = Ok c0 \<Longrightarrow>
     (\<And>sh. fresh_mailboxes (batch_id b) Calvin (mail sh)) \<Longrightarrow>
     (scc_batch_step P reorders stores announced)\<^sup>*\<^sup>* (late_initial c0 stores mail announced) l \<Longrightarrow>
     late_finished L ps (batch_id b) UNIV l \<Longrightarrow>
     scc_execution L ps (bs @ [b]) (ls_store (lt_lock l))
       (\<lambda>sh. snd (record_batch_reorder (batch_id b) (length (txs b)) (failed_at (lt_first l) sh) (reorders sh)))
       (\<lambda>sh. records sh @ scc_batch_records (lt_first l) (lt_lock l) sh)"

lemma scc_prologue_Ok:
  assumes "scc_prologue L sh b results = Ok announced"
  shows "distinct (map tx_id (txs b))" "\<forall>t \<in> set (txs b). validate_sets t = Ok ()"
proof -
  show "distinct (map tx_id (txs b))" using assms by (auto simp: scc_prologue_def res_simps validate_batch_order_Ok)
  have "fold_res (scc_announce L sh) ts r = Ok r' \<Longrightarrow> \<forall>t \<in> set ts. validate_sets t = Ok ()" for ts r r'
    by (induction ts arbitrary: r) (auto simp: scc_announce_def res_simps)
  then show "\<forall>t \<in> set (txs b). validate_sets t = Ok ()" using assms by (auto simp: scc_prologue_def res_simps)
qed

text \<open>What is asked of the batches of a log.\<close>

definition scc_log :: "shard_layout \<Rightarrow> shard_id set \<Rightarrow> batch list \<Rightarrow> bool" where
  "scc_log L ps bs \<longleftrightarrow>
     (\<forall>t \<in> set (concat (map txs bs)). valid_op (op t) \<and> \<not> moves_into_itself (op t) \<and> p_all (participants_of L t) \<subseteq> ps) \<and>
     length (concat (map txs bs)) < 2 ^ 64"

lemma scc_log_append: "scc_log L ps (bs @ [b]) \<Longrightarrow> scc_log L ps bs"
  by (auto simp: scc_log_def)

section \<open>The invariant of a log\<close>

text \<open>The state a log leaves is small enough for the next batch, and a tree.\<close>

lemma executed_state:
  assumes c: "complete_reorders UNIV reorders bs" and l: "scc_log L ps bs" and v: "\<forall>t \<in> set (concat (map txs bs)). valid_tx t"
  shows "tree_inv (run_txs (executed_txs shards reorders bs) Map.empty)"
    "card (dom (run_txs (executed_txs shards reorders bs) Map.empty)) \<le> length (concat (map txs bs))"
proof -
  let ?ts = "executed_txs shards reorders bs"
  note m = executed_txs_mset [OF c subset_UNIV, of shards]
  have t: "set ?ts = set (concat (map txs bs))" "length ?ts = length (concat (map txs bs))"
    using mset_eq_setD [OF m] mset_eq_length [OF m] by blast+
  show "tree_inv (run_txs ?ts Map.empty)"
    by (rule tree_inv_run_txs [OF tree_inv_empty]) (use l v t in \<open>auto simp: scc_log_def\<close>)
  show "card (dom (run_txs ?ts Map.empty)) \<le> length (concat (map txs bs))"
    using card_run_txs [of Map.empty ?ts] v t by simp
qed

definition scc_log_inv ::
    "shard_layout \<Rightarrow> shard_id list \<Rightarrow> batch list \<Rightarrow> (shard_id \<Rightarrow> fs_state) \<Rightarrow> (shard_id \<Rightarrow> batch_id \<rightharpoonup> reorder_record)
      \<Rightarrow> (shard_id \<Rightarrow> tx_result_record list) \<Rightarrow> bool" where
  "scc_log_inv L shards bs stores reorders records \<longleftrightarrow>
     complete_reorders UNIV reorders bs \<and> (\<forall>t \<in> set (concat (map txs bs)). valid_tx t) \<and>
     stores = shard_part L (run_txs (executed_txs shards reorders bs) Map.empty) \<and>
     (\<forall>sh. mset (records sh) = mset (turn_records (active_shards L) Map.empty (executed_txs shards reorders bs) sh))"

lemma scc_log_inv_empty: "scc_log_inv L shards [] (\<lambda>_. Map.empty) (\<lambda>_. Map.empty) (\<lambda>_. [])"
  by (simp add: scc_log_inv_def complete_reorders_def executed_txs_def shard_part_def restrict_map_def turn_records_def fun_eq_iff)

text \<open>The setting in which the next batch of a log runs.\<close>

lemma next_setting:
  assumes I: "scc_log_inv L shards bs stores reorders records" and l: "scc_log L (set shards) (bs @ [b])"
    and b: "distinct (map tx_id (txs b))" "\<forall>t \<in> set (txs b). validate_sets t = Ok ()"
    and P: "scc_params_at L b stores (set shards) = Ok P"
  shows "scc_setting L b (run_txs (executed_txs shards reorders bs) Map.empty) (set shards) P"
    "\<forall>i < length (txs b). parts L b i \<subseteq> set shards"
proof -
  note i = I [unfolded scc_log_inv_def]
  let ?s = "run_txs (executed_txs shards reorders bs) Map.empty"
  have e: "tree_inv ?s" "card (dom ?s) \<le> length (concat (map txs bs))"
    by (rule executed_state [OF _ scc_log_append [OF l]]; use i in blast)+
  have v: "valid_tx t \<and> \<not> moves_into_itself (op t) \<and> p_all (participants_of L t) \<subseteq> set shards" if "t \<in> set (txs b)" for t
    using l b(2) that by (auto simp: scc_log_def valid_tx_def)
  then show "\<forall>i < length (txs b). parts L b i \<subseteq> set shards" by simp
  have "length (concat (map txs bs)) + length (txs b) < 2 ^ 64" using l by (simp add: scc_log_def)
  then have "scc_batch b ?s" using e v by (auto simp: scc_batch_def)
  then show "scc_setting L b ?s (set shards) P"
    using b(1) v P i by (simp add: scc_setting_def scc_params_at_parts [symmetric])
qed

lemma scc_log_inv_step:
  assumes I: "scc_log_inv L shards bs stores reorders records" and l: "scc_log L (set shards) (bs @ [b])"
    and pro: "\<And>sh. scc_prologue L sh b (results sh) = Ok (announced sh)"
    and P: "scc_params_at L b stores (set shards) = Ok P"
    and run: "scc_initial P = Ok c0" "(scc_step P)\<^sup>*\<^sup>* c0 c" and all: "\<And>sh. reported c sh = {..<length (txs b)}"
    and rec: "\<And>sh. record_batch_reorder (batch_id b) (length (txs b)) (failed_at c sh) (reorders sh) = (Ok (), reorders' sh)"
    and start: "\<And>sh. fresh_mailboxes (batch_id b) Calvin (mail sh) \<and>
      fallback_start L b c sh (mail sh) (scc_client_results P c sh (announced sh)) (stores sh) = Ok (stores' sh, sp sh)"
    and fallback: "(lock_step calvin_ops (lock_params_of L (set shards) (batch_id b) sp))\<^sup>*\<^sup>* (lock_initial sp stores') d"
    and finished: "lock_finished (lock_params_of L (set shards) (batch_id b) sp) d"
  shows "scc_log_inv L shards (bs @ [b]) (ls_store d) reorders' (\<lambda>sh. records sh @ scc_batch_records c d sh)"
proof -
  note i = I [unfolded scc_log_inv_def] and p = scc_prologue_Ok [OF pro]
  let ?s = "run_txs (executed_txs shards reorders bs) Map.empty"
  note S = next_setting [OF I l p P]
  have all': "\<forall>sh. reported c sh = {..<length (txs b)}" using all by blast
  note can = scc_records_canonical [OF S(1) run all']
  have u: "reorders sh (batch_id b) = None \<and> reorders' sh = (reorders sh)(batch_id b \<mapsto> canonical_reorder b (failed_at c sh))" for sh
    using record_batch_reorder_Ok [OF rec can(1)] by blast
  note step = complete_reorders_step [where reorders = reorders and reorders' = reorders' and F = "failed_at c" and b = b and bs = bs and
    S = UNIV and shards = shards, OF _ UNIV_not_empty subset_UNIV can(1) u]
  have order: "combined_order shards reorders' b = scc_reorder L b ?s"
    using step(2) i can(2) [OF S(2)] by (simp add: scc_reorder_def)
  have start': "fresh_mailboxes (batch_id b) Calvin (mail sh) \<and>
      fallback_start L b c sh (mail sh) (scc_client_results P c sh (announced sh)) (shard_part L ?s sh) = Ok (stores' sh, sp sh)" for sh
    using start i by simp
  note out = scc_outcome [OF S(1) run all' start' fallback finished]
  have ts: "executed_txs shards reorders' (bs @ [b]) = executed_txs shards reorders bs @ permuted_txs b (scc_reorder L b ?s)"
    using step(3) i order by (simp add: executed_txs_def)
  show ?thesis
    unfolding scc_log_inv_def
  proof (intro conjI allI)
    show "complete_reorders UNIV reorders' (bs @ [b])" using step(1) i by blast
    show "\<forall>t \<in> set (concat (map txs (bs @ [b]))). valid_tx t"
      using i p(2) l by (auto simp: valid_tx_def scc_log_def)
    show "ls_store d = shard_part L (run_txs (executed_txs shards reorders' (bs @ [b])) Map.empty)"
      using out(1) unfolding ts by (simp add: fun_eq_iff)
    show "mset (records sh @ scc_batch_records c d sh) =
        mset (turn_records (active_shards L) Map.empty (executed_txs shards reorders' (bs @ [b])) sh)" for sh
      using out(3) [of sh] i unfolding ts by (simp add: turn_records_append)
  qed
qed

lemma scc_execution_inv:
  assumes "scc_execution L (set shards) bs stores reorders records" "scc_log L (set shards) bs"
  shows "scc_log_inv L shards bs stores reorders records"
  using assms
proof (induction)
  case no_batch
  show ?case by (rule scc_log_inv_empty)
next
  case (next_batch bs stores reorders records b results announced P c0 mail l)
  note I = next_batch.IH [OF scc_log_append [OF next_batch.prems]]
  note S = next_setting [OF I next_batch.prems scc_prologue_Ok [OF next_batch.hyps(2)] next_batch.hyps(3)]
  let ?c = "lt_first l"
  let ?reorders = "\<lambda>sh. snd (record_batch_reorder (batch_id b) (length (txs b)) (failed_at ?c sh) (reorders sh))"
  obtain stores' sp d where r: "(scc_step P)\<^sup>*\<^sup>* c0 ?c" "\<And>sh. reported ?c sh = {..<length (txs b)}"
    "\<And>sh. fst (record_batch_reorder (batch_id b) (length (txs b)) (failed_at ?c sh) (reorders sh)) = Ok ()"
    "\<And>sh. fallback_start L b ?c sh (mail sh) (scc_client_results P ?c sh (announced sh)) (stores sh) = Ok (stores' sh, sp sh)"
    "(lock_step calvin_ops (lock_params_of L (set shards) (batch_id b) sp))\<^sup>*\<^sup>* (lock_initial sp stores') d"
    "lock_finished (lock_params_of L (set shards) (batch_id b) sp) d"
    "ls_store (lt_lock l) = ls_store d" "\<And>sh. scc_batch_records ?c (lt_lock l) sh = scc_batch_records ?c d sh"
    using scc_entered_together [OF S(1) next_batch.hyps(4,6,7)] by blast
  have rec: "record_batch_reorder (batch_id b) (length (txs b)) (failed_at ?c sh) (reorders sh) = (Ok (), ?reorders sh)" for sh
    using r(3) [of sh] by (simp add: prod_eq_iff)
  have start: "fresh_mailboxes (batch_id b) Calvin (mail sh) \<and>
      fallback_start L b ?c sh (mail sh) (scc_client_results P ?c sh (announced sh)) (stores sh) = Ok (stores' sh, sp sh)" for sh
    using next_batch.hyps(5) r(4) by blast
  show ?case
    unfolding r(7,8) by (rule scc_log_inv_step [OF I next_batch.prems next_batch.hyps(2-4) r(1,2) rec start r(5,6)])
qed

section \<open>Executions exist\<close>

lemma scc_prologue_accepts:
  assumes "validate_batch_order b = Ok ()" "\<forall>t \<in> set (txs b). validate_sets t = Ok ()"
  shows "\<exists>announced. scc_prologue L sh b results = Ok announced"
proof -
  have "\<exists>r'. fold_res (scc_announce L sh) ts r = Ok r'" if "\<forall>t \<in> set ts. validate_sets t = Ok ()" for ts r
    using that
  proof (induction ts arbitrary: r)
    case (Cons t ts)
    then obtain rs where "result_shard L t = Some rs" using validate_sets_finite(4) by fastforce
    then show ?case using Cons by (simp add: scc_announce_def)
  qed simp
  then show ?thesis using assms by (simp add: scc_prologue_def)
qed

lemma scc_execution_exists:
  assumes "scc_log L (set shards) bs" "distinct (map batch_id bs)"
    and "\<forall>b \<in> set bs. validate_batch_order b = Ok () \<and> (\<forall>t \<in> set (txs b). validate_sets t = Ok ())"
  shows "\<exists>stores reorders records. scc_execution L (set shards) bs stores reorders records"
  using assms
proof (induction bs rule: rev_induct)
  case Nil
  show ?case using scc_execution.no_batch by blast
next
  case (snoc b bs)
  obtain stores reorders records where e: "scc_execution L (set shards) bs stores reorders records"
    using snoc.IH snoc.prems scc_log_append by auto
  note I = scc_execution_inv [OF e scc_log_append [OF snoc.prems(1)]]
  let ?s = "run_txs (executed_txs shards reorders bs) Map.empty" and ?m = "\<lambda>_ :: shard_id. mailbox_registry_new"
  have st: "stores = shard_part L ?s" using I by (simp add: scc_log_inv_def)
  have b: "validate_batch_order b = Ok ()" "\<forall>t \<in> set (txs b). validate_sets t = Ok ()" using snoc.prems(3) by auto
  then have "\<forall>sh. \<exists>a. scc_prologue L sh b Map.empty = Ok a" using scc_prologue_accepts by blast
  then obtain announced where pro: "\<And>sh. scc_prologue L sh b ((\<lambda>_. Map.empty) sh) = Ok (announced sh)" by metis
  have "\<And>t. t \<in> set (txs b) \<Longrightarrow> valid_op (op t)" using snoc.prems(1) by (auto simp: scc_log_def)
  then obtain P where P: "scc_params_at L b stores (set shards) = Ok P" using build_plan_eq by (fastforce simp: scc_params_at_def)
  note S = next_setting [OF I snoc.prems(1) scc_prologue_Ok [OF pro] P]
  obtain c0 where c0: "scc_initial P = Ok c0" using scc_initial_inv [OF S(1)] by blast
  have "failed_shards c0 = {}" using c0 by (auto simp: scc_initial_def rbind_eq_Inr)
  then obtain c where c: "(scc_step P)\<^sup>*\<^sup>* c0 c" "\<forall>sh. reported c sh = {..<length (txs b)}"
    using scc_can_finish [OF S(1) c0 rtranclp.rtrancl_refl] by blast
  note can = scc_records_canonical [OF S(1) c0 c]
  have "reorders sh (batch_id b) = None" for sh
  proof -
    have "dom (reorders sh) = batch_id ` set bs" using I by (simp add: scc_log_inv_def complete_reorders_def)
    then show ?thesis using snoc.prems(2) by (auto simp: domIff)
  qed
  then have rec: "record_batch_reorder (batch_id b) (length (txs b)) (failed_at c sh) (reorders sh) =
      (Ok (), (reorders sh)(batch_id b \<mapsto> canonical_reorder b (failed_at c sh)))" for sh
    by (intro record_batch_reorder_fresh can(1))
  have "\<forall>sh. \<exists>sp. fallback_start L b c sh (?m sh) (scc_client_results P c sh (announced sh)) (shard_part L ?s sh) =
      Ok (shard_part L (scc_state L b ?s (length (txs b))) sh, sp)"
    using scc_fallback_accepted [OF S(1) c0 c batch_order_length [OF b(1)] fresh_mailboxes_new] by blast
  then obtain sp where sp: "\<And>sh. fallback_start L b c sh (?m sh) (scc_client_results P c sh (announced sh)) (shard_part L ?s sh) =
      Ok (shard_part L (scc_state L b ?s (length (txs b))) sh, sp sh)" by metis
  let ?B = "scc_fallback_batch L (set shards) b ?s" and ?stores = "shard_part L (scc_state L b ?s (length (txs b)))"
  have C: "calvin_setting ?B (\<lambda>sh. fallback_batch_from_failed_indices b (failed_at c sh)) sp ?stores"
    by (rule scc_fallback_setting [OF S(1) c0 c fresh_mailboxes_new sp])
  obtain d where d: "(lock_step calvin_ops (params_for_batch ?B sp))\<^sup>*\<^sup>* (lock_initial sp ?stores) d"
    "lock_finished (params_for_batch ?B sp) d" using calvin_can_finish [OF C rtranclp.rtrancl_refl] by blast
  have "params_for_batch ?B sp = lock_params_of L (set shards) (batch_id b) sp" by simp
  note d = d [unfolded this]
  have "speculation_done P c sh \<and> scc_entry P reorders stores announced c sh (?m sh) = Ok (?stores sh, sp sh)" for sh
    using c(2) sp [of sh] unfolding st by (simp add: speculation_done_def scc_entry_def scc_settingD(3,4) [OF S(1)] rec)
  then obtain l where l: "(scc_batch_step P reorders stores announced)\<^sup>*\<^sup>* (late_initial c0 stores ?m announced) l"
    "late_finished L (set shards) (batch_id b) UNIV l"
    using scc_late.late_run_exists_all [OF c(1) _ d, where mail = ?m and results = announced]
    unfolding scc_settingD(3-5) [OF S(1)] by metis
  show ?case
    using scc_execution.next_batch [OF e pro P c0 fresh_mailboxes_new l] by blast
qed

section \<open>The contract\<close>

definition scc_fit :: "shard_layout \<Rightarrow> shard_id set \<Rightarrow> batch list \<Rightarrow> bool" where
  "scc_fit L ps bs \<longleftrightarrow> scc_log L ps bs \<and> distinct (map batch_id bs) \<and>
     (\<forall>b \<in> set bs. validate_batch_order b = Ok () \<and> (\<forall>t \<in> set (txs b). validate_sets t = Ok ()))"

interpretation speculative: recorded_scheduler scc_execution scc_fit active_shards
proof unfold_locales
  fix L shards bs stores reorders records
  assume f: "scc_fit L (set shards) bs"
  then show "\<exists>stores reorders records. scc_execution L (set shards) bs stores reorders records"
    using scc_execution_exists [of L shards bs] by (simp add: scc_fit_def)
  assume "scc_execution L (set shards) bs stores reorders records"
  then have "scc_log_inv L shards bs stores reorders records"
    using scc_execution_inv f by (simp add: scc_fit_def)
  then show "recorded_outcome (active_shards L) L shards bs stores reorders records"
    by (simp add: scc_log_inv_def recorded_outcome_def complete_reorders_def)
qed

text \<open>A permutation of a log without renames into the own subtree keeps the tree, and the result check of
  the harness accepts the records of its turns.\<close>

lemma permuted_log_passes:
  assumes f: "scc_fit L (set shards) bs" and d: "distinct shards" "distinct (map tx_id (concat (map txs bs)))"
    and m: "mset ts = mset (concat (map txs bs))"
    and r: "\<forall>sh \<in> set shards. mset (records sh) = mset (turn_records (active_shards L) Map.empty ts sh)"
  shows "tree_inv (fold (\<lambda>t. op_apply (op t)) ts Map.empty)"
    "assert_tx_results_consistent L bs (concat (map records shards)) = Ok ()"
proof -
  have set_ts: "set ts = set (concat (map txs bs))" using m by (rule mset_eq_setD)
  have t: "valid_tx t" "\<not> moves_into_itself (op t)" "p_all (participants_of L t) \<subseteq> set shards" if "t \<in> set ts" for t
    using f that unfolding set_ts by (auto simp: scc_fit_def scc_log_def valid_tx_def)
  then have "fold (\<lambda>t. op_apply (op t)) ts Map.empty = run_txs ts Map.empty" using run_txs_op_apply by metis
  moreover have "length ts \<le> 2 ^ 64" using f mset_eq_length [OF m] by (simp add: scc_fit_def scc_log_def)
  ultimately show "tree_inv (fold (\<lambda>t. op_apply (op t)) ts Map.empty)" using tree_inv_run_txs [OF tree_inv_empty] t by simp
  show "assert_tx_results_consistent L bs (concat (map records shards)) = Ok ()"
  proof (rule turn_records_accepted [where s = Map.empty and ts = ts])
    have "mset (map tx_id ts) = mset (map tx_id (concat (map txs bs)))" using m by (simp only: mset_map)
    then show "distinct (map tx_id ts)" using d(2) mset_eq_imp_distinct_iff by blast
    show "p_active (participants_of L t) \<subseteq> set shards \<and> p_active (participants_of L t) \<noteq> {}" if "t \<in> set ts" for t
      using t [OF that] calvin_active_sub valid_tx_active by blast
  qed (use d(1) r set_ts in auto)
qed

section \<open>The batches of a sequencer\<close>

lemma sent_batches_log:
  assumes "sequencer_ok s" "op ` all_txs s \<subseteq> {fs. valid_op fs \<and> \<not> moves_into_itself fs}" "0 < shard_count L"
  shows "scc_log L {sh. sh < shard_count L} (map dj_batch (sq_dispatched s))"
    "distinct (map batch_id (map dj_batch (sq_dispatched s)))"
    "distinct (map tx_id (concat (map txs (map dj_batch (sq_dispatched s)))))"
proof -
  have sent: "concat (map txs (map dj_batch (sq_dispatched s))) = sent_txs s" by (simp add: sent_txs_def comp_def)
  have "length (sent_txs s) \<le> unat (sq_next_tx_id s)"
    using assms(1) ascending_length [of "map tx_id (sent_txs s @ open_txs s)"] unfolding sequencer_ok_def by fastforce
  moreover have "unat (sq_next_tx_id s) < 2 ^ 64" using unsigned_less [of "sq_next_tx_id s"] by simp
  ultimately have "length (sent_txs s) < 2 ^ 64" by simp
  moreover have "p_all (participants_of L t) \<subseteq> {sh. sh < shard_count L}" for t
    using shard_for_key_bound [OF assms(3)] by (auto simp: participants_of_def participants_all)
  ultimately show "scc_log L {sh. sh < shard_count L} (map dj_batch (sq_dispatched s))"
    using assms(2) unfolding scc_log_def sent by (auto simp: all_txs_def)
  show "distinct (map batch_id (map dj_batch (sq_dispatched s)))"
    using dispatched_batches(1) [OF assms(1)] by (simp add: strict_sorted_iff comp_def)
  show "distinct (map tx_id (concat (map txs (map dj_batch (sq_dispatched s)))))"
    using dispatched_batches(2) [OF assms(1)] by (simp add: strict_sorted_iff comp_def)
qed

end
