(* ===== verification/AriaSerial.thy ===== *)
theory AriaSerial
  imports Aria
begin

text \<open>
  The optimistic batch without its processes: what every coordinator does on the state before the
  batch, which transactions lose a conflict, what the shards compute from complete registries, and
  why the winners, executed on one common snapshot, have the effect and the results of their serial
  execution: nothing a winner reads is written by an earlier transaction of the batch.
\<close>

section \<open>What the batch and the state determine\<close>

abbreviation ap_size :: "aria_params \<Rightarrow> nat" where "ap_size P \<equiv> length (txs (ap_batch P))"

definition rset :: "aria_params \<Rightarrow> nat \<Rightarrow> key set" where
  "rset P i = read_set (ap_tx P i)"

definition aria_output :: "aria_params \<Rightarrow> fs_state \<Rightarrow> nat \<Rightarrow> tx_output" where
  "aria_output P s0 i = op_output (op (ap_tx P i)) s0"

definition wset :: "aria_params \<Rightarrow> fs_state \<Rightarrow> nat \<Rightarrow> key set" where
  "wset P s0 i = write_key ` set (writes (aria_output P s0 i))"

definition aria_targets :: "aria_params \<Rightarrow> fs_state \<Rightarrow> nat \<Rightarrow> shard_id set" where
  "aria_targets P s0 i = insert (ap_shard P i) (shard_for_key (ap_layout P) ` wset P s0 i)"

definition aria_message :: "aria_params \<Rightarrow> fs_state \<Rightarrow> nat \<Rightarrow> shard_id \<Rightarrow> aria_stage_outcome" where
  "aria_message P s0 i target =
     \<lparr>aso_batch_id = ap_id P, aso_tx_index = i, aso_tx_id = tx_id (ap_tx P i), aso_from_shard = ap_shard P i,
      aso_result = result (aria_output P s0 i),
      aso_writes = filter_local_writes (writes (aria_output P s0 i)) target (ap_layout P),
      aso_is_result_shard = (target = ap_shard P i)\<rparr>"

definition aria_staged :: "aria_params \<Rightarrow> fs_state \<Rightarrow> nat \<Rightarrow> shard_id \<Rightarrow> aria_staged_outcome" where
  "aria_staged P s0 i sh =
     \<lparr>ast_tx_index = i, ast_tx_id = tx_id (ap_tx P i),
      ast_result = (if sh = ap_shard P i then Some (result (aria_output P s0 i)) else None),
      ast_local_writes = filter_local_writes (writes (aria_output P s0 i)) sh (ap_layout P),
      ast_is_result_shard = (sh = ap_shard P i)\<rparr>"

text \<open>A transaction fails on a shard if an earlier one writes a key of the shard that it reads.\<close>

definition local_failures :: "aria_params \<Rightarrow> fs_state \<Rightarrow> shard_id \<Rightarrow> nat set" where
  "local_failures P s0 sh =
     {i. i < ap_size P \<and> (\<exists>w < i. \<exists>k \<in> wset P s0 w \<inter> rset P i. shard_for_key (ap_layout P) k = sh)}"

definition aria_failures :: "aria_params \<Rightarrow> fs_state \<Rightarrow> nat set" where
  "aria_failures P s0 = {i. i < ap_size P \<and> (\<exists>w < i. wset P s0 w \<inter> rset P i \<noteq> {})}"

definition aria_winners :: "aria_params \<Rightarrow> fs_state \<Rightarrow> nat list" where
  "aria_winners P s0 = filter (\<lambda>i. i \<notin> aria_failures P s0) [0..<ap_size P]"

definition aria_state :: "aria_params \<Rightarrow> fs_state \<Rightarrow> fs_state" where
  "aria_state P s0 = run_txs (map (ap_tx P) (aria_winners P s0)) s0"

definition aria_batch :: "aria_params \<Rightarrow> bool" where
  "aria_batch P \<longleftrightarrow> (\<forall>t \<in> set (txs (ap_batch P)). valid_tx t) \<and> 0 < ap_count P"

lemma aria_batchD: "aria_batch P \<Longrightarrow> i < ap_size P \<Longrightarrow> valid_tx (ap_tx P i)"
  by (simp add: aria_batch_def)

lemma wset_subset:
  assumes "aria_batch P" "i < ap_size P"
  shows "wset P s0 i \<subseteq> rset P i" "wset P s0 i \<subseteq> write_set (ap_tx P i)"
proof -
  note v = aria_batchD [OF assms]
  show "wset P s0 i \<subseteq> write_set (ap_tx P i)"
    using op_output_writes v by (simp add: wset_def aria_output_def valid_tx_iff)
  then show "wset P s0 i \<subseteq> rset P i" using valid_tx_sets(4) [OF v] by (auto simp: rset_def)
qed

lemma rset_finite: "aria_batch P \<Longrightarrow> i < ap_size P \<Longrightarrow> finite (rset P i)"
  using valid_tx_sets(1) [OF aria_batchD] by (simp add: rset_def)

lemma owner_less: "aria_batch P \<Longrightarrow> shard_for_key (ap_layout P) k < ap_count P"
  by (simp add: aria_batch_def shard_for_key_def word_mod_less_divisor)

lemma ap_shard_less: "aria_batch P \<Longrightarrow> ap_shard P i < ap_count P"
  by (simp add: aria_batch_def aria_result_shard_def word_mod_less_divisor)

lemma targets_less: "aria_batch P \<Longrightarrow> sh \<in> aria_targets P s0 i \<Longrightarrow> sh < ap_count P"
  using owner_less ap_shard_less by (auto simp: aria_targets_def)

lemma finite_targets [simp]: "finite (aria_targets P s0 i)"
  by (simp add: aria_targets_def wset_def)

text \<open>Every failure is found on the shard of the key.\<close>

lemma failures_union:
  assumes "aria_batch P"
  shows "(\<Union>sh \<in> {sh. sh < ap_count P}. local_failures P s0 sh) = aria_failures P s0"
  using owner_less [OF assms] by (auto simp: local_failures_def aria_failures_def)

section \<open>The winners are serial\<close>

lemma winner_reads_snapshot:
  assumes b: "aria_batch P" and i: "i < ap_size P" "i \<notin> aria_failures P s0"
    and js: "set js \<subseteq> {..<i}" and k: "k \<in> rset P i"
  shows "fold (\<lambda>j s. apply_writes s (writes (aria_output P s0 j))) js s0 k = s0 k"
proof -
  have "k \<notin> wset P s0 j" if "j \<in> set js" for j
    using i js k that by (auto simp: aria_failures_def)
  then have "fold (\<lambda>j s. apply_writes s (writes (aria_output P s0 j))) js s k = s k" for s
  proof (induction js arbitrary: s)
    case (Cons j js)
    have "fold (\<lambda>j s. apply_writes s (writes (aria_output P s0 j))) js (apply_writes s (writes (aria_output P s0 j))) k =
        apply_writes s (writes (aria_output P s0 j)) k" using Cons by simp
    also have "\<dots> = s k" using Cons.prems [of j] by (intro apply_writes_other) (auto simp: wset_def)
    finally show ?case by simp
  qed simp
  then show ?thesis .
qed

lemma winners_prefix_serial:
  assumes b: "aria_batch P" and "m \<le> ap_size P"
  shows "run_txs (map (ap_tx P) (filter (\<lambda>i. i \<notin> aria_failures P s0) [0..<m])) s0 =
    fold (\<lambda>j s. apply_writes s (writes (aria_output P s0 j))) (filter (\<lambda>i. i \<notin> aria_failures P s0) [0..<m]) s0"
  using assms(2)
proof (induction m)
  case (Suc m)
  let ?js = "filter (\<lambda>i. i \<notin> aria_failures P s0) [0..<m]"
  let ?s = "fold (\<lambda>j s. apply_writes s (writes (aria_output P s0 j))) ?js s0"
  have v: "valid_tx (ap_tx P m)" using aria_batchD [OF b, of m] Suc.prems by simp
  show ?case
  proof (cases "m \<in> aria_failures P s0")
    case False
    have out: "op_output (op (ap_tx P m)) ?s = op_output (op (ap_tx P m)) s0"
    proof (rule op_output_cong)
      show "valid_op (op (ap_tx P m))" using v by (simp add: valid_tx_iff)
      fix k assume "k \<in> op_reads (op (ap_tx P m))"
      then have "k \<in> rset P m" using v by (simp add: rset_def valid_tx_iff)
      moreover have "set ?js \<subseteq> {..<m}" by auto
      ultimately show "?s k = s0 k"
        using winner_reads_snapshot [OF b _ False, of ?js k] Suc.prems by simp
    qed
    have "apply_reference_tx (ap_tx P m) ?s = apply_writes ?s (writes (aria_output P s0 m))"
      unfolding apply_reference_tx_eq [OF v] op_apply_def out by (simp add: aria_output_def)
    then show ?thesis using Suc False by (simp add: run_txs_def)
  qed (use Suc in simp)
qed (simp add: run_txs_def)

lemma aria_state_fold:
  assumes "aria_batch P"
  shows "aria_state P s0 = fold (\<lambda>j s. apply_writes s (writes (aria_output P s0 j))) (aria_winners P s0) s0"
  unfolding aria_state_def aria_winners_def by (rule winners_prefix_serial [OF assms order_refl])

text \<open>The result of a winner is that of its turn in the serial execution.\<close>

lemma winner_result_serial:
  assumes b: "aria_batch P" and i: "i < ap_size P" "i \<notin> aria_failures P s0"
  shows "op_result (op (ap_tx P i)) (run_txs (map (ap_tx P) (filter (\<lambda>j. j \<notin> aria_failures P s0) [0..<i])) s0) =
    result (aria_output P s0 i)"
proof -
  have v: "valid_tx (ap_tx P i)" by (rule aria_batchD [OF b i(1)])
  let ?js = "filter (\<lambda>j. j \<notin> aria_failures P s0) [0..<i]"
  have "op_output (op (ap_tx P i)) (run_txs (map (ap_tx P) ?js) s0) = aria_output P s0 i"
    unfolding aria_output_def winners_prefix_serial [OF b less_imp_le [OF i(1)]]
  proof (rule op_output_cong)
    show "valid_op (op (ap_tx P i))" using v by (simp add: valid_tx_iff)
    fix k assume "k \<in> op_reads (op (ap_tx P i))"
    then have "k \<in> rset P i" using v by (simp add: rset_def valid_tx_iff)
    moreover have "set ?js \<subseteq> {..<i}" by auto
    ultimately show "fold (\<lambda>j s. apply_writes s (writes (op_output (op (ap_tx P j)) s0))) ?js s0 k = s0 k"
      using winner_reads_snapshot [OF b i, of ?js k] by (simp add: aria_output_def)
  qed
  then show ?thesis by (simp add: op_result_def)
qed

section \<open>What a shard computes from a complete registry\<close>

definition key_set :: "(key \<rightharpoonup> nat set) \<Rightarrow> key \<Rightarrow> nat set" where
  "key_set m k = (case m k of Some A \<Rightarrow> A | None \<Rightarrow> {})"

lemma key_set_insert_at: "key_set (insert_at k i m) q = (if q = k then insert i (key_set m k) else key_set m q)"
  by (simp add: key_set_def insert_at_def split: option.split)

lemma key_set_fold_insert:
  "key_set (fold (\<lambda>w. insert_at (write_key w) i) ws m) q =
     (if q \<in> write_key ` set ws then insert i (key_set m q) else key_set m q)"
  by (induction ws arbitrary: m) (auto simp: key_set_insert_at)

lemma failed_indices_at_iff:
  assumes "finite (key_set (writers_by_key e) k)"
  shows "i \<in> failed_indices_at e k \<longleftrightarrow>
    i \<in> key_set (writers_by_key e) k \<union> key_set (readers_by_key e) k \<and> (\<exists>w \<in> key_set (writers_by_key e) k. w < i)"
proof (cases "key_set (writers_by_key e) k = {}")
  case True
  then show ?thesis by (auto simp: failed_indices_at_def key_set_def split: option.splits)
next
  case False
  then obtain ws where ws: "writers_by_key e k = Some ws" "ws \<noteq> {}" "key_set (writers_by_key e) k = ws"
    by (auto simp: key_set_def split: option.splits)
  have fin: "finite ws" using assms ws(3) by simp
  have "w \<noteq> Min ws \<longleftrightarrow> (\<exists>v \<in> ws. v < w)" if "w \<in> ws" for w
    using Min_less_iff [OF fin ws(2), of w] Min_le [OF fin that] by auto
  moreover have "Min ws < r \<longleftrightarrow> (\<exists>v \<in> ws. v < r)" for r by (rule Min_less_iff [OF fin ws(2)])
  ultimately show ?thesis
    using ws by (auto simp: failed_indices_at_def Let_def key_set_def split: option.splits)
qed

lemma local_failed_indices_complete:
  assumes b: "aria_batch P"
    and w: "\<And>k. key_set (writers_by_key e) k =
      (if shard_for_key (ap_layout P) k = sh then {i. i < ap_size P \<and> k \<in> wset P s0 i} else {})"
    and r: "\<And>k. key_set (readers_by_key e) k =
      (if shard_for_key (ap_layout P) k = sh then {i. i < ap_size P \<and> k \<in> rset P i} else {})"
  shows "local_failed_indices e = local_failures P s0 sh"
proof -
  have fin: "finite (key_set (writers_by_key e) k)" for k by (simp add: w)
  have at: "i \<in> failed_indices_at e k \<longleftrightarrow> shard_for_key (ap_layout P) k = sh \<and> i < ap_size P \<and> k \<in> rset P i \<and>
      (\<exists>v < i. k \<in> wset P s0 v)" for i k
    unfolding failed_indices_at_iff [OF fin] w r using wset_subset(1) [OF b, of i s0]
    by (auto intro: less_trans)
  have dom: "k \<in> dom (writers_by_key e) \<union> dom (readers_by_key e)" if "i \<in> failed_indices_at e k" for i k
    using that by (auto simp: failed_indices_at_def split: option.splits if_splits)
  then have "i \<in> local_failed_indices e \<longleftrightarrow> (\<exists>k. i \<in> failed_indices_at e k)" for i
    unfolding local_failed_indices_def UN_iff by meson
  then show ?thesis unfolding at by (intro set_eqI) (simp add: local_failures_def, blast)
qed

text \<open>Installing the winners turns the shard's part of the snapshot into its part of their state.\<close>

lemma shard_part_writes:
  "apply_writes (shard_part L s sh) (filter_local_writes ws sh L) = shard_part L (apply_writes s ws) sh"
proof
  fix k
  show "apply_writes (shard_part L s sh) (filter_local_writes ws sh L) k = shard_part L (apply_writes s ws) sh k"
    unfolding filter_local_writes_def apply_writes_filter [where P = "\<lambda>k. shard_for_key L k = sh"]
    using apply_writes_cong [of "shard_part L s sh" k s ws] by (simp add: shard_part_def restrict_map_def)
qed

lemma shard_part_winners:
  assumes "aria_batch P"
  shows "fold (\<lambda>j s. apply_writes s (filter_local_writes (writes (aria_output P s0 j)) sh (ap_layout P)))
      (aria_winners P s0) (shard_part (ap_layout P) s0 sh) = shard_part (ap_layout P) (aria_state P s0) sh"
proof -
  have "fold (\<lambda>j s. apply_writes s (filter_local_writes (writes (aria_output P s0 j)) sh (ap_layout P))) js
      (shard_part (ap_layout P) s sh) =
      shard_part (ap_layout P) (fold (\<lambda>j s. apply_writes s (writes (aria_output P s0 j))) js s) sh" for js s
    by (induction js arbitrary: s) (simp_all add: shard_part_writes)
  then show ?thesis by (simp add: aria_state_fold [OF assms])
qed

definition aria_record :: "aria_params \<Rightarrow> fs_state \<Rightarrow> nat \<Rightarrow> tx_result_record" where
  "aria_record P s0 i = \<lparr>rec_tx_id = tx_id (ap_tx P i), rec_shard_id = ap_shard P i,
     rec_result = result (aria_output P s0 i)\<rparr>"

definition aria_records :: "aria_params \<Rightarrow> fs_state \<Rightarrow> shard_id \<Rightarrow> tx_result_record list" where
  "aria_records P s0 sh = map (aria_record P s0) (filter (\<lambda>i. ap_shard P i = sh) (aria_winners P s0))"

definition aria_results :: "aria_params \<Rightarrow> fs_state \<Rightarrow> shard_id \<Rightarrow> tx_result_registry \<Rightarrow> tx_result_registry" where
  "aria_results P s0 sh results = fold (\<lambda>i. mark_ready (tx_id (ap_tx P i)) (result (aria_output P s0 i)))
     (filter (\<lambda>i. ap_shard P i = sh) (aria_winners P s0)) results"

lemma install_complete:
  assumes b: "aria_batch P"
    and staged: "staged_outcomes e = (\<lambda>i. if i < ap_size P \<and> sh \<in> aria_targets P s0 i then Some (aria_staged P s0 i sh) else None)"
  shows "install_aria_successes sh e (aria_failures P s0) (shard_part (ap_layout P) s0 sh) results =
    (Ok (), shard_part (ap_layout P) (aria_state P s0) sh, aria_results P s0 sh results, aria_records P s0 sh)"
proof -
  let ?is = "filter (\<lambda>i. sh \<in> aria_targets P s0 i) [0..<ap_size P]" and ?F = "aria_failures P s0"
  have "dom (staged_outcomes e) = {i. i < ap_size P \<and> sh \<in> aria_targets P s0 i}" by (auto simp: staged split: if_splits)
  then have "sorted_list_of_set (dom (staged_outcomes e)) = ?is" by (simp add: sorted_list_filter)
  then have list: "staged_outcome_list e = map (\<lambda>i. aria_staged P s0 i sh) ?is"
    by (simp add: staged_outcome_list_def staged)
  have sort: "sort_key ast_tx_index (staged_outcome_list e) = staged_outcome_list e"
    unfolding list by (rule sort_key_id_if_sorted) (simp add: aria_staged_def comp_def sorted_wrt_filter)
  have run: "install_aria_loop sh ?F (map (\<lambda>i. aria_staged P s0 i sh) (filter (\<lambda>i. sh \<in> aria_targets P s0 i) is))
      (store, res, recs) =
      (Ok (), fold (\<lambda>j s. apply_writes s (filter_local_writes (writes (aria_output P s0 j)) sh (ap_layout P)))
            (filter (\<lambda>i. i \<notin> ?F) is) store,
          fold (\<lambda>i. mark_ready (tx_id (ap_tx P i)) (result (aria_output P s0 i)))
            (filter (\<lambda>i. ap_shard P i = sh) (filter (\<lambda>i. i \<notin> ?F) is)) res,
          recs @ map (aria_record P s0) (filter (\<lambda>i. ap_shard P i = sh) (filter (\<lambda>i. i \<notin> ?F) is)))" for "is" store res recs
  proof (induction "is" arbitrary: store res recs)
    case (Cons i "is")
    have none: "filter_local_writes (writes (aria_output P s0 i)) sh (ap_layout P) = []" "ap_shard P i \<noteq> sh"
      if "sh \<notin> aria_targets P s0 i"
      using that by (auto simp: filter_local_writes_def filter_empty_conv aria_targets_def wset_def)
    show ?case
      using Cons none
      by (cases "sh \<in> aria_targets P s0 i"; cases "ap_shard P i = sh"; cases "i \<in> ?F")
        (simp_all add: install_aria_outcome_def aria_staged_def aria_record_def Let_def)
  qed simp
  show ?thesis
    unfolding install_aria_successes_def list sort [unfolded list] run aria_winners_def [symmetric] shard_part_winners [OF b]
    by (simp add: aria_results_def aria_records_def)
qed

end
