(* ===== verification/AriaInv.thy ===== *)
theory AriaInv
  imports AriaSerial
begin

text \<open>
  The invariant of the optimistic system: how far the coordinators and the shards have come
  determines the registries; the stores hold the state before the batch until a shard installs, and
  by then every coordinator of every shard is done.
\<close>

section \<open>The invariant\<close>

text \<open>The keys a coordinator has read and the shards it has staged its outcome at.\<close>

definition coord_read :: "aria_params \<Rightarrow> nat \<Rightarrow> aria_coordinator \<Rightarrow> key set" where
  "coord_read P i s = (case s of CoordReading ks _ \<Rightarrow> rset P i - set ks | _ \<Rightarrow> rset P i)"

definition coord_staged :: "aria_params \<Rightarrow> fs_state \<Rightarrow> nat \<Rightarrow> aria_coordinator \<Rightarrow> shard_id set" where
  "coord_staged P s0 i s = (case s of
       CoordReading _ _ \<Rightarrow> {}
     | CoordStaging ms \<Rightarrow> aria_targets P s0 i - fst ` set ms
     | CoordDone _ \<Rightarrow> aria_targets P s0 i)"

definition coord_inv :: "aria_params \<Rightarrow> fs_state \<Rightarrow> nat \<Rightarrow> aria_coordinator \<Rightarrow> bool" where
  "coord_inv P s0 i s \<longleftrightarrow> (case s of
       CoordReading ks r \<Rightarrow> distinct ks \<and> set ks \<subseteq> rset P i \<and> r = reads_of s0 (rset P i - set ks)
     | CoordStaging ms \<Rightarrow> (\<exists>ts. distinct ts \<and> set ts \<subseteq> aria_targets P s0 i \<and>
         ms = map (\<lambda>t. (t, aria_message P s0 i t)) ts)
     | CoordDone res \<Rightarrow> res = Ok ())"

text \<open>The shards a shard has told that it is done, and what its conflicts are.\<close>

definition shards_of :: "aria_params \<Rightarrow> shard_id set" where
  "shards_of P = {sh. sh < ap_count P}"

definition done_sent :: "aria_params \<Rightarrow> aria_main \<Rightarrow> shard_id set" where
  "done_sent P m = (case m of
       AriaCoordinating _ \<Rightarrow> {}
     | AriaPublishDone ts \<Rightarrow> shards_of P - set ts
     | _ \<Rightarrow> shards_of P)"

definition failures_sent :: "aria_params \<Rightarrow> aria_main \<Rightarrow> shard_id set" where
  "failures_sent P m = (case m of
       AriaPublishFailures _ ts \<Rightarrow> shards_of P - set ts
     | AriaAwaitFailures _ \<Rightarrow> shards_of P
     | AriaInstall _ \<Rightarrow> shards_of P
     | AriaInstalled _ _ \<Rightarrow> shards_of P
     | _ \<Rightarrow> {})"

definition finished_coords :: "aria_params \<Rightarrow> (nat \<Rightarrow> aria_coordinator) \<Rightarrow> nat set" where
  "finished_coords P C = {i. i < ap_size P \<and> C i = CoordDone (Ok ())}"

definition main_inv :: "aria_params \<Rightarrow> fs_state \<Rightarrow> (nat \<Rightarrow> aria_coordinator) \<Rightarrow> shard_id \<Rightarrow> aria_main \<Rightarrow> bool" where
  "main_inv P s0 C sh m \<longleftrightarrow> (case m of
       AriaCoordinating handled \<Rightarrow> handled \<subseteq> own_coordinators P sh \<inter> finished_coords P C
     | AriaPublishDone ts \<Rightarrow> distinct ts \<and> set ts \<subseteq> shards_of P \<and> own_coordinators P sh \<subseteq> finished_coords P C
     | AriaAwaitDone _ \<Rightarrow> own_coordinators P sh \<subseteq> finished_coords P C
     | AriaFindFailures \<Rightarrow> {..<ap_size P} \<subseteq> finished_coords P C
     | AriaPublishFailures failed ts \<Rightarrow> distinct ts \<and> set ts \<subseteq> shards_of P \<and> failed = local_failures P s0 sh \<and>
         {..<ap_size P} \<subseteq> finished_coords P C
     | AriaAwaitFailures _ \<Rightarrow> {..<ap_size P} \<subseteq> finished_coords P C
     | AriaInstall failed \<Rightarrow> failed = aria_failures P s0 \<and> {..<ap_size P} \<subseteq> finished_coords P C
     | AriaInstalled failed records \<Rightarrow> failed = aria_failures P s0 \<and> records = aria_records P s0 sh \<and>
         {..<ap_size P} \<subseteq> finished_coords P C)"

definition entry_inv ::
    "aria_params \<Rightarrow> fs_state \<Rightarrow> (nat \<Rightarrow> aria_coordinator) \<Rightarrow> (shard_id \<Rightarrow> aria_main) \<Rightarrow> shard_id \<Rightarrow> aria_batch_state \<Rightarrow> bool" where
  "entry_inv P s0 C M sh e \<longleftrightarrow>
     (\<forall>k. key_set (readers_by_key e) k =
       (if shard_for_key (ap_layout P) k = sh then {i. i < ap_size P \<and> k \<in> coord_read P i (C i)} else {})) \<and>
     (\<forall>k. key_set (writers_by_key e) k =
       (if shard_for_key (ap_layout P) k = sh
        then {i. i < ap_size P \<and> sh \<in> coord_staged P s0 i (C i) \<and> k \<in> wset P s0 i} else {})) \<and>
     staged_outcomes e = (\<lambda>i. if i < ap_size P \<and> sh \<in> coord_staged P s0 i (C i)
       then Some (aria_staged P s0 i sh) else None) \<and>
     execution_done_reports e = {q \<in> shards_of P. sh \<in> done_sent P (M q)} \<and>
     failure_reports e = (\<lambda>q. if q \<in> shards_of P \<and> sh \<in> failures_sent P (M q) then Some (local_failures P s0 q) else None)"

text \<open>The outputs of a shard: unchanged before the install, determined after it.\<close>

definition is_installed :: "aria_main \<Rightarrow> bool" where
  "is_installed m \<longleftrightarrow> (case m of AriaInstalled _ _ \<Rightarrow> True | _ \<Rightarrow> False)"

definition output_inv ::
    "aria_params \<Rightarrow> fs_state \<Rightarrow> tx_result_registry \<Rightarrow> shard_id \<Rightarrow> aria_system \<Rightarrow> bool" where
  "output_inv P s0 results0 sh c \<longleftrightarrow>
     as_store c sh = shard_part (ap_layout P) (if is_installed (as_main c sh) then aria_state P s0 else s0) sh \<and>
     as_results c sh = (if is_installed (as_main c sh) then aria_results P s0 sh results0 else results0) \<and>
     as_reorders c sh (ap_id P) = (if is_installed (as_main c sh)
       then Some (canonical_reorder (ap_batch P) (aria_failures P s0)) else None)"

definition aria_inv ::
    "aria_params \<Rightarrow> fs_state \<Rightarrow> (shard_id \<Rightarrow> tx_result_registry) \<Rightarrow> aria_system \<Rightarrow> bool" where
  "aria_inv P s0 results0 c \<longleftrightarrow>
     as_failed c = Map.empty \<and>
     (\<forall>i < ap_size P. coord_inv P s0 i (as_coord c i)) \<and>
     (\<forall>sh \<in> shards_of P. main_inv P s0 (as_coord c) sh (as_main c sh) \<and>
        entry_inv P s0 (as_coord c) (as_main c) sh (aria_entry (ap_id P) (as_registry c sh)) \<and>
        output_inv P s0 (results0 sh) sh c)"

lemma aria_invD:
  assumes "aria_inv P s0 results0 c"
  shows "as_failed c = Map.empty" "i < ap_size P \<Longrightarrow> coord_inv P s0 i (as_coord c i)"
    "sh \<in> shards_of P \<Longrightarrow> main_inv P s0 (as_coord c) sh (as_main c sh)"
    "sh \<in> shards_of P \<Longrightarrow> entry_inv P s0 (as_coord c) (as_main c) sh (aria_entry (ap_id P) (as_registry c sh))"
    "sh \<in> shards_of P \<Longrightarrow> output_inv P s0 (results0 sh) sh c"
  using assms by (auto simp: aria_inv_def)

text \<open>What the peers and the size of the batch must allow, and how the batch starts.\<close>

definition aria_setting :: "aria_params \<Rightarrow> bool" where
  "aria_setting P \<longleftrightarrow> aria_batch P \<and> shards_of P \<subseteq> ap_peers P \<and> ap_size P \<le> 2 ^ 32 \<and>
     distinct (map tx_id (txs (ap_batch P)))"

definition fresh_aria :: "aria_params \<Rightarrow> fs_state \<Rightarrow> aria_system \<Rightarrow> bool" where
  "fresh_aria P s0 c \<longleftrightarrow> (\<forall>sh. as_store c sh = shard_part (ap_layout P) s0 sh \<and>
     aria_entry (ap_id P) (as_registry c sh) = aria_batch_state_default \<and> as_reorders c sh (ap_id P) = None)"

lemma aria_settingD:
  assumes "aria_setting P"
  shows "aria_batch P" "sh \<in> shards_of P \<Longrightarrow> sh \<in> ap_peers P" "ap_size P \<le> 2 ^ 32"
  using assms by (auto simp: aria_setting_def)

lemma shards_of_facts:
  assumes "aria_batch P"
  shows "shard_for_key (ap_layout P) k \<in> shards_of P" "ap_shard P i \<in> shards_of P"
    "aria_targets P s0 i \<subseteq> shards_of P" "set (all_shards (ap_layout P)) = shards_of P" "distinct (all_shards (ap_layout P))"
proof -
  have lt: "unat (ap_count P) < 2 ^ 64" using unsigned_less [of "ap_count P"] by simp
  show "shard_for_key (ap_layout P) k \<in> shards_of P" using owner_less [OF assms] by (simp add: shards_of_def)
  show "ap_shard P i \<in> shards_of P" using ap_shard_less [OF assms] by (simp add: shards_of_def)
  show "aria_targets P s0 i \<subseteq> shards_of P" using targets_less [OF assms] by (auto simp: shards_of_def)
  show "set (all_shards (ap_layout P)) = shards_of P"
  proof (intro set_eqI iffI)
    fix x assume "x \<in> shards_of P"
    then have "unat x < unat (ap_count P)" by (simp add: shards_of_def word_less_nat_alt)
    then show "x \<in> set (all_shards (ap_layout P))"
      by (auto simp: all_shards_def image_iff intro!: bexI [of _ "unat x"])
  next
    fix x assume "x \<in> set (all_shards (ap_layout P))"
    then obtain n where n: "n < unat (ap_count P)" "x = word_of_nat n" by (auto simp: all_shards_def)
    then have "unat x = n" using lt by (simp add: unat_of_nat)
    then show "x \<in> shards_of P" using n by (simp add: shards_of_def word_less_nat_alt)
  qed
  show "distinct (all_shards (ap_layout P))"
    using lt by (auto simp: all_shards_def distinct_map inj_on_def word_unat_eq_iff unat_of_nat)
qed

lemma wire_index_id: "i < 2 ^ 32 \<Longrightarrow> wire_index i = i"
  by (simp add: wire_index_def unat_of_nat)

lemma wire_index_batch: "aria_setting P \<Longrightarrow> i < ap_size P \<Longrightarrow> wire_index i = i"
  using aria_settingD(3) [of P] by (intro wire_index_id) simp

text \<open>Waking a sleeping shard is invisible to the invariant.\<close>

lemma wake_simps [simp]:
  "done_sent P (wake m) = done_sent P m" "failures_sent P (wake m) = failures_sent P m"
  "main_inv P s0 C sh (wake m) = main_inv P s0 C sh m" "is_installed (wake m) = is_installed m"
  by (cases m; auto simp: wake_def done_sent_def failures_sent_def main_inv_def is_installed_def split: aria_wait.split)+

lemma wake_update [simp]:
  "done_sent P ((M(t := wake (M t))) q) = done_sent P (M q)"
  "failures_sent P ((M(t := wake (M t))) q) = failures_sent P (M q)"
  "is_installed ((M(t := wake (M t))) q) = is_installed (M q)"
  "main_inv P s0 C q ((M(t := wake (M t))) q) = main_inv P s0 C q (M q)"
  by simp_all

lemma entry_inv_cong:
  assumes "\<And>j. coord_read P j (C' j) = coord_read P j (C j)" "\<And>j. coord_staged P s0 j (C' j) = coord_staged P s0 j (C j)"
    and "\<And>q. done_sent P (M' q) = done_sent P (M q)" "\<And>q. failures_sent P (M' q) = failures_sent P (M q)"
  shows "entry_inv P s0 C' M' sh e = entry_inv P s0 C M sh e"
  unfolding entry_inv_def assms ..

lemma entry_inv_wake [simp]: "entry_inv P s0 C (M(t := wake (M t))) sh e = entry_inv P s0 C M sh e"
  by (rule entry_inv_cong) (rule refl | rule wake_update)+

lemma output_inv_cong:
  assumes "output_inv P s0 r0 sh c" "as_store c' sh = as_store c sh" "as_results c' sh = as_results c sh"
    and "as_reorders c' sh = as_reorders c sh" "is_installed (as_main c' sh) = is_installed (as_main c sh)"
  shows "output_inv P s0 r0 sh c'"
  using assms by (simp add: output_inv_def)

lemma main_inv_mono:
  assumes "main_inv P s0 C sh m" "finished_coords P C \<subseteq> finished_coords P C'"
  shows "main_inv P s0 C' sh m"
  using assms by (cases m) (auto simp: main_inv_def)

lemma finished_coords_update:
  "C i \<noteq> CoordDone (Ok ()) \<Longrightarrow> finished_coords P C \<subseteq> finished_coords P (C(i := s))"
  by (auto simp: finished_coords_def)

text \<open>While a coordinator is not done, no shard has come to the second round.\<close>

lemma unfinished_early:
  assumes "aria_inv P s0 results0 c" "i < ap_size P" "as_coord c i \<noteq> CoordDone (Ok ())" "sh \<in> shards_of P"
  shows "\<not> is_installed (as_main c sh)"
  using aria_invD(3) [OF assms(1,4)] assms(2,3)
  by (auto simp: is_installed_def main_inv_def finished_coords_def split: aria_main.splits)

section \<open>Registry calls\<close>

lemma aria_entry_update [simp]: "aria_entry bid (reg(bid \<mapsto> e)) = e"
  by (simp add: aria_entry_def)

lemma call_registry_Ok:
  assumes "aria_setting P" "target \<in> shards_of P" "f (as_registry c target) = (Ok x, reg)"
  shows "call_registry P caller target f c =
    (Ok x, set_main target (wake (as_main c target)) (c\<lparr>as_registry := (as_registry c)(target := reg)\<rparr>))"
  using assms aria_settingD(2) [OF assms(1,2)] by (simp add: call_registry_def)

lemma read_snapshot_Ok:
  assumes "shard_for_key L k = sh"
  shows "read_snapshot L sh store bid i k reg = (Ok (read_value_of (store k)),
    reg(bid \<mapsto> (aria_entry bid reg)\<lparr>readers_by_key := insert_at k i (readers_by_key (aria_entry bid reg))\<rparr>))"
  using assms by (simp add: read_snapshot_def reads_of_def Let_def)

lemma stage_outcome_Ok:
  fixes P s0 i sh reg
  assumes "staged_outcomes (aria_entry (ap_id P) reg) i = None"
  defines "ws \<equiv> filter_local_writes (writes (aria_output P s0 i)) sh (ap_layout P)"
  shows "stage_outcome (ap_layout P) sh (aria_message P s0 i sh) reg = (Ok (), reg(ap_id P \<mapsto>
    (aria_entry (ap_id P) reg)\<lparr>staged_outcomes := (staged_outcomes (aria_entry (ap_id P) reg))(i \<mapsto> aria_staged P s0 i sh),
      writers_by_key := fold (\<lambda>w. insert_at (write_key w) i) ws (writers_by_key (aria_entry (ap_id P) reg))\<rparr>))"
  using assms(1)
  by (auto simp: stage_outcome_def aria_message_def aria_staged_def filter_local_writes_def ws_def Let_def)

lemma record_execution_done_Ok:
  assumes "from < n" "from \<notin> execution_done_reports (aria_entry bid reg)"
  shows "record_execution_done bid from n reg = (Ok (), reg(bid \<mapsto>
    (aria_entry bid reg)\<lparr>execution_done_reports := insert from (execution_done_reports (aria_entry bid reg))\<rparr>))"
  using assms by (simp add: record_execution_done_def validate_aria_report_shard_def Let_def not_le)

lemma record_local_failures_Ok:
  assumes "from < n" "failure_reports (aria_entry bid reg) from = None"
  shows "record_local_failures bid from failed n reg = (Ok (), reg(bid \<mapsto>
    (aria_entry bid reg)\<lparr>failure_reports := (failure_reports (aria_entry bid reg))(from \<mapsto> failed)\<rparr>))"
  using assms by (simp add: record_local_failures_def validate_aria_report_shard_def Let_def not_le)

section \<open>Steps of the coordinators\<close>

text \<open>A coordinator moves on at most changing the entry of one shard.\<close>

lemma coordinator_inv:
  assumes inv: "aria_inv P s0 results0 c" and i: "i < ap_size P" "as_coord c i \<noteq> CoordDone (Ok ())"
    and s: "coord_inv P s0 i s"
    and e: "\<And>sh. sh \<in> shards_of P \<Longrightarrow>
      entry_inv P s0 ((as_coord c)(i := s)) (as_main c) sh (aria_entry (ap_id P) (as_registry c' sh))"
    and c': "as_failed c' = as_failed c" "as_store c' = as_store c" "as_results c' = as_results c"
      "as_reorders c' = as_reorders c" "as_coord c' = as_coord c"
    and m: "as_main c' = as_main c \<or> (\<exists>t. as_main c' = (as_main c)(t := wake (as_main c t)))"
  shows "aria_inv P s0 results0 (set_coord i s c')"
  unfolding aria_inv_def
proof (intro conjI allI impI ballI)
  show "as_failed (set_coord i s c') = Map.empty" using aria_invD(1) [OF inv] c'(1) by simp
  show "coord_inv P s0 j (as_coord (set_coord i s c') j)" if "j < ap_size P" for j
    using aria_invD(2) [OF inv that] s c'(5) by simp
  fix sh assume sh: "sh \<in> shards_of P"
  have "main_inv P s0 ((as_coord c)(i := s)) sh (as_main c sh)"
    by (rule main_inv_mono [OF aria_invD(3) [OF inv sh] finished_coords_update [of "as_coord c", OF i(2)]])
  then show "main_inv P s0 (as_coord (set_coord i s c')) sh (as_main (set_coord i s c') sh)"
    using m c'(5) by auto
  show "entry_inv P s0 (as_coord (set_coord i s c')) (as_main (set_coord i s c')) sh
      (aria_entry (ap_id P) (as_registry (set_coord i s c') sh))"
    using e [OF sh] m c'(5) by auto
  show "output_inv P s0 (results0 sh) sh (set_coord i s c')"
    by (rule output_inv_cong [OF aria_invD(5) [OF inv sh]]) (use m c' in \<open>auto split: if_splits\<close>)
qed

lemma read_step_inv:
  assumes S: "aria_setting P" and inv: "aria_inv P s0 results0 c" and i: "i < ap_size P"
    and C: "as_coord c i = CoordReading (k # ks) r"
  shows "\<exists>c'. coordinator_step P i c = Some c' \<and> aria_inv P s0 results0 c'"
proof -
  note b = aria_settingD(1) [OF S]
  let ?o = "shard_for_key (ap_layout P) k" and ?bid = "ap_id P"
  have o: "?o \<in> shards_of P" by (rule shards_of_facts(1) [OF b])
  have ci: "distinct (k # ks)" "set (k # ks) \<subseteq> rset P i" "r = reads_of s0 (rset P i - set (k # ks))"
    using aria_invD(2) [OF inv i] unfolding C coord_inv_def by simp_all
  let ?e = "aria_entry ?bid (as_registry c ?o)"
  let ?e' = "?e\<lparr>readers_by_key := insert_at k i (readers_by_key ?e)\<rparr>"
  let ?c1 = "set_main ?o (wake (as_main c ?o)) (c\<lparr>as_registry := (as_registry c)(?o := (as_registry c ?o)(?bid \<mapsto> ?e'))\<rparr>)"
  have nd: "as_coord c i \<noteq> CoordDone (Ok ())" using C by simp
  have "as_store c ?o k = s0 k"
    using aria_invD(5) [OF inv o] unfinished_early [OF inv i nd o] by (simp add: output_inv_def shard_part_def)
  then have rd: "read_snapshot (ap_layout P) ?o (as_store c ?o) ?bid i k (as_registry c ?o) =
      (Ok (read_value_of (s0 k)), (as_registry c ?o)(?bid \<mapsto> ?e'))" by (simp add: read_snapshot_Ok [OF refl])
  have rd1: "call_registry P caller ?o (read_snapshot (ap_layout P) ?o (as_store c ?o) ?bid i k) c =
      (Ok (read_value_of (s0 k)), ?c1)" for caller
    by (rule call_registry_Ok [OF S o, where f = "read_snapshot (ap_layout P) ?o (as_store c ?o) ?bid i k", OF rd])
  let ?s = "CoordReading ks (r(k \<mapsto> read_value_of (s0 k)))"
  have read: "(if ?o = ap_shard P i then aria_read_snapshot_local P (ap_shard P i) i k c
      else aria_read_snapshot_remote P (ap_shard P i) i ?o k c) = (Ok (read_value_of (s0 k)), ?c1)"
    using rd1 wire_index_batch [OF S i]
    by (cases "?o = ap_shard P i") (simp_all add: aria_read_snapshot_local_def aria_read_snapshot_remote_def)
  have rk: "r k = None" using ci(3) by (simp add: reads_of_def)
  have step: "coordinator_step P i c = Some (set_coord i ?s ?c1)"
    unfolding coordinator_step_def Let_def C aria_coordinator.case list.case read prod.case sum.case
    by (simp add: rk)
  have "aria_inv P s0 results0 (set_coord i ?s ?c1)"
  proof (rule coordinator_inv [OF inv i nd])
    have "r(k \<mapsto> read_value_of (s0 k)) = reads_of s0 (rset P i - set ks)"
      using ci by (auto simp: reads_of_def fun_eq_iff)
    then show "coord_inv P s0 i ?s" using ci by (simp add: coord_inv_def)
    have st: "coord_staged P s0 j (((as_coord c)(i := ?s)) j) = coord_staged P s0 j (as_coord c j)" for j
      using C by (simp add: coord_staged_def)
    have rds: "q \<in> coord_read P j (((as_coord c)(i := ?s)) j) \<longleftrightarrow> q \<in> coord_read P j (as_coord c j) \<or> j = i \<and> q = k" for j q
      using C ci(1,2) by (auto simp: coord_read_def)
    fix sh assume sh: "sh \<in> shards_of P"
    show "entry_inv P s0 ((as_coord c)(i := ?s)) (as_main c) sh (aria_entry (ap_id P) (as_registry ?c1 sh))"
      using aria_invD(4) [OF inv sh] i unfolding entry_inv_def st rds
      by (cases "sh = ?o") (auto simp: key_set_insert_at)
  qed auto
  then show ?thesis using step by blast
qed

lemma stage_step_inv:
  assumes S: "aria_setting P" and inv: "aria_inv P s0 results0 c" and i: "i < ap_size P"
    and C: "as_coord c i = CoordStaging ((t, out) # rest)"
  shows "\<exists>c'. coordinator_step P i c = Some c' \<and> aria_inv P s0 results0 c'"
proof -
  note b = aria_settingD(1) [OF S]
  let ?bid = "ap_id P" and ?T = "aria_targets P s0 i"
  obtain ts where ts: "distinct ts" "set ts \<subseteq> ?T" "(t, out) # rest = map (\<lambda>t. (t, aria_message P s0 i t)) ts"
    using aria_invD(2) [OF inv i] unfolding C coord_inv_def aria_coordinator.case by (elim exE conjE) (rule that)
  then obtain ts' where ts': "ts = t # ts'" "out = aria_message P s0 i t" "rest = map (\<lambda>t. (t, aria_message P s0 i t)) ts'"
    by (cases ts) auto
  have t: "t \<in> shards_of P" "t \<in> ?T" using ts(2) ts'(1) shards_of_facts(3) [OF b] by auto
  let ?e = "aria_entry ?bid (as_registry c t)"
  have T: "coord_staged P s0 i (as_coord c i) = ?T - set ts"
    unfolding C coord_staged_def aria_coordinator.case ts(3) by (simp add: image_image)
  have "staged_outcomes ?e i = None"
    using aria_invD(4) [OF inv t(1)] T ts'(1) by (simp add: entry_inv_def)
  note st = stage_outcome_Ok [OF this, where ?s0.0 = s0 and sh = t]
  let ?ws = "filter_local_writes (writes (aria_output P s0 i)) t (ap_layout P)"
  let ?e' = "?e\<lparr>staged_outcomes := (staged_outcomes ?e)(i \<mapsto> aria_staged P s0 i t),
      writers_by_key := fold (\<lambda>w. insert_at (write_key w) i) ?ws (writers_by_key ?e)\<rparr>"
  let ?c1 = "set_main t (wake (as_main c t)) (c\<lparr>as_registry := (as_registry c)(t := (as_registry c t)(?bid \<mapsto> ?e'))\<rparr>)"
  have call: "call_registry P caller t (stage_outcome (ap_layout P) t (aria_message P s0 i t)) c = (Ok (), ?c1)" for caller
    by (rule call_registry_Ok [OF S t(1), where f = "stage_outcome (ap_layout P) t (aria_message P s0 i t)", OF st])
  have "(aria_message P s0 i t)\<lparr>aso_tx_index := wire_index (aso_tx_index (aria_message P s0 i t))\<rparr> = aria_message P s0 i t"
    using wire_index_batch [OF S i] by (simp add: aria_message_def)
  then have sent: "(if t = ap_shard P i then call_registry P (ap_shard P i) (ap_shard P i) (stage_outcome (ap_layout P) (ap_shard P i) out) c
      else send_aria_stage_outcome P (ap_shard P i) t out c) = (Ok (), ?c1)"
    using call ts'(2) by (cases "t = ap_shard P i") (simp_all add: send_aria_stage_outcome_def)
  have step: "coordinator_step P i c = Some (set_coord i (CoordStaging rest) ?c1)"
    unfolding coordinator_step_def Let_def C aria_coordinator.case list.case prod.case sent sum.case by simp
  have nd: "as_coord c i \<noteq> CoordDone (Ok ())" using C by simp
  have "aria_inv P s0 results0 (set_coord i (CoordStaging rest) ?c1)"
  proof (rule coordinator_inv [OF inv i nd])
    show "coord_inv P s0 i (CoordStaging rest)"
      using ts(1,2) ts' by (auto simp: coord_inv_def intro!: exI [of _ ts'])
    have T': "coord_staged P s0 i (CoordStaging rest) = insert t (coord_staged P s0 i (as_coord c i))"
      unfolding T using ts(1,2) t(2) by (auto simp: coord_staged_def ts'(1,3) image_image)
    then have sg: "q \<in> coord_staged P s0 j (((as_coord c)(i := CoordStaging rest)) j) \<longleftrightarrow>
        q \<in> coord_staged P s0 j (as_coord c j) \<or> j = i \<and> q = t" for j q
      by auto
    have rds: "coord_read P j (((as_coord c)(i := CoordStaging rest)) j) = coord_read P j (as_coord c j)" for j
      using C by (simp add: coord_read_def)
    have ws: "write_key ` set ?ws = {k \<in> wset P s0 i. shard_for_key (ap_layout P) k = t}"
      by (auto simp: filter_local_writes_def wset_def)
    fix sh assume sh: "sh \<in> shards_of P"
    show "entry_inv P s0 ((as_coord c)(i := CoordStaging rest)) (as_main c) sh (aria_entry (ap_id P) (as_registry ?c1 sh))"
      using aria_invD(4) [OF inv sh] i unfolding entry_inv_def sg rds
      by (cases "sh = t") (auto simp: key_set_fold_insert ws fun_eq_iff)
  qed auto
  then show ?thesis using step by blast
qed

lemma silent_step_inv:
  assumes S: "aria_setting P" and inv: "aria_inv P s0 results0 c" and i: "i < ap_size P"
    and C: "as_coord c i = CoordReading [] r \<or> as_coord c i = CoordStaging []"
  shows "\<exists>c'. coordinator_step P i c = Some c' \<and> aria_inv P s0 results0 c'"
proof -
  let ?L = "ap_layout P"
  let ?s = "case as_coord c i of CoordStaging [] \<Rightarrow> CoordDone (Ok ())
    | _ \<Rightarrow> CoordStaging (aria_outcomes ?L (ap_shard P i) (ap_id P) i (ap_tx P i) r)"
  have nd: "as_coord c i \<noteq> CoordDone (Ok ())" using C by auto
  have v: "valid_tx (ap_tx P i)" by (rule aria_batchD [OF aria_settingD(1) [OF S] i])
  have out: "aria_outcomes ?L (ap_shard P i) (ap_id P) i (ap_tx P i) r =
      map (\<lambda>t. (t, aria_message P s0 i t)) (sorted_list_of_set (aria_targets P s0 i))"
    if "as_coord c i = CoordReading [] r"
  proof -
    have "r = reads_of s0 (read_set (ap_tx P i))"
      using aria_invD(2) [OF inv i] that by (simp add: coord_inv_def rset_def)
    then have "execute_deterministic (ap_tx P i) r = aria_output P s0 i"
      by (simp add: execute_deterministic_reads_of [OF v] aria_output_def)
    then show ?thesis
      by (simp add: aria_outcomes_def aria_message_def aria_targets_def filter_local_writes_def wset_def image_image Let_def)
  qed
  have step: "coordinator_step P i c = Some (set_coord i ?s c)"
    using C by (auto simp: coordinator_step_def Let_def)
  have s: "coord_inv P s0 i ?s \<and> coord_read P i ?s = coord_read P i (as_coord c i) \<and>
      coord_staged P s0 i ?s = coord_staged P s0 i (as_coord c i)"
    using C out
    by (auto simp: coord_inv_def coord_read_def coord_staged_def image_image intro!: exI [of _ "sorted_list_of_set (aria_targets P s0 i)"])
  have "aria_inv P s0 results0 (set_coord i ?s c)"
  proof (rule coordinator_inv [OF inv i nd])
    show "coord_inv P s0 i ?s" using s by blast
    have "entry_inv P s0 ((as_coord c)(i := ?s)) (as_main c) sh e = entry_inv P s0 (as_coord c) (as_main c) sh e" for sh e
      by (rule entry_inv_cong) (use s in simp_all)
    then show "entry_inv P s0 ((as_coord c)(i := ?s)) (as_main c) sh (aria_entry (ap_id P) (as_registry c sh))"
      if "sh \<in> shards_of P" for sh
      using aria_invD(4) [OF inv that] by simp
  qed auto
  then show ?thesis using step by blast
qed

lemma coordinator_step_inv:
  assumes "aria_setting P" "aria_inv P s0 results0 c" "i < ap_size P" "as_coord c i \<noteq> CoordDone (Ok ())"
  shows "\<exists>c'. coordinator_step P i c = Some c' \<and> aria_inv P s0 results0 c'"
proof (cases "as_coord c i")
  case (CoordReading ks r)
  then show ?thesis
    using read_step_inv [OF assms(1-3)] silent_step_inv [OF assms(1-3)] by (cases ks) blast+
next
  case (CoordStaging ms)
  then show ?thesis
    using stage_step_inv [OF assms(1-3)] silent_step_inv [OF assms(1-3)]
    by (cases ms) (fast, metis surj_pair)
next
  case (CoordDone res)
  then show ?thesis using aria_invD(2) [OF assms(2,3)] assms(4) by (simp add: coord_inv_def)
qed

end
