(* ===== verification/AriaRun.thy ===== *)
theory AriaRun
  imports AriaInv
begin

text \<open>
  Runs of the optimistic system: every step of a batch keeps the invariant, so no shard fails, and
  the shards that have installed agree on the losers and hold the state, the results and the records
  of the winners. A run stops only when all shards have installed or one sleeps; since a
  notification can be lost between the look at the reports and the registration for it, a shard can
  sleep although all reports are there.
\<close>

section \<open>Steps of the batch\<close>

lemma has_all_aria_reports_iff:
  assumes "aria_batch P"
  shows "has_all_aria_reports A (unat (ap_count P)) \<longleftrightarrow> shards_of P \<subseteq> A"
proof -
  have "shards_of P = word_of_nat ` {..<unat (ap_count P)}"
    using shards_of_facts(4) [OF assms] by (simp add: all_shards_def atLeast0LessThan)
  then show ?thesis by (auto simp: has_all_aria_reports_def)
qed

text \<open>A change of the phase that nobody else can see.\<close>

lemma main_silent_inv:
  assumes inv: "aria_inv P s0 results0 c" and sh: "sh \<in> shards_of P"
    and m: "main_inv P s0 (as_coord c) sh m" "done_sent P m = done_sent P (as_main c sh)"
      "failures_sent P m = failures_sent P (as_main c sh)" "is_installed m = is_installed (as_main c sh)"
  shows "aria_inv P s0 results0 (set_main sh m c)"
  unfolding aria_inv_def
proof (intro conjI allI impI ballI)
  show "as_failed (set_main sh m c) = Map.empty" using aria_invD(1) [OF inv] by simp
  show "coord_inv P s0 i (as_coord (set_main sh m c) i)" if "i < ap_size P" for i
    using aria_invD(2) [OF inv that] by simp
  fix q assume q: "q \<in> shards_of P"
  show "main_inv P s0 (as_coord (set_main sh m c)) q (as_main (set_main sh m c) q)"
    using aria_invD(3) [OF inv q] m(1) by simp
  have "entry_inv P s0 (as_coord c) ((as_main c)(sh := m)) q e = entry_inv P s0 (as_coord c) (as_main c) q e" for e
    by (rule entry_inv_cong) (simp_all add: m)
  then show "entry_inv P s0 (as_coord (set_main sh m c)) (as_main (set_main sh m c)) q
      (aria_entry (ap_id P) (as_registry (set_main sh m c) q))"
    using aria_invD(4) [OF inv q] by simp
  show "output_inv P s0 (results0 q) q (set_main sh m c)"
    by (rule output_inv_cong [OF aria_invD(5) [OF inv q]]) (simp_all add: m)
qed

text \<open>A report to one shard.\<close>

lemma main_report_inv:
  assumes inv: "aria_inv P s0 results0 c" and sh: "sh \<in> shards_of P" and t: "t \<in> shards_of P"
    and m: "main_inv P s0 (as_coord c) sh m" "is_installed m = is_installed (as_main c sh)"
    and e: "\<And>q. q \<in> shards_of P \<Longrightarrow>
      entry_inv P s0 (as_coord c) ((as_main c)(sh := m)) q (aria_entry (ap_id P) (((as_registry c)(t := reg)) q))"
  shows "aria_inv P s0 results0 (set_main sh m (set_main t (wake (as_main c t))
    (c\<lparr>as_registry := (as_registry c)(t := reg)\<rparr>)))"
    (is "aria_inv _ _ _ ?c'")
  unfolding aria_inv_def
proof (intro conjI allI impI ballI)
  show "as_failed ?c' = Map.empty" using aria_invD(1) [OF inv] by simp
  show "coord_inv P s0 i (as_coord ?c' i)" if "i < ap_size P" for i
    using aria_invD(2) [OF inv that] by simp
  fix q assume q: "q \<in> shards_of P"
  show "main_inv P s0 (as_coord ?c') q (as_main ?c' q)"
    using aria_invD(3) [OF inv q] m(1) by auto
  have "entry_inv P s0 (as_coord c) ((as_main c)(t := wake (as_main c t), sh := m)) q e =
      entry_inv P s0 (as_coord c) ((as_main c)(sh := m)) q e" for e
    by (rule entry_inv_cong) simp_all
  then show "entry_inv P s0 (as_coord ?c') (as_main ?c') q (aria_entry (ap_id P) (as_registry ?c' q))"
    using e [OF q] by simp
  show "output_inv P s0 (results0 q) q ?c'"
    by (rule output_inv_cong [OF aria_invD(5) [OF inv q]]) (simp_all add: m(2))
qed

lemma report_done_inv:
  assumes S: "aria_setting P" and inv: "aria_inv P s0 results0 c" and sh: "sh \<in> shards_of P"
    and M: "as_main c sh = AriaPublishDone (t # ts)"
  shows "\<exists>c'. main_step P sh c = Some c' \<and> aria_inv P s0 results0 c'"
proof -
  have m: "distinct (t # ts)" "set (t # ts) \<subseteq> shards_of P" "own_coordinators P sh \<subseteq> finished_coords P (as_coord c)"
    using aria_invD(3) [OF inv sh] unfolding M main_inv_def by simp_all
  then have t: "t \<in> shards_of P" "t \<notin> set ts" by auto
  let ?e = "aria_entry (ap_id P) (as_registry c t)" and ?m = "AriaPublishDone ts"
  let ?reg = "(as_registry c t)(ap_id P \<mapsto> ?e\<lparr>execution_done_reports := insert sh (execution_done_reports ?e)\<rparr>)"
  have "sh \<notin> execution_done_reports ?e"
    using aria_invD(4) [OF inv t(1)] M by (simp add: entry_inv_def done_sent_def)
  moreover have "sh < ap_count P" using sh by (simp add: shards_of_def)
  ultimately have r: "record_execution_done (ap_id P) sh (ap_count P) (as_registry c t) = (Ok (), ?reg)"
    by (simp add: record_execution_done_Ok)
  have "aria_inv P s0 results0 (set_main sh ?m (set_main t (wake (as_main c t)) (c\<lparr>as_registry := (as_registry c)(t := ?reg)\<rparr>)))"
  proof (rule main_report_inv [OF inv sh t(1)])
    show "main_inv P s0 (as_coord c) sh ?m" using m by (simp add: main_inv_def)
    show "is_installed ?m = is_installed (as_main c sh)" using M by (simp add: is_installed_def)
    have f: "failures_sent P (((as_main c)(sh := ?m)) x) = failures_sent P (as_main c x)" for x
      using M by (simp add: failures_sent_def)
    have d: "q \<in> done_sent P (((as_main c)(sh := ?m)) x) \<longleftrightarrow> q \<in> done_sent P (as_main c x) \<or> x = sh \<and> q = t" for x q
      using M t by (auto simp: done_sent_def)
    show "entry_inv P s0 (as_coord c) ((as_main c)(sh := ?m)) q (aria_entry (ap_id P) (((as_registry c)(t := ?reg)) q))"
      if "q \<in> shards_of P" for q
      using aria_invD(4) [OF inv that] sh unfolding entry_inv_def f d by (cases "q = t") auto
  qed
  moreover have "main_step P sh c = Some (set_main sh ?m (set_main t (wake (as_main c t)) (c\<lparr>as_registry := (as_registry c)(t := ?reg)\<rparr>)))"
    using call_registry_Ok [OF S t(1), where f = "record_execution_done (ap_id P) sh (ap_count P)", OF r]
    by (simp add: main_step_def M broadcast_aria_execution_done_def)
  ultimately show ?thesis by blast
qed

lemma report_failures_inv:
  assumes S: "aria_setting P" and inv: "aria_inv P s0 results0 c" and sh: "sh \<in> shards_of P"
    and M: "as_main c sh = AriaPublishFailures failed (t # ts)"
  shows "\<exists>c'. main_step P sh c = Some c' \<and> aria_inv P s0 results0 c'"
proof -
  have m: "distinct (t # ts)" "set (t # ts) \<subseteq> shards_of P" "failed = local_failures P s0 sh"
    "{..<ap_size P} \<subseteq> finished_coords P (as_coord c)"
    using aria_invD(3) [OF inv sh] unfolding M main_inv_def by simp_all
  then have t: "t \<in> shards_of P" "t \<notin> set ts" by auto
  have "failed \<subseteq> {..<ap_size P}" by (auto simp: m(3) local_failures_def)
  then have wire: "wire_index ` failed = failed" using wire_index_batch [OF S] by (force simp: image_iff)
  let ?e = "aria_entry (ap_id P) (as_registry c t)" and ?m = "AriaPublishFailures failed ts"
  let ?reg = "(as_registry c t)(ap_id P \<mapsto> ?e\<lparr>failure_reports := (failure_reports ?e)(sh \<mapsto> failed)\<rparr>)"
  have "failure_reports ?e sh = None"
    using aria_invD(4) [OF inv t(1)] M by (simp add: entry_inv_def failures_sent_def)
  moreover have "sh < ap_count P" using sh by (simp add: shards_of_def)
  ultimately have r: "record_local_failures (ap_id P) sh failed (ap_count P) (as_registry c t) = (Ok (), ?reg)"
    by (simp add: record_local_failures_Ok)
  have "aria_inv P s0 results0 (set_main sh ?m (set_main t (wake (as_main c t)) (c\<lparr>as_registry := (as_registry c)(t := ?reg)\<rparr>)))"
  proof (rule main_report_inv [OF inv sh t(1)])
    show "main_inv P s0 (as_coord c) sh ?m" using m by (simp add: main_inv_def)
    show "is_installed ?m = is_installed (as_main c sh)" using M by (simp add: is_installed_def)
    have d: "done_sent P (((as_main c)(sh := ?m)) x) = done_sent P (as_main c x)" for x
      using M by (simp add: done_sent_def)
    have f: "q \<in> failures_sent P (((as_main c)(sh := ?m)) x) \<longleftrightarrow> q \<in> failures_sent P (as_main c x) \<or> x = sh \<and> q = t" for x q
      using M t by (auto simp: failures_sent_def)
    show "entry_inv P s0 (as_coord c) ((as_main c)(sh := ?m)) q (aria_entry (ap_id P) (((as_registry c)(t := ?reg)) q))"
      if "q \<in> shards_of P" for q
      using aria_invD(4) [OF inv that] sh m(3) unfolding entry_inv_def f d by (cases "q = t") (auto simp: fun_eq_iff)
  qed
  moreover have "main_step P sh c = Some (set_main sh ?m (set_main t (wake (as_main c t)) (c\<lparr>as_registry := (as_registry c)(t := ?reg)\<rparr>)))"
    using call_registry_Ok [OF S t(1), where f = "record_local_failures (ap_id P) sh failed (ap_count P)", OF r] wire
    by (simp add: main_step_def M broadcast_aria_local_failures_def)
  ultimately show ?thesis by blast
qed

text \<open>When every shard has reported, every coordinator is done.\<close>

lemma all_done:
  assumes b: "aria_batch P" and inv: "aria_inv P s0 results0 c" and "sh \<in> shards_of P"
    and "shards_of P \<subseteq> execution_done_reports (aria_entry (ap_id P) (as_registry c sh))"
  shows "{..<ap_size P} \<subseteq> finished_coords P (as_coord c)"
proof
  fix i assume i: "i \<in> {..<ap_size P}"
  let ?q = "ap_shard P i"
  have q: "?q \<in> shards_of P" by (rule shards_of_facts(2) [OF b])
  then have "sh \<in> done_sent P (as_main c ?q)"
    using aria_invD(4) [OF inv assms(3)] assms(4) by (auto simp: entry_inv_def)
  then have "own_coordinators P ?q \<subseteq> finished_coords P (as_coord c)"
    using aria_invD(3) [OF inv q]
    by (cases "as_main c ?q") (auto simp: done_sent_def main_inv_def own_coordinators_def)
  moreover have "i \<in> own_coordinators P ?q" using i by (simp add: own_coordinators_def)
  ultimately show "i \<in> finished_coords P (as_coord c)" by blast
qed

lemma install_inv:
  assumes S: "aria_setting P" and inv: "aria_inv P s0 results0 c" and sh: "sh \<in> shards_of P"
    and M: "as_main c sh = AriaInstall failed"
  shows "aria_inv P s0 results0 (install_aria_batch P sh failed c)"
proof -
  note b = aria_settingD(1) [OF S]
  have m: "failed = aria_failures P s0" "{..<ap_size P} \<subseteq> finished_coords P (as_coord c)"
    using aria_invD(3) [OF inv sh] unfolding M main_inv_def by simp_all
  have ni: "\<not> is_installed (as_main c sh)" using M by (simp add: is_installed_def)
  have out: "as_store c sh = shard_part (ap_layout P) s0 sh" "as_results c sh = results0 sh"
    "as_reorders c sh (ap_id P) = None"
    using aria_invD(5) [OF inv sh] ni by (simp_all add: output_inv_def)
  let ?e = "aria_entry (ap_id P) (as_registry c sh)"
  have "coord_staged P s0 i (as_coord c i) = aria_targets P s0 i" if "i < ap_size P" for i
    using m(2) that by (auto simp: finished_coords_def coord_staged_def)
  then have staged: "staged_outcomes ?e = (\<lambda>i. if i < ap_size P \<and> sh \<in> aria_targets P s0 i then Some (aria_staged P s0 i sh) else None)"
    using aria_invD(4) [OF inv sh] by (auto simp: entry_inv_def fun_eq_iff)
  note ins = install_complete [OF b staged, of "results0 sh"]
  have sub: "aria_failures P s0 \<subseteq> {0..<length (txs (ap_batch P))}" by (auto simp: aria_failures_def)
  note rec = record_batch_reorder_fresh [where reorders = "as_reorders c sh", OF sub out(3)]
  let ?c1 = "c\<lparr>as_reorders := (as_reorders c)(sh := (as_reorders c sh)(ap_id P \<mapsto> canonical_reorder (ap_batch P) failed)),
    as_store := (as_store c)(sh := shard_part (ap_layout P) (aria_state P s0) sh),
    as_results := (as_results c)(sh := aria_results P s0 sh (results0 sh))\<rparr>"
  let ?m = "AriaInstalled failed (aria_records P s0 sh)"
  have eq: "install_aria_batch P sh failed c = set_main sh ?m ?c1"
    using ins rec out m(1) by (simp add: install_aria_batch_def Let_def)
  show ?thesis
    unfolding eq aria_inv_def
  proof (intro conjI allI impI ballI)
    show "as_failed (set_main sh ?m ?c1) = Map.empty" using aria_invD(1) [OF inv] by simp
    show "coord_inv P s0 i (as_coord (set_main sh ?m ?c1) i)" if "i < ap_size P" for i
      using aria_invD(2) [OF inv that] by simp
    fix q assume q: "q \<in> shards_of P"
    show "main_inv P s0 (as_coord (set_main sh ?m ?c1)) q (as_main (set_main sh ?m ?c1) q)"
      using aria_invD(3) [OF inv q] m by (simp add: main_inv_def)
    have "entry_inv P s0 (as_coord c) ((as_main c)(sh := ?m)) q e = entry_inv P s0 (as_coord c) (as_main c) q e" for e
      by (rule entry_inv_cong) (simp_all add: M done_sent_def failures_sent_def)
    then show "entry_inv P s0 (as_coord (set_main sh ?m ?c1)) (as_main (set_main sh ?m ?c1)) q
        (aria_entry (ap_id P) (as_registry (set_main sh ?m ?c1) q))"
      using aria_invD(4) [OF inv q] by simp
    show "output_inv P s0 (results0 q) q (set_main sh ?m ?c1)"
      using aria_invD(5) [OF inv q] m(1) by (cases "q = sh") (simp_all add: output_inv_def is_installed_def)
  qed
qed

lemma main_step_inv:
  assumes S: "aria_setting P" and inv: "aria_inv P s0 results0 c" and sh: "sh \<in> shards_of P"
    and step: "main_step P sh c = Some c'"
  shows "aria_inv P s0 results0 c'"
proof -
  note b = aria_settingD(1) [OF S]
  note M = aria_invD(3) [OF inv sh] and E = aria_invD(4) [OF inv sh]
  let ?e = "aria_entry (ap_id P) (as_registry c sh)"
  note all = shards_of_facts(4,5) [OF b]
  note defs = main_inv_def done_sent_def failures_sent_def is_installed_def
  show ?thesis
  proof (cases "as_main c sh")
    case (AriaCoordinating handled)
    then have "c' = set_main sh (AriaPublishDone (all_shards (ap_layout P))) c" "handled = own_coordinators P sh"
      using step by (auto simp: main_step_def split: if_splits)
    then show ?thesis
      using M AriaCoordinating all by (auto simp: defs intro!: main_silent_inv [OF inv sh])
  next
    case (AriaPublishDone ts)
    show ?thesis
    proof (cases ts)
      case Nil
      then have "c' = set_main sh (AriaAwaitDone WaitChecking) c" using step AriaPublishDone by (simp add: main_step_def)
      then show ?thesis using M AriaPublishDone Nil by (auto simp: defs intro!: main_silent_inv [OF inv sh])
    next
      case (Cons t ts')
      then show ?thesis using report_done_inv [OF S inv sh] AriaPublishDone step by auto
    qed
  next
    case (AriaAwaitDone w)
    have "{..<ap_size P} \<subseteq> finished_coords P (as_coord c)"
      if "has_all_aria_reports (execution_done_reports ?e) (unat (ap_count P))"
      using all_done [OF b inv sh] that by (simp add: has_all_aria_reports_iff [OF b])
    then show ?thesis
      using step M AriaAwaitDone
      by (auto simp: main_step_def wait_execution_done_def Let_def defs split: aria_wait.splits if_splits intro!: main_silent_inv [OF inv sh])
  next
    case AriaFindFailures
    have fin: "as_coord c i = CoordDone (Ok ())" if "i < ap_size P" for i
      using M AriaFindFailures that by (auto simp: main_inv_def finished_coords_def)
    have "local_failed_indices ?e = local_failures P s0 sh"
    proof (rule local_failed_indices_complete [OF b])
      show "key_set (writers_by_key ?e) k =
          (if shard_for_key (ap_layout P) k = sh then {i. i < ap_size P \<and> k \<in> wset P s0 i} else {})" for k
        using E fin by (auto simp: entry_inv_def coord_staged_def aria_targets_def)
      show "key_set (readers_by_key ?e) k =
          (if shard_for_key (ap_layout P) k = sh then {i. i < ap_size P \<and> k \<in> rset P i} else {})" for k
        using E fin by (auto simp: entry_inv_def coord_read_def)
    qed
    then have "c' = set_main sh (AriaPublishFailures (local_failures P s0 sh) (all_shards (ap_layout P))) c"
      using step AriaFindFailures by (simp add: main_step_def)
    then show ?thesis using M AriaFindFailures all by (auto simp: defs intro!: main_silent_inv [OF inv sh])
  next
    case (AriaPublishFailures failed ts)
    show ?thesis
    proof (cases ts)
      case Nil
      then have "c' = set_main sh (AriaAwaitFailures WaitChecking) c" using step AriaPublishFailures by (simp add: main_step_def)
      then show ?thesis using M AriaPublishFailures Nil by (auto simp: defs intro!: main_silent_inv [OF inv sh])
    next
      case (Cons t ts')
      then show ?thesis using report_failures_inv [OF S inv sh] AriaPublishFailures step by auto
    qed
  next
    case (AriaAwaitFailures w)
    have "\<Union> (ran (failure_reports ?e)) = aria_failures P s0"
      if "has_all_aria_reports (dom (failure_reports ?e)) (unat (ap_count P))"
    proof -
      have "failure_reports ?e = (\<lambda>q. if q \<in> shards_of P then Some (local_failures P s0 q) else None)"
        using that E by (auto simp: has_all_aria_reports_iff [OF b] entry_inv_def fun_eq_iff subset_iff split: if_splits)
      then have "\<Union> (ran (failure_reports ?e)) = (\<Union>q \<in> shards_of P. local_failures P s0 q)"
        by (auto simp: ran_def split: if_splits)
      then show ?thesis using failures_union [OF b] by (simp add: shards_of_def)
    qed
    then show ?thesis
      using step M AriaAwaitFailures
      by (auto simp: main_step_def wait_failure_reports_def Let_def defs split: aria_wait.splits if_splits intro!: main_silent_inv [OF inv sh])
  next
    case (AriaInstall failed)
    then show ?thesis using install_inv [OF S inv sh] step by (auto simp: main_step_def)
  next
    case (AriaInstalled failed records)
    then show ?thesis using step by (simp add: main_step_def)
  qed
qed

section \<open>Runs\<close>

lemma aria_step_inv:
  assumes "aria_step P c c'" and S: "aria_setting P" and inv: "aria_inv P s0 results0 c"
  shows "aria_inv P s0 results0 c'"
  using assms(1)
proof cases
  case (coordinate i)
  then have "as_coord c i \<noteq> CoordDone (Ok ())" by (auto simp: coordinator_step_def Let_def)
  from coordinator_step_inv [OF S inv coordinate(1) this] show ?thesis using coordinate(2) by auto
next
  case (proceed sh)
  then show ?thesis using main_step_inv [OF S inv, of sh c'] by (simp add: shards_of_def)
next
  case (collect sh handled i)
  have sh: "sh \<in> shards_of P" using collect by (simp add: shards_of_def)
  have "i \<in> finished_coords P (as_coord c)" using collect by (auto simp: finished_coords_def own_coordinators_def)
  then have "main_inv P s0 (as_coord c) sh (AriaCoordinating (insert i handled))"
    using aria_invD(3) [OF inv sh] collect by (simp add: main_inv_def)
  then show ?thesis
    unfolding collect(1) using collect
    by (intro main_silent_inv [OF inv sh]) (simp_all add: done_sent_def failures_sent_def is_installed_def)
next
  case (collect_error sh handled i e)
  then have "i < ap_size P" by (simp add: own_coordinators_def)
  then show ?thesis using aria_invD(2) [OF inv] collect_error by (fastforce simp: coord_inv_def)
qed

lemma aria_start_inv:
  assumes S: "aria_setting P" and "fresh_aria P s0 (aria_initial P stores regs results0 reorders)"
  shows "aria_inv P s0 results0 (aria_initial P stores regs results0 reorders)"
  unfolding aria_inv_def
proof (intro conjI allI impI ballI)
  let ?c = "aria_initial P stores regs results0 reorders"
  have start: "as_coord ?c i = CoordReading (sorted_list_of_set (rset P i)) Map.empty" if "i < ap_size P" for i
    using aria_batchD [OF aria_settingD(1) [OF S] that]
    by (simp add: aria_initial_def aria_start_coordinator_def aria_read_keys_for_tx_def rset_def valid_tx_def validate_sets_Ok_iff)
  have fin: "finite (rset P i)" if "i < ap_size P" for i by (rule rset_finite [OF aria_settingD(1) [OF S] that])
  show "as_failed ?c = Map.empty" by (simp add: aria_initial_def)
  show "coord_inv P s0 i (as_coord ?c i)" if "i < ap_size P" for i
    using start [OF that] fin [OF that] by (simp add: coord_inv_def reads_of_def)
  fix sh assume "sh \<in> shards_of P"
  show "main_inv P s0 (as_coord ?c) sh (as_main ?c sh)" by (simp add: aria_initial_def main_inv_def)
  have "aria_entry (ap_id P) (as_registry ?c sh) = aria_batch_state_default" using assms(2) by (simp add: fresh_aria_def)
  moreover have "coord_read P i (as_coord ?c i) = {}" "coord_staged P s0 i (as_coord ?c i) = {}" if "i < ap_size P" for i
    using start [OF that] fin [OF that] by (simp_all add: coord_read_def coord_staged_def)
  moreover have "as_main ?c q = AriaCoordinating {}" for q by (simp add: aria_initial_def)
  ultimately show "entry_inv P s0 (as_coord ?c) (as_main ?c) sh (aria_entry (ap_id P) (as_registry ?c sh))"
    by (auto simp: entry_inv_def aria_batch_state_default_def key_set_def done_sent_def failures_sent_def fun_eq_iff)
  show "output_inv P s0 (results0 sh) sh ?c"
    using assms(2) by (simp add: output_inv_def fresh_aria_def is_installed_def) (simp add: aria_initial_def)
qed

lemma aria_inv_reachable:
  assumes S: "aria_setting P" and "fresh_aria P s0 (aria_initial P stores regs results0 reorders)"
    and "(aria_step P)\<^sup>*\<^sup>* (aria_initial P stores regs results0 reorders) c"
  shows "aria_inv P s0 results0 c"
  using assms(3)
proof (induction rule: rtranclp_induct)
  case base
  show ?case by (rule aria_start_inv [OF assms(1,2)])
next
  case (step c c')
  then show ?case using aria_step_inv [OF step(2) S] by blast
qed

end
