(* ===== verification/AriaProgress.thy ===== *)
theory AriaProgress
  imports AriaRun
begin

text \<open>
  Progress of the optimistic scheduler: every run is finite, and a run that stops before all shards
  have installed the batch has lost a notification. Such runs exist: a shard looks at its reports,
  releases the lock and only then registers for the notification.
\<close>

section \<open>Termination\<close>

definition coord_work :: "aria_coordinator \<Rightarrow> nat" where
  "coord_work s = (case s of
       CoordReading ks _ \<Rightarrow> length ks + card (UNIV :: shard_id set) + 3
     | CoordStaging ms \<Rightarrow> length ms + 1
     | CoordDone _ \<Rightarrow> 0)"

definition main_work :: "aria_params \<Rightarrow> shard_id \<Rightarrow> aria_main \<Rightarrow> nat" where
  "main_work P sh m = (case m of
       AriaCoordinating handled \<Rightarrow> card (own_coordinators P sh - handled) + 2 * length (all_shards (ap_layout P)) + 9
     | AriaPublishDone ts \<Rightarrow> length ts + length (all_shards (ap_layout P)) + 8
     | AriaAwaitDone _ \<Rightarrow> length (all_shards (ap_layout P)) + 7
     | AriaFindFailures \<Rightarrow> length (all_shards (ap_layout P)) + 6
     | AriaPublishFailures _ ts \<Rightarrow> length ts + 4
     | AriaAwaitFailures _ \<Rightarrow> 3
     | AriaInstall _ \<Rightarrow> 1
     | AriaInstalled _ _ \<Rightarrow> 0)"

definition wait_rank :: "aria_main \<Rightarrow> nat" where
  "wait_rank m = (case m of
       AriaAwaitDone w \<Rightarrow> (case w of WaitChecking \<Rightarrow> 2 | WaitWindow \<Rightarrow> 1 | WaitAsleep \<Rightarrow> 0)
     | AriaAwaitFailures w \<Rightarrow> (case w of WaitChecking \<Rightarrow> 2 | WaitWindow \<Rightarrow> 1 | WaitAsleep \<Rightarrow> 0)
     | _ \<Rightarrow> 0)"

definition aria_shard_rank :: "aria_params \<Rightarrow> aria_system \<Rightarrow> shard_id \<Rightarrow> nat" where
  "aria_shard_rank P c sh =
     (if as_failed c sh \<noteq> None then 0 else 4 * main_work P sh (as_main c sh) + wait_rank (as_main c sh) + 1)"

definition aria_measure :: "aria_params \<Rightarrow> aria_system \<Rightarrow> nat" where
  "aria_measure P c = (\<Sum>i < ap_size P. 4 * coord_work (as_coord c i)) + (\<Sum>sh \<in> shards_of P. aria_shard_rank P c sh)"

text \<open>A call wakes at most one shard, which then looks at its reports once more.\<close>

lemma wait_rank_wake: "main_work P sh (wake m) = main_work P sh m" "wait_rank (wake m) \<le> wait_rank m + 2"
  by (cases m; auto simp: wake_def main_work_def wait_rank_def split: aria_wait.split)+

lemma wait_rank_le: "wait_rank m \<le> 2"
  by (cases m) (auto simp: wait_rank_def split: aria_wait.split)

lemma shards_of_finite [simp]: "finite (shards_of P)"
  by simp

lemma call_registry_cases:
  assumes "call_registry P caller t f c = (res, c')"
  shows "as_coord c' = as_coord c \<and> as_failed c' = as_failed c \<and> as_store c' = as_store c \<and>
    (as_main c' = as_main c \<or> as_main c' = (as_main c)(t := wake (as_main c t)))"
  using assms by (auto simp: call_registry_def Let_def case_prod_beta split: if_splits sum.splits)

lemma sum_rank_wake:
  assumes "as_failed c' = as_failed c" "as_main c' = as_main c \<or> as_main c' = (as_main c)(t := wake (as_main c t))"
    and "finite A"
  shows "(\<Sum>sh \<in> A. aria_shard_rank P c' sh) \<le> (\<Sum>sh \<in> A. aria_shard_rank P c sh) + 2"
proof -
  have r: "aria_shard_rank P c' sh \<le> aria_shard_rank P c sh + (if sh = t then 2 else 0)" for sh
    using assms(1,2) wait_rank_wake(1) [of P sh "as_main c sh"] wait_rank_wake(2) [of "as_main c sh"] by (auto simp: aria_shard_rank_def)
  have "(\<Sum>sh \<in> A. aria_shard_rank P c' sh) \<le> (\<Sum>sh \<in> A. aria_shard_rank P c sh + (if sh = t then 2 else 0))"
    by (intro sum_mono r)
  also have "\<dots> = (\<Sum>sh \<in> A. aria_shard_rank P c sh) + (\<Sum>sh \<in> A. if sh = t then 2 else 0)"
    by (simp add: sum.distrib)
  also have "(\<Sum>sh \<in> A. if sh = t then 2 else 0 :: nat) \<le> 2" using assms(3) by (simp add: sum.delta)
  finally show ?thesis by simp
qed

lemma aria_coord_decreases:
  assumes "i < ap_size P" "coord_work s < coord_work (as_coord c i)"
    and "as_coord c' = as_coord c" "as_failed c' = as_failed c"
    and "as_main c' = as_main c \<or> as_main c' = (as_main c)(t := wake (as_main c t))"
  shows "aria_measure P (set_coord i s c') < aria_measure P c"
proof -
  have "(\<Sum>j < ap_size P. 4 * coord_work (as_coord (set_coord i s c') j)) + 4 \<le> (\<Sum>j < ap_size P. 4 * coord_work (as_coord c j))"
  proof -
    have "(\<Sum>j < ap_size P. 4 * coord_work (as_coord (set_coord i s c') j)) =
        4 * coord_work s + (\<Sum>j \<in> {..<ap_size P} - {i}. 4 * coord_work (as_coord c j))"
      using assms(1,3) by (subst sum.remove [of _ i]) (auto intro: sum.cong)
    moreover have "(\<Sum>j < ap_size P. 4 * coord_work (as_coord c j)) =
        4 * coord_work (as_coord c i) + (\<Sum>j \<in> {..<ap_size P} - {i}. 4 * coord_work (as_coord c j))"
      using assms(1) by (subst sum.remove [of _ i]) auto
    ultimately show ?thesis using assms(2) by simp
  qed
  moreover have "(\<Sum>sh \<in> shards_of P. aria_shard_rank P (set_coord i s c') sh) \<le> (\<Sum>sh \<in> shards_of P. aria_shard_rank P c sh) + 2"
    by (rule sum_rank_wake [where t = t]) (use assms in simp_all)
  ultimately show ?thesis by (simp add: aria_measure_def)
qed

lemma aria_outcomes_length: "length (aria_outcomes L sh bid i tx r) \<le> card (UNIV :: shard_id set)"
  unfolding aria_outcomes_def Let_def length_map sorted_list_of_set.length_sorted_key_list_of_set
  by (rule card_mono) auto

lemma coordinator_step_decreases:
  assumes "i < ap_size P" "coordinator_step P i c = Some c'"
  shows "aria_measure P c' < aria_measure P c"
proof (cases "as_coord c i")
  case (CoordReading ks r)
  show ?thesis
  proof (cases ks)
    case Nil
    let ?s = "CoordStaging (aria_outcomes (ap_layout P) (ap_shard P i) (ap_id P) i (ap_tx P i) r)"
    have "c' = set_coord i ?s c" using assms CoordReading Nil by (simp add: coordinator_step_def)
    moreover have "coord_work ?s < coord_work (as_coord c i)"
      using aria_outcomes_length [of "ap_layout P" "ap_shard P i" "ap_id P" i "ap_tx P i" r] CoordReading
      by (simp add: coord_work_def)
    ultimately show ?thesis using aria_coord_decreases [OF assms(1), where s = ?s and c = c and c' = c] by simp
  next
    case (Cons k ks')
    let ?o = "shard_for_key (ap_layout P) k"
    obtain res c1 where r: "(if ?o = ap_shard P i then aria_read_snapshot_local P (ap_shard P i) i k c
        else aria_read_snapshot_remote P (ap_shard P i) i ?o k c) = (res, c1)" by fastforce
    then have "\<exists>t. as_coord c1 = as_coord c \<and> as_failed c1 = as_failed c \<and> as_store c1 = as_store c \<and>
        (as_main c1 = as_main c \<or> as_main c1 = (as_main c)(t := wake (as_main c t)))"
      unfolding aria_read_snapshot_local_def aria_read_snapshot_remote_def
      by (cases "?o = ap_shard P i") (auto dest!: call_registry_cases)
    then obtain t where t: "as_coord c1 = as_coord c" "as_failed c1 = as_failed c"
      "as_main c1 = as_main c \<or> as_main c1 = (as_main c)(t := wake (as_main c t))" by blast
    obtain s where "c' = set_coord i s c1" "coord_work s < coord_work (as_coord c i)"
      using assms(2) CoordReading Cons r
      by (auto simp: coordinator_step_def coord_work_def Let_def split: sum.splits if_splits)
    then show ?thesis using aria_coord_decreases [OF assms(1) _ t] by simp
  qed
next
  case (CoordStaging ms)
  show ?thesis
  proof (cases ms)
    case Nil
    then have "c' = set_coord i (CoordDone (Ok ())) c" using assms CoordStaging by (simp add: coordinator_step_def)
    then show ?thesis
      using aria_coord_decreases [OF assms(1), where s = "CoordDone (Ok ())" and c = c and c' = c] CoordStaging by (simp add: coord_work_def)
  next
    case (Cons m ms')
    obtain target out where m: "m = (target, out)" by fastforce
    obtain res c1 where r: "(if target = ap_shard P i
        then call_registry P (ap_shard P i) (ap_shard P i) (stage_outcome (ap_layout P) (ap_shard P i) out) c
        else send_aria_stage_outcome P (ap_shard P i) target out c) = (res, c1)" by fastforce
    then have "\<exists>t. as_coord c1 = as_coord c \<and> as_failed c1 = as_failed c \<and> as_store c1 = as_store c \<and>
        (as_main c1 = as_main c \<or> as_main c1 = (as_main c)(t := wake (as_main c t)))"
      unfolding send_aria_stage_outcome_def
      by (cases "target = ap_shard P i") (auto dest!: call_registry_cases)
    then obtain t where t: "as_coord c1 = as_coord c" "as_failed c1 = as_failed c"
      "as_main c1 = as_main c \<or> as_main c1 = (as_main c)(t := wake (as_main c t))" by blast
    obtain s where "c' = set_coord i s c1" "coord_work s < coord_work (as_coord c i)"
      using assms(2) CoordStaging Cons m r
      by (auto simp: coordinator_step_def coord_work_def Let_def split: sum.splits if_splits)
    then show ?thesis using aria_coord_decreases [OF assms(1) _ t] by simp
  qed
qed (use assms in \<open>simp add: coordinator_step_def\<close>)

text \<open>A step of the batch lowers the rank of its shard by more than a wake-up adds elsewhere.\<close>

lemma aria_main_decreases:
  assumes sh: "sh \<in> shards_of P"
    and same: "as_coord c' = as_coord c" "\<And>q. q \<noteq> sh \<Longrightarrow> as_failed c' q = as_failed c q"
      "\<And>q. q \<noteq> sh \<Longrightarrow> as_main c' q = as_main c q \<or> q = t \<and> as_main c' q = wake (as_main c q)"
    and less: "aria_shard_rank P c' sh + (if \<exists>q. q \<noteq> sh \<and> as_main c' q \<noteq> as_main c q then 2 else 0) < aria_shard_rank P c sh"
  shows "aria_measure P c' < aria_measure P c"
proof -
  let ?A = "shards_of P - {sh}" and ?w = "if \<exists>q. q \<noteq> sh \<and> as_main c' q \<noteq> as_main c q then 2 else (0::nat)"
  have r: "aria_shard_rank P c' q \<le> aria_shard_rank P c q + (if q = t then ?w else 0)" if "q \<in> ?A" for q
    using that same(2) [of q] same(3) [of q] wait_rank_wake(1) [of P q "as_main c q"] wait_rank_wake(2) [of "as_main c q"]
    by (auto simp: aria_shard_rank_def)
  have "(\<Sum>q \<in> ?A. aria_shard_rank P c' q) \<le> (\<Sum>q \<in> ?A. aria_shard_rank P c q + (if q = t then ?w else 0))"
    by (intro sum_mono r)
  also have "\<dots> = (\<Sum>q \<in> ?A. aria_shard_rank P c q) + (\<Sum>q \<in> ?A. if q = t then ?w else 0)" by (rule sum.distrib)
  also have "(\<Sum>q \<in> ?A. if q = t then ?w else 0) \<le> ?w" by (simp only: sum.delta [OF finite_Diff [OF shards_of_finite]]) simp
  finally have "(\<Sum>q \<in> ?A. aria_shard_rank P c' q) \<le> (\<Sum>q \<in> ?A. aria_shard_rank P c q) + ?w" by simp
  moreover have "(\<Sum>q \<in> shards_of P. aria_shard_rank P d q) = aria_shard_rank P d sh + (\<Sum>q \<in> ?A. aria_shard_rank P d q)" for d
    by (rule sum.remove [OF shards_of_finite sh])
  ultimately show ?thesis using less same(1) by (simp add: aria_measure_def)
qed

lemma main_silent_decreases:
  assumes "sh \<in> shards_of P" "as_failed c sh = None"
    and "4 * main_work P sh m + wait_rank m < 4 * main_work P sh (as_main c sh) + wait_rank (as_main c sh)"
  shows "aria_measure P (set_main sh m c) < aria_measure P c"
  by (rule aria_main_decreases [OF assms(1), where t = sh]) (use assms(2,3) in \<open>auto simp: aria_shard_rank_def\<close>)

lemma main_report_decreases:
  fixes res :: "unit result"
  assumes sh: "sh \<in> shards_of P" and f: "as_failed c sh = None"
    and call: "call_registry P caller t g c = (res, c1)"
    and less: "main_work P sh m < main_work P sh (as_main c sh)" "wait_rank m = 0"
  shows "aria_measure P (case res of Err e \<Rightarrow> fail_shard sh e c1 | Ok _ \<Rightarrow> set_main sh m c1) < aria_measure P c"
proof -
  note cr = call_registry_cases [OF call]
  have "aria_shard_rank P (set_main sh m c1) sh + 2 < aria_shard_rank P c sh"
    using cr f less by (simp add: aria_shard_rank_def)
  moreover have "aria_shard_rank P (fail_shard sh e c1) sh + 2 < aria_shard_rank P c sh" for e
    using f less(1) by (simp add: aria_shard_rank_def fail_shard_def)
  moreover have "aria_measure P c2 < aria_measure P c"
    if c2: "as_coord c2 = as_coord c" "\<And>q. q \<noteq> sh \<Longrightarrow> as_failed c2 q = as_failed c q"
      "\<And>q. q \<noteq> sh \<Longrightarrow> as_main c2 q = as_main c1 q" "aria_shard_rank P c2 sh + 2 < aria_shard_rank P c sh" for c2
  proof -
    have m: "as_main c2 q = as_main c q \<or> q = t \<and> as_main c2 q = wake (as_main c q)" if "q \<noteq> sh" for q
      using cr c2(3) [OF that] by (auto split: if_splits)
    have "aria_shard_rank P c2 sh + (if \<exists>q. q \<noteq> sh \<and> as_main c2 q \<noteq> as_main c q then 2 else 0) < aria_shard_rank P c sh"
      using c2(4) by (auto split: if_split)
    from aria_main_decreases [OF sh c2(1) _ _ this, where t = t] c2(2) m show ?thesis by blast
  qed
  ultimately show ?thesis using cr by (cases res) (auto simp: fail_shard_def)
qed

lemma install_decreases:
  assumes "sh \<in> shards_of P" "as_failed c sh = None" "as_main c sh = AriaInstall failed"
  shows "aria_measure P (install_aria_batch P sh failed c) < aria_measure P c" (is "aria_measure P ?c < _")
proof (rule aria_main_decreases [OF assms(1), where t = sh])
  show "as_coord ?c = as_coord c"
    by (auto simp: install_aria_batch_def fail_shard_def Let_def case_prod_beta split: sum.splits)
  show "as_failed ?c q = as_failed c q" "as_main ?c q = as_main c q \<or> q = sh \<and> as_main ?c q = wake (as_main c q)"
    if "q \<noteq> sh" for q
    using that by (auto simp: install_aria_batch_def fail_shard_def Let_def case_prod_beta split: sum.splits)
  show "aria_shard_rank P ?c sh + (if \<exists>q. q \<noteq> sh \<and> as_main ?c q \<noteq> as_main c q then 2 else 0) < aria_shard_rank P c sh"
    using assms(2,3)
    by (auto simp: install_aria_batch_def fail_shard_def Let_def case_prod_beta aria_shard_rank_def main_work_def wait_rank_def
        split: sum.splits)
qed

lemma main_step_decreases:
  assumes sh: "sh \<in> shards_of P" and f: "as_failed c sh = None" and step: "main_step P sh c = Some c'"
  shows "aria_measure P c' < aria_measure P c"
proof -
  note silent = main_silent_decreases [OF sh f] and report = main_report_decreases [OF sh f]
  show ?thesis
  proof (cases "as_main c sh")
    case (AriaCoordinating handled)
    then show ?thesis using step silent by (auto simp: main_step_def main_work_def wait_rank_def split: if_splits)
  next
    case (AriaPublishDone ts)
    show ?thesis
    proof (cases ts)
      case Nil
      then show ?thesis using step AriaPublishDone silent by (auto simp: main_step_def main_work_def wait_rank_def)
    next
      case (Cons t ts')
      obtain res c1 where r: "broadcast_aria_execution_done P sh t c = (res, c1)" by fastforce
      have "c' = (case res of Err e \<Rightarrow> fail_shard sh e c1 | Ok _ \<Rightarrow> set_main sh (AriaPublishDone ts') c1)"
        using step AriaPublishDone Cons r by (simp add: main_step_def)
      then show ?thesis
        using report [OF r [unfolded broadcast_aria_execution_done_def], of "AriaPublishDone ts'"] AriaPublishDone Cons
        by (simp add: main_work_def wait_rank_def)
    qed
  next
    case (AriaAwaitDone w)
    then show ?thesis
      using step silent
      by (cases w) (auto simp: main_step_def wait_execution_done_def Let_def main_work_def wait_rank_def split: if_splits)
  next
    case AriaFindFailures
    then show ?thesis using step silent by (auto simp: main_step_def main_work_def wait_rank_def)
  next
    case (AriaPublishFailures failed ts)
    show ?thesis
    proof (cases ts)
      case Nil
      then show ?thesis using step AriaPublishFailures silent by (auto simp: main_step_def main_work_def wait_rank_def)
    next
      case (Cons t ts')
      obtain res c1 where r: "broadcast_aria_local_failures P sh failed t c = (res, c1)" by fastforce
      have "c' = (case res of Err e \<Rightarrow> fail_shard sh e c1 | Ok _ \<Rightarrow> set_main sh (AriaPublishFailures failed ts') c1)"
        using step AriaPublishFailures Cons r by (simp add: main_step_def)
      then show ?thesis
        using report [OF r [unfolded broadcast_aria_local_failures_def], of "AriaPublishFailures failed ts'"] AriaPublishFailures Cons
        by (simp add: main_work_def wait_rank_def)
    qed
  next
    case (AriaAwaitFailures w)
    then show ?thesis
      using step silent
      by (cases w) (auto simp: main_step_def wait_failure_reports_def Let_def main_work_def wait_rank_def split: if_splits)
  next
    case (AriaInstall failed)
    then show ?thesis using step install_decreases [OF sh f] by (simp add: main_step_def)
  next
    case (AriaInstalled failed records)
    then show ?thesis using step by (simp add: main_step_def)
  qed
qed

lemma aria_step_decreases: "aria_step P c c' \<Longrightarrow> aria_measure P c' < aria_measure P c"
proof (induction rule: aria_step.induct)
  case (coordinate i c c')
  then show ?case by (rule coordinator_step_decreases)
next
  case (proceed sh c c')
  then show ?case by (intro main_step_decreases) (simp_all add: shards_of_def)
next
  case (collect sh c handled i)
  have fin: "finite (own_coordinators P sh - handled)" by (simp add: own_coordinators_def)
  have "card (own_coordinators P sh - insert i handled) < card (own_coordinators P sh - handled)"
    by (rule psubset_card_mono [OF fin]) (use collect in auto)
  then show ?case
    using collect by (intro aria_main_decreases [where sh = sh and t = sh])
      (auto simp: shards_of_def aria_shard_rank_def main_work_def wait_rank_def)
next
  case (collect_error sh c handled i e)
  then show ?case
    by (intro aria_main_decreases [where sh = sh and t = sh]) (auto simp: shards_of_def aria_shard_rank_def fail_shard_def main_work_def)
qed

section \<open>Blocked runs\<close>

lemma coordinator_step_None: "coordinator_step P i c = None \<longleftrightarrow> (\<exists>r. as_coord c i = CoordDone r)"
  by (auto simp: coordinator_step_def Let_def case_prod_beta split: aria_coordinator.splits list.splits)

lemma main_step_None:
  "main_step P sh c = None \<longleftrightarrow> (case as_main c sh of
       AriaCoordinating handled \<Rightarrow> handled \<noteq> own_coordinators P sh
     | AriaAwaitDone w \<Rightarrow> w = WaitAsleep
     | AriaAwaitFailures w \<Rightarrow> w = WaitAsleep
     | AriaInstalled _ _ \<Rightarrow> True
     | _ \<Rightarrow> False)"
  by (auto simp: main_step_def Let_def case_prod_beta wait_execution_done_def wait_failure_reports_def
      split: aria_main.splits aria_wait.splits list.splits)

definition lost_notification :: "aria_params \<Rightarrow> aria_system \<Rightarrow> shard_id \<Rightarrow> bool" where
  "lost_notification P c sh \<longleftrightarrow>
     (let e = aria_entry (ap_id P) (as_registry c sh); n = unat (ap_count P)
      in as_main c sh = AriaAwaitDone WaitAsleep \<and> has_all_aria_reports (execution_done_reports e) n \<or>
         as_main c sh = AriaAwaitFailures WaitAsleep \<and> has_all_aria_reports (dom (failure_reports e)) n)"

definition asleep_or_installed :: "aria_main \<Rightarrow> bool" where
  "asleep_or_installed m \<longleftrightarrow>
     m = AriaAwaitDone WaitAsleep \<or> m = AriaAwaitFailures WaitAsleep \<or> (\<exists>F rs. m = AriaInstalled F rs)"

lemma blocked_main:
  assumes inv: "aria_inv P s0 results0 c" and blocked: "\<And>c'. \<not> aria_step P c c'" and sh: "sh \<in> shards_of P"
  shows "asleep_or_installed (as_main c sh)"
proof -
  have f: "as_failed c sh = None" using aria_invD(1) [OF inv] by simp
  have lt: "sh < ap_count P" using sh by (simp add: shards_of_def)
  have none: "main_step P sh c = None" using blocked proceed [OF lt f] by (cases "main_step P sh c") auto
  have coords: "\<exists>r. as_coord c i = CoordDone r" if "i < ap_size P" for i
    using blocked coordinate [OF that, of c] coordinator_step_None [of P i c] by (cases "coordinator_step P i c") auto
  have "handled = own_coordinators P sh" if M: "as_main c sh = AriaCoordinating handled" for handled
  proof (rule ccontr)
    assume "handled \<noteq> own_coordinators P sh"
    moreover have "handled \<subseteq> own_coordinators P sh" using aria_invD(3) [OF inv sh] M by (simp add: main_inv_def)
    ultimately obtain i where i: "i \<in> own_coordinators P sh - handled" by blast
    then have "i < ap_size P" by (simp add: own_coordinators_def)
    then have "as_coord c i = CoordDone (Ok ())" using coords aria_invD(2) [OF inv] by (fastforce simp: coord_inv_def)
    from blocked collect [OF lt f M i this] show False by blast
  qed
  then show ?thesis
    using none by (auto simp: main_step_None asleep_or_installed_def split: aria_main.splits)
qed

lemma awaiting_reports_complete:
  assumes b: "aria_batch P" and inv: "aria_inv P s0 results0 c" and blocked: "\<And>c'. \<not> aria_step P c c'"
    and sh: "sh \<in> shards_of P" and M: "as_main c sh = AriaAwaitDone WaitAsleep"
  shows "lost_notification P c sh"
proof -
  have "sh \<in> done_sent P (as_main c q)" if "q \<in> shards_of P" for q
    using blocked_main [OF inv blocked that] sh by (auto simp: asleep_or_installed_def done_sent_def)
  then have "execution_done_reports (aria_entry (ap_id P) (as_registry c sh)) = shards_of P"
    using aria_invD(4) [OF inv sh] by (auto simp: entry_inv_def)
  then show ?thesis using M by (simp add: lost_notification_def has_all_aria_reports_iff [OF b])
qed

lemma blocked_cases:
  assumes b: "aria_batch P" and inv: "aria_inv P s0 results0 c" and blocked: "\<And>c'. \<not> aria_step P c c'"
  shows "(\<forall>sh \<in> shards_of P. \<exists>F rs. as_main c sh = AriaInstalled F rs) \<or> (\<exists>sh \<in> shards_of P. lost_notification P c sh)"
proof -
  note m = blocked_main [OF inv blocked] and awaiting_reports_complete [OF b inv blocked]
  moreover have "lost_notification P c sh"
    if sh: "sh \<in> shards_of P" and M: "as_main c sh = AriaAwaitFailures WaitAsleep"
      and none: "\<And>q. q \<in> shards_of P \<Longrightarrow> as_main c q \<noteq> AriaAwaitDone WaitAsleep" for sh
  proof -
    have "sh \<in> failures_sent P (as_main c q)" if "q \<in> shards_of P" for q
      using m [OF that] none [OF that] sh by (auto simp: asleep_or_installed_def failures_sent_def)
    then have "dom (failure_reports (aria_entry (ap_id P) (as_registry c sh))) = shards_of P"
      using aria_invD(4) [OF inv sh] by (auto simp: entry_inv_def split: if_splits)
    then show ?thesis using M by (simp add: lost_notification_def has_all_aria_reports_iff [OF b])
  qed
  ultimately show ?thesis using m unfolding asleep_or_installed_def by meson
qed

section \<open>Runs that finish\<close>

text \<open>A state in which no shard has left the loop over its reports to wait; such a state can go on to the
  end without that, so it is only the schedule that can make the batch block.\<close>

definition waits :: "aria_main \<Rightarrow> bool" where
  "waits m \<longleftrightarrow> (\<exists>w. w \<noteq> WaitChecking \<and> (m = AriaAwaitDone w \<or> m = AriaAwaitFailures w))"

definition awake :: "aria_params \<Rightarrow> aria_system \<Rightarrow> bool" where
  "awake P c \<longleftrightarrow> (\<forall>sh \<in> shards_of P. \<not> waits (as_main c sh))"

lemma waits_simps [simp]:
  "\<not> waits (AriaCoordinating h)" "\<not> waits (AriaPublishDone ts)" "\<not> waits AriaFindFailures"
  "\<not> waits (AriaPublishFailures F ts)" "\<not> waits (AriaInstall F)" "\<not> waits (AriaInstalled F rs)"
  "waits (AriaAwaitDone w) \<longleftrightarrow> w \<noteq> WaitChecking" "waits (AriaAwaitFailures w) \<longleftrightarrow> w \<noteq> WaitChecking"
  by (auto simp: waits_def)

lemma waits_wake: "\<not> waits m \<Longrightarrow> \<not> waits (wake m)"
  by (auto simp: wake_def split: aria_main.splits aria_wait.splits)

lemma awake_call:
  assumes "call_registry P caller t f c = (res, c')" "awake P c"
  shows "awake P c'"
  using call_registry_cases [OF assms(1)] assms(2) by (auto simp: awake_def waits_wake split: if_splits)

lemma awake_coordinator:
  assumes "coordinator_step P i c = Some c'" "awake P c"
  shows "awake P c'"
proof -
  have "awake P (set_coord i s c1) \<longleftrightarrow> awake P c1" for s c1 by (simp add: awake_def)
  then show ?thesis
    using assms
    by (auto dest!: awake_call [OF _ assms(2)] simp: coordinator_step_def Let_def aria_read_snapshot_local_def aria_read_snapshot_remote_def
        send_aria_stage_outcome_def split: aria_coordinator.splits list.splits prod.splits if_splits)
qed

definition reports_missing :: "aria_params \<Rightarrow> aria_system \<Rightarrow> shard_id \<Rightarrow> bool" where
  "reports_missing P c sh \<longleftrightarrow>
     (let e = aria_entry (ap_id P) (as_registry c sh); n = unat (ap_count P)
      in as_main c sh = AriaAwaitDone WaitChecking \<and> \<not> has_all_aria_reports (execution_done_reports e) n \<or>
         as_main c sh = AriaAwaitFailures WaitChecking \<and> \<not> has_all_aria_reports (dom (failure_reports e)) n)"

lemma awake_main:
  assumes "main_step P sh c = Some c'" "awake P c" "sh \<in> shards_of P" "\<not> reports_missing P c sh"
  shows "awake P c'"
proof -
  have m: "awake P (set_main sh m c1)" if "awake P c1" "\<not> waits m" for m c1 using that by (simp add: awake_def)
  have f: "awake P (fail_shard sh e c1) \<longleftrightarrow> awake P c1" for e c1 by (simp add: awake_def fail_shard_def)
  have i: "awake P (install_aria_batch P sh F c)" for F
    using assms(2) m by (auto simp: install_aria_batch_def Let_def case_prod_beta awake_def fail_shard_def split: sum.splits)
  have "\<not> waits (as_main c sh)" using assms(2,3) by (simp add: awake_def)
  then show ?thesis
    using assms m f i
    by (cases "as_main c sh")
      (auto dest!: awake_call [OF _ assms(2)] simp: main_step_def Let_def broadcast_aria_execution_done_def broadcast_aria_local_failures_def
        wait_execution_done_def wait_failure_reports_def reports_missing_def
        split: list.splits prod.splits if_splits sum.splits)
qed

lemma awake_can_go_on:
  assumes S: "aria_setting P" and inv: "aria_inv P s0 results0 c" and aw: "awake P c"
    and more: "\<not> (\<forall>sh \<in> shards_of P. is_installed (as_main c sh))"
  shows "\<exists>c'. aria_step P c c' \<and> awake P c'"
proof (rule ccontr)
  assume "\<nexists>c'. aria_step P c c' \<and> awake P c'"
  then have blocked: "\<not> awake P c'" if "aria_step P c c'" for c' using that by blast
  note b = aria_settingD(1) [OF S]
  have coords: "\<exists>r. as_coord c i = CoordDone r" if "i < ap_size P" for i
    using blocked coordinate [OF that, of c] awake_coordinator [OF _ aw, of i] coordinator_step_None [of P i c]
    by (cases "coordinator_step P i c") auto
  have stuck: "reports_missing P c sh \<or> is_installed (as_main c sh)" if sh: "sh \<in> shards_of P" for sh
  proof (rule ccontr)
    assume n: "\<not> ?thesis"
    have f: "as_failed c sh = None" using aria_invD(1) [OF inv] by simp
    have lt: "sh < ap_count P" using sh by (simp add: shards_of_def)
    have none: "main_step P sh c = None"
      using blocked proceed [OF lt f] awake_main [OF _ aw sh] n by (cases "main_step P sh c") auto
    have "\<not> waits (as_main c sh)" using aw sh by (simp add: awake_def)
    then obtain handled where M: "as_main c sh = AriaCoordinating handled" "handled \<noteq> own_coordinators P sh"
      using none n by (auto simp: main_step_None is_installed_def split: aria_main.splits)
    then obtain i where i: "i \<in> own_coordinators P sh - handled"
      using aria_invD(3) [OF inv sh] by (auto simp: main_inv_def)
    then have "i < ap_size P" by (simp add: own_coordinators_def)
    then have "as_coord c i = CoordDone (Ok ())" using coords aria_invD(2) [OF inv] by (fastforce simp: coord_inv_def)
    from blocked [OF collect [OF lt f M(1) i this]] aw show False by (auto simp: awake_def split: if_splits)
  qed
  have no_done: "as_main c sh \<noteq> AriaAwaitDone WaitChecking" if sh: "sh \<in> shards_of P" for sh
  proof
    assume M: "as_main c sh = AriaAwaitDone WaitChecking"
    have "sh \<in> done_sent P (as_main c q)" if "q \<in> shards_of P" for q
      using stuck [OF that] sh by (auto simp: reports_missing_def Let_def is_installed_def done_sent_def split: aria_main.splits)
    then have "execution_done_reports (aria_entry (ap_id P) (as_registry c sh)) = shards_of P"
      using aria_invD(4) [OF inv sh] by (auto simp: entry_inv_def)
    then show False using stuck [OF sh] M by (simp add: reports_missing_def is_installed_def has_all_aria_reports_iff [OF b])
  qed
  obtain sh where sh: "sh \<in> shards_of P" "\<not> is_installed (as_main c sh)" using more by blast
  have "sh \<in> failures_sent P (as_main c q)" if "q \<in> shards_of P" for q
    using stuck [OF that] no_done [OF that] sh by (auto simp: reports_missing_def Let_def is_installed_def failures_sent_def split: aria_main.splits)
  then have "dom (failure_reports (aria_entry (ap_id P) (as_registry c sh))) = shards_of P"
    using aria_invD(4) [OF inv sh(1)] by (auto simp: entry_inv_def split: if_splits)
  then show False
    using stuck [OF sh(1)] no_done [OF sh(1)] sh(2) by (simp add: reports_missing_def Let_def has_all_aria_reports_iff [OF b])
qed

lemma aria_can_finish:
  assumes S: "aria_setting P" and "aria_inv P s0 results0 c" "awake P c"
  shows "\<exists>c'. (aria_step P)\<^sup>*\<^sup>* c c' \<and> (\<forall>sh \<in> shards_of P. is_installed (as_main c' sh))"
  using assms(2,3)
proof (induction "aria_measure P c" arbitrary: c rule: less_induct)
  case less
  show ?case
  proof (cases "\<forall>sh \<in> shards_of P. is_installed (as_main c sh)")
    case False
    then obtain c1 where c1: "aria_step P c c1" "awake P c1" using awake_can_go_on [OF S less(2,3)] by blast
    from less(1) [OF aria_step_decreases [OF c1(1)] aria_step_inv [OF c1(1) S less(2)] c1(2)] show ?thesis
      using c1(1) by (meson converse_rtranclp_into_rtranclp)
  qed blast
qed

section \<open>A schedule that blocks\<close>

text \<open>The batches of the shards go on in the given order.\<close>

fun main_schedule :: "aria_params \<Rightarrow> shard_id list \<Rightarrow> aria_system \<Rightarrow> aria_system option" where
  "main_schedule P [] c = Some c"
| "main_schedule P (sh # shs) c =
     (if sh < ap_count P \<and> as_failed c sh = None
      then (case main_step P sh c of None \<Rightarrow> None | Some c' \<Rightarrow> main_schedule P shs c') else None)"

lemma main_schedule_reachable: "main_schedule P shs c = Some c' \<Longrightarrow> (aria_step P)\<^sup>*\<^sup>* c c'"
  by (induction shs arbitrary: c)
    (auto split: if_splits option.splits intro: proceed converse_rtranclp_into_rtranclp)

definition empty_aria :: aria_params where
  "empty_aria = \<lparr>ap_layout = \<lparr>shard_count = 2\<rparr>, ap_peers = UNIV, ap_batch = \<lparr>batch_id = 1, txs = []\<rparr>\<rparr>"

abbreviation empty_start :: aria_system where
  "empty_start \<equiv> aria_initial empty_aria (\<lambda>_. Map.empty) (\<lambda>_. Map.empty) (\<lambda>_. Map.empty) (\<lambda>_. Map.empty)"

lemma empty_aria_setting: "aria_setting empty_aria" "fresh_aria empty_aria Map.empty empty_start"
  by (simp_all add: aria_setting_def aria_batch_def empty_aria_def fresh_aria_def aria_initial_def aria_entry_def
      shard_part_def)

lemma empty_aria_simps [simp]:
  "ap_count empty_aria = 2" "ap_id empty_aria = 1" "txs (ap_batch empty_aria) = []" "ap_peers empty_aria = UNIV"
  "all_shards (ap_layout empty_aria) = [0, 1]" "own_coordinators empty_aria sh = {}"
  by (simp_all add: empty_aria_def own_coordinators_def all_shards_def upt_rec)

lemma all_two_reports [simp]: "has_all_aria_reports S 2 \<longleftrightarrow> 0 \<in> S \<and> 1 \<in> S"
  by (auto simp: has_all_aria_reports_def less_2_cases_iff)

lemma two_shards [simp]: "\<not> (2 :: u64) \<le> 1"
  by (simp add: word_le_nat_alt)

lemmas schedule_simps = main_step_def broadcast_aria_execution_done_def broadcast_aria_local_failures_def
  call_registry_def record_execution_done_def record_local_failures_def validate_aria_report_shard_def
  wait_execution_done_def wait_failure_reports_def aria_entry_def aria_batch_state_default_def wake_def
  local_failed_indices_def

lemma blocking_schedule:
  "\<exists>c. main_schedule empty_aria ([0, 0, 0, 0, 0] @ [1, 1, 1, 1, 1, 1, 1, 1, 1, 1, 1] @ [0]) empty_start = Some c \<and>
     as_main c 0 = AriaAwaitDone WaitAsleep \<and> as_main c 1 = AriaAwaitFailures WaitAsleep"
  by (simp add: schedule_simps aria_initial_def Let_def)

lemma blocking_run:
  obtains c where "(aria_step empty_aria)\<^sup>*\<^sup>* empty_start c" "\<nexists>c'. aria_step empty_aria c c'"
    "as_main c 0 = AriaAwaitDone WaitAsleep" "as_main c 1 = AriaAwaitFailures WaitAsleep"
proof -
  obtain c where c: "main_schedule empty_aria ([0, 0, 0, 0, 0] @ [1, 1, 1, 1, 1, 1, 1, 1, 1, 1, 1] @ [0]) empty_start = Some c"
    "as_main c 0 = AriaAwaitDone WaitAsleep" "as_main c 1 = AriaAwaitFailures WaitAsleep"
    using blocking_schedule by blast
  have two: "sh = 0 \<or> sh = 1" if "sh < ap_count empty_aria" for sh
  proof -
    have "unat sh < 2" using that by (simp add: word_less_nat_alt)
    then have "unat sh = 0 \<or> unat sh = 1" by linarith
    then show ?thesis using unsigned_word_eqI [where ?'a = nat, of sh 0] unsigned_word_eqI [where ?'a = nat, of sh 1] by auto
  qed
  have asleep: "as_main c sh = AriaAwaitDone WaitAsleep \<or> as_main c sh = AriaAwaitFailures WaitAsleep"
    if "sh < ap_count empty_aria" for sh using two [OF that] c(2,3) by auto
  have "\<not> aria_step empty_aria c c'" for c'
  proof
    assume "aria_step empty_aria c c'"
    then show False
    proof cases
      case (proceed sh)
      then show False using asleep [of sh] main_step_None [of empty_aria sh c] by auto
    qed (use asleep in auto)
  qed
  then show ?thesis using that main_schedule_reachable [OF c(1)] c(2,3) by blast
qed

section \<open>Properties\<close>

text \<open>C9: Every run of the optimistic scheduler is finite, whatever the coordinators, the shards and the
  calls between them do: each step lowers the work that is left by more than the wake-ups it causes.\<close>

theorem aria_runs_terminate: "wfP (\<lambda>c' c. aria_step P c c')"
  by (rule wfp_if_convertible_to_nat [where f = "aria_measure P"]) (rule aria_step_decreases)

text \<open>C8: The optimistic scheduler blocks only by a lost notification. From a fresh start with valid
  transactions and all peers known no shard fails, and where no step is possible either every shard
  has installed the batch or some shard sleeps although all the reports it waits for have arrived.\<close>

theorem aria_blocks_only_by_lost_notification:
  assumes "aria_setting P" and "fresh_aria P s0 (aria_initial P stores regs results reorders)"
    and "(aria_step P)\<^sup>*\<^sup>* (aria_initial P stores regs results reorders) c"
  shows "as_failed c = Map.empty \<and> ((\<exists>c'. aria_step P c c') \<or>
    (\<forall>sh < ap_count P. \<exists>failed records. as_main c sh = AriaInstalled failed records) \<or>
    (\<exists>sh < ap_count P. lost_notification P c sh))"
proof -
  note inv = aria_inv_reachable [OF assms]
  show ?thesis
    using blocked_cases [OF aria_settingD(1) [OF assms(1)] inv] aria_invD(1) [OF inv] by (auto simp: shards_of_def)
qed

theorem aria_blocks_only_by_lost_notification_witness:
  "\<exists>c. (aria_step empty_aria)\<^sup>*\<^sup>* empty_start c \<and> as_failed c = Map.empty \<and> (\<exists>sh < 2. lost_notification empty_aria c sh)"
proof -
  obtain c where c: "(aria_step empty_aria)\<^sup>*\<^sup>* empty_start c" "\<nexists>c'. aria_step empty_aria c c'"
    "as_main c 0 = AriaAwaitDone WaitAsleep" "as_main c 1 = AriaAwaitFailures WaitAsleep" by (rule blocking_run)
  have "\<not> (\<forall>sh < ap_count empty_aria. \<exists>failed records. as_main c sh = AriaInstalled failed records)"
    using c(3) by (auto intro!: exI [of _ 0])
  then show ?thesis
    using aria_blocks_only_by_lost_notification [OF empty_aria_setting c(1)] c(1,2) by auto
qed

text \<open>C7: Such a run exists. Two shards run an empty batch, which the sequencer sends for a submission
  without operations: one looks at the execution reports, the other completes them and notifies before
  the first has registered for it, and both sleep for ever.\<close>

theorem aria_wait_can_hang:
  "\<exists>c. (aria_step empty_aria)\<^sup>*\<^sup>* empty_start c \<and> (\<nexists>c'. aria_step empty_aria c c') \<and>
     lost_notification empty_aria c 0 \<and> as_main c 1 = AriaAwaitFailures WaitAsleep"
proof -
  obtain c where c: "(aria_step empty_aria)\<^sup>*\<^sup>* empty_start c" "\<nexists>c'. aria_step empty_aria c c'"
    "as_main c 0 = AriaAwaitDone WaitAsleep" "as_main c 1 = AriaAwaitFailures WaitAsleep" by (rule blocking_run)
  have "lost_notification empty_aria c 0"
    using awaiting_reports_complete [OF _ aria_inv_reachable [OF empty_aria_setting c(1)] _ _ c(3)] c(2) empty_aria_setting(1)
    by (auto simp: aria_setting_def shards_of_def)
  then show ?thesis using c by blast
qed

end
