(* ===== verification/AriaTheorems.thy ===== *)
theory AriaTheorems
  imports AriaProgress SccFallback
begin

text \<open>
  The whole of \<open>execute_aria_batch\<close> in \<open>src/engine.rs\<close>: the optimistic phase, in which the winners of the
  conflicts are installed, and the rerun of the losers under locks with their own active shards. All
  shards rerun the same batch, since they have exchanged their failures. Together the two phases are
  the serial execution in the recorded order, for the stores and for the results of the clients.
\<close>

section \<open>The rerun\<close>

definition aria_rerun ::
    "aria_params \<Rightarrow> shard_id \<Rightarrow> nat set \<Rightarrow> mailbox_registry \<Rightarrow> tx_result_registry \<Rightarrow> spawned result" where
  "aria_rerun P sh failed mail results =
     (if failed = {} then Ok (no_workers mail results)
      else rbind (fallback_batch_with_derived_sets (ap_batch P) failed) (\<lambda>fb.
        aria_fallback_prologue (ap_layout P) sh fb mail results))"

lemma derived_fallback_same:
  assumes "\<forall>t \<in> set (txs b). validate_sets t = Ok ()" "F \<subseteq> {..<length (txs b)}"
  shows "fallback_batch_with_derived_sets b F = Ok (fallback_batch_from_failed_indices b F)"
proof -
  have "tx_with_derived_sets (txs b ! i) = Ok (txs b ! i)" if "i \<in> set (sorted_list_of_set F)" for i
    using that assms finite_subset [OF assms(2)] by (auto intro!: tx_with_derived_sets_same)
  then show ?thesis
    unfolding fallback_batch_with_derived_sets_def fallback_batch_from_failed_indices_def
    by (subst traverse_all_ok [where g = "\<lambda>(j, i). (txs b ! i)\<lparr>batch_index := word_of_nat j\<rparr>"])
      (auto simp: in_set_enumerate_eq)
qed

lemma prologue_results:
  assumes "aria_fallback_prologue L sh b mail results = Ok sp"
  shows "sp_results sp = results"
proof -
  have "sp_results sp' = results" if "aria_spawn L sh bid t sp0 = Ok sp'" "sp_results sp0 = results" for bid t sp0 sp'
    using that by (auto simp: aria_spawn_def res_simps Let_def case_prod_beta split: if_splits)
  then show ?thesis
    using assms fold_res_invariant [where I = "\<lambda>sp. sp_results sp = results" and f = "aria_spawn L sh (batch_id b)"]
    by (fastforce simp: aria_fallback_prologue_def res_simps)
qed

lemma rerun_results: "aria_rerun P sh F mail results = Ok sp \<Longrightarrow> sp_results sp = results"
  by (auto simp: aria_rerun_def no_workers_def res_simps prologue_results split: if_splits)

abbreviation aria_fallback :: "aria_params \<Rightarrow> fs_state \<Rightarrow> batch" where
  "aria_fallback P s0 \<equiv> fallback_batch_from_failed_indices (ap_batch P) (aria_failures P s0)"

abbreviation aria_lock_batch :: "aria_params \<Rightarrow> fs_state \<Rightarrow> lock_batch" where
  "aria_lock_batch P s0 \<equiv>
     \<lparr>lb_layout = ap_layout P, lb_peers = ap_peers P, lb_id = ap_id P, lb_txs = txs (aria_fallback P s0),
      lb_state = aria_state P s0\<rparr>"

lemma failures_below: "aria_failures P s0 \<subseteq> {..<ap_size P}"
  by (auto simp: aria_failures_def)

lemma finite_failures [simp]: "finite (aria_failures P s0)"
  by (rule finite_subset [OF failures_below]) simp

lemma fallback_txs_valid:
  assumes "aria_batch P" "t \<in> set (txs (aria_fallback P s0))"
  shows "valid_tx t"
proof -
  have "unindexed t \<in> set (map unindexed (txs (aria_fallback P s0)))" using assms(2) by simp
  then obtain i where "i < ap_size P" "unindexed t = unindexed (ap_tx P i)"
    unfolding unindexed_fallback using failures_below by auto
  then show ?thesis using aria_batchD [OF assms(1)] unindexed_eq(2-4) [of t "ap_tx P i"]
    by (simp add: valid_tx_def validate_sets_Ok_iff)
qed

lemma aria_active_shards:
  assumes "aria_batch P"
  shows "lk_active aria_fallback_kind (ap_layout P) t \<subseteq> shards_of P" "p_all (participants_of (ap_layout P) t) \<subseteq> shards_of P"
  using shards_of_facts(1) [OF assms] assms
  by (auto simp: aria_fallback_kind_def aria_fallback_active_shards_def owner_shards_for_keys_def aria_batch_def
      participants_of_def participants_all aria_result_shard_def shards_of_def word_mod_less_divisor)

lemma rerun_prologue:
  assumes "aria_batch P" "aria_rerun P sh (aria_failures P s0) mail results = Ok sp"
  shows "lock_prologue aria_spawn (ap_layout P) sh (aria_fallback P s0) mail results = Ok sp"
proof -
  have "\<forall>t \<in> set (txs (ap_batch P)). validate_sets t = Ok ()" using assms(1) by (simp add: aria_batch_def valid_tx_def)
  from derived_fallback_same [OF this failures_below] show ?thesis
    using assms(2) unfolding aria_prologue_lock [symmetric]
    by (auto simp: aria_rerun_def no_workers_def aria_fallback_prologue_def fallback_batch_from_failed_indices_def
        split: if_splits)
qed

lemma aria_rerun_setting:
  assumes S: "aria_setting P"
    and m: "\<And>sh. sh \<in> shards_of P \<Longrightarrow> fresh_mailboxes (ap_id P) AriaFallback (mail sh) \<and>
      aria_rerun P sh (aria_failures P s0) (mail sh) (results sh) = Ok (sp sh)"
    and idle: "\<And>sh. sh \<notin> shards_of P \<Longrightarrow> sp sh = no_workers mailbox_registry_new (results sh)"
  shows "spawn_setting aria_spawn aria_fallback_kind AriaFallback (aria_lock_batch P s0)
    (\<lambda>sh. if sh \<in> shards_of P then aria_fallback P s0 else \<lparr>batch_id = ap_id P, txs = []\<rparr>) sp"
  unfolding spawn_setting_def
proof (intro conjI allI ballI)
  note b = aria_settingD(1) [OF S]
  note act = aria_active_shards [OF b]
  have "map tx_id (txs (aria_fallback P s0)) = map (\<lambda>i. tx_id (ap_tx P i)) (sorted_list_of_set (aria_failures P s0))"
    using arg_cong [where f = "map tx_id", OF unindexed_fallback [of "ap_batch P" "aria_failures P s0"]] by (simp add: comp_def)
  moreover have "inj_on (\<lambda>i. tx_id (ap_tx P i)) (aria_failures P s0)"
    using inj_on_nth [of "map tx_id (txs (ap_batch P))" "aria_failures P s0"] S failures_below [of P s0]
    by (auto simp: aria_setting_def inj_on_def subset_iff)
  ultimately show "distinct (map tx_id (lb_txs (aria_lock_batch P s0)))" by (simp add: distinct_map)
  show "valid_tx t" if "t \<in> set (lb_txs (aria_lock_batch P s0))" for t using fallback_txs_valid [OF b] that by simp
  show "lk_active aria_fallback_kind (lb_layout (aria_lock_batch P s0)) t \<subseteq> lb_peers (aria_lock_batch P s0)" for t
    using act(1) aria_settingD(2) [OF S] by fastforce
  fix sh
  let ?b = "if sh \<in> shards_of P then aria_fallback P s0 else \<lparr>batch_id = ap_id P, txs = []\<rparr>"
  have none: "filter (takes_part aria_fallback_kind (ap_layout P) sh) ts = []" if "sh \<notin> shards_of P" for ts
    using act that by (auto simp: takes_part_def filter_empty_conv)
  have "validate_sets t = Ok ()" if "t \<in> set (txs ?b)" for t
    using that fallback_txs_valid [OF b] by (auto simp: valid_tx_def split: if_splits)
  moreover have "lock_prologue aria_spawn (ap_layout P) sh ?b (if sh \<in> shards_of P then mail sh else mailbox_registry_new)
      (results sh) = Ok (sp sh)"
    using rerun_prologue [OF b] m idle [of sh] by (auto simp: lock_prologue_def no_workers_def)
  moreover have "fresh_mailboxes (ap_id P) AriaFallback (if sh \<in> shards_of P then mail sh else mailbox_registry_new)"
    using m fresh_mailboxes_new by simp
  ultimately show "\<exists>mail results. fresh_mailboxes (lb_id (aria_lock_batch P s0)) AriaFallback mail \<and>
      lock_prologue aria_spawn (lb_layout (aria_lock_batch P s0)) sh ?b mail results = Ok (sp sh) \<and>
      (\<forall>t \<in> set (txs ?b). validate_sets t = Ok ()) \<and> batch_id ?b = lb_id (aria_lock_batch P s0) \<and>
      map unindexed (filter (takes_part aria_fallback_kind (lb_layout (aria_lock_batch P s0)) sh) (txs ?b)) =
      map unindexed (filter (takes_part aria_fallback_kind (lb_layout (aria_lock_batch P s0)) sh) (lb_txs (aria_lock_batch P s0)))"
    using none by (intro exI conjI) (auto simp: fallback_batch_id)
qed

section \<open>The stores\<close>

lemma install_other_store: "q \<noteq> sh \<Longrightarrow> as_store (install_aria_batch P sh F c) q = as_store c q"
  by (simp add: install_aria_batch_def Let_def case_prod_beta fail_shard_def split: sum.splits)

lemma coordinator_step_store: "coordinator_step P i c = Some c' \<Longrightarrow> as_store c' = as_store c"
  by (auto simp: coordinator_step_def Let_def case_prod_beta aria_read_snapshot_local_def aria_read_snapshot_remote_def
      send_aria_stage_outcome_def call_registry_def split: aria_coordinator.splits list.splits if_splits sum.splits)

lemma main_step_store: "main_step P sh c = Some c' \<Longrightarrow> q \<noteq> sh \<Longrightarrow> as_store c' q = as_store c q"
  by (auto simp: main_step_def Let_def case_prod_beta broadcast_aria_execution_done_def broadcast_aria_local_failures_def
      call_registry_def fail_shard_def install_other_store split: aria_main.splits list.splits if_splits sum.splits)

lemma outside_store:
  assumes "(aria_step P)\<^sup>*\<^sup>* c c'" "q \<notin> shards_of P"
  shows "as_store c' q = as_store c q"
  using assms(1)
proof (induction rule: rtranclp_induct)
  case (step c1 c2)
  from step(2) have "as_store c2 q = as_store c1 q"
  proof cases
    case (coordinate i)
    then show ?thesis using coordinator_step_store by simp
  next
    case (proceed sh)
    then have "q \<noteq> sh" using assms(2) by (auto simp: shards_of_def)
    then show ?thesis using main_step_store [OF proceed(3)] by simp
  qed (simp_all add: fail_shard_def)
  then show ?case using step by simp
qed simp

lemma shard_part_outside:
  assumes "aria_batch P" "q \<notin> shards_of P"
  shows "shard_part (ap_layout P) s q = Map.empty"
  using shards_of_facts(1) [OF assms(1)] assms(2) unfolding shard_part_def restrict_map_def by (metis (mono_tags, lifting) mem_Collect_eq)

lemma installed_stores:
  assumes S: "aria_setting P" and fresh: "fresh_aria P s0 (aria_initial P stores regs results reorders)"
    and run: "(aria_step P)\<^sup>*\<^sup>* (aria_initial P stores regs results reorders) c"
    and all: "\<And>sh. sh \<in> shards_of P \<Longrightarrow> is_installed (as_main c sh)"
  shows "stores_hold (ap_layout P) (as_store c) (aria_state P s0)"
  unfolding stores_hold_def
proof
  note b = aria_settingD(1) [OF S]
  fix sh
  show "as_store c sh = shard_part (ap_layout P) (aria_state P s0) sh"
  proof (cases "sh \<in> shards_of P")
    case True
    then show ?thesis using aria_invD(5) [OF aria_inv_reachable [OF S fresh run] True] all by (simp add: output_inv_def)
  next
    case False
    then show ?thesis
      using outside_store [OF run False] fresh shard_part_outside [OF b False] by (simp add: fresh_aria_def)
  qed
qed

section \<open>The results\<close>

lemma installed_result:
  assumes "distinct (map tx_id (txs (ap_batch P)))" "i < ap_size P" "i \<notin> aria_failures P s0"
  shows "aria_results P s0 (ap_shard P i) results (tx_id (ap_tx P i)) = Some (ResultReady (result (aria_output P s0 i)))"
proof -
  have eq: "j = i" if "j < ap_size P" "tx_id (ap_tx P j) = tx_id (ap_tx P i)" for j
    using that assms(1,2) by (simp add: distinct_conv_nth) metis
  let ?js = "filter (\<lambda>j. tx_id (ap_tx P j) = tx_id (ap_tx P i)) (filter (\<lambda>j. ap_shard P j = ap_shard P i) (aria_winners P s0))"
  have "set ?js = {i}" using assms eq by (auto simp: aria_winners_def)
  then have "last ?js = i" "?js \<noteq> []" by (rule last_of_singleton)+
  then show ?thesis by (simp only: aria_results_def fold_mark_ready Let_def if_False)
qed

lemma aria_permuted:
  "permuted_txs (ap_batch P) (canonical_reorder (ap_batch P) (aria_failures P s0)) =
     map (ap_tx P) (aria_winners P s0) @ map (ap_tx P) (sorted_list_of_set (aria_failures P s0))"
proof -
  have "{0..<ap_size P} - aria_failures P s0 = {i. i < ap_size P \<and> i \<notin> aria_failures P s0}" by auto
  then show ?thesis
    by (simp only: permuted_txs_def reorder_indices_def canonical_reorder_def reorder_record.simps sorted_list_filter
        aria_winners_def map_append)
qed

lemma fallback_transformers:
  "map apply_reference_tx (txs (fallback_batch_from_failed_indices b F)) =
     map (\<lambda>i. apply_reference_tx (txs b ! i)) (sorted_list_of_set F)"
proof -
  have "map (\<lambda>p. apply_reference_tx (txs b ! snd p)) (enumerate n xs) = map (\<lambda>i. apply_reference_tx (txs b ! i)) xs" for n xs
    using map_map [of "\<lambda>i. apply_reference_tx (txs b ! i)" snd "enumerate n xs"] by (simp add: comp_def)
  then show ?thesis by (simp add: fallback_batch_from_failed_indices_def case_prod_beta comp_def)
qed

lemma run_txs_transformers: "run_txs ts s = fold (\<lambda>f. f) (map apply_reference_tx ts) s"
  by (simp add: run_txs_def fold_map comp_def)

lemma run_take_fallback:
  "run_txs (take g (txs (fallback_batch_from_failed_indices b F))) s =
     run_txs (take g (map (\<lambda>i. txs b ! i) (sorted_list_of_set F))) s"
  unfolding run_txs_transformers take_map [symmetric] fallback_transformers by (simp add: comp_def)

lemma fallback_nth:
  assumes "finite F" "g < card F"
  shows "txs (fallback_batch_from_failed_indices b F) ! g =
    (txs b ! (sorted_list_of_set F ! g))\<lparr>batch_index := word_of_nat g\<rparr>"
  using assms by (simp add: fallback_batch_from_failed_indices_def nth_enumerate_eq)

lemma winner_position:
  assumes b: "aria_batch P" and p: "p < length (aria_winners P s0)"
    and r: "r = canonical_reorder (ap_batch P) (aria_failures P s0)"
  shows "turn_result s0 (permuted_txs (ap_batch P) r) p = result (aria_output P s0 (aria_winners P s0 ! p))"
proof -
  let ?i = "aria_winners P s0 ! p"
  have "?i \<in> set (aria_winners P s0)" using p by (rule nth_mem)
  then have i: "?i < ap_size P" "?i \<notin> aria_failures P s0" by (auto simp: aria_winners_def)
  have "take p (aria_winners P s0) = filter (\<lambda>j. j \<notin> aria_failures P s0) [0..<?i]"
    using p take_filter_upt unfolding aria_winners_def by blast
  moreover have "permuted_txs (ap_batch P) r ! p = ap_tx P ?i"
    "take p (permuted_txs (ap_batch P) r) = map (ap_tx P) (take p (aria_winners P s0))"
    using p by (simp_all add: r aria_permuted nth_append take_map)
  ultimately show ?thesis
    using winner_result_serial [OF b i] execute_deterministic_reads_of [OF aria_batchD [OF b i(1)]]
    by (simp add: turn_result_def op_result_def)
qed

lemma loser_position:
  assumes b: "aria_batch P" and g: "g < card (aria_failures P s0)"
    and r: "r = canonical_reorder (ap_batch P) (aria_failures P s0)"
  shows "turn_result s0 (permuted_txs (ap_batch P) r) (length (aria_winners P s0) + g) = serial_result (aria_lock_batch P s0) g"
    "permuted_txs (ap_batch P) r ! (length (aria_winners P s0) + g) = ap_tx P (sorted_list_of_set (aria_failures P s0) ! g)"
proof -
  let ?i = "sorted_list_of_set (aria_failures P s0) ! g" and ?p = "length (aria_winners P s0) + g"
  have "?i \<in> set (sorted_list_of_set (aria_failures P s0))" using g by (intro nth_mem) simp
  then have i: "?i < ap_size P" using failures_below by auto
  show t: "permuted_txs (ap_batch P) r ! ?p = ap_tx P ?i" using g by (simp add: r aria_permuted nth_append)
  have "take ?p (permuted_txs (ap_batch P) r) =
      map (ap_tx P) (aria_winners P s0) @ take g (map (ap_tx P) (sorted_list_of_set (aria_failures P s0)))"
    by (simp add: r aria_permuted)
  then have "run_txs (take ?p (permuted_txs (ap_batch P) r)) s0 = run_txs (take g (txs (aria_fallback P s0))) (aria_state P s0)"
    by (simp add: run_take_fallback aria_state_def)
  then show "turn_result s0 (permuted_txs (ap_batch P) r) ?p = serial_result (aria_lock_batch P s0) g"
    using execute_deterministic_reads_of [OF aria_batchD [OF b i]] g
    by (simp add: turn_result_def t serial_result_def serial_def op_result_def fallback_nth)
qed

text \<open>The rerun leaves the results of the winners alone and adds those of the losers.\<close>

lemma winner_untouched:
  assumes ids: "distinct (map tx_id (txs (ap_batch P)))" and i: "i < ap_size P" "i \<notin> aria_failures P s0"
    and inv: "lock_inv aria_fallback_kind ph (aria_lock_batch P s0) sp d"
    and sp: "sp_results (sp (ap_shard P i)) = aria_results P s0 (ap_shard P i) results"
  shows "ls_results d (ap_shard P i) (tx_id (ap_tx P i)) = Some (ResultReady (result (aria_output P s0 i)))"
proof -
  let ?F = "aria_failures P s0" and ?B = "aria_lock_batch P s0"
  have "nth_id ?B g \<noteq> tx_id (ap_tx P i)" if "g < lb_size ?B" for g
  proof -
    have g: "g < card ?F" using that by (simp add: fallback_batch_from_failed_indices_def)
    then have "sorted_list_of_set ?F ! g \<in> set (sorted_list_of_set ?F)" by (intro nth_mem) simp
    then have "sorted_list_of_set ?F ! g < ap_size P" "sorted_list_of_set ?F ! g \<noteq> i" using failures_below i(2) by auto
    then show ?thesis using ids i(1) g by (simp add: fallback_nth distinct_conv_nth)
  qed
  then have "ls_results d (ap_shard P i) (tx_id (ap_tx P i)) = sp_results (sp (ap_shard P i)) (tx_id (ap_tx P i))"
    using lock_invD(4) [OF inv, of "ap_shard P i"] by (auto simp: book_inv_def)
  then show ?thesis using sp installed_result [OF ids i] by simp
qed

lemma loser_result:
  assumes L: "lock_setting aria_fallback_kind ph (aria_lock_batch P s0) sp"
    and inv: "lock_inv aria_fallback_kind ph (aria_lock_batch P s0) sp d"
    and fin: "lock_finished (params_for_batch (aria_lock_batch P s0) sp) d" and g: "g < card (aria_failures P s0)"
    and i: "i = sorted_list_of_set (aria_failures P s0) ! g"
  shows "ls_results d (ap_shard P i) (tx_id (ap_tx P i)) = Some (ResultReady (serial_result (aria_lock_batch P s0) g))"
proof -
  let ?B = "aria_lock_batch P s0"
  have gB: "g < lb_size ?B" using g by (simp add: fallback_batch_from_failed_indices_def)
  have "lk_result aria_fallback_kind (lb_layout ?B) (nth_tx ?B g) \<in> executors aria_fallback_kind ?B g"
    by (simp add: executors_def aria_fallback_kind_def aria_fallback_active_shards_def)
  from finished_results [OF L inv fin gB this] show ?thesis
    using g by (simp add: i aria_fallback_kind_def fallback_nth)
qed

section \<open>The records\<close>

text \<open>The summary: the records of the installed outcomes, those of the rerun, sorted.\<close>

definition aria_batch_records ::
    "tx_result_record list \<Rightarrow> lock_system \<Rightarrow> shard_id \<Rightarrow> tx_result_record list" where
  "aria_batch_records installed d sh =
     sort_key (\<lambda>r. (rec_tx_id r, rec_shard_id r)) (installed @ batch_records d sh)"

text \<open>The shard that reports a transaction.\<close>

abbreviation aria_reporters :: "shard_layout \<Rightarrow> ordered_tx \<Rightarrow> shard_id set" where
  "aria_reporters L t \<equiv> {aria_result_shard (tx_id t) (shard_count L)}"

definition loser_record :: "aria_params \<Rightarrow> fs_state \<Rightarrow> shard_id \<Rightarrow> nat \<Rightarrow> tx_result_record" where
  "loser_record P s0 sh g =
     \<lparr>rec_tx_id = tx_id (ap_tx P (sorted_list_of_set (aria_failures P s0) ! g)), rec_shard_id = sh,
      rec_result = serial_result (aria_lock_batch P s0) g\<rparr>"

definition loser_records :: "aria_params \<Rightarrow> fs_state \<Rightarrow> shard_id \<Rightarrow> tx_result_record list" where
  "loser_records P s0 sh = map (loser_record P s0 sh)
     (filter (\<lambda>g. ap_shard P (sorted_list_of_set (aria_failures P s0) ! g) = sh) [0..<card (aria_failures P s0)])"

lemma aria_turn_records:
  assumes b: "aria_batch P" and r: "r = canonical_reorder (ap_batch P) (aria_failures P s0)"
  shows "turn_records (aria_reporters (ap_layout P)) s0 (permuted_txs (ap_batch P) r) sh =
    aria_records P s0 sh @ loser_records P s0 sh"
proof -
  let ?w = "aria_winners P s0" and ?ls = "sorted_list_of_set (aria_failures P s0)" and ?A = "aria_reporters (ap_layout P)"
  let ?W = "map (ap_tx P) ?w" and ?L = "map (ap_tx P) ?ls"
  have perm: "permuted_txs (ap_batch P) r = ?W @ ?L" unfolding r by (rule aria_permuted)
  have "turn_result s0 ?W p = result (aria_output P s0 (?w ! p))" if "p < length ?w" for p
    using winner_position [OF b that r] turn_result_append(1) [of p ?W s0 ?L] that by (simp add: perm)
  then have "turn_records ?A s0 ?W sh = map (\<lambda>p. aria_record P s0 (?w ! p)) (filter (\<lambda>p. ap_shard P (?w ! p) = sh) [0..<length ?w])"
    unfolding turn_records_def by (intro map_cong filter_cong) (auto simp: turn_record_def aria_record_def)
  then have "turn_records ?A s0 ?W sh = aria_records P s0 sh"
    unfolding aria_records_def map_filter_positions [of "aria_record P s0" ?w "\<lambda>i. ap_shard P i = sh"] .
  moreover have "turn_result (run_txs ?W s0) ?L g = serial_result (aria_lock_batch P s0) g" if "g < card (aria_failures P s0)" for g
    using loser_position(1) [OF b that r] turn_result_append(2) [of s0 ?W ?L g] by (simp add: perm)
  then have "turn_records ?A (run_txs ?W s0) ?L sh = loser_records P s0 sh"
    unfolding turn_records_def loser_records_def by (intro map_cong filter_cong) (auto simp: turn_record_def loser_record_def)
  ultimately show ?thesis unfolding perm turn_records_append by simp
qed

lemma rerun_records:
  assumes L: "lock_setting aria_fallback_kind ph (aria_lock_batch P s0) sp"
    and inv: "lock_inv aria_fallback_kind ph (aria_lock_batch P s0) sp d"
    and fin: "lock_finished (params_for_batch (aria_lock_batch P s0) sp) d"
  shows "batch_records d sh = sort_key (\<lambda>r. (rec_tx_id r, rec_shard_id r)) (loser_records P s0 sh)"
proof -
  let ?B = "aria_lock_batch P s0" and ?K = aria_fallback_kind and ?ls = "sorted_list_of_set (aria_failures P s0)"
  have n: "lb_size ?B = card (aria_failures P s0)" by (simp add: fallback_batch_from_failed_indices_def)
  let ?Q = "\<lambda>g. ap_shard P (?ls ! g) = sh"
  have c: "completion_records (completion_of ?K ?B sh g) = (if ?Q g then [loser_record P s0 sh g] else [])"
    "?Q g \<Longrightarrow> involved ?K ?B sh g" if g: "g < lb_size ?B" for g
    using g unfolding n
    by (auto simp: completion_records_def completion_of_def executors_def involved_def aria_fallback_kind_def
        aria_fallback_active_shards_def loser_record_def fallback_nth)
  have "inj_on (\<lambda>r. (rec_tx_id r, rec_shard_id r)) (\<Union>g \<in> {..<lb_size ?B}. set (completion_records (completion_of ?K ?B sh g)))"
  proof (rule inj_onI)
    have id: "rec_tx_id (loser_record P s0 sh g) = nth_id ?B g" if "g < lb_size ?B" for g
      using that unfolding n by (simp add: loser_record_def fallback_nth)
    have rec: "\<exists>g < lb_size ?B. x = loser_record P s0 sh g"
      if "x \<in> (\<Union>g \<in> {..<lb_size ?B}. set (completion_records (completion_of ?K ?B sh g)))" for x
      using that c(1) by (fastforce split: if_splits)
    fix x y
    assume "x \<in> (\<Union>g \<in> {..<lb_size ?B}. set (completion_records (completion_of ?K ?B sh g)))"
      "y \<in> (\<Union>g \<in> {..<lb_size ?B}. set (completion_records (completion_of ?K ?B sh g)))"
    then obtain g h where gh: "g < lb_size ?B" "x = loser_record P s0 sh g" "h < lb_size ?B" "y = loser_record P s0 sh h"
      using rec by meson
    assume "(rec_tx_id x, rec_shard_id x) = (rec_tx_id y, rec_shard_id y)"
    then have "nth_id ?B g = nth_id ?B h" using gh id by (simp only: prod.inject)
    then show "x = y" using nth_id_inject [OF L gh(1,3)] gh by simp
  qed
  then have "batch_records d sh = serial_records ?K ?B sh" by (rule finished_records [OF L inv fin])
  moreover have "concat (map (\<lambda>g. completion_records (completion_of ?K ?B sh g)) (filter (involved ?K ?B sh) [0..<lb_size ?B])) =
      loser_records P s0 sh"
  proof -
    have "map (\<lambda>g. completion_records (completion_of ?K ?B sh g)) (filter (involved ?K ?B sh) [0..<lb_size ?B]) =
        map (\<lambda>g. if ?Q g then [loser_record P s0 sh g] else []) (filter (involved ?K ?B sh) [0..<lb_size ?B])"
      by (rule map_cong) (use c(1) in auto)
    moreover have "filter ?Q (filter (involved ?K ?B sh) [0..<lb_size ?B]) = filter ?Q [0..<lb_size ?B]"
      using c(2) by (auto intro: filter_cong)
    ultimately show ?thesis by (simp only: concat_if_singleton loser_records_def n)
  qed
  ultimately show ?thesis by (simp add: serial_records_def)
qed

section \<open>The outcome\<close>

lemma aria_outcome:
  assumes S: "aria_setting P" and fresh: "fresh_aria P s0 (aria_initial P stores regs results reorders)"
    and run: "(aria_step P)\<^sup>*\<^sup>* (aria_initial P stores regs results reorders) c"
    and installed: "\<And>sh. sh < ap_count P \<Longrightarrow> as_main c sh = AriaInstalled (failed sh) (records sh)"
    and start: "\<And>sh. sh < ap_count P \<Longrightarrow> fresh_mailboxes (ap_id P) AriaFallback (mail sh) \<and>
      aria_rerun P sh (failed sh) (mail sh) (as_results c sh) = Ok (sp sh)"
    and idle: "\<And>sh. \<not> sh < ap_count P \<Longrightarrow> sp sh = no_workers mailbox_registry_new (as_results c sh)"
    and rerun: "(lock_step aria_fallback_ops (lock_params_of (ap_layout P) (ap_peers P) (ap_id P) sp))\<^sup>*\<^sup>*
      (lock_initial sp (as_store c)) d"
    and finished: "lock_finished (lock_params_of (ap_layout P) (ap_peers P) (ap_id P) sp) d"
  defines "r \<equiv> canonical_reorder (ap_batch P) (aria_failures P s0)"
  shows "validate_reorder_record (ap_batch P) r = Ok ()"
    "length (permuted_txs (ap_batch P) r) = ap_size P"
    "sh < ap_count P \<Longrightarrow> as_reorders c sh (ap_id P) = Some r"
    "ls_store d sh = shard_part (ap_layout P) (run_txs (permuted_txs (ap_batch P) r) s0) sh"
    "p < ap_size P \<Longrightarrow>
      ls_results d (aria_result_shard (tx_id (permuted_txs (ap_batch P) r ! p)) (ap_count P)) (tx_id (permuted_txs (ap_batch P) r ! p)) =
      Some (ResultReady (turn_result s0 (permuted_txs (ap_batch P) r) p))"
    "sh < ap_count P \<Longrightarrow> aria_batch_records (records sh) d sh = sort_key (\<lambda>r. (rec_tx_id r, rec_shard_id r))
      (turn_records (aria_reporters (ap_layout P)) s0 (permuted_txs (ap_batch P) r) sh)"
proof -
  note b = aria_settingD(1) [OF S] and inv = aria_inv_reachable [OF S fresh run]
  have r: "r = canonical_reorder (ap_batch P) (aria_failures P s0)" by (simp add: r_def)
  let ?F = "aria_failures P s0" and ?B = "aria_lock_batch P s0"
  have at: "failed sh = ?F" "as_reorders c sh (ap_id P) = Some r" "as_results c sh = aria_results P s0 sh (results sh)"
    if "sh < ap_count P" for sh
    using that installed [OF that] aria_invD(3,5) [OF inv, of sh]
    by (simp_all add: shards_of_def main_inv_def output_inv_def is_installed_def r)
  have "spawn_setting aria_spawn aria_fallback_kind AriaFallback ?B
      (\<lambda>sh. if sh \<in> shards_of P then aria_fallback P s0 else \<lparr>batch_id = ap_id P, txs = []\<rparr>) sp"
    by (rule aria_rerun_setting [OF S, where mail = mail and results = "as_results c"]) (use start at(1) idle in \<open>auto simp: shards_of_def\<close>)
  from aria_loop.setting [OF this] have L: "lock_setting aria_fallback_kind (x_phase aria_fallback_ops) ?B sp"
    by (simp add: aria_fallback_ops_def)
  have hold: "stores_hold (ap_layout P) (as_store c) (aria_state P s0)"
    by (rule installed_stores [OF S fresh run]) (use installed in \<open>simp add: shards_of_def is_installed_def\<close>)
  have inv': "lock_inv aria_fallback_kind (x_phase aria_fallback_ops) ?B sp d"
    by (rule aria.lock_inv_reachable [OF L]) (use hold rerun in simp_all)
  have fin: "lock_finished (params_for_batch ?B sp) d" using finished by simp
  have perm: "permuted_txs (ap_batch P) r = map (ap_tx P) (aria_winners P s0) @ map (ap_tx P) (sorted_list_of_set ?F)"
    unfolding r by (rule aria_permuted)
  have store: "ls_store d sh = shard_part (ap_layout P) (run_txs (permuted_txs (ap_batch P) r) s0) sh" for sh
    using finished_store [OF L inv' fin] by (simp add: stores_hold_def perm run_fallback_batch aria_state_def)
  have valid: "validate_reorder_record (ap_batch P) r = Ok ()"
    unfolding r by (rule canonical_reorder_valid) (use failures_below in \<open>simp add: lessThan_atLeast0\<close>)
  have len: "length (aria_winners P s0) + card ?F = ap_size P"
    using arg_cong [where f = size, OF permuted_txs_mset [OF valid]] unfolding perm size_mset by simp
  have ids: "distinct (map tx_id (txs (ap_batch P)))" using S by (simp add: aria_setting_def)
  have result: "ls_results d (aria_result_shard (tx_id t) (ap_count P)) (tx_id t) =
      Some (ResultReady (turn_result s0 (permuted_txs (ap_batch P) r) p))"
    if p: "p < ap_size P" and t: "t = permuted_txs (ap_batch P) r ! p" for p t
  proof (cases "p < length (aria_winners P s0)")
    case True
    let ?i = "aria_winners P s0 ! p"
    have "?i \<in> set (aria_winners P s0)" using True by (rule nth_mem)
    then have i: "?i < ap_size P" "?i \<notin> ?F" by (auto simp: aria_winners_def)
    have "sp_results (sp (ap_shard P ?i)) = aria_results P s0 (ap_shard P ?i) (results (ap_shard P ?i))"
      using rerun_results start at(3) ap_shard_less [OF b] by metis
    then show ?thesis
      using winner_untouched [OF ids i inv'] winner_position [OF b True r] True by (simp add: t perm nth_append)
  next
    case False
    then obtain g where g: "p = length (aria_winners P s0) + g" "g < card ?F"
      using p len by (metis le_add_diff_inverse nat_add_left_cancel_less not_less)
    show ?thesis using loser_result [OF L inv' fin g(2) refl] loser_position [OF b g(2) r] by (simp add: t g(1))
  qed
  show "validate_reorder_record (ap_batch P) r = Ok ()" "length (permuted_txs (ap_batch P) r) = ap_size P"
    using valid len perm by simp_all
  show "as_reorders c sh (ap_id P) = Some r" if "sh < ap_count P" using at(2) [OF that] .
  show "ls_store d sh = shard_part (ap_layout P) (run_txs (permuted_txs (ap_batch P) r) s0) sh" by (rule store)
  show "ls_results d (aria_result_shard (tx_id (permuted_txs (ap_batch P) r ! p)) (ap_count P)) (tx_id (permuted_txs (ap_batch P) r ! p)) =
      Some (ResultReady (turn_result s0 (permuted_txs (ap_batch P) r) p))" if "p < ap_size P"
    using result [OF that refl] .
  show "aria_batch_records (records sh) d sh = sort_key (\<lambda>r. (rec_tx_id r, rec_shard_id r))
      (turn_records (aria_reporters (ap_layout P)) s0 (permuted_txs (ap_batch P) r) sh)" if sh: "sh < ap_count P"
  proof -
    have "records sh = aria_records P s0 sh"
      using installed [OF sh] aria_invD(3) [OF inv, of sh] sh by (simp add: shards_of_def main_inv_def)
    then show ?thesis
      using rerun_records [OF L inv' fin] aria_turn_records [OF b r]
      by (simp add: aria_batch_records_def sort_key_append_sorted)
  qed
qed

section \<open>The property\<close>

text \<open>C5: An optimistic batch is the serial execution in its recorded order. Let all shards install the
  winners of the conflicts and then finish the locked rerun of the losers, in any interleaving of the
  coordinators, the shards, the workers and their messages. Then all shards have recorded the same
  order, a permutation of the batch; every store is its part of the state after the serial execution in
  that order; the shard responsible for a transaction holds the result of its turn in it, and the summary
  of a shard has the results of the transactions it is responsible for.\<close>

theorem aria_batch_matches_reference:
  assumes S: "aria_setting P" and fresh: "fresh_aria P s0 (aria_initial P stores regs results reorders)"
    and run: "(aria_step P)\<^sup>*\<^sup>* (aria_initial P stores regs results reorders) c"
    and installed: "\<And>sh. sh < ap_count P \<Longrightarrow> as_main c sh = AriaInstalled (failed sh) (records sh)"
    and start: "\<And>sh. sh < ap_count P \<Longrightarrow> fresh_mailboxes (ap_id P) AriaFallback (mail sh) \<and>
      aria_rerun P sh (failed sh) (mail sh) (as_results c sh) = Ok (sp sh)"
    and idle: "\<And>sh. \<not> sh < ap_count P \<Longrightarrow> sp sh = no_workers mailbox_registry_new (as_results c sh)"
    and rerun: "(lock_step aria_fallback_ops (lock_params_of (ap_layout P) (ap_peers P) (ap_id P) sp))\<^sup>*\<^sup>*
      (lock_initial sp (as_store c)) d"
    and finished: "lock_finished (lock_params_of (ap_layout P) (ap_peers P) (ap_id P) sp) d"
  shows "\<exists>r. validate_reorder_record (ap_batch P) r = Ok () \<and>
    (\<forall>sh < ap_count P. as_reorders c sh (ap_id P) = Some r) \<and>
    (\<forall>sh. ls_store d sh = shard_part (ap_layout P) (run_txs (permuted_txs (ap_batch P) r) s0) sh) \<and>
    (\<forall>p < length (txs (ap_batch P)). let t = permuted_txs (ap_batch P) r ! p
      in ls_results d (aria_result_shard (tx_id t) (ap_count P)) (tx_id t) =
        Some (ResultReady (turn_result s0 (permuted_txs (ap_batch P) r) p))) \<and>
    (\<forall>sh < ap_count P. aria_batch_records (records sh) d sh = sort_key (\<lambda>r. (rec_tx_id r, rec_shard_id r))
      (turn_records (aria_reporters (ap_layout P)) s0 (permuted_txs (ap_batch P) r) sh))"
  using aria_outcome [OF S fresh run installed start idle rerun finished]
  by (intro exI [of _ "canonical_reorder (ap_batch P) (aria_failures P s0)"]) (simp add: Let_def)

definition one_mkdir :: aria_params where
  "one_mkdir = \<lparr>ap_layout = \<lparr>shard_count = 1\<rparr>, ap_peers = {0}, ap_batch = make_root\<rparr>"

abbreviation mkdir_start :: aria_system where
  "mkdir_start \<equiv> aria_initial one_mkdir (\<lambda>_. Map.empty) (\<lambda>_. Map.empty) (\<lambda>_. Map.empty) (\<lambda>_. Map.empty)"

lemma one_shard: "sh < ap_count one_mkdir \<longleftrightarrow> sh = 0"
  by (simp add: one_mkdir_def)

lemma one_mkdir_setting: "aria_setting one_mkdir" "fresh_aria one_mkdir Map.empty mkdir_start"
  by (auto simp: aria_setting_def aria_batch_def one_mkdir_def make_root_def shards_of_def fresh_aria_def aria_initial_def
      aria_entry_def shard_part_def)

theorem aria_batch_matches_reference_witness:
  "\<exists>c sp d. (aria_step one_mkdir)\<^sup>*\<^sup>* mkdir_start c \<and>
     (lock_step aria_fallback_ops (lock_params_of \<lparr>shard_count = 1\<rparr> {0} 0 sp))\<^sup>*\<^sup>* (lock_initial sp (as_store c)) d \<and>
     ls_store d 0 = [root \<mapsto> inode_directory 0] \<and> ls_results d 0 0 = Some (ResultReady TxOk)"
proof -
  let ?P = one_mkdir and ?s = "Map.empty :: fs_state"
  note S = one_mkdir_setting
  have "awake ?P mkdir_start" by (simp add: awake_def aria_initial_def)
  then obtain c where c: "(aria_step ?P)\<^sup>*\<^sup>* mkdir_start c" "\<forall>sh \<in> shards_of ?P. is_installed (as_main c sh)"
    using aria_can_finish [OF S(1) aria_start_inv [OF S]] by blast
  obtain F rs where F: "as_main c 0 = AriaInstalled F rs"
    using c(2) one_shard by (auto simp: shards_of_def is_installed_def split: aria_main.splits)
  have inv: "aria_inv ?P ?s (\<lambda>_. Map.empty) c" by (rule aria_inv_reachable [OF S c(1)])
  have "F = aria_failures ?P ?s" using aria_invD(3) [OF inv, of 0] F one_shard by (simp add: shards_of_def main_inv_def)
  then have none: "F = {}" by (auto simp: aria_failures_def one_mkdir_def make_root_def)
  let ?sp = "\<lambda>sh. no_workers mailbox_registry_new (as_results c sh)"
  have "spawn_setting aria_spawn aria_fallback_kind AriaFallback (aria_lock_batch ?P ?s)
      (\<lambda>sh. if sh \<in> shards_of ?P then aria_fallback ?P ?s else \<lparr>batch_id = ap_id ?P, txs = []\<rparr>) ?sp"
    by (rule aria_rerun_setting [OF S(1), where mail = "\<lambda>_. mailbox_registry_new" and results = "as_results c"])
      (use \<open>F = aria_failures ?P ?s\<close> none fresh_mailboxes_new in \<open>simp_all add: aria_rerun_def\<close>)
  from aria_loop.setting [OF this] have L: "lock_setting aria_fallback_kind (x_phase aria_fallback_ops) (aria_lock_batch ?P ?s) ?sp"
    by (simp add: aria_fallback_ops_def)
  have hold: "stores_hold (ap_layout ?P) (as_store c) (aria_state ?P ?s)"
    by (rule installed_stores [OF S c(1)]) (use c(2) in simp)
  obtain d where d: "(lock_step aria_fallback_ops (params_for_batch (aria_lock_batch ?P ?s) ?sp))\<^sup>*\<^sup>* (lock_initial ?sp (as_store c)) d"
    "lock_finished (params_for_batch (aria_lock_batch ?P ?s) ?sp) d"
    using aria.lock_can_finish [OF L _ rtranclp.rtrancl_refl, of "as_store c"] hold by auto
  obtain r where r: "validate_reorder_record (ap_batch ?P) r = Ok ()"
    "ls_store d 0 = shard_part (ap_layout ?P) (run_txs (permuted_txs (ap_batch ?P) r) ?s) 0"
    "\<forall>p < length (txs (ap_batch ?P)). let t = permuted_txs (ap_batch ?P) r ! p
      in ls_results d (aria_result_shard (tx_id t) (ap_count ?P)) (tx_id t) =
        Some (ResultReady (turn_result ?s (permuted_txs (ap_batch ?P) r) p))"
    using aria_batch_matches_reference [OF S c(1), where failed = "\<lambda>_. {}" and records = "\<lambda>_. rs"
      and mail = "\<lambda>_. mailbox_registry_new" and sp = ?sp and d = d] F none one_shard fresh_mailboxes_new d
    by (simp add: aria_rerun_def) blast
  have t: "permuted_txs make_root r = [tx_of 0 (Mkdir root)]"
    using permuted_txs_mset [OF r(1)] by (simp add: one_mkdir_def make_root_def)
  have "ls_store d 0 = op_apply (Mkdir root) ?s"
    using r(2) make_root_tx(1)
    by (simp add: t one_mkdir_def apply_reference_tx_eq shard_part_def shard_for_key_def restrict_map_def)
  then have store: "ls_store d 0 = [root \<mapsto> inode_directory 0]" by (simp add: op_apply_def)
  have "turn_result ?s (permuted_txs make_root r) 0 = TxOk"
    using make_root_tx(2) execute_deterministic_reads_of [OF make_root_tx(1), of ?s]
    by (simp add: turn_result_def t op_result_def del: One_nat_def)
  then have "ls_results d 0 0 = Some (ResultReady TxOk)"
    using r(3) by (simp add: t one_mkdir_def aria_result_shard_def) (simp add: make_root_def)
  then show ?thesis
    using c(1) d(1) store by (intro exI [of _ c] exI [of _ ?sp] exI [of _ d]) (simp add: one_mkdir_def make_root_def)
qed

end
