(* ===== verification/AriaBatch.thy ===== *)
theory AriaBatch
  imports AriaTheorems
begin

text \<open>
  The whole of \<open>execute_aria_batch\<close> in \<open>src/engine.rs\<close> on all shards together. A shard that has
  installed the winners goes on with the rerun of the losers; others may still wait for reports or
  install then. No step of the optimistic phase touches its store or its results any more, so a run
  leaves what one leaves in which all shards install first.
\<close>

section \<open>From the install to the rerun\<close>

definition aria_ready :: "aria_params \<Rightarrow> aria_system \<Rightarrow> shard_id \<Rightarrow> bool" where
  "aria_ready P c sh \<longleftrightarrow> sh < ap_count P \<and> is_installed (as_main c sh)"

definition global_failures :: "aria_main \<Rightarrow> nat set" where
  "global_failures m = (case m of AriaInstalled failed _ \<Rightarrow> failed | _ \<Rightarrow> {})"

definition installed_records :: "aria_main \<Rightarrow> tx_result_record list" where
  "installed_records m = (case m of AriaInstalled _ records \<Rightarrow> records | _ \<Rightarrow> [])"

text \<open>The rerun starts with the store and the results the install has left.\<close>

definition aria_rerun_entry ::
    "aria_params \<Rightarrow> aria_system \<Rightarrow> shard_id \<Rightarrow> mailbox_registry \<Rightarrow> (fs_state \<times> spawned) result" where
  "aria_rerun_entry P c sh mail =
     rbind (aria_rerun P sh (global_failures (as_main c sh)) mail (as_results c sh)) (\<lambda>sp. Ok (as_store c sh, sp))"

abbreviation aria_batch_step :: "aria_params \<Rightarrow> aria_system late_system \<Rightarrow> aria_system late_system \<Rightarrow> bool" where
  "aria_batch_step P \<equiv>
     late_step aria_fallback_ops (ap_layout P) (ap_peers P) (ap_id P) (aria_step P) (aria_ready P) (aria_rerun_entry P)"

section \<open>What a step leaves alone\<close>

lemma call_registry_frame:
  "as_store (snd (call_registry P sh t f c)) = as_store c" "as_results (snd (call_registry P sh t f c)) = as_results c"
  "is_installed (as_main c q) \<Longrightarrow> as_main (snd (call_registry P sh t f c)) q = as_main c q"
  by (auto simp: call_registry_def Let_def case_prod_beta wake_def is_installed_def split: sum.splits aria_main.splits)

lemma coordinator_step_frame:
  assumes "coordinator_step P i c = Some c'"
  shows "as_store c' = as_store c" "as_results c' = as_results c" "is_installed (as_main c q) \<Longrightarrow> as_main c' q = as_main c q"
  using assms
  by (auto simp: coordinator_step_def Let_def case_prod_beta aria_read_snapshot_local_def aria_read_snapshot_remote_def
      send_aria_stage_outcome_def call_registry_frame split: aria_coordinator.splits list.splits if_splits)

lemma fail_shard_frame [simp]:
  "as_store (fail_shard sh e c) = as_store c" "as_results (fail_shard sh e c) = as_results c" "as_main (fail_shard sh e c) = as_main c"
  by (simp_all add: fail_shard_def)

lemma install_frame:
  assumes "q \<noteq> sh"
  shows "as_store (install_aria_batch P sh F c) q = as_store c q" "as_results (install_aria_batch P sh F c) q = as_results c q"
    "as_main (install_aria_batch P sh F c) q = as_main c q"
  using assms by (simp_all add: install_aria_batch_def Let_def case_prod_beta split: sum.split)

lemma main_step_frame:
  assumes "main_step P sh c = Some c'" "q \<noteq> sh"
  shows "as_store c' q = as_store c q" "as_results c' q = as_results c q" "is_installed (as_main c q) \<Longrightarrow> as_main c' q = as_main c q"
  using assms
  by (auto simp: main_step_def Let_def case_prod_beta broadcast_aria_execution_done_def broadcast_aria_local_failures_def
      call_registry_frame install_frame split: aria_main.splits list.splits if_splits sum.splits)

lemma aria_step_frame:
  assumes step: "aria_step P c c'" and q: "q \<notin> shards_of P \<or> is_installed (as_main c q)"
  shows "as_store c' q = as_store c q" "as_results c' q = as_results c q" "is_installed (as_main c q) \<Longrightarrow> as_main c' q = as_main c q"
proof -
  from step have "as_store c' q = as_store c q \<and> as_results c' q = as_results c q \<and>
      (is_installed (as_main c q) \<longrightarrow> as_main c' q = as_main c q)"
  proof cases
    case (coordinate i)
    then show ?thesis using coordinator_step_frame by simp
  next
    case (proceed sh)
    have "main_step P sh c = None" if "is_installed (as_main c sh)"
      using that by (auto simp: main_step_def is_installed_def Let_def split: aria_main.splits)
    then have "q \<noteq> sh" using q proceed(1,3) by (auto simp: shards_of_def)
    then show ?thesis using main_step_frame [OF proceed(3)] by blast
  next
    case (collect sh handled i)
    then have "q \<noteq> sh" using q by (auto simp: shards_of_def is_installed_def)
    then show ?thesis by (simp add: collect(1))
  qed (simp add: fail_shard_frame)
  then show "as_store c' q = as_store c q" "as_results c' q = as_results c q" "is_installed (as_main c q) \<Longrightarrow> as_main c' q = as_main c q"
    by blast+
qed

text \<open>A shard outside the layout has nothing to do.\<close>

lemma idle_shard:
  assumes "(aria_step P)\<^sup>*\<^sup>* c c'" "q \<notin> shards_of P"
  shows "as_store c' q = as_store c q \<and> as_results c' q = as_results c q"
  using assms(1) by (induction rule: rtranclp_induct) (use aria_step_frame(1,2) assms(2) in auto)

section \<open>The reduction\<close>

interpretation aria_mail: mail_spawner aria_spawn
proof unfold_locales
  fix L sh bid t sp sp' and n :: mailbox_registry
  assume s: "aria_spawn L sh bid t sp = Ok sp'" and n: "taken_mailbox n = taken_mailbox (sp_mail sp)"
  obtain u where u: "tx_with_derived_sets t = Ok u" using s by (auto simp: aria_spawn_def res_simps)
  let ?s = "owner_shards_for_keys L (read_set u)"
  let ?spawned = "local_lock_keys L u sh \<noteq> {} \<or> sh \<in> aria_fallback_active_shards L u \<or> sh \<in> ?s"
  show "\<exists>n'. aria_spawn L sh bid t (sp\<lparr>sp_mail := n\<rparr>) = Ok (sp'\<lparr>sp_mail := n'\<rparr>) \<and> same_mail n' n \<and>
      taken_mailbox n' = taken_mailbox (sp_mail sp')"
    using s same_receiver [OF n] n
    by (intro exI [of _ "if ?spawned \<and> sh \<in> aria_fallback_active_shards L u
        then snd (receiver bid (tx_id u) AriaFallback (max (card ?s) 1) n) else n"])
      (auto simp: aria_spawn_def u res_simps Let_def case_prod_beta split: if_splits)
qed

interpretation aria_late: late_phases "aria_step P" "aria_ready P" "aria_rerun_entry P" "\<lambda>_. True" for P
proof unfold_locales
  fix c c' sh m s sp and n :: mailbox_registry
  show "aria_ready P c' sh \<and> aria_rerun_entry P c' sh = aria_rerun_entry P c sh" if "aria_step P c c'" "aria_ready P c sh"
  proof -
    have i: "sh < ap_count P" "is_installed (as_main c sh)" using that(2) by (simp_all add: aria_ready_def)
    note f = aria_step_frame [OF that(1) disjI2 [OF i(2)]]
    have "aria_rerun_entry P c' sh = aria_rerun_entry P c sh"
      by (rule ext) (simp only: aria_rerun_entry_def f(1,2) f(3) [OF i(2)])
    then show ?thesis using i f(3) [OF i(2)] by (simp add: aria_ready_def)
  qed
  assume e: "aria_rerun_entry P c sh m = Ok (s, sp)" and n: "taken_mailbox n = taken_mailbox m"
  let ?F = "global_failures (as_main c sh)" and ?r = "as_results c sh"
  have r: "aria_rerun P sh ?F m ?r = Ok sp" "s = as_store c sh" using e by (auto simp: aria_rerun_entry_def rbind_eq_Inr)
  have "\<exists>n'. aria_rerun P sh ?F n ?r = Ok (sp\<lparr>sp_mail := n'\<rparr>) \<and> same_mail n' n \<and> taken_mailbox n' = taken_mailbox (sp_mail sp)"
  proof (cases "?F = {}")
    case True
    then show ?thesis using r(1) n by (intro exI [of _ n]) (auto simp: aria_rerun_def no_workers_def)
  next
    case False
    then obtain fb where fb: "fallback_batch_with_derived_sets (ap_batch P) ?F = Ok fb"
      "lock_prologue aria_spawn (ap_layout P) sh fb m ?r = Ok sp"
      using r(1) unfolding aria_prologue_lock [symmetric] by (auto simp: aria_rerun_def rbind_eq_Inr)
    from aria_mail.prologue_mail [OF fb(2) n] show ?thesis
      unfolding aria_prologue_lock [symmetric] by (simp add: aria_rerun_def fb(1) False)
  qed
  then show "\<exists>n'. aria_rerun_entry P c sh n = Ok (s, sp\<lparr>sp_mail := n'\<rparr>) \<and> same_mail n' n \<and>
      taken_mailbox n' = taken_mailbox (sp_mail sp)"
    by (auto simp: aria_rerun_entry_def r(2))
qed simp_all

lemma aria_entered_together:
  assumes run: "(aria_batch_step P)\<^sup>*\<^sup>* (late_initial (aria_initial P stores regs announced reorders) stores mail announced) l"
    and fin: "late_finished (ap_layout P) (ap_peers P) (ap_id P) (shards_of P) l"
  obtains sp d where "(aria_step P)\<^sup>*\<^sup>* (aria_initial P stores regs announced reorders) (lt_first l)"
    "\<And>sh. sh < ap_count P \<Longrightarrow> as_main (lt_first l) sh =
      AriaInstalled (global_failures (as_main (lt_first l) sh)) (installed_records (as_main (lt_first l) sh))"
    "\<And>sh. sh < ap_count P \<Longrightarrow>
      aria_rerun P sh (global_failures (as_main (lt_first l) sh)) (mail sh) (as_results (lt_first l) sh) = Ok (sp sh)"
    "\<And>sh. \<not> sh < ap_count P \<Longrightarrow> sp sh = no_workers (mail sh) (as_results (lt_first l) sh)"
    "(lock_step aria_fallback_ops (lock_params_of (ap_layout P) (ap_peers P) (ap_id P) sp))\<^sup>*\<^sup>* (lock_initial sp (as_store (lt_first l))) d"
    "lock_finished (lock_params_of (ap_layout P) (ap_peers P) (ap_id P) sp) d"
    "ls_store (lt_lock l) = ls_store d" "\<And>rs sh. aria_batch_records rs (lt_lock l) sh = aria_batch_records rs d sh"
proof -
  let ?c = "lt_first l"
  obtain sp st d where r: "(aria_step P)\<^sup>*\<^sup>* (aria_initial P stores regs announced reorders) ?c"
    "\<And>sh. sh \<in> shards_of P \<Longrightarrow> aria_ready P ?c sh \<and> aria_rerun_entry P ?c sh (mail sh) = Ok (st sh, sp sh)"
    "\<And>sh. sh \<notin> shards_of P \<Longrightarrow> sp sh = no_workers (mail sh) (announced sh) \<and> st sh = stores sh"
    "(lock_step aria_fallback_ops (lock_params_of (ap_layout P) (ap_peers P) (ap_id P) sp))\<^sup>*\<^sup>* (lock_initial sp st) d"
    "lock_finished (lock_params_of (ap_layout P) (ap_peers P) (ap_id P) sp) d" "\<And>sh. lock_view (lt_lock l) sh = lock_view d sh"
    by (rule aria_late.late_run [OF run fin]) (auto simp: aria_ready_def shards_of_def)
  have e: "aria_rerun P sh (global_failures (as_main ?c sh)) (mail sh) (as_results ?c sh) = Ok (sp sh)" "st sh = as_store ?c sh"
    "is_installed (as_main ?c sh)" if "sh \<in> shards_of P" for sh
    using r(2) [OF that] by (auto simp: aria_rerun_entry_def aria_ready_def rbind_eq_Inr)
  have idle: "as_store ?c sh = stores sh" "as_results ?c sh = announced sh" if "sh \<notin> shards_of P" for sh
    using idle_shard [OF r(1) that] by (simp_all add: aria_initial_def)
  have "st = as_store ?c"
    using e(2) r(3) idle(1) by (metis (no_types) ext)
  note run' = r(4) [unfolded this]
  have v: "ls_store (lt_lock l) = ls_store d" "ls_accounts (lt_lock l) = ls_accounts d"
    using r(6) by (auto simp: lock_view_eq)
  show thesis
  proof (rule that [OF r(1) _ _ _ run' r(5) v(1)])
    show "as_main ?c sh = AriaInstalled (global_failures (as_main ?c sh)) (installed_records (as_main ?c sh))" if "sh < ap_count P" for sh
      using e(3) [of sh] that
      by (auto simp: shards_of_def is_installed_def global_failures_def installed_records_def split: aria_main.splits)
    show "aria_rerun P sh (global_failures (as_main ?c sh)) (mail sh) (as_results ?c sh) = Ok (sp sh)" if "sh < ap_count P" for sh
      using e(1) that by (simp add: shards_of_def)
    show "sp sh = no_workers (mail sh) (as_results ?c sh)" if "\<not> sh < ap_count P" for sh
      using r(3) [of sh] idle(2) [of sh] that by (simp add: shards_of_def)
    show "aria_batch_records rs (lt_lock l) sh = aria_batch_records rs d sh" for rs sh
      by (simp add: aria_batch_records_def batch_records_def v(2))
  qed
qed

end
