(* ===== verification/AriaCluster.thy ===== *)
theory AriaCluster
  imports RecordedLog AriaBatch
begin

text \<open>
  A log of batches under the optimistic scheduler: all shards run the batches one after the other,
  and the test harness compares what they leave with the reordered reference execution.
\<close>

section \<open>Only the record of the batch changes\<close>

lemma install_reorders:
  "q \<noteq> sh \<or> k \<noteq> ap_id P \<Longrightarrow> as_reorders (install_aria_batch P sh F c) q k = as_reorders c q k"
  by (auto simp: install_aria_batch_def Let_def case_prod_beta fail_shard_def record_batch_reorder_def split: sum.splits if_splits)

lemma coordinator_step_reorders: "coordinator_step P i c = Some c' \<Longrightarrow> as_reorders c' = as_reorders c"
  by (auto simp: coordinator_step_def Let_def case_prod_beta aria_read_snapshot_local_def aria_read_snapshot_remote_def
      send_aria_stage_outcome_def call_registry_def split: aria_coordinator.splits list.splits if_splits sum.splits)

lemma main_step_reorders:
  "main_step P sh c = Some c' \<Longrightarrow> q \<noteq> sh \<or> k \<noteq> ap_id P \<Longrightarrow> as_reorders c' q k = as_reorders c q k"
  by (auto simp: main_step_def Let_def case_prod_beta broadcast_aria_execution_done_def broadcast_aria_local_failures_def
      call_registry_def fail_shard_def install_reorders split: aria_main.splits list.splits if_splits sum.splits)

lemma untouched_reorders:
  assumes "(aria_step P)\<^sup>*\<^sup>* c c'" "q \<notin> shards_of P \<or> k \<noteq> ap_id P"
  shows "as_reorders c' q k = as_reorders c q k"
  using assms(1)
proof (induction rule: rtranclp_induct)
  case (step c1 c2)
  from step(2) have "as_reorders c2 q k = as_reorders c1 q k"
  proof cases
    case (coordinate i)
    then show ?thesis using coordinator_step_reorders by simp
  next
    case (proceed sh)
    then have "q \<noteq> sh \<or> k \<noteq> ap_id P" using assms(2) by (auto simp: shards_of_def)
    then show ?thesis using main_step_reorders [OF proceed(3)] by blast
  qed (simp_all add: fail_shard_def)
  then show ?case using step by simp
qed simp

section \<open>Executions\<close>

text \<open>
  A batch on all shards, each at its own pace: the prologue, the optimistic phase with the install of
  the winners, the rerun of the losers to its end. It hands on the stores, the reorder records and the
  results.
\<close>

inductive aria_execution ::
    "shard_layout \<Rightarrow> shard_id set \<Rightarrow> batch list \<Rightarrow> (shard_id \<Rightarrow> fs_state) \<Rightarrow> (shard_id \<Rightarrow> batch_id \<rightharpoonup> reorder_record)
      \<Rightarrow> (shard_id \<Rightarrow> tx_result_record list) \<Rightarrow> bool"
  for L ps where
  no_batch: "aria_execution L ps [] (\<lambda>_. Map.empty) (\<lambda>_. Map.empty) (\<lambda>_. [])"
| next_batch:
    "aria_execution L ps bs stores reorders records \<Longrightarrow>
     P = \<lparr>ap_layout = L, ap_peers = ps, ap_batch = b\<rparr> \<Longrightarrow>
     (\<And>sh. sh < shard_count L \<Longrightarrow> aria_prologue L sh b (results sh) = Ok (announced sh)) \<Longrightarrow>
     (\<And>sh. aria_entry (batch_id b) (regs sh) = aria_batch_state_default) \<Longrightarrow>
     (\<And>sh. sh < shard_count L \<Longrightarrow> fresh_mailboxes (batch_id b) AriaFallback (mail sh)) \<Longrightarrow>
     (\<And>sh. \<not> sh < shard_count L \<Longrightarrow> mail sh = mailbox_registry_new) \<Longrightarrow>
     (aria_batch_step P)\<^sup>*\<^sup>* (late_initial (aria_initial P stores regs announced reorders) stores mail announced) l \<Longrightarrow>
     late_finished L ps (batch_id b) {sh. sh < shard_count L} l \<Longrightarrow>
     aria_execution L ps (bs @ [b]) (ls_store (lt_lock l)) (as_reorders (lt_first l))
       (\<lambda>sh. records sh @ aria_batch_records (installed_records (as_main (lt_first l) sh)) (lt_lock l) sh)"

text \<open>What is asked of the batches of a log.\<close>

definition aria_log :: "batch list \<Rightarrow> bool" where
  "aria_log bs \<longleftrightarrow> distinct (map batch_id bs) \<and> (\<forall>t \<in> set (concat (map txs bs)). valid_tx t)"

lemma aria_log_append: "aria_log (bs @ [b]) \<Longrightarrow> aria_log bs"
  by (auto simp: aria_log_def)

section \<open>The invariant of a log\<close>

definition aria_log_inv ::
    "shard_layout \<Rightarrow> shard_id list \<Rightarrow> batch list \<Rightarrow> (shard_id \<Rightarrow> fs_state) \<Rightarrow> (shard_id \<Rightarrow> batch_id \<rightharpoonup> reorder_record)
      \<Rightarrow> (shard_id \<Rightarrow> tx_result_record list) \<Rightarrow> bool" where
  "aria_log_inv L shards bs stores reorders records \<longleftrightarrow>
     complete_reorders (set shards) reorders bs \<and> (\<forall>sh. sh \<notin> set shards \<longrightarrow> reorders sh = Map.empty) \<and>
     stores = shard_part L (run_txs (executed_txs shards reorders bs) Map.empty) \<and>
     (\<forall>sh \<in> set shards. mset (records sh) = mset (turn_records (aria_reporters L) Map.empty (executed_txs shards reorders bs) sh))"

lemma aria_log_inv_empty: "aria_log_inv L shards [] (\<lambda>_. Map.empty) (\<lambda>_. Map.empty) (\<lambda>_. [])"
  by (simp add: aria_log_inv_def complete_reorders_def executed_txs_def shard_part_def restrict_map_def turn_records_def fun_eq_iff)

text \<open>The setting in which the next batch of a log runs.\<close>

lemma next_aria_setting:
  assumes I: "aria_log_inv L shards bs stores reorders records" and l: "aria_log (bs @ [b])"
    and L: "set shards = {sh. sh < shard_count L}" "0 < shard_count L"
    and b: "validate_batch_order b = Ok ()" and regs: "\<And>sh. aria_entry (batch_id b) (regs sh) = aria_batch_state_default"
    and P: "P = \<lparr>ap_layout = L, ap_peers = set shards, ap_batch = b\<rparr>"
  shows "aria_setting P" "fresh_aria P (run_txs (executed_txs shards reorders bs) Map.empty) (aria_initial P stores regs results reorders)"
    "reorders sh (batch_id b) = None" "shards_of P = set shards"
proof -
  note i = I [unfolded aria_log_inv_def]
  show P': "shards_of P = set shards" using L(1) by (simp add: P shards_of_def)
  have "distinct (map tx_id (txs b))" using b by (simp add: validate_batch_order_Ok)
  then show "aria_setting P"
    using l L(2) P' batch_order_length [OF b] by (auto simp: aria_setting_def aria_batch_def P aria_log_def)
  show new: "reorders sh (batch_id b) = None" for sh
  proof (cases "sh \<in> set shards")
    case True
    then have "dom (reorders sh) = batch_id ` set bs" using i complete_reordersD(2) by blast
    then show ?thesis using l by (auto simp: aria_log_def)
  qed (use i in simp)
  show "fresh_aria P (run_txs (executed_txs shards reorders bs) Map.empty) (aria_initial P stores regs results reorders)"
    using i regs new by (simp add: fresh_aria_def aria_initial_def P)
qed

lemma aria_log_inv_step:
  assumes I: "aria_log_inv L shards bs stores reorders records" and l: "aria_log (bs @ [b])"
    and L: "set shards = {sh. sh < shard_count L}" "0 < shard_count L"
    and P: "P = \<lparr>ap_layout = L, ap_peers = set shards, ap_batch = b\<rparr>"
    and pro: "\<And>sh. sh < shard_count L \<Longrightarrow> aria_prologue L sh b (results sh) = Ok (announced sh)"
    and regs: "\<And>sh. aria_entry (batch_id b) (regs sh) = aria_batch_state_default"
    and run: "(aria_step P)\<^sup>*\<^sup>* (aria_initial P stores regs announced reorders) c"
    and installed: "\<And>sh. sh < shard_count L \<Longrightarrow> as_main c sh = AriaInstalled (failed sh) (installed sh)"
    and start: "\<And>sh. sh < shard_count L \<Longrightarrow> fresh_mailboxes (batch_id b) AriaFallback (mail sh) \<and>
      aria_rerun P sh (failed sh) (mail sh) (as_results c sh) = Ok (sp sh)"
    and idle: "\<And>sh. \<not> sh < shard_count L \<Longrightarrow> sp sh = no_workers mailbox_registry_new (as_results c sh)"
    and rerun: "(lock_step aria_fallback_ops (lock_params_of L (set shards) (batch_id b) sp))\<^sup>*\<^sup>* (lock_initial sp (as_store c)) d"
    and finished: "lock_finished (lock_params_of L (set shards) (batch_id b) sp) d"
  shows "aria_log_inv L shards (bs @ [b]) (ls_store d) (as_reorders c) (\<lambda>sh. records sh @ aria_batch_records (installed sh) d sh)"
proof -
  note i = I [unfolded aria_log_inv_def]
  let ?s = "run_txs (executed_txs shards reorders bs) Map.empty"
  let ?F = "aria_failures P ?s"
  let ?r = "canonical_reorder b ?F"
  have b: "validate_batch_order b = Ok ()" using pro [OF L(2)] by (auto simp: aria_prologue_def res_simps)
  note S = next_aria_setting [OF I l L b regs P]
  have p: "ap_batch P = b" "ap_layout P = L" "ap_peers P = set shards" by (simp_all add: P)
  note out = aria_outcome [OF S(1,2) run, unfolded p, OF installed start idle rerun finished]
  have "as_reorders c sh k = ((reorders sh)(batch_id b \<mapsto> ?r)) k" if sh: "sh \<in> set shards" for sh k
  proof (cases "k = batch_id b")
    case True
    then show ?thesis using out(3) [of sh] sh L(1) by simp
  next
    case False
    then show ?thesis using untouched_reorders [OF run, of sh k] by (simp add: p aria_initial_def)
  qed
  then have u: "reorders sh (batch_id b) = None \<and> as_reorders c sh = (reorders sh)(batch_id b \<mapsto> ?r)" if "sh \<in> set shards" for sh
    using S(3) that by (simp add: fun_eq_iff)
  have ne: "set shards \<noteq> {}" using L by auto
  have F: "?F \<subseteq> {0..<length (txs b)}" using failures_below [of P ?s] by (simp add: p lessThan_atLeast0)
  note step = complete_reorders_step [where reorders = reorders and reorders' = "as_reorders c" and F = "\<lambda>_. ?F" and b = b and bs = bs and
    S = "set shards" and shards = shards, OF _ ne order_refl F u]
  have ts: "executed_txs shards (as_reorders c) (bs @ [b]) = executed_txs shards reorders bs @ permuted_txs b ?r"
    using step(2,3) i ne by (simp add: executed_txs_def)
  show ?thesis
    unfolding aria_log_inv_def
  proof (intro conjI allI ballI impI)
    show "complete_reorders (set shards) (as_reorders c) (bs @ [b])" using step(1) i by blast
    show "as_reorders c sh = Map.empty" if "sh \<notin> set shards" for sh
      using untouched_reorders [OF run, of sh] S(4) i that by (simp add: aria_initial_def fun_eq_iff)
    show "ls_store d = shard_part L (run_txs (executed_txs shards (as_reorders c) (bs @ [b])) Map.empty)"
      using out(4) unfolding ts by (simp add: fun_eq_iff)
    show "mset (records sh @ aria_batch_records (installed sh) d sh) =
        mset (turn_records (aria_reporters L) Map.empty (executed_txs shards (as_reorders c) (bs @ [b])) sh)"
      if "sh \<in> set shards" for sh
      using out(6) [of sh] i that L(1) unfolding ts by (simp add: turn_records_append)
  qed
qed

lemma aria_execution_inv:
  assumes "aria_execution L (set shards) bs stores reorders records" "aria_log bs"
    and "set shards = {sh. sh < shard_count L}" "0 < shard_count L"
  shows "aria_log_inv L shards bs stores reorders records"
  using assms(1,2)
proof (induction)
  case no_batch
  show ?case by (rule aria_log_inv_empty)
next
  case (next_batch bs stores reorders records P b results announced regs mail l)
  note I = next_batch.IH [OF aria_log_append [OF next_batch.prems]]
  have p: "ap_batch P = b" "ap_layout P = L" "ap_peers P = set shards" "shards_of P = {sh. sh < shard_count L}"
    by (simp_all add: next_batch.hyps(2) shards_of_def)
  let ?c = "lt_first l" and ?F = "\<lambda>sh. global_failures (as_main (lt_first l) sh)"
  obtain sp d where r: "(aria_step P)\<^sup>*\<^sup>* (aria_initial P stores regs announced reorders) ?c"
    "\<And>sh. sh < shard_count L \<Longrightarrow> as_main ?c sh = AriaInstalled (?F sh) (installed_records (as_main ?c sh))"
    "\<And>sh. sh < shard_count L \<Longrightarrow> aria_rerun P sh (?F sh) (mail sh) (as_results ?c sh) = Ok (sp sh)"
    "\<And>sh. \<not> sh < shard_count L \<Longrightarrow> sp sh = no_workers (mail sh) (as_results ?c sh)"
    "(lock_step aria_fallback_ops (lock_params_of L (set shards) (batch_id b) sp))\<^sup>*\<^sup>* (lock_initial sp (as_store ?c)) d"
    "lock_finished (lock_params_of L (set shards) (batch_id b) sp) d"
    "ls_store (lt_lock l) = ls_store d" "\<And>rs sh. aria_batch_records rs (lt_lock l) sh = aria_batch_records rs d sh"
    using aria_entered_together [of P stores regs announced reorders mail l] next_batch.hyps(7,8) unfolding p by blast
  have start: "fresh_mailboxes (batch_id b) AriaFallback (mail sh) \<and>
      aria_rerun P sh (?F sh) (mail sh) (as_results ?c sh) = Ok (sp sh)" if "sh < shard_count L" for sh
    using next_batch.hyps(5) r(3) that by blast
  have idle: "sp sh = no_workers mailbox_registry_new (as_results ?c sh)" if "\<not> sh < shard_count L" for sh
    using next_batch.hyps(6) r(4) that by simp
  show ?case
    unfolding r(7,8)
    by (rule aria_log_inv_step [OF I next_batch.prems assms(3,4) next_batch.hyps(2-4) r(1,2) start idle r(5,6)])
qed

section \<open>Executions exist\<close>

lemma aria_rerun_accepts:
  assumes "aria_batch P" "ap_size P \<le> 2 ^ 32" "distinct (map tx_id (txs (ap_batch P)))" "fresh_mailboxes (ap_id P) AriaFallback mail"
  shows "\<exists>sp. aria_rerun P sh (aria_failures P s0) mail results = Ok sp"
proof -
  have F: "aria_failures P s0 \<subseteq> {0..<ap_size P}" using failures_below by (simp add: lessThan_atLeast0)
  have v: "\<forall>t \<in> set (txs (ap_batch P)). validate_sets t = Ok ()" using assms(1) by (simp add: aria_batch_def valid_tx_def)
  have "\<forall>t \<in> set (txs (aria_fallback P s0)). validate_sets t = Ok ()"
    using fallback_txs_valid [OF assms(1)] by (simp add: valid_tx_def)
  then have "\<exists>sp. aria_fallback_prologue (ap_layout P) sh (aria_fallback P s0) mail results = Ok sp"
    unfolding aria_prologue_lock
    using aria_loop.prologue_accepts [OF fallback_order [OF assms(3) F assms(2)]] assms(4) by (simp add: fallback_batch_id)
  then show ?thesis
    using derived_fallback_same [OF v failures_below [of P s0]] by (simp add: aria_rerun_def)
qed

lemma aria_execution_exists:
  assumes "aria_log bs" "\<forall>b \<in> set bs. validate_batch_order b = Ok ()"
    and L: "set shards = {sh. sh < shard_count L}" "0 < shard_count L"
  shows "\<exists>stores reorders records. aria_execution L (set shards) bs stores reorders records"
  using assms(1,2)
proof (induction bs rule: rev_induct)
  case Nil
  show ?case using aria_execution.no_batch by blast
next
  case (snoc b bs)
  obtain stores reorders records where e: "aria_execution L (set shards) bs stores reorders records"
    using snoc.IH snoc.prems aria_log_append by auto
  note I = aria_execution_inv [OF e aria_log_append [OF snoc.prems(1)] L]
  let ?s = "run_txs (executed_txs shards reorders bs) Map.empty" and ?P = "\<lparr>ap_layout = L, ap_peers = set shards, ap_batch = b\<rparr>"
  let ?m = "\<lambda>_ :: shard_id. mailbox_registry_new" and ?regs = "\<lambda>_ :: shard_id. Map.empty :: aria_registry"
  have b: "validate_batch_order b = Ok ()" using snoc.prems(2) by simp
  obtain announced where pro: "\<And>sh. aria_prologue L sh b ((\<lambda>_. Map.empty) sh) = Ok (announced sh)"
    by (simp add: aria_prologue_def b)
  have regs: "aria_entry (batch_id b) (?regs sh) = aria_batch_state_default" for sh by (simp add: aria_entry_def)
  note S = next_aria_setting [OF I snoc.prems(1) L b regs refl]
  let ?c0 = "aria_initial ?P stores ?regs announced reorders"
  have "awake ?P ?c0" by (simp add: awake_def aria_initial_def)
  then obtain c where c: "(aria_step ?P)\<^sup>*\<^sup>* ?c0 c" "\<forall>sh \<in> shards_of ?P. is_installed (as_main c sh)"
    using aria_can_finish [OF S(1) aria_start_inv [OF S(1,2)]] by blast
  note inv = aria_inv_reachable [OF S(1,2) c(1)]
  have inst: "as_main c sh = AriaInstalled (aria_failures ?P ?s) (aria_records ?P ?s sh)" if "sh < shard_count L" for sh
  proof -
    have "sh \<in> shards_of ?P" using that by (simp add: shards_of_def)
    then have "is_installed (as_main c sh)" "main_inv ?P ?s (as_coord c) sh (as_main c sh)"
      using c(2) aria_invD(3) [OF inv] by blast+
    then show ?thesis by (cases "as_main c sh") (simp_all add: is_installed_def main_inv_def)
  qed
  have "\<exists>sp. aria_rerun ?P sh (aria_failures ?P ?s) (?m sh) (as_results c sh) = Ok sp" for sh
    using aria_rerun_accepts [OF aria_settingD(1,3) [OF S(1)]] S(1) fresh_mailboxes_new by (auto simp: aria_setting_def)
  then obtain sp' where sp': "\<And>sh. aria_rerun ?P sh (aria_failures ?P ?s) (?m sh) (as_results c sh) = Ok (sp' sh)" by metis
  define sp where "sp = (\<lambda>sh. if sh < shard_count L then sp' sh else no_workers mailbox_registry_new (as_results c sh))"
  have start: "fresh_mailboxes (batch_id b) AriaFallback (?m sh) \<and>
      aria_rerun ?P sh (aria_failures ?P ?s) (?m sh) (as_results c sh) = Ok (sp sh)" if "sh < shard_count L" for sh
    using sp' fresh_mailboxes_new that by (simp add: sp_def)
  have idle: "sp sh = no_workers mailbox_registry_new (as_results c sh)" if "\<not> sh < shard_count L" for sh
    using that by (simp add: sp_def)
  have "spawn_setting aria_spawn aria_fallback_kind AriaFallback (aria_lock_batch ?P ?s)
      (\<lambda>sh. if sh \<in> shards_of ?P then aria_fallback ?P ?s else \<lparr>batch_id = ap_id ?P, txs = []\<rparr>) sp"
    by (rule aria_rerun_setting [OF S(1), where mail = ?m and results = "as_results c"])
      (use start idle in \<open>simp_all add: shards_of_def\<close>)
  from aria_loop.setting [OF this] have K: "lock_setting aria_fallback_kind (x_phase aria_fallback_ops) (aria_lock_batch ?P ?s) sp"
    by (simp add: aria_fallback_ops_def)
  have "stores_hold (ap_layout ?P) (as_store c) (aria_state ?P ?s)"
    by (rule installed_stores [OF S(1,2) c(1)]) (use c(2) in simp)
  then obtain d where d: "(lock_step aria_fallback_ops (lock_params_of L (set shards) (batch_id b) sp))\<^sup>*\<^sup>* (lock_initial sp (as_store c)) d"
    "lock_finished (lock_params_of L (set shards) (batch_id b) sp) d"
    using aria.lock_can_finish [OF K _ rtranclp.rtrancl_refl, of "as_store c"] by auto
  have enter: "aria_ready ?P c sh \<and> aria_rerun_entry ?P c sh (?m sh) = Ok (as_store c sh, sp sh)" if "sh < shard_count L" for sh
    using inst [OF that] start [OF that] that
    by (simp add: aria_ready_def is_installed_def aria_rerun_entry_def global_failures_def)
  have rest: "sp sh = no_workers (?m sh) (announced sh) \<and> as_store c sh = stores sh" if "\<not> sh < shard_count L" for sh
    using idle [OF that] idle_shard [OF c(1), of sh] that by (simp add: shards_of_def aria_initial_def)
  obtain l where l: "(aria_batch_step ?P)\<^sup>*\<^sup>* (late_initial ?c0 stores ?m announced) l"
    "late_finished L (set shards) (batch_id b) {sh. sh < shard_count L} l"
    using aria_late.late_run_exists [OF c(1) _ _ _ d, of "{sh. sh < shard_count L}" ?m announced stores] enter rest by auto
  show ?case
    using aria_execution.next_batch [OF e refl pro regs fresh_mailboxes_new refl l] by blast
qed

section \<open>The contract\<close>

definition aria_fit :: "shard_layout \<Rightarrow> shard_id set \<Rightarrow> batch list \<Rightarrow> bool" where
  "aria_fit L ps bs \<longleftrightarrow> aria_log bs \<and> (\<forall>b \<in> set bs. validate_batch_order b = Ok ())"

interpretation optimistic: recorded_scheduler aria_execution aria_fit aria_reporters
proof unfold_locales
  fix L shards bs stores reorders records
  assume f: "aria_fit L (set shards) bs" and a: "all_asked L shards"
  then show "\<exists>stores reorders records. aria_execution L (set shards) bs stores reorders records"
    using aria_execution_exists [of bs shards L] by (simp add: aria_fit_def all_asked_def)
  assume "aria_execution L (set shards) bs stores reorders records"
  then have "aria_log_inv L shards bs stores reorders records"
    using aria_execution_inv f a by (simp add: aria_fit_def all_asked_def)
  then show "recorded_outcome (aria_reporters L) L shards bs stores reorders records"
    using f by (simp add: aria_log_inv_def recorded_outcome_def aria_fit_def aria_log_def)
qed

end
