(* ===== verification/Workload.thy ===== *)
theory Workload
  imports FsSpec
begin

text \<open>
  The generated load of \<open>src/workload.rs\<close>: a first batch that makes the root and directories and starts to
  fill them, and batches of file creations. Numbers are printed in decimal. The lemmas show that the
  paths are valid and distinct and that every operation of the load finds its directory, from two
  operations per batch on.
\<close>

section \<open>Printing numbers\<close>

definition digit :: "nat \<Rightarrow> char" where
  "digit n = char_of (48 + n)"

fun show_nat :: "nat \<Rightarrow> string" where
  "show_nat n = (if n < 10 then [digit n] else show_nat (n div 10) @ [digit (n mod 10)])"

declare show_nat.simps [simp del]

section \<open>The load\<close>

definition dir_path :: "nat \<Rightarrow> string" where
  "dir_path dir_index = ''/dir_'' @ show_nat dir_index"

definition file_path :: "nat \<Rightarrow> nat \<Rightarrow> nat \<Rightarrow> string" where
  "file_path dir_index batch_no file_index =
     dir_path dir_index @ ''/b'' @ show_nat batch_no @ ''_file_'' @ show_nat file_index"

text \<open>The loop that fills the first batch up.\<close>

function fill_first :: "nat \<Rightarrow> nat \<Rightarrow> nat \<Rightarrow> fs_op list \<Rightarrow> fs_op list result" where
  "fill_first batch_size dir_count file_index ops =
     (if length ops < batch_size
      then (case key_new (file_path (file_index mod max dir_count 1) 0 file_index) of
              Err e \<Rightarrow> Err e
            | Ok k \<Rightarrow> fill_first batch_size dir_count (Suc file_index) (ops @ [Create k]))
      else Ok ops)"
  by pat_completeness auto
termination by (relation "measure (\<lambda>(batch_size, _, _, ops). batch_size - length ops)") auto

declare fill_first.simps [simp del]

definition first_batch :: "nat \<Rightarrow> nat \<Rightarrow> fs_op list result" where
  "first_batch batch_size dir_count =
     rbind (traverse (\<lambda>dir_index. rbind (key_new (dir_path dir_index)) (\<lambda>k. Ok (Mkdir k))) [0..<dir_count]) (\<lambda>dirs.
     fill_first batch_size dir_count 0 (Mkdir root # dirs))"

definition create_file_batch :: "nat \<Rightarrow> nat \<Rightarrow> nat \<Rightarrow> fs_op list result" where
  "create_file_batch batch_no batch_size dir_count =
     traverse (\<lambda>file_index. rbind (key_new (file_path (file_index mod max dir_count 1) batch_no file_index)) (\<lambda>k.
       Ok (Create k))) [0..<batch_size]"

definition metadata_workload :: "nat \<Rightarrow> nat \<Rightarrow> fs_op list list result" where
  "metadata_workload batch_count batch_size =
     (if batch_count = 0 then Ok []
      else if batch_size = 0 then Err (InvalidBatch ''batch_size must be greater than zero'')
      else
        (let dir_count = (if batch_size = 1 then 0 else min (batch_size - 1) 256)
         in rbind (first_batch batch_size dir_count) (\<lambda>first.
            rbind (traverse (\<lambda>batch_no. create_file_batch batch_no batch_size dir_count) [1..<batch_count]) (\<lambda>others.
            Ok (first # others)))))"

section \<open>Printing is injective\<close>

definition digits :: "char set" where
  "digits = {c. 48 \<le> (of_char c :: nat) \<and> (of_char c :: nat) < 58}"

lemma of_char_digit [simp]: "n < 10 \<Longrightarrow> of_char (digit n) = 48 + n"
  by (simp add: digit_def)

lemma show_nat_digits: "set (show_nat n) \<subseteq> digits"
proof (induction n rule: show_nat.induct)
  case (1 n)
  have "digit (n mod 10) \<in> digits" by (simp add: digits_def)
  then show ?case using 1 by (subst show_nat.simps) (auto simp: digits_def)
qed

definition read_nat :: "string \<Rightarrow> nat" where
  "read_nat s = foldl (\<lambda>a c. 10 * a + (of_char c - 48)) 0 s"

lemma read_show [simp]: "read_nat (show_nat n) = n"
proof (induction n rule: show_nat.induct)
  case (1 n)
  then show ?case by (subst show_nat.simps) (auto simp: read_nat_def)
qed

lemma show_nat_inject [simp]: "show_nat m = show_nat n \<longleftrightarrow> m = n"
  by (metis read_show)

lemma show_nat_clean: "slash \<notin> set (show_nat n)" "CHR ''_'' \<notin> set (show_nat n)"
  using show_nat_digits [of n] by (auto simp: digits_def)

lemma append_sep_eq: "c \<notin> set x \<Longrightarrow> c \<notin> set x' \<Longrightarrow> x @ c # r = x' @ c # r' \<longleftrightarrow> x = x' \<and> r = r'"
proof (induction x arbitrary: x')
  case Nil
  then show ?case by (cases x') auto
next
  case (Cons a x)
  then show ?case by (cases x') auto
qed

section \<open>Paths\<close>

definition dir_segment :: "nat \<Rightarrow> string" where
  "dir_segment d = ''dir_'' @ show_nat d"

definition file_segment :: "nat \<Rightarrow> nat \<Rightarrow> string" where
  "file_segment b f = CHR ''b'' # show_nat b @ CHR ''_'' # ''file_'' @ show_nat f"

definition dir_key :: "nat \<Rightarrow> key" where
  "dir_key d = key_of_segments [dir_segment d]"

definition file_key :: "nat \<Rightarrow> nat \<Rightarrow> nat \<Rightarrow> key" where
  "file_key d b f = key_of_segments [dir_segment d, file_segment b f]"

lemma segments_good: "good_segment (dir_segment d)" "good_segment (file_segment b f)"
  using show_nat_clean by (auto simp: good_segment_def dir_segment_def file_segment_def)

lemma segments_inject [simp]:
  "dir_segment d = dir_segment d' \<longleftrightarrow> d = d'"
  "file_segment b f = file_segment b' f' \<longleftrightarrow> b = b' \<and> f = f'"
  using show_nat_clean by (auto simp: dir_segment_def file_segment_def append_sep_eq)

lemma keys_made: "key_new (dir_path d) = Ok (dir_key d)" "key_new (file_path d b f) = Ok (file_key d b f)"
  by (simp_all add: key_new_Ok_iff dir_key_def file_key_def segments_good)
    (simp_all add: key_of_segments_def dir_path_def file_path_def dir_segment_def file_segment_def)

lemma segments_made [simp]:
  "segments (dir_key d) = [dir_segment d]" "segments (file_key d b f) = [dir_segment d, file_segment b f]"
  by (simp_all add: dir_key_def file_key_def segments_good)

lemma keys_valid [simp]: "valid_key (dir_key d)" "valid_key (file_key d b f)"
  by (simp_all add: dir_key_def file_key_def segments_good)

lemma keys_distinct [simp]:
  "dir_key d = dir_key d' \<longleftrightarrow> d = d'" "file_key d b f = file_key d' b' f' \<longleftrightarrow> d = d' \<and> b = b' \<and> f = f'"
  "dir_key d \<noteq> file_key d' b f" "file_key d' b f \<noteq> dir_key d" "dir_key d \<noteq> root" "file_key d b f \<noteq> root"
  "root \<noteq> dir_key d" "root \<noteq> file_key d b f"
  by (auto dest: arg_cong [of _ _ segments] simp: segments_def [of root])

lemma parents_made [simp]: "parent_of (dir_key d) = root" "parent_of (file_key d b f) = dir_key d"
  using parent_segments [of "[]" "dir_segment d"] parent_segments [of "[dir_segment d]" "file_segment b f"]
  by (simp_all add: parent_of_def dir_key_def file_key_def segments_good key_of_segments_def [of "[]"])

section \<open>What the load builds\<close>

text \<open>Only the kinds of the inodes matter for whether an insertion succeeds.\<close>

definition kinds :: "fs_state \<Rightarrow> (key \<rightharpoonup> node_kind)" where
  "kinds s = (\<lambda>k. map_option kind (s k))"

fun all_succeed :: "fs_op list \<Rightarrow> fs_state \<Rightarrow> bool" where
  "all_succeed [] s = True"
| "all_succeed (fs # ops) s = (op_result fs s = TxOk \<and> all_succeed ops (op_apply fs s))"

lemma all_succeed_append:
  "all_succeed (xs @ ys) s \<longleftrightarrow> all_succeed xs s \<and> all_succeed ys (fold op_apply xs s)"
  by (induction xs arbitrary: s) auto

lemma insertion:
  assumes "kinds s (parent_of p) = Some Directory" "kinds s p = None" "p \<noteq> root" "parent_of p \<noteq> p"
  shows "op_result (Create p) s = TxOk" "kinds (op_apply (Create p) s) = (kinds s)(p \<mapsto> File)"
    "op_result (Mkdir p) s = TxOk" "kinds (op_apply (Mkdir p) s) = (kinds s)(p \<mapsto> Directory)"
proof -
  obtain i where i: "s (parent_of p) = Some i" "kind i = Directory" using assms(1) by (auto simp: kinds_def)
  have n: "s p = None" using assms(2) by (simp add: kinds_def)
  show "op_result (Create p) s = TxOk" "op_result (Mkdir p) s = TxOk"
    using i n assms(3) by (simp_all add: op_result_def op_insert_def)
  show "kinds (op_apply (Create p) s) = (kinds s)(p \<mapsto> File)" "kinds (op_apply (Mkdir p) s) = (kinds s)(p \<mapsto> Directory)"
    using i n assms(3,4)
    by (auto simp: op_apply_def op_insert_def kinds_def fun_eq_iff incr_children_def inode_file_def inode_directory_def)
qed

text \<open>The first \<open>D\<close> directories and the files \<open>F\<close>, each a pair of the numbers of its batch and of itself.\<close>

definition file_of :: "nat \<Rightarrow> nat \<times> nat \<Rightarrow> key" where
  "file_of D p = file_key (snd p mod max D 1) (fst p) (snd p)"

definition built :: "nat \<Rightarrow> nat \<Rightarrow> (nat \<times> nat) set \<Rightarrow> (key \<rightharpoonup> node_kind)" where
  "built D made F = (\<lambda>k. if k = root \<or> k \<in> dir_key ` {..<made} then Some Directory
     else if k \<in> file_of D ` F then Some File else None)"

lemma file_of_inject [simp]: "file_of D p = file_of D q \<longleftrightarrow> p = q"
  by (cases p; cases q) (auto simp: file_of_def)

lemma file_of_distinct [simp]: "file_of D p \<noteq> root" "file_of D p \<noteq> dir_key d" "dir_key d \<noteq> file_of D p" "root \<noteq> file_of D p"
  by (simp_all add: file_of_def)

lemma make_dirs:
  "kinds s = built D m {} \<Longrightarrow> all_succeed (map (\<lambda>d. Mkdir (dir_key d)) [m..<m + n]) s \<and>
     kinds (fold op_apply (map (\<lambda>d. Mkdir (dir_key d)) [m..<m + n]) s) = built D (m + n) {}"
proof (induction n arbitrary: s m)
  case (Suc n)
  have i: "op_result (Mkdir (dir_key m)) s = TxOk" "kinds (op_apply (Mkdir (dir_key m)) s) = (kinds s)(dir_key m \<mapsto> Directory)"
    by (rule insertion(3,4); use Suc.prems in \<open>auto simp: built_def\<close>)+
  have "(kinds s)(dir_key m \<mapsto> Directory) = built D (Suc m) {}"
    using Suc.prems by (auto simp: built_def fun_eq_iff less_Suc_eq)
  then have "kinds (op_apply (Mkdir (dir_key m)) s) = built D (Suc m) {}" using i(2) by simp
  moreover have "[m..<m + Suc n] = m # [Suc m..<Suc m + n]" by (simp add: upt_conv_Cons del: upt_Suc)
  ultimately show ?case using Suc.IH [of _ "Suc m"] i(1) by (simp del: upt_Suc)
qed simp

lemma make_files:
  assumes "kinds s = built D D F" "0 < D" "distinct ps" "set ps \<inter> F = {}"
  shows "all_succeed (map (\<lambda>p. Create (file_of D p)) ps) s \<and>
     kinds (fold op_apply (map (\<lambda>p. Create (file_of D p)) ps) s) = built D D (F \<union> set ps)"
  using assms
proof (induction ps arbitrary: s F)
  case (Cons p ps)
  have d: "snd p mod max D 1 < D" using Cons.prems(2) by simp
  have pa: "parent_of (file_of D p) = dir_key (snd p mod max D 1)" by (simp add: file_of_def)
  have i: "op_result (Create (file_of D p)) s = TxOk" "kinds (op_apply (Create (file_of D p)) s) = (kinds s)(file_of D p \<mapsto> File)"
    by (rule insertion(1,2); use Cons.prems(1,4) d in \<open>auto simp: built_def pa\<close>)+
  have "(kinds s)(file_of D p \<mapsto> File) = built D D (insert p F)"
    using Cons.prems(1) by (auto simp: built_def fun_eq_iff)
  then have "kinds (op_apply (Create (file_of D p)) s) = built D D (insert p F)" using i(2) by simp
  from Cons.IH [OF this] i(1) Cons.prems show ?case by auto
qed simp

section \<open>The batches in closed form\<close>

lemma fill_first_eq:
  "length ops \<le> b \<Longrightarrow> fill_first b D i ops =
     Ok (ops @ map (\<lambda>f. Create (file_of D (0, f))) [i..<i + (b - length ops)])"
proof (induction b D i ops rule: fill_first.induct)
  case (1 b D i ops)
  show ?case
  proof (cases "length ops < b")
    case True
    have k: "key_new (file_path (i mod max D 1) 0 i) = Ok (file_of D (0, i))" by (simp add: keys_made file_of_def)
    have "fill_first b D i ops = fill_first b D (Suc i) (ops @ [Create (file_of D (0, i))])"
      by (subst fill_first.simps) (simp only: True k if_True sum.case)
    also have "\<dots> = Ok ((ops @ [Create (file_of D (0, i))]) @
        map (\<lambda>f. Create (file_of D (0, f))) [Suc i..<Suc i + (b - length (ops @ [Create (file_of D (0, i))]))])"
      using 1(1) [OF True k] True by simp
    also have "[i..<i + (b - length ops)] = i # [Suc i..<Suc i + (b - length (ops @ [Create (file_of D (0, i))]))]"
      using True upt_conv_Cons [of i "i + (b - length ops)"] by (simp del: upt_Suc add: Suc_diff_Suc)
    then have "Ok ((ops @ [Create (file_of D (0, i))]) @
        map (\<lambda>f. Create (file_of D (0, f))) [Suc i..<Suc i + (b - length (ops @ [Create (file_of D (0, i))]))]) =
      Ok (ops @ map (\<lambda>f. Create (file_of D (0, f))) [i..<i + (b - length ops)])" by simp
    finally show ?thesis .
  next
    case False
    then show ?thesis using 1(2) by (subst fill_first.simps) simp
  qed
qed

definition first_ops :: "nat \<Rightarrow> nat \<Rightarrow> fs_op list" where
  "first_ops b D = Mkdir root # map (\<lambda>d. Mkdir (dir_key d)) [0..<D] @
     map (\<lambda>f. Create (file_of D (0, f))) [0..<b - Suc D]"

definition batch_ops :: "nat \<Rightarrow> nat \<Rightarrow> nat \<Rightarrow> fs_op list" where
  "batch_ops i b D = map (\<lambda>f. Create (file_of D (i, f))) [0..<b]"

lemma first_batch_eq: "D < b \<Longrightarrow> first_batch b D = Ok (first_ops b D)"
proof -
  assume "D < b"
  have "traverse (\<lambda>dir_index. rbind (key_new (dir_path dir_index)) (\<lambda>k. Ok (Mkdir k))) [0..<D]
      = Ok (map (\<lambda>d. Mkdir (dir_key d)) [0..<D])" by (rule traverse_all_ok) (simp add: keys_made)
  then show ?thesis using \<open>D < b\<close> by (simp add: first_batch_def fill_first_eq first_ops_def)
qed

lemma create_file_batch_eq: "create_file_batch i b D = Ok (batch_ops i b D)"
  unfolding create_file_batch_def batch_ops_def by (rule traverse_all_ok) (simp add: keys_made file_of_def)

definition dirs_for :: "nat \<Rightarrow> nat" where
  "dirs_for b = (if b = 1 then 0 else min (b - 1) 256)"

lemma workload_eq:
  assumes "0 < n" "0 < b"
  shows "metadata_workload n b = Ok (first_ops b (dirs_for b) # map (\<lambda>i. batch_ops i b (dirs_for b)) [1..<n])"
proof -
  have "traverse (\<lambda>i. create_file_batch i b (dirs_for b)) [1..<n] = Ok (map (\<lambda>i. batch_ops i b (dirs_for b)) [1..<n])"
    by (rule traverse_all_ok) (simp add: create_file_batch_eq)
  moreover have "dirs_for b < b" using assms by (auto simp: dirs_for_def)
  moreover have "metadata_workload n b = rbind (first_batch b (dirs_for b)) (\<lambda>first.
      rbind (traverse (\<lambda>i. create_file_batch i b (dirs_for b)) [1..<n]) (\<lambda>others. Ok (first # others)))"
    using assms by (simp add: metadata_workload_def dirs_for_def Let_def)
  ultimately show ?thesis by (simp add: first_batch_eq)
qed

lemma digit_0: "digit 0 = CHR ''0''"
  by code_simp

section \<open>Running the load\<close>

lemma batch_ops_files: "batch_ops i b D = map (\<lambda>p. Create (file_of D p)) (map (Pair i) [0..<b])"
  by (simp add: batch_ops_def comp_def)

lemma run_first:
  assumes "0 < D" "D < b"
  shows "all_succeed (first_ops b D) Map.empty \<and>
    kinds (fold op_apply (first_ops b D) Map.empty) = built D D ({0} \<times> {..<b - Suc D})"
proof -
  let ?s1 = "op_apply (Mkdir root) Map.empty"
  let ?ps = "map (Pair 0) [0..<b - Suc D] :: (nat \<times> nat) list"
  have r: "op_result (Mkdir root) Map.empty = TxOk" by (simp add: op_result_def)
  have "kinds ?s1 = built D 0 {}" by (auto simp: op_apply_def kinds_def built_def fun_eq_iff inode_directory_def)
  from make_dirs [OF this, of D] have d: "all_succeed (map (\<lambda>d. Mkdir (dir_key d)) [0..<D]) ?s1"
    "kinds (fold op_apply (map (\<lambda>d. Mkdir (dir_key d)) [0..<D]) ?s1) = built D D {}" by simp_all
  have f: "map (\<lambda>f. Create (file_of D (0, f))) [0..<b - Suc D] = map (\<lambda>p. Create (file_of D p)) ?ps" by (simp add: comp_def)
  have "set ?ps = {0} \<times> {..<b - Suc D}" "distinct ?ps" by (auto simp: distinct_map inj_on_def)
  with make_files [OF d(2) assms(1), of ?ps] show ?thesis
    unfolding first_ops_def f by (simp add: r d(1) all_succeed_append)
qed

lemma run_others:
  assumes "kinds s = built D D F" "0 < D" "F \<subseteq> {..<m} \<times> UNIV"
  shows "all_succeed (concat (map (\<lambda>i. batch_ops i b D) [m..<m + n])) s \<and>
    kinds (fold op_apply (concat (map (\<lambda>i. batch_ops i b D) [m..<m + n])) s) = built D D (F \<union> {m..<m + n} \<times> {..<b})"
proof (induction n)
  case (Suc n)
  let ?xs = "concat (map (\<lambda>i. batch_ops i b D) [m..<m + n])" and ?F = "F \<union> {m..<m + n} \<times> {..<b}"
  let ?ps = "map (Pair (m + n)) [0..<b]"
  have p: "set ?ps = {m + n} \<times> {..<b}" "distinct ?ps" by (auto simp: distinct_map inj_on_def)
  then have "set ?ps \<inter> ?F = {}" using assms(3) by auto
  note f = make_files [OF conjunct2 [OF Suc.IH] assms(2) p(2) this, folded batch_ops_files]
  have "?F \<union> set ?ps = F \<union> {m..<m + Suc n} \<times> {..<b}" unfolding p(1) by (auto simp: less_Suc_eq)
  with f Suc.IH show ?case by (simp add: all_succeed_append)
qed (use assms(1) in simp)

lemma ops_valid: "list_all valid_op (first_ops b D)" "list_all valid_op (batch_ops i b D)"
  by (auto simp: first_ops_def batch_ops_def list_all_iff valid_op_def file_of_def)

text \<open>C29: From two operations per batch on, the load does what it is made for: it has the asked number of batches,
  each of the asked size, all its paths are valid, and executed serially from the empty state every single
  operation succeeds. It leaves exactly the root, the directories and one file for each remaining operation.\<close>

theorem workload_builds_its_tree:
  assumes "1 \<le> n" "2 \<le> b"
  shows "\<exists>bs. metadata_workload n b = Ok bs \<and> length bs = n \<and> list_all (\<lambda>ops. length ops = b) bs \<and>
    list_all valid_op (concat bs) \<and> all_succeed (concat bs) Map.empty \<and>
    kinds (fold op_apply (concat bs) Map.empty) =
      built (dirs_for b) (dirs_for b) ({0} \<times> {..<b - Suc (dirs_for b)} \<union> {1..<n} \<times> {..<b})"
proof -
  let ?D = "dirs_for b" and ?o = "\<lambda>i. batch_ops i b (dirs_for b)"
  let ?bs = "first_ops b ?D # map ?o [1..<n]"
  have D: "0 < ?D" "?D < b" using assms by (auto simp: dirs_for_def)
  note f = run_first [OF D]
  have "{0} \<times> {..<b - Suc ?D} \<subseteq> {..<1 :: nat} \<times> UNIV" by auto
  from run_others [OF conjunct2 [OF f] D(1) this, of b "n - 1"] f assms(1)
  have "all_succeed (concat ?bs) Map.empty \<and>
    kinds (fold op_apply (concat ?bs) Map.empty) = built ?D ?D ({0} \<times> {..<b - Suc ?D} \<union> {1..<n} \<times> {..<b})"
    by (simp add: all_succeed_append)
  moreover have "list_all (\<lambda>ops. length ops = b) ?bs" using D by (simp add: list_all_iff first_ops_def batch_ops_def)
  moreover have "list_all valid_op (concat ?bs)" using ops_valid by (auto simp: list_all_iff)
  ultimately show ?thesis using workload_eq [of n b] assms by (intro exI [of _ ?bs]) simp
qed

theorem workload_builds_its_tree_witness:
  "\<exists>bs. metadata_workload 3 2 = Ok bs \<and> length bs = 3 \<and> all_succeed (concat bs) Map.empty"
  using workload_builds_its_tree [of 3 2] by auto

text \<open>With one operation per batch the load fails: no directory is ever made, so all but the first operation
  create a file below the missing \<open>/dir_0\<close>, every one of them ends with \<open>NotFound\<close>, and only the root exists.\<close>

theorem single_operation_workload_fails:
  assumes "1 \<le> n"
  shows "\<exists>bs. metadata_workload n 1 = Ok ([Mkdir root] # bs) \<and> length bs = n - 1 \<and>
    (\<forall>ops \<in> set bs. \<exists>k. ops = [Create k] \<and> as_str (parent_of k) = ''/dir_0'' \<and>
      op_result (Create k) [root \<mapsto> inode_directory 0] = NotFound) \<and>
    fold op_apply (Mkdir root # concat bs) Map.empty = [root \<mapsto> inode_directory 0]"
proof -
  obtain s :: fs_state where s: "[root \<mapsto> inode_directory 0] = s" by blast
  let ?bs = "map (\<lambda>i. batch_ops i 1 0) [1..<n]"
  have k: "op_result (Create (file_of 0 p)) s = NotFound \<and> op_apply (Create (file_of 0 p)) s = s" for p
    by (simp add: op_result_def op_apply_def op_insert_def file_of_def flip: s)
  have b: "batch_ops i 1 0 = [Create (file_of 0 (i, 0))]" for i by (simp add: batch_ops_def)
  have p: "as_str (parent_of (file_of 0 q)) = ''/dir_0''" for q
    by (simp add: file_of_def dir_key_def key_of_segments_def dir_segment_def show_nat.simps [of 0] digit_0)
  have "fold op_apply (concat (map (\<lambda>i. batch_ops i 1 0) xs)) s = s" for xs
    by (induction xs) (simp_all add: b [simplified] k)
  moreover have "op_apply (Mkdir root) Map.empty = s" by (simp add: op_apply_def flip: s)
  moreover have "metadata_workload n 1 = Ok ([Mkdir root] # ?bs)"
    using workload_eq [of n 1] assms by (simp add: dirs_for_def first_ops_def)
  ultimately show ?thesis unfolding s by (intro exI [of _ ?bs]) (auto simp: b [simplified] k p)
qed

theorem single_operation_workload_fails_witness:
  "\<exists>bs. metadata_workload 3 1 = Ok ([Mkdir root] # bs) \<and> length bs = 2"
  using single_operation_workload_fails [of 3] by auto

end
