(* ===== verification/Spec2Isabelle.thy ===== *)
theory Spec2Isabelle
  imports SccCluster AriaCluster Workload
begin

text \<open>
  A model of the deterministic transaction engine for a sharded file system (a Rust crate; file names
  below are under \<open>src/\<close>). Clients send file-system operations to a sequencer, which numbers them, groups
  them into batches and sends each batch to all shards (\<open>engine.rs\<close>, \<open>service.rs\<close>). A shard owns the keys
  whose hash it has (\<open>router.rs\<close>) and keeps their inodes in a store (\<open>storage.rs\<close>). All shards execute a
  batch together, under one of three schedulers, and must end with the effect of a serial execution:
  under the locking scheduler in batch order, under the speculative and the optimistic one in an order
  they record. \<open>checker.rs\<close> is the reference the tests compare with.

  How the program is modelled. A record of the code is a record, an enumeration a datatype, \<open>u64\<close> and
  \<open>u32\<close> are words with the code's wrapping, checked or saturating operations, \<open>usize\<close> is \<open>nat\<close>, a
  \<open>BTreeMap\<close> is a map and a \<open>BTreeSet\<close> a set, listed in the order of its keys wherever the code
  iterates. A fallible function returns \<open>error + 'a\<close>; one that changes state before it fails returns the
  state with the error. A sequential handler is a function; tasks that interleave (the workers and the
  batches of all shards) are \<open>inductive\<close> step relations over the state of the whole cluster, one step
  from one await to the next, so a theorem about all runs is one about all schedules and all orders of
  messages.

  Theories and what they model:

  \<^item> \<open>Prelude\<close>: machine integers, the question mark operator (\<open>rbind\<close>, \<open>traverse\<close>, \<open>fold_res\<close>), string
    functions, generic lemmas.
  \<^item> \<open>Model\<close>, \<open>Paths\<close> (\<open>model.rs\<close>, \<open>error.rs\<close>): the data, \<open>Key::new\<close> and \<open>Key::parent\<close>; paths as segment lists.
  \<^item> \<open>Router\<close> (\<open>router.rs\<close>), \<open>Executor\<close> (\<open>executor.rs\<close>): ownership and participants; sets and execution of
    an operation. \<open>FsSpec\<close> is the abstract specification of the operations on a state (\<open>op_output\<close>,
    \<open>op_apply\<close>) and the refinement of it, \<open>FsTree\<close> the tree invariant.
  \<^item> \<open>Checker\<close>, \<open>Harness\<close> (\<open>checker.rs\<close>): reference execution, checks of records and results, merge of the
    dumps; what an accepted check establishes, and that complete and agreeing records are accepted.
  \<^item> \<open>Storage\<close> (\<open>storage.rs\<close>): the store over a table and an encoding, which are parameters with laws.
  \<^item> \<open>Registry\<close> (\<open>engine.rs\<close>): the mailboxes of the workers and the results clients wait for.
  \<^item> \<open>Lock\<close> (\<open>lock.rs\<close>), \<open>LockRun\<close>, \<open>LockInv\<close>, \<open>LockStep\<close>, \<open>LockSerial\<close>, \<open>LockProgress\<close>, \<open>LockSpawn\<close>: the lock
    table and the batch loop two schedulers share, as a transition system over an arbitrary executor that
    satisfies the locale \<open>lock_executor\<close>: invariant, serial effect, termination, progress.
    \<open>Calvin\<close>, \<open>CalvinTheorems\<close> (\<open>execute_calvin_batch\<close>, \<open>TxWorker\<close>) interpret it for the locking scheduler,
    \<open>AriaLocking\<close> (\<open>execute_aria_fallback_batch\<close>) for the fallback of the optimistic one. \<open>LockLate\<close>: shards
    that spawn their workers at different moments, and the reduction of such a run to one in which all
    have spawned them at the start.
  \<^item> \<open>Delta\<close>, \<open>SccPlan\<close>, \<open>SccDag\<close>, \<open>SccRead\<close> (\<open>scc.rs\<close>): deltas, conflict tables and plan, graph runtime, commit
    slots and materialized reads. \<open>SccSound\<close> shows what the conflict relation lets pass.
    \<open>SccRun\<close>, \<open>SccWorker\<close>, \<open>SccCorrect\<close>, \<open>SccStep\<close>, \<open>SccProgress\<close>, \<open>SccInstall\<close>, \<open>SccAbort\<close>, \<open>SccTheorems\<close>, \<open>SccFallback\<close>,
    \<open>SccOutcome\<close>, \<open>SccBatch\<close> (\<open>execute_scc_batch\<close>, \<open>SccWorker\<close>): the speculative workers of all shards, the end
    of the batch, the locked fallback, the results and the summary; in \<open>SccBatch\<close> a shard goes from one to
    the next at its own pace.
  \<^item> \<open>Aria\<close>, \<open>AriaSerial\<close>, \<open>AriaInv\<close>, \<open>AriaRun\<close>, \<open>AriaProgress\<close>, \<open>AriaTheorems\<close>, \<open>AriaBatch\<close> (\<open>execute_aria_batch\<close>, its
    coordinators and \<open>AriaBatchRegistry\<close>): the optimistic scheduler with its notifications, and in \<open>AriaBatch\<close>
    the rerun, which a shard starts as soon as it has installed.
  \<^item> \<open>Sequencer\<close> (\<open>SequencerActor\<close>, \<open>run_batch_dispatcher\<close>): the actor as a fold over its commands, the dispatcher
    as a fold over its jobs.
  \<^item> \<open>Convert\<close>, \<open>Profile\<close> (\<open>convert.rs\<close>, the profiles of \<open>model.rs\<close> and \<open>engine.rs\<close>): messages and conversions.
  \<^item> \<open>Service\<close> (\<open>service.rs\<close>, \<open>ShardRuntime\<close>, \<open>run_batch_executor\<close>): the handlers and the requests of their callers.
  \<^item> \<open>Cluster\<close>, \<open>RecordedLog\<close>, \<open>SccCluster\<close>, \<open>AriaCluster\<close>: logs of batches that all shards run one after the
    other, one theory per scheduler (\<open>calvin_execution\<close>, \<open>scc_execution\<close>, \<open>aria_execution\<close> hand the stores and
    the records from batch to batch); what two of them share about recorded orders. Within a batch no shard
    waits for another but where the code does; the dispatcher waits for all shards between batches.
  \<^item> \<open>Workload\<close> (\<open>workload.rs\<close>): the generated load.

  What the lemmas show. For each scheduler: every reachable state satisfies an invariant that ties the
  locks, mailboxes, slots and stores to the serial execution; every run ends; a run that cannot go on
  has finished, up to the two defects of the code below; a finished run has the serial effect. The executor
  refines the specification, the store the abstract state; the plan of a speculative batch is its conflict
  relation, and a delta computed on a stale state executes its operation. The sequencer orders and loses
  nothing. The conversions are exact: a message is accepted iff it encodes a value with valid keys, so a
  remote call is the registry operation its caller means, and no request can put an ill-typed entry
  into a registry. In this theory the parts meet: operations submitted to the sequencer can be run to
  the end by all shards under each scheduler, and however the shards interleave, what they leave passes
  the checks of the harness and is the serial execution by the specification, in the order of the numbers
  or in the recorded order.

  Interfaces are locales, interpreted on the model's own definitions: a lock executor and its prologue
  (\<open>LockInv\<close>, \<open>LockSpawn\<close>; interpreted in \<open>Calvin\<close> and \<open>AriaLocking\<close>), what a shard does before its locks
  (\<open>LockLate\<close>; interpreted in \<open>CalvinTheorems\<close>, \<open>SccBatch\<close> and \<open>AriaBatch\<close>), a scheduler that records its order
  (\<open>RecordedLog\<close>; interpreted in \<open>SccCluster\<close> and \<open>AriaCluster\<close>), the inode store and its table (\<open>Storage\<close>).

  Bounds. A sequencer is assumed to use up fewer than \<open>2 ^ 64 - 1\<close> numbers and to have a batch size of at
  most \<open>2 ^ 32\<close>: beyond, the counters of the code wrap. An optimistic batch must have indices of 32 bits, which
  is what its messages carry. A tree holds at most \<open>2 ^ 64\<close> inodes, or a child count wraps. No fuel is
  used: every function terminates, and the termination of runs is a theorem.

  Defects the model shows, each with a theorem or at the given definition: a lost notification lets an optimistic
  batch sleep for ever (\<open>aria_wait_can_hang\<close>); a failed speculation can abort the batch of another
  shard (\<open>failed_speculation_can_abort_batch\<close>); a rename of a directory below itself destroys the tree
  (\<open>rename_below_itself_breaks_tree\<close>); a late message leaves a mailbox for ever
  (\<open>late_message_is_never_removed\<close>); a load of single operations makes no directory
  (\<open>single_operation_workload_fails\<close>); a refused batch uses up numbers (\<open>handle_submit_batch\<close>).

  Not modelled: the transport (a call returns its response, a lost connection is one of the errors the
  code hands on), the capacities of the channels (they delay a sender), the passing of time (a timer fires
  at any moment), crashes and restarts (the store is in memory), the measuring of the profiles inside the
  batch functions, logging, the reading of the environment, module declarations and the build script. The
  table and the encoding of the store belong to other crates and are parameters. Under \<open>tests/\<close>,
  \<open>scripts/\<close> and \<open>results/\<close> there is nothing of the program itself.
\<close>

section \<open>Properties that span components\<close>

lemma actor_sends:
  assumes "total_cost cmds < 2 ^ 64 - 1" "n \<le> 2 ^ 32"
    and "list_all Q (concat (map command_ops cmds))"
    and "run_sequencer_actor cmds (sequencer_new L policy n) = (replies, s)"
  shows "sequencer_ok s" "op ` all_txs s \<subseteq> Collect Q"
proof -
  have "later (total_cost cmds) (sequencer_new L policy n) s"
    by (rule run_later [OF sequencer_new_inv sequencer_new_room [OF assms(2,1)] assms(4)])
  then show "sequencer_ok s" by (simp add: later_def sequencer_inv_def)
  show "op ` all_txs s \<subseteq> Collect Q"
    using run_txs_submitted [OF assms(4)] assms(3)
    by (auto simp: list_all_iff all_txs_def sequencer_new_def sent_txs_def open_txs_def)
qed

lemma sent_txs_concat: "concat (map txs (map dj_batch (sq_dispatched s))) = sent_txs s"
  by (simp add: sent_txs_def comp_def)

text \<open>C1: The way of an operation through the program. Whatever commands clients and timers send to the
  sequencer, if their operations are ones the service decodes: every batch it sends reaches each shard as
  it was sent; all shards accept the batches and can run them to the end under the locking scheduler, one
  after the other; and whatever the schedule, the dumps of the shards merge, the merged state is the one of
  executing the sent operations one by one, in the order of their numbers, by the specification of the
  operations, and the result check of the harness accepts the records of all shards.\<close>

theorem submitted_operations_run_serially:
  assumes "total_cost cmds < 2 ^ 64 - 1" "n \<le> 2 ^ 32" "0 < shard_count L"
    and "list_all valid_op (concat (map command_ops cmds))"
    and "run_sequencer_actor cmds (sequencer_new L policy n) = (replies, s)"
    and "distinct shards" "set shards = {sh. sh < shard_count L}"
  shows "let bs = map dj_batch (sq_dispatched s) in
    (\<forall>b \<in> set bs. execute_batch_request (Some (batch_to_proto b)) = Inr b) \<and>
    (\<exists>stores records. calvin_execution L (set shards) bs stores records) \<and>
    (\<forall>stores records. calvin_execution L (set shards) bs stores records \<longrightarrow>
       merge_shard_states L (map (\<lambda>sh. (sh, stores sh)) shards) =
         Ok (fold (\<lambda>t. op_apply (op t)) (sent_txs s) Map.empty) \<and>
       assert_tx_results_consistent L bs (concat (map records shards)) = Ok ())"
proof -
  let ?bs = "map dj_batch (sq_dispatched s)"
  note ok = actor_sends [OF assms(1,2,4,5)]
  note fit = sent_batches_fit [OF ok _ assms(3), folded assms(7)]
  have v: "valid_tx t" if "t \<in> set (sent_txs s)" for t using that fit(3) by (auto simp: sent_txs_def)
  have r: "reference_execute_batches ?bs = fold (\<lambda>t. op_apply (op t)) (sent_txs s) Map.empty"
    unfolding reference_execute_batches_concat sent_txs_concat by (rule run_txs_op_apply [OF v])
  have a: "\<forall>t \<in> set (concat (map txs ?bs)). valid_op (op t) \<and> p_active (participants_of L t) \<subseteq> set shards"
    using fit(3) v by (fastforce simp: valid_tx_def)
  have "distinct (map tx_id (concat (map txs ?bs)))"
    using dispatched_batches(2) [OF ok(1)] by (simp add: strict_sorted_iff comp_def)
  note checks = calvin_cluster_merges [OF _ a assms(6,7,3)] calvin_cluster_results [OF _ a assms(6) order_refl this]
  have "\<exists>stores records. calvin_execution L (set shards) ?bs stores records"
    by (rule calvin_execution_exists) (use fit in auto)
  moreover have "\<forall>b \<in> set ?bs. execute_batch_request (Some (batch_to_proto b)) = Inr b"
    using fit(2) by (auto simp: execute_batch_request_def batch_roundtrip to_reply_def)
  ultimately show ?thesis using checks unfolding r Let_def by blast
qed

theorem submitted_operations_run_serially_witness:
  "\<exists>replies s stores records. run_sequencer_actor some_commands (sequencer_new \<lparr>shard_count = 1\<rparr> StaticReadWriteSet 2) = (replies, s) \<and>
     calvin_execution \<lparr>shard_count = 1\<rparr> {0} (map dj_batch (sq_dispatched s)) stores records \<and>
     merge_shard_states \<lparr>shard_count = 1\<rparr> [(0, stores 0)] = Ok [root \<mapsto> inode_directory 0]"
proof -
  obtain replies s where s: "run_sequencer_actor some_commands (sequencer_new \<lparr>shard_count = 1\<rparr> StaticReadWriteSet 2) = (replies, s)"
    by fastforce
  have v: "list_all valid_op (concat (map command_ops some_commands))" by (simp add: some_commands_def valid_op_def)
  have z: "set [0] = {sh :: shard_id. sh < shard_count \<lparr>shard_count = 1\<rparr>}" by (auto simp: word_less_nat_alt unat_eq_zero)
  have "map op (sent_txs s) = [Mkdir root, Stat root, Stat root]"
    using s unfolding some_commands_run Let_def by (auto simp: sent_txs_def)
  then have "fold op_apply (map op (sent_txs s)) Map.empty = [root \<mapsto> inode_directory 0]"
    by (simp add: op_apply_def op_output.simps fun_eq_iff)
  then have f: "fold (\<lambda>t. op_apply (op t)) (sent_txs s) Map.empty = [root \<mapsto> inode_directory 0]" by (simp add: fold_map comp_def)
  from submitted_operations_run_serially [OF some_commands_cost _ _ v s _ z] s
  show ?thesis by (auto simp: f Let_def)
qed

text \<open>C2: The way of an operation under the speculative scheduler. If no operation moves a directory below
  itself, all shards accept the batches the sequencer sends and can run them to the end, one after the
  other. And whatever the schedule, when they have: the reorder records of all shards are consistent; they
  determine an order of the sent transactions, in which only those of one batch change places; the dumps
  merge into the state of executing the operations one by one in that order, which is the one the
  reordered reference computes, and a well-formed tree; and the result check accepts all records.\<close>

theorem submitted_operations_run_in_recorded_order:
  assumes "total_cost cmds < 2 ^ 64 - 1" "n \<le> 2 ^ 32" "0 < shard_count L"
    and "list_all (\<lambda>fs. valid_op fs \<and> \<not> moves_into_itself fs) (concat (map command_ops cmds))"
    and "run_sequencer_actor cmds (sequencer_new L policy n) = (replies, s)"
    and "distinct shards" "set shards = {sh. sh < shard_count L}"
  shows "let bs = map dj_batch (sq_dispatched s) in
    (\<exists>stores reorders records. scc_execution L (set shards) bs stores reorders records) \<and>
    (\<forall>stores reorders records. scc_execution L (set shards) bs stores reorders records \<longrightarrow>
      (\<exists>rs m. assert_scc_reorders_consistent bs (map (\<lambda>sh. (sh, map_values (reorders sh))) shards) = Ok rs \<and>
        (\<forall>b \<in> set bs. \<exists>r. rs (batch_id b) = Some r \<and> mset (permuted_txs b r) = mset (txs b)) \<and>
        merge_shard_states L (map (\<lambda>sh. (sh, stores sh)) shards) = Ok m \<and>
        reference_execute_scc_reordered_batches bs rs = Ok m \<and>
        m = fold (\<lambda>t. op_apply (op t)) (concat (map (\<lambda>b. permuted_txs b (the (rs (batch_id b)))) bs)) Map.empty \<and>
        tree_inv m \<and> assert_tx_results_consistent L bs (concat (map records shards)) = Ok ()))"
proof -
  let ?bs = "map dj_batch (sq_dispatched s)"
  note ok = actor_sends [OF assms(1,2,4,5)]
  note log = sent_batches_log [OF ok assms(3), folded assms(7)]
  have f: "scc_fit L (set shards) ?bs" using log dispatched_batches(3) [OF ok(1)] by (auto simp: scc_fit_def)
  have "all_asked L shards" using assms(3,6,7) by (simp add: all_asked_def)
  note runs = speculative.runs_in_recorded_order [OF f this] and pass = permuted_log_passes [OF f assms(6) log(3) permuted_log_mset]
  show ?thesis unfolding Let_def
  proof (intro conjI allI impI conjunct1 [OF runs])
    fix stores reorders records assume e: "scc_execution L (set shards) ?bs stores reorders records"
    show "\<exists>rs m. assert_scc_reorders_consistent ?bs (map (\<lambda>sh. (sh, map_values (reorders sh))) shards) = Ok rs \<and>
        (\<forall>b \<in> set ?bs. \<exists>r. rs (batch_id b) = Some r \<and> mset (permuted_txs b r) = mset (txs b)) \<and>
        merge_shard_states L (map (\<lambda>sh. (sh, stores sh)) shards) = Ok m \<and>
        reference_execute_scc_reordered_batches ?bs rs = Ok m \<and>
        m = fold (\<lambda>t. op_apply (op t)) (concat (map (\<lambda>b. permuted_txs b (the (rs (batch_id b)))) ?bs)) Map.empty \<and>
        tree_inv m \<and> assert_tx_results_consistent L ?bs (concat (map records shards)) = Ok ()"
      using conjunct2 [OF runs, rule_format, OF e] pass by blast
  qed
qed

theorem submitted_operations_run_in_recorded_order_witness:
  "\<exists>replies s stores reorders records m.
     run_sequencer_actor some_commands (sequencer_new \<lparr>shard_count = 1\<rparr> StaticReadWriteSet 2) = (replies, s) \<and>
     map op (sent_txs s) = [Mkdir root, Stat root, Stat root] \<and>
     scc_execution \<lparr>shard_count = 1\<rparr> {0} (map dj_batch (sq_dispatched s)) stores reorders records \<and>
     merge_shard_states \<lparr>shard_count = 1\<rparr> [(0, stores 0)] = Ok m \<and> tree_inv m"
proof -
  obtain replies s where s: "run_sequencer_actor some_commands (sequencer_new \<lparr>shard_count = 1\<rparr> StaticReadWriteSet 2) = (replies, s)"
    by fastforce
  have v: "list_all (\<lambda>fs. valid_op fs \<and> \<not> moves_into_itself fs) (concat (map command_ops some_commands))"
    by (simp add: some_commands_def valid_op_def moves_into_itself_def)
  have z: "set [0] = {sh :: shard_id. sh < shard_count \<lparr>shard_count = 1\<rparr>}" by (auto simp: word_less_nat_alt unat_eq_zero)
  have o: "map op (sent_txs s) = [Mkdir root, Stat root, Stat root]"
    using s unfolding some_commands_run Let_def by (auto simp: sent_txs_def)
  from submitted_operations_run_in_recorded_order [OF some_commands_cost _ _ v s _ z] obtain stores reorders records where
    "scc_execution \<lparr>shard_count = 1\<rparr> (set [0]) (map dj_batch (sq_dispatched s)) stores reorders records"
    "\<exists>m. merge_shard_states \<lparr>shard_count = 1\<rparr> [(0, stores 0)] = Ok m \<and> tree_inv m"
    by (simp add: Let_def) blast
  then show ?thesis using s o by auto
qed

text \<open>C3: The way of an operation under the optimistic scheduler. All shards accept the batches the sequencer
  sends and can run them to the end, one after the other. And whatever the schedule, when they have: the
  reorder records of all shards are consistent; they determine an order of the sent transactions, in which
  only those of one batch change places; the dumps merge into the state of executing the operations one by
  one in that order, which is the one the reordered reference computes; and each transaction is reported
  once, by the shard its number selects, with the result of its turn in that order.\<close>

theorem submitted_operations_run_optimistically:
  assumes "total_cost cmds < 2 ^ 64 - 1" "n \<le> 2 ^ 32" "0 < shard_count L"
    and "list_all valid_op (concat (map command_ops cmds))"
    and "run_sequencer_actor cmds (sequencer_new L policy n) = (replies, s)"
    and "distinct shards" "set shards = {sh. sh < shard_count L}"
  shows "let bs = map dj_batch (sq_dispatched s) in
    (\<exists>stores reorders records. aria_execution L (set shards) bs stores reorders records) \<and>
    (\<forall>stores reorders records. aria_execution L (set shards) bs stores reorders records \<longrightarrow>
      (\<exists>rs m ts. assert_scc_reorders_consistent bs (map (\<lambda>sh. (sh, map_values (reorders sh))) shards) = Ok rs \<and>
        (\<forall>b \<in> set bs. \<exists>r. rs (batch_id b) = Some r \<and> mset (permuted_txs b r) = mset (txs b)) \<and>
        ts = concat (map (\<lambda>b. permuted_txs b (the (rs (batch_id b)))) bs) \<and>
        merge_shard_states L (map (\<lambda>sh. (sh, stores sh)) shards) = Ok m \<and>
        reference_execute_scc_reordered_batches bs rs = Ok m \<and>
        m = fold (\<lambda>t. op_apply (op t)) ts Map.empty \<and>
        (\<forall>sh \<in> set shards. mset (records sh) =
          mset (turn_records (\<lambda>t. {aria_result_shard (tx_id t) (shard_count L)}) Map.empty ts sh))))"
proof -
  note ok = actor_sends [OF assms(1,2,4,5)]
  note sent = sent_batches_fit [OF ok _ assms(3)]
  have "aria_log (map dj_batch (sq_dispatched s))"
    using sent(3) dispatched_batches(1) [OF ok(1)] by (auto simp: aria_log_def strict_sorted_iff comp_def)
  then have "aria_fit L (set shards) (map dj_batch (sq_dispatched s))" using sent(1) by (auto simp: aria_fit_def)
  moreover have "all_asked L shards" using assms(3,6,7) by (simp add: all_asked_def)
  ultimately show ?thesis unfolding Let_def by (rule optimistic.runs_in_recorded_order)
qed

theorem submitted_operations_run_optimistically_witness:
  "\<exists>replies s stores reorders records.
     run_sequencer_actor some_commands (sequencer_new \<lparr>shard_count = 1\<rparr> TxIdModulo 2) = (replies, s) \<and>
     aria_execution \<lparr>shard_count = 1\<rparr> {0} (map dj_batch (sq_dispatched s)) stores reorders records \<and>
     (\<exists>m. merge_shard_states \<lparr>shard_count = 1\<rparr> [(0, stores 0)] = Ok m)"
proof -
  obtain replies s where s: "run_sequencer_actor some_commands (sequencer_new \<lparr>shard_count = 1\<rparr> TxIdModulo 2) = (replies, s)"
    by fastforce
  have v: "list_all valid_op (concat (map command_ops some_commands))" by (simp add: some_commands_def valid_op_def)
  have z: "set [0] = {sh :: shard_id. sh < shard_count \<lparr>shard_count = 1\<rparr>}" by (auto simp: word_less_nat_alt unat_eq_zero)
  from submitted_operations_run_optimistically [OF some_commands_cost _ _ v s _ z] obtain stores reorders records where
    "aria_execution \<lparr>shard_count = 1\<rparr> (set [0]) (map dj_batch (sq_dispatched s)) stores reorders records"
    "\<exists>m. merge_shard_states \<lparr>shard_count = 1\<rparr> [(0, stores 0)] = Ok m"
    by (simp add: Let_def) blast
  then show ?thesis using s by auto
qed

end
